(* ===== verification/Prelude.thy ===== *)
theory Prelude
  imports Main "HOL-Library.Word"
begin

text \<open>
  Shared vocabulary of the development: the machine integers of the Rust sources, the
  result type of a fallible function, the combinators that stand for the
  \<^verbatim>\<open>?\<close> operator and for a loop that may return early, and the generic
  lemmas on lists, options and words that the component theories use.

  A fallible function returns a value of type \<^verbatim>\<open>'a result\<close>. \<open>Inl (Bail m)\<close> is
  \<^verbatim>\<open>Err\<close> with the fixed part of its message, \<open>Inl (Panicked m)\<close> is a panic: it does
  not return to the caller, so it is propagated by every combinator exactly as an
  error is, and the theorems tell the two apart.
\<close>

unbundle bit_operations_syntax

named_theorems result_simps \<open>rewriting of sequenced fallible computations\<close>
named_theorems wire_simps \<open>rewriting of protobuf encodings\<close>
named_theorems inv_intros \<open>preservation of component invariants\<close>

section \<open>Machine integers\<close>

type_synonym u8 = "8 word"
type_synonym u16 = "16 word"
type_synonym u32 = "32 word"
type_synonym u64 = "64 word"

text \<open>A signed value is a word read with \<open>sint\<close>; arithmetic wraps, as in a release build.\<close>

type_synonym i32 = "32 word"
type_synonym i64 = "64 word"

abbreviation (input) u64_max :: u64 where
  "u64_max \<equiv> 0xFFFFFFFFFFFFFFFF"

text \<open>\<^verbatim>\<open>saturating_sub\<close> on an unsigned integer.\<close>

definition saturating_sub :: "'a::len word \<Rightarrow> 'a word \<Rightarrow> 'a word" where
  "saturating_sub a b = (if a < b then 0 else a - b)"

lemma saturating_sub_add: "b \<le> a \<Longrightarrow> saturating_sub a b + b = a"
  by (simp add: saturating_sub_def leD)

lemma saturating_sub_zero [simp]: "saturating_sub a 0 = a"
  by (simp add: saturating_sub_def)

lemma unat_saturating_sub: "unat (saturating_sub a b) = unat a - unat b"
  by (auto simp: saturating_sub_def word_less_nat_alt unat_sub_if_size)

lemma unat_u64_less: "unat (v::u64) < 2 ^ 64"
  by (rule order.strict_trans2 [OF unsigned_less]) simp

section \<open>Fallible computations\<close>

datatype fault = Bail string | Panicked string

type_synonym 'a result = "fault + 'a"

primrec is_panic :: "fault \<Rightarrow> bool" where
  "is_panic (Bail m) \<longleftrightarrow> False"
| "is_panic (Panicked m) \<longleftrightarrow> True"

text \<open>The \<^verbatim>\<open>?\<close> operator: \<open>attempt m k\<close> is \<^verbatim>\<open>let x = m?; k(x)\<close>.\<close>

primrec attempt :: "'e + 'a \<Rightarrow> ('a \<Rightarrow> 'e + 'b) \<Rightarrow> 'e + 'b" where
  "attempt (Inl e) k = Inl e"
| "attempt (Inr x) k = k x"

lemma attempt_Inr_iff [result_simps]:
  "attempt m k = Inr y \<longleftrightarrow> (\<exists>x. m = Inr x \<and> k x = Inr y)"
  by (cases m) auto

lemma attempt_Inl_iff [result_simps]:
  "attempt m k = Inl e \<longleftrightarrow> m = Inl e \<or> (\<exists>x. m = Inr x \<and> k x = Inl e)"
  by (cases m) auto

lemma attempt_cong [fundef_cong]:
  "m = m' \<Longrightarrow> (\<And>x. m' = Inr x \<Longrightarrow> k x = k' x) \<Longrightarrow> attempt m k = attempt m' k'"
  by (cases m') auto

lemma attempt_assoc: "attempt (attempt m k) l = attempt m (\<lambda>x. attempt (k x) l)"
  by (cases m) auto

text \<open>\<^verbatim>\<open>for x in xs { s = f(s, x)?; }\<close>\<close>

primrec try_fold :: "('s \<Rightarrow> 'a \<Rightarrow> 'e + 's) \<Rightarrow> 's \<Rightarrow> 'a list \<Rightarrow> 'e + 's" where
  "try_fold f s [] = Inr s"
| "try_fold f s (x # xs) = attempt (f s x) (\<lambda>s'. try_fold f s' xs)"

text \<open>\<^verbatim>\<open>xs.iter().map(f).collect::<Result<Vec<_>>>()\<close>\<close>

primrec try_map :: "('a \<Rightarrow> 'e + 'b) \<Rightarrow> 'a list \<Rightarrow> 'e + 'b list" where
  "try_map f [] = Inr []"
| "try_map f (x # xs) = attempt (f x) (\<lambda>y. attempt (try_map f xs) (\<lambda>ys. Inr (y # ys)))"

lemma try_fold_append [result_simps]:
  "try_fold f s (xs @ ys) = attempt (try_fold f s xs) (\<lambda>s'. try_fold f s' ys)"
  by (induction xs arbitrary: s) (auto simp: attempt_assoc)

lemma try_fold_total:
  "(\<And>s x. x \<in> set xs \<Longrightarrow> f s x = Inr (g s x)) \<Longrightarrow> try_fold f s xs = Inr (foldl g s xs)"
  by (induction xs arbitrary: s) auto

lemma try_fold_invariant:
  assumes "try_fold f s xs = Inr t" and "P s"
    and "\<And>s x s'. x \<in> set xs \<Longrightarrow> P s \<Longrightarrow> f s x = Inr s' \<Longrightarrow> P s'"
  shows "P t"
  using assms
proof (induction xs arbitrary: s)
  case Nil
  then show ?case by simp
next
  case (Cons x xs)
  from Cons.prems(1) obtain s' where s': "f s x = Inr s'" "try_fold f s' xs = Inr t"
    by (auto simp: result_simps)
  have "P s'" using Cons.prems(2,3) s'(1) by (meson list.set_intros(1))
  with s'(2) show ?case using Cons.IH Cons.prems(3) by (meson list.set_intros(2))
qed

lemma try_map_Inr_length: "try_map f xs = Inr ys \<Longrightarrow> length ys = length xs"
  by (induction xs arbitrary: ys) (auto simp: result_simps)

lemma try_map_total: "(\<And>x. x \<in> set xs \<Longrightarrow> f x = Inr (g x)) \<Longrightarrow> try_map f xs = Inr (map g xs)"
  by (induction xs) auto

lemma try_map_Inr_nth:
  "try_map f xs = Inr ys \<Longrightarrow> i < length xs \<Longrightarrow> f (xs ! i) = Inr (ys ! i)"
  by (induction xs arbitrary: ys i) (auto simp: result_simps nth_Cons split: nat.splits)

section \<open>Lists\<close>

text \<open>\<^verbatim>\<open>v.get(i)\<close>, \<^verbatim>\<open>v.first()\<close> and \<^verbatim>\<open>v.last()\<close>.\<close>

definition nth_opt :: "'a list \<Rightarrow> nat \<Rightarrow> 'a option" where
  "nth_opt xs i = (if i < length xs then Some (xs ! i) else None)"

definition first_opt :: "'a list \<Rightarrow> 'a option" where
  "first_opt xs = (case xs of [] \<Rightarrow> None | x # _ \<Rightarrow> Some x)"

definition last_opt :: "'a list \<Rightarrow> 'a option" where
  "last_opt xs = (if xs = [] then None else Some (last xs))"

lemma nth_opt_simps [simp]:
  "nth_opt [] i = None"
  "nth_opt (x # xs) 0 = Some x"
  "nth_opt (x # xs) (Suc i) = nth_opt xs i"
  by (simp_all add: nth_opt_def)

lemma nth_opt_numeral [simp]:
  "nth_opt (x # xs) (numeral n) = nth_opt xs (pred_numeral n)"
  by (simp add: numeral_eq_Suc)

lemma first_opt_simps [simp]: "first_opt [] = None" "first_opt (x # xs) = Some x"
  by (simp_all add: first_opt_def)

lemma last_opt_simps [simp]: "last_opt [] = None" "last_opt (xs @ [x]) = Some x"
  "last_opt (x # y # xs) = last_opt (y # xs)" "last_opt [x] = Some x"
  by (simp_all add: last_opt_def)

text \<open>\<^verbatim>\<open>v[i] = f(v[i])\<close> at an index known to be in range.\<close>

definition list_modify :: "nat \<Rightarrow> ('a \<Rightarrow> 'a) \<Rightarrow> 'a list \<Rightarrow> 'a list" where
  "list_modify i f xs = xs[i := f (xs ! i)]"

lemma length_list_modify [simp]: "length (list_modify i f xs) = length xs"
  by (simp add: list_modify_def)

lemma nth_list_modify:
  "j < length xs \<Longrightarrow> list_modify i f xs ! j = (if i = j then f (xs ! j) else xs ! j)"
  by (simp add: list_modify_def nth_list_update)

lemma map_list_modify: "(\<And>x. g (f x) = g x) \<Longrightarrow> map g (list_modify i f xs) = map g xs"
  by (auto simp: list_eq_iff_nth_eq nth_list_modify)

lemma list_modify_Cons:
  "list_modify i f (x # xs) = (case i of 0 \<Rightarrow> f x # xs | Suc j \<Rightarrow> x # list_modify j f xs)"
  by (simp add: list_modify_def split: nat.splits)

lemma sum_list_modify:
  fixes g :: "'a \<Rightarrow> 'b::ab_group_add"
  assumes "i < length xs"
  shows "(\<Sum>x\<leftarrow>list_modify i f xs. g x) = (\<Sum>x\<leftarrow>xs. g x) + (g (f (xs ! i)) - g (xs ! i))"
  using assms
  by (induction xs arbitrary: i) (auto simp: list_modify_Cons algebra_simps split: nat.splits)

lemma sum_list_map_zero: "(\<And>x. x \<in> set xs \<Longrightarrow> f x = 0) \<Longrightarrow> sum_list (map f xs) = (0::'b::monoid_add)"
  by (induction xs) auto

text \<open>\<^verbatim>\<open>enumerate\<close> with a state update per element: every seat in turn.\<close>

definition map_index :: "(nat \<Rightarrow> 'a \<Rightarrow> 'b) \<Rightarrow> 'a list \<Rightarrow> 'b list" where
  "map_index f xs = map (\<lambda>(i, x). f i x) (enumerate 0 xs)"

lemma length_map_index [simp]: "length (map_index f xs) = length xs"
  by (simp add: map_index_def)

lemma nth_map_index [simp]: "i < length xs \<Longrightarrow> map_index f xs ! i = f i (xs ! i)"
  by (simp add: map_index_def nth_enumerate_eq)

lemma map_map_index: "map g (map_index f xs) = map_index (\<lambda>i x. g (f i x)) xs"
  by (simp add: map_index_def comp_def case_prod_beta)

lemma map_index_id: "(\<And>i x. f i x = g x) \<Longrightarrow> map_index f xs = map g xs"
  by (simp add: list_eq_iff_nth_eq)

lemma set_map_filter: "y \<in> set (List.map_filter f xs) \<longleftrightarrow> (\<exists>x \<in> set xs. f x = Some y)"
  by (force simp: List.map_filter_def)

end
