(* ===== verification/Rust_Text.thy ===== *)
theory Rust_Text
  imports Prelude
begin

text \<open>
  The strings of the program. A Rust \<^verbatim>\<open>String\<close> is a sequence of bytes that is valid
  UTF-8; here it is a \<^typ>\<open>string\<close>, one \<^typ>\<open>char\<close> per byte, so that \<open>length\<close> is
  \<^verbatim>\<open>str::len\<close>. This theory holds the standard-library operations the sources use:
  the UTF-8 decoder behind \<^verbatim>\<open>from_utf8\<close>, \<^verbatim>\<open>from_utf8_lossy\<close> and \<^verbatim>\<open>chars\<close>,
  \<^verbatim>\<open>trim\<close>, \<^verbatim>\<open>lines\<close>, splitting, slicing at a character boundary and integer parsing.
\<close>

section \<open>Bytes and characters\<close>

definition char_of_byte :: "u8 \<Rightarrow> char" where
  "char_of_byte b = Char (bit b 0) (bit b 1) (bit b 2) (bit b 3)
                         (bit b 4) (bit b 5) (bit b 6) (bit b 7)"

definition byte_of_char :: "char \<Rightarrow> u8" where
  "byte_of_char c = of_char c"

definition as_bytes :: "string \<Rightarrow> u8 list" where
  "as_bytes s = map byte_of_char s"

definition of_bytes :: "u8 list \<Rightarrow> string" where
  "of_bytes bs = map char_of_byte bs"

lemma char_of_byte_of_char [simp]: "char_of_byte (byte_of_char c) = c"
  by (cases c) (simp add: char_of_byte_def byte_of_char_def of_char_def bit_horner_sum_bit_word_iff)

lemma all_less_eight: "(\<forall>n < 8. P n) \<longleftrightarrow> P 0 \<and> P 1 \<and> P 2 \<and> P 3 \<and> P 4 \<and> P 5 \<and> P 6 \<and> P (7::nat)"
  by (simp add: numeral_eq_Suc All_less_Suc conj_ac)

lemma byte_of_char_of_byte [simp]: "byte_of_char (char_of_byte b) = b"
proof (rule bit_word_eqI)
  fix n assume "n < LENGTH(8)"
  moreover have "\<forall>n < 8. bit (byte_of_char (char_of_byte b)) n = bit b n"
    unfolding all_less_eight
    by (simp add: char_of_byte_def byte_of_char_def of_char_def bit_horner_sum_bit_word_iff)
  ultimately show "bit (byte_of_char (char_of_byte b)) n = bit b n" by simp
qed

lemma of_bytes_as_bytes [simp]: "of_bytes (as_bytes s) = s"
  by (simp add: of_bytes_def as_bytes_def comp_def)

lemma as_bytes_of_bytes [simp]: "as_bytes (of_bytes bs) = bs"
  by (simp add: of_bytes_def as_bytes_def comp_def)

lemma length_as_bytes [simp]: "length (as_bytes s) = length s"
  by (simp add: as_bytes_def)

lemma length_of_bytes [simp]: "length (of_bytes bs) = length bs"
  by (simp add: of_bytes_def)

lemma as_bytes_append [simp]: "as_bytes (s @ t) = as_bytes s @ as_bytes t"
  by (simp add: as_bytes_def)

section \<open>UTF-8\<close>

definition is_continuation :: "u8 \<Rightarrow> bool" where
  "is_continuation b \<longleftrightarrow> 0x80 \<le> b \<and> b \<le> 0xBF"

definition utf8_width :: "u8 \<Rightarrow> nat" where
  "utf8_width b =
     (if b < 0x80 then 1
      else if 0xC2 \<le> b \<and> b \<le> 0xDF then 2
      else if 0xE0 \<le> b \<and> b \<le> 0xEF then 3
      else if 0xF0 \<le> b \<and> b \<le> 0xF4 then 4
      else 0)"

text \<open>The second byte excludes overlong forms, surrogates and values above U+10FFFF.\<close>

definition second_ok :: "u8 \<Rightarrow> u8 \<Rightarrow> bool" where
  "second_ok b c \<longleftrightarrow>
     (if b = 0xE0 then 0xA0 \<le> c \<and> c \<le> 0xBF
      else if b = 0xED then 0x80 \<le> c \<and> c \<le> 0x9F
      else if b = 0xF0 then 0x90 \<le> c \<and> c \<le> 0xBF
      else if b = 0xF4 then 0x80 \<le> c \<and> c \<le> 0x8F
      else is_continuation c)"

text \<open>
  One step of the decoder: whether the next bytes are a character, and how many bytes
  the character, or the maximal ill-formed prefix, takes.
\<close>

fun utf8_step :: "u8 list \<Rightarrow> bool \<times> nat" where
  "utf8_step [] = (False, 1)"
| "utf8_step (b # rest) =
     (if utf8_width b = 0 then (False, 1)
      else if utf8_width b = 1 then (True, 1)
      else case rest of [] \<Rightarrow> (False, 1) | c # rest' \<Rightarrow>
        if \<not> second_ok b c then (False, 1)
        else if utf8_width b = 2 then (True, 2)
        else case rest' of [] \<Rightarrow> (False, 2) | d # rest'' \<Rightarrow>
          if \<not> is_continuation d then (False, 2)
          else if utf8_width b = 3 then (True, 3)
          else case rest'' of [] \<Rightarrow> (False, 3) | e # _ \<Rightarrow>
            if \<not> is_continuation e then (False, 3) else (True, 4))"

lemma utf8_step_pos: "utf8_step bs = (ok, n) \<Longrightarrow> 0 < n"
  by (cases bs) (auto split: if_splits list.splits)

lemma utf8_step_ok_le: "utf8_step bs = (True, n) \<Longrightarrow> n \<le> length bs"
  by (cases bs) (auto split: if_splits list.splits)

lemma utf8_step_ok_append: "utf8_step bs = (True, n) \<Longrightarrow> utf8_step (take n bs @ rest) = (True, n)"
proof (cases bs)
  case (Cons b bs')
  assume step: "utf8_step bs = (True, n)"
  show ?thesis
  proof (cases "utf8_width b = 1")
    case True
    with step Cons have "n = 1" by simp
    with True Cons show ?thesis by simp
  next
    case False
    with step Cons show ?thesis by (auto split: if_splits list.splits)
  qed
qed simp

lemma utf8_step_ascii: "b < 0x80 \<Longrightarrow> utf8_step (b # bs) = (True, 1)"
  by (simp add: utf8_width_def)

function utf8_units :: "u8 list \<Rightarrow> (bool \<times> u8 list) list" where
  "utf8_units bs =
     (if bs = [] then []
      else let (ok, n) = utf8_step bs in (ok, take n bs) # utf8_units (drop n bs))"
  by pat_completeness auto
termination
  by (relation "measure length") (auto dest: utf8_step_pos [OF sym])

declare utf8_units.simps [simp del]

lemma utf8_units_Nil [simp]: "utf8_units [] = []"
  by (simp add: utf8_units.simps)

lemma utf8_units_Cons [simp]:
  "utf8_units (b # bs) =
     (case utf8_step (b # bs) of (ok, n) \<Rightarrow> (ok, take n (b # bs)) # utf8_units (drop n (b # bs)))"
  by (simp add: utf8_units.simps [of "b # bs"] del: utf8_step.simps)

lemma utf8_units_step:
  "bs \<noteq> [] \<Longrightarrow> utf8_step bs = (ok, n) \<Longrightarrow> utf8_units bs = (ok, take n bs) # utf8_units (drop n bs)"
  by (simp add: utf8_units.simps [of bs])

lemma concat_utf8_units: "concat (map snd (utf8_units bs)) = bs"
proof (induction bs rule: utf8_units.induct)
  case (1 bs)
  obtain ok n where "utf8_step bs = (ok, n)" by fastforce
  with 1 show ?case
    by (cases "bs = []") (auto simp: utf8_units_step)
qed

definition valid_utf8 :: "u8 list \<Rightarrow> bool" where
  "valid_utf8 bs \<longleftrightarrow> (\<forall>u \<in> set (utf8_units bs). fst u)"

lemma valid_utf8_Nil [simp]: "valid_utf8 []"
  by (simp add: valid_utf8_def)

lemma utf8_units_append:
  "valid_utf8 xs \<Longrightarrow> utf8_units (xs @ ys) = utf8_units xs @ utf8_units ys"
proof (induction xs rule: utf8_units.induct)
  case (1 xs)
  show ?case
  proof (cases "xs = []")
    case False
    obtain ok n where step: "utf8_step xs = (ok, n)" by fastforce
    have units: "utf8_units xs = (ok, take n xs) # utf8_units (drop n xs)"
      using False step by (rule utf8_units_step)
    with 1(2) have ok and rest: "valid_utf8 (drop n xs)"
      by (auto simp: valid_utf8_def)
    have n: "n \<le> length xs" using step \<open>ok\<close> by (auto dest: utf8_step_ok_le)
    have "utf8_step (take n xs @ (drop n xs @ ys)) = (True, n)"
      using step \<open>ok\<close> by (intro utf8_step_ok_append) simp
    then have "utf8_step (xs @ ys) = (ok, n)" using \<open>ok\<close> by (simp add: append_assoc [symmetric])
    with False have "utf8_units (xs @ ys) = (ok, take n (xs @ ys)) # utf8_units (drop n (xs @ ys))"
      by (intro utf8_units_step) auto
    then show ?thesis
      using 1(1) False step rest units n by simp
  qed simp
qed

lemma valid_utf8_append: "valid_utf8 xs \<Longrightarrow> valid_utf8 (xs @ ys) \<longleftrightarrow> valid_utf8 ys"
  by (auto simp: valid_utf8_def utf8_units_append)

lemma valid_utf8_ascii: "(\<And>b. b \<in> set bs \<Longrightarrow> b < 0x80) \<Longrightarrow> valid_utf8 bs"
  by (induction bs) (simp_all add: valid_utf8_def utf8_step_ascii del: utf8_step.simps)

lemma valid_utf8_ascii_list: "list_all (\<lambda>b. b < 0x80) bs \<Longrightarrow> valid_utf8 bs"
  by (rule valid_utf8_ascii) (simp add: list_all_iff)

text \<open>\<^verbatim>\<open>std::str::from_utf8\<close> and \<^verbatim>\<open>String::from_utf8_lossy\<close>.\<close>

definition from_utf8 :: "u8 list \<Rightarrow> string option" where
  "from_utf8 bs = (if valid_utf8 bs then Some (of_bytes bs) else None)"

definition replacement_char :: "u8 list" where
  "replacement_char = [0xEF, 0xBF, 0xBD]"

definition from_utf8_lossy :: "u8 list \<Rightarrow> string" where
  "from_utf8_lossy bs =
     of_bytes (concat (map (\<lambda>(ok, u). if ok then u else replacement_char) (utf8_units bs)))"

lemma from_utf8_lossy_valid: "valid_utf8 bs \<Longrightarrow> from_utf8_lossy bs = of_bytes bs"
proof -
  assume "valid_utf8 bs"
  then have "map (\<lambda>(ok, u). if ok then u else replacement_char) (utf8_units bs)
               = map snd (utf8_units bs)"
    by (intro map_cong) (auto simp: valid_utf8_def)
  then show ?thesis by (simp only: from_utf8_lossy_def concat_utf8_units)
qed

lemma valid_replacement_char: "valid_utf8 replacement_char"
  by (simp add: valid_utf8_def replacement_char_def utf8_width_def second_ok_def is_continuation_def)

lemma utf8_units_unit: "(ok, u) \<in> set (utf8_units bs) \<Longrightarrow> ok \<Longrightarrow> utf8_units u = [(True, u)]"
proof (induction bs rule: utf8_units.induct)
  case (1 bs)
  show ?case
  proof (cases "bs = []")
    case False
    obtain o' n where step: "utf8_step bs = (o', n)" by fastforce
    have units: "utf8_units bs = (o', take n bs) # utf8_units (drop n bs)"
      using False step by (rule utf8_units_step)
    show ?thesis
    proof (cases "(ok, u) \<in> set (utf8_units (drop n bs))")
      case True
      then show ?thesis using 1(1) False step 1(3) by simp
    next
      case no: False
      then have u: "o' = ok" "u = take n bs" using 1(2) units by auto
      have n: "0 < n" "n \<le> length bs"
        using step 1(3) u(1) by (auto dest: utf8_step_pos utf8_step_ok_le)
      have "utf8_step (take n bs @ []) = (True, n)"
        using step 1(3) u(1) by (intro utf8_step_ok_append) simp
      then have "utf8_units u = (True, take n u) # utf8_units (drop n u)"
        using n False u(2) by (intro utf8_units_step) auto
      then show ?thesis using n u(2) by simp
    qed
  qed (use 1 in simp)
qed

lemma valid_utf8_unit: "(ok, u) \<in> set (utf8_units bs) \<Longrightarrow> ok \<Longrightarrow> valid_utf8 u"
  by (drule (1) utf8_units_unit) (simp add: valid_utf8_def)

text \<open>A lossily decoded string is always valid UTF-8, whatever bytes arrived.\<close>

lemma valid_from_utf8_lossy: "valid_utf8 (as_bytes (from_utf8_lossy bs))"
proof -
  have "valid_utf8 (concat (map (\<lambda>(ok, u). if ok then u else replacement_char) us))"
    if "\<And>ok u. (ok, u) \<in> set us \<Longrightarrow> ok \<Longrightarrow> valid_utf8 u" for us
    using that
  proof (induction us)
    case (Cons x us)
    obtain ok u where x: "x = (ok, u)" by fastforce
    have "valid_utf8 (if ok then u else replacement_char)"
      using Cons.prems x by (auto simp: valid_replacement_char)
    with Cons x show ?case by (auto simp: valid_utf8_append)
  qed simp
  then show ?thesis
    by (simp add: from_utf8_lossy_def) (metis valid_utf8_unit)
qed

text \<open>\<^verbatim>\<open>str::chars\<close>: each character as the string of its bytes.\<close>

definition str_chars :: "string \<Rightarrow> string list" where
  "str_chars s = map (\<lambda>u. of_bytes (snd u)) (utf8_units (as_bytes s))"

lemma str_chars_Nil [simp]: "str_chars [] = []"
  by (simp add: str_chars_def as_bytes_def)

lemma concat_str_chars [simp]: "concat (str_chars s) = s"
proof -
  have "concat (str_chars s) = of_bytes (concat (map snd (utf8_units (as_bytes s))))"
    by (simp add: str_chars_def of_bytes_def map_concat comp_def)
  then show ?thesis by (simp add: concat_utf8_units)
qed

definition is_ascii :: "string \<Rightarrow> bool" where
  "is_ascii s \<longleftrightarrow> (\<forall>c \<in> set s. byte_of_char c < 0x80)"

lemma str_chars_Cons_ascii:
  "byte_of_char c < 0x80 \<Longrightarrow> str_chars (c # s) = [c] # str_chars s"
  by (simp add: str_chars_def as_bytes_def of_bytes_def utf8_step_ascii del: utf8_step.simps)

lemma str_chars_ascii: "is_ascii s \<Longrightarrow> str_chars s = map (\<lambda>c. [c]) s"
  by (induction s) (auto simp: is_ascii_def str_chars_Cons_ascii)

text \<open>A character of a valid string, and two neighbouring characters, decode to themselves.\<close>

lemma str_chars_two:
  assumes "valid_utf8 (as_bytes s)" and "str_chars s = a # b # rest"
  shows "str_chars (a @ b) = [a, b]"
proof -
  from assms(2) obtain ua ub us where us: "utf8_units (as_bytes s) = ua # ub # us"
    and ab: "a = of_bytes (snd ua)" "b = of_bytes (snd ub)"
    by (auto simp: str_chars_def map_eq_Cons_conv)
  from assms(1) us have "fst ua" "fst ub" by (auto simp: valid_utf8_def)
  then have "utf8_units (snd ua) = [(True, snd ua)]" "utf8_units (snd ub) = [(True, snd ub)]"
    using us by (auto intro!: utf8_units_unit [of True _ "as_bytes s"] simp: prod_eq_iff)
  moreover from this have "valid_utf8 (snd ua)" by (simp add: valid_utf8_def)
  ultimately show ?thesis by (simp add: str_chars_def ab utf8_units_append)
qed

section \<open>Slicing and parsing\<close>

text \<open>\<^verbatim>\<open>s.get(0..n)\<close>: the first \<open>n\<close> bytes, if that is a character boundary of the string.\<close>

definition is_char_boundary :: "string \<Rightarrow> nat \<Rightarrow> bool" where
  "is_char_boundary s n \<longleftrightarrow>
     n = 0 \<or> n = length s \<or> (n < length s \<and> \<not> is_continuation (byte_of_char (s ! n)))"

definition str_get_prefix :: "string \<Rightarrow> nat \<Rightarrow> string option" where
  "str_get_prefix s n = (if is_char_boundary s n then Some (take n s) else None)"

text \<open>\<^verbatim>\<open>s.split_once(c)\<close>, \<^verbatim>\<open>s.strip_suffix(c)\<close> and \<^verbatim>\<open>s.split(c)\<close> for an ASCII character.\<close>

fun split_once :: "char \<Rightarrow> string \<Rightarrow> (string \<times> string) option" where
  "split_once c [] = None"
| "split_once c (x # xs) =
     (if x = c then Some ([], xs)
      else case split_once c xs of None \<Rightarrow> None | Some (a, b) \<Rightarrow> Some (x # a, b))"

definition strip_suffix_char :: "char \<Rightarrow> string \<Rightarrow> string option" where
  "strip_suffix_char c s = (if s \<noteq> [] \<and> last s = c then Some (butlast s) else None)"

fun split_on :: "char \<Rightarrow> string \<Rightarrow> string list" where
  "split_on c [] = [[]]"
| "split_on c (x # xs) =
     (if x = c then [] # split_on c xs
      else case split_on c xs of [] \<Rightarrow> [[x]] | y # ys \<Rightarrow> (x # y) # ys)"

lemma split_on_nonempty: "split_on c s \<noteq> []"
  by (induction s) (auto split: list.splits)

lemma split_on_no_sep: "c \<notin> set s \<Longrightarrow> split_on c s = [s]"
  by (induction s) auto

lemma split_on_append: "c \<notin> set s \<Longrightarrow> split_on c (s @ c # t) = s # split_on c t"
  by (induction s) auto

lemma split_once_append: "c \<notin> set s \<Longrightarrow> split_once c (s @ c # t) = Some (s, t)"
  by (induction s) auto

text \<open>\<^verbatim>\<open>str::parse\<close> for a signed and an unsigned 32-bit integer.\<close>

definition digit_of :: "char \<Rightarrow> nat option" where
  "digit_of c = (let d = of_char c in if 48 \<le> d \<and> d \<le> 57 then Some (d - 48) else None)"

fun parse_digits :: "nat \<Rightarrow> string \<Rightarrow> nat option" where
  "parse_digits acc [] = Some acc"
| "parse_digits acc (c # cs) =
     (case digit_of c of None \<Rightarrow> None | Some d \<Rightarrow> parse_digits (10 * acc + d) cs)"

definition parse_nat :: "string \<Rightarrow> nat option" where
  "parse_nat s = (if s = [] then None else parse_digits 0 s)"

definition parse_u32 :: "string \<Rightarrow> nat option" where
  "parse_u32 s =
     (let digits = (if s \<noteq> [] \<and> hd s = CHR ''+'' then tl s else s)
      in case parse_nat digits of
           None \<Rightarrow> None
         | Some n \<Rightarrow> if n < 2 ^ 32 then Some n else None)"

definition parse_i32 :: "string \<Rightarrow> int option" where
  "parse_i32 s =
     (let neg = s \<noteq> [] \<and> hd s = CHR ''-'';
          digits = (if s \<noteq> [] \<and> (hd s = CHR ''+'' \<or> hd s = CHR ''-'') then tl s else s)
      in case parse_nat digits of
           None \<Rightarrow> None
         | Some n \<Rightarrow> let i = (if neg then - int n else int n)
                      in if - (2 ^ 31) \<le> i \<and> i < 2 ^ 31 then Some i else None)"

lemma parse_digits_bound: "parse_digits acc s = Some n \<Longrightarrow> n < (acc + 1) * 10 ^ length s"
proof (induction acc s rule: parse_digits.induct)
  case (2 acc c cs)
  then obtain d where d: "digit_of c = Some d" "parse_digits (10 * acc + d) cs = Some n"
    by (auto split: option.splits)
  have "d < 10" using d(1) by (auto simp: digit_of_def Let_def split: if_splits)
  have "n < (10 * acc + d + 1) * 10 ^ length cs" using 2 d by simp
  also have "\<dots> \<le> (10 * (acc + 1)) * 10 ^ length cs"
    using \<open>d < 10\<close> by (intro mult_le_mono1) simp
  finally show ?case by (simp add: algebra_simps)
qed simp

text \<open>\<^verbatim>\<open>format!("{n}")\<close> for a natural number.\<close>

fun show_nat :: "nat \<Rightarrow> string" where
  "show_nat n = (if n < 10 then [char_of (n + 48)] else show_nat (n div 10) @ [char_of (n mod 10 + 48)])"

declare show_nat.simps [simp del]

section \<open>White space\<close>

text \<open>The characters with the Unicode property White\_Space, as UTF-8.\<close>

definition white_space :: "u8 list list" where
  "white_space =
     [[0x09], [0x0A], [0x0B], [0x0C], [0x0D], [0x20], [0xC2, 0x85], [0xC2, 0xA0],
      [0xE1, 0x9A, 0x80],
      [0xE2, 0x80, 0x80], [0xE2, 0x80, 0x81], [0xE2, 0x80, 0x82], [0xE2, 0x80, 0x83],
      [0xE2, 0x80, 0x84], [0xE2, 0x80, 0x85], [0xE2, 0x80, 0x86], [0xE2, 0x80, 0x87],
      [0xE2, 0x80, 0x88], [0xE2, 0x80, 0x89], [0xE2, 0x80, 0x8A],
      [0xE2, 0x80, 0xA8], [0xE2, 0x80, 0xA9], [0xE2, 0x80, 0xAF], [0xE2, 0x81, 0x9F],
      [0xE3, 0x80, 0x80]]"

definition is_white_space :: "string \<Rightarrow> bool" where
  "is_white_space c \<longleftrightarrow> as_bytes c \<in> set white_space"

definition str_trim :: "string \<Rightarrow> string" where
  "str_trim s = concat (rev (dropWhile is_white_space (rev (dropWhile is_white_space (str_chars s)))))"

text \<open>\<^verbatim>\<open>str::lines\<close>: split after each newline, a final empty piece is no line, and one
  carriage return before the newline is dropped.\<close>

definition strip_cr :: "string \<Rightarrow> string" where
  "strip_cr s = (if s \<noteq> [] \<and> last s = CHR 0x0D then butlast s else s)"

definition str_lines :: "string \<Rightarrow> string list" where
  "str_lines s =
     (let pieces = split_on CHR 0x0A s
      in map strip_cr (butlast pieces) @ (if last pieces = [] then [] else [last pieces]))"

text \<open>\<^verbatim>\<open>s.chars().take(n).collect()\<close>\<close>

definition take_chars :: "nat \<Rightarrow> string \<Rightarrow> string" where
  "take_chars n s = concat (take n (str_chars s))"

end
