(* ===== verification/Wire.thy ===== *)
theory Wire
  imports Rust_Text
begin

text \<open>
  The protobuf wire format: the encoder of the RPC client (\<^verbatim>\<open>src/majsoul/rpc.rs\<close>, modules
  \<^verbatim>\<open>wrapper\<close> and \<^verbatim>\<open>requests\<close>) and the decoder of downloaded records
  (\<^verbatim>\<open>src/majsoul/proto.rs\<close>, from \<^verbatim>\<open>decode_varint\<close> to \<^verbatim>\<open>decode_wrapper\<close>).
  The lemmas show that the two agree: every varint, field and wrapper that is written is
  read back, from any position of any buffer, and the decoders are total.
\<close>

section \<open>Variable-length integers\<close>

text \<open>\<^verbatim>\<open>wrapper::encode_varint\<close>, as the bytes it pushes.\<close>

function encode_varint :: "u64 \<Rightarrow> u8 list" where
  "encode_varint val =
     (let byte = ucast (val AND 0x7f); val' = drop_bit 7 val
      in if val' = 0 then [byte] else (byte OR 0x80) # encode_varint val')"
  by pat_completeness auto
termination
proof (relation "measure unat")
  fix byte :: u8 and val val' :: u64
  assume val': "val' = drop_bit 7 val" "val' \<noteq> 0"
  then have "unat val' = unat val div 128"
    by (simp add: drop_bit_eq_div unat_div)
  moreover have "0 < unat val'" using val'(2) by (simp add: unat_gt_0)
  ultimately show "(val', val) \<in> measure unat" by (simp add: div_greater_zero_iff)
qed simp

declare encode_varint.simps [simp del]

text \<open>\<^verbatim>\<open>proto::decode_varint\<close>; the loop state is the shift, the position and the val.\<close>

fun decode_varint_loop :: "string \<Rightarrow> u8 list \<Rightarrow> nat \<Rightarrow> nat \<Rightarrow> u64 \<Rightarrow> (u64 \<times> nat) result" where
  "decode_varint_loop too_long [] shift pos val = Inl (Bail ''Unexpected end in varint'')"
| "decode_varint_loop too_long (byte # buf) shift pos val =
     (let part = ucast (byte AND 0x7f)
      in if 64 \<le> shift \<or> drop_bit shift u64_max < part then Inl (Bail too_long)
         else let val' = val OR push_bit shift part
              in if byte AND 0x80 = 0 then Inr (val', pos + 1)
                 else decode_varint_loop too_long buf (shift + 7) (pos + 1) val')"

definition decode_varint :: "u8 list \<Rightarrow> (u64 \<times> nat) result" where
  "decode_varint buf = decode_varint_loop ''Varint too long'' buf 0 0 0"

text \<open>\<^verbatim>\<open>wrapper::decode_varint\<close>, the copy kept in \<^verbatim>\<open>rpc.rs\<close>.\<close>

definition rpc_decode_varint :: "u8 list \<Rightarrow> (u64 \<times> nat) result" where
  "rpc_decode_varint buf = decode_varint_loop ''Varint overflows u64'' buf 0 0 0"

lemma decode_varint_loop_bounds:
  "decode_varint_loop m buf shift pos val = Inr (v, n) \<Longrightarrow> pos < n \<and> n \<le> pos + length buf"
  by (induction m buf shift pos val rule: decode_varint_loop.induct)
     (fastforce simp: Let_def split: if_splits)+

lemma decode_varint_bounds: "decode_varint buf = Inr (v, n) \<Longrightarrow> 0 < n \<and> n \<le> length buf"
  by (auto simp: decode_varint_def dest: decode_varint_loop_bounds)

lemma rpc_decode_varint_bounds: "rpc_decode_varint buf = Inr (v, n) \<Longrightarrow> 0 < n \<and> n \<le> length buf"
  by (auto simp: rpc_decode_varint_def dest: decode_varint_loop_bounds)

lemma decode_varint_loop_width:
  "decode_varint_loop m buf shift pos val = Inr (v, n) \<Longrightarrow> shift \<le> 70 \<Longrightarrow> 7 * (n - pos) + shift \<le> 76"
proof (induction m buf shift pos val rule: decode_varint_loop.induct)
  case (2 m byte buf shift pos val)
  show ?case
  proof (cases "byte AND 0x80 = 0")
    case True
    with 2 show ?thesis by (auto simp: Let_def split: if_splits)
  next
    case False
    from 2(2) False have ok: "shift < 64" "\<not> drop_bit shift u64_max < (ucast (byte AND 0x7f) :: u64)"
      and rec: "decode_varint_loop m buf (shift + 7) (pos + 1)
        (val OR push_bit shift (ucast (byte AND 0x7f))) = Inr (v, n)"
      by (auto simp: Let_def split: if_splits)
    have "7 * (n - (pos + 1)) + (shift + 7) \<le> 76"
      using 2(1) [OF refl _ refl False rec] ok by (simp add: not_le)
    moreover have "pos + 1 < n" using decode_varint_loop_bounds [OF rec] by simp
    ultimately show ?thesis by simp
  qed
qed simp

lemma decode_varint_loop_panic_free: "decode_varint_loop m buf shift pos val \<noteq> Inl (Panicked e)"
  by (induction m buf shift pos val rule: decode_varint_loop.induct) (auto simp: Let_def)

subsection \<open>Round trip\<close>

lemma and_7f_take_bit: "(w::'a::len word) AND 0x7f = take_bit 7 w"
  by (simp add: take_bit_eq_mask mask_eq_exp_minus_1)

lemma ucast_low7: "ucast ((ucast (take_bit 7 v) :: u8) AND 0x7f) = take_bit 7 (v::u64)"
  by (rule bit_word_eqI) (auto simp: and_7f_take_bit bit_simps)

lemma ucast_low7_cont: "ucast (((ucast (take_bit 7 v) :: u8) OR 0x80) AND 0x7f) = take_bit 7 (v::u64)"
proof -
  have "((ucast (take_bit 7 v) :: u8) OR 0x80) AND 0x7f = (ucast (take_bit 7 v) :: u8) AND 0x7f"
    by (simp add: bit.conj_disj_distrib2)
  then show ?thesis by (simp add: ucast_low7)
qed

lemma low7_no_cont: "(ucast (take_bit 7 (v::u64)) :: u8) AND 0x80 = 0"
proof -
  have "(ucast (take_bit 7 v) :: u8) = ucast v AND 0x7f"
    by (rule bit_word_eqI) (auto simp: and_7f_take_bit bit_simps)
  then show ?thesis by (simp add: and.assoc)
qed

lemma low7_cont: "((x::u8) OR 0x80) AND 0x80 \<noteq> 0"
proof -
  have "((x OR 0x80) AND 0x80) = (0x80::u8)" by (simp add: bit.conj_disj_distrib2 and.commute)
  then show ?thesis by simp
qed

lemma part_fits:
  assumes "unat v * 2 ^ shift < 2 ^ 64"
  shows "\<not> drop_bit shift u64_max < take_bit 7 (v::u64)"
proof -
  have "unat (take_bit 7 v) \<le> unat v" by (simp add: unsigned_take_bit_eq)
  then have "unat (take_bit 7 v) * 2 ^ shift < 2 ^ 64"
    using assms by (meson le_less_trans mult_le_mono1)
  then have "unat (take_bit 7 v) * 2 ^ shift \<le> 2 ^ 64 - 1" by simp
  then have "unat (take_bit 7 v) \<le> (2 ^ 64 - 1) div 2 ^ shift"
    by (simp add: less_eq_div_iff_mult_less_eq)
  moreover have "unat (drop_bit shift u64_max) = (2 ^ 64 - 1) div 2 ^ shift"
    by (subst unat_drop_bit_eq, subst drop_bit_eq_div) simp
  ultimately show ?thesis by (simp add: word_less_nat_alt not_less)
qed

lemma decode_encode_varint_loop:
  assumes "shift < 64" and "unat v * 2 ^ shift < 2 ^ 64"
  shows "decode_varint_loop m (encode_varint v @ rest) shift pos val =
           Inr (val OR push_bit shift v, pos + length (encode_varint v))"
  using assms
proof (induction v arbitrary: shift pos val rule: encode_varint.induct)
  case (1 v)
  define v' where "v' = drop_bit 7 v"
  have fits: "\<not> drop_bit shift u64_max < take_bit 7 v" by (rule part_fits) fact
  show ?case
  proof (cases "v' = 0")
    case True
    then have "encode_varint v = [ucast (take_bit 7 v)]"
      by (simp add: encode_varint.simps [of v] v'_def and_7f_take_bit)
    moreover have "take_bit 7 v = v"
      using True bits_ident [of 7 v] by (simp add: v'_def)
    ultimately show ?thesis
      using 1(2) fits ucast_low7 [of v] low7_no_cont [of v] by (simp add: Let_def)
  next
    case False
    have enc: "encode_varint v = (ucast (take_bit 7 v) OR 0x80) # encode_varint v'"
      using False by (simp add: encode_varint.simps [of v] v'_def and_7f_take_bit Let_def)
    have "unat v' = unat v div 128" by (simp add: v'_def drop_bit_eq_div unat_div)
    then have "unat v' * 128 \<le> unat v" by simp
    then have "(unat v' * 128) * 2 ^ shift \<le> unat v * 2 ^ shift" by (rule mult_le_mono1)
    then have "unat v' * 2 ^ (shift + 7) \<le> unat v * 2 ^ shift" by (simp add: power_add mult_ac)
    then have bound: "unat v' * 2 ^ (shift + 7) < 2 ^ 64" using 1(3) by simp
    have "1 \<le> unat v'" using False by (simp add: Suc_le_eq unat_gt_0)
    then have "2 ^ (shift + 7) < (2::nat) ^ 64"
      using bound by (metis le_less_trans mult.commute mult_le_mono2 nat_mult_1_right)
    then have shift: "shift + 7 < 64" by (rule power_less_imp_less_exp [rotated]) simp
    have split: "take_bit 7 v OR push_bit 7 v' = v"
      using bits_ident [of 7 v] unfolding v'_def
      by (metis disjunctive_add bit_push_bit_iff bit_take_bit_iff add.commute linorder_not_less or.commute)
    have "push_bit shift v = push_bit shift (take_bit 7 v OR push_bit 7 v')" by (simp only: split)
    then have "val OR push_bit shift (take_bit 7 v) OR push_bit (shift + 7) v' = val OR push_bit shift v"
      by (simp add: push_bit_or or.assoc)
    then show ?thesis
      using 1(1) [OF refl v'_def False shift bound] 1(2) fits enc
      by (simp add: ucast_low7_cont low7_cont Let_def or.assoc)
  qed
qed

theorem decode_encode_varint [wire_simps]:
  "decode_varint (encode_varint v @ rest) = Inr (v, length (encode_varint v))"
  using decode_encode_varint_loop [of 0 v] unat_u64_less [of v] by (simp add: decode_varint_def)

theorem rpc_decode_encode_varint [wire_simps]:
  "rpc_decode_varint (encode_varint v @ rest) = Inr (v, length (encode_varint v))"
  using decode_encode_varint_loop [of 0 v] unat_u64_less [of v] by (simp add: rpc_decode_varint_def)

section \<open>Fields\<close>

record field =
  f_number :: u32
  f_wire_type :: u8
  f_data :: "u8 list"

text \<open>
  \<^verbatim>\<open>FieldIterator::next\<close> on the whole buffer and the current position, returning the field
  and the position after it. The sum \<^verbatim>\<open>self.pos + len as usize\<close> is computed in 64 bits: when
  it overflows, a checked build panics on the addition and a release build on the slice
  whose end then lies before its start.
\<close>

definition next_field :: "u8 list \<Rightarrow> nat \<Rightarrow> (field \<times> nat) result option" where
  "next_field buf pos =
     (if length buf \<le> pos then None
      else Some (attempt (decode_varint (drop pos buf)) (\<lambda>(tag, tag_len).
        let pos = pos + tag_len;
            number = ucast (drop_bit 3 tag);
            wire_type = ucast (tag AND 7) :: u8;
            yield_to = (\<lambda>start end. Inr (\<lparr>f_number = number, f_wire_type = wire_type,
                          f_data = take (end - start) (drop start buf)\<rparr>, end))
        in if wire_type = 0 then
             attempt (decode_varint (drop pos buf)) (\<lambda>(_, n). yield_to pos (pos + n))
           else if wire_type = 1 then
             (if length buf < pos + 8 then Inl (Bail ''Buffer overflow in fixed64'')
              else yield_to pos (pos + 8))
           else if wire_type = 2 then
             attempt (decode_varint (drop pos buf)) (\<lambda>(len, n).
               let pos = pos + n; end = pos + unat len
               in if 2 ^ 64 \<le> end then Inl (Panicked ''length-delimited range overflows usize'')
                  else if length buf < end then Inl (Bail ''Buffer overflow in length-delimited'')
                  else yield_to pos end)
           else if wire_type = 5 then
             (if length buf < pos + 4 then Inl (Bail ''Buffer overflow in fixed32'')
              else yield_to pos (pos + 4))
           else Inl (Bail ''Unknown wire type''))))"

lemma next_field_progress:
  "next_field buf pos = Some (Inr (fld, pos')) \<Longrightarrow> pos < pos' \<and> pos' \<le> length buf"
  by (auto simp: next_field_def Let_def result_simps split: if_splits dest!: decode_varint_bounds)

text \<open>\<^verbatim>\<open>for field in FieldIterator::new(data) { let field = field?; ... }\<close>\<close>

function fold_fields_from :: "('s \<Rightarrow> field \<Rightarrow> 's result) \<Rightarrow> u8 list \<Rightarrow> nat \<Rightarrow> 's \<Rightarrow> 's result" where
  "fold_fields_from step buf pos s =
     (case next_field buf pos of
        None \<Rightarrow> Inr s
      | Some (Inl e) \<Rightarrow> Inl e
      | Some (Inr (fld, pos')) \<Rightarrow> attempt (step s fld) (\<lambda>s'. fold_fields_from step buf pos' s'))"
  by pat_completeness auto
termination
  by (relation "measure (\<lambda>(step, buf, pos, s). length buf - pos)")
     (auto dest!: next_field_progress)

declare fold_fields_from.simps [simp del]

abbreviation fold_fields :: "('s \<Rightarrow> field \<Rightarrow> 's result) \<Rightarrow> 's \<Rightarrow> u8 list \<Rightarrow> 's result" where
  "fold_fields step s buf \<equiv> fold_fields_from step buf 0 s"

lemma fold_fields_from_invariant:
  assumes "fold_fields_from step buf pos s = Inr t" and "P s"
    and "\<And>s fld s'. P s \<Longrightarrow> step s fld = Inr s' \<Longrightarrow> P s'"
  shows "P t"
  using assms
proof (induction step buf pos s rule: fold_fields_from.induct)
  case (1 step buf pos s)
  from 1(2) have "(case next_field buf pos of None \<Rightarrow> Inr s | Some (Inl e) \<Rightarrow> Inl e
      | Some (Inr (fld, pos')) \<Rightarrow> attempt (step s fld) (\<lambda>s'. fold_fields_from step buf pos' s')) = Inr t"
    by (simp only: fold_fields_from.simps [of step buf pos s])
  with 1 show ?case
    by (auto split: option.splits sum.splits prod.splits simp: result_simps)
qed

text \<open>The same loop with an early \<^verbatim>\<open>return\<close>: the first field for which the body answers.\<close>

function search_fields_from :: "(field \<Rightarrow> 'r option result) \<Rightarrow> u8 list \<Rightarrow> nat \<Rightarrow> 'r option result" where
  "search_fields_from body buf pos =
     (case next_field buf pos of
        None \<Rightarrow> Inr None
      | Some (Inl e) \<Rightarrow> Inl e
      | Some (Inr (fld, pos')) \<Rightarrow> attempt (body fld) (\<lambda>found.
          case found of Some r \<Rightarrow> Inr (Some r) | None \<Rightarrow> search_fields_from body buf pos'))"
  by pat_completeness auto
termination
  by (relation "measure (\<lambda>(body, buf, pos). length buf - pos)")
     (auto dest!: next_field_progress)

declare search_fields_from.simps [simp del]

abbreviation search_fields :: "(field \<Rightarrow> 'r option result) \<Rightarrow> u8 list \<Rightarrow> 'r option result" where
  "search_fields body buf \<equiv> search_fields_from body buf 0"

abbreviation fld_is :: "u32 \<Rightarrow> u8 \<Rightarrow> field \<Rightarrow> bool" where
  "fld_is n w fld \<equiv> f_number fld = n \<and> f_wire_type fld = w"

text \<open>\<^verbatim>\<open>extract_string\<close>, \<^verbatim>\<open>extract_varint\<close> and \<^verbatim>\<open>decode_packed_varints\<close>.\<close>

definition extract_string :: "u8 list \<Rightarrow> string" where
  "extract_string data = from_utf8_lossy data"

definition extract_varint :: "u8 list \<Rightarrow> u64 result" where
  "extract_varint data = attempt (decode_varint data) (\<lambda>(val, _). Inr val)"

function decode_packed_varints :: "u8 list \<Rightarrow> i32 list result" where
  "decode_packed_varints data =
     (if data = [] then Inr []
      else case decode_varint data of
             Inl e \<Rightarrow> Inl e
           | Inr (val, n) \<Rightarrow>
               attempt (decode_packed_varints (drop n data)) (\<lambda>vals. Inr (ucast val # vals)))"
  by pat_completeness auto
termination
  by (relation "measure length") (auto dest!: decode_varint_bounds)

declare decode_packed_varints.simps [simp del]

text \<open>\<^verbatim>\<open>extract_varint(field.data)? as u32\<close> (or \<^verbatim>\<open>as i32\<close>), and \<^verbatim>\<open>... != 0\<close>.\<close>

abbreviation get_u64 :: "field \<Rightarrow> (u64 \<Rightarrow> 's result) \<Rightarrow> 's result" where
  "get_u64 fld k \<equiv> attempt (extract_varint (f_data fld)) k"

abbreviation get_u32 :: "field \<Rightarrow> (u32 \<Rightarrow> 's result) \<Rightarrow> 's result" where
  "get_u32 fld k \<equiv> attempt (extract_varint (f_data fld)) (\<lambda>v. k (ucast v))"

abbreviation get_bool :: "field \<Rightarrow> (bool \<Rightarrow> 's result) \<Rightarrow> 's result" where
  "get_bool fld k \<equiv> attempt (extract_varint (f_data fld)) (\<lambda>v. k (v \<noteq> 0))"

text \<open>\<^verbatim>\<open>proto::decode_wrapper\<close>.\<close>

definition decode_wrapper :: "u8 list \<Rightarrow> (string \<times> u8 list) result" where
  "decode_wrapper buf =
     fold_fields (\<lambda>(name, data) fld.
        if f_number fld = 1 \<and> f_wire_type fld = 2 then Inr (extract_string (f_data fld), data)
        else if f_number fld = 2 \<and> f_wire_type fld = 2 then Inr (name, f_data fld)
        else Inr (name, data)) ([], []) buf"

section \<open>Requests\<close>

text \<open>\<^verbatim>\<open>wrapper::encode\<close> and \<^verbatim>\<open>wrapper::decode\<close> of \<^verbatim>\<open>rpc.rs\<close>.\<close>

definition wrapper_encode :: "string \<Rightarrow> u8 list \<Rightarrow> u8 list" where
  "wrapper_encode name data =
     0x0a # encode_varint (of_nat (length name)) @ as_bytes name @
     0x12 # encode_varint (of_nat (length data)) @ data"

definition skip_varint :: "u8 list \<Rightarrow> nat \<Rightarrow> nat" where
  "skip_varint buf pos = pos + length (takeWhile (\<lambda>b. b AND 0x80 \<noteq> 0) (drop pos buf)) + 1"

function wrapper_decode_from :: "u8 list \<Rightarrow> nat \<Rightarrow> string \<Rightarrow> u8 list \<Rightarrow> (string \<times> u8 list) result" where
  "wrapper_decode_from buf pos name data =
     (if length buf \<le> pos then Inr (name, data)
      else let tag = buf ! pos; pos1 = pos + 1;
               field_num = drop_bit 3 tag; wire_type = tag AND 7
           in if wire_type \<noteq> 2 then
                wrapper_decode_from buf (if wire_type = 0 then skip_varint buf pos1 else pos1) name data
              else case rpc_decode_varint (drop pos1 buf) of
                     Inl e \<Rightarrow> Inl e
                   | Inr (len, n) \<Rightarrow>
                       let start = pos1 + n; end = start + unat len
                       in if 2 ^ 64 \<le> end then Inl (Panicked ''length-delimited range overflows usize'')
                          else if length buf < end then Inl (Bail ''Buffer overflow'')
                          else let chunk = take (end - start) (drop start buf)
                               in if field_num = 1 then wrapper_decode_from buf end (from_utf8_lossy chunk) data
                                  else if field_num = 2 then wrapper_decode_from buf end name chunk
                                  else wrapper_decode_from buf end name data)"
  by pat_completeness auto
termination
  by (relation "measure (\<lambda>(buf, pos, name, data). length buf - pos)")
     (auto simp: skip_varint_def dest!: rpc_decode_varint_bounds)

declare wrapper_decode_from.simps [simp del]

definition wrapper_decode :: "u8 list \<Rightarrow> (string \<times> u8 list) result" where
  "wrapper_decode buf = wrapper_decode_from buf 0 [] []"

definition encode_bytes :: "u32 \<Rightarrow> u8 list \<Rightarrow> u8 list" where
  "encode_bytes field val =
     encode_varint (ucast (push_bit 3 field OR 2)) @ encode_varint (of_nat (length val)) @ val"

definition encode_string :: "u32 \<Rightarrow> string \<Rightarrow> u8 list" where
  "encode_string field val = encode_bytes field (as_bytes val)"

definition encode_bool :: "u32 \<Rightarrow> bool \<Rightarrow> u8 list" where
  "encode_bool field val = encode_varint (ucast (push_bit 3 field)) @ [if val then 1 else 0]"

definition encode_varint_field :: "u32 \<Rightarrow> u64 \<Rightarrow> u8 list" where
  "encode_varint_field field val = encode_varint (ucast (push_bit 3 field)) @ encode_varint val"

definition fetch_game_record_request :: "string \<Rightarrow> string \<Rightarrow> u8 list" where
  "fetch_game_record_request uuid version = encode_string 1 uuid @ encode_string 2 version"

definition fetch_game_live_list_request :: "u32 \<Rightarrow> u8 list" where
  "fetch_game_live_list_request filter_id = encode_varint_field 1 (ucast filter_id)"

definition build_login_beat_request :: "string \<Rightarrow> u8 list" where
  "build_login_beat_request contract = encode_string 1 contract"

definition build_request_connection :: "string \<Rightarrow> u64 \<Rightarrow> u8 list" where
  "build_request_connection route_id timestamp =
     encode_varint_field 2 1 @ encode_string 3 route_id @
     encode_varint_field 4 timestamp @ encode_string 6 ''Web''"

definition build_heartbeat :: "u64 \<Rightarrow> u64 \<Rightarrow> u8 list" where
  "build_heartbeat delay_ms quality_ms =
     encode_varint_field 1 delay_ms @ encode_varint_field 2 0 @
     encode_varint_field 3 11 @ encode_varint_field 4 quality_ms"

definition build_first_heartbeat :: "u8 list" where
  "build_first_heartbeat = build_heartbeat 5000 5000"

text \<open>\<^verbatim>\<open>MajsoulRpc::extract_error_code\<close> and \<^verbatim>\<open>ensure_success_response\<close>.\<close>

definition extract_error_code :: "u8 list \<Rightarrow> u64 option" where
  "extract_error_code data =
     (let code_of = (\<lambda>payload.
            if first_opt payload = Some 0x08
            then (case rpc_decode_varint (tl payload) of Inl _ \<Rightarrow> None | Inr (code, _) \<Rightarrow> Some code)
            else None)
      in if first_opt data = Some 0x0a
         then (case rpc_decode_varint (tl data) of
                 Inl _ \<Rightarrow> None
               | Inr (len, len_bytes) \<Rightarrow>
                   let start = 1 + len_bytes; end = start + unat len
                   in if 2 ^ 64 \<le> end \<or> length data < end then None
                      else code_of (take (end - start) (drop start data)))
         else code_of data)"

definition ensure_success_response :: "u8 list \<Rightarrow> unit result" where
  "ensure_success_response response =
     (case extract_error_code response of
        Some code \<Rightarrow> if code \<noteq> 0 then Inl (Bail ''returned error'') else Inr ()
      | None \<Rightarrow> Inr ())"

definition is_session_stale :: "u64 \<Rightarrow> bool" where
  "is_session_stale code \<longleftrightarrow> code \<in> {109, 110, 1004, 1201, 1202}"

section \<open>What is written is read back\<close>

text \<open>
  The two kinds of field the encoder writes, as data: a message is a list of them. The
  specification of a parser is then a fold over that list, and \<open>fold_fields_items\<close> below
  is the bridge from bytes to it.
\<close>

datatype wire_item = Varint_Item u32 u64 | Bytes_Item u32 "u8 list"

primrec encode_item :: "wire_item \<Rightarrow> u8 list" where
  "encode_item (Varint_Item n v) = encode_varint_field n v"
| "encode_item (Bytes_Item n bs) = encode_bytes n bs"

primrec item_field :: "wire_item \<Rightarrow> field" where
  "item_field (Varint_Item n v) = \<lparr>f_number = n, f_wire_type = 0, f_data = encode_varint v\<rparr>"
| "item_field (Bytes_Item n bs) = \<lparr>f_number = n, f_wire_type = 2, f_data = bs\<rparr>"

primrec item_wf :: "wire_item \<Rightarrow> bool" where
  "item_wf (Varint_Item n v) \<longleftrightarrow> n < 0x20000000"
| "item_wf (Bytes_Item n bs) \<longleftrightarrow> n < 0x20000000"

definition encode_items :: "wire_item list \<Rightarrow> u8 list" where
  "encode_items its = concat (map encode_item its)"

lemma encode_items_simps [simp]:
  "encode_items [] = []" "encode_items (it # its) = encode_item it @ encode_items its"
  by (simp_all add: encode_items_def)

lemma and_7_take_bit: "(w::'a::len word) AND 7 = take_bit 3 w"
  by (simp add: take_bit_eq_mask mask_eq_exp_minus_1)

lemma field_number_bits: "(n::u32) < 0x20000000 \<Longrightarrow> bit n i \<Longrightarrow> i < 29"
proof -
  assume "n < 0x20000000" and bit: "bit n i"
  then have "unat n < 2 ^ 29" by (simp add: word_less_nat_alt)
  then have "unat (take_bit 29 n) = unat n"
    by (simp add: unsigned_take_bit_eq take_bit_nat_eq_self)
  then have "take_bit 29 n = n" by (simp add: word_unat_eq_iff)
  with bit show "i < 29" by (metis bit_take_bit_iff)
qed

lemma two_push_bit: "(2::'a::len word) = push_bit 1 1"
  by simp

lemma tag_number [simp]:
  assumes "n < 0x20000000"
  shows "ucast (drop_bit 3 (ucast (push_bit 3 n) :: u64)) = (n :: u32)"
    and "ucast (drop_bit 3 (ucast (push_bit 3 n OR 2) :: u64)) = n"
  unfolding two_push_bit
  using field_number_bits [OF assms] by (auto intro!: bit_word_eqI simp: bit_simps)

lemma tag_wire_type [simp]:
  "ucast ((ucast (push_bit 3 (n::u32)) :: u64) AND 7) = (0::u8)"
  "ucast ((ucast (push_bit 3 (n::u32) OR 2) :: u64) AND 7) = (2::u8)"
  unfolding two_push_bit and_7_take_bit by (auto intro!: bit_word_eqI simp: bit_simps)

lemma unat_of_nat_u64: "n < 2 ^ 64 \<Longrightarrow> unat (of_nat n :: u64) = n"
  by (simp add: unat_of_nat)

lemma next_field_item:
  assumes "item_wf it" and "length pre + length (encode_item it) < 2 ^ 64"
  shows "next_field (pre @ encode_item it @ post) (length pre) =
           Some (Inr (item_field it, length pre + length (encode_item it)))"
proof (cases it)
  case (Varint_Item n v)
  have ne: "encode_varint (ucast (push_bit 3 n)) \<noteq> []" by (simp add: encode_varint.simps Let_def)
  then show ?thesis using assms(1) Varint_Item
    by (simp add: next_field_def encode_varint_field_def wire_simps Let_def append_assoc)
next
  case (Bytes_Item n bs)
  have ne: "encode_varint (ucast (push_bit 3 n OR 2)) \<noteq> []" by (simp add: encode_varint.simps Let_def)
  have "unat (of_nat (length bs) :: u64) = length bs"
    using assms(2) Bytes_Item by (intro unat_of_nat_u64) (simp add: encode_bytes_def)
  then show ?thesis using assms ne Bytes_Item
    by (simp add: next_field_def encode_bytes_def wire_simps Let_def append_assoc)
qed

lemma next_field_end: "next_field buf (length buf) = None"
  by (simp add: next_field_def)

lemma fold_fields_items_from:
  assumes "\<forall>it \<in> set its. item_wf it" and "length pre + length (encode_items its) < 2 ^ 64"
  shows "fold_fields_from step (pre @ encode_items its) (length pre) s =
           try_fold step s (map item_field its)"
  using assms
proof (induction its arbitrary: pre s)
  case Nil
  then show ?case by (simp add: fold_fields_from.simps next_field_end)
next
  case (Cons it its)
  have nxt: "next_field (pre @ encode_item it @ encode_items its) (length pre) =
      Some (Inr (item_field it, length pre + length (encode_item it)))"
    using Cons.prems by (intro next_field_item) auto
  have "fold_fields_from step (pre @ encode_item it @ encode_items its) (length pre + length (encode_item it)) s'
        = try_fold step s' (map item_field its)" for s'
    using Cons.IH [of "pre @ encode_item it" s'] Cons.prems by simp
  then show ?case
    by (subst fold_fields_from.simps) (simp add: nxt cong: attempt_cong)
qed

theorem fold_fields_items [wire_simps]:
  assumes "\<forall>it \<in> set its. item_wf it" and "length (encode_items its) < 2 ^ 64"
  shows "fold_fields step s (encode_items its) = try_fold step s (map item_field its)"
  using fold_fields_items_from [of its "[]"] assms by simp

lemma extract_varint_encode [simp, wire_simps]: "extract_varint (encode_varint v) = Inr v"
  using decode_encode_varint [of v "[]"] by (simp add: extract_varint_def)

lemma decode_packed_varints_encode [wire_simps]:
  "decode_packed_varints (concat (map encode_varint vs)) = Inr (map ucast vs)"
proof (induction vs)
  case Nil
  then show ?case by (simp add: decode_packed_varints.simps)
next
  case (Cons v vs)
  have "encode_varint v \<noteq> []" by (simp add: encode_varint.simps Let_def)
  then show ?case
    using Cons by (subst decode_packed_varints.simps) (simp add: wire_simps)
qed

lemma wrapper_encode_items:
  "wrapper_encode name data = encode_items [Bytes_Item 1 (as_bytes name), Bytes_Item 2 data]"
  by (simp add: wrapper_encode_def encode_bytes_def encode_varint.simps [of 10] encode_varint.simps [of 18])

text \<open>A wrapper written by the RPC client is read back by the record decoder.\<close>

theorem decode_wrapper_encode:
  assumes "valid_utf8 (as_bytes name)" and "length (wrapper_encode name data) < 2 ^ 64"
  shows "decode_wrapper (wrapper_encode name data) = Inr (name, data)"
  using assms(2) from_utf8_lossy_valid [OF assms(1)]
  unfolding decode_wrapper_def wrapper_encode_items
  by (subst fold_fields_items) (simp_all add: extract_string_def)

lemma wrapper_decode_field:
  assumes "tag AND 7 = 2" and "start = Suc (length pre + length (encode_varint (of_nat (length bs))))"
    and "start + length bs < 2 ^ 64"
  shows "wrapper_decode_from (pre @ tag # encode_varint (of_nat (length bs)) @ bs @ post) (length pre) name data =
     (let buf = pre @ tag # encode_varint (of_nat (length bs)) @ bs @ post
      in wrapper_decode_from buf (start + length bs)
           (if drop_bit 3 tag = 1 then from_utf8_lossy bs else name)
           (if drop_bit 3 tag = 2 then bs else data))"
proof -
  have "unat (of_nat (length bs) :: u64) = length bs"
    using assms(3) by (intro unat_of_nat_u64) simp
  then show ?thesis
    using assms
    by (subst wrapper_decode_from.simps)
       (simp add: nth_append wire_simps Let_def append_assoc)
qed

text \<open>The client's own decoder reads it back as well.\<close>

theorem wrapper_decode_encode:
  assumes "valid_utf8 (as_bytes name)" and "length (wrapper_encode name data) < 2 ^ 64"
  shows "wrapper_decode (wrapper_encode name data) = Inr (name, data)"
proof -
  define l1 where "l1 = encode_varint (of_nat (length (as_bytes name)))"
  define l2 where "l2 = encode_varint (of_nat (length data))"
  define hd1 where "hd1 = 0x0a # l1 @ as_bytes name"
  have buf: "wrapper_encode name data = [] @ 0x0a # l1 @ as_bytes name @ (0x12 # l2 @ data)"
    "wrapper_encode name data = hd1 @ 0x12 # l2 @ data @ []"
    by (simp_all add: wrapper_encode_def l1_def l2_def hd1_def)
  have "wrapper_decode (wrapper_encode name data) =
        wrapper_decode_from (wrapper_encode name data) (length hd1) (from_utf8_lossy (as_bytes name)) []"
    unfolding wrapper_decode_def buf(1) l1_def
    using wrapper_decode_field [of "0x0a" _ "[]" "as_bytes name" "0x12 # l2 @ data" "[]" "[]"] assms(2)
    by (simp add: hd1_def l1_def l2_def wrapper_encode_def Let_def)
  also have "\<dots> = wrapper_decode_from (wrapper_encode name data) (length (wrapper_encode name data)) name data"
    using wrapper_decode_field [of "0x12" _ hd1 data "[]" name "[]"] assms(2) buf(2)
      from_utf8_lossy_valid [OF assms(1)]
    by (simp add: l2_def Let_def add.assoc)
  also have "\<dots> = Inr (name, data)" by (simp add: wrapper_decode_from.simps)
  finally show ?thesis .
qed

section \<open>Properties\<close>

text \<open>
  Every 64-bit value is written as a varint that both decoders read back exactly, with
  the number of bytes it took, whatever follows it in the buffer.
\<close>

theorem varint_round_trip:
  "decode_varint (encode_varint v @ rest) = Inr (v, length (encode_varint v)) \<and>
   rpc_decode_varint (encode_varint v @ rest) = Inr (v, length (encode_varint v))"
  by (simp add: wire_simps)

text \<open>
  A decoded varint takes at least one and at most ten bytes, never more than the buffer
  holds: a longer run of continuation bytes is refused, and no input makes the decoder panic.
\<close>

theorem varint_bounds:
  "decode_varint buf \<noteq> Inl (Panicked m) \<and>
   (decode_varint buf = Inr (v, n) \<longrightarrow> 1 \<le> n \<and> n \<le> 10 \<and> n \<le> length buf)"
  using decode_varint_loop_width [of "''Varint too long''" buf 0 0 0 v n] decode_varint_bounds [of buf v n]
  by (auto simp: decode_varint_def decode_varint_loop_panic_free)

theorem varint_bounds_witness:
  "decode_varint [0xAC, 0x02, 0x07] = Inr (300, 2) \<and> (2::nat) \<le> 10"
  using varint_bounds [of "[0xAC, 0x02, 0x07]" _ 300 2] by (simp add: decode_varint_def)

text \<open>
  A request wrapped by the client is unwrapped to the same name and body by the client's
  own decoder and by the record decoder.
\<close>

theorem wrapper_round_trip:
  assumes "valid_utf8 (as_bytes name)" and "length (wrapper_encode name data) < 2 ^ 64"
  shows "wrapper_decode (wrapper_encode name data) = Inr (name, data) \<and>
         decode_wrapper (wrapper_encode name data) = Inr (name, data)"
  using assms by (simp add: wrapper_decode_encode decode_wrapper_encode)

theorem wrapper_round_trip_witness:
  "wrapper_decode (wrapper_encode ''ab'' [7, 0]) = Inr (''ab'', [7, 0])"
proof -
  have "valid_utf8 (as_bytes ''ab'')" by (rule valid_utf8_ascii) (auto simp: as_bytes_def byte_of_char_def)
  moreover have "length (wrapper_encode ''ab'' [7, 0]) < 2 ^ 64"
    by (simp add: wrapper_encode_def encode_varint.simps)
  ultimately show ?thesis using wrapper_round_trip by blast
qed

text \<open>
  Iterating over the bytes of a message visits exactly the fields it was written with, in
  order: the byte-level loop with its early returns refines a fold over the list of fields.
\<close>

theorem field_iteration_refines_fold:
  assumes "list_all item_wf its" and "length (encode_items its) < 2 ^ 64"
  shows "fold_fields step s (encode_items its) = try_fold step s (map item_field its)"
  using assms by (intro fold_fields_items) (simp_all add: list_all_iff)

theorem field_iteration_refines_fold_witness:
  "fold_fields (\<lambda>acc fld. Inr (acc @ [f_data fld])) [] (encode_items [Varint_Item 1 5, Bytes_Item 2 [9]]) =
     Inr [[5], [9]]"
  by (subst field_iteration_refines_fold)
     (simp_all add: encode_varint_field_def encode_bytes_def encode_varint.simps)

text \<open>
  A length prefix close to the 64-bit maximum is not reported as an error: the end of the
  range overflows and the decoder panics, whatever the rest of the message holds.
\<close>

theorem length_prefix_overflow_panics:
  "decode_wrapper (0x0a # encode_varint u64_max @ rest) =
     Inl (Panicked ''length-delimited range overflows usize'')"
proof -
  have "decode_varint (0x0a # encode_varint u64_max @ rest) = Inr (0x0a, 1)"
    by (simp add: decode_varint_def)
  then have "next_field (0x0a # encode_varint u64_max @ rest) 0 =
      Some (Inl (Panicked ''length-delimited range overflows usize''))"
    by (simp add: next_field_def wire_simps)
  then show ?thesis by (simp add: decode_wrapper_def fold_fields_from.simps)
qed

end
