(* ===== verification/Game_Record.thy ===== *)
theory Game_Record
  imports Wire
begin

text \<open>
  \<^verbatim>\<open>src/majsoul/proto.rs\<close> from \<^verbatim>\<open>RecordAction\<close> on: a downloaded game record. Each
  decoder is the fold of one step function over the fields of its message; the step
  function is the body of the source's \<^verbatim>\<open>match\<close>, arm by arm, and the accumulated record
  is the set of local variables.
\<close>

record record_action =
  ra_name :: string
  ra_data :: "u8 list"
  ra_passed_ms :: "u32 option"

record player_result =
  pr_seat :: u32
  pr_total_point :: i32
  pr_part_point_1 :: i32
  pr_part_point_2 :: i32
  pr_grading_score :: i32

record player_account =
  pa_account_id :: u64
  pa_seat :: u32
  pa_nickname :: string
  pa_level_id :: u32
  pa_level_score :: i32
  pa_level3_id :: u32
  pa_level3_score :: i32

record game_record =
  gr_uuid :: string
  gr_start_time :: u32
  gr_end_time :: u32
  gr_mode_id :: i32
  gr_player_names :: "string list"
  gr_player_accounts :: "player_account list"
  gr_result :: "player_result list"
  gr_records :: "record_action list"

section \<open>The head\<close>

definition decode_player_result :: "u8 list \<Rightarrow> player_result result" where
  "decode_player_result data =
     fold_fields (\<lambda>r fld.
         if fld_is 1 0 fld then get_u32 fld (\<lambda>v. Inr (r\<lparr>pr_seat := v\<rparr>))
         else if fld_is 2 0 fld then get_u32 fld (\<lambda>v. Inr (r\<lparr>pr_total_point := v\<rparr>))
         else if fld_is 3 0 fld then get_u32 fld (\<lambda>v. Inr (r\<lparr>pr_part_point_1 := v\<rparr>))
         else if fld_is 4 0 fld then get_u32 fld (\<lambda>v. Inr (r\<lparr>pr_part_point_2 := v\<rparr>))
         else if fld_is 5 0 fld then get_u32 fld (\<lambda>v. Inr (r\<lparr>pr_grading_score := v\<rparr>))
         else Inr r)
       \<lparr>pr_seat = 0, pr_total_point = 0, pr_part_point_1 = 0, pr_part_point_2 = 0, pr_grading_score = 0\<rparr>
       data"

definition decode_account_level :: "u8 list \<Rightarrow> (u32 \<times> i32) result" where
  "decode_account_level data =
     fold_fields (\<lambda>(i, score) fld.
         if fld_is 1 0 fld then get_u32 fld (\<lambda>v. Inr (v, score))
         else if fld_is 2 0 fld then get_u32 fld (\<lambda>v. Inr (i, v))
         else Inr (i, score)) (0, 0) data"

definition decode_player_account :: "u8 list \<Rightarrow> player_account result" where
  "decode_player_account data =
     fold_fields (\<lambda>a fld.
         if fld_is 1 0 fld then get_u64 fld (\<lambda>v. Inr (a\<lparr>pa_account_id := v\<rparr>))
         else if fld_is 2 0 fld then get_u32 fld (\<lambda>v. Inr (a\<lparr>pa_seat := v\<rparr>))
         else if fld_is 3 2 fld then Inr (a\<lparr>pa_nickname := extract_string (f_data fld)\<rparr>)
         else if fld_is 7 2 fld then
           attempt (decode_account_level (f_data fld)) (\<lambda>(i, score).
             Inr (a\<lparr>pa_level_id := i, pa_level_score := score\<rparr>))
         else if fld_is 8 2 fld then
           attempt (decode_account_level (f_data fld)) (\<lambda>(i, score).
             Inr (a\<lparr>pa_level3_id := i, pa_level3_score := score\<rparr>))
         else Inr a)
       \<lparr>pa_account_id = 0, pa_seat = 0, pa_nickname = [], pa_level_id = 0, pa_level_score = 0,
        pa_level3_id = 0, pa_level3_score = 0\<rparr> data"

definition decode_config_mode_id :: "u8 list \<Rightarrow> i32 result" where
  "decode_config_mode_id data =
     attempt (search_fields (\<lambda>fld.
         if fld_is 3 2 fld then
           search_fields (\<lambda>meta. if fld_is 2 0 meta then get_u32 meta (\<lambda>v. Inr (Some v)) else Inr None)
             (f_data fld)
         else Inr None) data)
       (\<lambda>found. Inr (case found of Some mode \<Rightarrow> mode | None \<Rightarrow> 0))"

section \<open>The action list\<close>

definition decode_old_format_records :: "u8 list list \<Rightarrow> record_action list result" where
  "decode_old_format_records raw_records =
     try_fold (\<lambda>records raw.
         attempt (decode_wrapper raw) (\<lambda>(name, data).
           Inr (if name \<noteq> [] then records @ [\<lparr>ra_name = name, ra_data = data, ra_passed_ms = None\<rparr>]
                else records))) [] raw_records"

definition decode_action_fields :: "u8 list \<Rightarrow> (u8 list option \<times> u32 option) result" where
  "decode_action_fields action_bytes =
     fold_fields (\<lambda>(result_data, passed_ms) fld.
         if fld_is 1 0 fld then get_u32 fld (\<lambda>v. Inr (result_data, Some v))
         else if fld_is 3 2 fld then Inr (Some (f_data fld), passed_ms)
         else Inr (result_data, passed_ms)) (None, None) action_bytes"

definition decode_new_format_actions :: "u8 list list \<Rightarrow> record_action list result" where
  "decode_new_format_actions actions_data =
     try_fold (\<lambda>records action_bytes.
         attempt (decode_action_fields action_bytes) (\<lambda>(result_data, passed_ms).
           case result_data of
             None \<Rightarrow> Inr records
           | Some result \<Rightarrow>
               if result = [] then Inr records
               else attempt (decode_wrapper result) (\<lambda>(name, data).
                 Inr (if name \<noteq> []
                      then records @ [\<lparr>ra_name = name, ra_data = data, ra_passed_ms = passed_ms\<rparr>]
                      else records)))) [] actions_data"

record detail_records =
  dr_version :: u32
  dr_raw_records :: "u8 list list"
  dr_actions_data :: "u8 list list"

definition decode_detail_records :: "u8 list \<Rightarrow> record_action list result" where
  "decode_detail_records data_bytes =
     attempt (decode_wrapper data_bytes) (\<lambda>(_, wrapper_data).
     attempt (fold_fields (\<lambda>d fld.
         if fld_is 1 2 fld then Inr (d\<lparr>dr_raw_records := dr_raw_records d @ [f_data fld]\<rparr>)
         else if fld_is 2 0 fld then get_u32 fld (\<lambda>v. Inr (d\<lparr>dr_version := v\<rparr>))
         else if fld_is 3 2 fld then Inr (d\<lparr>dr_actions_data := dr_actions_data d @ [f_data fld]\<rparr>)
         else Inr d) \<lparr>dr_version = 0, dr_raw_records = [], dr_actions_data = []\<rparr> wrapper_data) (\<lambda>d.
       if dr_version d < 210715 \<and> dr_raw_records d \<noteq> []
       then decode_old_format_records (dr_raw_records d)
       else if dr_actions_data d \<noteq> [] then decode_new_format_actions (dr_actions_data d)
       else Inr []))"

section \<open>The record\<close>

record head_state =
  hs_uuid :: string
  hs_start_time :: u32
  hs_end_time :: u32
  hs_mode_id :: i32
  hs_player_accounts :: "player_account list"
  hs_result :: "player_result list"
  hs_compressed_data :: "u8 list option"

definition check_error_field :: "u8 list \<Rightarrow> unit result" where
  "check_error_field data =
     fold_fields (\<lambda>_ fld.
         if fld_is 1 0 fld then
           get_u64 fld (\<lambda>code. if code \<noteq> 0 then Inl (Bail ''Game record error code'') else Inr ())
         else Inr ()) () data"

definition decode_result_items :: "player_result list \<Rightarrow> u8 list \<Rightarrow> player_result list result" where
  "decode_result_items acc data =
     fold_fields (\<lambda>result item.
         if fld_is 1 2 item
         then attempt (decode_player_result (f_data item)) (\<lambda>r. Inr (result @ [r]))
         else Inr result) acc data"

definition head_step :: "head_state \<Rightarrow> field \<Rightarrow> head_state result" where
  "head_step h fld =
     (if fld_is 1 2 fld then Inr (h\<lparr>hs_uuid := extract_string (f_data fld)\<rparr>)
      else if fld_is 2 0 fld then get_u32 fld (\<lambda>v. Inr (h\<lparr>hs_start_time := v\<rparr>))
      else if fld_is 3 0 fld then get_u32 fld (\<lambda>v. Inr (h\<lparr>hs_end_time := v\<rparr>))
      else if fld_is 5 2 fld then
        attempt (decode_config_mode_id (f_data fld)) (\<lambda>m. Inr (h\<lparr>hs_mode_id := m\<rparr>))
      else if fld_is 11 2 fld then
        attempt (decode_player_account (f_data fld)) (\<lambda>a.
          Inr (h\<lparr>hs_player_accounts := hs_player_accounts h @ [a]\<rparr>))
      else if fld_is 12 2 fld then
        attempt (decode_result_items (hs_result h) (f_data fld)) (\<lambda>rs. Inr (h\<lparr>hs_result := rs\<rparr>))
      else Inr h)"

definition game_record_step :: "head_state \<Rightarrow> field \<Rightarrow> head_state result" where
  "game_record_step h fld =
     (if fld_is 1 2 fld \<and> f_data fld \<noteq> [] then attempt (check_error_field (f_data fld)) (\<lambda>_. Inr h)
      else if fld_is 3 2 fld then fold_fields head_step h (f_data fld)
      else if fld_is 4 2 fld then Inr (h\<lparr>hs_compressed_data := Some (f_data fld)\<rparr>)
      else Inr h)"

definition decode_game_record :: "u8 list \<Rightarrow> game_record result" where
  "decode_game_record raw =
     attempt (fold_fields game_record_step
       \<lparr>hs_uuid = [], hs_start_time = 0, hs_end_time = 0, hs_mode_id = 0,
        hs_player_accounts = [], hs_result = [], hs_compressed_data = None\<rparr> raw) (\<lambda>h.
     attempt (case hs_compressed_data h of
                Some data_bytes \<Rightarrow> decode_detail_records data_bytes
              | None \<Rightarrow> Inr []) (\<lambda>records.
     let accounts = sort_key pa_seat (hs_player_accounts h)
     in Inr \<lparr>gr_uuid = hs_uuid h, gr_start_time = hs_start_time h, gr_end_time = hs_end_time h,
             gr_mode_id = hs_mode_id h,
             gr_player_names = map pa_nickname accounts,
             gr_player_accounts = accounts,
             gr_result = sort_key pr_seat (hs_result h),
             gr_records = records\<rparr>))"

section \<open>Properties\<close>

lemma decode_game_record_seat_order:
  assumes "decode_game_record raw = Inr r"
  shows "gr_player_names r = map pa_nickname (gr_player_accounts r)"
    and "sorted (map pa_seat (gr_player_accounts r))" and "sorted (map pr_seat (gr_result r))"
  using assms by (auto simp: decode_game_record_def result_simps Let_def)

lemma old_format_has_no_clock:
  assumes "decode_old_format_records raws = Inr records" and "a \<in> set records"
  shows "ra_passed_ms a = None" and "ra_name a \<noteq> []"
proof -
  have "\<forall>a \<in> set records. ra_passed_ms a = None \<and> ra_name a \<noteq> []"
    by (rule try_fold_invariant [OF assms(1) [unfolded decode_old_format_records_def]])
       (auto simp: result_simps split: prod.splits if_splits)
  then show "ra_passed_ms a = None" "ra_name a \<noteq> []" using assms(2) by auto
qed

section \<open>The message a record is decoded from\<close>

text \<open>
  The server's encoding of a record, as the schema describes it. It is the specification
  the decoder is proved against: decoding what it writes gives the record back.
\<close>

definition enc_level :: "u32 \<Rightarrow> i32 \<Rightarrow> u8 list" where
  "enc_level i score = encode_items [Varint_Item 1 (ucast i), Varint_Item 2 (ucast score)]"

definition enc_account :: "player_account \<Rightarrow> u8 list" where
  "enc_account a = encode_items
     [Varint_Item 1 (pa_account_id a), Varint_Item 2 (ucast (pa_seat a)),
      Bytes_Item 3 (as_bytes (pa_nickname a)),
      Bytes_Item 7 (enc_level (pa_level_id a) (pa_level_score a)),
      Bytes_Item 8 (enc_level (pa_level3_id a) (pa_level3_score a))]"

definition enc_result :: "player_result \<Rightarrow> u8 list" where
  "enc_result r = encode_items
     [Varint_Item 1 (ucast (pr_seat r)), Varint_Item 2 (ucast (pr_total_point r)),
      Varint_Item 3 (ucast (pr_part_point_1 r)), Varint_Item 4 (ucast (pr_part_point_2 r)),
      Varint_Item 5 (ucast (pr_grading_score r))]"

definition enc_action :: "record_action \<Rightarrow> u8 list" where
  "enc_action a = encode_items
     ((case ra_passed_ms a of Some p \<Rightarrow> [Varint_Item 1 (ucast p)] | None \<Rightarrow> []) @
      [Bytes_Item 3 (wrapper_encode (ra_name a) (ra_data a))])"

definition enc_details :: "record_action list \<Rightarrow> u8 list" where
  "enc_details acts = encode_items
     (Varint_Item 2 210715 # map (\<lambda>a. Bytes_Item 3 (enc_action a)) acts)"

definition enc_head :: "game_record \<Rightarrow> u8 list" where
  "enc_head r = encode_items
     ([Bytes_Item 1 (as_bytes (gr_uuid r)), Varint_Item 2 (ucast (gr_start_time r)),
       Varint_Item 3 (ucast (gr_end_time r)),
       Bytes_Item 5 (encode_items [Bytes_Item 3 (encode_items [Varint_Item 2 (ucast (gr_mode_id r))])])] @
      map (\<lambda>a. Bytes_Item 11 (enc_account a)) (gr_player_accounts r) @
      [Bytes_Item 12 (encode_items (map (\<lambda>p. Bytes_Item 1 (enc_result p)) (gr_result r)))])"

definition enc_record :: "game_record \<Rightarrow> u8 list" where
  "enc_record r = encode_items
     [Bytes_Item 3 (enc_head r), Bytes_Item 4 (wrapper_encode ''d'' (enc_details (gr_records r)))]"

definition record_wf :: "game_record \<Rightarrow> bool" where
  "record_wf r \<longleftrightarrow>
     valid_utf8 (as_bytes (gr_uuid r)) \<and>
     list_all (\<lambda>a. valid_utf8 (as_bytes (pa_nickname a))) (gr_player_accounts r) \<and>
     gr_player_names r = map pa_nickname (gr_player_accounts r) \<and>
     sorted (map pa_seat (gr_player_accounts r)) \<and> sorted (map pr_seat (gr_result r)) \<and>
     list_all (\<lambda>a. ra_name a \<noteq> [] \<and> valid_utf8 (as_bytes (ra_name a))) (gr_records r)"

lemma ucast_up_down [simp]: "ucast (ucast (w::u32) :: u64) = w"
  by (rule bit_word_eqI) (simp add: bit_simps)

lemma length_encode_varint_pos: "0 < length (encode_varint v)"
  by (simp add: encode_varint.simps Let_def)

lemma length_bytes_item:
  "Bytes_Item n bs \<in> set its \<Longrightarrow> length bs < length (encode_items its)"
proof (induction its)
  case (Cons it its)
  then show ?case
    using length_encode_varint_pos [of "ucast (push_bit 3 n OR 2)"]
    by (auto simp: encode_bytes_def)
qed simp

lemma search_fields_first:
  assumes "item_wf it" and "length (encode_item it) < 2 ^ 64" and "body (item_field it) = Inr (Some r)"
  shows "search_fields body (encode_items [it]) = Inr (Some r)"
  using next_field_item [of it "[]" "[]"] assms
  by (simp add: search_fields_from.simps)

lemma decode_account_level_enc:
  "length (enc_level i score) < 2 ^ 64 \<Longrightarrow> decode_account_level (enc_level i score) = Inr (i, score)"
  unfolding decode_account_level_def enc_level_def by (subst fold_fields_items) simp_all

lemma decode_player_result_enc:
  "length (enc_result r) < 2 ^ 64 \<Longrightarrow> decode_player_result (enc_result r) = Inr r"
  unfolding decode_player_result_def enc_result_def by (subst fold_fields_items) simp_all

lemma decode_player_account_enc:
  assumes "length (enc_account a) < 2 ^ 64" and "valid_utf8 (as_bytes (pa_nickname a))"
  shows "decode_player_account (enc_account a) = Inr a"
proof -
  have "length (enc_level (pa_level_id a) (pa_level_score a)) < length (enc_account a)"
    "length (enc_level (pa_level3_id a) (pa_level3_score a)) < length (enc_account a)"
    unfolding enc_account_def
    by (rule length_bytes_item [of 7], simp, rule length_bytes_item [of 8], simp)
  then have "decode_account_level (enc_level (pa_level_id a) (pa_level_score a)) = Inr (pa_level_id a, pa_level_score a)"
    "decode_account_level (enc_level (pa_level3_id a) (pa_level3_score a)) = Inr (pa_level3_id a, pa_level3_score a)"
    using assms(1) by (auto intro!: decode_account_level_enc)
  then show ?thesis
    using assms unfolding decode_player_account_def enc_account_def
    by (subst fold_fields_items) (simp_all add: extract_string_def from_utf8_lossy_valid)
qed

lemma decode_action_fields_enc:
  "length (enc_action a) < 2 ^ 64 \<Longrightarrow>
     decode_action_fields (enc_action a) = Inr (Some (wrapper_encode (ra_name a) (ra_data a)), ra_passed_ms a)"
  unfolding decode_action_fields_def enc_action_def
  by (subst fold_fields_items) (auto split: option.splits)

lemma wrapper_encode_nonempty [simp]: "wrapper_encode name data \<noteq> []"
  by (simp add: wrapper_encode_def)

lemma decode_new_format_actions_enc:
  assumes "\<forall>a \<in> set acts. length (enc_action a) < 2 ^ 64 \<and> ra_name a \<noteq> [] \<and> valid_utf8 (as_bytes (ra_name a))"
  shows "decode_new_format_actions (map enc_action acts) = Inr acts"
proof -
  define step where "step = (\<lambda>records action_bytes.
         attempt (decode_action_fields action_bytes) (\<lambda>(result_data, passed_ms).
           case result_data of
             None \<Rightarrow> Inr records
           | Some result \<Rightarrow>
               if result = [] then Inr records
               else attempt (decode_wrapper result) (\<lambda>(name, data).
                 Inr (if name \<noteq> []
                      then records @ [\<lparr>ra_name = name, ra_data = data, ra_passed_ms = passed_ms\<rparr>]
                      else records))))"
  have "step records (enc_action a) = Inr (records @ [a])" if "a \<in> set acts" for a records
  proof -
    have "length (wrapper_encode (ra_name a) (ra_data a)) < length (enc_action a)"
      unfolding enc_action_def by (rule length_bytes_item) simp
    then have "decode_wrapper (wrapper_encode (ra_name a) (ra_data a)) = Inr (ra_name a, ra_data a)"
      using assms that by (intro decode_wrapper_encode) auto
    then show ?thesis using assms that by (simp add: step_def decode_action_fields_enc)
  qed
  then have "try_fold step records (map enc_action as) = Inr (records @ as)" if "set as \<subseteq> set acts" for records as
    using that by (induction as arbitrary: records) auto
  then show ?thesis by (simp add: decode_new_format_actions_def step_def [symmetric])
qed

lemma decode_detail_records_enc:
  assumes "length (wrapper_encode w (enc_details acts)) < 2 ^ 64" and "valid_utf8 (as_bytes w)"
    and "\<forall>a \<in> set acts. ra_name a \<noteq> [] \<and> valid_utf8 (as_bytes (ra_name a))"
  shows "decode_detail_records (wrapper_encode w (enc_details acts)) = Inr acts"
proof -
  define step where "step = (\<lambda>(d :: detail_records) fld.
         if fld_is 1 2 fld then Inr (d\<lparr>dr_raw_records := dr_raw_records d @ [f_data fld]\<rparr>)
         else if fld_is 2 0 fld then get_u32 fld (\<lambda>v. Inr (d\<lparr>dr_version := v\<rparr>))
         else if fld_is 3 2 fld then Inr (d\<lparr>dr_actions_data := dr_actions_data d @ [f_data fld]\<rparr>)
         else Inr d)"
  have len: "length (enc_details acts) < 2 ^ 64"
    using assms(1) by (simp add: wrapper_encode_def)
  have short: "length (enc_action a) < 2 ^ 64" if "a \<in> set acts" for a
  proof -
    have "length (enc_action a) < length (enc_details acts)"
      unfolding enc_details_def using that by (intro length_bytes_item) auto
    with len show ?thesis by simp
  qed
  have acts: "try_fold step d (map item_field (map (\<lambda>a. Bytes_Item 3 (enc_action a)) as)) =
      Inr (d\<lparr>dr_actions_data := dr_actions_data d @ map enc_action as\<rparr>)" for d as
    by (induction as arbitrary: d) (simp_all add: step_def)
  have version: "step \<lparr>dr_version = 0, dr_raw_records = [], dr_actions_data = []\<rparr>
      \<lparr>f_number = 2, f_wire_type = 0, f_data = encode_varint 210715\<rparr> =
      Inr \<lparr>dr_version = 210715, dr_raw_records = [], dr_actions_data = []\<rparr>"
    by (simp add: step_def)
  have "fold_fields step \<lparr>dr_version = 0, dr_raw_records = [], dr_actions_data = []\<rparr> (enc_details acts) =
      Inr \<lparr>dr_version = 210715, dr_raw_records = [], dr_actions_data = map enc_action acts\<rparr>"
    using len unfolding enc_details_def
    by (subst fold_fields_items) (auto simp: version acts [simplified])
  then show ?thesis
    using assms short
    by (simp add: decode_detail_records_def decode_wrapper_encode step_def [symmetric] decode_new_format_actions_enc)
qed

lemma decode_config_mode_id_enc:
  assumes "length (encode_items [Bytes_Item 3 (encode_items [Varint_Item 2 (ucast mode)])]) < 2 ^ 64"
  shows "decode_config_mode_id (encode_items [Bytes_Item 3 (encode_items [Varint_Item 2 (ucast mode)])]) = Inr mode"
proof -
  have "length (encode_items [Varint_Item 2 (ucast mode)]) < 2 ^ 64"
    using assms by (simp add: encode_bytes_def)
  then have "search_fields (\<lambda>meta. if fld_is 2 0 meta then get_u32 meta (\<lambda>v. Inr (Some v)) else Inr None)
      (encode_items [Varint_Item 2 (ucast mode)]) = Inr (Some mode)"
    by (intro search_fields_first) simp_all
  then have "search_fields (\<lambda>fld. if fld_is 3 2 fld then
           search_fields (\<lambda>meta. if fld_is 2 0 meta then get_u32 meta (\<lambda>v. Inr (Some v)) else Inr None) (f_data fld)
         else Inr None) (encode_items [Bytes_Item 3 (encode_items [Varint_Item 2 (ucast mode)])]) = Inr (Some mode)"
    using assms by (intro search_fields_first) simp_all
  then show ?thesis by (simp add: decode_config_mode_id_def)
qed

lemma decode_result_items_enc:
  assumes "length (encode_items (map (\<lambda>p. Bytes_Item 1 (enc_result p)) ps)) < 2 ^ 64"
  shows "decode_result_items acc (encode_items (map (\<lambda>p. Bytes_Item 1 (enc_result p)) ps)) = Inr (acc @ ps)"
proof -
  define step where "step = (\<lambda>result item.
         if fld_is 1 2 item then attempt (decode_player_result (f_data item)) (\<lambda>r. Inr (result @ [r]))
         else Inr result)"
  have short: "length (enc_result p) < 2 ^ 64" if "p \<in> set ps" for p
  proof -
    have "length (enc_result p) < length (encode_items (map (\<lambda>p. Bytes_Item 1 (enc_result p)) ps))"
      using that by (intro length_bytes_item) auto
    with assms show ?thesis by simp
  qed
  have dec: "decode_player_result (enc_result p) = Inr p" if "p \<in> set ps" for p
    by (rule decode_player_result_enc, rule short [OF that])
  have "try_fold step acc (map item_field (map (\<lambda>p. Bytes_Item 1 (enc_result p)) qs)) = Inr (acc @ qs)"
    if "set qs \<subseteq> set ps" for qs acc
    using that by (induction qs arbitrary: acc) (auto simp: step_def dec)
  then show ?thesis
    unfolding decode_result_items_def step_def [symmetric]
    using assms by (subst fold_fields_items) auto
qed

lemma head_step_accounts:
  assumes "\<forall>a \<in> set as. length (enc_account a) < 2 ^ 64 \<and> valid_utf8 (as_bytes (pa_nickname a))"
  shows "try_fold head_step h (map (item_field \<circ> (\<lambda>a. Bytes_Item 11 (enc_account a))) as) =
           Inr (h\<lparr>hs_player_accounts := hs_player_accounts h @ as\<rparr>)"
proof -
  have "decode_player_account (enc_account a) = Inr a" if "a \<in> set as" for a
    using assms that by (intro decode_player_account_enc) auto
  then show ?thesis
    by (induction as arbitrary: h) (auto simp: head_step_def)
qed

lemma decode_head_enc:
  assumes "record_wf r" and "length (enc_head r) < 2 ^ 64"
  shows "fold_fields head_step h (enc_head r) =
     Inr (h\<lparr>hs_uuid := gr_uuid r, hs_start_time := gr_start_time r, hs_end_time := gr_end_time r,
            hs_mode_id := gr_mode_id r,
            hs_player_accounts := hs_player_accounts h @ gr_player_accounts r,
            hs_result := hs_result h @ gr_result r\<rparr>)"
proof -
  define config where "config = encode_items [Bytes_Item 3 (encode_items [Varint_Item 2 (ucast (gr_mode_id r))])]"
  define results where "results = encode_items (map (\<lambda>p. Bytes_Item 1 (enc_result p)) (gr_result r))"
  define its where "its =
     [Bytes_Item 1 (as_bytes (gr_uuid r)), Varint_Item 2 (ucast (gr_start_time r)),
       Varint_Item 3 (ucast (gr_end_time r)), Bytes_Item 5 config] @
      map (\<lambda>a. Bytes_Item 11 (enc_account a)) (gr_player_accounts r) @ [Bytes_Item 12 results]"
  have head: "enc_head r = encode_items its"
    by (simp add: enc_head_def its_def config_def results_def)
  have short: "length bs < 2 ^ 64" if "Bytes_Item n bs \<in> set its" for n bs
    using length_bytes_item [OF that] assms(2) head by simp
  have config: "decode_config_mode_id config = Inr (gr_mode_id r)"
    using short [of 5 config] unfolding config_def by (intro decode_config_mode_id_enc) (simp add: its_def config_def)
  have results: "decode_result_items acc results = Inr (acc @ gr_result r)" for acc
    using short [of 12 results] unfolding results_def
    by (intro decode_result_items_enc) (simp add: its_def results_def)
  have accounts: "\<forall>a \<in> set (gr_player_accounts r). length (enc_account a) < 2 ^ 64 \<and> valid_utf8 (as_bytes (pa_nickname a))"
    using assms(1) short [of 11] by (auto simp: record_wf_def list_all_iff its_def)
  have uuid: "from_utf8_lossy (as_bytes (gr_uuid r)) = gr_uuid r"
    using assms(1) by (simp add: record_wf_def from_utf8_lossy_valid)
  have "fold_fields head_step h (encode_items its) = try_fold head_step h (map item_field its)"
    using assms(2) head by (intro fold_fields_items) (auto simp: its_def)
  then show ?thesis
    by (simp add: head its_def result_simps head_step_accounts [OF accounts])
       (simp add: head_step_def extract_string_def uuid config results)
qed

lemma decode_game_record_enc:
  assumes "record_wf r" and "length (enc_record r) < 2 ^ 64"
  shows "decode_game_record (enc_record r) = Inr r"
proof -
  define details where "details = wrapper_encode ''d'' (enc_details (gr_records r))"
  have rec: "enc_record r = encode_items [Bytes_Item 3 (enc_head r), Bytes_Item 4 details]"
    by (simp add: enc_record_def details_def)
  have len: "length (enc_head r) < 2 ^ 64" "length details < 2 ^ 64"
    using assms(2) length_bytes_item [of 3 "enc_head r" "[Bytes_Item 3 (enc_head r), Bytes_Item 4 details]"]
      length_bytes_item [of 4 details "[Bytes_Item 3 (enc_head r), Bytes_Item 4 details]"]
    unfolding rec by simp_all
  have "valid_utf8 (as_bytes ''d'')" by (rule valid_utf8_ascii) (auto simp: as_bytes_def byte_of_char_def)
  then have acts: "decode_detail_records details = Inr (gr_records r)"
    using assms(1) len(2) unfolding details_def
    by (intro decode_detail_records_enc) (auto simp: record_wf_def list_all_iff)
  have "fold_fields game_record_step h (enc_record r) =
      Inr (h\<lparr>hs_uuid := gr_uuid r, hs_start_time := gr_start_time r, hs_end_time := gr_end_time r,
            hs_mode_id := gr_mode_id r, hs_player_accounts := hs_player_accounts h @ gr_player_accounts r,
            hs_result := hs_result h @ gr_result r, hs_compressed_data := Some details\<rparr>)" for h
    using assms(2) decode_head_enc [OF assms(1) len(1), of h] unfolding rec
    by (subst fold_fields_items) (simp_all add: game_record_step_def)
  then show ?thesis
    using assms(1) acts
    by (simp add: decode_game_record_def record_wf_def Let_def sort_key_id_if_sorted)
qed

section \<open>Properties\<close>

text \<open>Decoding a game record as the server encodes it gives that record back: identifier,
  times, mode, accounts with both ladders, settlement and every timed action, in order.\<close>

theorem game_record_round_trip:
  assumes "record_wf r" and "length (enc_record r) < 2 ^ 64"
  shows "decode_game_record (enc_record r) = Inr r"
  using assms by (rule decode_game_record_enc)

text \<open>A small record for the witnesses: two seats, one action.\<close>

definition sample_record :: game_record where
  "sample_record =
     \<lparr>gr_uuid = ''u'', gr_start_time = 7, gr_end_time = 9, gr_mode_id = 8, gr_player_names = [''a'', ''b''],
      gr_player_accounts =
        [\<lparr>pa_account_id = 1, pa_seat = 0, pa_nickname = ''a'', pa_level_id = 10101, pa_level_score = 5,
          pa_level3_id = 0, pa_level3_score = 0\<rparr>,
         \<lparr>pa_account_id = 2, pa_seat = 1, pa_nickname = ''b'', pa_level_id = 10102, pa_level_score = 6,
          pa_level3_id = 0, pa_level3_score = 0\<rparr>],
      gr_result = [], gr_records = [\<lparr>ra_name = ''x'', ra_data = [], ra_passed_ms = Some 3\<rparr>]\<rparr>"

lemma valid_utf8_single: "byte_of_char c < 0x80 \<Longrightarrow> valid_utf8 (as_bytes [c])"
  by (rule valid_utf8_ascii) (simp add: as_bytes_def)

lemma sample_record_wf: "record_wf sample_record"
  by (simp add: record_wf_def sample_record_def valid_utf8_single byte_of_char_def)

lemmas enc_defs = enc_record_def enc_head_def enc_account_def enc_level_def enc_details_def enc_action_def
  enc_result_def wrapper_encode_def encode_bytes_def encode_varint_field_def encode_varint.simps

theorem game_record_round_trip_witness: "decode_game_record (enc_record sample_record) = Inr sample_record"
proof -
  have "length (enc_record sample_record) < 2 ^ 64"
    by (simp add: sample_record_def enc_defs)
  with sample_record_wf show ?thesis by (rule game_record_round_trip)
qed

end
