(* ===== verification/Tiles.thy ===== *)
theory Tiles
  imports Rust_Text
begin

text \<open>
  \<^verbatim>\<open>src/majsoul/tiles.rs\<close>: Mahjong Soul's tile notation to mjai's. The length check counts
  bytes and the two subscripts count characters, so a string that is one character of two
  or more bytes passes the check and fails the second subscript.
\<close>

definition honor_tile :: "string \<Rightarrow> string result" where
  "honor_tile num =
     (if num = ''1'' then Inr ''E''
      else if num = ''2'' then Inr ''S''
      else if num = ''3'' then Inr ''W''
      else if num = ''4'' then Inr ''N''
      else if num = ''5'' then Inr ''P''
      else if num = ''6'' then Inr ''F''
      else if num = ''7'' then Inr ''C''
      else Inl (Bail ''Invalid honor tile''))"

definition tile_of_chars :: "string \<Rightarrow> string \<Rightarrow> string result" where
  "tile_of_chars num suit =
     (if suit = ''m'' \<or> suit = ''p'' \<or> suit = ''s'' then
        (if num = ''0'' then Inr (''5'' @ suit @ ''r'') else Inr (num @ suit))
      else if suit = ''z'' then honor_tile num
      else Inl (Bail ''Invalid suit''))"

definition tile_str_to_mjai :: "string \<Rightarrow> string result" where
  "tile_str_to_mjai s =
     (if length s < 2 then Inl (Bail ''Invalid tile string'')
      else case str_chars s of
             num # suit # _ \<Rightarrow> tile_of_chars num suit
           | _ \<Rightarrow> Inl (Panicked ''index out of bounds''))"

subsection \<open>The tiles of the game\<close>

text \<open>The thirty-seven tile names of the wire format, red fives included.\<close>

definition wire_tiles :: "string list" where
  "wire_tiles =
     concat (map (\<lambda>suit. map (\<lambda>n. [n, suit]) ''0123456789'') ''mps'') @
     map (\<lambda>n. [n, CHR ''z'']) ''1234567''"

definition mjai_of_wire :: "string \<Rightarrow> string" where
  "mjai_of_wire s = (case tile_str_to_mjai s of Inr t \<Rightarrow> t | Inl _ \<Rightarrow> [])"

lemma ascii_chars:
  "c \<in> set ''0123456789mpsz'' \<Longrightarrow> byte_of_char c < 0x80"
  by (auto simp: byte_of_char_def)

lemma tile_str_to_mjai_ascii:
  assumes "byte_of_char a < 0x80" "byte_of_char b < 0x80"
  shows "tile_str_to_mjai (a # b # s) = tile_of_chars [a] [b]"
  by (simp add: tile_str_to_mjai_def str_chars_Cons_ascii assms)

lemma wire_tiles_convert:
  "map tile_str_to_mjai wire_tiles =
     map Inr (concat (map (\<lambda>suit. [''5'' @ suit @ ''r'', ''1'' @ suit, ''2'' @ suit, ''3'' @ suit,
        ''4'' @ suit, ''5'' @ suit, ''6'' @ suit, ''7'' @ suit, ''8'' @ suit, ''9'' @ suit])
        [''m'', ''p'', ''s'']) @ [''E'', ''S'', ''W'', ''N'', ''P'', ''F'', ''C''])"
  by (simp add: wire_tiles_def tile_str_to_mjai_ascii byte_of_char_def tile_of_chars_def honor_tile_def)

lemma str_chars_nonempty: "s \<noteq> [] \<Longrightarrow> str_chars s \<noteq> []"
  using concat_str_chars [of s] by force

text \<open>The only panic is a string of two or more bytes that is a single character.\<close>

lemma tile_str_to_mjai_panic_iff:
  "(\<exists>m. tile_str_to_mjai s = Inl (Panicked m)) \<longleftrightarrow> 2 \<le> length s \<and> length (str_chars s) = 1"
  using str_chars_nonempty [of s]
  by (cases "s = []")
     (auto simp: tile_str_to_mjai_def tile_of_chars_def honor_tile_def split: list.splits)

lemma tile_str_to_mjai_ascii_no_panic: "is_ascii s \<Longrightarrow> tile_str_to_mjai s \<noteq> Inl (Panicked m)"
  using tile_str_to_mjai_panic_iff [of s] by (auto simp: str_chars_ascii)

text \<open>What a converted tile looks like: an honor, a red five, or a rank followed by a suit.\<close>

definition honor_names :: "string list" where
  "honor_names = [''E'', ''S'', ''W'', ''N'', ''P'', ''F'', ''C'']"

lemma honor_tile_names: "honor_tile num = Inr t \<Longrightarrow> t \<in> set honor_names"
  by (auto simp: honor_tile_def honor_names_def split: if_splits)

lemma tile_str_to_mjai_shape:
  assumes "tile_str_to_mjai s = Inr t"
  obtains "t \<in> set honor_names"
  | num suit rest where "suit \<in> {''m'', ''p'', ''s''}" "str_chars s = num # suit # rest"
      "t = (if num = ''0'' then ''5'' @ suit @ ''r'' else num @ suit)"
  using assms
  by (auto simp: tile_str_to_mjai_def tile_of_chars_def dest: honor_tile_names split: if_splits list.splits)

subsection \<open>Properties\<close>

text \<open>
  Each of the thirty-seven tile names of the wire format converts, and no two of them to
  the same mjai tile, so a converted hand determines the hand that was dealt.
\<close>

theorem tile_conversion_injective:
  "length wire_tiles = 37 \<and> distinct wire_tiles \<and>
   map tile_str_to_mjai wire_tiles = map Inr (map mjai_of_wire wire_tiles) \<and>
   distinct (map mjai_of_wire wire_tiles)"
proof -
  have conv: "map mjai_of_wire wire_tiles = map (\<lambda>r. case r of Inr t \<Rightarrow> t | Inl _ \<Rightarrow> []) (map tile_str_to_mjai wire_tiles)"
    by (simp add: mjai_of_wire_def)
  show ?thesis
    unfolding conv wire_tiles_convert by (simp add: wire_tiles_def)
qed

text \<open>
  The conversion returns a tile or an error for every string except those of two or more
  bytes that hold a single character; on exactly those it panics.
\<close>

theorem tile_conversion_panics_iff:
  "(\<exists>m. tile_str_to_mjai s = Inl (Panicked m)) \<longleftrightarrow> 2 \<le> length s \<and> length (str_chars s) = 1"
  by (rule tile_str_to_mjai_panic_iff)

end
