(* ===== verification/Events.thy ===== *)
theory Events
  imports Wire Tiles
begin

text \<open>
  \<^verbatim>\<open>src/majsoul/events.rs\<close>: the nine record types the converter understands and their
  decoders. A decoder is a fold of its step function over the fields of the message.
\<close>

section \<open>Event types\<close>

record new_round =
  nr_chang :: u32
  nr_ju :: u32
  nr_ben :: u32
  nr_liqibang :: u32
  nr_dora_marker :: string
  nr_doras :: "string list"
  nr_scores :: "i32 list"
  nr_tiles :: "string list list"

record deal_tile =
  dl_seat :: u32
  dl_tile :: string
  dl_doras :: "string list"

record discard_tile =
  di_seat :: u32
  di_tile :: string
  di_is_liqi :: bool
  di_moqie :: bool
  di_is_wliqi :: bool
  di_doras :: "string list"

datatype chi_peng_gang_type = Chi | Pon | Daiminkan

record chi_peng_gang =
  cp_seat :: u32
  cp_call_type :: chi_peng_gang_type
  cp_tiles :: "string list"
  cp_froms :: "u32 list"

datatype an_gang_add_gang_type = Kakan | Ankan

record an_gang_add_gang =
  ag_seat :: u32
  ag_gang_type :: an_gang_add_gang_type
  ag_tiles :: string
  ag_doras :: "string list"

record fan_info =
  fi_id :: u32
  fi_name :: string
  fi_val :: u32

record meld =
  me_kind :: string
  me_tiles :: "string list"

record hule_info =
  hi_seat :: u32
  hi_zimo :: bool
  hi_hand :: "string list"
  hi_melds :: "meld list"
  hi_hu_tile :: string
  hi_fu :: u32
  hi_point_rong :: i32
  hi_point_zimo_qin :: i32
  hi_point_zimo_xian :: i32
  hi_han :: u32
  hi_yiman :: bool
  hi_riichi :: bool
  hi_doras :: "string list"
  hi_ura_doras :: "string list"
  hi_yakus :: "fan_info list"

record hule =
  hu_hules :: "hule_info list"
  hu_delta_scores :: "i32 list"
  hu_scores :: "i32 list"
  hu_doras :: "string list"

record no_tile =
  nt_scores :: "i32 list"
  nt_delta_scores :: "i32 list"
  nt_tenpai :: "bool list"
  nt_liujumanguan :: bool
  nt_tenpai_hands :: "string list list"

record liu_ju =
  lj_type :: u32
  lj_seat :: "u32 option"
  lj_tiles :: "string list"

record ba_bei =
  bb_seat :: u32
  bb_moqie :: bool
  bb_doras :: "string list"

datatype game_event =
    NewRound new_round
  | DealTile deal_tile
  | DiscardTile discard_tile
  | ChiPengGang chi_peng_gang
  | AnGangAddGang an_gang_add_gang
  | Hule hule
  | NoTile no_tile
  | LiuJu liu_ju
  | BaBei ba_bei

section \<open>Decoders\<close>

text \<open>\<^verbatim>\<open>tile_str_to_mjai(&extract_string(field.data))?\<close>\<close>

abbreviation get_tile :: "field \<Rightarrow> (string \<Rightarrow> 's result) \<Rightarrow> 's result" where
  "get_tile fld k \<equiv> attempt (tile_str_to_mjai (extract_string (f_data fld))) k"

abbreviation get_packed :: "field \<Rightarrow> (i32 list \<Rightarrow> 's result) \<Rightarrow> 's result" where
  "get_packed fld k \<equiv> attempt (decode_packed_varints (f_data fld)) k"

definition new_round_step :: "new_round \<Rightarrow> field \<Rightarrow> new_round result" where
  "new_round_step r fld =
     (if fld_is 1 0 fld then get_u32 fld (\<lambda>v. Inr (r\<lparr>nr_chang := v\<rparr>))
      else if fld_is 2 0 fld then get_u32 fld (\<lambda>v. Inr (r\<lparr>nr_ju := v\<rparr>))
      else if fld_is 3 0 fld then get_u32 fld (\<lambda>v. Inr (r\<lparr>nr_ben := v\<rparr>))
      else if fld_is 5 2 fld then get_packed fld (\<lambda>vs. Inr (r\<lparr>nr_scores := nr_scores r @ vs\<rparr>))
      else if fld_is 5 0 fld then get_u32 fld (\<lambda>v. Inr (r\<lparr>nr_scores := nr_scores r @ [v]\<rparr>))
      else if fld_is 6 0 fld then get_u32 fld (\<lambda>v. Inr (r\<lparr>nr_liqibang := v\<rparr>))
      else if fld_is 7 2 fld then
        get_tile fld (\<lambda>t. Inr (r\<lparr>nr_tiles := list_modify 0 (\<lambda>ts. ts @ [t]) (nr_tiles r)\<rparr>))
      else if fld_is 8 2 fld then
        get_tile fld (\<lambda>t. Inr (r\<lparr>nr_tiles := list_modify 1 (\<lambda>ts. ts @ [t]) (nr_tiles r)\<rparr>))
      else if fld_is 9 2 fld then
        get_tile fld (\<lambda>t. Inr (r\<lparr>nr_tiles := list_modify 2 (\<lambda>ts. ts @ [t]) (nr_tiles r)\<rparr>))
      else if fld_is 10 2 fld then
        get_tile fld (\<lambda>t. Inr (r\<lparr>nr_tiles := list_modify 3 (\<lambda>ts. ts @ [t]) (nr_tiles r)\<rparr>))
      else if fld_is 16 2 fld then get_tile fld (\<lambda>t. Inr (r\<lparr>nr_doras := nr_doras r @ [t]\<rparr>))
      else Inr r)"

definition parse_new_round :: "u8 list \<Rightarrow> new_round result" where
  "parse_new_round data =
     attempt (fold_fields new_round_step
       \<lparr>nr_chang = 0, nr_ju = 0, nr_ben = 0, nr_liqibang = 0, nr_dora_marker = [], nr_doras = [],
        nr_scores = [], nr_tiles = [[], [], [], []]\<rparr> data)
     (\<lambda>r. Inr (r\<lparr>nr_dora_marker := (case first_opt (nr_doras r) of Some d \<Rightarrow> d | None \<Rightarrow> [])\<rparr>))"

definition deal_tile_step :: "deal_tile \<Rightarrow> field \<Rightarrow> deal_tile result" where
  "deal_tile_step r fld =
     (if fld_is 1 0 fld then get_u32 fld (\<lambda>v. Inr (r\<lparr>dl_seat := v\<rparr>))
      else if fld_is 2 2 fld then get_tile fld (\<lambda>t. Inr (r\<lparr>dl_tile := t\<rparr>))
      else if fld_is 6 2 fld then get_tile fld (\<lambda>t. Inr (r\<lparr>dl_doras := dl_doras r @ [t]\<rparr>))
      else Inr r)"

definition parse_deal_tile :: "u8 list \<Rightarrow> deal_tile result" where
  "parse_deal_tile data =
     fold_fields deal_tile_step \<lparr>dl_seat = 0, dl_tile = [], dl_doras = []\<rparr> data"

definition discard_tile_step :: "discard_tile \<Rightarrow> field \<Rightarrow> discard_tile result" where
  "discard_tile_step r fld =
     (if fld_is 1 0 fld then get_u32 fld (\<lambda>v. Inr (r\<lparr>di_seat := v\<rparr>))
      else if fld_is 2 2 fld then get_tile fld (\<lambda>t. Inr (r\<lparr>di_tile := t\<rparr>))
      else if fld_is 3 0 fld then get_bool fld (\<lambda>b. Inr (r\<lparr>di_is_liqi := b\<rparr>))
      else if fld_is 5 0 fld then get_bool fld (\<lambda>b. Inr (r\<lparr>di_moqie := b\<rparr>))
      else if fld_is 8 2 fld then get_tile fld (\<lambda>t. Inr (r\<lparr>di_doras := di_doras r @ [t]\<rparr>))
      else if fld_is 9 0 fld then get_bool fld (\<lambda>b. Inr (r\<lparr>di_is_wliqi := b\<rparr>))
      else Inr r)"

definition parse_discard_tile :: "u8 list \<Rightarrow> discard_tile result" where
  "parse_discard_tile data =
     fold_fields discard_tile_step
       \<lparr>di_seat = 0, di_tile = [], di_is_liqi = False, di_moqie = False, di_is_wliqi = False, di_doras = []\<rparr>
       data"

definition call_type_of :: "u32 \<Rightarrow> chi_peng_gang_type" where
  "call_type_of t = (if t = 0 then Chi else if t = 1 then Pon else if t = 2 then Daiminkan else Chi)"

definition chi_peng_gang_step :: "chi_peng_gang \<Rightarrow> field \<Rightarrow> chi_peng_gang result" where
  "chi_peng_gang_step r fld =
     (if fld_is 1 0 fld then get_u32 fld (\<lambda>v. Inr (r\<lparr>cp_seat := v\<rparr>))
      else if fld_is 2 0 fld then get_u32 fld (\<lambda>v. Inr (r\<lparr>cp_call_type := call_type_of v\<rparr>))
      else if fld_is 3 2 fld then get_tile fld (\<lambda>t. Inr (r\<lparr>cp_tiles := cp_tiles r @ [t]\<rparr>))
      else if fld_is 4 2 fld then get_packed fld (\<lambda>vs. Inr (r\<lparr>cp_froms := cp_froms r @ vs\<rparr>))
      else if fld_is 4 0 fld then get_u32 fld (\<lambda>v. Inr (r\<lparr>cp_froms := cp_froms r @ [v]\<rparr>))
      else Inr r)"

definition parse_chi_peng_gang :: "u8 list \<Rightarrow> chi_peng_gang result" where
  "parse_chi_peng_gang data =
     fold_fields chi_peng_gang_step \<lparr>cp_seat = 0, cp_call_type = Chi, cp_tiles = [], cp_froms = []\<rparr> data"

definition gang_type_of :: "u32 \<Rightarrow> an_gang_add_gang_type" where
  "gang_type_of t = (if t = 2 then Kakan else if t = 3 then Ankan else Ankan)"

definition an_gang_add_gang_step :: "an_gang_add_gang \<Rightarrow> field \<Rightarrow> an_gang_add_gang result" where
  "an_gang_add_gang_step r fld =
     (if fld_is 1 0 fld then get_u32 fld (\<lambda>v. Inr (r\<lparr>ag_seat := v\<rparr>))
      else if fld_is 2 0 fld then get_u32 fld (\<lambda>v. Inr (r\<lparr>ag_gang_type := gang_type_of v\<rparr>))
      else if fld_is 3 2 fld then get_tile fld (\<lambda>t. Inr (r\<lparr>ag_tiles := t\<rparr>))
      else if fld_is 6 2 fld then get_tile fld (\<lambda>t. Inr (r\<lparr>ag_doras := ag_doras r @ [t]\<rparr>))
      else Inr r)"

definition parse_an_gang_add_gang :: "u8 list \<Rightarrow> an_gang_add_gang result" where
  "parse_an_gang_add_gang data =
     fold_fields an_gang_add_gang_step
       \<lparr>ag_seat = 0, ag_gang_type = Ankan, ag_tiles = [], ag_doras = []\<rparr> data"

definition parse_meld :: "string \<Rightarrow> meld result" where
  "parse_meld val =
     (case split_once CHR ''('' val of
        None \<Rightarrow> Inl (Bail ''meld has no opening bracket'')
      | Some (kind, rest) \<Rightarrow> (case strip_suffix_char CHR '')'' rest of
          None \<Rightarrow> Inl (Bail ''meld has no closing bracket'')
        | Some tiles \<Rightarrow> attempt (try_map tile_str_to_mjai (split_on CHR '','' tiles)) (\<lambda>ts.
            Inr \<lparr>me_kind = kind, me_tiles = ts\<rparr>)))"

definition parse_fan_info :: "u8 list \<Rightarrow> fan_info result" where
  "parse_fan_info data =
     fold_fields (\<lambda>fan fld.
         if fld_is 1 2 fld then Inr (fan\<lparr>fi_name := extract_string (f_data fld)\<rparr>)
         else if fld_is 2 0 fld then get_u32 fld (\<lambda>v. Inr (fan\<lparr>fi_val := v\<rparr>))
         else if fld_is 3 0 fld then get_u32 fld (\<lambda>v. Inr (fan\<lparr>fi_id := v\<rparr>))
         else Inr fan) \<lparr>fi_id = 0, fi_name = [], fi_val = 0\<rparr> data"

definition hule_info_step :: "hule_info \<Rightarrow> field \<Rightarrow> hule_info result" where
  "hule_info_step r fld =
     (if fld_is 1 2 fld then get_tile fld (\<lambda>t. Inr (r\<lparr>hi_hand := hi_hand r @ [t]\<rparr>))
      else if fld_is 2 2 fld then
        attempt (parse_meld (extract_string (f_data fld))) (\<lambda>m. Inr (r\<lparr>hi_melds := hi_melds r @ [m]\<rparr>))
      else if fld_is 3 2 fld then get_tile fld (\<lambda>t. Inr (r\<lparr>hi_hu_tile := t\<rparr>))
      else if fld_is 4 0 fld then get_u32 fld (\<lambda>v. Inr (r\<lparr>hi_seat := v\<rparr>))
      else if fld_is 5 0 fld then get_bool fld (\<lambda>b. Inr (r\<lparr>hi_zimo := b\<rparr>))
      else if fld_is 7 0 fld then get_bool fld (\<lambda>b. Inr (r\<lparr>hi_riichi := b\<rparr>))
      else if fld_is 8 2 fld then get_tile fld (\<lambda>t. Inr (r\<lparr>hi_doras := hi_doras r @ [t]\<rparr>))
      else if fld_is 9 2 fld then get_tile fld (\<lambda>t. Inr (r\<lparr>hi_ura_doras := hi_ura_doras r @ [t]\<rparr>))
      else if fld_is 10 0 fld then get_bool fld (\<lambda>b. Inr (r\<lparr>hi_yiman := b\<rparr>))
      else if fld_is 11 0 fld then get_u32 fld (\<lambda>v. Inr (r\<lparr>hi_han := v\<rparr>))
      else if fld_is 12 2 fld then
        attempt (parse_fan_info (f_data fld)) (\<lambda>y. Inr (r\<lparr>hi_yakus := hi_yakus r @ [y]\<rparr>))
      else if fld_is 13 0 fld then get_u32 fld (\<lambda>v. Inr (r\<lparr>hi_fu := v\<rparr>))
      else if fld_is 15 0 fld then get_u32 fld (\<lambda>v. Inr (r\<lparr>hi_point_rong := v\<rparr>))
      else if fld_is 16 0 fld then get_u32 fld (\<lambda>v. Inr (r\<lparr>hi_point_zimo_qin := v\<rparr>))
      else if fld_is 17 0 fld then get_u32 fld (\<lambda>v. Inr (r\<lparr>hi_point_zimo_xian := v\<rparr>))
      else Inr r)"

definition hule_info_default :: hule_info where
  "hule_info_default =
     \<lparr>hi_seat = 0, hi_zimo = False, hi_hand = [], hi_melds = [], hi_hu_tile = [], hi_fu = 0,
      hi_point_rong = 0, hi_point_zimo_qin = 0, hi_point_zimo_xian = 0, hi_han = 0, hi_yiman = False,
      hi_riichi = False, hi_doras = [], hi_ura_doras = [], hi_yakus = []\<rparr>"

definition parse_hule_info :: "u8 list \<Rightarrow> hule_info result" where
  "parse_hule_info data = fold_fields hule_info_step hule_info_default data"

definition hule_step :: "hule \<Rightarrow> field \<Rightarrow> hule result" where
  "hule_step r fld =
     (if fld_is 1 2 fld then
        attempt (parse_hule_info (f_data fld)) (\<lambda>h. Inr (r\<lparr>hu_hules := hu_hules r @ [h]\<rparr>))
      else if fld_is 3 2 fld then get_packed fld (\<lambda>vs. Inr (r\<lparr>hu_delta_scores := hu_delta_scores r @ vs\<rparr>))
      else if fld_is 3 0 fld then get_u32 fld (\<lambda>v. Inr (r\<lparr>hu_delta_scores := hu_delta_scores r @ [v]\<rparr>))
      else if fld_is 5 2 fld then get_packed fld (\<lambda>vs. Inr (r\<lparr>hu_scores := hu_scores r @ vs\<rparr>))
      else if fld_is 5 0 fld then get_u32 fld (\<lambda>v. Inr (r\<lparr>hu_scores := hu_scores r @ [v]\<rparr>))
      else if fld_is 7 2 fld then get_tile fld (\<lambda>t. Inr (r\<lparr>hu_doras := hu_doras r @ [t]\<rparr>))
      else Inr r)"

definition parse_hule :: "u8 list \<Rightarrow> hule result" where
  "parse_hule data =
     fold_fields hule_step \<lparr>hu_hules = [], hu_delta_scores = [], hu_scores = [], hu_doras = []\<rparr> data"

subsection \<open>Exhaustive draws\<close>

definition no_tile_player :: "u8 list \<Rightarrow> (bool \<times> string list) result" where
  "no_tile_player data =
     fold_fields (\<lambda>(tenpai, hand) inner.
         if fld_is 3 0 inner then get_bool inner (\<lambda>b. Inr (b, hand))
         else if fld_is 4 2 inner then get_tile inner (\<lambda>t. Inr (tenpai, hand @ [t]))
         else Inr (tenpai, hand)) (False, []) data"

definition no_tile_payment :: "u8 list \<Rightarrow> (i32 list \<times> i32 list) result" where
  "no_tile_payment data =
     fold_fields (\<lambda>(old, delta) inner.
         if fld_is 2 2 inner then get_packed inner (\<lambda>vs. Inr (old @ vs, delta))
         else if fld_is 2 0 inner then get_u32 inner (\<lambda>v. Inr (old @ [v], delta))
         else if fld_is 3 2 inner then get_packed inner (\<lambda>vs. Inr (old, delta @ vs))
         else if fld_is 3 0 inner then get_u32 inner (\<lambda>v. Inr (old, delta @ [v]))
         else Inr (old, delta)) ([], []) data"

text \<open>\<^verbatim>\<open>resize\<close> to the longer of the two, then add the payment seat by seat.\<close>

fun add_payment :: "i32 list \<Rightarrow> i32 list \<Rightarrow> i32 list" where
  "add_payment [] delta = delta"
| "add_payment tot [] = tot"
| "add_payment (t # tot) (d # delta) = (t + d) # add_payment tot delta"

record no_tile_state =
  ns_old_scores :: "i32 list"
  ns_delta_scores :: "i32 list"
  ns_tenpai :: "bool list"
  ns_tenpai_hands :: "string list list"
  ns_liujumanguan :: bool

definition no_tile_step :: "no_tile_state \<Rightarrow> field \<Rightarrow> no_tile_state result" where
  "no_tile_step r fld =
     (if fld_is 1 0 fld then get_bool fld (\<lambda>b. Inr (r\<lparr>ns_liujumanguan := b\<rparr>))
      else if fld_is 2 2 fld then
        attempt (no_tile_player (f_data fld)) (\<lambda>(tenpai, hand).
          Inr (r\<lparr>ns_tenpai := ns_tenpai r @ [tenpai], ns_tenpai_hands := ns_tenpai_hands r @ [hand]\<rparr>))
      else if fld_is 3 2 fld then
        attempt (no_tile_payment (f_data fld)) (\<lambda>(old, delta).
          Inr (r\<lparr>ns_old_scores := (if ns_old_scores r = [] then old else ns_old_scores r),
                 ns_delta_scores := add_payment (ns_delta_scores r) delta\<rparr>))
      else Inr r)"

text \<open>\<^verbatim>\<open>old.iter().zip(delta.iter().chain(repeat(&0))).map(|(old, delta)| old + delta)\<close>\<close>

fun closing_scores :: "i32 list \<Rightarrow> i32 list \<Rightarrow> i32 list" where
  "closing_scores [] delta = []"
| "closing_scores (o1 # old) [] = (o1 + 0) # closing_scores old []"
| "closing_scores (o1 # old) (d # delta) = (o1 + d) # closing_scores old delta"

definition parse_no_tile :: "u8 list \<Rightarrow> no_tile result" where
  "parse_no_tile data =
     attempt (fold_fields no_tile_step
       \<lparr>ns_old_scores = [], ns_delta_scores = [], ns_tenpai = [], ns_tenpai_hands = [],
        ns_liujumanguan = False\<rparr> data) (\<lambda>r.
     Inr \<lparr>nt_scores = closing_scores (ns_old_scores r) (ns_delta_scores r),
          nt_delta_scores = ns_delta_scores r, nt_tenpai = ns_tenpai r,
          nt_liujumanguan = ns_liujumanguan r, nt_tenpai_hands = ns_tenpai_hands r\<rparr>)"

subsection \<open>Aborts, the north tile, and the dispatch\<close>

definition parse_liu_ju :: "u8 list \<Rightarrow> liu_ju result" where
  "parse_liu_ju data =
     fold_fields (\<lambda>r fld.
         if fld_is 1 0 fld then get_u32 fld (\<lambda>v. Inr (r\<lparr>lj_type := v\<rparr>))
         else if fld_is 3 0 fld then get_u32 fld (\<lambda>v. Inr (r\<lparr>lj_seat := Some v\<rparr>))
         else if fld_is 4 2 fld then get_tile fld (\<lambda>t. Inr (r\<lparr>lj_tiles := lj_tiles r @ [t]\<rparr>))
         else Inr r) \<lparr>lj_type = 0, lj_seat = None, lj_tiles = []\<rparr> data"

definition parse_babei :: "u8 list \<Rightarrow> ba_bei result" where
  "parse_babei data =
     fold_fields (\<lambda>r fld.
         if fld_is 1 0 fld then get_u32 fld (\<lambda>v. Inr (r\<lparr>bb_seat := v\<rparr>))
         else if fld_is 6 2 fld then get_tile fld (\<lambda>t. Inr (r\<lparr>bb_doras := bb_doras r @ [t]\<rparr>))
         else if fld_is 8 0 fld then get_bool fld (\<lambda>b. Inr (r\<lparr>bb_moqie := b\<rparr>))
         else Inr r) \<lparr>bb_seat = 0, bb_moqie = False, bb_doras = []\<rparr> data"

definition parse_record_action :: "string \<Rightarrow> u8 list \<Rightarrow> game_event option result" where
  "parse_record_action name data =
     (if name = ''.lq.RecordNewRound'' then attempt (parse_new_round data) (\<lambda>e. Inr (Some (NewRound e)))
      else if name = ''.lq.RecordDealTile'' then attempt (parse_deal_tile data) (\<lambda>e. Inr (Some (DealTile e)))
      else if name = ''.lq.RecordDiscardTile'' then
        attempt (parse_discard_tile data) (\<lambda>e. Inr (Some (DiscardTile e)))
      else if name = ''.lq.RecordChiPengGang'' then
        attempt (parse_chi_peng_gang data) (\<lambda>e. Inr (Some (ChiPengGang e)))
      else if name = ''.lq.RecordAnGangAddGang'' then
        attempt (parse_an_gang_add_gang data) (\<lambda>e. Inr (Some (AnGangAddGang e)))
      else if name = ''.lq.RecordHule'' then attempt (parse_hule data) (\<lambda>e. Inr (Some (Hule e)))
      else if name = ''.lq.RecordNoTile'' then attempt (parse_no_tile data) (\<lambda>e. Inr (Some (NoTile e)))
      else if name = ''.lq.RecordLiuJu'' then attempt (parse_liu_ju data) (\<lambda>e. Inr (Some (LiuJu e)))
      else if name = ''.lq.RecordBaBei'' then attempt (parse_babei data) (\<lambda>e. Inr (Some (BaBei e)))
      else Inr None)"

section \<open>Properties of the decoders\<close>

lemma extract_string_valid: "valid_utf8 (as_bytes (extract_string data))"
  by (simp add: extract_string_def valid_from_utf8_lossy)

text \<open>A tile that came through the decoder is one byte long or has two characters.\<close>

definition tile_text_ok :: "string \<Rightarrow> bool" where
  "tile_text_ok t \<longleftrightarrow> length t < 2 \<or> 2 \<le> length (str_chars t)"

lemma decoded_tile_ok:
  assumes "tile_str_to_mjai (extract_string data) = Inr t"
  shows "tile_text_ok t"
  using assms
proof (rule tile_str_to_mjai_shape)
  assume "t \<in> set honor_names"
  then show ?thesis by (auto simp: tile_text_ok_def honor_names_def)
next
  fix num suit rest
  assume suit: "suit \<in> {''m'', ''p'', ''s''}" and chars: "str_chars (extract_string data) = num # suit # rest"
    and t: "t = (if num = ''0'' then ''5'' @ suit @ ''r'' else num @ suit)"
  show ?thesis
  proof (cases "num = ''0''")
    case True
    then show ?thesis using suit t
      by (auto simp: tile_text_ok_def str_chars_Cons_ascii byte_of_char_def)
  next
    case False
    then show ?thesis using t str_chars_two [OF extract_string_valid chars]
      by (simp add: tile_text_ok_def)
  qed
qed

lemma parse_an_gang_add_gang_tile:
  assumes "parse_an_gang_add_gang data = Inr ag"
  shows "tile_text_ok (ag_tiles ag)"
  by (rule fold_fields_from_invariant [OF assms [unfolded parse_an_gang_add_gang_def],
        where P = "\<lambda>r. tile_text_ok (ag_tiles r)"])
     (auto simp: an_gang_add_gang_step_def result_simps tile_text_ok_def [of "[]"]
        dest: decoded_tile_ok split: if_splits)

lemma add_payment_nth:
  "i < length (add_payment a b) \<Longrightarrow>
     add_payment a b ! i = (if i < length a then a ! i else 0) + (if i < length b then b ! i else 0)"
  by (induction a b arbitrary: i rule: add_payment.induct) (auto simp: nth_Cons split: nat.splits)

lemma length_add_payment [simp]: "length (add_payment a b) = max (length a) (length b)"
  by (induction a b rule: add_payment.induct) auto

lemma sum_add_payment: "sum_list (add_payment a b) = sum_list a + sum_list b"
  by (induction a b rule: add_payment.induct) (auto simp: algebra_simps)

lemma length_closing_scores [simp]: "length (closing_scores old delta) = length old"
  by (induction old delta rule: closing_scores.induct) auto

lemma closing_scores_nth:
  "i < length old \<Longrightarrow> closing_scores old delta ! i = old ! i + (if i < length delta then delta ! i else 0)"
  by (induction old delta arbitrary: i rule: closing_scores.induct) (auto simp: nth_Cons split: nat.splits)

text \<open>Every seat listed by an exhaustive draw has one tenpai flag and one shown hand.\<close>

lemma parse_no_tile_hands:
  assumes "parse_no_tile data = Inr nt"
  shows "length (nt_tenpai nt) = length (nt_tenpai_hands nt)"
proof -
  from assms obtain r where r: "fold_fields no_tile_step
       \<lparr>ns_old_scores = [], ns_delta_scores = [], ns_tenpai = [], ns_tenpai_hands = [],
        ns_liujumanguan = False\<rparr> data = Inr r"
    and nt: "nt_tenpai nt = ns_tenpai r" "nt_tenpai_hands nt = ns_tenpai_hands r"
    by (auto simp: parse_no_tile_def result_simps)
  have "length (ns_tenpai r) = length (ns_tenpai_hands r)"
    by (rule fold_fields_from_invariant [OF r, where P = "\<lambda>r. length (ns_tenpai r) = length (ns_tenpai_hands r)"])
       (auto simp: no_tile_step_def result_simps split: if_splits)
  with nt show ?thesis by simp
qed

section \<open>Messages as the game writes them\<close>

text \<open>
  The canonical encodings of the decoders' messages: tiles in the wire notation, signed
  scores sign-extended to a varint, packed where the schema packs them.
\<close>

abbreviation tile_items :: "u32 \<Rightarrow> string list \<Rightarrow> wire_item list" where
  "tile_items n ts \<equiv> map (\<lambda>t. Bytes_Item n (as_bytes t)) ts"

definition bool_item :: "u32 \<Rightarrow> bool \<Rightarrow> wire_item" where
  "bool_item n b = Varint_Item n (if b then 1 else 0)"

definition packed_item :: "u32 \<Rightarrow> i32 list \<Rightarrow> wire_item" where
  "packed_item n vs = Bytes_Item n (concat (map (\<lambda>v. encode_varint (scast v)) vs))"

definition enc_deal_tile :: "u32 \<Rightarrow> string \<Rightarrow> string list \<Rightarrow> wire_item list" where
  "enc_deal_tile seat tile doras =
     [Varint_Item 1 (ucast seat), Bytes_Item 2 (as_bytes tile)] @ tile_items 6 doras"

definition enc_discard_tile :: "u32 \<Rightarrow> string \<Rightarrow> bool \<Rightarrow> bool \<Rightarrow> bool \<Rightarrow> string list \<Rightarrow> wire_item list" where
  "enc_discard_tile seat tile liqi moqie wliqi doras =
     [Varint_Item 1 (ucast seat), Bytes_Item 2 (as_bytes tile), bool_item 3 liqi, bool_item 5 moqie] @
     tile_items 8 doras @ [bool_item 9 wliqi]"

definition enc_no_tile_player :: "bool \<Rightarrow> string list \<Rightarrow> wire_item list" where
  "enc_no_tile_player tenpai hand = bool_item 3 tenpai # tile_items 4 hand"

definition enc_no_tile_payment :: "i32 list \<Rightarrow> i32 list \<Rightarrow> wire_item list" where
  "enc_no_tile_payment old delta = [packed_item 2 old, packed_item 3 delta]"

definition enc_no_tile :: "bool \<Rightarrow> (bool \<times> string list) list \<Rightarrow> (i32 list \<times> i32 list) list \<Rightarrow> wire_item list" where
  "enc_no_tile liujumanguan players payments =
     bool_item 1 liujumanguan #
     map (\<lambda>(tenpai, hand). Bytes_Item 2 (encode_items (enc_no_tile_player tenpai hand))) players @
     map (\<lambda>(old, delta). Bytes_Item 3 (encode_items (enc_no_tile_payment old delta))) payments"

lemma scast_ucast_i32: "ucast (scast (v::i32) :: u64) = v"
  by (auto intro!: bit_word_eqI simp: bit_simps)

lemma packed_scores [wire_simps]:
  "decode_packed_varints (concat (map (\<lambda>v. encode_varint (scast v)) vs)) = Inr (vs :: i32 list)"
  using decode_packed_varints_encode [of "map scast vs"] by (simp add: scast_ucast_i32 comp_def)

lemma u32_ucast [simp]: "ucast (ucast (v::u32) :: u64) = v"
  by (auto intro!: bit_word_eqI simp: bit_simps)

lemma wire_tile_convert:
  assumes "t \<in> set wire_tiles"
  shows "tile_str_to_mjai t = Inr (mjai_of_wire t)"
proof -
  have "tile_str_to_mjai t \<in> set (map tile_str_to_mjai wire_tiles)"
    using assms by simp
  then have "\<exists>u. tile_str_to_mjai t = Inr u"
    unfolding wire_tiles_convert set_map by blast
  then show ?thesis by (auto simp: mjai_of_wire_def)
qed

lemma wire_tile_utf8:
  assumes "t \<in> set wire_tiles"
  shows "extract_string (as_bytes t) = t"
proof -
  have "list_all (\<lambda>t. list_all (\<lambda>c. byte_of_char c < 0x80) t) wire_tiles"
    by (simp add: wire_tiles_def byte_of_char_def)
  with assms have "list_all (\<lambda>b. b < 0x80) (as_bytes t)"
    by (auto simp: list_all_iff as_bytes_def)
  then show ?thesis
    by (simp add: extract_string_def list_all_iff from_utf8_lossy_valid valid_utf8_ascii)
qed

lemma try_fold_tiles:
  assumes "set ts \<subseteq> set wire_tiles"
    and "\<And>s t. t \<in> set wire_tiles \<Longrightarrow>
       step s \<lparr>f_number = n, f_wire_type = 2, f_data = as_bytes t\<rparr> = Inr (add s (mjai_of_wire t))"
  shows "try_fold step s (map item_field (tile_items n ts)) = Inr (foldl add s (map mjai_of_wire ts))"
  using assms(1) by (induction ts arbitrary: s) (auto simp: assms(2))

lemmas message_simps = bool_item_def packed_item_def wire_tile_utf8 wire_tile_convert result_simps

lemma foldl_doras:
  "foldl (\<lambda>r t. r\<lparr>dl_doras := dl_doras r @ [t]\<rparr>) r ts = r\<lparr>dl_doras := dl_doras r @ ts\<rparr>"
  "foldl (\<lambda>r t. r\<lparr>di_doras := di_doras r @ [t]\<rparr>) s ts = s\<lparr>di_doras := di_doras s @ ts\<rparr>"
  by (induction ts arbitrary: r s) auto

lemma foldl_hand: "foldl (\<lambda>(b, hand) t. (b, hand @ [t])) (b, hand) ts = (b, hand @ ts)"
  by (induction ts arbitrary: hand) auto

lemma parse_deal_tile_enc:
  assumes "tile \<in> set wire_tiles" and "set doras \<subseteq> set wire_tiles"
    and "length (encode_items (enc_deal_tile seat tile doras)) < 2 ^ 64"
  shows "parse_deal_tile (encode_items (enc_deal_tile seat tile doras)) =
     Inr \<lparr>dl_seat = seat, dl_tile = mjai_of_wire tile, dl_doras = map mjai_of_wire doras\<rparr>"
proof -
  have "try_fold deal_tile_step r (map item_field (tile_items 6 doras)) =
      Inr (r\<lparr>dl_doras := dl_doras r @ map mjai_of_wire doras\<rparr>)" for r
    by (subst try_fold_tiles [where add = "\<lambda>r t. r\<lparr>dl_doras := dl_doras r @ [t]\<rparr>"])
       (simp_all add: assms(2) deal_tile_step_def message_simps foldl_doras)
  then show ?thesis
    unfolding parse_deal_tile_def
    by (subst fold_fields_items)
       (use assms in \<open>auto simp: enc_deal_tile_def deal_tile_step_def message_simps\<close>)
qed

lemma parse_discard_tile_enc:
  assumes "tile \<in> set wire_tiles" and "set doras \<subseteq> set wire_tiles"
    and "length (encode_items (enc_discard_tile seat tile liqi moqie wliqi doras)) < 2 ^ 64"
  shows "parse_discard_tile (encode_items (enc_discard_tile seat tile liqi moqie wliqi doras)) =
     Inr \<lparr>di_seat = seat, di_tile = mjai_of_wire tile, di_is_liqi = liqi, di_moqie = moqie,
          di_is_wliqi = wliqi, di_doras = map mjai_of_wire doras\<rparr>"
proof -
  have "try_fold discard_tile_step r (map item_field (tile_items 8 doras)) =
      Inr (r\<lparr>di_doras := di_doras r @ map mjai_of_wire doras\<rparr>)" for r
    by (subst try_fold_tiles [where add = "\<lambda>r t. r\<lparr>di_doras := di_doras r @ [t]\<rparr>"])
       (simp_all add: assms(2) discard_tile_step_def message_simps foldl_doras)
  then show ?thesis
    unfolding parse_discard_tile_def
    by (subst fold_fields_items)
       (use assms in \<open>auto simp: enc_discard_tile_def discard_tile_step_def message_simps\<close>)
qed

lemma no_tile_player_enc:
  assumes "set hand \<subseteq> set wire_tiles"
    and "length (encode_items (enc_no_tile_player tenpai hand)) < 2 ^ 64"
  shows "no_tile_player (encode_items (enc_no_tile_player tenpai hand)) = Inr (tenpai, map mjai_of_wire hand)"
proof -
  let ?step = "\<lambda>(tenpai, hand) inner.
         if fld_is 3 0 inner then get_bool inner (\<lambda>b. Inr (b, hand))
         else if fld_is 4 2 inner then get_tile inner (\<lambda>t. Inr (tenpai, hand @ [t]))
         else Inr (tenpai, hand)"
  have "try_fold ?step (b, []) (map item_field (tile_items 4 hand)) = Inr (b, map mjai_of_wire hand)" for b
    by (subst try_fold_tiles [where add = "\<lambda>(b, hand) t. (b, hand @ [t])"])
       (auto simp: assms(1) message_simps foldl_hand)
  then show ?thesis
    unfolding no_tile_player_def
    by (subst fold_fields_items)
       (use assms in \<open>auto simp: enc_no_tile_player_def bool_item_def\<close>)
qed

lemma no_tile_payment_enc:
  assumes "length (encode_items (enc_no_tile_payment old delta)) < 2 ^ 64"
  shows "no_tile_payment (encode_items (enc_no_tile_payment old delta)) = Inr (old, delta)"
  unfolding no_tile_payment_def
  by (subst fold_fields_items)
     (use assms in \<open>auto simp: enc_no_tile_payment_def packed_item_def packed_scores\<close>)

text \<open>The shares of one seat over all the payments of a draw.\<close>

definition share :: "nat \<Rightarrow> i32 list \<Rightarrow> i32" where
  "share seat delta = (if seat < length delta then delta ! seat else 0)"

definition opening_scores :: "(i32 list \<times> i32 list) list \<Rightarrow> i32 list" where
  "opening_scores payments = (case filter (\<lambda>p. fst p \<noteq> []) payments of [] \<Rightarrow> [] | p # _ \<Rightarrow> fst p)"

lemma share_add_payment: "share i (add_payment a b) = share i a + share i b"
  by (auto simp: share_def add_payment_nth)

lemma share_foldl: "share i (foldl add_payment acc ds) = share i acc + (\<Sum>d\<leftarrow>ds. share i d)"
  by (induction ds arbitrary: acc) (simp_all add: share_add_payment)

lemma closing_scores_share: "i < length old \<Longrightarrow> closing_scores old delta ! i = old ! i + share i delta"
  by (simp add: closing_scores_nth share_def)

lemma encode_item_length: "length (encode_items its) \<le> length (encode_item (Bytes_Item n (encode_items its)))"
  by (simp add: encode_bytes_def)

lemma encode_item_member: "it \<in> set its \<Longrightarrow> length (encode_item it) \<le> length (encode_items its)"
  by (induction its) auto

lemma no_tile_players_fold:
  assumes "\<And>tenpai hand. (tenpai, hand) \<in> set players \<Longrightarrow> set hand \<subseteq> set wire_tiles \<and>
      length (encode_items (enc_no_tile_player tenpai hand)) < 2 ^ 64"
  shows "try_fold no_tile_step r (map item_field
       (map (\<lambda>(tenpai, hand). Bytes_Item 2 (encode_items (enc_no_tile_player tenpai hand))) players)) =
     Inr (r\<lparr>ns_tenpai := ns_tenpai r @ map fst players,
            ns_tenpai_hands := ns_tenpai_hands r @ map (map mjai_of_wire \<circ> snd) players\<rparr>)"
  using assms
proof (induction players arbitrary: r)
  case (Cons p players)
  obtain tenpai hand where p: "p = (tenpai, hand)" by fastforce
  have "no_tile_player (encode_items (enc_no_tile_player tenpai hand)) = Inr (tenpai, map mjai_of_wire hand)"
    using Cons.prems [of tenpai hand] p by (intro no_tile_player_enc) auto
  then have "no_tile_step r \<lparr>f_number = 2, f_wire_type = 2,
       f_data = encode_items (enc_no_tile_player tenpai hand)\<rparr> =
     Inr (r\<lparr>ns_tenpai := ns_tenpai r @ [tenpai], ns_tenpai_hands := ns_tenpai_hands r @ [map mjai_of_wire hand]\<rparr>)"
    by (simp add: no_tile_step_def)
  moreover note Cons.IH [OF Cons.prems]
  ultimately show ?case by (simp add: p)
qed simp

lemma no_tile_payments_fold:
  assumes "\<And>old delta. (old, delta) \<in> set payments \<Longrightarrow>
      length (encode_items (enc_no_tile_payment old delta)) < 2 ^ 64"
  shows "try_fold no_tile_step r (map item_field
       (map (\<lambda>(old, delta). Bytes_Item 3 (encode_items (enc_no_tile_payment old delta))) payments)) =
     Inr (r\<lparr>ns_old_scores := (if ns_old_scores r = [] then opening_scores payments else ns_old_scores r),
            ns_delta_scores := foldl add_payment (ns_delta_scores r) (map snd payments)\<rparr>)"
  using assms
proof (induction payments arbitrary: r)
  case (Cons p payments)
  obtain old delta where p: "p = (old, delta)" by fastforce
  have "no_tile_payment (encode_items (enc_no_tile_payment old delta)) = Inr (old, delta)"
    using Cons.prems [of old delta] p by (intro no_tile_payment_enc) auto
  then have "no_tile_step r \<lparr>f_number = 3, f_wire_type = 2,
       f_data = encode_items (enc_no_tile_payment old delta)\<rparr> =
     Inr (r\<lparr>ns_old_scores := (if ns_old_scores r = [] then old else ns_old_scores r),
            ns_delta_scores := add_payment (ns_delta_scores r) delta\<rparr>)"
    by (simp add: no_tile_step_def)
  moreover note Cons.IH [OF Cons.prems]
  ultimately show ?case by (simp add: p opening_scores_def)
qed (simp add: opening_scores_def)

lemma parse_no_tile_enc:
  assumes hands: "\<And>tenpai hand. (tenpai, hand) \<in> set players \<Longrightarrow> set hand \<subseteq> set wire_tiles"
    and len: "length (encode_items (enc_no_tile manguan players payments)) < 2 ^ 64"
  shows "parse_no_tile (encode_items (enc_no_tile manguan players payments)) =
     Inr \<lparr>nt_scores = closing_scores (opening_scores payments) (foldl add_payment [] (map snd payments)),
          nt_delta_scores = foldl add_payment [] (map snd payments), nt_tenpai = map fst players,
          nt_liujumanguan = manguan, nt_tenpai_hands = map (map mjai_of_wire \<circ> snd) players\<rparr>"
proof -
  have small: "length (encode_items its) < 2 ^ 64"
    if "Bytes_Item n (encode_items its) \<in> set (enc_no_tile manguan players payments)" for n its
    using encode_item_length [of its n] encode_item_member [OF that] len by linarith
  have players: "set hand \<subseteq> set wire_tiles \<and> length (encode_items (enc_no_tile_player tenpai hand)) < 2 ^ 64"
    if "(tenpai, hand) \<in> set players" for tenpai hand
    using hands [OF that] small [of 2 "enc_no_tile_player tenpai hand"] that
    by (force simp: enc_no_tile_def)
  have payments: "length (encode_items (enc_no_tile_payment old delta)) < 2 ^ 64"
    if "(old, delta) \<in> set payments" for old delta
    using small [of 3 "enc_no_tile_payment old delta"] that by (force simp: enc_no_tile_def)
  have wf: "\<forall>it \<in> set (enc_no_tile manguan players payments). item_wf it"
    by (auto simp: enc_no_tile_def bool_item_def)
  show ?thesis
    unfolding parse_no_tile_def fold_fields_items [OF wf len]
    unfolding enc_no_tile_def list.map map_append try_fold.simps try_fold_append
    by (simp add: no_tile_players_fold [OF players] no_tile_payments_fold [OF payments]
        no_tile_step_def bool_item_def del: map_map)
qed

section \<open>What the decoders promise\<close>

text \<open>A discard as the game encodes it, with every combination of flags and any number
  of face-up indicators, is decoded to the same discard in mjai notation.\<close>

theorem discard_message_decodes:
  assumes "tile \<in> set wire_tiles" and "set doras \<subseteq> set wire_tiles"
    and "length (encode_items (enc_discard_tile seat tile liqi moqie wliqi doras)) < 2 ^ 64"
  shows "parse_record_action ''.lq.RecordDiscardTile''
      (encode_items (enc_discard_tile seat tile liqi moqie wliqi doras)) =
     Inr (Some (DiscardTile \<lparr>di_seat = seat, di_tile = mjai_of_wire tile, di_is_liqi = liqi,
       di_moqie = moqie, di_is_wliqi = wliqi, di_doras = map mjai_of_wire doras\<rparr>))"
  using parse_discard_tile_enc [OF assms] by (simp add: parse_record_action_def)

text \<open>An exhaustive draw is settled seat by seat: the change written for a seat is the
  sum of its shares over every payment of the message, the closing score is the opening score
  plus that change, and each seat keeps its tenpai flag and its shown hand.\<close>

theorem no_tile_settles:
  assumes "\<And>tenpai hand. (tenpai, hand) \<in> set players \<Longrightarrow> set hand \<subseteq> set wire_tiles"
    and "length (encode_items (enc_no_tile manguan players payments)) < 2 ^ 64"
  shows "\<exists>nt. parse_no_tile (encode_items (enc_no_tile manguan players payments)) = Inr nt \<and>
     nt_tenpai nt = map fst players \<and> nt_tenpai_hands nt = map (map mjai_of_wire \<circ> snd) players \<and>
     (\<forall>i. share i (nt_delta_scores nt) = (\<Sum>p\<leftarrow>payments. share i (snd p))) \<and>
     length (nt_scores nt) = length (opening_scores payments) \<and>
     (\<forall>i < length (nt_scores nt). nt_scores nt ! i = opening_scores payments ! i + share i (nt_delta_scores nt))"
proof -
  have "share i (foldl add_payment [] (map snd payments)) = (\<Sum>p\<leftarrow>payments. share i (snd p))" for i
    by (simp add: share_foldl share_def [of i "[]"] comp_def)
  then show ?thesis
    by (simp add: parse_no_tile_enc [OF assms] closing_scores_share)
qed

lemma tile_in_wire_tiles: "''9p'' \<in> set wire_tiles"
  by (simp add: wire_tiles_def)

lemma sample_discard_length:
  "length (encode_items (enc_discard_tile 2 ''9p'' True False False [''9p''])) < 2 ^ 64"
  by (simp add: enc_discard_tile_def bool_item_def encode_varint_field_def encode_bytes_def encode_varint.simps)

theorem discard_message_decodes_witness:
  "parse_record_action ''.lq.RecordDiscardTile'' (encode_items (enc_discard_tile 2 ''9p'' True False False [''9p''])) =
     Inr (Some (DiscardTile \<lparr>di_seat = 2, di_tile = mjai_of_wire ''9p'', di_is_liqi = True,
       di_moqie = False, di_is_wliqi = False, di_doras = [mjai_of_wire ''9p'']\<rparr>))"
  using discard_message_decodes [OF tile_in_wire_tiles _ sample_discard_length] tile_in_wire_tiles by simp

theorem no_tile_settles_witness:
  "\<exists>nt. parse_no_tile (encode_items (enc_no_tile False [(True, [''9p''])]
      [([25000, 25000], [1000, - 1000]), ([], [500, - 500])])) = Inr nt \<and>
     nt_scores nt = [26500, 23500]"
proof -
  have "length (encode_items (enc_no_tile False [(True, [''9p''])]
      [([25000, 25000], [1000, - 1000]), ([], [500, - 500])])) < 2 ^ 64"
    by (simp add: enc_no_tile_def enc_no_tile_player_def enc_no_tile_payment_def packed_item_def
        bool_item_def encode_varint_field_def encode_bytes_def encode_varint.simps)
  then obtain nt where nt: "parse_no_tile (encode_items (enc_no_tile False [(True, [''9p''])]
      [([25000, 25000], [1000, - 1000]), ([], [500, - 500])])) = Inr nt"
    and delta: "share i (nt_delta_scores nt) = (\<Sum>p\<leftarrow>[([25000, 25000], [1000, - 1000]), ([], [500, - 500])]. share i (snd p))"
    and len: "length (nt_scores nt) = length (opening_scores [([25000, 25000], [1000, - 1000]), ([], [500, - 500])])"
    and score: "\<forall>j < length (nt_scores nt). nt_scores nt ! j =
       opening_scores [([25000, 25000], [1000, - 1000]), ([], [500, - 500])] ! j + share j (nt_delta_scores nt)"
    for i
    using no_tile_settles [of "[(True, [''9p''])]" False "[([25000, 25000], [1000, - 1000]), ([], [500, - 500])]"]
      tile_in_wire_tiles by force
  have "length (nt_scores nt) = 2" using len by (simp add: opening_scores_def)
  moreover have "nt_scores nt ! 0 = 26500" "nt_scores nt ! 1 = 23500"
    using score delta calculation by (simp_all add: opening_scores_def share_def)
  ultimately show ?thesis using nt by (auto simp: list_eq_iff_nth_eq less_2_cases_iff)
qed

section \<open>Forward compatibility\<close>

text \<open>
  The contract every decoder's step keeps: a field it does not know, by number and wire type,
  leaves the message alone. A message then decodes as if the unknown fields were not there.
\<close>

definition known_field :: "(u32 \<times> u8) list \<Rightarrow> field \<Rightarrow> bool" where
  "known_field known fld \<longleftrightarrow> (f_number fld, f_wire_type fld) \<in> set known"

locale message_decoder =
  fixes step :: "'s \<Rightarrow> field \<Rightarrow> 's result"
    and known :: "(u32 \<times> u8) list"
  assumes skips: "\<not> known_field known fld \<Longrightarrow> step s fld = Inr s"
begin

lemma fold_known: "try_fold step s flds = try_fold step s (filter (known_field known) flds)"
  by (induction flds arbitrary: s) (auto simp: skips cong: attempt_cong)

lemma message_known:
  assumes "\<forall>it \<in> set its. item_wf it" and "length (encode_items its) < 2 ^ 64"
  shows "fold_fields step s (encode_items its) =
    fold_fields step s (encode_items (filter (\<lambda>it. known_field known (item_field it)) its))"
proof -
  have "length (encode_items (filter P its)) \<le> length (encode_items its)" for P
    by (induction its) auto
  with assms(2) have "length (encode_items (filter (\<lambda>it. known_field known (item_field it)) its)) < 2 ^ 64"
    using order.strict_trans1 by blast
  then show ?thesis
    using assms fold_known [of s "map item_field its"]
    by (subst (1 2) fold_fields_items) (auto simp: filter_map comp_def)
qed

end

interpretation new_round: message_decoder new_round_step
  "[(1, 0), (2, 0), (3, 0), (5, 2), (5, 0), (6, 0), (7, 2), (8, 2), (9, 2), (10, 2), (16, 2)]"
  by unfold_locales (auto simp: new_round_step_def known_field_def)

interpretation deal_tile: message_decoder deal_tile_step "[(1, 0), (2, 2), (6, 2)]"
  by unfold_locales (auto simp: deal_tile_step_def known_field_def)

interpretation discard_tile: message_decoder discard_tile_step "[(1, 0), (2, 2), (3, 0), (5, 0), (8, 2), (9, 0)]"
  by unfold_locales (auto simp: discard_tile_step_def known_field_def)

interpretation chi_peng_gang: message_decoder chi_peng_gang_step "[(1, 0), (2, 0), (3, 2), (4, 2), (4, 0)]"
  by unfold_locales (auto simp: chi_peng_gang_step_def known_field_def)

interpretation an_gang_add_gang: message_decoder an_gang_add_gang_step "[(1, 0), (2, 0), (3, 2), (6, 2)]"
  by unfold_locales (auto simp: an_gang_add_gang_step_def known_field_def)

interpretation hule: message_decoder hule_step "[(1, 2), (3, 2), (3, 0), (5, 2), (5, 0), (7, 2)]"
  by unfold_locales (auto simp: hule_step_def known_field_def)

interpretation no_tile: message_decoder no_tile_step "[(1, 0), (2, 2), (3, 2)]"
  by unfold_locales (auto simp: no_tile_step_def known_field_def)

text \<open>A field the schema may add later is skipped: the deal, the hand's opening, the
  discard, the calls, the kans, the wins and the drawn hands decode exactly as if the unknown
  fields of the message were not there, wherever they stand.\<close>

theorem unknown_fields_skipped:
  assumes "\<forall>it \<in> set its. item_wf it" and "length (encode_items its) < 2 ^ 64"
  shows "parse_new_round (encode_items its) = parse_new_round (encode_items (filter (\<lambda>it. known_field
      [(1, 0), (2, 0), (3, 0), (5, 2), (5, 0), (6, 0), (7, 2), (8, 2), (9, 2), (10, 2), (16, 2)] (item_field it)) its)) \<and>
   parse_deal_tile (encode_items its) = parse_deal_tile (encode_items (filter (\<lambda>it. known_field
      [(1, 0), (2, 2), (6, 2)] (item_field it)) its)) \<and>
   parse_discard_tile (encode_items its) = parse_discard_tile (encode_items (filter (\<lambda>it. known_field
      [(1, 0), (2, 2), (3, 0), (5, 0), (8, 2), (9, 0)] (item_field it)) its)) \<and>
   parse_chi_peng_gang (encode_items its) = parse_chi_peng_gang (encode_items (filter (\<lambda>it. known_field
      [(1, 0), (2, 0), (3, 2), (4, 2), (4, 0)] (item_field it)) its)) \<and>
   parse_an_gang_add_gang (encode_items its) = parse_an_gang_add_gang (encode_items (filter (\<lambda>it. known_field
      [(1, 0), (2, 0), (3, 2), (6, 2)] (item_field it)) its)) \<and>
   parse_hule (encode_items its) = parse_hule (encode_items (filter (\<lambda>it. known_field
      [(1, 2), (3, 2), (3, 0), (5, 2), (5, 0), (7, 2)] (item_field it)) its)) \<and>
   parse_no_tile (encode_items its) = parse_no_tile (encode_items (filter (\<lambda>it. known_field
      [(1, 0), (2, 2), (3, 2)] (item_field it)) its))"
  unfolding parse_new_round_def parse_deal_tile_def parse_discard_tile_def parse_chi_peng_gang_def
    parse_an_gang_add_gang_def parse_hule_def parse_no_tile_def
  using new_round.message_known [OF assms] deal_tile.message_known [OF assms] discard_tile.message_known [OF assms]
    chi_peng_gang.message_known [OF assms] an_gang_add_gang.message_known [OF assms] hule.message_known [OF assms]
    no_tile.message_known [OF assms]
  by (intro conjI arg_cong [where f = "\<lambda>m. attempt m _"]) assumption+

theorem unknown_fields_skipped_witness:
  "parse_deal_tile (encode_items [Varint_Item 1 3, Varint_Item 99 7, Bytes_Item 40 [1, 2]]) =
     parse_deal_tile (encode_items [Varint_Item 1 3])"
proof -
  have wf: "\<forall>it \<in> set [Varint_Item 1 3, Varint_Item 99 7, Bytes_Item 40 [1, 2]]. item_wf it"
    by simp
  have "length (encode_items [Varint_Item 1 3, Varint_Item 99 7, Bytes_Item 40 [1, 2]]) < 2 ^ 64"
    by (simp add: encode_varint_field_def encode_bytes_def encode_varint.simps)
  from unknown_fields_skipped [OF wf this] show ?thesis by (simp add: known_field_def)
qed
end
