(* ===== verification/Modes.thy ===== *)
theory Modes
  imports Rust_Text
begin

text \<open>
  \<^verbatim>\<open>src/majsoul/modes.rs\<close>: the table of the twelve ranked modes, read in both directions,
  and the year in a game's identifier. The lemmas show that the two readings of the table
  are inverse to each other, so a mode selected for a room is labelled with that room.
\<close>

definition rooms_of :: "string \<Rightarrow> string list result" where
  "rooms_of room =
     (if room = ''all'' then Inr [''gold'', ''jade'', ''throne'']
      else if room = ''gold'' then Inr [''gold'']
      else if room = ''jade'' then Inr [''jade'']
      else if room = ''throne'' then Inr [''throne'']
      else Inl (Bail ''unsupported room''))"

definition east_south :: "u8 \<Rightarrow> string \<Rightarrow> (i32 \<times> i32) result" where
  "east_south players room =
     (if players = 4 \<and> room = ''gold'' then Inr (8, 9)
      else if players = 4 \<and> room = ''jade'' then Inr (11, 12)
      else if players = 4 \<and> room = ''throne'' then Inr (15, 16)
      else if players = 3 \<and> room = ''gold'' then Inr (21, 22)
      else if players = 3 \<and> room = ''jade'' then Inr (23, 24)
      else if players = 3 \<and> room = ''throne'' then Inr (25, 26)
      else Inl (Panicked ''validated room and player count''))"

definition pick_mode :: "i32 \<Rightarrow> i32 \<Rightarrow> string \<Rightarrow> i32" where
  "pick_mode east south mode = (if mode = ''east'' then east else south)"

definition room_modes :: "string \<Rightarrow> string list \<Rightarrow> u8 \<Rightarrow> i32 list result" where
  "room_modes room modes players =
     (if players \<noteq> 3 \<and> players \<noteq> 4 then Inl (Bail ''players must be 3 or 4'')
      else if modes = [] \<or> (\<exists>mode \<in> set modes. mode \<noteq> ''east'' \<and> mode \<noteq> ''south'')
      then Inl (Bail ''modes must contain east and/or south'')
      else attempt (rooms_of room) (\<lambda>rooms.
           attempt (try_map (\<lambda>room. attempt (east_south players room) (\<lambda>(east, south).
                      Inr (map (pick_mode east south) modes))) rooms)
           (\<lambda>result. Inr (remdups_adj (sort_key sint (concat result))))))"

definition mode_metadata :: "i32 \<Rightarrow> (string \<times> string \<times> u8) result" where
  "mode_metadata mode =
     (if mode = 8 then Inr (''gold'', ''east'', 4)
      else if mode = 9 then Inr (''gold'', ''south'', 4)
      else if mode = 11 then Inr (''jade'', ''east'', 4)
      else if mode = 12 then Inr (''jade'', ''south'', 4)
      else if mode = 15 then Inr (''throne'', ''east'', 4)
      else if mode = 16 then Inr (''throne'', ''south'', 4)
      else if mode = 21 then Inr (''gold'', ''east'', 3)
      else if mode = 22 then Inr (''gold'', ''south'', 3)
      else if mode = 23 then Inr (''jade'', ''east'', 3)
      else if mode = 24 then Inr (''jade'', ''south'', 3)
      else if mode = 25 then Inr (''throne'', ''east'', 3)
      else if mode = 26 then Inr (''throne'', ''south'', 3)
      else Inl (Bail ''unsupported ranked mode_id''))"

definition uuid_year :: "string \<Rightarrow> i32 result" where
  "uuid_year uuid =
     (case str_get_prefix uuid 6 of
        None \<Rightarrow> Inl (Bail ''full UUID has no YYMMDD prefix'')
      | Some date \<Rightarrow> (case str_get_prefix date 2 of
          None \<Rightarrow> Inl (Bail ''full UUID has invalid date prefix'')
        | Some yy \<Rightarrow> (case parse_i32 yy of
            None \<Rightarrow> Inl (Bail ''invalid year in full UUID'')
          | Some year \<Rightarrow> Inr (2000 + of_int year))))"

lemma east_south_metadata:
  "east_south players room = Inr (east, south) \<Longrightarrow>
     mode_metadata east = Inr (room, ''east'', players) \<and>
     mode_metadata south = Inr (room, ''south'', players)"
  by (auto simp: east_south_def mode_metadata_def split: if_splits)

lemma metadata_east_south:
  "mode_metadata mode = Inr (room, len, players) \<Longrightarrow>
     \<exists>east south. east_south players room = Inr (east, south) \<and>
       mode = pick_mode east south len"
  by (auto simp: east_south_def mode_metadata_def pick_mode_def split: if_splits)

lemma rooms_of_set:
  "rooms_of room = Inr rooms \<Longrightarrow>
     r \<in> set rooms \<longleftrightarrow> r \<in> {''gold'', ''jade'', ''throne''} \<and> (room = ''all'' \<or> room = r)"
  by (auto simp: rooms_of_def split: if_splits)

lemma try_map_Inr_set: "try_map f xs = Inr ys \<Longrightarrow> set ys = {y. \<exists>x \<in> set xs. f x = Inr y}"
  by (induction xs arbitrary: ys) (auto simp: result_simps)

lemma room_modes_ok:
  assumes "room_modes room modes players = Inr result"
  obtains rooms lists where "rooms_of room = Inr rooms"
    and "modes \<noteq> []" and "set modes \<subseteq> {''east'', ''south''}"
    and "try_map (\<lambda>room. attempt (east_south players room) (\<lambda>(east, south).
           Inr (map (pick_mode east south) modes))) rooms = Inr lists"
    and "result = remdups_adj (sort_key sint (concat lists))"
  using assms by (auto simp: room_modes_def result_simps split: if_splits)

lemma map_sint_remdups_adj: "map sint (remdups_adj xs) = remdups_adj (map sint (xs :: i32 list))"
  by (rule remdups_adj_map_injective [symmetric]) (auto simp: inj_def intro: signed_word_eqI)

lemma sorted_remdups_adj_strict:
  "sorted (xs :: int list) \<Longrightarrow> sorted_wrt (<) (remdups_adj xs)"
  by (induction xs rule: remdups_adj.induct) (auto simp: less_le)

lemma room_modes_member:
  assumes "room_modes room modes players = Inr result"
  shows "m \<in> set result \<longleftrightarrow>
    (\<exists>r len. mode_metadata m = Inr (r, len, players) \<and> len \<in> set modes \<and> (room = ''all'' \<or> room = r))"
proof -
  obtain rooms lists where rooms: "rooms_of room = Inr rooms"
    and modes: "modes \<noteq> []" "set modes \<subseteq> {''east'', ''south''}"
    and lists: "try_map (\<lambda>room. attempt (east_south players room) (\<lambda>(east, south).
         Inr (map (pick_mode east south) modes))) rooms = Inr lists"
    and result: "result = remdups_adj (sort_key sint (concat lists))"
    using assms by (rule room_modes_ok)
  have member: "xs \<in> set lists \<longleftrightarrow> (\<exists>r \<in> set rooms. \<exists>east south. east_south players r = Inr (east, south) \<and>
          xs = map (pick_mode east south) modes)" for xs
    unfolding try_map_Inr_set [OF lists] mem_Collect_eq attempt_Inr_iff by auto
  have "m \<in> set result \<longleftrightarrow> (\<exists>xs \<in> set lists. m \<in> set xs)" by (simp add: result)
  also have "\<dots> \<longleftrightarrow> (\<exists>r \<in> set rooms. \<exists>east south. east_south players r = Inr (east, south) \<and>
          (\<exists>len \<in> set modes. m = pick_mode east south len))"
    unfolding Bex_def member by (auto, blast, metis image_eqI list.set_map)
  also have "\<dots> \<longleftrightarrow> (\<exists>r \<in> set rooms. \<exists>len \<in> set modes. mode_metadata m = Inr (r, len, players))"
  proof (intro bex_cong refl iffI)
    fix r assume "\<exists>east south. east_south players r = Inr (east, south) \<and>
          (\<exists>len \<in> set modes. m = pick_mode east south len)"
    then obtain east south len where es: "east_south players r = Inr (east, south)"
      and len: "len \<in> set modes" "m = pick_mode east south len" by blast
    from len(1) modes(2) have "len = ''east'' \<or> len = ''south''" by auto
    with len(2) east_south_metadata [OF es] have "mode_metadata m = Inr (r, len, players)"
      by (auto simp: pick_mode_def)
    with len(1) show "\<exists>len \<in> set modes. mode_metadata m = Inr (r, len, players)" by blast
  next
    fix r assume "\<exists>len \<in> set modes. mode_metadata m = Inr (r, len, players)"
    then show "\<exists>east south. east_south players r = Inr (east, south) \<and>
          (\<exists>len \<in> set modes. m = pick_mode east south len)"
      using metadata_east_south by blast
  qed
  also have "\<dots> \<longleftrightarrow> (\<exists>r len. mode_metadata m = Inr (r, len, players) \<and> len \<in> set modes
          \<and> (room = ''all'' \<or> room = r))"
    using rooms_of_set [OF rooms] by (auto simp: mode_metadata_def split: if_splits)
  finally show ?thesis .
qed

lemma room_modes_strictly_sorted:
  assumes "room_modes room modes players = Inr result"
  shows "sorted_wrt (<) (map sint result)"
  using room_modes_ok [OF assms]
  by (metis map_sint_remdups_adj sorted_remdups_adj_strict sorted_sort_key)

text \<open>The \<^verbatim>\<open>unreachable!\<close> arm of the table is unreachable.\<close>

lemma room_modes_no_panic: "room_modes room modes players \<noteq> Inl (Panicked m)"
  by (auto simp: room_modes_def result_simps rooms_of_def east_south_def split: if_splits)

text \<open>
  The modes selected for a room, a set of lengths and a table size are exactly the ranked
  modes whose label carries that room (any room for \<^verbatim>\<open>all\<close>), one of the lengths and that
  table size, in increasing order without repetition.
\<close>

theorem room_modes_inverse:
  assumes "room_modes room modes players = Inr result"
  shows "sorted_wrt (<) (map sint result) \<and>
    (\<forall>m. m \<in> set result \<longleftrightarrow>
      (\<exists>r len. mode_metadata m = Inr (r, len, players) \<and> len \<in> set modes \<and> (room = ''all'' \<or> room = r)))"
  using room_modes_member [OF assms] room_modes_strictly_sorted [OF assms] by blast

theorem room_modes_inverse_witness:
  "room_modes ''jade'' [''south'', ''east''] 4 = Inr [11, 12] \<and> sorted_wrt (<) (map sint [11, 12 :: i32])"
proof -
  have "room_modes ''jade'' [''south'', ''east''] 4 = Inr [11, 12]"
    by (simp add: room_modes_def rooms_of_def east_south_def pick_mode_def)
  with room_modes_inverse show ?thesis by blast
qed

end
