(* ===== verification/Json.thy ===== *)
theory Json
  imports Rust_Text
begin

text \<open>
  The JSON values of an event stream. \<^verbatim>\<open>serde_json::Value\<close> is a public enumeration; this is
  its shape as the library documents it, with an integer number as its value and any other
  number as its text, and the accessors the sources call on it. Parsing and printing belong
  to the library and are parameters of the definitions that use them.
\<close>

datatype json =
    JNull
  | JBool bool
  | JNum int
  | JFloat string
  | JString string
  | JArray "json list"
  | JObject "(string \<times> json) list"

primrec is_object :: "json \<Rightarrow> bool" where
  "is_object JNull \<longleftrightarrow> False"
| "is_object (JBool b) \<longleftrightarrow> False"
| "is_object (JNum n) \<longleftrightarrow> False"
| "is_object (JFloat s) \<longleftrightarrow> False"
| "is_object (JString s) \<longleftrightarrow> False"
| "is_object (JArray xs) \<longleftrightarrow> False"
| "is_object (JObject kvs) \<longleftrightarrow> True"

definition json_get :: "string \<Rightarrow> json \<Rightarrow> json option" where
  "json_get k v = (case v of JObject kvs \<Rightarrow> map_of kvs k | _ \<Rightarrow> None)"

definition as_str :: "json \<Rightarrow> string option" where
  "as_str v = (case v of JString s \<Rightarrow> Some s | _ \<Rightarrow> None)"

definition as_array :: "json \<Rightarrow> json list option" where
  "as_array v = (case v of JArray xs \<Rightarrow> Some xs | _ \<Rightarrow> None)"

definition as_bool :: "json \<Rightarrow> bool option" where
  "as_bool v = (case v of JBool b \<Rightarrow> Some b | _ \<Rightarrow> None)"

definition as_u64 :: "json \<Rightarrow> nat option" where
  "as_u64 v = (case v of JNum n \<Rightarrow> if 0 \<le> n \<and> n < 2 ^ 64 then Some (nat n) else None | _ \<Rightarrow> None)"

definition as_i64 :: "json \<Rightarrow> int option" where
  "as_i64 v =
     (case v of JNum n \<Rightarrow> if - (2 ^ 63) \<le> n \<and> n < 2 ^ 63 then Some n else None | _ \<Rightarrow> None)"

text \<open>\<^verbatim>\<open>v[k] = x\<close> on an object: replaces the member or adds it.\<close>

fun put_member :: "string \<Rightarrow> json \<Rightarrow> (string \<times> json) list \<Rightarrow> (string \<times> json) list" where
  "put_member k x [] = [(k, x)]"
| "put_member k x ((k', y) # kvs) = (if k' = k then (k, x) # kvs else (k', y) # put_member k x kvs)"

definition json_put :: "string \<Rightarrow> json \<Rightarrow> json \<Rightarrow> json" where
  "json_put k x v = (case v of JObject kvs \<Rightarrow> JObject (put_member k x kvs) | _ \<Rightarrow> v)"

lemma map_of_put_member: "map_of (put_member k x kvs) = (map_of kvs)(k \<mapsto> x)"
  by (induction k x kvs rule: put_member.induct) auto

lemma json_get_JObject [simp]: "json_get k (JObject kvs) = map_of kvs k"
  by (simp add: json_get_def)

lemma json_get_put:
  "is_object v \<Longrightarrow> json_get k (json_put k' x v) = (if k = k' then Some x else json_get k v)"
  by (cases v) (auto simp: json_put_def map_of_put_member)

lemma is_object_put [simp]: "is_object (json_put k x v) = is_object v"
  by (cases v) (simp_all add: json_put_def)

lemma accessors [simp]:
  "as_str (JString s) = Some s" "as_array (JArray xs) = Some xs" "as_bool (JBool b) = Some b"
  by (simp_all add: as_str_def as_array_def as_bool_def)

text \<open>The conversions \<^verbatim>\<open>json!\<close> applies to the fields of a struct.\<close>

abbreviation j_u32 :: "u32 \<Rightarrow> json" where "j_u32 w \<equiv> JNum (uint w)"
abbreviation j_u64 :: "u64 \<Rightarrow> json" where "j_u64 w \<equiv> JNum (uint w)"
abbreviation j_u8 :: "u8 \<Rightarrow> json" where "j_u8 w \<equiv> JNum (uint w)"
abbreviation j_i32 :: "i32 \<Rightarrow> json" where "j_i32 w \<equiv> JNum (sint w)"
abbreviation j_strings :: "string list \<Rightarrow> json" where "j_strings ss \<equiv> JArray (map JString ss)"
abbreviation j_i32s :: "i32 list \<Rightarrow> json" where "j_i32s ws \<equiv> JArray (map j_i32 ws)"

text \<open>\<^verbatim>\<open>event.get("type").and_then(Value::as_str)\<close>\<close>

definition kind :: "json \<Rightarrow> string option" where
  "kind event = Option.bind (json_get ''type'' event) as_str"

lemma kind_put: "is_object e \<Longrightarrow> k \<noteq> ''type'' \<Longrightarrow> kind (json_put k x e) = kind e"
  by (simp add: kind_def json_get_put)

end
