(* ===== verification/Convert.thy ===== *)
theory Convert
  imports Game_Record Events Modes Json
begin

text \<open>
  \<^verbatim>\<open>src/majsoul/convert.rs\<close>: the conversion of a decoded game record to mjai events. The
  local variables of \<^verbatim>\<open>events_to_mjai\<close> are the record \<open>conv_state\<close>, each arm of its
  \<^verbatim>\<open>match\<close> is one handler, and \<open>stamp\<close> is the clock written after every arm.
\<close>

section \<open>Ranks and metadata\<close>

definition dan_name :: "string \<Rightarrow> string \<Rightarrow> string" where
  "dan_name title star = title @ [CHR 0xE2, CHR 0x98, CHR 0x85] @ star"

definition dan_chuxin :: string where
  "dan_chuxin = [CHR 0xE5, CHR 0x88, CHR 0x9D, CHR 0xE5, CHR 0xBF, CHR 0x83]"
definition dan_queshi :: string where
  "dan_queshi = [CHR 0xE9, CHR 0x9B, CHR 0x80, CHR 0xE5, CHR 0xA3, CHR 0xAB]"
definition dan_quejie :: string where
  "dan_quejie = [CHR 0xE9, CHR 0x9B, CHR 0x80, CHR 0xE5, CHR 0x82, CHR 0x91]"
definition dan_quehao :: string where
  "dan_quehao = [CHR 0xE9, CHR 0x9B, CHR 0x80, CHR 0xE8, CHR 0xB1, CHR 0xAA]"
definition dan_quesheng :: string where
  "dan_quesheng = [CHR 0xE9, CHR 0x9B, CHR 0x80, CHR 0xE8, CHR 0x81, CHR 0x96]"
definition dan_huntian :: string where
  "dan_huntian = [CHR 0xE9, CHR 0xAD, CHR 0x82, CHR 0xE5, CHR 0xA4, CHR 0xA9]"

definition dan_table :: "(nat \<times> string) list" where
  "dan_table =
     [(10101, dan_name dan_chuxin ''1''), (10102, dan_name dan_chuxin ''2''), (10103, dan_name dan_chuxin ''3''),
      (10201, dan_name dan_queshi ''1''), (10202, dan_name dan_queshi ''2''), (10203, dan_name dan_queshi ''3''),
      (10301, dan_name dan_quejie ''1''), (10302, dan_name dan_quejie ''2''), (10303, dan_name dan_quejie ''3''),
      (10401, dan_name dan_quehao ''1''), (10402, dan_name dan_quehao ''2''), (10403, dan_name dan_quehao ''3''),
      (10501, dan_name dan_quesheng ''1''), (10502, dan_name dan_quesheng ''2''), (10503, dan_name dan_quesheng ''3''),
      (10601, dan_huntian), (20601, dan_huntian),
      (20101, dan_name dan_chuxin ''1''), (20102, dan_name dan_chuxin ''2''), (20103, dan_name dan_chuxin ''3''),
      (20201, dan_name dan_queshi ''1''), (20202, dan_name dan_queshi ''2''), (20203, dan_name dan_queshi ''3''),
      (20301, dan_name dan_quejie ''1''), (20302, dan_name dan_quejie ''2''), (20303, dan_name dan_quejie ''3''),
      (20401, dan_name dan_quehao ''1''), (20402, dan_name dan_quehao ''2''), (20403, dan_name dan_quehao ''3''),
      (20501, dan_name dan_quesheng ''1''), (20502, dan_name dan_quesheng ''2''), (20503, dan_name dan_quesheng ''3'')]"

definition get_dan_name :: "u32 \<Rightarrow> string" where
  "get_dan_name level_id =
     (let n = unat level_id
      in case map_of dan_table n of
           Some name \<Rightarrow> name
         | None \<Rightarrow>
             if 10602 \<le> n \<and> n \<le> 10620 then dan_huntian @ ''Lv'' @ show_nat (n - 10600)
             else if 10701 \<le> n \<and> n \<le> 10720 then dan_huntian @ ''Lv'' @ show_nat (n - 10700)
             else if 20602 \<le> n \<and> n \<le> 20620 then dan_huntian @ ''Lv'' @ show_nat (n - 20600)
             else if 20701 \<le> n \<and> n \<le> 20720 then dan_huntian @ ''Lv'' @ show_nat (n - 20700)
             else ''Rank '' @ show_nat n)"

record game_metadata =
  gm_mode_id :: i32
  gm_room :: string
  gm_game_length :: string
  gm_players :: u8
  gm_year :: i32

definition metadata_of :: "game_record \<Rightarrow> game_metadata option" where
  "metadata_of record =
     (case mode_metadata (gr_mode_id record) of
        Inl _ \<Rightarrow> None
      | Inr (room, game_length, players) \<Rightarrow>
          (case uuid_year (gr_uuid record) of
             Inl _ \<Rightarrow> None
           | Inr year \<Rightarrow> Some \<lparr>gm_mode_id = gr_mode_id record, gm_room = room,
               gm_game_length = game_length, gm_players = players, gm_year = year\<rparr>))"

section \<open>The opening event\<close>

definition level_of :: "bool \<Rightarrow> player_account \<Rightarrow> u32 \<times> i32" where
  "level_of three_player account =
     (if three_player then (pa_level3_id account, pa_level3_score account)
      else (pa_level_id account, pa_level_score account))"

definition majsoul_header :: "game_record \<Rightarrow> game_metadata option \<Rightarrow> json" where
  "majsoul_header record metadata =
     (let three_player = length (gr_player_names record) = 3;
          accounts = gr_player_accounts record;
          levels = map (level_of three_player) accounts
      in JObject
          ([(''uuid'', JString (gr_uuid record)),
            (''start_time'', j_u32 (gr_start_time record)),
            (''end_time'', j_u32 (gr_end_time record)),
            (''account_ids'', JArray (map (\<lambda>a. j_u64 (pa_account_id a)) accounts)),
            (''level_ids'', JArray (map (\<lambda>l. j_u32 (fst l)) levels)),
            (''ranks'', j_strings (map (\<lambda>l. get_dan_name (fst l)) levels)),
            (''level_scores'', j_i32s (map snd levels))] @
           (case metadata of
              None \<Rightarrow> []
            | Some m \<Rightarrow>
                [(''mode_id'', j_i32 (gm_mode_id m)), (''room'', JString (gm_room m)),
                 (''game_length'', JString (gm_game_length m)),
                 (''players'', j_u8 (gm_players m)), (''year'', j_i32 (gm_year m))])))"

definition start_game_event :: "game_record \<Rightarrow> game_metadata option \<Rightarrow> json" where
  "start_game_event record metadata =
     JObject [(''type'', JString ''start_game''), (''names'', j_strings (gr_player_names record)),
              (''majsoul'', majsoul_header record metadata)]"

section \<open>One handler per game event\<close>

record conv_state =
  cs_events :: "json list"
  cs_pending_reach :: "u32 option"
  cs_last_discarder :: "u32 option"
  cs_kan_pending_chankan :: "u32 option"
  cs_revealed_doras :: "string list"
  cs_previous_ms :: u32

definition push :: "json \<Rightarrow> conv_state \<Rightarrow> conv_state" where
  "push e st = st\<lparr>cs_events := cs_events st @ [e]\<rparr>"

definition dora_event :: "string \<Rightarrow> json" where
  "dora_event marker = JObject [(''type'', JString ''dora''), (''dora_marker'', JString marker)]"

definition reach_accepted_event :: "u32 \<Rightarrow> json" where
  "reach_accepted_event actor = JObject [(''type'', JString ''reach_accepted''), (''actor'', j_u32 actor)]"

definition end_kyoku_event :: json where
  "end_kyoku_event = JObject [(''type'', JString ''end_kyoku'')]"

text \<open>\<^verbatim>\<open>if let Some(actor) = pending_reach.take() { push reach_accepted }\<close>\<close>

definition take_pending_reach :: "conv_state \<Rightarrow> conv_state" where
  "take_pending_reach st =
     (case cs_pending_reach st of
        None \<Rightarrow> st
      | Some actor \<Rightarrow> push (reach_accepted_event actor) (st\<lparr>cs_pending_reach := None\<rparr>))"

definition push_new_doras :: "string list \<Rightarrow> conv_state \<Rightarrow> conv_state" where
  "push_new_doras face_up st =
     (let revealed = cs_revealed_doras st;
          st' = st\<lparr>cs_events := cs_events st @ map dora_event (drop (length revealed) face_up)\<rparr>
      in if length revealed < length face_up then st'\<lparr>cs_revealed_doras := face_up\<rparr> else st')"

definition called_from :: "u32 list \<Rightarrow> u32 \<Rightarrow> u32 option \<Rightarrow> u32" where
  "called_from froms seat last_discarder =
     (case last_opt froms of
        Some s \<Rightarrow> s
      | None \<Rightarrow> (case last_discarder of Some s \<Rightarrow> s | None \<Rightarrow> seat))"

definition bakaze_of :: "u32 \<Rightarrow> string" where
  "bakaze_of chang = (if chang = 0 then ''E'' else if chang = 1 then ''S'' else if chang = 2 then ''W'' else ''N'')"

definition start_kyoku_event :: "nat \<Rightarrow> new_round \<Rightarrow> json" where
  "start_kyoku_event num_players nr =
     JObject [(''type'', JString ''start_kyoku''), (''bakaze'', JString (bakaze_of (nr_chang nr))),
       (''dora_marker'', JString (nr_dora_marker nr)), (''kyoku'', j_u32 (nr_ju nr + 1)),
       (''honba'', j_u32 (nr_ben nr)), (''kyotaku'', j_u32 (nr_liqibang nr)), (''oya'', j_u32 (nr_ju nr)),
       (''scores'', j_i32s (nr_scores nr)),
       (''tehais'', JArray (map j_strings (take num_players (nr_tiles nr))))]"

definition on_new_round :: "nat \<Rightarrow> new_round \<Rightarrow> conv_state \<Rightarrow> conv_state" where
  "on_new_round num_players nr st =
     (let st = push (start_kyoku_event num_players nr) (st\<lparr>cs_pending_reach := None\<rparr>)
      in st\<lparr>cs_revealed_doras := nr_doras nr,
            cs_events := cs_events st @ map dora_event (drop 1 (nr_doras nr))\<rparr>)"

definition tsumo_event :: "deal_tile \<Rightarrow> json" where
  "tsumo_event dt =
     JObject [(''type'', JString ''tsumo''), (''actor'', j_u32 (dl_seat dt)), (''pai'', JString (dl_tile dt))]"

definition on_deal_tile :: "deal_tile \<Rightarrow> conv_state \<Rightarrow> conv_state" where
  "on_deal_tile dt st = push_new_doras (dl_doras dt) (push (tsumo_event dt) (take_pending_reach st))"

definition reach_event :: "u32 \<Rightarrow> json" where
  "reach_event actor = JObject [(''type'', JString ''reach''), (''actor'', j_u32 actor)]"

definition dahai_event :: "discard_tile \<Rightarrow> json" where
  "dahai_event dt =
     JObject [(''type'', JString ''dahai''), (''actor'', j_u32 (di_seat dt)),
       (''pai'', JString (di_tile dt)), (''tsumogiri'', JBool (di_moqie dt))]"

definition on_discard_tile :: "discard_tile \<Rightarrow> conv_state \<Rightarrow> conv_state" where
  "on_discard_tile dt st =
     (let st = st\<lparr>cs_last_discarder := Some (di_seat dt), cs_kan_pending_chankan := None\<rparr>;
          st = (if di_is_liqi dt \<or> di_is_wliqi dt
                then (push (reach_event (di_seat dt)) st)\<lparr>cs_pending_reach := Some (di_seat dt)\<rparr> else st)
      in push_new_doras (di_doras dt) (push (dahai_event dt) st))"

definition call_name :: "chi_peng_gang_type \<Rightarrow> string" where
  "call_name t = (case t of Chi \<Rightarrow> ''chi'' | Pon \<Rightarrow> ''pon'' | Daiminkan \<Rightarrow> ''daiminkan'')"

definition call_event :: "chi_peng_gang \<Rightarrow> u32 \<Rightarrow> json" where
  "call_event cpg target =
     JObject [(''type'', JString (call_name (cp_call_type cpg))), (''actor'', j_u32 (cp_seat cpg)),
       (''target'', j_u32 target),
       (''pai'', JString (case last_opt (cp_tiles cpg) of Some t \<Rightarrow> t | None \<Rightarrow> [])),
       (''consumed'', j_strings (take (length (cp_tiles cpg) - 1) (cp_tiles cpg)))]"

definition on_chi_peng_gang :: "chi_peng_gang \<Rightarrow> conv_state \<Rightarrow> conv_state" where
  "on_chi_peng_gang cpg st =
     (let st = take_pending_reach st
      in push (call_event cpg (called_from (cp_froms cpg) (cp_seat cpg) (cs_last_discarder st))) st)"

definition generate_ankan_tiles :: "string \<Rightarrow> string list result" where
  "generate_ankan_tiles tile =
     (let plain = replicate 4 tile
      in if length tile < 2 then Inr plain
         else case str_chars tile of
                num # suit # _ \<Rightarrow>
                  if num = ''5'' \<and> (suit = ''m'' \<or> suit = ''p'' \<or> suit = ''s'')
                  then Inr (let regular = ''5'' @ suit; red = ''5'' @ suit @ ''r''
                            in [red, regular, regular, regular])
                  else Inr plain
              | _ \<Rightarrow> Inl (Panicked ''index out of bounds''))"

definition on_an_gang_add_gang :: "an_gang_add_gang \<Rightarrow> conv_state \<Rightarrow> conv_state result" where
  "on_an_gang_add_gang ag st =
     (let st = st\<lparr>cs_kan_pending_chankan :=
            (case ag_gang_type ag of Kakan \<Rightarrow> Some (ag_seat ag) | Ankan \<Rightarrow> None)\<rparr>
      in attempt
          (case ag_gang_type ag of
             Ankan \<Rightarrow> attempt (generate_ankan_tiles (ag_tiles ag)) (\<lambda>consumed.
               Inr (JObject [(''type'', JString ''ankan''), (''actor'', j_u32 (ag_seat ag)),
                 (''consumed'', j_strings consumed)]))
           | Kakan \<Rightarrow> Inr (JObject [(''type'', JString ''kakan''), (''actor'', j_u32 (ag_seat ag)),
                 (''pai'', JString (ag_tiles ag))]))
          (\<lambda>e. Inr (push_new_doras (ag_doras ag) (push e st))))"

subsection \<open>Wins\<close>

definition hora_target :: "hule_info \<Rightarrow> u32 option \<Rightarrow> u32 option \<Rightarrow> u32" where
  "hora_target h kan_pending_chankan last_discarder =
     (if hi_zimo h then hi_seat h
      else case kan_pending_chankan of
             Some seat \<Rightarrow> if seat \<noteq> hi_seat h then seat
               else (case last_discarder of Some s \<Rightarrow> s | None \<Rightarrow> 0)
           | None \<Rightarrow> (case last_discarder of Some s \<Rightarrow> s | None \<Rightarrow> 0))"

definition hora_event :: "hule \<Rightarrow> u32 option \<Rightarrow> u32 option \<Rightarrow> hule_info \<Rightarrow> json" where
  "hora_event h kan_pending_chankan last_discarder hi =
     JObject [(''type'', JString ''hora''), (''actor'', j_u32 (hi_seat hi)),
       (''target'', j_u32 (hora_target hi kan_pending_chankan last_discarder)),
       (''pai'', JString (hi_hu_tile hi)),
       (''hora_tehais'', j_strings (hi_hand hi)),
       (''hora_furos'', JArray (map (\<lambda>m. JObject [(''type'', JString (me_kind m)),
           (''consumed'', j_strings (me_tiles m))]) (hi_melds hi))),
       (''fu'', j_u32 (hi_fu hi)), (''fan'', j_u32 (hi_han hi)), (''yakuman'', JBool (hi_yiman hi)),
       (''riichi'', JBool (hi_riichi hi)),
       (''dora_markers'', j_strings (if hi_doras hi = [] then hu_doras h else hi_doras hi)),
       (''uradora_markers'', j_strings (hi_ura_doras hi)),
       (''yakus'', JArray (map (\<lambda>y. JArray [JString (fi_name y), j_u32 (fi_val y)]) (hi_yakus hi))),
       (''yaku_ids'', JArray (map (\<lambda>y. j_u32 (fi_id y)) (hi_yakus hi))),
       (''deltas'', j_i32s (hu_delta_scores h)), (''scores'', j_i32s (hu_scores h)),
       (''majsoul_points'', JObject [(''ron'', j_i32 (hi_point_rong hi)),
           (''tsumo_dealer'', j_i32 (hi_point_zimo_qin hi)),
           (''tsumo_non_dealer'', j_i32 (hi_point_zimo_xian hi))])]"

definition on_hule :: "hule \<Rightarrow> conv_state \<Rightarrow> conv_state" where
  "on_hule h st =
     (let st = st\<lparr>cs_pending_reach := None\<rparr>;
          wins = map (hora_event h (cs_kan_pending_chankan st) (cs_last_discarder st)) (hu_hules h)
      in push end_kyoku_event (st\<lparr>cs_events := cs_events st @ wins\<rparr>))"

subsection \<open>Draws\<close>

definition no_tile_event :: "no_tile \<Rightarrow> json" where
  "no_tile_event nt =
     JObject [(''type'', JString ''ryukyoku''), (''reason'', JString ''fanpai''),
       (''tenpais'', JArray (map JBool (nt_tenpai nt))), (''liujumanguan'', JBool (nt_liujumanguan nt)),
       (''tenpai_hands'', JArray (map j_strings (nt_tenpai_hands nt))),
       (''scores'', j_i32s (nt_scores nt)), (''deltas'', j_i32s (nt_delta_scores nt))]"

definition on_no_tile :: "no_tile \<Rightarrow> conv_state \<Rightarrow> conv_state" where
  "on_no_tile nt st = push end_kyoku_event (push (no_tile_event nt) (take_pending_reach st))"

definition liu_ju_reason :: "u32 \<Rightarrow> string" where
  "liu_ju_reason t =
     (if t = 1 then ''yao9'' else if t = 2 then ''kaze4'' else if t = 3 then ''kan4''
      else if t = 4 then ''reach4'' else if t = 5 then ''ron3'' else ''unknown'')"

definition liu_ju_event :: "liu_ju \<Rightarrow> json" where
  "liu_ju_event lj =
     JObject [(''type'', JString ''ryukyoku''), (''reason'', JString (liu_ju_reason (lj_type lj))),
       (''actor'', case lj_seat lj of Some s \<Rightarrow> j_u32 s | None \<Rightarrow> JNull),
       (''tehai'', j_strings (lj_tiles lj))]"

definition on_liu_ju :: "liu_ju \<Rightarrow> conv_state \<Rightarrow> conv_state" where
  "on_liu_ju lj st = push end_kyoku_event (push (liu_ju_event lj) (take_pending_reach st))"

definition nukidora_event :: "ba_bei \<Rightarrow> json" where
  "nukidora_event bb =
     JObject [(''type'', JString ''nukidora''), (''actor'', j_u32 (bb_seat bb)), (''pai'', JString ''N''),
       (''tsumogiri'', JBool (bb_moqie bb))]"

definition on_babei :: "ba_bei \<Rightarrow> conv_state \<Rightarrow> conv_state" where
  "on_babei bb st = push_new_doras (bb_doras bb) (push (nukidora_event bb) st)"

section \<open>The loop\<close>

definition handle_event :: "nat \<Rightarrow> game_event \<Rightarrow> conv_state \<Rightarrow> conv_state result" where
  "handle_event num_players event st =
     (case event of
        NewRound nr \<Rightarrow> Inr (on_new_round num_players nr st)
      | DealTile dt \<Rightarrow> Inr (on_deal_tile dt st)
      | DiscardTile dt \<Rightarrow> Inr (on_discard_tile dt st)
      | ChiPengGang cpg \<Rightarrow> Inr (on_chi_peng_gang cpg st)
      | AnGangAddGang ag \<Rightarrow> on_an_gang_add_gang ag st
      | Hule h \<Rightarrow> Inr (on_hule h st)
      | NoTile nt \<Rightarrow> Inr (on_no_tile nt st)
      | LiuJu lj \<Rightarrow> Inr (on_liu_ju lj st)
      | BaBei bb \<Rightarrow> Inr (on_babei bb st))"

text \<open>The first event of the record carries the gap, the others of the same instant carry zero.\<close>

fun stamp_events :: "u32 \<Rightarrow> json list \<Rightarrow> json list" where
  "stamp_events gap [] = []"
| "stamp_events gap (e # es) =
     json_put ''dt_ms'' (j_u32 gap) e # map (json_put ''dt_ms'' (j_u32 0)) es"

definition stamp :: "u32 option \<Rightarrow> nat \<Rightarrow> conv_state \<Rightarrow> conv_state" where
  "stamp passed_ms stamp_from st =
     (case passed_ms of
        None \<Rightarrow> st
      | Some passed \<Rightarrow>
          st\<lparr>cs_previous_ms := passed,
             cs_events := take stamp_from (cs_events st) @
               stamp_events (saturating_sub passed (cs_previous_ms st)) (drop stamp_from (cs_events st))\<rparr>)"

definition conv_step :: "nat \<Rightarrow> conv_state \<Rightarrow> u32 option \<times> game_event \<Rightarrow> conv_state result" where
  "conv_step num_players st pe =
     attempt (handle_event num_players (snd pe) st) (\<lambda>st'. Inr (stamp (fst pe) (length (cs_events st)) st'))"

definition end_game_event :: "game_record \<Rightarrow> json" where
  "end_game_event record =
     JObject [(''type'', JString ''end_game''),
       (''scores'', j_i32s (map pr_part_point_1 (gr_result record))),
       (''majsoul_result'', JArray (map (\<lambda>p. JObject [(''seat'', j_u32 (pr_seat p)),
          (''total_point'', j_i32 (pr_total_point p)), (''part_point_1'', j_i32 (pr_part_point_1 p)),
          (''part_point_2'', j_i32 (pr_part_point_2 p)), (''grading_score'', j_i32 (pr_grading_score p))])
          (gr_result record)))]"

definition conv_init :: "game_record \<Rightarrow> game_metadata option \<Rightarrow> conv_state" where
  "conv_init record metadata =
     \<lparr>cs_events = [start_game_event record metadata], cs_pending_reach = None, cs_last_discarder = None,
      cs_kan_pending_chankan = None, cs_revealed_doras = [], cs_previous_ms = 0\<rparr>"

definition events_to_mjai ::
  "game_record \<Rightarrow> (u32 option \<times> game_event) list \<Rightarrow> game_metadata option \<Rightarrow> json list result" where
  "events_to_mjai record events metadata =
     attempt (try_fold (conv_step (length (gr_player_names record))) (conv_init record metadata) events)
       (\<lambda>st. Inr (cs_events st @ [end_game_event record]))"

section \<open>The whole conversion\<close>

text \<open>
  \<^verbatim>\<open>convert_record_bytes\<close>. The JSON printer and the gzip encoder are library code and
  parameters of the definition.
\<close>

definition parse_actions :: "record_action list \<Rightarrow> (u32 option \<times> game_event) list result" where
  "parse_actions actions =
     try_fold (\<lambda>events action.
        attempt (parse_record_action (ra_name action) (ra_data action)) (\<lambda>event.
          Inr (case event of Some e \<Rightarrow> events @ [(ra_passed_ms action, e)] | None \<Rightarrow> events))) [] actions"

definition ndjson_bytes :: "(json \<Rightarrow> string) \<Rightarrow> json list \<Rightarrow> u8 list" where
  "ndjson_bytes to_string events = as_bytes (concat (map (\<lambda>e. to_string e @ [CHR 0x0A]) events))"

definition convert_record_bytes ::
  "(json \<Rightarrow> string) \<Rightarrow> (u8 list \<Rightarrow> u8 list) \<Rightarrow> u8 list \<Rightarrow> game_metadata option \<Rightarrow> (string \<times> u8 list) result" where
  "convert_record_bytes to_string gzip raw_data metadata =
     (if length raw_data < 20 then Inl (Bail ''record too small'')
      else attempt (decode_game_record raw_data) (\<lambda>record.
        if gr_records record = [] then Inl (Bail ''no game records in decoded record'')
        else attempt (parse_actions (gr_records record)) (\<lambda>events.
          let header = (case metadata of Some m \<Rightarrow> Some m | None \<Rightarrow> metadata_of record)
          in attempt (events_to_mjai record events header) (\<lambda>mjai_events.
               Inr (gr_uuid record, gzip (ndjson_bytes to_string mjai_events))))))"

end
