(* ===== verification/Convert_Correct.thy ===== *)
theory Convert_Correct
  imports Convert "HOL-Library.Sublist"
begin

text \<open>
  What the converter's output means: the shape of the stream, the clock, the riichi
  confirmations, the dora announcements and who is charged with a win. Every fact is
  proved for one step and lifted to the whole game by induction on the event list.
\<close>

lemmas event_defs =
  dora_event_def reach_accepted_event_def end_kyoku_event_def start_kyoku_event_def tsumo_event_def
  reach_event_def dahai_event_def call_event_def hora_event_def no_tile_event_def liu_ju_event_def
  nukidora_event_def

lemmas handler_defs =
  on_new_round_def on_deal_tile_def on_discard_tile_def on_chi_peng_gang_def on_an_gang_add_gang_def
  on_hule_def on_no_tile_def on_liu_ju_def on_babei_def push_def take_pending_reach_def push_new_doras_def

section \<open>What one game event emits\<close>

definition accepted_now :: "conv_state \<Rightarrow> json list" where
  "accepted_now st = (case cs_pending_reach st of Some a \<Rightarrow> [reach_accepted_event a] | None \<Rightarrow> [])"

definition new_doras :: "conv_state \<Rightarrow> string list \<Rightarrow> json list" where
  "new_doras st face_up = map dora_event (drop (length (cs_revealed_doras st)) face_up)"

definition kan_event :: "an_gang_add_gang \<Rightarrow> string list \<Rightarrow> json" where
  "kan_event ag consumed =
     (case ag_gang_type ag of
        Ankan \<Rightarrow> JObject [(''type'', JString ''ankan''), (''actor'', j_u32 (ag_seat ag)), (''consumed'', j_strings consumed)]
      | Kakan \<Rightarrow> JObject [(''type'', JString ''kakan''), (''actor'', j_u32 (ag_seat ag)), (''pai'', JString (ag_tiles ag))])"

definition ankan_tiles :: "string \<Rightarrow> string list" where
  "ankan_tiles tile = (case generate_ankan_tiles tile of Inr ts \<Rightarrow> ts | Inl _ \<Rightarrow> [])"

definition emitted :: "nat \<Rightarrow> conv_state \<Rightarrow> game_event \<Rightarrow> json list" where
  "emitted num_players st event =
     (case event of
        NewRound nr \<Rightarrow> start_kyoku_event num_players nr # map dora_event (drop 1 (nr_doras nr))
      | DealTile dt \<Rightarrow> accepted_now st @ tsumo_event dt # new_doras st (dl_doras dt)
      | DiscardTile dt \<Rightarrow> (if di_is_liqi dt \<or> di_is_wliqi dt then [reach_event (di_seat dt)] else []) @
          dahai_event dt # new_doras st (di_doras dt)
      | ChiPengGang cpg \<Rightarrow> accepted_now st @
          [call_event cpg (called_from (cp_froms cpg) (cp_seat cpg) (cs_last_discarder st))]
      | AnGangAddGang ag \<Rightarrow> kan_event ag (ankan_tiles (ag_tiles ag)) # new_doras st (ag_doras ag)
      | Hule h \<Rightarrow> map (hora_event h (cs_kan_pending_chankan st) (cs_last_discarder st)) (hu_hules h) @ [end_kyoku_event]
      | NoTile nt \<Rightarrow> accepted_now st @ [no_tile_event nt, end_kyoku_event]
      | LiuJu lj \<Rightarrow> accepted_now st @ [liu_ju_event lj, end_kyoku_event]
      | BaBei bb \<Rightarrow> nukidora_event bb # new_doras st (bb_doras bb))"

lemma handle_event_events:
  "handle_event n event st = Inr st' \<Longrightarrow> cs_events st' = cs_events st @ emitted n st event"
  by (cases event)
     (auto simp: handle_event_def handler_defs emitted_def accepted_now_def new_doras_def kan_event_def
        ankan_tiles_def Let_def result_simps
        split: if_splits option.splits an_gang_add_gang_type.splits)

lemma handle_event_ms: "handle_event n event st = Inr st' \<Longrightarrow> cs_previous_ms st' = cs_previous_ms st"
  by (cases event)
     (auto simp: handle_event_def handler_defs Let_def result_simps
        split: if_splits option.splits an_gang_add_gang_type.splits)

lemma emitted_nonempty: "emitted n st event \<noteq> []"
  by (cases event) (auto simp: emitted_def)

lemma emitted_objects: "e \<in> set (emitted n st event) \<Longrightarrow> is_object e \<and> json_get ''dt_ms'' e = None"
  by (cases event)
     (auto simp: emitted_def accepted_now_def new_doras_def kan_event_def event_defs
        split: option.splits an_gang_add_gang_type.splits if_splits)

text \<open>The stamped form of what a step adds to the stream.\<close>

definition stamped :: "u32 option \<Rightarrow> u32 \<Rightarrow> json list \<Rightarrow> json list" where
  "stamped passed previous es =
     (case passed of None \<Rightarrow> es | Some p \<Rightarrow> stamp_events (saturating_sub p previous) es)"

lemma conv_step_obtain:
  assumes "conv_step n st (passed, event) = Inr st'"
  obtains st1 where "handle_event n event st = Inr st1" "st' = stamp passed (length (cs_events st)) st1"
    "cs_events st1 = cs_events st @ emitted n st event" "cs_previous_ms st1 = cs_previous_ms st"
proof -
  from assms obtain st1 where "handle_event n event st = Inr st1"
    "st' = stamp passed (length (cs_events st)) st1"
    by (auto simp: conv_step_def result_simps)
  then show ?thesis using that handle_event_events handle_event_ms by blast
qed

lemma conv_step_events:
  "conv_step n st (passed, event) = Inr st' \<Longrightarrow>
     cs_events st' = cs_events st @ stamped passed (cs_previous_ms st) (emitted n st event)"
  by (erule conv_step_obtain) (simp add: stamp_def stamped_def split: option.splits)

lemma conv_step_ms:
  "conv_step n st (passed, event) = Inr st' \<Longrightarrow>
     cs_previous_ms st' = (case passed of Some p \<Rightarrow> p | None \<Rightarrow> cs_previous_ms st)"
  by (erule conv_step_obtain) (simp add: stamp_def split: option.splits)

lemma map_stamped:
  assumes "\<And>e. e \<in> set es \<Longrightarrow> is_object e"
    and "\<And>e x. is_object e \<Longrightarrow> f (json_put ''dt_ms'' x e) = f e"
  shows "map f (stamped passed previous es) = map f es"
  using assms by (cases es) (auto simp: stamped_def split: option.splits)

lemma map_conv_step:
  assumes "conv_step n st (passed, event) = Inr st'"
    and "\<And>e x. is_object e \<Longrightarrow> f (json_put ''dt_ms'' x e) = f e"
  shows "map f (cs_events st') = map f (cs_events st) @ map f (emitted n st event)"
  using conv_step_events [OF assms(1)] map_stamped [of "emitted n st event" f] emitted_objects assms(2)
  by simp

section \<open>The shape of the stream\<close>

definition count_kind :: "string \<Rightarrow> json list \<Rightarrow> nat" where
  "count_kind k es = count_list (map kind es) (Some k)"

lemma count_kind_append [simp]: "count_kind k (es @ fs) = count_kind k es + count_kind k fs"
  by (simp add: count_kind_def)

lemma count_kind_simps [simp]:
  "count_kind k [] = 0"
  "count_kind k (e # es) = (if kind e = Some k then 1 else 0) + count_kind k es"
  by (simp_all add: count_kind_def)

lemma count_kind_map_zero: "(\<And>x. kind (f x) \<noteq> Some k) \<Longrightarrow> count_kind k (map f xs) = 0"
  by (induction xs) auto

lemma kind_JObject [simp]: "kind (JObject ((''type'', JString k) # kvs)) = Some k"
  by (simp add: kind_def)

definition ends_hand :: "game_event \<Rightarrow> bool" where
  "ends_hand event = (case event of Hule _ \<Rightarrow> True | NoTile _ \<Rightarrow> True | LiuJu _ \<Rightarrow> True | _ \<Rightarrow> False)"

definition starts_hand :: "game_event \<Rightarrow> bool" where
  "starts_hand event = (case event of NewRound _ \<Rightarrow> True | _ \<Rightarrow> False)"

lemma call_name_cases: "call_name t \<in> {''chi'', ''pon'', ''daiminkan''}"
  by (cases t) (auto simp: call_name_def)

lemma emitted_counts:
  "count_kind ''end_kyoku'' (emitted n st event) = (if ends_hand event then 1 else 0)"
  "count_kind ''start_kyoku'' (emitted n st event) = (if starts_hand event then 1 else 0)"
  "count_kind ''start_game'' (emitted n st event) = 0"
  "count_kind ''end_game'' (emitted n st event) = 0"
  using call_name_cases
  by (cases event,
      auto simp: emitted_def accepted_now_def new_doras_def kan_event_def event_defs ends_hand_def
        starts_hand_def count_kind_map_zero call_name_def
        split: option.splits an_gang_add_gang_type.splits chi_peng_gang_type.splits)+

lemma count_kind_conv_step:
  "conv_step n st (passed, event) = Inr st' \<Longrightarrow>
     count_kind k (cs_events st') = count_kind k (cs_events st) + count_kind k (emitted n st event)"
  by (simp add: count_kind_def map_conv_step kind_put)

lemma conv_run_prefix:
  "try_fold (conv_step n) st evs = Inr st' \<Longrightarrow> \<exists>mid. cs_events st' = cs_events st @ mid"
proof (induction evs arbitrary: st)
  case (Cons pe evs)
  obtain p e where pe: "pe = (p, e)" by fastforce
  from Cons.prems obtain st1 where "conv_step n st (p, e) = Inr st1" "try_fold (conv_step n) st1 evs = Inr st'"
    by (auto simp: result_simps pe)
  then show ?case using Cons.IH conv_step_events by fastforce
qed simp

lemma conv_run_counts:
  assumes "try_fold (conv_step n) st evs = Inr st'"
  shows "count_kind ''end_kyoku'' (cs_events st') =
           count_kind ''end_kyoku'' (cs_events st) + length (filter (\<lambda>pe. ends_hand (snd pe)) evs)"
    and "count_kind ''start_kyoku'' (cs_events st') =
           count_kind ''start_kyoku'' (cs_events st) + length (filter (\<lambda>pe. starts_hand (snd pe)) evs)"
    and "count_kind ''start_game'' (cs_events st') = count_kind ''start_game'' (cs_events st)"
    and "count_kind ''end_game'' (cs_events st') = count_kind ''end_game'' (cs_events st)"
  using assms
  by (induction evs arbitrary: st)
     (auto simp: result_simps count_kind_conv_step emitted_counts)

section \<open>The clock\<close>

text \<open>The gap an event carries, as a number; an unstamped event carries none.\<close>

definition dt_ms :: "json \<Rightarrow> int" where
  "dt_ms e = (case json_get ''dt_ms'' e of Some (JNum n) \<Rightarrow> n | _ \<Rightarrow> 0)"

lemma dt_ms_put: "is_object e \<Longrightarrow> dt_ms (json_put ''dt_ms'' (JNum x) e) = x"
  by (simp add: dt_ms_def json_get_put)

lemma sum_dt_stamp_events:
  assumes "es \<noteq> []" and "\<And>e. e \<in> set es \<Longrightarrow> is_object e"
  shows "(\<Sum>e\<leftarrow>stamp_events gap es. dt_ms e) = uint gap"
proof (cases es)
  case (Cons e es')
  have "sum_list (map dt_ms (map (json_put ''dt_ms'' (JNum 0)) es')) = 0"
    unfolding map_map using assms(2) Cons by (intro sum_list_map_zero) (auto simp: dt_ms_put)
  then show ?thesis using assms(2) Cons by (simp add: dt_ms_put)
qed (use assms in simp)

lemma uint_saturating_sub: "b \<le> a \<Longrightarrow> uint (saturating_sub a b) = uint a - uint b"
  by (simp add: saturating_sub_def leD uint_minus_simple_alt [symmetric])

lemma conv_step_clock:
  assumes "conv_step n st (Some p, event) = Inr st'" and "cs_previous_ms st \<le> p"
  shows "(\<Sum>e\<leftarrow>cs_events st'. dt_ms e) = (\<Sum>e\<leftarrow>cs_events st. dt_ms e) + (uint p - uint (cs_previous_ms st))"
  using assms conv_step_events [OF assms(1)] sum_dt_stamp_events [of "emitted n st event"]
    emitted_nonempty emitted_objects
  by (simp add: stamped_def uint_saturating_sub)

lemma conv_run_clock:
  assumes "try_fold (conv_step n) st evs = Inr st'"
    and "map fst evs = map Some ps" and "sorted (cs_previous_ms st # ps)"
  shows "(\<Sum>e\<leftarrow>cs_events st'. dt_ms e) =
           (\<Sum>e\<leftarrow>cs_events st. dt_ms e) + (uint (last (cs_previous_ms st # ps)) - uint (cs_previous_ms st))"
  using assms
proof (induction evs arbitrary: st ps)
  case (Cons pe evs)
  from Cons.prems(2) obtain p ps' e where ps: "ps = p # ps'" and pe: "pe = (Some p, e)"
    by (cases ps; cases pe) auto
  from Cons.prems(1) obtain st1 where st1: "conv_step n st (Some p, e) = Inr st1"
    and rest: "try_fold (conv_step n) st1 evs = Inr st'"
    by (auto simp: result_simps pe)
  have prev: "cs_previous_ms st1 = p" using conv_step_ms [OF st1] by simp
  have "(\<Sum>e\<leftarrow>cs_events st'. dt_ms e) =
      (\<Sum>e\<leftarrow>cs_events st1. dt_ms e) + (uint (last (p # ps')) - uint p)"
    using Cons.IH [OF rest, of ps'] Cons.prems(2,3) ps pe prev by simp
  moreover have "cs_previous_ms st \<le> p" using Cons.prems(3) ps by simp
  ultimately show ?case
    using conv_step_clock [OF st1] ps by simp
qed simp

section \<open>Reading facts off the stream\<close>

text \<open>The seats of the \<^verbatim>\<open>reach_accepted\<close> events, the winner and payer of each \<^verbatim>\<open>hora\<close>, and the
  markers of the \<^verbatim>\<open>dora\<close> events, in stream order.\<close>

definition num_member :: "string \<Rightarrow> json \<Rightarrow> int" where
  "num_member k e = (case json_get k e of Some (JNum n) \<Rightarrow> n | _ \<Rightarrow> 0)"

definition accepted_in :: "json \<Rightarrow> int list" where
  "accepted_in e = (if kind e = Some ''reach_accepted'' then [num_member ''actor'' e] else [])"

definition won_in :: "json \<Rightarrow> (int \<times> int) list" where
  "won_in e = (if kind e = Some ''hora'' then [(num_member ''actor'' e, num_member ''target'' e)] else [])"

definition marker_in :: "json \<Rightarrow> string list" where
  "marker_in e = (if kind e = Some ''dora''
     then (case json_get ''dora_marker'' e of Some (JString m) \<Rightarrow> [m] | _ \<Rightarrow> []) else [])"

definition collect :: "(json \<Rightarrow> 'a list) \<Rightarrow> json list \<Rightarrow> 'a list" where
  "collect f es = concat (map f es)"

lemma collect_simps [simp]:
  "collect f [] = []" "collect f (e # es) = f e @ collect f es"
  "collect f (es @ fs) = collect f es @ collect f fs"
  by (simp_all add: collect_def)

lemma collect_map_empty: "(\<And>x. f (g x) = []) \<Longrightarrow> collect f (map g xs) = []"
  by (induction xs) auto

lemma in_put:
  "is_object e \<Longrightarrow> accepted_in (json_put ''dt_ms'' x e) = accepted_in e"
  "is_object e \<Longrightarrow> won_in (json_put ''dt_ms'' x e) = won_in e"
  "is_object e \<Longrightarrow> marker_in (json_put ''dt_ms'' x e) = marker_in e"
  by (simp_all add: accepted_in_def won_in_def marker_in_def num_member_def kind_put json_get_put)

lemma collect_conv_step:
  assumes "conv_step n st (passed, event) = Inr st'"
    and "\<And>e x. is_object e \<Longrightarrow> f (json_put ''dt_ms'' x e) = f e"
  shows "collect f (cs_events st') = collect f (cs_events st) @ collect f (emitted n st event)"
  using map_conv_step [OF assms] by (simp add: collect_def)

text \<open>A list read off the stream follows a specification as soon as every step does.\<close>

lemma conv_run_collect:
  assumes run: "try_fold (conv_step n) st evs = Inr st'"
    and nil: "\<And>st. spec st [] = []"
    and step: "\<And>st p e st1 es. conv_step n st (p, e) = Inr st1 \<Longrightarrow>
                 spec st (e # es) = collect f (emitted n st e) @ spec st1 es"
    and put: "\<And>e x. is_object e \<Longrightarrow> f (json_put ''dt_ms'' x e) = f e"
  shows "collect f (cs_events st') = collect f (cs_events st) @ spec st (map snd evs)"
  using run
proof (induction evs arbitrary: st)
  case (Cons pe evs)
  obtain p e where pe: "pe = (p, e)" by fastforce
  from Cons.prems obtain st1 where st1: "conv_step n st (p, e) = Inr st1"
    and "try_fold (conv_step n) st1 evs = Inr st'"
    by (auto simp: result_simps pe)
  then show ?case
    using Cons.IH collect_conv_step [OF st1 put] step [OF st1, of "map snd evs"] by (simp add: pe)
qed (simp add: nil)

lemmas emission_defs = emitted_def accepted_now_def new_doras_def kan_event_def event_defs
  accepted_in_def won_in_def marker_in_def num_member_def

lemma stamp_frame [simp]:
  "cs_pending_reach (stamp p k st) = cs_pending_reach st"
  "cs_last_discarder (stamp p k st) = cs_last_discarder st"
  "cs_kan_pending_chankan (stamp p k st) = cs_kan_pending_chankan st"
  "cs_revealed_doras (stamp p k st) = cs_revealed_doras st"
  by (simp_all add: stamp_def split: option.splits)

section \<open>Riichi\<close>

text \<open>
  The rule of the game: a declaration stands once play goes on (a draw, a call, or a drawn
  hand), and lapses when the declaring discard is won on or the hand is replaced.
\<close>

definition declares :: "discard_tile \<Rightarrow> bool" where
  "declares dt \<longleftrightarrow> di_is_liqi dt \<or> di_is_wliqi dt"

fun confirmed :: "u32 option \<Rightarrow> game_event list \<Rightarrow> u32 list" where
  "confirmed p [] = []"
| "confirmed p (DiscardTile dt # es) = confirmed (if declares dt then Some (di_seat dt) else p) es"
| "confirmed p (DealTile dt # es) = (case p of Some a \<Rightarrow> [a] | None \<Rightarrow> []) @ confirmed None es"
| "confirmed p (ChiPengGang c # es) = (case p of Some a \<Rightarrow> [a] | None \<Rightarrow> []) @ confirmed None es"
| "confirmed p (NoTile nt # es) = (case p of Some a \<Rightarrow> [a] | None \<Rightarrow> []) @ confirmed None es"
| "confirmed p (LiuJu lj # es) = (case p of Some a \<Rightarrow> [a] | None \<Rightarrow> []) @ confirmed None es"
| "confirmed p (Hule h # es) = confirmed None es"
| "confirmed p (NewRound nr # es) = confirmed None es"
| "confirmed p (AnGangAddGang ag # es) = confirmed p es"
| "confirmed p (BaBei bb # es) = confirmed p es"

lemma confirmed_step:
  assumes "conv_step n st (passed, event) = Inr st'"
  shows "map uint (confirmed (cs_pending_reach st) (event # es)) =
           collect accepted_in (emitted n st event) @ map uint (confirmed (cs_pending_reach st') es)"
  using assms
  by (cases event)
     (auto elim!: conv_step_obtain simp: handle_event_def handler_defs emission_defs call_name_def declares_def
        Let_def result_simps collect_map_empty
        split: option.splits an_gang_add_gang_type.splits if_splits chi_peng_gang_type.splits)

lemma conv_run_accepted:
  "try_fold (conv_step n) st evs = Inr st' \<Longrightarrow>
     collect accepted_in (cs_events st') =
       collect accepted_in (cs_events st) @ map uint (confirmed (cs_pending_reach st) (map snd evs))"
  by (erule conv_run_collect [where spec = "\<lambda>st es. map uint (confirmed (cs_pending_reach st) es)"]) (simp_all add: confirmed_step in_put)

text \<open>Only a seat that declared is ever confirmed.\<close>

lemma confirmed_declared:
  "set (confirmed p es) \<subseteq> set_option p \<union> {di_seat dt | dt. DiscardTile dt \<in> set es \<and> declares dt}"
  by (induction p es rule: confirmed.induct) (auto split: option.splits if_splits)

section \<open>Who is charged with a win\<close>

text \<open>The rule: a win on a discard is charged to the last discarder, a robbed kan to the seat
  that added to its pon, as long as nobody discarded since.\<close>

definition payer :: "u32 option \<Rightarrow> u32 option \<Rightarrow> hule_info \<Rightarrow> u32" where
  "payer added_kan discarder h =
     (if hi_zimo h then hi_seat h
      else if added_kan \<noteq> None \<and> added_kan \<noteq> Some (hi_seat h) then the added_kan
      else if discarder \<noteq> None then the discarder
      else 0)"

fun charged :: "u32 option \<Rightarrow> u32 option \<Rightarrow> game_event list \<Rightarrow> (u32 \<times> u32) list" where
  "charged k d [] = []"
| "charged k d (DiscardTile dt # es) = charged None (Some (di_seat dt)) es"
| "charged k d (AnGangAddGang ag # es) = charged (if ag_gang_type ag = Kakan then Some (ag_seat ag) else None) d es"
| "charged k d (Hule h # es) = map (\<lambda>hi. (hi_seat hi, payer k d hi)) (hu_hules h) @ charged k d es"
| "charged k d (NewRound x # es) = charged k d es"
| "charged k d (DealTile x # es) = charged k d es"
| "charged k d (ChiPengGang x # es) = charged k d es"
| "charged k d (NoTile x # es) = charged k d es"
| "charged k d (LiuJu x # es) = charged k d es"
| "charged k d (BaBei x # es) = charged k d es"

lemma hora_target_payer: "hora_target h k d = payer k d h"
  by (auto simp: hora_target_def payer_def split: option.splits)

lemma collect_won_horas:
  "collect won_in (map (hora_event h k d) hs) = map (\<lambda>hi. (uint (hi_seat hi), uint (payer k d hi))) hs"
  by (induction hs) (simp_all add: won_in_def hora_event_def num_member_def hora_target_payer)

lemma charged_step:
  assumes "conv_step n st (passed, event) = Inr st'"
  shows "map (map_prod uint uint) (charged (cs_kan_pending_chankan st) (cs_last_discarder st) (event # es)) =
           collect won_in (emitted n st event) @
           map (map_prod uint uint) (charged (cs_kan_pending_chankan st') (cs_last_discarder st') es)"
proof (cases "\<exists>h. event = Hule h")
  case True
  with assms show ?thesis
    by (auto elim!: conv_step_obtain simp: handle_event_def on_hule_def push_def emitted_def collect_won_horas
        Let_def won_in_def end_kyoku_event_def)
next
  case False
  with assms show ?thesis
    by (cases event)
       (auto elim!: conv_step_obtain simp: handle_event_def handler_defs emission_defs call_name_def
          Let_def result_simps collect_map_empty
          split: option.splits an_gang_add_gang_type.splits if_splits chi_peng_gang_type.splits)
qed

lemma conv_run_won:
  "try_fold (conv_step n) st evs = Inr st' \<Longrightarrow>
     collect won_in (cs_events st') = collect won_in (cs_events st) @
       map (map_prod uint uint) (charged (cs_kan_pending_chankan st) (cs_last_discarder st) (map snd evs))"
  by (erule conv_run_collect [where spec = "\<lambda>st es. map (map_prod uint uint) (charged (cs_kan_pending_chankan st) (cs_last_discarder st) es)"]) (simp_all add: charged_step in_put)

section \<open>Dora indicators\<close>

text \<open>The indicators a game event reports face up; the game reports the whole set, not the new one.\<close>

definition face_up :: "game_event \<Rightarrow> string list" where
  "face_up event =
     (case event of
        DealTile dt \<Rightarrow> dl_doras dt
      | DiscardTile dt \<Rightarrow> di_doras dt
      | AnGangAddGang ag \<Rightarrow> ag_doras ag
      | BaBei bb \<Rightarrow> bb_doras bb
      | _ \<Rightarrow> [])"

definition longer :: "'a list \<Rightarrow> 'a list \<Rightarrow> 'a list" where
  "longer xs ys = (if length xs < length ys then ys else xs)"

fun announced :: "string list \<Rightarrow> game_event list \<Rightarrow> string list" where
  "announced shown [] = []"
| "announced shown (NewRound nr # es) = drop 1 (nr_doras nr) @ announced (nr_doras nr) es"
| "announced shown (e # es) = drop (length shown) (face_up e) @ announced (longer shown (face_up e)) es"

lemma collect_marker_doras: "collect marker_in (map dora_event ms) = ms"
  by (induction ms) (simp_all add: marker_in_def dora_event_def)

lemma collect_marker_horas: "collect marker_in (map (hora_event h k d) hs) = []"
  by (rule collect_map_empty) (simp add: marker_in_def hora_event_def)

lemma announced_step:
  assumes "conv_step n st (passed, event) = Inr st'"
  shows "announced (cs_revealed_doras st) (event # es) =
           collect marker_in (emitted n st event) @ announced (cs_revealed_doras st') es"
  using assms
  by (cases event)
     (auto elim!: conv_step_obtain
        simp: handle_event_def handler_defs emitted_def accepted_now_def new_doras_def collect_marker_doras
          collect_marker_horas face_up_def longer_def Let_def result_simps
        split: option.splits an_gang_add_gang_type.splits,
      auto simp: marker_in_def event_defs kan_event_def call_name_def
        split: chi_peng_gang_type.splits an_gang_add_gang_type.splits)

lemma conv_run_markers:
  "try_fold (conv_step n) st evs = Inr st' \<Longrightarrow>
     collect marker_in (cs_events st') =
       collect marker_in (cs_events st) @ announced (cs_revealed_doras st) (map snd evs)"
  by (erule conv_run_collect [where spec = "\<lambda>st es. announced (cs_revealed_doras st) es"])
     (simp_all add: announced_step in_put)

text \<open>Within a hand the face-up set only grows: every report is a prefix of the next one, or the
  other way round when an event reports less than is known.\<close>

fun grows :: "string list \<Rightarrow> game_event list \<Rightarrow> bool" where
  "grows shown [] \<longleftrightarrow> True"
| "grows shown (e # es) \<longleftrightarrow> \<not> starts_hand e \<and> (prefix shown (face_up e) \<or> prefix (face_up e) shown) \<and>
     grows (longer shown (face_up e)) es"

fun final_face_up :: "string list \<Rightarrow> game_event list \<Rightarrow> string list" where
  "final_face_up shown [] = shown"
| "final_face_up shown (e # es) = final_face_up (longer shown (face_up e)) es"

lemma longer_prefix: "prefix shown f \<or> prefix f shown \<Longrightarrow> shown @ drop (length shown) f = longer shown f"
  by (auto simp: longer_def prefix_def)

lemma announced_not_start:
  "\<not> starts_hand e \<Longrightarrow> announced shown (e # es) = drop (length shown) (face_up e) @ announced (longer shown (face_up e)) es"
  by (cases e) (auto simp: starts_hand_def)

lemma announced_grows: "grows shown es \<Longrightarrow> shown @ announced shown es = final_face_up shown es"
proof (induction es arbitrary: shown)
  case (Cons e es)
  then have "shown @ announced shown (e # es) =
      longer shown (face_up e) @ announced (longer shown (face_up e)) es"
    by (simp add: announced_not_start longer_prefix flip: append_assoc)
  with Cons show ?case by simp
qed simp

lemma announced_append:
  "announced shown (es @ NewRound nr # fs) = announced shown es @ drop 1 (nr_doras nr) @ announced (nr_doras nr) fs"
  by (induction shown es rule: announced.induct) auto

section \<open>Totality\<close>

definition event_ok :: "game_event \<Rightarrow> bool" where
  "event_ok event = (case event of AnGangAddGang ag \<Rightarrow> tile_text_ok (ag_tiles ag) | _ \<Rightarrow> True)"

lemma generate_ankan_tiles_ok: "tile_text_ok t \<Longrightarrow> \<exists>ts. generate_ankan_tiles t = Inr ts \<and> length ts = 4"
  by (auto simp: generate_ankan_tiles_def tile_text_ok_def Let_def split: list.splits)

lemma conv_step_total: "event_ok (snd pe) \<Longrightarrow> \<exists>st'. conv_step n st pe = Inr st'"
  using generate_ankan_tiles_ok
  by (cases "snd pe")
     (fastforce simp: conv_step_def handle_event_def on_an_gang_add_gang_def event_ok_def Let_def result_simps
        split: an_gang_add_gang_type.splits)+

lemma conv_run_total: "\<forall>pe \<in> set evs. event_ok (snd pe) \<Longrightarrow> \<exists>st'. try_fold (conv_step n) st evs = Inr st'"
proof (induction evs arbitrary: st)
  case (Cons pe evs)
  then obtain st1 where "conv_step n st pe = Inr st1" using conv_step_total by fastforce
  with Cons show ?case by auto
qed simp

lemma parse_record_action_ok: "parse_record_action name data = Inr (Some e) \<Longrightarrow> event_ok e"
  by (auto simp: parse_record_action_def event_ok_def result_simps split: if_splits
      dest: parse_an_gang_add_gang_tile)

lemma parse_actions_ok:
  assumes "parse_actions actions = Inr evs"
  shows "\<forall>pe \<in> set evs. event_ok (snd pe)"
  by (rule try_fold_invariant [OF assms [unfolded parse_actions_def]])
     (fastforce simp: result_simps intro: parse_record_action_ok split: option.splits)+

section \<open>The converter as a whole\<close>

lemma events_to_mjai_obtain:
  assumes "events_to_mjai record events metadata = Inr out"
  obtains st where "try_fold (conv_step (length (gr_player_names record))) (conv_init record metadata) events = Inr st"
    "out = cs_events st @ [end_game_event record]"
  using assms by (auto simp: events_to_mjai_def result_simps)

lemma events_to_mjai_total:
  "\<forall>pe \<in> set events. event_ok (snd pe) \<Longrightarrow> \<exists>out. events_to_mjai record events metadata = Inr out"
  using conv_run_total [of events "length (gr_player_names record)" "conv_init record metadata"]
  by (auto simp: events_to_mjai_def result_simps)

lemmas bracket_defs = conv_init_def start_game_event_def end_game_event_def

text \<open>The stream the converter writes opens with the one \<^verbatim>\<open>start_game\<close>, closes with
  the one \<^verbatim>\<open>end_game\<close>, and between them has one \<^verbatim>\<open>start_kyoku\<close> per dealt hand and one
  \<^verbatim>\<open>end_kyoku\<close> per hand that finished, whatever else the game contains.\<close>

theorem events_to_mjai_shape:
  assumes "events_to_mjai record events metadata = Inr out"
  shows "(\<exists>mid. out = start_game_event record metadata # mid @ [end_game_event record]) \<and>
     count_kind ''start_game'' out = 1 \<and> count_kind ''end_game'' out = 1 \<and>
     count_kind ''start_kyoku'' out = length (filter (\<lambda>pe. starts_hand (snd pe)) events) \<and>
     count_kind ''end_kyoku'' out = length (filter (\<lambda>pe. ends_hand (snd pe)) events)"
proof -
  from assms obtain st where run: "try_fold (conv_step (length (gr_player_names record)))
      (conv_init record metadata) events = Inr st" and out: "out = cs_events st @ [end_game_event record]"
    by (rule events_to_mjai_obtain)
  from conv_run_prefix [OF run] show ?thesis
    using conv_run_counts [OF run] by (auto simp: out bracket_defs)
qed

text \<open>When every record carries its time and the times do not go back, the gaps
  written to the stream add up to the time of the last record: no interval is lost and none
  is counted twice, although a record may become several events.\<close>

theorem events_to_mjai_clock:
  assumes "events_to_mjai record events metadata = Inr out"
    and "map fst events = map Some passed" and "sorted passed"
  shows "(\<Sum>e\<leftarrow>out. dt_ms e) = uint (last (0 # passed))"
proof -
  from assms(1) obtain st where run: "try_fold (conv_step (length (gr_player_names record)))
      (conv_init record metadata) events = Inr st" and out: "out = cs_events st @ [end_game_event record]"
    by (rule events_to_mjai_obtain)
  show ?thesis
    using conv_run_clock [OF run assms(2)] assms(3)
    by (simp add: out bracket_defs dt_ms_def)
qed

text \<open>Claim C17: the \<^verbatim>\<open>reach_accepted\<close> events of the stream are exactly the declarations the
  game confirms, in order: a declaration is confirmed once, by the next draw, call or drawn
  hand, and one whose discard is won on is never confirmed.\<close>

theorem events_to_mjai_riichi:
  assumes "events_to_mjai record events metadata = Inr out"
  shows "collect accepted_in out = map uint (confirmed None (map snd events))"
proof -
  from assms obtain st where run: "try_fold (conv_step (length (gr_player_names record)))
      (conv_init record metadata) events = Inr st" and out: "out = cs_events st @ [end_game_event record]"
    by (rule events_to_mjai_obtain)
  from conv_run_accepted [OF run] show ?thesis
    by (simp add: out bracket_defs accepted_in_def)
qed

text \<open>Claim C18: every win of the game is one \<^verbatim>\<open>hora\<close> of the stream, in order, and it is charged
  to the winner for a self-draw, to the seat that added to its pon for a robbed kan, and to
  the last discarder otherwise.\<close>

theorem events_to_mjai_charges:
  assumes "events_to_mjai record events metadata = Inr out"
  shows "collect won_in out = map (map_prod uint uint) (charged None None (map snd events))"
proof -
  from assms obtain st where run: "try_fold (conv_step (length (gr_player_names record)))
      (conv_init record metadata) events = Inr st" and out: "out = cs_events st @ [end_game_event record]"
    by (rule events_to_mjai_obtain)
  from conv_run_won [OF run] show ?thesis
    by (simp add: out bracket_defs won_in_def)
qed

text \<open>In a hand whose face-up indicators only grow, the stream announces the opening
  indicator in \<^verbatim>\<open>start_kyoku\<close> and every further one in exactly one \<^verbatim>\<open>dora\<close> event, in the order
  they were turned over, although the game repeats the whole set on each report.\<close>

theorem events_to_mjai_doras:
  assumes "events_to_mjai record events metadata = Inr out"
    and "map snd events = earlier @ NewRound nr # hand"
    and "nr_doras nr = marker # further" and "grows (nr_doras nr) hand"
  shows "collect marker_in out = announced [] earlier @ tl (final_face_up (nr_doras nr) hand)"
proof -
  from assms(1) obtain st where run: "try_fold (conv_step (length (gr_player_names record)))
      (conv_init record metadata) events = Inr st" and out: "out = cs_events st @ [end_game_event record]"
    by (rule events_to_mjai_obtain)
  have "final_face_up (nr_doras nr) hand = nr_doras nr @ announced (nr_doras nr) hand"
    using announced_grows [OF assms(4)] by simp
  with conv_run_markers [OF run] show ?thesis
    by (simp add: out bracket_defs marker_in_def assms(2,3) announced_append)
qed

text \<open>Claim C39: converting never fails and never panics on events the decoder produced: the
  only fallible step, spelling out a concealed kan, always has the characters it indexes.\<close>

theorem decoded_events_convert:
  assumes "parse_actions actions = Inr events"
  shows "\<exists>out. events_to_mjai record events metadata = Inr out"
  using events_to_mjai_total parse_actions_ok [OF assms] by blast

section \<open>A sample hand\<close>

text \<open>One hand of two players: a riichi that stands, an added kan that is robbed, and an
  indicator turned over by it.\<close>

definition sample_hule :: hule where
  "sample_hule = \<lparr>hu_hules = [hule_info_default\<lparr>hi_seat := 0\<rparr>],
     hu_delta_scores = [8000, - 8000], hu_scores = [33000, 17000], hu_doras = []\<rparr>"

definition sample_events :: "(u32 option \<times> game_event) list" where
  "sample_events =
     [(Some 0, NewRound \<lparr>nr_chang = 0, nr_ju = 0, nr_ben = 0, nr_liqibang = 0, nr_dora_marker = ''1m'',
         nr_doras = [''1m''], nr_scores = [25000, 25000], nr_tiles = [[], [], [], []]\<rparr>),
      (Some 100, DiscardTile \<lparr>di_seat = 0, di_tile = ''9p'', di_is_liqi = True, di_moqie = False,
         di_is_wliqi = False, di_doras = []\<rparr>),
      (Some 900, DealTile \<lparr>dl_seat = 1, dl_tile = ''5s'', dl_doras = []\<rparr>),
      (Some 950, AnGangAddGang \<lparr>ag_seat = 1, ag_gang_type = Kakan, ag_tiles = ''5s'', ag_doras = [''1m'', ''2m'']\<rparr>),
      (Some 1000, Hule sample_hule)]"

lemma sample_events_convert: "\<exists>out. events_to_mjai sample_record sample_events None = Inr out"
  by (rule events_to_mjai_total) (simp add: sample_events_def event_ok_def tile_text_ok_def str_chars_Cons_ascii byte_of_char_def)

theorem events_to_mjai_shape_witness:
  "\<exists>out. events_to_mjai sample_record sample_events None = Inr out \<and>
     count_kind ''start_kyoku'' out = 1 \<and> count_kind ''end_kyoku'' out = 1"
proof -
  obtain out where out: "events_to_mjai sample_record sample_events None = Inr out"
    using sample_events_convert by blast
  from events_to_mjai_shape [OF out] out show ?thesis
    by (auto simp: sample_events_def starts_hand_def ends_hand_def)
qed

theorem events_to_mjai_clock_witness:
  "\<exists>out. events_to_mjai sample_record sample_events None = Inr out \<and> (\<Sum>e\<leftarrow>out. dt_ms e) = 1000"
proof -
  obtain out where out: "events_to_mjai sample_record sample_events None = Inr out"
    using sample_events_convert by blast
  from events_to_mjai_clock [OF out, of "[0, 100, 900, 950, 1000]"] out show ?thesis
    by (auto simp: sample_events_def)
qed

theorem events_to_mjai_riichi_witness:
  "\<exists>out. events_to_mjai sample_record sample_events None = Inr out \<and> collect accepted_in out = [0]"
proof -
  obtain out where out: "events_to_mjai sample_record sample_events None = Inr out"
    using sample_events_convert by blast
  from events_to_mjai_riichi [OF out] out show ?thesis
    by (auto simp: sample_events_def declares_def)
qed

theorem events_to_mjai_charges_witness:
  "\<exists>out. events_to_mjai sample_record sample_events None = Inr out \<and> collect won_in out = [(0, 1)]"
proof -
  obtain out where out: "events_to_mjai sample_record sample_events None = Inr out"
    using sample_events_convert by blast
  from events_to_mjai_charges [OF out] out show ?thesis
    by (auto simp: sample_events_def sample_hule_def payer_def hule_info_default_def)
qed

theorem events_to_mjai_doras_witness:
  "\<exists>out. events_to_mjai sample_record sample_events None = Inr out \<and> collect marker_in out = [''2m'']"
proof -
  obtain out where out: "events_to_mjai sample_record sample_events None = Inr out"
    using sample_events_convert by blast
  obtain nr hand where split: "map snd sample_events = [] @ NewRound nr # hand" "nr_doras nr = [''1m'']"
      "hand = map snd (tl sample_events)"
    by (simp add: sample_events_def)
  have "grows (nr_doras nr) hand" "final_face_up (nr_doras nr) hand = [''1m'', ''2m'']"
    by (simp_all add: split(2,3) sample_events_def face_up_def longer_def starts_hand_def)
  then show ?thesis
    using events_to_mjai_doras [OF out split(1), of "''1m''" "[]"] out split(2) by auto
qed

theorem decoded_events_convert_witness:
  "\<exists>events out. length events = 1 \<and>
     parse_actions [\<lparr>ra_name = ''.lq.RecordDiscardTile'',
       ra_data = encode_items (enc_discard_tile 2 ''9p'' True False False [''9p'']), ra_passed_ms = Some 3\<rparr>] = Inr events \<and>
     events_to_mjai sample_record events None = Inr out"
proof -
  let ?actions = "[\<lparr>ra_name = ''.lq.RecordDiscardTile'',
       ra_data = encode_items (enc_discard_tile 2 ''9p'' True False False [''9p'']), ra_passed_ms = Some 3\<rparr>]"
  obtain events where events: "parse_actions ?actions = Inr events" "length events = 1"
    using parse_discard_tile_enc [OF tile_in_wire_tiles _ sample_discard_length] tile_in_wire_tiles
    by (simp add: parse_actions_def parse_record_action_def)
  from decoded_events_convert [OF events(1), of sample_record None] events show ?thesis by blast
qed

end
