(* ===== verification/Mjai.thy ===== *)
theory Mjai
  imports Json
begin

text \<open>
  \<^verbatim>\<open>src/mjai.rs\<close>: the reading of an uploaded record, as the index needs it
  (\<open>parse_metadata\<close>) and as the statistics need it (\<open>events\<close>). The JSON parser and printer
  are library code: \<open>from_str\<close> parses one value, \<open>from_str_vec\<close> an array of values,
  \<open>to_string\<close> prints a value, and \<open>timestamp_ok\<close> is the range of seconds
  \<^verbatim>\<open>DateTime::from_timestamp\<close> accepts. A time is its Unix second.
\<close>

section \<open>Types\<close>

record metadata =
  md_players :: "string list"
  md_rule :: "string option"
  md_event_count :: u32
  md_played_at :: "int option"
  md_majsoul_uuid :: "string option"

datatype parse_error = Utf8 | Empty | Json_Error | NotEvents

section \<open>The events of a record\<close>

definition events ::
  "(string \<Rightarrow> json option) \<Rightarrow> (string \<Rightarrow> json list option) \<Rightarrow> u8 list \<Rightarrow> parse_error + json list" where
  "events from_str from_str_vec payload =
     (case from_utf8 payload of
        None \<Rightarrow> Inl Utf8
      | Some text \<Rightarrow>
          let trimmed = str_trim text
          in if trimmed = [] then Inl Empty
             else attempt
               (if first_opt trimmed = Some CHR ''['' then
                  (case from_str_vec trimmed of Some vs \<Rightarrow> Inr vs | None \<Rightarrow> Inl Json_Error)
                else try_map (\<lambda>line. case from_str line of Some v \<Rightarrow> Inr v | None \<Rightarrow> Inl Json_Error)
                  (filter (\<lambda>line. str_trim line \<noteq> []) (str_lines text))) (\<lambda>evs.
            if evs = [] \<or> list_ex (\<lambda>event. \<not> is_object event) evs then Inl NotEvents
            else Inr evs))"

section \<open>What the index records\<close>

definition start_of :: "json list \<Rightarrow> json" where
  "start_of evs =
     (case find (\<lambda>event. kind event = Some ''start_game'') evs of
        Some event \<Rightarrow> event
      | None \<Rightarrow> evs ! 0)"

definition players_of :: "json \<Rightarrow> string list" where
  "players_of start =
     (case Option.bind (json_get ''names'' start) as_array of
        Some names \<Rightarrow> map (take_chars 128) (List.map_filter as_str names)
      | None \<Rightarrow> [])"

definition header_rule :: "json \<Rightarrow> string option" where
  "header_rule header =
     Option.bind (Option.bind (json_get ''players'' header) as_u64) (\<lambda>players.
     Option.bind (Option.bind (json_get ''room'' header) as_str) (\<lambda>room.
     Option.bind (Option.bind (json_get ''game_length'' header) as_str) (\<lambda>len.
       Some (show_nat players @ ''p-'' @ room @ ''-'' @ len))))"

definition rule_of :: "(json \<Rightarrow> string) \<Rightarrow> json \<Rightarrow> string option" where
  "rule_of to_string start =
     (case json_get ''rule'' start of
        Some rule \<Rightarrow> Some (case rule of JString s \<Rightarrow> take_chars 256 s | other \<Rightarrow> to_string other)
      | None \<Rightarrow> Option.bind (json_get ''majsoul'' start) header_rule)"

definition played_at_of :: "(int \<Rightarrow> bool) \<Rightarrow> json \<Rightarrow> int option" where
  "played_at_of timestamp_ok start =
     Option.bind (Option.bind (Option.bind (json_get ''majsoul'' start) (json_get ''start_time'')) as_i64)
       (\<lambda>seconds. if timestamp_ok seconds then Some seconds else None)"

definition uuid_of :: "json \<Rightarrow> string option" where
  "uuid_of start =
     Option.bind (Option.bind (Option.bind (json_get ''majsoul'' start) (json_get ''uuid'')) as_str)
       (\<lambda>s. let uuid = str_trim s in if uuid \<noteq> [] \<and> length uuid \<le> 128 then Some uuid else None)"

definition count_u32 :: "nat \<Rightarrow> u32" where
  "count_u32 n = (if n < 2 ^ 32 then of_nat n else 0xFFFFFFFF)"

definition parse_metadata ::
  "(string \<Rightarrow> json option) \<Rightarrow> (string \<Rightarrow> json list option) \<Rightarrow> (json \<Rightarrow> string) \<Rightarrow> (int \<Rightarrow> bool) \<Rightarrow>
   u8 list \<Rightarrow> parse_error + metadata" where
  "parse_metadata from_str from_str_vec to_string timestamp_ok payload =
     (case from_utf8 payload of
        None \<Rightarrow> Inl Utf8
      | Some text \<Rightarrow>
          let trimmed = str_trim text
          in if trimmed = [] then Inl Empty
             else attempt
               (if first_opt trimmed = Some CHR ''['' then
                  (case from_str_vec trimmed of Some vs \<Rightarrow> Inr vs | None \<Rightarrow> Inl Json_Error)
                else try_map (\<lambda>line. case from_str line of Some v \<Rightarrow> Inr v | None \<Rightarrow> Inl Json_Error)
                  (filter (\<lambda>line. str_trim line \<noteq> []) (str_lines text))) (\<lambda>evs.
            if evs = [] \<or> list_ex (\<lambda>event. \<not> is_object event) evs then Inl NotEvents
            else
              let start = start_of evs
              in Inr \<lparr>md_players = players_of start, md_rule = rule_of to_string start,
                   md_event_count = count_u32 (length evs), md_played_at = played_at_of timestamp_ok start,
                   md_majsoul_uuid = uuid_of start\<rparr>))"

section \<open>Both readings agree\<close>

lemma parse_metadata_events:
  "parse_metadata from_str from_str_vec to_string timestamp_ok payload =
     attempt (events from_str from_str_vec payload) (\<lambda>evs.
       Inr \<lparr>md_players = players_of (start_of evs), md_rule = rule_of to_string (start_of evs),
         md_event_count = count_u32 (length evs), md_played_at = played_at_of timestamp_ok (start_of evs),
         md_majsoul_uuid = uuid_of (start_of evs)\<rparr>)"
  by (auto simp: parse_metadata_def events_def attempt_assoc Let_def split: option.splits
      intro!: arg_cong [where f = "attempt _"])

lemma uuid_of_Some: "uuid_of start = Some u \<Longrightarrow> u \<noteq> [] \<and> length u \<le> 128"
  by (auto simp: uuid_of_def bind_eq_Some_conv Let_def split: if_splits)

section \<open>A newline-delimited record is read back\<close>

text \<open>
  What the JSON library documents of the compact form of an event: it parses to the value
  it was printed from, it is UTF-8, and it is one line that opens with a brace.
\<close>

definition prints_back :: "(json \<Rightarrow> string) \<Rightarrow> (string \<Rightarrow> json option) \<Rightarrow> json \<Rightarrow> bool" where
  "prints_back to_string from_str e \<longleftrightarrow>
     from_str (to_string e) = Some e \<and> valid_utf8 (as_bytes (to_string e)) \<and>
     CHR 0x0A \<notin> set (to_string e) \<and> CHR 0x0D \<notin> set (to_string e) \<and>
     first_opt (to_string e) = Some CHR ''{''"

definition ndjson :: "(json \<Rightarrow> string) \<Rightarrow> json list \<Rightarrow> string" where
  "ndjson to_string es = concat (map (\<lambda>e. to_string e @ [CHR 0x0A]) es)"

lemma split_on_ndjson:
  "(\<And>e. e \<in> set es \<Longrightarrow> CHR 0x0A \<notin> set (to_string e)) \<Longrightarrow>
     split_on CHR 0x0A (ndjson to_string es) = map to_string es @ [[]]"
  by (induction es) (auto simp: ndjson_def split_on_append)

lemma strip_cr_id: "CHR 0x0D \<notin> set s \<Longrightarrow> strip_cr s = s"
  by (auto simp: strip_cr_def dest: last_in_set)

lemma str_lines_ndjson:
  assumes "\<And>e. e \<in> set es \<Longrightarrow> CHR 0x0A \<notin> set (to_string e) \<and> CHR 0x0D \<notin> set (to_string e)"
  shows "str_lines (ndjson to_string es) = map to_string es"
  using assms by (simp add: str_lines_def split_on_ndjson strip_cr_id)

lemma str_trim_open_brace:
  assumes "first_opt s = Some CHR ''{''"
  shows "first_opt (str_trim s) = Some CHR ''{''"
proof -
  from assms obtain t where s: "s = CHR ''{'' # t" by (cases s) auto
  have chars: "str_chars s = ''{'' # str_chars t"
    by (simp add: s str_chars_Cons_ascii byte_of_char_def)
  have brace: "\<not> is_white_space ''{''"
    by (simp add: is_white_space_def white_space_def as_bytes_def byte_of_char_def)
  have "\<exists>us. rev (dropWhile is_white_space (rev (''{'' # str_chars t))) = ''{'' # us"
    using brace
    by (intro exI [where x = "rev (dropWhile is_white_space (rev (str_chars t)))"])
       (auto simp: dropWhile_append dropWhile_eq_Nil_conv split: if_splits)
  then show ?thesis using brace by (auto simp: str_trim_def chars)
qed

lemma valid_utf8_concat: "(\<And>s. s \<in> set ss \<Longrightarrow> valid_utf8 (as_bytes s)) \<Longrightarrow> valid_utf8 (as_bytes (concat ss))"
  by (induction ss) (auto simp: valid_utf8_append as_bytes_def [of "[]"])

lemma valid_utf8_newline: "valid_utf8 (as_bytes [CHR 0x0A])"
  by (rule valid_utf8_ascii) (simp add: as_bytes_def byte_of_char_def)

lemma valid_utf8_ndjson:
  assumes "\<And>e. e \<in> set es \<Longrightarrow> valid_utf8 (as_bytes (to_string e))"
  shows "valid_utf8 (as_bytes (ndjson to_string es))"
  unfolding ndjson_def
  by (rule valid_utf8_concat) (auto simp: valid_utf8_append assms valid_utf8_newline simp del: as_bytes_append
      simp: as_bytes_append)

lemma events_ndjson:
  assumes "es \<noteq> []" and "\<And>e. e \<in> set es \<Longrightarrow> is_object e \<and> prints_back to_string from_str e"
  shows "events from_str from_str_vec (as_bytes (ndjson to_string es)) = Inr es"
proof -
  have brace: "first_opt (str_trim (to_string e)) = Some CHR ''{''" if "e \<in> set es" for e
    using assms(2) [OF that] by (simp add: prints_back_def str_trim_open_brace)
  have opens: "first_opt (str_trim (ndjson to_string es)) = Some CHR ''{''"
  proof -
    from assms(1) obtain e es' where es: "es = e # es'" by (cases es) auto
    with assms(2) have "first_opt (to_string e) = Some CHR ''{''" by (simp add: prints_back_def)
    then show ?thesis
      by (intro str_trim_open_brace) (cases "to_string e", auto simp: ndjson_def es)
  qed
  have utf8: "from_utf8 (as_bytes (ndjson to_string es)) = Some (ndjson to_string es)"
    using assms(2) by (simp add: from_utf8_def valid_utf8_ndjson prints_back_def)
  have nonblank: "filter (\<lambda>line. str_trim line \<noteq> []) (map to_string es) = map to_string es"
    using brace by (fastforce intro: filter_True)
  have "try_map (\<lambda>line. case from_str line of Some v \<Rightarrow> Inr v | None \<Rightarrow> Inl Json_Error) (map to_string es) =
      Inr (map (\<lambda>s. the (from_str s)) (map to_string es))"
    using assms(2) by (intro try_map_total) (auto simp: prints_back_def)
  also have "map (\<lambda>s. the (from_str s)) (map to_string es) = es"
    using assms(2) by (auto simp: prints_back_def intro!: map_idI)
  finally have "try_map (\<lambda>line. case from_str line of Some v \<Rightarrow> Inr v | None \<Rightarrow> Inl Json_Error)
      (filter (\<lambda>line. str_trim line \<noteq> []) (str_lines (ndjson to_string es))) = Inr es"
    using assms(2) by (simp add: str_lines_ndjson prints_back_def nonblank)
  moreover have "str_trim (ndjson to_string es) \<noteq> []" using opens by auto
  ultimately show ?thesis
    using assms opens utf8 by (auto simp: events_def Let_def list_ex_iff)
qed

section \<open>Properties\<close>

text \<open>Claim C40: the index pass and the statistics pass accept exactly the same payloads and
  reject the others with the same error, although each parses on its own; the count of the
  metadata is the number of events the statistics see, capped at the \<^verbatim>\<open>u32\<close> of the parser (the
  narrower column of the index is the matter of \<open>stored_row\<close>).\<close>

theorem both_passes_agree:
  "(\<forall>e. parse_metadata from_str from_str_vec to_string timestamp_ok payload = Inl e \<longleftrightarrow>
        events from_str from_str_vec payload = Inl e) \<and>
   (\<forall>m. parse_metadata from_str from_str_vec to_string timestamp_ok payload = Inr m \<longrightarrow>
      (\<exists>evs. events from_str from_str_vec payload = Inr evs \<and> evs \<noteq> [] \<and>
         unat (md_event_count m) = min (length evs) (2 ^ 32 - 1)))"
proof -
  have "unat (count_u32 n) = min n (2 ^ 32 - 1)" for n
    by (auto simp: count_u32_def unat_of_nat)
  moreover have "events from_str from_str_vec payload = Inr [] \<Longrightarrow> False"
    by (auto simp: events_def Let_def result_simps split: option.splits if_splits)
  ultimately show ?thesis
    unfolding parse_metadata_events by (cases "events from_str from_str_vec payload") auto
qed

text \<open>The identity ingest deduplicates on is never empty, never longer than 128 bytes
  and never a truncation: it is the header's own value without surrounding white space.\<close>

theorem majsoul_uuid_exact:
  assumes "parse_metadata from_str from_str_vec to_string timestamp_ok payload = Inr m"
    and "md_majsoul_uuid m = Some u"
  shows "u \<noteq> [] \<and> length u \<le> 128 \<and>
     (\<exists>evs header s. events from_str from_str_vec payload = Inr evs \<and>
        json_get ''majsoul'' (start_of evs) = Some header \<and>
        json_get ''uuid'' header = Some (JString s) \<and> u = str_trim s)"
proof -
  from assms(1) obtain evs where evs: "events from_str from_str_vec payload = Inr evs"
    and u: "uuid_of (start_of evs) = Some u"
    using assms(2) by (auto simp: parse_metadata_events result_simps)
  from u obtain header v where "json_get ''majsoul'' (start_of evs) = Some header"
    "json_get ''uuid'' header = Some v" "Option.bind (as_str v) (\<lambda>s. let uuid = str_trim s in
       if uuid \<noteq> [] \<and> length uuid \<le> 128 then Some uuid else None) = Some u"
    by (auto simp: uuid_of_def bind_eq_Some_conv)
  then show ?thesis
    using evs by (cases v) (auto simp: as_str_def Let_def split: if_splits)
qed

definition sample_event :: json where
  "sample_event = JObject [(''majsoul'', JObject [(''uuid'', JString ''u1'')])]"

lemma sample_event_read:
  "events (\<lambda>_. Some sample_event) (\<lambda>_. None) (as_bytes (ndjson (\<lambda>_. ''{}'') [sample_event])) = Inr [sample_event]"
  by (rule events_ndjson)
     (simp_all add: prints_back_def sample_event_def valid_utf8_ascii_list as_bytes_def byte_of_char_def)

lemma sample_uuid: "uuid_of sample_event = Some ''u1''"
  by (simp add: uuid_of_def sample_event_def str_trim_def str_chars_Cons_ascii byte_of_char_def
      is_white_space_def white_space_def as_bytes_def)

theorem majsoul_uuid_exact_witness:
  "\<exists>m. parse_metadata (\<lambda>_. Some sample_event) (\<lambda>_. None) (\<lambda>_. []) (\<lambda>_. True)
         (as_bytes (ndjson (\<lambda>_. ''{}'') [sample_event])) = Inr m \<and>
     md_majsoul_uuid m = Some ''u1'' \<and> length ''u1'' \<le> 128"
proof -
  let ?payload = "as_bytes (ndjson (\<lambda>_. ''{}'') [sample_event])"
  obtain m where m: "parse_metadata (\<lambda>_. Some sample_event) (\<lambda>_. None) (\<lambda>_. []) (\<lambda>_. True) ?payload = Inr m"
    and u: "md_majsoul_uuid m = Some ''u1''"
    unfolding parse_metadata_events sample_event_read
    using sample_uuid by (simp add: start_of_def sample_event_def kind_def)
  from majsoul_uuid_exact [OF m u] m u show ?thesis by blast
qed

theorem both_passes_agree_witness:
  "\<exists>m. parse_metadata (\<lambda>_. Some sample_event) (\<lambda>_. None) (\<lambda>_. []) (\<lambda>_. True)
         (as_bytes (ndjson (\<lambda>_. ''{}'') [sample_event])) = Inr m \<and> unat (md_event_count m) = 1"
proof -
  let ?payload = "as_bytes (ndjson (\<lambda>_. ''{}'') [sample_event])"
  obtain m where m: "parse_metadata (\<lambda>_. Some sample_event) (\<lambda>_. None) (\<lambda>_. []) (\<lambda>_. True) ?payload = Inr m"
    unfolding parse_metadata_events sample_event_read by simp
  from both_passes_agree [of "\<lambda>_. Some sample_event" "\<lambda>_. None" "\<lambda>_. []" "\<lambda>_. True" ?payload] m sample_event_read
  show ?thesis by simp
qed

end
