(* ===== verification/Converted.thy ===== *)
theory Converted
  imports Convert_Correct Mjai
begin

text \<open>
  What the record reader (\<^verbatim>\<open>src/mjai.rs\<close>) sees of a stream the converter (\<^verbatim>\<open>src/majsoul/convert.rs\<close>) wrote: its
  brackets, its header and the bytes of its payload. The components that convert a record and read it
  back share these lemmas.
\<close>

text \<open>A fact about single events holds of the whole stream as soon as every step's events have it
  and the clock does not disturb it.\<close>

lemma conv_run_all:
  assumes run: "try_fold (conv_step n) st evs = Inr st'" and init: "\<forall>e \<in> set (cs_events st). P e"
    and step: "\<And>st pe e. pe \<in> set evs \<Longrightarrow> e \<in> set (emitted n st (snd pe)) \<Longrightarrow> P e"
    and put: "\<And>e x. is_object e \<Longrightarrow> P (json_put ''dt_ms'' x e) = P e"
  shows "\<forall>e \<in> set (cs_events st'). P e"
  using run init step
proof (induction evs arbitrary: st)
  case (Cons pe evs)
  obtain p ev where pe: "pe = (p, ev)" by fastforce
  from Cons.prems(1) obtain st1 where st1: "conv_step n st (p, ev) = Inr st1"
    and rest: "try_fold (conv_step n) st1 evs = Inr st'"
    by (auto simp: result_simps pe)
  have "map P (cs_events st1) = map P (cs_events st) @ map P (emitted n st ev)"
    using st1 put by (rule map_conv_step)
  then have "list_all id (map P (cs_events st1))"
    using Cons.prems(2) Cons.prems(3) [of pe _ st] by (auto simp: list_all_iff pe)
  then have "\<forall>e \<in> set (cs_events st1). P e" by (auto simp: list_all_iff)
  then show ?case by (rule Cons.IH [OF rest]) (use Cons.prems(3) in auto)
qed simp

lemma events_to_mjai_all:
  assumes "events_to_mjai record evs header = Inr es"
    and "P (start_game_event record header)" and "P (end_game_event record)"
    and "\<And>st pe e. pe \<in> set evs \<Longrightarrow> e \<in> set (emitted (length (gr_player_names record)) st (snd pe)) \<Longrightarrow> P e"
    and "\<And>e x. is_object e \<Longrightarrow> P (json_put ''dt_ms'' x e) = P e"
  shows "\<forall>e \<in> set es. P e"
proof -
  from assms(1) obtain st where run: "try_fold (conv_step (length (gr_player_names record)))
      (conv_init record header) evs = Inr st" and es: "es = cs_events st @ [end_game_event record]"
    by (rule events_to_mjai_obtain)
  from run have "\<forall>e \<in> set (cs_events st). P e"
    by (rule conv_run_all) (use assms(2,4,5) in \<open>auto simp: conv_init_def\<close>)
  with assms(3) show ?thesis by (simp add: es)
qed

lemma events_to_mjai_objects: "events_to_mjai record evs header = Inr es \<Longrightarrow> \<forall>e \<in> set es. is_object e"
  by (rule events_to_mjai_all) (auto simp: bracket_defs dest: emitted_objects)

lemma events_to_mjai_brackets:
  assumes "events_to_mjai record evs header = Inr es"
  shows "\<exists>mid. es = start_game_event record header # mid @ [end_game_event record]"
proof -
  from assms obtain st where run: "try_fold (conv_step (length (gr_player_names record)))
      (conv_init record header) evs = Inr st" and es: "es = cs_events st @ [end_game_event record]"
    by (rule events_to_mjai_obtain)
  from conv_run_prefix [OF run] show ?thesis by (auto simp: es conv_init_def)
qed

lemma ndjson_bytes_ndjson: "ndjson_bytes to_string es = as_bytes (ndjson to_string es)"
  by (simp add: ndjson_bytes_def ndjson_def)

lemma start_of_converted:
  assumes "events_to_mjai record evs header = Inr es"
  shows "start_of es = start_game_event record header" and "es \<noteq> []"
    "find (\<lambda>e. kind e = Some ''start_game'') es = Some (start_game_event record header)"
  using events_to_mjai_brackets [OF assms] by (auto simp: start_of_def start_game_event_def)

definition header_of :: "game_record \<Rightarrow> game_metadata option \<Rightarrow> game_metadata option" where
  "header_of record metadata = (case metadata of Some m \<Rightarrow> Some m | None \<Rightarrow> metadata_of record)"

lemma converted_players: "players_of (start_game_event record header) = map (take_chars 128) (gr_player_names record)"
  by (simp add: players_of_def start_game_event_def as_array_def as_str_def List.map_filter_def comp_def)

lemma converted_uuid:
  "uuid_of (start_game_event record header) =
     (let uuid = str_trim (gr_uuid record) in if uuid \<noteq> [] \<and> length uuid \<le> 128 then Some uuid else None)"
  by (simp add: uuid_of_def start_game_event_def majsoul_header_def Let_def as_str_def)

lemma as_u64_u8: "as_u64 (j_u8 w) = Some (unat w)"
proof -
  have "uint w < 2 ^ 8" using uint_lt2p [of w] by simp
  then show ?thesis by (simp add: as_u64_def)
qed

lemma converted_rule:
  "rule_of to_string (start_game_event record header) =
     map_option (\<lambda>m. show_nat (unat (gm_players m)) @ ''p-'' @ gm_room m @ ''-'' @ gm_game_length m) header"
  by (cases header)
     (simp_all add: rule_of_def header_rule_def start_game_event_def majsoul_header_def Let_def as_u64_u8)

text \<open>The conversion without its printing: the identity of the game and the events.\<close>

definition conversion :: "u8 list \<Rightarrow> game_metadata option \<Rightarrow> (string \<times> json list) result" where
  "conversion raw metadata =
     (if length raw < 20 then Inl (Bail ''record too small'')
      else attempt (decode_game_record raw) (\<lambda>record.
        if gr_records record = [] then Inl (Bail ''no game records in decoded record'')
        else attempt (parse_actions (gr_records record)) (\<lambda>evs.
          attempt (events_to_mjai record evs (header_of record metadata)) (\<lambda>es. Inr (gr_uuid record, es)))))"

lemma convert_record_bytes_conversion:
  "convert_record_bytes to_string gzip raw metadata =
     attempt (conversion raw metadata) (\<lambda>(uuid, es). Inr (uuid, gzip (ndjson_bytes to_string es)))"
  by (simp add: convert_record_bytes_def conversion_def attempt_assoc Let_def
      cong: if_cong flip: header_of_def)
     (auto simp: attempt_assoc intro!: attempt_cong)

lemma conversion_obtain:
  assumes "conversion raw metadata = Inr (uuid, es)"
  obtains game evs where "decode_game_record raw = Inr game" and "parse_actions (gr_records game) = Inr evs"
    and "events_to_mjai game evs (header_of game metadata) = Inr es" and "uuid = gr_uuid game"
  using assms by (auto simp: conversion_def result_simps split: if_splits)

lemma converted_payload:
  assumes "20 \<le> length raw" and "decode_game_record raw = Inr record" and "gr_records record \<noteq> []"
    and "parse_actions (gr_records record) = Inr evs"
    and "events_to_mjai record evs (header_of record metadata) = Inr es"
  shows "convert_record_bytes to_string gzip raw metadata = Inr (gr_uuid record, gzip (ndjson_bytes to_string es))"
  using assms by (simp add: convert_record_bytes_conversion conversion_def)

lemma converted_events_read:
  assumes "events_to_mjai record evs header = Inr es" and "\<And>e. e \<in> set es \<Longrightarrow> prints_back to_string from_str e"
  shows "events from_str from_str_vec (ndjson_bytes to_string es) = Inr es"
  unfolding ndjson_bytes_ndjson
  using start_of_converted(2) [OF assms(1)] events_to_mjai_objects [OF assms(1)] assms(2)
  by (intro events_ndjson) auto

section \<open>A sample conversion\<close>

definition sample_stream :: "game_metadata option \<Rightarrow> json list" where
  "sample_stream metadata = [start_game_event sample_record (header_of sample_record metadata), end_game_event sample_record]"

lemma sample_conversion: "conversion (enc_record sample_record) metadata = Inr (''u'', sample_stream metadata)"
proof -
  have "decode_game_record (enc_record sample_record) = Inr sample_record"
    by (rule decode_game_record_enc [OF sample_record_wf]) (simp add: sample_record_def enc_defs)
  moreover have "20 \<le> length (enc_record sample_record)"
    by (simp add: sample_record_def enc_defs)
  moreover have "gr_records sample_record \<noteq> []" "parse_actions (gr_records sample_record) = Inr []" "gr_uuid sample_record = ''u''"
    by (simp_all add: sample_record_def parse_actions_def parse_record_action_def)
  moreover have "events_to_mjai sample_record [] (header_of sample_record metadata) = Inr (sample_stream metadata)"
    by (simp add: events_to_mjai_def conv_init_def sample_stream_def)
  ultimately show ?thesis by (simp add: conversion_def)
qed

definition toy_print :: "json \<Rightarrow> string" where
  "toy_print e = (if kind e = Some ''start_game'' then ''{0}'' else ''{1}'')"

definition toy_parse :: "game_metadata option \<Rightarrow> string \<Rightarrow> json option" where
  "toy_parse metadata s = (if s = ''{0}'' then Some (start_game_event sample_record (header_of sample_record metadata))
     else Some (end_game_event sample_record))"

lemma sample_prints_back: "e \<in> set (sample_stream metadata) \<Longrightarrow> prints_back toy_print (toy_parse metadata) e"
  by (auto simp: sample_stream_def prints_back_def toy_print_def toy_parse_def start_game_event_def [of _ "header_of _ _"]
      end_game_event_def valid_utf8_ascii_list as_bytes_def byte_of_char_def)

end
