(* ===== verification/Replay.thy ===== *)
theory Replay
  imports Json "HOL-Library.Product_Lexorder"
begin

text \<open>
  \<^verbatim>\<open>src/replay.rs\<close>: per-seat statistics read off an mjai event stream. The local variables
  of \<^verbatim>\<open>replay\<close> are the record \<open>replay_state\<close>, each arm of its \<^verbatim>\<open>match\<close> is one handler.
  Counters keep their width, so they wrap as a release build's do. The two places where a
  record can make the function panic (splitting an indicator, and resizing the settlement)
  are branches of the model.
\<close>

section \<open>State\<close>

record seat_stats =
  ss_seat :: u8
  ss_player :: string
  ss_placement :: u8
  ss_final_score :: i32
  ss_settled_point :: i32
  ss_grading_score :: i32
  ss_level_id :: u32
  ss_busted :: bool
  ss_hands :: u16
  ss_hands_as_dealer :: u16
  ss_max_dealer_streak :: u16
  ss_net_points :: i32
  ss_wins :: u16
  ss_wins_tsumo :: u16
  ss_win_points :: i32
  ss_win_turns :: u32
  ss_deal_ins :: u16
  ss_deal_in_points :: i32
  ss_riichi :: u16
  ss_riichi_wins :: u16
  ss_riichi_deal_ins :: u16
  ss_riichi_turns :: u32
  ss_riichi_first :: u16
  ss_riichi_chasing :: u16
  ss_riichi_chased :: u16
  ss_riichi_net :: i32
  ss_called :: u16
  ss_called_wins :: u16
  ss_draws :: u16
  ss_draws_tenpai :: u16
  ss_riichi_ippatsu :: u16
  ss_riichi_ura_hits :: u16
  ss_yakuman :: u16
  ss_max_han :: u16

definition default_stats :: seat_stats where
  "default_stats =
     \<lparr>ss_seat = 0, ss_player = [], ss_placement = 0, ss_final_score = 0, ss_settled_point = 0,
      ss_grading_score = 0, ss_level_id = 0, ss_busted = False, ss_hands = 0, ss_hands_as_dealer = 0,
      ss_max_dealer_streak = 0, ss_net_points = 0, ss_wins = 0, ss_wins_tsumo = 0, ss_win_points = 0,
      ss_win_turns = 0, ss_deal_ins = 0, ss_deal_in_points = 0, ss_riichi = 0, ss_riichi_wins = 0,
      ss_riichi_deal_ins = 0, ss_riichi_turns = 0, ss_riichi_first = 0, ss_riichi_chasing = 0,
      ss_riichi_chased = 0, ss_riichi_net = 0, ss_called = 0, ss_called_wins = 0, ss_draws = 0,
      ss_draws_tenpai = 0, ss_riichi_ippatsu = 0, ss_riichi_ura_hits = 0, ss_yakuman = 0, ss_max_han = 0\<rparr>"

record game_stats =
  gs_seats :: u8
  gs_detailed :: bool
  gs_players :: "seat_stats list"

record hand =
  hd_dealer :: nat
  hd_kyotaku :: i32
  hd_turns :: "u16 list"
  hd_riichi_turn :: "u16 option list"
  hd_ippatsu :: "bool list"
  hd_called :: "bool list"
  hd_deltas :: "i32 list option"

definition new_hand :: "nat \<Rightarrow> hand" where
  "new_hand seats =
     \<lparr>hd_dealer = 0, hd_kyotaku = 0, hd_turns = replicate seats 0, hd_riichi_turn = replicate seats None,
      hd_ippatsu = replicate seats False, hd_called = replicate seats False, hd_deltas = None\<rparr>"

record replay_state =
  rs_players :: "seat_stats list"
  rs_hand :: hand
  rs_started :: bool
  rs_streak :: "u16 list"
  rs_last_scores :: "i32 list option"

section \<open>Reading an event\<close>

definition seat_of :: "json \<Rightarrow> string \<Rightarrow> nat \<Rightarrow> nat option" where
  "seat_of event fld seats =
     Option.bind (Option.bind (json_get fld event) as_u64) (\<lambda>seat. if seat < seats then Some seat else None)"

definition json_array :: "json option \<Rightarrow> json list" where
  "json_array v = (case Option.bind v as_array of Some xs \<Rightarrow> xs | None \<Rightarrow> [])"

text \<open>\<^verbatim>\<open>v.and_then(Value::as_i64).unwrap_or(0) as i32\<close>\<close>

definition i32_or_zero :: "json option \<Rightarrow> i32" where
  "i32_or_zero v = (case Option.bind v as_i64 of Some n \<Rightarrow> word_of_int n | None \<Rightarrow> 0)"

definition u64_or_zero :: "json option \<Rightarrow> nat" where
  "u64_or_zero v = (case Option.bind v as_u64 of Some n \<Rightarrow> n | None \<Rightarrow> 0)"

definition int_array :: "json option \<Rightarrow> i32 list option" where
  "int_array v = map_option (map (\<lambda>entry. i32_or_zero (Some entry))) (Option.bind v as_array)"

definition levels :: "json \<Rightarrow> u32 list" where
  "levels start =
     map (\<lambda>level. of_nat (u64_or_zero (Some level)))
       (json_array (Option.bind (json_get ''majsoul'' start) (json_get ''level_ids'')))"

text \<open>
  \<open>settlement_step\<close>: \<^verbatim>\<open>seat + 1\<close> is a machine word, so the largest seat resizes to nothing and
  the assignment is out of range. A vector of pairs of \<^verbatim>\<open>i32\<close> holds fewer than \<open>2 ^ 60\<close>
  entries; a larger request panics with a capacity overflow. That the allocator has the
  memory for a smaller one is assumed.
\<close>

definition resize :: "nat \<Rightarrow> 'a \<Rightarrow> 'a list \<Rightarrow> 'a list" where
  "resize n x xs = take n xs @ replicate (n - length xs) x"

definition settlement_step :: "(i32 \<times> i32) list \<Rightarrow> json \<Rightarrow> (i32 \<times> i32) list result" where
  "settlement_step out player =
     (let seat = u64_or_zero (json_get ''seat'' player);
          result = (i32_or_zero (json_get ''total_point'' player), i32_or_zero (json_get ''grading_score'' player))
      in if length out \<le> seat then
           (let wanted = (seat + 1) mod 2 ^ 64
            in if 2 ^ 60 \<le> wanted then Inl (Panicked ''capacity overflow'')
               else let out = resize wanted (0, 0) out
                    in if seat < length out then Inr (out[seat := result])
                       else Inl (Panicked ''index out of bounds''))
         else Inr (out[seat := result]))"

definition settlement :: "json \<Rightarrow> (i32 \<times> i32) list result" where
  "settlement end_game = try_fold settlement_step [] (json_array (json_get ''majsoul_result'' end_game))"

section \<open>Ippatsu and ura dora\<close>

definition yaku_ippatsu :: nat where
  "yaku_ippatsu = 30"

definition ippatsu :: "json \<Rightarrow> bool \<Rightarrow> bool" where
  "ippatsu hora reconstructed =
     (case Option.bind (json_get ''yaku_ids'' hora) as_array of
        Some ids \<Rightarrow> list_ex (\<lambda>i. as_u64 i = Some yaku_ippatsu) ids
      | None \<Rightarrow> reconstructed)"

definition normalise :: "string \<Rightarrow> string" where
  "normalise tile = rev (dropWhile (\<lambda>c. c = CHR ''r'') (rev tile))"

definition winds :: "string list" where "winds = [''E'', ''S'', ''W'', ''N'']"
definition dragons :: "string list" where "dragons = [''P'', ''F'', ''C'']"

fun position :: "'a \<Rightarrow> 'a list \<Rightarrow> nat option" where
  "position x [] = None"
| "position x (y # ys) = (if y = x then Some 0 else map_option Suc (position x ys))"

definition dora_from :: "string \<Rightarrow> string option result" where
  "dora_from marker =
     (case position marker winds of
        Some i \<Rightarrow> Inr (Some (winds ! ((i + 1) mod length winds)))
      | None \<Rightarrow> (case position marker dragons of
          Some i \<Rightarrow> Inr (Some (dragons ! ((i + 1) mod length dragons)))
        | None \<Rightarrow>
            let normalised = normalise marker
            in if 1 \<le> length normalised \<and> is_char_boundary normalised 1
               then Inr (map_option (\<lambda>n. show_nat (n mod 9 + 1) @ drop 1 normalised)
                      (parse_u32 (take 1 normalised)))
               else Inl (Panicked ''failed to slice string'')))"

text \<open>\<^verbatim>\<open>any\<close> over the lazily converted indicators: it stops at the first match.\<close>

fun any_dora :: "string list \<Rightarrow> string list \<Rightarrow> bool result" where
  "any_dora hand [] = Inr False"
| "any_dora hand (marker # markers) =
     attempt (dora_from marker) (\<lambda>dora.
       case dora of
         Some d \<Rightarrow> if list_ex (\<lambda>tile. normalise tile = d) hand then Inr True else any_dora hand markers
       | None \<Rightarrow> any_dora hand markers)"

definition ura_hit :: "json \<Rightarrow> bool result" where
  "ura_hit hora =
     any_dora (List.map_filter as_str (json_array (json_get ''hora_tehais'' hora) @
         (case json_get ''pai'' hora of Some v \<Rightarrow> [v] | None \<Rightarrow> [])))
       (List.map_filter as_str (json_array (json_get ''uradora_markers'' hora)))"

section \<open>One handler per event kind\<close>

abbreviation on_player :: "nat \<Rightarrow> (seat_stats \<Rightarrow> seat_stats) \<Rightarrow> replay_state \<Rightarrow> replay_state" where
  "on_player seat f st \<equiv> st\<lparr>rs_players := list_modify seat f (rs_players st)\<rparr>"

abbreviation on_hand :: "(hand \<Rightarrow> hand) \<Rightarrow> replay_state \<Rightarrow> replay_state" where
  "on_hand f st \<equiv> st\<lparr>rs_hand := f (rs_hand st)\<rparr>"

text \<open>\<^verbatim>\<open>if let Some(scores) = int_array(event.get("scores")) { last_scores = Some(scores) }\<close>\<close>

definition read_scores :: "json \<Rightarrow> replay_state \<Rightarrow> replay_state" where
  "read_scores event st =
     (case int_array (json_get ''scores'' event) of
        Some scores \<Rightarrow> st\<lparr>rs_last_scores := Some scores\<rparr>
      | None \<Rightarrow> st)"

text \<open>\<^verbatim>\<open>hand.deltas = int_array(event.get("deltas")).or(hand.deltas.take())\<close>\<close>

definition read_deltas :: "json \<Rightarrow> replay_state \<Rightarrow> replay_state" where
  "read_deltas event st =
     on_hand (\<lambda>h. h\<lparr>hd_deltas :=
       (case int_array (json_get ''deltas'' event) of Some ds \<Rightarrow> Some ds | None \<Rightarrow> hd_deltas h)\<rparr>) st"

definition count_hand :: "bool \<Rightarrow> u16 \<Rightarrow> seat_stats \<Rightarrow> seat_stats" where
  "count_hand dealing streak stats =
     (let stats = stats\<lparr>ss_hands := ss_hands stats + 1\<rparr>
      in if dealing
         then stats\<lparr>ss_hands_as_dealer := ss_hands_as_dealer stats + 1,
                    ss_max_dealer_streak := max (ss_max_dealer_streak stats) streak\<rparr>
         else stats)"

definition on_start_kyoku :: "nat \<Rightarrow> json \<Rightarrow> replay_state \<Rightarrow> replay_state" where
  "on_start_kyoku seats event st =
     (let dealer = u64_or_zero (json_get ''oya'' event);
          st = st\<lparr>rs_started := True,
                  rs_hand := (new_hand seats)\<lparr>hd_dealer := dealer, hd_kyotaku := i32_or_zero (json_get ''kyotaku'' event)\<rparr>\<rparr>;
          st = read_scores event st;
          streak = map_index (\<lambda>seat n. if seat = dealer then n + 1 else 0) (rs_streak st)
      in st\<lparr>rs_streak := streak,
            rs_players := map_index (\<lambda>seat stats. count_hand (seat = dealer) (streak ! seat) stats) (rs_players st)\<rparr>)"

definition on_tsumo :: "nat \<Rightarrow> json \<Rightarrow> replay_state \<Rightarrow> replay_state" where
  "on_tsumo seats event st =
     (case seat_of event ''actor'' seats of
        Some seat \<Rightarrow> on_hand (\<lambda>h. h\<lparr>hd_turns := list_modify seat (\<lambda>n. n + 1) (hd_turns h)\<rparr>) st
      | None \<Rightarrow> st)"

definition on_dahai :: "nat \<Rightarrow> json \<Rightarrow> replay_state \<Rightarrow> replay_state" where
  "on_dahai seats event st =
     (case seat_of event ''actor'' seats of
        Some seat \<Rightarrow>
          if hd_riichi_turn (rs_hand st) ! seat \<noteq> None
          then on_hand (\<lambda>h. h\<lparr>hd_ippatsu := (hd_ippatsu h)[seat := False]\<rparr>) st
          else st
      | None \<Rightarrow> st)"

definition declared_count :: "hand \<Rightarrow> nat" where
  "declared_count h = length (filter (\<lambda>at. at \<noteq> None) (hd_riichi_turn h))"

definition on_reach_accepted :: "nat \<Rightarrow> json \<Rightarrow> replay_state \<Rightarrow> replay_state" where
  "on_reach_accepted seats event st =
     (case seat_of event ''actor'' seats of
        None \<Rightarrow> st
      | Some seat \<Rightarrow>
          if hd_riichi_turn (rs_hand st) ! seat \<noteq> None then st
          else
            let earlier = declared_count (rs_hand st);
                turn = hd_turns (rs_hand st) ! seat;
                st = on_hand (\<lambda>h. h\<lparr>hd_riichi_turn := (hd_riichi_turn h)[seat := Some turn],
                                    hd_ippatsu := (hd_ippatsu h)[seat := True]\<rparr>) st;
                st = on_player seat (\<lambda>p. p\<lparr>ss_riichi := ss_riichi p + 1,
                       ss_riichi_turns := ss_riichi_turns p + ucast turn\<rparr>) st
            in if earlier = 0
               then on_player seat (\<lambda>p. p\<lparr>ss_riichi_first := ss_riichi_first p + 1\<rparr>) st
               else
                 let st = on_player seat (\<lambda>p. p\<lparr>ss_riichi_chasing := ss_riichi_chasing p + 1\<rparr>) st
                 in st\<lparr>rs_players := map_index (\<lambda>other p.
                      if other \<noteq> seat \<and> hd_riichi_turn (rs_hand st) ! other \<noteq> None
                      then p\<lparr>ss_riichi_chased := ss_riichi_chased p + 1\<rparr> else p) (rs_players st)\<rparr>)"

definition on_call :: "nat \<Rightarrow> json \<Rightarrow> replay_state \<Rightarrow> replay_state" where
  "on_call seats event st =
     (let st = (case seat_of event ''actor'' seats of
            Some seat \<Rightarrow> on_hand (\<lambda>h. h\<lparr>hd_called := (hd_called h)[seat := True]\<rparr>) st
          | None \<Rightarrow> st)
      in on_hand (\<lambda>h. h\<lparr>hd_ippatsu := map (\<lambda>_. False) (hd_ippatsu h)\<rparr>) st)"

text \<open>The arm for \<^verbatim>\<open>hora\<close>, in the order of its statements.\<close>

definition hora_win :: "hand \<Rightarrow> nat \<Rightarrow> nat \<Rightarrow> seat_stats \<Rightarrow> seat_stats" where
  "hora_win h actor target p =
     (let p = p\<lparr>ss_wins := ss_wins p + 1, ss_win_turns := ss_win_turns p + ucast (hd_turns h ! actor)\<rparr>;
          p = (if target = actor then p\<lparr>ss_wins_tsumo := ss_wins_tsumo p + 1\<rparr> else p)
      in if hd_called h ! actor then p\<lparr>ss_called_wins := ss_called_wins p + 1\<rparr> else p)"

definition hora_riichi :: "json \<Rightarrow> hand \<Rightarrow> nat \<Rightarrow> seat_stats \<Rightarrow> seat_stats result" where
  "hora_riichi event h actor p =
     (if hd_riichi_turn h ! actor = None then Inr p
      else
        let p = p\<lparr>ss_riichi_wins := ss_riichi_wins p + 1\<rparr>;
            p = (if ippatsu event (hd_ippatsu h ! actor) then p\<lparr>ss_riichi_ippatsu := ss_riichi_ippatsu p + 1\<rparr> else p)
        in if json_array (json_get ''uradora_markers'' event) = [] then Inr p
           else attempt (ura_hit event) (\<lambda>hit.
             Inr (if hit then p\<lparr>ss_riichi_ura_hits := ss_riichi_ura_hits p + 1\<rparr> else p)))"

definition hora_gain :: "hand \<Rightarrow> nat \<Rightarrow> seat_stats \<Rightarrow> seat_stats" where
  "hora_gain h actor p =
     (case Option.bind (hd_deltas h) (\<lambda>d. nth_opt d actor) of
        Some gain \<Rightarrow>
          (let sticks = hd_kyotaku h + of_nat (declared_count h)
           in p\<lparr>ss_win_points := ss_win_points p + (gain - 1000 * sticks)\<rparr>)
      | None \<Rightarrow> p)"

definition hora_loss :: "hand \<Rightarrow> nat \<Rightarrow> seat_stats \<Rightarrow> seat_stats" where
  "hora_loss h target p =
     (let p = p\<lparr>ss_deal_ins := ss_deal_ins p + 1\<rparr>;
          p = (if hd_riichi_turn h ! target \<noteq> None then p\<lparr>ss_riichi_deal_ins := ss_riichi_deal_ins p + 1\<rparr> else p)
      in case Option.bind (hd_deltas h) (\<lambda>d. nth_opt d target) of
           Some loss \<Rightarrow> p\<lparr>ss_deal_in_points := ss_deal_in_points p + (- loss)\<rparr>
         | None \<Rightarrow> p)"

definition hora_han :: "json \<Rightarrow> seat_stats \<Rightarrow> seat_stats" where
  "hora_han event p =
     (case Option.bind (json_get ''fan'' event) as_u64 of
        None \<Rightarrow> p
      | Some han \<Rightarrow>
          if Option.bind (json_get ''yakuman'' event) as_bool = Some True
          then p\<lparr>ss_yakuman := ss_yakuman p + 1\<rparr>
          else p\<lparr>ss_max_han := max (ss_max_han p) (of_nat (min han 65535))\<rparr>)"

definition on_hora :: "nat \<Rightarrow> json \<Rightarrow> replay_state \<Rightarrow> replay_state result" where
  "on_hora seats event st =
     (case seat_of event ''actor'' seats of
        None \<Rightarrow> Inr st
      | Some actor \<Rightarrow>
          let target = (case seat_of event ''target'' seats of Some t \<Rightarrow> t | None \<Rightarrow> actor);
              st = read_scores event (read_deltas event st);
              h = rs_hand st;
              players = list_modify actor (hora_win h actor target) (rs_players st)
          in attempt (hora_riichi event h actor (players ! actor)) (\<lambda>p.
               let players = players[actor := p];
                   players = list_modify actor (hora_gain h actor) players;
                   players = (if target \<noteq> actor then list_modify target (hora_loss h target) players else players);
                   players = list_modify actor (hora_han event) players
               in Inr (st\<lparr>rs_players := players\<rparr>)))"

definition on_ryukyoku :: "json \<Rightarrow> replay_state \<Rightarrow> replay_state" where
  "on_ryukyoku event st =
     (let st = read_scores event (read_deltas event st);
          tenpais = Option.bind (json_get ''tenpais'' event) as_array
      in st\<lparr>rs_players := map_index (\<lambda>seat p.
           let p = p\<lparr>ss_draws := ss_draws p + 1\<rparr>
           in if Option.bind (Option.bind tenpais (\<lambda>xs. nth_opt xs seat)) as_bool = Some True
              then p\<lparr>ss_draws_tenpai := ss_draws_tenpai p + 1\<rparr> else p) (rs_players st)\<rparr>)"

definition settle_hand :: "hand \<Rightarrow> i32 list \<Rightarrow> nat \<Rightarrow> seat_stats \<Rightarrow> seat_stats" where
  "settle_hand h deltas seat p =
     (let declared = hd_riichi_turn h ! seat \<noteq> None;
          movement = (case nth_opt deltas seat of Some d \<Rightarrow> d | None \<Rightarrow> 0) - (if declared then 1000 else 0);
          p = p\<lparr>ss_net_points := ss_net_points p + movement\<rparr>;
          p = (if declared then p\<lparr>ss_riichi_net := ss_riichi_net p + movement\<rparr> else p)
      in if hd_called h ! seat then p\<lparr>ss_called := ss_called p + 1\<rparr> else p)"

definition on_end_kyoku :: "replay_state \<Rightarrow> replay_state" where
  "on_end_kyoku st =
     (if \<not> rs_started st then st
      else
        let deltas = (case hd_deltas (rs_hand st) of Some ds \<Rightarrow> ds | None \<Rightarrow> []);
            st = on_hand (\<lambda>h. h\<lparr>hd_deltas := None\<rparr>) st
        in st\<lparr>rs_players := map_index (settle_hand (rs_hand st) deltas) (rs_players st)\<rparr>)"

definition on_end_game :: "nat \<Rightarrow> json \<Rightarrow> replay_state \<Rightarrow> replay_state result" where
  "on_end_game seats event st =
     (let st = (case int_array (json_get ''scores'' event) of
            Some scores \<Rightarrow> if length scores = seats then st\<lparr>rs_last_scores := Some scores\<rparr> else st
          | None \<Rightarrow> st)
      in attempt (settlement event) (\<lambda>results.
           Inr (st\<lparr>rs_players := map_index (\<lambda>seat p. case nth_opt results seat of
                Some (settled, grading) \<Rightarrow> p\<lparr>ss_settled_point := settled, ss_grading_score := grading\<rparr>
              | None \<Rightarrow> p) (rs_players st)\<rparr>)))"

text \<open>The arms of the \<^verbatim>\<open>match\<close> on the event's name; an event without a name is skipped.\<close>

datatype arm = Start_Kyoku | Tsumo | Dahai | Reach_Accepted | Call | Hora | Ryukyoku | End_Kyoku | End_Game | Ignored

definition arm_of :: "json \<Rightarrow> arm" where
  "arm_of event =
     (case kind event of
        None \<Rightarrow> Ignored
      | Some name \<Rightarrow>
          if name = ''start_kyoku'' then Start_Kyoku
          else if name = ''tsumo'' then Tsumo
          else if name = ''dahai'' then Dahai
          else if name = ''reach_accepted'' then Reach_Accepted
          else if name = ''pon'' \<or> name = ''chi'' \<or> name = ''daiminkan'' \<or> name = ''kakan'' \<or> name = ''ankan'' then Call
          else if name = ''hora'' then Hora
          else if name = ''ryukyoku'' then Ryukyoku
          else if name = ''end_kyoku'' then End_Kyoku
          else if name = ''end_game'' then End_Game
          else Ignored)"

definition replay_step :: "nat \<Rightarrow> replay_state \<Rightarrow> json \<Rightarrow> replay_state result" where
  "replay_step seats st event =
     (case arm_of event of
        Start_Kyoku \<Rightarrow> Inr (on_start_kyoku seats event st)
      | Tsumo \<Rightarrow> Inr (on_tsumo seats event st)
      | Dahai \<Rightarrow> Inr (on_dahai seats event st)
      | Reach_Accepted \<Rightarrow> Inr (on_reach_accepted seats event st)
      | Call \<Rightarrow> Inr (on_call seats event st)
      | Hora \<Rightarrow> on_hora seats event st
      | Ryukyoku \<Rightarrow> Inr (on_ryukyoku event st)
      | End_Kyoku \<Rightarrow> Inr (on_end_kyoku st)
      | End_Game \<Rightarrow> on_end_game seats event st
      | Ignored \<Rightarrow> Inr st)"

section \<open>The whole game\<close>

definition is_detailed :: "json \<Rightarrow> bool" where
  "is_detailed event =
     (if kind event = Some ''hora'' then json_get ''yaku_ids'' event \<noteq> None
      else if kind event = Some ''ryukyoku'' then json_get ''tenpais'' event \<noteq> None
      else if kind event = Some ''end_game'' then json_get ''majsoul_result'' event \<noteq> None
      else False)"

definition init_players :: "json \<Rightarrow> string list \<Rightarrow> seat_stats list" where
  "init_players start names =
     map_index (\<lambda>seat player.
       let p = default_stats\<lparr>ss_seat := of_nat seat, ss_player := player\<rparr>
       in case nth_opt (levels start) seat of Some level \<Rightarrow> p\<lparr>ss_level_id := level\<rparr> | None \<Rightarrow> p) names"

definition init_state :: "json \<Rightarrow> string list \<Rightarrow> replay_state" where
  "init_state start names =
     \<lparr>rs_players = init_players start names, rs_hand = new_hand (length names), rs_started = False,
      rs_streak = replicate (length names) 0, rs_last_scores = None\<rparr>"

definition finish_scores :: "i32 list option \<Rightarrow> seat_stats list \<Rightarrow> seat_stats list" where
  "finish_scores last_scores players =
     (let scores = (case last_scores of Some xs \<Rightarrow> xs | None \<Rightarrow> replicate (length players) 0)
      in map_index (\<lambda>seat p.
           let final = (case nth_opt scores seat of Some s \<Rightarrow> s | None \<Rightarrow> 0)
           in p\<lparr>ss_final_score := final, ss_busted := sint final < 0\<rparr>) players)"

text \<open>The sort key is the negated score as a machine integer, then the seat.\<close>

definition place_key :: "seat_stats list \<Rightarrow> nat \<Rightarrow> int \<times> nat" where
  "place_key players seat = (sint (- ss_final_score (players ! seat)), seat)"

definition place_order :: "seat_stats list \<Rightarrow> nat list" where
  "place_order players = sort_key (place_key players) [0..<length players]"

definition assign_places :: "seat_stats list \<Rightarrow> seat_stats list" where
  "assign_places players =
     fold (\<lambda>(rank, seat) ps. list_modify seat (\<lambda>p. p\<lparr>ss_placement := of_nat rank + 1\<rparr>) ps)
       (enumerate 0 (place_order players)) players"

definition replay :: "json list \<Rightarrow> game_stats option result" where
  "replay evs =
     (case find (\<lambda>event. kind event = Some ''start_game'') evs of
        None \<Rightarrow> Inr None
      | Some start \<Rightarrow>
          (case Option.bind (json_get ''names'' start) as_array of
             None \<Rightarrow> Inr None
           | Some list \<Rightarrow>
               let names = map (\<lambda>name. case as_str name of Some s \<Rightarrow> s | None \<Rightarrow> []) list;
                   seats = length names
               in if seats < 2 then Inr None
                  else attempt (try_fold (replay_step seats) (init_state start names) evs) (\<lambda>st.
                    if \<not> rs_started st then Inr None
                    else Inr (Some \<lparr>gs_seats = of_nat seats, gs_detailed = list_ex is_detailed evs,
                      gs_players = assign_places (finish_scores (rs_last_scores st) (rs_players st))\<rparr>))))"

end
