(* ===== verification/Replay_Correct.thy ===== *)
theory Replay_Correct
  imports Replay "HOL-Library.Multiset"
begin

text \<open>
  What the statistics mean: the state stays well-formed, the counters count the events they
  are named after, net points are settled once per hand, placements are a ranking, and which
  records make the function panic.
\<close>

section \<open>Well-formed states\<close>

definition hand_wf :: "nat \<Rightarrow> hand \<Rightarrow> bool" where
  "hand_wf n h \<longleftrightarrow> length (hd_turns h) = n \<and> length (hd_riichi_turn h) = n \<and>
     length (hd_ippatsu h) = n \<and> length (hd_called h) = n"

definition replay_wf :: "nat \<Rightarrow> replay_state \<Rightarrow> bool" where
  "replay_wf n st \<longleftrightarrow> length (rs_players st) = n \<and> length (rs_streak st) = n \<and> hand_wf n (rs_hand st)"

lemma read_scores_frame [simp]:
  "rs_players (read_scores e st) = rs_players st" "rs_hand (read_scores e st) = rs_hand st"
  "rs_streak (read_scores e st) = rs_streak st" "rs_started (read_scores e st) = rs_started st"
  by (simp_all add: read_scores_def split: option.splits)

lemma read_deltas_frame [simp]:
  "rs_players (read_deltas e st) = rs_players st" "rs_streak (read_deltas e st) = rs_streak st"
  "rs_started (read_deltas e st) = rs_started st"
  "hd_turns (rs_hand (read_deltas e st)) = hd_turns (rs_hand st)"
  "hd_riichi_turn (rs_hand (read_deltas e st)) = hd_riichi_turn (rs_hand st)"
  "hd_ippatsu (rs_hand (read_deltas e st)) = hd_ippatsu (rs_hand st)"
  "hd_called (rs_hand (read_deltas e st)) = hd_called (rs_hand st)"
  "hand_wf n (rs_hand (read_deltas e st)) = hand_wf n (rs_hand st)"
  by (simp_all add: read_deltas_def hand_wf_def)

lemma seat_of_less: "seat_of e k n = Some i \<Longrightarrow> i < n"
  by (auto simp: seat_of_def bind_eq_Some_conv split: if_splits)

lemma on_hora_obtain:
  assumes "on_hora n e st = Inr st'" and "seat_of e ''actor'' n = Some actor"
  obtains h p target where "h = rs_hand (read_deltas e st)"
    "target = (case seat_of e ''target'' n of Some t \<Rightarrow> t | None \<Rightarrow> actor)"
    "hora_riichi e h actor (list_modify actor (hora_win h actor target) (rs_players st) ! actor) = Inr p"
    "length (rs_players st') = length (rs_players st)"
    "\<And>i. i < length (rs_players st) \<Longrightarrow> rs_players st' ! i =
       (if i = actor then hora_han e (hora_gain h actor p)
        else if i = target then hora_loss h target (rs_players st ! i) else rs_players st ! i)"
    "rs_hand st' = h" "rs_streak st' = rs_streak st" "rs_started st' = rs_started st"
proof -
  define h where "h = rs_hand (read_deltas e st)"
  define target where "target = (case seat_of e ''target'' n of Some t \<Rightarrow> t | None \<Rightarrow> actor)"
  define players where "players = list_modify actor (hora_win h actor target) (rs_players st)"
  from assms have "attempt (hora_riichi e h actor (players ! actor)) (\<lambda>p.
       Inr ((read_scores e (read_deltas e st))\<lparr>rs_players := list_modify actor (hora_han e)
         (if target \<noteq> actor then list_modify target (hora_loss h target) (list_modify actor (hora_gain h actor) (players[actor := p]))
          else list_modify actor (hora_gain h actor) (players[actor := p]))\<rparr>)) = Inr st'"
    by (simp add: on_hora_def Let_def h_def target_def players_def cong: if_cong)
  then obtain p where p: "hora_riichi e h actor (players ! actor) = Inr p"
    and st': "(read_scores e (read_deltas e st))\<lparr>rs_players := list_modify actor (hora_han e)
         (if target \<noteq> actor then list_modify target (hora_loss h target) (list_modify actor (hora_gain h actor) (players[actor := p]))
          else list_modify actor (hora_gain h actor) (players[actor := p]))\<rparr> = st'"
    by (auto simp: attempt_Inr_iff simp del: if_split)
  show thesis
    by (rule that [OF h_def target_def p [unfolded players_def]])
       (simp_all add: st' [symmetric] nth_list_modify h_def players_def)
qed

lemma on_hora_no_actor: "seat_of e ''actor'' n = None \<Longrightarrow> on_hora n e st = Inr st"
  by (simp add: on_hora_def)

lemma arm_of_iff:
  "arm_of e = Start_Kyoku \<longleftrightarrow> kind e = Some ''start_kyoku''"
  "arm_of e = Hora \<longleftrightarrow> kind e = Some ''hora''"
  "arm_of e = Ryukyoku \<longleftrightarrow> kind e = Some ''ryukyoku''"
  "arm_of e = End_Kyoku \<longleftrightarrow> kind e = Some ''end_kyoku''"
  "arm_of e = Reach_Accepted \<longleftrightarrow> kind e = Some ''reach_accepted''"
  "arm_of e = End_Game \<longleftrightarrow> kind e = Some ''end_game''"
  by (auto simp: arm_of_def split: option.splits if_splits)

lemma replay_step_cases:
  assumes "replay_step n st e = Inr st'"
  obtains
    (start) "arm_of e = Start_Kyoku" "st' = on_start_kyoku n e st"
  | (tsumo) "arm_of e = Tsumo" "st' = on_tsumo n e st"
  | (dahai) "arm_of e = Dahai" "st' = on_dahai n e st"
  | (reach) "arm_of e = Reach_Accepted" "st' = on_reach_accepted n e st"
  | (call) "arm_of e = Call" "st' = on_call n e st"
  | (hora) actor where "arm_of e = Hora" "seat_of e ''actor'' n = Some actor" "on_hora n e st = Inr st'"
  | (skipped) "arm_of e = Hora" "seat_of e ''actor'' n = None" "st' = st"
  | (ryukyoku) "arm_of e = Ryukyoku" "st' = on_ryukyoku e st"
  | (end_kyoku) "arm_of e = End_Kyoku" "st' = on_end_kyoku st"
  | (end_game) "arm_of e = End_Game" "on_end_game n e st = Inr st'"
  | (other) "arm_of e = Ignored" "st' = st"
proof (cases "arm_of e")
  case Hora
  with assms that(6,7) show ?thesis
    by (cases "seat_of e ''actor'' n") (simp_all add: replay_step_def on_hora_no_actor)
qed (use assms that in \<open>simp_all add: replay_step_def\<close>)

lemma replay_step_wf [inv_intros]:
  assumes "replay_step n st e = Inr st'" and "replay_wf n st"
  shows "replay_wf n st'"
  using assms(1)
proof (cases rule: replay_step_cases)
  case (hora actor)
  with assms(2) show ?thesis
    by (rule_tac on_hora_obtain [OF hora(3,2)]) (simp add: replay_wf_def)
next
  case end_game
  with assms(2) show ?thesis
    by (auto simp: on_end_game_def replay_wf_def Let_def result_simps split: option.splits)
qed (use assms(2) in \<open>simp_all add: on_start_kyoku_def on_tsumo_def on_dahai_def on_reach_accepted_def
       on_call_def on_ryukyoku_def on_end_kyoku_def replay_wf_def hand_wf_def new_hand_def Let_def
       split: option.splits\<close>)

lemma init_state_wf [inv_intros]: "replay_wf (length names) (init_state start names)"
  by (simp add: replay_wf_def hand_wf_def init_state_def init_players_def new_hand_def)

section \<open>Counters\<close>

lemma replay_run_wf: "try_fold (replay_step n) st evs = Inr st' \<Longrightarrow> replay_wf n st \<Longrightarrow> replay_wf n st'"
  by (erule try_fold_invariant) (auto intro: inv_intros)

text \<open>
  The contract of a counter: a number read off a seat to which every event adds what it is
  worth to that seat. Every counter of the table is an instance, and the total over a game
  is proved once.
\<close>

locale seat_counter =
  fixes count :: "seat_stats \<Rightarrow> 'a::ab_group_add"
    and worth :: "nat \<Rightarrow> nat \<Rightarrow> json \<Rightarrow> 'a"
  assumes step: "replay_step n st e = Inr st' \<Longrightarrow> replay_wf n st \<Longrightarrow> i < n \<Longrightarrow>
    count (rs_players st' ! i) = count (rs_players st ! i) + worth n i e"
begin

lemma run_total:
  assumes "try_fold (replay_step n) st evs = Inr st'" and "replay_wf n st" and "i < n"
  shows "count (rs_players st' ! i) = count (rs_players st ! i) + (\<Sum>e\<leftarrow>evs. worth n i e)"
  using assms
proof (induction evs arbitrary: st)
  case (Cons e evs)
  from Cons.prems obtain st1 where st1: "replay_step n st e = Inr st1" "try_fold (replay_step n) st1 evs = Inr st'"
    by (auto simp: result_simps)
  from Cons.IH [OF st1(2) replay_step_wf [OF st1(1) Cons.prems(2)] Cons.prems(3)] step [OF st1(1) Cons.prems(2,3)]
  show ?case by (simp add: algebra_simps)
qed simp

lemma run_frame:
  assumes "try_fold (replay_step n) st evs = Inr st'" and "replay_wf n st" and "i < n"
    and "\<And>e. e \<in> set evs \<Longrightarrow> worth n i e = 0"
  shows "count (rs_players st' ! i) = count (rs_players st ! i)"
  using run_total [OF assms(1-3)] sum_list_map_zero [of evs "worth n i"] assms(4) by simp

end

text \<open>What a win leaves alone.\<close>

definition core_stats :: "seat_stats \<Rightarrow> u16 \<times> u16 \<times> u16 \<times> u16 \<times> u16 \<times> i32" where
  "core_stats p = (ss_hands p, ss_draws p, ss_riichi p, ss_riichi_first p, ss_riichi_chasing p, ss_net_points p)"

lemma hora_parts_core [simp]:
  "core_stats (hora_win h actor target p) = core_stats p" "core_stats (hora_gain h actor p) = core_stats p"
  "core_stats (hora_loss h target p) = core_stats p" "core_stats (hora_han e p) = core_stats p"
  by (simp_all add: core_stats_def hora_win_def hora_gain_def hora_loss_def hora_han_def Let_def split: option.splits)

lemma hora_riichi_core: "hora_riichi e h actor p = Inr p' \<Longrightarrow> core_stats p' = core_stats p"
  by (auto simp: hora_riichi_def core_stats_def Let_def result_simps split: if_splits)

lemma on_hora_core:
  assumes "on_hora n e st = Inr st'" and "seat_of e ''actor'' n = Some actor" and "replay_wf n st" and "i < n"
  shows "core_stats (rs_players st' ! i) = core_stats (rs_players st ! i)"
proof -
  have "actor < n" using assms(2) by (rule seat_of_less)
  then show ?thesis
    using assms(3,4)
    by (rule_tac on_hora_obtain [OF assms(1,2)])
       (auto simp: replay_wf_def nth_list_modify dest!: hora_riichi_core)
qed

text \<open>Who won, and who paid for it.\<close>

definition win_stats :: "seat_stats \<Rightarrow> u16 \<times> u16 \<times> u16" where
  "win_stats p = (ss_wins p, ss_wins_tsumo p, ss_deal_ins p)"

lemma hora_parts_win [simp]:
  "win_stats (hora_gain h actor p) = win_stats p" "win_stats (hora_han e p) = win_stats p"
  "win_stats (hora_win h actor target p) =
     (ss_wins p + 1, ss_wins_tsumo p + (if target = actor then 1 else 0), ss_deal_ins p)"
  "win_stats (hora_loss h target p) = (ss_wins p, ss_wins_tsumo p, ss_deal_ins p + 1)"
  by (simp_all add: win_stats_def hora_win_def hora_gain_def hora_loss_def hora_han_def Let_def split: option.splits)

lemma hora_riichi_win: "hora_riichi e h actor p = Inr p' \<Longrightarrow> win_stats p' = win_stats p"
  by (auto simp: hora_riichi_def win_stats_def Let_def result_simps split: if_splits)

text \<open>The winner and the payer a \<^verbatim>\<open>hora\<close> names; a payer out of range is the winner.\<close>

definition hora_pair :: "nat \<Rightarrow> json \<Rightarrow> (nat \<times> nat) option" where
  "hora_pair n e =
     (if kind e = Some ''hora'' then
        map_option (\<lambda>actor. (actor, case seat_of e ''target'' n of Some t \<Rightarrow> t | None \<Rightarrow> actor))
          (seat_of e ''actor'' n)
      else None)"

definition flag :: "bool \<Rightarrow> u16" where
  "flag b = (if b then 1 else 0)"

definition hora_worth :: "nat \<Rightarrow> nat \<Rightarrow> json \<Rightarrow> u16 \<times> u16 \<times> u16" where
  "hora_worth n i e =
     (case hora_pair n e of
        None \<Rightarrow> (0, 0, 0)
      | Some (actor, target) \<Rightarrow> (flag (i = actor), flag (i = actor \<and> i = target), flag (i = target \<and> i \<noteq> actor)))"

lemma on_hora_win:
  assumes "on_hora n e st = Inr st'" and "seat_of e ''actor'' n = Some actor" and "replay_wf n st" and "i < n"
    and "arm_of e = Hora"
  shows "win_stats (rs_players st' ! i) =
    (let (w, z, d) = win_stats (rs_players st ! i); (w', z', d') = hora_worth n i e in (w + w', z + z', d + d'))"
proof -
  have "actor < n" using assms(2) by (rule seat_of_less)
  then show ?thesis
    using assms(3,4,5)
    by (rule_tac on_hora_obtain [OF assms(1,2)])
       (auto simp: replay_wf_def nth_list_modify hora_worth_def hora_pair_def assms(2) flag_def arm_of_iff
          win_stats_def [of "rs_players st ! i"] dest!: hora_riichi_win)
qed

section \<open>Placement\<close>

text \<open>The rank a seat is given: the position of the seat in the sorted order.\<close>

lemma fold_places_length:
  "length (fold (\<lambda>(rank, seat) ps. list_modify seat (\<lambda>p. p\<lparr>ss_placement := of_nat rank + 1\<rparr>) ps) rs ps) = length ps"
  by (induction rs arbitrary: ps) auto

lemma fold_places_other:
  "i < length ps \<Longrightarrow> i \<notin> snd ` set rs \<Longrightarrow>
     fold (\<lambda>(rank, seat) ps. list_modify seat (\<lambda>p. p\<lparr>ss_placement := of_nat rank + 1\<rparr>) ps) rs ps ! i = ps ! i"
  by (induction rs arbitrary: ps) (auto simp: nth_list_modify)

lemma fold_places_nth:
  assumes "(rank, i) \<in> set rs" and "distinct (map snd rs)" and "i < length ps"
  shows "fold (\<lambda>(rank, seat) ps. list_modify seat (\<lambda>p. p\<lparr>ss_placement := of_nat rank + 1\<rparr>) ps) rs ps ! i =
     (ps ! i)\<lparr>ss_placement := of_nat rank + 1\<rparr>"
  using assms
proof (induction rs arbitrary: ps)
  case (Cons r rs)
  then show ?case
    by (cases r, cases "r = (rank, i)") (auto simp: fold_places_other nth_list_modify image_iff intro: rev_image_eqI)
qed simp

lemma length_assign_places [simp]: "length (assign_places ps) = length ps"
  by (simp add: assign_places_def fold_places_length)

text \<open>A strictly sorted list lists at position \<open>k\<close> the element that has \<open>k\<close> smaller ones.\<close>

lemma sort_key_position:
  fixes f :: "nat \<Rightarrow> 'b::linorder"
  assumes "inj f" and "k < n"
  shows "k = card {j. j < n \<and> f j < f (sort_key f [0..<n] ! k)}"
proof -
  let ?xs = "sort_key f [0..<n]"
  have dist: "distinct ?xs" and set: "set ?xs = {..<n}" and len: "length ?xs = n" by auto
  have "sorted_wrt (<) (map f ?xs)"
    using dist assms(1) by (simp add: strict_sorted_iff distinct_map inj_on_def inj_def)
  then have less: "f (?xs ! a) < f (?xs ! b) \<longleftrightarrow> a < b" if "a < n" "b < n" for a b
    using that len by (cases a b rule: linorder_cases) (auto simp: sorted_wrt_iff_nth_less dest: order_less_asym)
  have "{j. j < n \<and> f j < f (?xs ! k)} = (\<lambda>a. ?xs ! a) ` {..<k}"
  proof (intro set_eqI iffI)
    fix j assume "j \<in> {j. j < n \<and> f j < f (?xs ! k)}"
    then have j: "j \<in> set ?xs" "f j < f (?xs ! k)" using set by auto
    then obtain a where "a < n" "j = ?xs ! a" using len by (metis in_set_conv_nth)
    with j(2) less [of a k] assms(2) show "j \<in> (\<lambda>a. ?xs ! a) ` {..<k}" by auto
  next
    fix j assume "j \<in> (\<lambda>a. ?xs ! a) ` {..<k}"
    then obtain a where "a < k" "j = ?xs ! a" by auto
    with less [of a k] assms(2) set len show "j \<in> {j. j < n \<and> f j < f (?xs ! k)}"
      by (metis (mono_tags, lifting) lessThan_iff mem_Collect_eq nth_mem order_less_trans)
  qed
  moreover have "inj_on (\<lambda>a. ?xs ! a) {..<k}"
    using dist assms(2) by (auto simp: inj_on_def nth_eq_iff_index_eq)
  ultimately show ?thesis by (simp add: card_image)
qed

lemma inj_place_key: "inj (place_key ps)"
  by (auto simp: inj_def place_key_def)

lemma assign_places_nth:
  assumes "i < length ps"
  shows "assign_places ps ! i =
    (ps ! i)\<lparr>ss_placement := of_nat (card {j. j < length ps \<and> place_key ps j < place_key ps i}) + 1\<rparr>"
proof -
  have "i \<in> set (place_order ps)" using assms by (simp add: place_order_def)
  then obtain k where k: "k < length ps" "place_order ps ! k = i"
    by (metis in_set_conv_nth length_sort length_upt minus_nat.diff_0 place_order_def)
  have "(k, i) \<in> set (enumerate 0 (place_order ps))"
    using k by (auto simp: in_set_enumerate_eq place_order_def)
  then have "assign_places ps ! i = (ps ! i)\<lparr>ss_placement := of_nat k + 1\<rparr>"
    unfolding assign_places_def using assms
    by (intro fold_places_nth) (auto simp: place_order_def)
  moreover have "k = card {j. j < length ps \<and> place_key ps j < place_key ps i}"
    using sort_key_position [OF inj_place_key k(1), of ps] k(2) by (simp add: place_order_def)
  ultimately show ?thesis by simp
qed

lemma assign_places_frame:
  assumes "i < length ps"
  shows "core_stats (assign_places ps ! i) = core_stats (ps ! i)"
    "win_stats (assign_places ps ! i) = win_stats (ps ! i)"
    "ss_final_score (assign_places ps ! i) = ss_final_score (ps ! i)"
  by (simp_all add: assign_places_nth [OF assms] core_stats_def win_stats_def)

lemma length_finish_scores [simp]: "length (finish_scores ls ps) = length ps"
  by (simp add: finish_scores_def Let_def)

lemma finish_scores_frame:
  assumes "i < length ps"
  shows "core_stats (finish_scores ls ps ! i) = core_stats (ps ! i)"
    "win_stats (finish_scores ls ps ! i) = win_stats (ps ! i)"
  using assms by (simp_all add: finish_scores_def core_stats_def win_stats_def Let_def)

section \<open>The whole game\<close>

lemma replay_obtain:
  assumes "replay evs = Inr (Some g)"
  obtains start names st where
    "find (\<lambda>e. kind e = Some ''start_game'') evs = Some start"
    "try_fold (replay_step (length names)) (init_state start names) evs = Inr st"
    "2 \<le> length names" "rs_started st" "replay_wf (length names) st"
    "gs_detailed g = list_ex is_detailed evs"
    "gs_players g = assign_places (finish_scores (rs_last_scores st) (rs_players st))"
    "length (gs_players g) = length names"
proof -
  from assms obtain start where start: "find (\<lambda>e. kind e = Some ''start_game'') evs = Some start"
    by (cases "find (\<lambda>e. kind e = Some ''start_game'') evs") (simp_all add: replay_def)
  from assms obtain vs where vs: "Option.bind (json_get ''names'' start) as_array = Some vs"
    by (cases "Option.bind (json_get ''names'' start) as_array") (simp_all add: replay_def start)
  define names where "names = map (\<lambda>name. case as_str name of Some s \<Rightarrow> s | None \<Rightarrow> []) vs"
  have two: "2 \<le> length names"
    using assms by (cases "length vs < 2") (simp_all add: replay_def start vs names_def)
  then have "attempt (try_fold (replay_step (length names)) (init_state start names) evs) (\<lambda>st.
      if \<not> rs_started st then Inr None
      else Inr (Some \<lparr>gs_seats = of_nat (length names), gs_detailed = list_ex is_detailed evs,
        gs_players = assign_places (finish_scores (rs_last_scores st) (rs_players st))\<rparr>)) = Inr (Some g)"
    using assms by (simp add: replay_def start vs names_def Let_def cong: if_cong)
  then obtain st where run: "try_fold (replay_step (length names)) (init_state start names) evs = Inr st"
    and st: "rs_started st" "gs_detailed g = list_ex is_detailed evs"
      "gs_players g = assign_places (finish_scores (rs_last_scores st) (rs_players st))"
    by (auto simp: attempt_Inr_iff split: if_splits)
  have wf: "replay_wf (length names) st" using run init_state_wf by (rule replay_run_wf)
  then have "length (gs_players g) = length names" by (simp add: st(3) replay_wf_def)
  with start run two st wf show thesis by (intro that [of start names st])
qed

lemma init_players_nth:
  assumes "i < length names"
  shows "core_stats (rs_players (init_state start names) ! i) = (0, 0, 0, 0, 0, 0)"
    "win_stats (rs_players (init_state start names) ! i) = (0, 0, 0)"
  using assms
  by (simp_all add: init_state_def init_players_def Let_def core_stats_def win_stats_def default_stats_def
      split: option.splits)

section \<open>One event at a time\<close>

text \<open>What the events other than a win do to the counters of a seat.\<close>

lemma count_hand_sel [simp]:
  "ss_hands (count_hand d s p) = ss_hands p + 1" "ss_draws (count_hand d s p) = ss_draws p"
  "ss_riichi (count_hand d s p) = ss_riichi p" "ss_riichi_first (count_hand d s p) = ss_riichi_first p"
  "ss_riichi_chasing (count_hand d s p) = ss_riichi_chasing p" "ss_net_points (count_hand d s p) = ss_net_points p"
  "ss_wins (count_hand d s p) = ss_wins p" "ss_wins_tsumo (count_hand d s p) = ss_wins_tsumo p"
  "ss_deal_ins (count_hand d s p) = ss_deal_ins p"
  by (simp_all add: count_hand_def Let_def)

lemma settle_hand_sel [simp]:
  "ss_hands (settle_hand h ds i p) = ss_hands p" "ss_draws (settle_hand h ds i p) = ss_draws p"
  "ss_riichi (settle_hand h ds i p) = ss_riichi p" "ss_riichi_first (settle_hand h ds i p) = ss_riichi_first p"
  "ss_riichi_chasing (settle_hand h ds i p) = ss_riichi_chasing p"
  "ss_wins (settle_hand h ds i p) = ss_wins p" "ss_wins_tsumo (settle_hand h ds i p) = ss_wins_tsumo p"
  "ss_deal_ins (settle_hand h ds i p) = ss_deal_ins p"
  "ss_net_points (settle_hand h ds i p) = ss_net_points p +
     ((case nth_opt ds i of Some d \<Rightarrow> d | None \<Rightarrow> 0) - (if hd_riichi_turn h ! i \<noteq> None then 1000 else 0))"
  by (simp_all add: settle_hand_def Let_def)

lemma end_game_parts:
  assumes "on_end_game n e st = Inr st'" and "i < length (rs_players st)"
  shows "core_stats (rs_players st' ! i) = core_stats (rs_players st ! i)"
    "win_stats (rs_players st' ! i) = win_stats (rs_players st ! i)"
    "rs_hand st' = rs_hand st" "rs_started st' = rs_started st"
  using assms
  by (auto simp: on_end_game_def Let_def result_simps core_stats_def win_stats_def split: option.splits if_splits)

lemmas plain_handler_defs =
  on_start_kyoku_def on_tsumo_def on_dahai_def on_reach_accepted_def on_call_def on_ryukyoku_def on_end_kyoku_def

lemma step_win_stats:
  assumes "replay_step n st e = Inr st'" and "replay_wf n st" and "i < n"
  shows "win_stats (rs_players st' ! i) =
    (let (w, z, d) = win_stats (rs_players st ! i); (w', z', d') = hora_worth n i e in (w + w', z + z', d + d'))"
proof (cases "arm_of e = Hora")
  case True
  from assms(1) show ?thesis
  proof (cases rule: replay_step_cases)
    case (hora actor)
    then show ?thesis using on_hora_win assms(2,3) by blast
  next
    case skipped
    then show ?thesis by (simp add: hora_worth_def hora_pair_def Let_def case_prod_beta)
  qed (use True in simp_all)
next
  case False
  then have zero: "hora_worth n i e = (0, 0, 0)" by (simp add: hora_worth_def hora_pair_def arm_of_iff)
  have "win_stats (rs_players st' ! i) = win_stats (rs_players st ! i)"
    using assms(1)
  proof (cases rule: replay_step_cases)
    case end_game
    then show ?thesis using end_game_parts assms(2,3) by (simp add: replay_wf_def)
  qed (use False assms(2,3) in \<open>simp_all add: plain_handler_defs replay_wf_def Let_def win_stats_def nth_list_modify
      split: option.splits\<close>)
  with zero show ?thesis by (simp add: Let_def case_prod_beta)
qed

lemma step_counts:
  assumes "replay_step n st e = Inr st'" and "replay_wf n st" and "i < n"
  shows "ss_hands (rs_players st' ! i) = ss_hands (rs_players st ! i) + flag (kind e = Some ''start_kyoku'') \<and>
    ss_draws (rs_players st' ! i) = ss_draws (rs_players st ! i) + flag (kind e = Some ''ryukyoku'') \<and>
    ss_riichi (rs_players st' ! i) - (ss_riichi_first (rs_players st' ! i) + ss_riichi_chasing (rs_players st' ! i)) =
    ss_riichi (rs_players st ! i) - (ss_riichi_first (rs_players st ! i) + ss_riichi_chasing (rs_players st ! i))"
  using assms(1)
proof (cases rule: replay_step_cases)
  case (hora actor)
  then show ?thesis using on_hora_core [OF hora(3,2) assms(2,3)] by (simp add: core_stats_def flag_def arm_of_iff [symmetric])
next
  case end_game
  with assms(2,3) end_game_parts(1) [OF end_game(2), of i] show ?thesis
    by (simp add: core_stats_def flag_def arm_of_iff [symmetric] replay_wf_def)
qed (use assms(2,3) in \<open>simp_all add: plain_handler_defs replay_wf_def Let_def nth_list_modify flag_def arm_of_iff [symmetric]
      split: option.splits\<close>)

lemma sum_flag: "(\<Sum>e\<leftarrow>evs. flag (P e)) = of_nat (length (filter P evs))"
  by (induction evs) (simp_all add: flag_def)

interpretation hands: seat_counter ss_hands "\<lambda>n i e. flag (kind e = Some ''start_kyoku'')"
  by unfold_locales (use step_counts in blast)

interpretation draws: seat_counter ss_draws "\<lambda>n i e. flag (kind e = Some ''ryukyoku'')"
  by unfold_locales (use step_counts in blast)

interpretation undecided_riichi: seat_counter
  "\<lambda>p. ss_riichi p - (ss_riichi_first p + ss_riichi_chasing p)" "\<lambda>n i e. 0"
  by unfold_locales (use step_counts in \<open>unfold add_0_right, blast\<close>)

interpretation wins: seat_counter ss_wins "\<lambda>n i e. flag (\<exists>t. hora_pair n e = Some (i, t))"
  by unfold_locales
     (use step_win_stats in \<open>fastforce simp: win_stats_def hora_worth_def flag_def Let_def split: option.splits\<close>)

interpretation self_draws: seat_counter ss_wins_tsumo "\<lambda>n i e. flag (hora_pair n e = Some (i, i))"
  by unfold_locales
     (use step_win_stats in \<open>fastforce simp: win_stats_def hora_worth_def flag_def Let_def split: option.splits\<close>)

interpretation deal_ins: seat_counter ss_deal_ins "\<lambda>n i e. flag (\<exists>a. hora_pair n e = Some (a, i) \<and> a \<noteq> i)"
  by unfold_locales
     (use step_win_stats in \<open>fastforce simp: win_stats_def hora_worth_def flag_def Let_def split: option.splits\<close>)

section \<open>Points\<close>

text \<open>
  What a seat's score moved by, hand by hand: the last settlement reported before the hand
  ended, once however many wins reported it, less the stick of a declaration.
\<close>

definition reported :: "json \<Rightarrow> i32 list option \<Rightarrow> i32 list option" where
  "reported e d = (case int_array (json_get ''deltas'' e) of Some ds \<Rightarrow> Some ds | None \<Rightarrow> d)"

definition entry_of :: "i32 list option \<Rightarrow> nat \<Rightarrow> i32" where
  "entry_of d i = (case d of Some ds \<Rightarrow> (if i < length ds then ds ! i else 0) | None \<Rightarrow> 0)"

fun moved :: "nat \<Rightarrow> nat \<Rightarrow> bool \<Rightarrow> i32 list option \<Rightarrow> bool \<Rightarrow> json list \<Rightarrow> i32" where
  "moved n i started d declared [] = 0"
| "moved n i started d declared (e # es) =
     (case arm_of e of
        Start_Kyoku \<Rightarrow> moved n i True None False es
      | Reach_Accepted \<Rightarrow> moved n i started d (declared \<or> seat_of e ''actor'' n = Some i) es
      | Hora \<Rightarrow> moved n i started (if seat_of e ''actor'' n = None then d else reported e d) declared es
      | Ryukyoku \<Rightarrow> moved n i started (reported e d) declared es
      | End_Kyoku \<Rightarrow>
          if started then entry_of d i - (if declared then 1000 else 0) + moved n i True None declared es
          else moved n i False d declared es
      | _ \<Rightarrow> moved n i started d declared es)"

abbreviation moved_from :: "nat \<Rightarrow> nat \<Rightarrow> replay_state \<Rightarrow> json list \<Rightarrow> i32" where
  "moved_from n i st \<equiv> moved n i (rs_started st) (hd_deltas (rs_hand st)) (hd_riichi_turn (rs_hand st) ! i \<noteq> None)"

lemma read_deltas_reported: "hd_deltas (rs_hand (read_deltas e st)) = reported e (hd_deltas (rs_hand st))"
  by (simp add: read_deltas_def reported_def)

lemma on_hora_frame:
  assumes "on_hora n e st = Inr st'" and "seat_of e ''actor'' n = Some actor"
  shows "rs_hand st' = rs_hand (read_deltas e st)" "rs_started st' = rs_started st"
  by (rule on_hora_obtain [OF assms], simp)+

lemma entry_of_nth: "(case nth_opt (case d of Some ds \<Rightarrow> ds | None \<Rightarrow> []) i of Some x \<Rightarrow> x | None \<Rightarrow> 0) = entry_of d i"
  by (simp add: entry_of_def nth_opt_def split: option.splits)

lemma end_kyoku_moved:
  assumes "replay_wf n st" and "i < n" and "arm_of e = End_Kyoku"
  shows "ss_net_points (rs_players (on_end_kyoku st) ! i) + moved_from n i (on_end_kyoku st) es =
    ss_net_points (rs_players st ! i) + moved_from n i st (e # es)"
  using assms by (simp add: on_end_kyoku_def replay_wf_def Let_def entry_of_nth algebra_simps)

lemma step_moved:
  assumes "replay_step n st e = Inr st'" and "replay_wf n st" and "i < n"
  shows "ss_net_points (rs_players st' ! i) + moved_from n i st' es =
    ss_net_points (rs_players st ! i) + moved_from n i st (e # es)"
  using assms(1)
proof (cases rule: replay_step_cases)
  case (hora actor)
  then show ?thesis
    using on_hora_core [OF hora(3,2) assms(2,3)] on_hora_frame [OF hora(3,2)]
    by (simp add: core_stats_def read_deltas_reported)
next
  case end_game
  with assms(2,3) end_game_parts [OF end_game(2), of i] show ?thesis
    by (simp add: core_stats_def replay_wf_def)
next
  case end_kyoku
  then show ?thesis using end_kyoku_moved [OF assms(2,3) end_kyoku(1)] by simp
next
  case start
  then show ?thesis using assms(2,3)
    by (simp add: on_start_kyoku_def replay_wf_def Let_def new_hand_def)
next
  case reach
  then show ?thesis using assms(2,3)
    by (auto simp: on_reach_accepted_def replay_wf_def hand_wf_def Let_def nth_list_modify nth_list_update
        split: option.splits)
next
  case ryukyoku
  then show ?thesis using assms(2,3)
    by (simp add: on_ryukyoku_def replay_wf_def Let_def read_deltas_reported)
qed (use assms(2,3) in \<open>simp_all add: on_tsumo_def on_dahai_def on_call_def replay_wf_def Let_def split: option.splits\<close>)

lemma run_moved:
  "try_fold (replay_step n) st evs = Inr st' \<Longrightarrow> replay_wf n st \<Longrightarrow> i < n \<Longrightarrow>
     ss_net_points (rs_players st' ! i) = ss_net_points (rs_players st ! i) + moved_from n i st evs"
proof (induction evs arbitrary: st)
  case (Cons e evs)
  from Cons.prems(1) obtain st1 where st1: "replay_step n st e = Inr st1" "try_fold (replay_step n) st1 evs = Inr st'"
    by (auto simp: result_simps)
  from Cons.IH [OF st1(2) replay_step_wf [OF st1(1) Cons.prems(2)] Cons.prems(3)]
    step_moved [OF st1(1) Cons.prems(2,3), of evs]
  show ?case by simp
qed simp

section \<open>Indicators\<close>

lemma position_Some: "position x xs = Some k \<Longrightarrow> x \<in> set xs"
  by (induction xs arbitrary: k) (auto split: if_splits)

lemma honor_normalise:
  assumes "w \<in> set winds \<or> w \<in> set dragons"
  shows "normalise w \<noteq> [] \<and> is_char_boundary (normalise w) 1"
proof -
  have "list_all (\<lambda>w. normalise w \<noteq> [] \<and> is_char_boundary (normalise w) 1) (winds @ dragons)"
    by (simp add: winds_def dragons_def normalise_def is_char_boundary_def)
  with assms show ?thesis by (auto simp: list_all_iff)
qed

lemma dora_from_panic_iff:
  "(\<exists>m. dora_from marker = Inl (Panicked m)) \<longleftrightarrow>
     normalise marker = [] \<or> \<not> is_char_boundary (normalise marker) 1"
proof (cases "position marker winds = None \<and> position marker dragons = None")
  case True
  then show ?thesis by (auto simp: dora_from_def Let_def Suc_le_eq)
next
  case False
  then have "marker \<in> set winds \<or> marker \<in> set dragons" by (auto dest: position_Some)
  then have "normalise marker \<noteq> [] \<and> is_char_boundary (normalise marker) 1" by (rule honor_normalise)
  with False show ?thesis by (auto simp: dora_from_def split: option.splits)
qed

definition plain_tiles :: "string list" where
  "plain_tiles = concat (map (\<lambda>suit. map (\<lambda>n. [n, suit]) ''123456789'') ''mps'') @ winds @ dragons"

text \<open>The tile after an indicator, as the rules of the game give it.\<close>

definition next_tiles :: "string list" where
  "next_tiles = concat (map (\<lambda>suit. map (\<lambda>n. [n, suit]) ''234567891'') ''mps'') @
     [''S'', ''W'', ''N'', ''E''] @ [''F'', ''C'', ''P'']"

lemma show_nat_digit: "n < 10 \<Longrightarrow> show_nat n = [char_of (n + 48)]"
  by (simp add: show_nat.simps)

lemma dora_from_table: "map dora_from plain_tiles = map (\<lambda>t. Inr (Some t)) next_tiles"
  by (simp add: plain_tiles_def next_tiles_def dora_from_def winds_def dragons_def normalise_def Let_def
      is_char_boundary_def is_continuation_def byte_of_char_def parse_u32_def parse_nat_def digit_of_def show_nat_digit
      char_of_def bit_0)

section \<open>When a record can be scored\<close>

lemma any_dora_total:
  assumes "\<And>m. m \<in> set markers \<Longrightarrow> \<exists>d. dora_from m = Inr d"
  shows "\<exists>b. any_dora hand markers = Inr b"
  using assms
proof (induction markers)
  case (Cons m markers)
  then obtain d where "dora_from m = Inr d" by auto
  with Cons show ?case by (auto split: option.splits)
next
  case Nil
  show ?case by (simp only: any_dora.simps) blast
qed

definition markers_ok :: "json \<Rightarrow> bool" where
  "markers_ok e \<longleftrightarrow>
     list_all (\<lambda>m. normalise m \<noteq> [] \<and> is_char_boundary (normalise m) 1)
       (List.map_filter as_str (json_array (json_get ''uradora_markers'' e)))"

definition results_ok :: "json \<Rightarrow> bool" where
  "results_ok e \<longleftrightarrow>
     list_all (\<lambda>p. u64_or_zero (json_get ''seat'' p) < 2 ^ 60 - 1) (json_array (json_get ''majsoul_result'' e))"

lemma dora_from_ok:
  "normalise m \<noteq> [] \<and> is_char_boundary (normalise m) 1 \<Longrightarrow> \<exists>d. dora_from m = Inr d"
  using dora_from_panic_iff [of m]
  by (cases "dora_from m") (auto simp: dora_from_def Let_def split: option.splits if_splits)

lemma ura_hit_total: "markers_ok e \<Longrightarrow> \<exists>b. ura_hit e = Inr b"
  unfolding ura_hit_def by (rule any_dora_total) (auto simp: markers_ok_def list_all_iff intro: dora_from_ok)

lemma settlement_step_total:
  assumes "u64_or_zero (json_get ''seat'' p) < 2 ^ 60 - 1"
  shows "\<exists>out'. settlement_step out p = Inr out'"
  using assms by (simp add: settlement_step_def Let_def resize_def)

lemma settlement_total: "results_ok e \<Longrightarrow> \<exists>out. settlement e = Inr out"
proof -
  have "\<exists>out. try_fold settlement_step acc ps = Inr out"
    if "list_all (\<lambda>p. u64_or_zero (json_get ''seat'' p) < 2 ^ 60 - 1) ps" for acc ps
    using that
  proof (induction ps arbitrary: acc)
    case (Cons p ps)
    then obtain acc' where "settlement_step acc p = Inr acc'"
      using settlement_step_total [of p acc] by auto
    with Cons show ?case by auto
  qed simp
  then show "results_ok e \<Longrightarrow> \<exists>out. settlement e = Inr out"
    by (simp add: settlement_def results_ok_def)
qed

lemma hora_riichi_total: "markers_ok e \<Longrightarrow> \<exists>p'. hora_riichi e h actor p = Inr p'"
  using ura_hit_total [of e] by (auto simp: hora_riichi_def Let_def)

lemma on_hora_total:
  assumes "markers_ok e" shows "\<exists>st'. on_hora n e st = Inr st'"
proof (cases "seat_of e ''actor'' n")
  case (Some actor)
  define h where "h = rs_hand (read_deltas e st)"
  define target where "target = (case seat_of e ''target'' n of Some t \<Rightarrow> t | None \<Rightarrow> actor)"
  obtain p where "hora_riichi e h actor (list_modify actor (hora_win h actor target) (rs_players st) ! actor) = Inr p"
    using hora_riichi_total [OF assms] by blast
  with Some show ?thesis by (simp add: on_hora_def Let_def h_def target_def)
qed (simp add: on_hora_def)

lemma replay_step_total:
  assumes "arm_of e = Hora \<Longrightarrow> markers_ok e" and "arm_of e = End_Game \<Longrightarrow> results_ok e"
  shows "\<exists>st'. replay_step n st e = Inr st'"
proof (cases "arm_of e")
  case Hora
  with assms(1) show ?thesis by (simp add: replay_step_def on_hora_total)
next
  case End_Game
  with assms(2) obtain out where "settlement e = Inr out" using settlement_total by blast
  with End_Game show ?thesis by (simp add: replay_step_def on_end_game_def Let_def)
qed (simp_all add: replay_step_def)

definition scoreable :: "json \<Rightarrow> bool" where
  "scoreable e \<longleftrightarrow> (kind e = Some ''hora'' \<longrightarrow> markers_ok e) \<and> (kind e = Some ''end_game'' \<longrightarrow> results_ok e)"

lemma replay_run_total: "\<forall>e \<in> set evs. scoreable e \<Longrightarrow> \<exists>st'. try_fold (replay_step n) st evs = Inr st'"
proof (induction evs arbitrary: st)
  case (Cons e evs)
  then obtain st1 where "replay_step n st e = Inr st1"
    using replay_step_total [of e n st] by (auto simp: scoreable_def arm_of_iff)
  with Cons show ?case by auto
qed simp

lemma step_started:
  assumes "replay_step n st e = Inr st'"
  shows "rs_started st' \<longleftrightarrow> rs_started st \<or> kind e = Some ''start_kyoku''"
  using assms
proof (cases rule: replay_step_cases)
  case (hora actor)
  then show ?thesis using on_hora_frame [OF hora(3,2)] by (simp add: arm_of_iff [symmetric])
next
  case end_game
  then show ?thesis
    by (auto simp: on_end_game_def Let_def result_simps arm_of_iff [symmetric] split: option.splits if_splits)
qed (simp_all add: plain_handler_defs Let_def arm_of_iff [symmetric] split: option.splits)

lemma run_started:
  "try_fold (replay_step n) st evs = Inr st' \<Longrightarrow>
     rs_started st' \<longleftrightarrow> rs_started st \<or> (\<exists>e \<in> set evs. kind e = Some ''start_kyoku'')"
proof (induction evs arbitrary: st)
  case (Cons e evs)
  then obtain st1 where "replay_step n st e = Inr st1" "try_fold (replay_step n) st1 evs = Inr st'"
    by (auto simp: result_simps)
  with Cons.IH [of st1] step_started show ?case by auto
qed simp

lemma replay_scores:
  assumes "find (\<lambda>e. kind e = Some ''start_game'') evs = Some start"
    and "Option.bind (json_get ''names'' start) as_array = Some vs" and "2 \<le> length vs"
    and "\<exists>e \<in> set evs. kind e = Some ''start_kyoku''" and "\<forall>e \<in> set evs. scoreable e"
  shows "\<exists>g. replay evs = Inr (Some g) \<and> gs_detailed g = list_ex is_detailed evs \<and> length (gs_players g) = length vs"
proof -
  define names where "names = map (\<lambda>name. case as_str name of Some s \<Rightarrow> s | None \<Rightarrow> []) vs"
  obtain st where run: "try_fold (replay_step (length vs)) (init_state start names) evs = Inr st"
    using replay_run_total [OF assms(5)] by blast
  have "length (rs_players st) = length vs"
    using replay_run_wf [OF run] init_state_wf [of names start] by (simp add: names_def replay_wf_def)
  moreover have "rs_started st" using run_started [OF run] assms(4) by simp
  ultimately show ?thesis
    using assms(1-3) run by (simp add: replay_def names_def Let_def)
qed

lemma replay_counters:
  assumes "replay evs = Inr (Some g)" and "i < length (gs_players g)"
  shows "ss_hands (gs_players g ! i) = of_nat (length (filter (\<lambda>e. kind e = Some ''start_kyoku'') evs)) \<and>
     ss_draws (gs_players g ! i) = of_nat (length (filter (\<lambda>e. kind e = Some ''ryukyoku'') evs)) \<and>
     ss_wins (gs_players g ! i) =
       of_nat (length (filter (\<lambda>e. \<exists>t. hora_pair (length (gs_players g)) e = Some (i, t)) evs)) \<and>
     ss_wins_tsumo (gs_players g ! i) =
       of_nat (length (filter (\<lambda>e. hora_pair (length (gs_players g)) e = Some (i, i)) evs)) \<and>
     ss_deal_ins (gs_players g ! i) =
       of_nat (length (filter (\<lambda>e. \<exists>a. hora_pair (length (gs_players g)) e = Some (a, i) \<and> a \<noteq> i) evs)) \<and>
     ss_riichi (gs_players g ! i) = ss_riichi_first (gs_players g ! i) + ss_riichi_chasing (gs_players g ! i)"
proof -
  from assms(1) obtain start names st where
    run: "try_fold (replay_step (length names)) (init_state start names) evs = Inr st"
    and wf: "replay_wf (length names) st"
    and g: "gs_players g = assign_places (finish_scores (rs_last_scores st) (rs_players st))"
    and len: "length (gs_players g) = length names"
    by (rule replay_obtain)
  have i: "i < length names" "i < length (rs_players st)" using assms(2) len wf by (simp_all add: replay_wf_def)
  note zero = init_players_nth [OF i(1), of start]
  note totals = hands.run_total [OF run init_state_wf i(1)] draws.run_total [OF run init_state_wf i(1)]
    wins.run_total [OF run init_state_wf i(1)] self_draws.run_total [OF run init_state_wf i(1)]
    deal_ins.run_total [OF run init_state_wf i(1)] undecided_riichi.run_frame [OF run init_state_wf i(1)]
  show ?thesis
    using totals zero assign_places_frame [of i "finish_scores (rs_last_scores st) (rs_players st)"]
      finish_scores_frame [OF i(2), of "rs_last_scores st"] i(2)
    unfolding len unfolding g by (simp add: core_stats_def win_stats_def sum_flag)
qed

section \<open>Properties\<close>

text \<open>Claim C21: the counters of a scored game are exactly what the stream says, seat by seat and
  modulo their width: every seat plays every hand and every draw, a win is counted for its
  winner, as a self-draw when nobody else is charged, and as a deal-in for the seat that is;
  every declaration is either the first of its hand or a chasing one.\<close>

theorem replay_counts:
  assumes "replay evs = Inr (Some g)" and "i < length (gs_players g)"
  shows "ss_hands (gs_players g ! i) = of_nat (length (filter (\<lambda>e. kind e = Some ''start_kyoku'') evs)) \<and>
     ss_draws (gs_players g ! i) = of_nat (length (filter (\<lambda>e. kind e = Some ''ryukyoku'') evs)) \<and>
     ss_wins (gs_players g ! i) =
       of_nat (length (filter (\<lambda>e. \<exists>t. hora_pair (length (gs_players g)) e = Some (i, t)) evs)) \<and>
     ss_wins_tsumo (gs_players g ! i) =
       of_nat (length (filter (\<lambda>e. hora_pair (length (gs_players g)) e = Some (i, i)) evs)) \<and>
     ss_deal_ins (gs_players g ! i) =
       of_nat (length (filter (\<lambda>e. \<exists>a. hora_pair (length (gs_players g)) e = Some (a, i) \<and> a \<noteq> i) evs)) \<and>
     ss_riichi (gs_players g ! i) = ss_riichi_first (gs_players g ! i) + ss_riichi_chasing (gs_players g ! i)"
  using assms by (rule replay_counters)

text \<open>Claim C19: a seat's net points are the settlement of each hand it played, read once per hand
  however many wins reported it, less a thousand for each hand it declared riichi in.\<close>

theorem replay_net_points:
  assumes "replay evs = Inr (Some g)" and "i < length (gs_players g)"
  shows "ss_net_points (gs_players g ! i) = moved (length (gs_players g)) i False None False evs"
proof -
  from assms(1) obtain start names st where
    run: "try_fold (replay_step (length names)) (init_state start names) evs = Inr st"
    and wf: "replay_wf (length names) st"
    and g: "gs_players g = assign_places (finish_scores (rs_last_scores st) (rs_players st))"
    and len: "length (gs_players g) = length names"
    by (rule replay_obtain)
  have i: "i < length names" "i < length (rs_players st)" using assms(2) len wf by (simp_all add: replay_wf_def)
  have "ss_net_points (rs_players st ! i) = moved (length names) i False None False evs"
    using run_moved [OF run init_state_wf i(1)] init_players_nth(1) [OF i(1), of start] i(1)
    by (simp add: core_stats_def init_state_def new_hand_def)
  then show ?thesis
    using assign_places_frame(1) [of i "finish_scores (rs_last_scores st) (rs_players st)"]
      finish_scores_frame(1) [OF i(2), of "rs_last_scores st"] i(2)
    unfolding len unfolding g by (simp add: core_stats_def)
qed

text \<open>The seats that finish ahead of a seat: a higher score, or the same score from a seat nearer
  the first dealer.\<close>

definition ahead :: "seat_stats list \<Rightarrow> nat \<Rightarrow> nat \<Rightarrow> bool" where
  "ahead ps j i \<longleftrightarrow> sint (ss_final_score (ps ! j)) > sint (ss_final_score (ps ! i)) \<or>
     (ss_final_score (ps ! j) = ss_final_score (ps ! i) \<and> j < i)"

lemma sint_inject: "sint (a::'a::len word) = sint b \<longleftrightarrow> a = b"
  by (auto intro: signed_word_eqI)

lemma sint_uminus_i32:
  assumes "(w::i32) \<noteq> 0x80000000"
  shows "sint (- w) = - sint w"
proof -
  have "sint w \<noteq> sint (0x80000000 :: i32)" using assms by (simp only: sint_inject not_False_eq_True)
  then have "- (2 ^ 31) \<noteq> sint w" by simp
  moreover have "- (2 ^ 31) \<le> sint w" "sint w < 2 ^ 31"
    using sint_greater_eq [of w] sint_less [of w] by simp_all
  ultimately have range: "- (2 ^ 31) \<le> - sint w" "- sint w < 2 ^ 31" by simp_all
  have "sint (- w) = sint (word_of_int (- sint w) :: i32)" by simp
  also have "\<dots> = signed_take_bit 31 (- sint w)" by (simp only: sint_sbintrunc') simp
  also have "\<dots> = - sint w" using range by (simp add: signed_take_bit_int_eq_self)
  finally show ?thesis .
qed

lemma place_key_less:
  assumes "ss_final_score (ps ! i) \<noteq> 0x80000000" and "ss_final_score (ps ! j) \<noteq> 0x80000000"
  shows "place_key ps j < place_key ps i \<longleftrightarrow> ahead ps j i"
  using sint_uminus_i32 [OF assms(1)] sint_uminus_i32 [OF assms(2)]
  by (auto simp: place_key_def ahead_def less_prod_def' sint_inject)

text \<open>Claim C20: A seat's placement is one more than the number of seats that finished ahead of it,
  so the placements are a ranking without gaps or ties, a tie going to the seat nearer the
  first dealer. The least \<^verbatim>\<open>i32\<close> is excluded: its negation is itself.\<close>

theorem replay_placement:
  assumes "replay evs = Inr (Some g)" and "i < length (gs_players g)" and "length (gs_players g) \<le> 255"
    and "\<forall>p \<in> set (gs_players g). ss_final_score p \<noteq> 0x80000000"
  shows "unat (ss_placement (gs_players g ! i)) = 1 + card {j. j < length (gs_players g) \<and> ahead (gs_players g) j i}"
proof -
  from assms(1) obtain ps where g: "gs_players g = assign_places ps"
    by (rule replay_obtain)
  define k where "k = card {j. j < length ps \<and> place_key ps j < place_key ps i}"
  have i: "i < length ps" using assms(2) by (simp add: g)
  have scores: "ss_final_score (ps ! j) = ss_final_score (gs_players g ! j)" if "j < length ps" for j
    using that assign_places_frame(3) by (simp add: g)
  have "ahead (gs_players g) j i \<longleftrightarrow> place_key ps j < place_key ps i" if "j < length ps" for j
    using that i assms(4) scores by (subst place_key_less) (auto simp: ahead_def g)
  then have k: "k = card {j. j < length (gs_players g) \<and> ahead (gs_players g) j i}"
    unfolding k_def by (intro arg_cong [where f = card]) (auto simp: g)
  have "k \<le> card ({..<length ps} - {i})" unfolding k_def by (intro card_mono) auto
  then have "k < 255" using i assms(3) by (simp add: g)
  then have "unat (of_nat (k + 1) :: u8) = k + 1"
    by (simp only: unat_of_nat) simp
  then have "unat (of_nat k + 1 :: u8) = k + 1" by (simp add: add.commute)
  with k show ?thesis using assign_places_nth [OF i] by (simp add: g k_def)
qed

text \<open>The indicator table is the game's: on the thirty-four plain tiles the function is
  the successor within the suit, the winds and the dragons, which is a permutation of them.\<close>

theorem dora_successor:
  "map dora_from plain_tiles = map (\<lambda>t. Inr (Some t)) next_tiles \<and>
   distinct plain_tiles \<and> mset next_tiles = mset plain_tiles"
proof (intro conjI)
  show "map dora_from plain_tiles = map (\<lambda>t. Inr (Some t)) next_tiles" by (rule dora_from_table)
  show "distinct plain_tiles" by (simp add: plain_tiles_def winds_def dragons_def)
  show "mset next_tiles = mset plain_tiles" by (simp add: plain_tiles_def next_tiles_def winds_def dragons_def)
qed

text \<open>A record whose winning hand lists an ura indicator that is empty, is made of the
  letter \<^verbatim>\<open>r\<close> only, or opens with a character of more than one byte makes the function panic
  instead of skipping the indicator; every other text is handled.\<close>

theorem dora_from_panics_iff:
  "(\<exists>m. dora_from marker = Inl (Panicked m)) \<longleftrightarrow>
     \<not> (normalise marker \<noteq> [] \<and> is_char_boundary (normalise marker) 1)"
  using dora_from_panic_iff [of marker] by blast

text \<open>A game of one hand: the first seat declares riichi and wins off the second; \<open>markers\<close> are the
  ura indicators and \<open>results\<close> the settlement.\<close>

definition sample_game :: "string list \<Rightarrow> json list \<Rightarrow> json list" where
  "sample_game markers results =
     [JObject [(''type'', JString ''start_game''), (''names'', j_strings [''a'', ''b''])],
      JObject [(''type'', JString ''start_kyoku''), (''oya'', JNum 0)],
      JObject [(''type'', JString ''reach_accepted''), (''actor'', JNum 0)],
      JObject [(''type'', JString ''hora''), (''actor'', JNum 0), (''target'', JNum 1),
        (''deltas'', JArray [JNum 9000, JNum (- 8000)]), (''scores'', JArray [JNum 33000, JNum 17000]),
        (''uradora_markers'', j_strings markers)],
      JObject [(''type'', JString ''end_kyoku'')],
      JObject [(''type'', JString ''end_game''), (''majsoul_result'', JArray results)]]"

lemmas json_read_defs = kind_def seat_of_def as_u64_def as_i64_def u64_or_zero_def i32_or_zero_def
  json_array_def int_array_def arm_of_def

text \<open>One such indicator in an uploaded record stops the statistics of the whole record
  with a panic, although the record is well-formed JSON and passes every check of the upload.\<close>

theorem empty_marker_panics:
  "replay (sample_game [''''] []) = Inl (Panicked ''failed to slice string'')"
  by (simp add: replay_def sample_game_def json_read_defs Let_def init_state_def init_players_def levels_def
      replay_step_def on_start_kyoku_def read_scores_def new_hand_def map_index_def list_modify_def
      on_reach_accepted_def declared_count_def on_hora_def read_deltas_def hora_riichi_def ippatsu_def
      ura_hit_def List.map_filter_def dora_from_def winds_def dragons_def normalise_def)

text \<open>A settlement entry that names a seat from \<open>2 ^ 60 - 1\<close> up makes the function panic:
  the vector is resized to the seat's number before the seat is compared with the table.\<close>

theorem settlement_seat_panics:
  assumes "2 ^ 60 - 1 \<le> seat" and "seat < 2 ^ 64"
  shows "\<exists>m. settlement (JObject [(''type'', JString ''end_game''),
     (''majsoul_result'', JArray [JObject [(''seat'', JNum (int seat))]])]) = Inl (Panicked m)"
  using assms
  by (simp add: settlement_def json_array_def settlement_step_def u64_or_zero_def as_u64_def resize_def Let_def
      mod_if split: if_splits)

theorem settlement_seat_panics_witness:
  "\<exists>m. settlement (JObject [(''type'', JString ''end_game''),
     (''majsoul_result'', JArray [JObject [(''seat'', JNum (int 18446744073709551615))]])]) = Inl (Panicked m)"
  by (rule settlement_seat_panics) simp_all

lemma sample_game_scored:
  "\<exists>g. replay (sample_game [''1m''] []) = Inr (Some g) \<and> length (gs_players g) = 2"
proof -
  have "\<exists>g. replay (sample_game [''1m''] []) = Inr (Some g) \<and> gs_detailed g = list_ex is_detailed (sample_game [''1m''] []) \<and>
     length (gs_players g) = length [JString ''a'', JString ''b'']"
    by (rule replay_scores [where start = "hd (sample_game [''1m''] [])"])
       (simp_all add: sample_game_def kind_def scoreable_def markers_ok_def results_ok_def json_array_def
         List.map_filter_def normalise_def is_char_boundary_def is_continuation_def byte_of_char_def)
  then show ?thesis by auto
qed

theorem replay_counts_witness:
  "\<exists>g. replay (sample_game [''1m''] []) = Inr (Some g) \<and> ss_hands (gs_players g ! 1) = 1 \<and> ss_deal_ins (gs_players g ! 1) = 1"
proof -
  obtain g where g: "replay (sample_game [''1m''] []) = Inr (Some g)" "length (gs_players g) = 2"
    using sample_game_scored by blast
  from replay_counts [OF g(1), of 1] g show ?thesis
    by (simp add: sample_game_def hora_pair_def json_read_defs)
qed

theorem replay_net_points_witness:
  "\<exists>g. replay (sample_game [''1m''] []) = Inr (Some g) \<and> ss_net_points (gs_players g ! 0) = 8000"
proof -
  obtain g where g: "replay (sample_game [''1m''] []) = Inr (Some g)" "length (gs_players g) = 2"
    using sample_game_scored by blast
  from replay_net_points [OF g(1), of 0] g show ?thesis
    by (simp add: sample_game_def json_read_defs reported_def entry_of_def)
qed

definition short_game :: "json list" where
  "short_game =
     [JObject [(''type'', JString ''start_game''), (''names'', j_strings [''a'', ''b''])],
      JObject [(''type'', JString ''start_kyoku''), (''oya'', JNum 0), (''scores'', JArray [JNum 17000, JNum 33000])]]"

lemma short_game_scores:
  "\<exists>g. replay short_game = Inr (Some g) \<and> length (gs_players g) = 2 \<and>
     ss_final_score (gs_players g ! 0) = 17000 \<and> ss_final_score (gs_players g ! 1) = 33000"
proof -
  let ?st = "init_state (hd short_game) [''a'', ''b'']"
  obtain st where run: "try_fold (replay_step (Suc (Suc 0))) ?st short_game = Inr st"
    and st: "rs_started st" "rs_last_scores st = Some [17000, 33000]" "length (rs_players st) = 2"
    by (simp add: short_game_def json_read_defs replay_step_def on_start_kyoku_def read_scores_def Let_def
        init_state_def init_players_def)
  then have "replay short_game = Inr (Some \<lparr>gs_seats = 2, gs_detailed = list_ex is_detailed short_game,
       gs_players = assign_places (finish_scores (Some [17000, 33000]) (rs_players st))\<rparr>)"
    using st(1,2) by (simp add: replay_def short_game_def kind_def Let_def)
  then show ?thesis
    using st(3) by (simp add: assign_places_frame(3)) (simp add: finish_scores_def Let_def)
qed

theorem replay_placement_witness:
  "\<exists>g. replay short_game = Inr (Some g) \<and> unat (ss_placement (gs_players g ! 0)) = 2"
proof -
  obtain g where g: "replay short_game = Inr (Some g)" "length (gs_players g) = 2"
    and scores: "ss_final_score (gs_players g ! 0) = 17000" "ss_final_score (gs_players g ! 1) = 33000"
    using short_game_scores by blast
  have "\<forall>p \<in> set (gs_players g). ss_final_score p \<noteq> 0x80000000"
    using g(2) scores by (auto simp: in_set_conv_nth less_2_cases_iff)
  moreover have "{j. j < 2 \<and> ahead (gs_players g) j 0} = {1}"
    using scores by (auto simp: ahead_def less_2_cases_iff)
  ultimately show ?thesis
    using replay_placement [OF g(1), of 0] g by auto
qed

end
