(* ===== verification/Pack.thy ===== *)
theory Pack
  imports Rust_Text "HOL-Library.List_Lexorder" "HOL-Library.Char_ord"
begin

text \<open>
  \<^verbatim>\<open>src/pack.rs\<close>: the pack file format, its writer, its reader and the offline scan, and the
  operations of the store on its two directories and the bucket. A directory is an
  association list of file names and contents, the bucket a map from keys to contents; file
  positions are natural numbers (a file is far shorter than \<open>2 ^ 64\<close>), entry sizes keep their
  32 bits. The compressor is library code: \<open>compress\<close> and \<open>decompress\<close> are parameters, with
  \<open>codec_ok\<close> for what zstd documents of them. A crash is a truncation of the file.
\<close>

section \<open>Big-endian integers\<close>

definition to_be_bytes :: "u32 \<Rightarrow> u8 list" where
  "to_be_bytes w = [ucast (drop_bit 24 w), ucast (drop_bit 16 w), ucast (drop_bit 8 w), ucast w]"

fun from_be_bytes :: "u8 list \<Rightarrow> u32" where
  "from_be_bytes [a, b, c, d] =
     push_bit 24 (ucast a) OR push_bit 16 (ucast b) OR push_bit 8 (ucast c) OR ucast d"
| "from_be_bytes _ = 0"

lemma from_to_be_bytes [simp]: "from_be_bytes (to_be_bytes w) = w"
  unfolding to_be_bytes_def from_be_bytes.simps
proof (rule bit_word_eqI)
  fix n assume n: "n < LENGTH(32)"
  consider "n < 8" | "8 \<le> n" "n < 16" | "16 \<le> n" "n < 24" | "24 \<le> n" by linarith
  then show "bit (push_bit 24 (ucast (ucast (drop_bit 24 w) :: u8)) OR push_bit 16 (ucast (ucast (drop_bit 16 w) :: u8)) OR
      push_bit 8 (ucast (ucast (drop_bit 8 w) :: u8)) OR ucast (ucast w :: u8) :: u32) n = bit w n"
    by cases (use n in \<open>auto simp: bit_simps\<close>)
qed

lemma length_to_be_bytes [simp]: "length (to_be_bytes w) = 4"
  by (simp add: to_be_bytes_def)

section \<open>Types\<close>

type_synonym uuid = "u8 list"
type_synonym dir = "(string \<times> u8 list) list"
type_synonym bucket = "string \<rightharpoonup> u8 list"

definition magic :: "u8 list" where
  "magic = as_bytes ''MJPACK01''"

definition entry_header_len :: nat where
  "entry_header_len = 24"

definition pack_prefix :: string where
  "pack_prefix = ''packs/''"

definition pack_suffix :: string where
  "pack_suffix = ''.mjpack''"

record pack_location =
  pl_pack_key :: string
  pl_offset :: nat
  pl_compressed_size :: u32
  pl_raw_size :: u32
  pl_codec :: string

datatype pack_error = Io | TooLarge | Corrupt | Object_Error

record pack_writer =
  pw_key :: string
  pw_name :: string
  pw_file :: "u8 list"
  pw_size :: nat
  pw_first_append :: "nat option"

text \<open>\<^verbatim>\<open>Path::new(key).file_name()\<close>: the last component that is not empty and not \<^verbatim>\<open>.\<close>,
  unless it is \<^verbatim>\<open>..\<close>.\<close>

definition file_name :: "string \<Rightarrow> string option" where
  "file_name path =
     (case last_opt (filter (\<lambda>c. c \<noteq> '''' \<and> c \<noteq> ''.'') (split_on CHR ''/'' path)) of
        None \<Rightarrow> None
      | Some name \<Rightarrow> if name = ''..'' then None else Some name)"

section \<open>The writer\<close>

text \<open>\<open>create\<close> returns the new writer and the directory with its empty pack; opening with
  \<^verbatim>\<open>create_new\<close> fails when the name is taken. The contents of an open pack are kept in the
  writer, and \<open>write_back\<close> is the directory with them.\<close>

definition create :: "dir \<Rightarrow> string \<Rightarrow> pack_error + pack_writer" where
  "create dir key =
     (case file_name key of
        None \<Rightarrow> Inl Corrupt
      | Some name \<Rightarrow>
          if map_of dir name \<noteq> None then Inl Io
          else Inr \<lparr>pw_key = key, pw_name = name, pw_file = magic, pw_size = length magic,
                    pw_first_append = None\<rparr>)"

definition write_back :: "pack_writer \<Rightarrow> dir \<Rightarrow> dir" where
  "write_back w dir = (pw_name w, pw_file w) # filter (\<lambda>(name, _). name \<noteq> pw_name w) dir"

definition to_u32 :: "nat \<Rightarrow> pack_error + u32" where
  "to_u32 n = (if n < 2 ^ 32 then Inr (of_nat n) else Inl TooLarge)"

text \<open>\<open>append_entry\<close> is the answer of \<^verbatim>\<open>append\<close>, with the writer when it is a location. A write of
  the three may also fail (\<open>Io\<close>, as a failed compression) after some bytes of the frame reached
  the file; what a failure leaves there is the business of the caller (\<open>append_messages\<close> of
  \<^verbatim>\<open>Indexer\<close>), and of the scan after a crash.\<close>

definition append_entry ::
  "(u8 list \<Rightarrow> u8 list option) \<Rightarrow> nat \<Rightarrow> pack_writer \<Rightarrow> uuid \<Rightarrow> u8 list \<Rightarrow> pack_error + (pack_location \<times> pack_writer)" where
  "append_entry compress now w record_id raw =
     attempt (to_u32 (length raw)) (\<lambda>raw_size.
     case compress raw of
       None \<Rightarrow> Inl Io
     | Some compressed \<Rightarrow>
         attempt (to_u32 (length compressed)) (\<lambda>compressed_size.
         let file = pw_file w @ record_id @ to_be_bytes raw_size @ to_be_bytes compressed_size;
             offset = pw_size w + entry_header_len;
             file = file @ compressed
         in Inr (\<lparr>pl_pack_key = pw_key w, pl_offset = offset, pl_compressed_size = compressed_size,
                  pl_raw_size = raw_size, pl_codec = ''zstd''\<rparr>,
                 w\<lparr>pw_file := file, pw_size := offset + unat compressed_size,
                   pw_first_append := (case pw_first_append w of None \<Rightarrow> Some now | Some t \<Rightarrow> Some t)\<rparr>)))"

definition age :: "nat \<Rightarrow> pack_writer \<Rightarrow> nat option" where
  "age now w = map_option (\<lambda>first. now - first) (pw_first_append w)"

definition seal :: "pack_writer \<Rightarrow> string \<times> string" where
  "seal w = (pw_key w, pw_name w)"

section \<open>The reader\<close>

record pack_store =
  ps_legacy :: dir
  ps_staging :: dir
  ps_objects :: bucket

text \<open>\<^verbatim>\<open>decompress\<close>: \<open>bulk\<close> is \<^verbatim>\<open>zstd::bulk::decompress\<close> with its capacity.\<close>

definition decompress ::
  "(u8 list \<Rightarrow> nat \<Rightarrow> u8 list option) \<Rightarrow> u8 list \<Rightarrow> pack_location \<Rightarrow> pack_error + u8 list" where
  "decompress bulk compressed location =
     (if length compressed \<noteq> unat (pl_compressed_size location) then Inl Corrupt
      else case bulk compressed (unat (pl_raw_size location)) of
             None \<Rightarrow> Inl Io
           | Some raw \<Rightarrow> if length raw \<noteq> unat (pl_raw_size location) then Inl Corrupt else Inr raw)"

text \<open>Seek and \<^verbatim>\<open>read_exact\<close>: a short file is an I/O error.\<close>

definition read_exact :: "u8 list \<Rightarrow> nat \<Rightarrow> nat \<Rightarrow> pack_error + u8 list" where
  "read_exact file offset n =
     (if offset + n \<le> length file then Inr (take n (drop offset file)) else Inl Io)"

text \<open>\<^verbatim>\<open>Objects::get_range\<close> (\<^verbatim>\<open>src/objects.rs\<close>): nothing for an empty range; otherwise the exact
  slice, since any answer that is not the range asked for, or not its length, is refused.\<close>

definition get_range :: "bucket \<Rightarrow> string \<Rightarrow> nat \<Rightarrow> nat \<Rightarrow> pack_error + u8 list" where
  "get_range objects key offset n =
     (if n = 0 then Inr []
      else case objects key of
             None \<Rightarrow> Inl Object_Error
           | Some body \<Rightarrow>
               if offset + n \<le> length body then Inr (take n (drop offset body)) else Inl Object_Error)"

definition read ::
  "(u8 list \<Rightarrow> nat \<Rightarrow> u8 list option) \<Rightarrow> pack_store \<Rightarrow> pack_location \<Rightarrow> pack_error + u8 list" where
  "read bulk store location =
     (case file_name (pl_pack_key location) of
        None \<Rightarrow> Inl Corrupt
      | Some name \<Rightarrow>
          let n = unat (pl_compressed_size location);
              from_file = (\<lambda>file. attempt (read_exact file (pl_offset location) n) (\<lambda>compressed.
                decompress bulk compressed location))
          in case map_of (ps_legacy store) name of
               Some file \<Rightarrow> from_file file
             | None \<Rightarrow> (case map_of (ps_staging store) name of
                 Some file \<Rightarrow> from_file file
               | None \<Rightarrow> attempt (get_range (ps_objects store) (pl_pack_key location) (pl_offset location) n)
                   (\<lambda>compressed. decompress bulk compressed location)))"

definition staging_writer :: "pack_store \<Rightarrow> string \<Rightarrow> string \<Rightarrow> string \<Rightarrow> pack_error + pack_writer" where
  "staging_writer store today part new_uuid =
     create (ps_staging store) (pack_prefix @ today @ ''/'' @ part @ ''-'' @ new_uuid @ pack_suffix)"

definition legacy_writer :: "pack_store \<Rightarrow> string \<Rightarrow> pack_error + pack_writer" where
  "legacy_writer store new_uuid = create (ps_legacy store) (pack_prefix @ new_uuid @ pack_suffix)"

section \<open>The directories\<close>

text \<open>\<^verbatim>\<open>Path::extension\<close> is what follows the last dot, unless that dot opens the name.\<close>

definition is_mjpack :: "string \<Rightarrow> bool" where
  "is_mjpack name \<longleftrightarrow> (\<exists>stem. stem \<noteq> [] \<and> name = stem @ pack_suffix)"

lemma is_mjpack_code [code]:
  "is_mjpack name \<longleftrightarrow> 7 < length name \<and> drop (length name - 7) name = pack_suffix"
proof
  assume "7 < length name \<and> drop (length name - 7) name = pack_suffix"
  then have "name = take (length name - 7) name @ pack_suffix \<and> take (length name - 7) name \<noteq> []"
    using append_take_drop_id [of "length name - 7" name] by auto
  then show "is_mjpack name" unfolding is_mjpack_def by blast
qed (auto simp: is_mjpack_def pack_suffix_def)

definition mjpacks :: "dir \<Rightarrow> string list" where
  "mjpacks dir = sort (filter is_mjpack (map fst dir))"

definition packs :: "pack_store \<Rightarrow> string list" where
  "packs store = mjpacks (ps_legacy store)"

definition remove_file :: "string \<Rightarrow> dir \<Rightarrow> dir" where
  "remove_file name dir = filter (\<lambda>(n, _). n \<noteq> name) dir"

definition discard_staging :: "pack_store \<Rightarrow> nat \<times> pack_store" where
  "discard_staging store =
     fold (\<lambda>name (discarded, st). (discarded + 1, st\<lparr>ps_staging := remove_file name (ps_staging st)\<rparr>))
       (mjpacks (ps_staging store)) (0, store)"

text \<open>\<^verbatim>\<open>to_string_lossy\<close> of the file name, which is any bytes on disk: two names that are not UTF-8
  may share a key.\<close>

definition pack_key :: "string \<Rightarrow> string" where
  "pack_key name = pack_prefix @ from_utf8_lossy (as_bytes name)"

definition utf8_name :: "string \<Rightarrow> bool" where
  "utf8_name name = valid_utf8 (as_bytes name)"

lemma pack_key_utf8: "utf8_name name \<Longrightarrow> pack_key name = pack_prefix @ name"
  by (simp add: pack_key_def utf8_name_def from_utf8_lossy_valid)

lemma utf8_name_ascii: "list_all (\<lambda>c. byte_of_char c < 0x80) name \<Longrightarrow> utf8_name name"
  by (simp add: utf8_name_def as_bytes_def valid_utf8_ascii_list list_all_iff)

text \<open>\<open>stored key bytes\<close> is what the bucket keeps of an upload that answered with success.\<close>

definition upload_one ::
  "(string \<Rightarrow> u8 list \<Rightarrow> u8 list) \<Rightarrow> nat \<times> pack_store \<Rightarrow> string \<Rightarrow> pack_error + (nat \<times> pack_store)" where
  "upload_one stored acc name =
     (let (uploaded, store) = acc; key = pack_key name
      in case map_of (ps_legacy store) name of
           None \<Rightarrow> Inl Io
         | Some bytes \<Rightarrow>
             if map_option length (ps_objects store key) = Some (length bytes) then Inr (uploaded, store)
             else
               let store' = store\<lparr>ps_objects := (ps_objects store)(key \<mapsto> stored key bytes)\<rparr>
               in if map_option length (ps_objects store' key) = Some (length bytes)
                  then Inr (uploaded + 1, store') else Inl Object_Error)"

definition upload_legacy_packs ::
  "(string \<Rightarrow> u8 list \<Rightarrow> u8 list) \<Rightarrow> pack_store \<Rightarrow> pack_error + (nat \<times> pack_store)" where
  "upload_legacy_packs stored store = try_fold (upload_one stored) (0, store) (packs store)"

section \<open>The offline scan\<close>

definition is_nil :: "uuid \<Rightarrow> bool" where
  "is_nil u \<longleftrightarrow> u = replicate 16 0"

function scan_entries :: "string \<Rightarrow> u8 list \<Rightarrow> nat \<Rightarrow> (uuid \<times> pack_location) list" where
  "scan_entries key file position =
     (if position + entry_header_len \<le> length file then
        let header = take entry_header_len (drop position file);
            record_id = take 16 header;
            raw_size = from_be_bytes (take 4 (drop 16 header));
            compressed_size = from_be_bytes (take 4 (drop 20 header));
            offset = position + entry_header_len
        in if is_nil record_id \<or> compressed_size = 0 then []
           else if length file < offset + unat compressed_size then []
           else (record_id, \<lparr>pl_pack_key = key, pl_offset = offset, pl_compressed_size = compressed_size,
                   pl_raw_size = raw_size, pl_codec = ''zstd''\<rparr>) #
                scan_entries key file (offset + unat compressed_size)
      else [])"
  by pat_completeness auto
termination
  by (relation "measure (\<lambda>(_, file, position). length file - position)")
     (auto simp: entry_header_len_def)

declare scan_entries.simps [simp del]

definition scan_pack :: "string \<Rightarrow> u8 list \<Rightarrow> pack_error + (string \<times> (uuid \<times> pack_location) list)" where
  "scan_pack name file =
     (if length file < length magic then Inl Io
      else if take (length magic) file \<noteq> magic then Inl Corrupt
      else Inr (pack_key name, scan_entries (pack_key name) file (length magic)))"

end
