(* ===== verification/Pack_Correct.thy ===== *)
theory Pack_Correct
  imports Pack
begin

text \<open>
  What the pack format promises: an entry reads back as it was written, from the open file,
  from a finished one and from the bucket; the scan finds exactly the complete entries of a
  file cut off anywhere; clearing the staging directory and uploading the old packs touch
  nothing else.
\<close>

section \<open>The compressor\<close>

text \<open>What zstd documents: a frame is never empty, and it decompresses, within a capacity of the
  original's size, to the original.\<close>

definition codec_ok :: "(u8 list \<Rightarrow> u8 list option) \<Rightarrow> (u8 list \<Rightarrow> nat \<Rightarrow> u8 list option) \<Rightarrow> bool" where
  "codec_ok compress bulk \<longleftrightarrow>
     (\<forall>raw c. compress raw = Some c \<longrightarrow> c \<noteq> [] \<and> bulk c (length raw) = Some raw)"

section \<open>Appending\<close>

definition writer_wf :: "pack_writer \<Rightarrow> bool" where
  "writer_wf w \<longleftrightarrow> pw_size w = length (pw_file w) \<and> length magic \<le> length (pw_file w) \<and>
     take (length magic) (pw_file w) = magic"

definition id_ok :: "uuid \<Rightarrow> bool" where
  "id_ok u \<longleftrightarrow> length u = 16 \<and> \<not> is_nil u"

definition frame :: "uuid \<Rightarrow> u8 list \<Rightarrow> u8 list \<Rightarrow> u8 list" where
  "frame u raw c = u @ to_be_bytes (of_nat (length raw)) @ to_be_bytes (of_nat (length c)) @ c"

definition location_at :: "string \<Rightarrow> nat \<Rightarrow> u8 list \<Rightarrow> u8 list \<Rightarrow> pack_location" where
  "location_at key position raw c =
     \<lparr>pl_pack_key = key, pl_offset = position + entry_header_len, pl_compressed_size = of_nat (length c),
      pl_raw_size = of_nat (length raw), pl_codec = ''zstd''\<rparr>"

lemma unat_of_nat_u32: "n < 2 ^ 32 \<Longrightarrow> unat (of_nat n :: u32) = n"
  by (simp add: unat_of_nat)

lemma append_entry_obtain:
  assumes "append_entry compress now w u raw = Inr (loc, w')"
  obtains c where "compress raw = Some c" "length raw < 2 ^ 32" "length c < 2 ^ 32"
    "loc = location_at (pw_key w) (pw_size w) raw c"
    "pw_file w' = pw_file w @ frame u raw c" "pw_size w' = pw_size w + entry_header_len + length c"
    "pw_key w' = pw_key w" "pw_name w' = pw_name w"
  using assms
  by (auto simp: append_entry_def to_u32_def result_simps Let_def frame_def location_at_def unat_of_nat_u32
      split: option.splits if_splits)

lemma append_entry_wf [inv_intros]:
  assumes "append_entry compress now w u raw = Inr (loc, w')" and "writer_wf w" and "length u = 16"
  shows "writer_wf w'"
  using assms(2,3)
  by (rule_tac append_entry_obtain [OF assms(1)]) (simp add: writer_wf_def frame_def entry_header_len_def)

lemma create_wf [inv_intros]: "create dir key = Inr w \<Longrightarrow> writer_wf w"
  by (auto simp: create_def writer_wf_def split: option.splits if_splits)

text \<open>The records of a batch, one after the other, as the pack worker writes them.\<close>

fun append_all ::
  "(u8 list \<Rightarrow> u8 list option) \<Rightarrow> nat \<Rightarrow> pack_writer \<Rightarrow> (uuid \<times> u8 list) list \<Rightarrow> pack_error + (pack_location list \<times> pack_writer)" where
  "append_all compress now w [] = Inr ([], w)"
| "append_all compress now w ((u, raw) # rest) =
     attempt (append_entry compress now w u raw) (\<lambda>(loc, w').
     attempt (append_all compress now w' rest) (\<lambda>(locs, w''). Inr (loc # locs, w'')))"

lemma append_all_Cons_obtain:
  assumes "append_all compress now w ((u, raw) # rest) = Inr (locs, w')"
  obtains loc w1 locs' where "append_entry compress now w u raw = Inr (loc, w1)"
    "append_all compress now w1 rest = Inr (locs', w')" "locs = loc # locs'"
  using assms by (auto simp: result_simps)

lemma append_all_extends:
  "append_all compress now w recs = Inr (locs, w') \<Longrightarrow>
     (\<exists>tail. pw_file w' = pw_file w @ tail) \<and> pw_key w' = pw_key w \<and> pw_name w' = pw_name w \<and> length locs = length recs"
proof (induction recs arbitrary: w locs)
  case (Cons rec recs)
  obtain u raw where rec: "rec = (u, raw)" by fastforce
  from Cons.prems [unfolded rec] obtain loc w1 locs' where
    step: "append_entry compress now w u raw = Inr (loc, w1)"
    and rest: "append_all compress now w1 recs = Inr (locs', w')" and locs: "locs = loc # locs'"
    by (rule append_all_Cons_obtain)
  from step obtain c where "pw_file w1 = pw_file w @ frame u raw c" "pw_key w1 = pw_key w" "pw_name w1 = pw_name w"
    by (rule append_entry_obtain)
  with Cons.IH [OF rest] locs show ?case by auto
qed simp

section \<open>Reading back\<close>

definition entry_reads :: "(u8 list \<Rightarrow> nat \<Rightarrow> u8 list option) \<Rightarrow> u8 list \<Rightarrow> pack_location \<Rightarrow> u8 list \<Rightarrow> bool" where
  "entry_reads bulk file loc raw \<longleftrightarrow>
     attempt (read_exact file (pl_offset loc) (unat (pl_compressed_size loc)))
       (\<lambda>compressed. decompress bulk compressed loc) = Inr raw"

lemma entry_reads_frame:
  assumes "codec_ok compress bulk" and "compress raw = Some c" and "length raw < 2 ^ 32" and "length c < 2 ^ 32"
    and "length u = 16"
  shows "entry_reads bulk (pre @ frame u raw c @ post) (location_at key (length pre) raw c) raw"
proof -
  have "bulk c (length raw) = Some raw" using assms(1,2) by (simp add: codec_ok_def)
  then show ?thesis
    using assms(3-5)
    by (simp add: entry_reads_def read_exact_def decompress_def location_at_def frame_def entry_header_len_def
        unat_of_nat_u32)
qed

lemma append_all_reads:
  assumes "codec_ok compress bulk" and "append_all compress now w recs = Inr (locs, w')" and "writer_wf w"
    and "\<forall>(u, raw) \<in> set recs. length u = 16" and "i < length recs"
  shows "entry_reads bulk (pw_file w' @ post) (locs ! i) (snd (recs ! i)) \<and> pl_pack_key (locs ! i) = pw_key w"
  using assms(2-)
proof (induction recs arbitrary: w locs i)
  case (Cons rec recs)
  obtain u raw where rec: "rec = (u, raw)" by fastforce
  from Cons.prems(1) [unfolded rec] obtain loc w1 locs' where
    step: "append_entry compress now w u raw = Inr (loc, w1)"
    and rest: "append_all compress now w1 recs = Inr (locs', w')" and locs: "locs = loc # locs'"
    by (rule append_all_Cons_obtain)
  have u: "length u = 16" using Cons.prems(3) rec by simp
  have wf: "writer_wf w1" using step Cons.prems(2) u by (rule append_entry_wf)
  from step obtain c where c: "compress raw = Some c" "length raw < 2 ^ 32" "length c < 2 ^ 32"
      "loc = location_at (pw_key w) (pw_size w) raw c"
      "pw_file w1 = pw_file w @ frame u raw c" "pw_key w1 = pw_key w"
    by (rule append_entry_obtain)
  show ?case
  proof (cases i)
    case 0
    from append_all_extends [OF rest] obtain tail where "pw_file w' = pw_file w1 @ tail" by blast
    then show ?thesis
      using entry_reads_frame [OF assms(1) c(1-3) u, of "pw_file w" "tail @ post"] Cons.prems(2) c(4,5) 0
      by (simp add: locs rec writer_wf_def location_at_def)
  next
    case (Suc j)
    then show ?thesis using Cons.IH [OF rest wf, of j] Cons.prems(3,4) c(6) by (simp add: locs)
  qed
qed simp

section \<open>Scanning\<close>

lemma scan_step:
  assumes "id_ok u" and "c \<noteq> []" and "length c < 2 ^ 32"
    and "file = take n (pre @ frame u raw c @ post)" and "length pre \<le> n"
  shows "scan_entries key file (length pre) =
    (if length pre + entry_header_len + length c \<le> n
     then (u, location_at key (length pre) raw c) # scan_entries key file (length pre + entry_header_len + length c)
     else [])"
proof (cases "length pre + entry_header_len \<le> n")
  case True
  have u: "length u = 16" "\<not> is_nil u" using assms(1) by (simp_all add: id_ok_def)
  have header: "take entry_header_len (drop (length pre) file) =
      u @ to_be_bytes (of_nat (length raw)) @ to_be_bytes (of_nat (length c))"
    using True u(1) by (simp add: assms(4) frame_def entry_header_len_def min_def)
  have "length file = min n (length pre + entry_header_len + length c + length post)"
    using u(1) by (simp add: assms(4) frame_def entry_header_len_def add.assoc min.commute del: take_append)
  then have "length pre + entry_header_len + length c \<le> n \<longleftrightarrow> \<not> length file < length pre + entry_header_len + length c"
    by auto
  moreover have "length pre + entry_header_len \<le> length file"
    using True u(1) by (simp add: assms(4) frame_def entry_header_len_def)
  moreover have "(of_nat (length c) :: u32) \<noteq> 0"
    using assms(2,3) by (metis length_0_conv unat_0 unat_of_nat_u32)
  ultimately show ?thesis
    using u assms(3)
    by (subst scan_entries.simps) (simp add: header location_at_def unat_of_nat_u32 Let_def)
next
  case False
  then have "length file < length pre + entry_header_len" using assms(5) by (simp add: assms(4))
  with False show ?thesis by (subst scan_entries.simps) simp
qed

lemma scan_zero_tail: "scan_entries key (pre @ replicate k 0) (length pre) = []"
  by (subst scan_entries.simps) (auto simp: entry_header_len_def is_nil_def min_def Let_def)

definition ends_within :: "nat \<Rightarrow> uuid \<times> pack_location \<Rightarrow> bool" where
  "ends_within n entry \<longleftrightarrow> pl_offset (snd entry) + unat (pl_compressed_size (snd entry)) \<le> n"

text \<open>The file as a crash leaves it: cut off at \<open>n\<close>, possibly after being extended by unwritten bytes.\<close>

lemma scan_truncated:
  assumes "codec_ok compress bulk" and "append_all compress now w recs = Inr (locs, w')" and "writer_wf w"
    and "\<forall>(u, raw) \<in> set recs. id_ok u" and "pw_size w \<le> n"
  shows "scan_entries (pw_key w) (take n (pw_file w' @ replicate k 0)) (pw_size w) =
     takeWhile (ends_within n) (zip (map fst recs) locs)"
  using assms(2-)
proof (induction recs arbitrary: w locs)
  case Nil
  then have "take n (pw_file w' @ replicate k 0) = pw_file w @ replicate (min (n - length (pw_file w)) k) 0"
    by (simp add: writer_wf_def)
  with Nil show ?case by (simp add: writer_wf_def scan_zero_tail)
next
  case (Cons rec recs)
  obtain u raw where rec: "rec = (u, raw)" by fastforce
  from Cons.prems(1) [unfolded rec] obtain loc w1 locs' where
    step: "append_entry compress now w u raw = Inr (loc, w1)"
    and rest: "append_all compress now w1 recs = Inr (locs', w')" and locs: "locs = loc # locs'"
    by (rule append_all_Cons_obtain)
  have u: "id_ok u" "length u = 16" using Cons.prems(3) rec by (simp_all add: id_ok_def)
  have wf: "writer_wf w1" using step Cons.prems(2) u(2) by (rule append_entry_wf)
  from step obtain c where c: "compress raw = Some c" "length c < 2 ^ 32"
      "loc = location_at (pw_key w) (pw_size w) raw c" "pw_file w1 = pw_file w @ frame u raw c"
      "pw_size w1 = pw_size w + entry_header_len + length c" "pw_key w1 = pw_key w"
    by (rule append_entry_obtain)
  have ne: "c \<noteq> []" using assms(1) c(1) by (simp add: codec_ok_def)
  have size: "pw_size w = length (pw_file w)" using Cons.prems(2) by (simp add: writer_wf_def)
  from append_all_extends [OF rest] obtain tail where tail: "pw_file w' = pw_file w @ frame u raw c @ tail"
    by (auto simp: c(4))
  have ends: "ends_within n (u, loc) \<longleftrightarrow> pw_size w1 \<le> n"
    using c(2) by (simp add: ends_within_def c(3,5) location_at_def unat_of_nat_u32)
  show ?case
    using scan_step [OF u(1) ne c(2) refl, where pre = "pw_file w" and n = n and raw = raw
        and post = "tail @ replicate k 0" and key = "pw_key w"]
      Cons.IH [OF rest wf] Cons.prems(3,4) ends c(3,5,6) size
    by (auto simp: tail locs rec)
qed

section \<open>The directories\<close>

lemma discard_fold:
  "fold (\<lambda>name (discarded, st). (discarded + 1, st\<lparr>ps_staging := remove_file name (ps_staging st)\<rparr>)) names (k, store) =
     (k + length names, store\<lparr>ps_staging := filter (\<lambda>(n, _). n \<notin> set names) (ps_staging store)\<rparr>)"
proof (induction names arbitrary: k store)
  case (Cons name names)
  have "filter (\<lambda>(n, _). n \<notin> set names) (remove_file name d) = filter (\<lambda>(n, _). n \<notin> set (name # names)) d" for d
    by (auto simp: remove_file_def intro: filter_cong)
  with Cons show ?case by simp
qed simp

lemma set_mjpacks: "set (mjpacks dir) = {name \<in> fst ` set dir. is_mjpack name}"
  by (auto simp: mjpacks_def)

lemma discard_staging_eq:
  "discard_staging store =
     (length (mjpacks (ps_staging store)), store\<lparr>ps_staging := filter (\<lambda>(n, _). \<not> is_mjpack n) (ps_staging store)\<rparr>)"
proof -
  have "filter (\<lambda>(n, _). n \<notin> set (mjpacks (ps_staging store))) (ps_staging store) =
      filter (\<lambda>(n, _). \<not> is_mjpack n) (ps_staging store)"
    by (rule filter_cong) (auto simp: set_mjpacks image_iff)
  then show ?thesis unfolding discard_staging_def discard_fold by simp
qed

definition uploaded_ok :: "pack_store \<Rightarrow> string \<Rightarrow> bool" where
  "uploaded_ok store name \<longleftrightarrow>
     (\<exists>bytes. map_of (ps_legacy store) name = Some bytes \<and>
        map_option length (ps_objects store (pack_key name)) = Some (length bytes))"

text \<open>Names that are UTF-8 keep their keys apart.\<close>

lemma pack_key_inj: "(\<And>name. name \<in> names \<Longrightarrow> utf8_name name) \<Longrightarrow> inj_on pack_key names"
  by (rule inj_onI) (simp add: pack_key_utf8)

lemma sample_key: "pack_key ''a.mjpack'' = ''packs/a.mjpack''"
  by (subst pack_key_utf8) (simp_all add: utf8_name_ascii byte_of_char_def pack_prefix_def)

lemma upload_one_effect:
  assumes "upload_one stored (k, store) name = Inr (k', store')" and "inj_on pack_key names" and "name \<in> names"
  shows "ps_legacy store' = ps_legacy store \<and> ps_staging store' = ps_staging store \<and> uploaded_ok store' name \<and>
     (\<forall>other \<in> names. uploaded_ok store other \<longrightarrow> uploaded_ok store' other) \<and>
     (\<forall>key. key \<noteq> pack_key name \<longrightarrow> ps_objects store' key = ps_objects store key)"
proof -
  have same: "pack_key other = pack_key name \<longleftrightarrow> other = name" if "other \<in> names" for other
    using inj_on_eq_iff [OF assms(2) that assms(3)] .
  from assms(1) show ?thesis
    by (auto simp: upload_one_def uploaded_ok_def Let_def same split: option.splits if_splits)
qed

lemma upload_run_effect:
  assumes "try_fold (upload_one stored) (k, store) names = Inr (k', store')" and "inj_on pack_key all" and "set names \<subseteq> all"
  shows "ps_legacy store' = ps_legacy store \<and> ps_staging store' = ps_staging store \<and>
     (\<forall>name \<in> set names. uploaded_ok store' name) \<and> (\<forall>other \<in> all. uploaded_ok store other \<longrightarrow> uploaded_ok store' other) \<and>
     (\<forall>key. key \<notin> pack_key ` set names \<longrightarrow> ps_objects store' key = ps_objects store key)"
  using assms
proof (induction names arbitrary: k store)
  case (Cons name names)
  then obtain k1 store1 where step: "upload_one stored (k, store) name = Inr (k1, store1)"
    and rest: "try_fold (upload_one stored) (k1, store1) names = Inr (k', store')"
    by (auto simp: result_simps)
  from Cons.prems(3) have sub: "name \<in> all" "set names \<subseteq> all" by simp_all
  from Cons.IH [OF rest assms(2) sub(2)] upload_one_effect [OF step assms(2) sub(1)] sub show ?case by auto
qed simp

lemma upload_run_skips:
  "\<forall>name \<in> set names. uploaded_ok store name \<Longrightarrow> try_fold (upload_one stored) (k, store) names = Inr (k, store)"
  by (induction names) (auto simp: upload_one_def uploaded_ok_def)

section \<open>Properties\<close>

text \<open>Claim C4: every record written into a new pack reads back exactly as it was given, by the
  location the append returned, while later records follow it: from the staging file, and from
  the bucket once the file is uploaded and gone.\<close>

theorem pack_round_trip:
  assumes "codec_ok compress bulk" and "create dir key = Inr w"
    and "append_all compress now w recs = Inr (locs, w')"
    and "\<forall>(u, raw) \<in> set recs. length u = 16" and "i < length recs"
  shows "(map_of (ps_legacy store) (pw_name w') = None \<and> map_of (ps_staging store) (pw_name w') = Some (pw_file w') \<longrightarrow>
           read bulk store (locs ! i) = Inr (snd (recs ! i))) \<and>
     (map_of (ps_legacy store) (pw_name w') = None \<and> map_of (ps_staging store) (pw_name w') = None \<and>
        ps_objects store key = Some (pw_file w') \<longrightarrow>
           read bulk store (locs ! i) = Inr (snd (recs ! i)))"
proof -
  have reads: "entry_reads bulk (pw_file w') (locs ! i) (snd (recs ! i))" and key: "pl_pack_key (locs ! i) = key"
    using append_all_reads [OF assms(1,3) create_wf [OF assms(2)] assms(4,5), of "[]"] assms(2)
    by (auto simp: create_def split: option.splits if_splits)
  have name: "file_name key = Some (pw_name w')"
    using append_all_extends [OF assms(3)] assms(2) by (auto simp: create_def split: option.splits if_splits)
  have "get_range objects key (pl_offset (locs ! i)) n = Inr c"
    if "read_exact (pw_file w') (pl_offset (locs ! i)) n = Inr c" "objects key = Some (pw_file w')" for objects n c
    using that by (auto simp: get_range_def read_exact_def split: if_splits)
  with reads show ?thesis
    by (auto simp: read_def entry_reads_def key name Let_def result_simps)
qed

text \<open>Claim C3: cut the file of a legacy pack off at any byte, even after unwritten zeroes were
  added to it. When the cut is at or after the end of the magic the scan returns exactly the
  entries whose frame is complete, in order, with the locations the appends returned: a crash
  costs the record being written and no other, and no phantom entry is invented. A file that
  does not hold the whole magic is an I/O error.\<close>

theorem scan_after_crash:
  assumes "codec_ok compress bulk" and "create dir (pack_key name) = Inr w"
    and "append_all compress now w recs = Inr (locs, w')"
    and "\<forall>(u, raw) \<in> set recs. id_ok u"
  shows "scan_pack name (take n (pw_file w' @ replicate k 0)) =
     (if n < length magic then Inl Io
      else Inr (pack_key name, takeWhile (ends_within n) (zip (map fst recs) locs)))"
proof (cases "n < length magic")
  case True
  then show ?thesis by (simp add: scan_pack_def min_def del: take_append)
next
  case False
  have w: "writer_wf w" "pw_key w = pack_key name" "pw_size w = length magic"
    using assms(2) create_wf by (auto simp: create_def split: option.splits if_splits)
  from append_all_extends [OF assms(3)] obtain tail where tail: "pw_file w' = pw_file w @ tail" by blast
  have "take (length magic) (pw_file w) = magic" "length magic \<le> length (pw_file w)"
    using w(1) by (simp_all add: writer_wf_def)
  then have "take (length magic) (take n (pw_file w' @ replicate k 0)) = magic"
    using False by (simp add: tail min_def)
  moreover have "\<not> length (take n (pw_file w' @ replicate k 0)) < length magic"
    using False \<open>length magic \<le> length (pw_file w)\<close> by (simp add: tail)
  ultimately show ?thesis
    using scan_truncated [OF assms(1,3) w(1) assms(4), of n k] w(2,3) False by (simp add: scan_pack_def)
qed

text \<open>Clearing the staging directory removes every pack of it and reports their number,
  keeps every other file, and leaves the legacy corpus and the bucket as they are.\<close>

theorem discard_staging_safe:
  "\<exists>staging. discard_staging store = (length (mjpacks (ps_staging store)), store\<lparr>ps_staging := staging\<rparr>) \<and>
     mjpacks staging = [] \<and> (\<forall>name. \<not> is_mjpack name \<longrightarrow> map_of staging name = map_of (ps_staging store) name)"
proof -
  have "map_of (filter (\<lambda>(n, _). \<not> is_mjpack n) dir) name = map_of dir name" if "\<not> is_mjpack name" for dir :: dir and name
    using that by (induction dir) auto
  moreover have "mjpacks (filter (\<lambda>(n, _). \<not> is_mjpack n) dir) = []" for dir
    by (auto simp: mjpacks_def filter_empty_conv)
  ultimately show ?thesis by (auto simp: discard_staging_eq)
qed

text \<open>An upload of the legacy corpus whose packs have different keys (as those with UTF-8 names do)
  that reports success leaves an object of the right
  size for every pack, changes no other object and no local file, and a second run uploads
  nothing, whatever the bucket does with a body.\<close>

theorem upload_legacy_packs_complete:
  assumes "upload_legacy_packs stored store = Inr (uploaded, store')" and "inj_on pack_key (set (packs store))"
  shows "(\<forall>name \<in> set (packs store). \<exists>bytes. map_of (ps_legacy store) name = Some bytes \<and>
            map_option length (ps_objects store' (pack_key name)) = Some (length bytes)) \<and>
     (\<forall>key. key \<notin> pack_key ` set (packs store) \<longrightarrow> ps_objects store' key = ps_objects store key) \<and>
     ps_legacy store' = ps_legacy store \<and> ps_staging store' = ps_staging store \<and>
     upload_legacy_packs stored' store' = Inr (0, store')"
  using upload_run_effect [OF assms(1) [unfolded upload_legacy_packs_def] assms(2) subset_refl]
    upload_run_skips [of "packs store" store' stored' 0]
  by (auto simp: upload_legacy_packs_def uploaded_ok_def packs_def)

section \<open>Witnesses\<close>

text \<open>A codec with the documented law: a one-byte header before the raw bytes.\<close>

definition stored_codec :: "u8 list \<Rightarrow> u8 list option" where
  "stored_codec raw = Some (1 # raw)"

definition stored_bulk :: "u8 list \<Rightarrow> nat \<Rightarrow> u8 list option" where
  "stored_bulk c capacity = (if length (tl c) \<le> capacity then Some (tl c) else None)"

lemma stored_codec_ok: "codec_ok stored_codec stored_bulk"
  by (simp add: codec_ok_def stored_codec_def stored_bulk_def)

definition sample_records :: "(uuid \<times> u8 list) list" where
  "sample_records = [(replicate 16 1, [7, 8]), (replicate 16 2, [9])]"

lemma sample_create: "\<exists>w. create [] (pack_key ''a.mjpack'') = Inr w \<and> pw_name w = ''a.mjpack''"
  by (simp add: create_def file_name_def sample_key)

lemma sample_appended:
  "\<exists>locs w'. append_all stored_codec 0 w sample_records = Inr (locs, w') \<and>
     map (\<lambda>l. (pl_offset l, unat (pl_compressed_size l))) locs = [(pw_size w + 24, 3), (pw_size w + 51, 2)]"
  by (simp add: sample_records_def append_entry_def stored_codec_def to_u32_def Let_def entry_header_len_def)

theorem pack_round_trip_witness:
  "\<exists>w locs w'. create [] (pack_key ''a.mjpack'') = Inr w \<and>
     append_all stored_codec 0 w sample_records = Inr (locs, w') \<and>
     read stored_bulk \<lparr>ps_legacy = [], ps_staging = [(''a.mjpack'', pw_file w')], ps_objects = Map.empty\<rparr> (locs ! 1) = Inr [9]"
proof -
  obtain w where w: "create [] (pack_key ''a.mjpack'') = Inr w" "pw_name w = ''a.mjpack''"
    using sample_create by blast
  obtain locs w' where app: "append_all stored_codec 0 w sample_records = Inr (locs, w')"
    using sample_appended by blast
  have "pw_name w' = ''a.mjpack''" using append_all_extends [OF app] w(2) by simp
  with pack_round_trip [OF stored_codec_ok w(1) app, of 1
      "\<lparr>ps_legacy = [], ps_staging = [(''a.mjpack'', pw_file w')], ps_objects = Map.empty\<rparr>"] w app
  show ?thesis by (auto simp: sample_records_def)
qed

theorem scan_after_crash_witness:
  "\<exists>w locs w'. create [] (pack_key ''a.mjpack'') = Inr w \<and>
     append_all stored_codec 0 w sample_records = Inr (locs, w') \<and>
     scan_pack ''a.mjpack'' (take 60 (pw_file w')) = Inr (pack_key ''a.mjpack'', [(replicate 16 1, locs ! 0)])"
proof -
  obtain w where w: "create [] (pack_key ''a.mjpack'') = Inr w" "pw_name w = ''a.mjpack''"
    using sample_create by blast
  have size: "pw_size w = 8" using w(1) by (auto simp: create_def magic_def split: option.splits if_splits)
  obtain locs w' where app: "append_all stored_codec 0 w sample_records = Inr (locs, w')"
    and locs: "map (\<lambda>l. (pl_offset l, unat (pl_compressed_size l))) locs = [(pw_size w + 24, 3), (pw_size w + 51, 2)]"
    using sample_appended [of w] by auto
  from locs obtain a b where ab: "locs = [a, b]" "pl_offset a = 32" "unat (pl_compressed_size a) = 3"
    "pl_offset b = 59" "unat (pl_compressed_size b) = 2"
    by (auto simp: size)
  have ids: "\<forall>(u, raw) \<in> set sample_records. id_ok u"
    by (simp add: sample_records_def id_ok_def is_nil_def)
  have "takeWhile (ends_within 60) (zip (map fst sample_records) locs) = [(replicate 16 1, a)]"
    by (simp add: ab sample_records_def ends_within_def)
  with scan_after_crash [OF stored_codec_ok w(1) app ids, of 60 0] w app ab(1)
  show ?thesis by (auto simp: magic_def)
qed

theorem upload_legacy_packs_complete_witness:
  "\<exists>n store'. upload_legacy_packs (\<lambda>key bytes. bytes)
       \<lparr>ps_legacy = [(''a.mjpack'', [1, 2])], ps_staging = [], ps_objects = Map.empty\<rparr> = Inr (n, store') \<and>
     n = 1 \<and> map_option length (ps_objects store' (pack_key ''a.mjpack'')) = Some 2"
proof -
  let ?store = "\<lparr>ps_legacy = [(''a.mjpack'', [1, 2])], ps_staging = [], ps_objects = Map.empty\<rparr> :: pack_store"
  have packs: "packs ?store = [''a.mjpack'']"
    by (simp add: packs_def mjpacks_def is_mjpack_code pack_suffix_def)
  obtain store' where up: "upload_legacy_packs (\<lambda>key bytes. bytes) ?store = Inr (1, store')"
    by (simp add: upload_legacy_packs_def packs upload_one_def Let_def)
  from upload_legacy_packs_complete [OF up] up show ?thesis by (simp add: packs numeral_2_eq_2)
qed

theorem discard_staging_safe_witness:
  "\<exists>staging. discard_staging \<lparr>ps_legacy = [(''l.mjpack'', [5])],
       ps_staging = [(''a.mjpack'', [1]), (''notes'', [2])], ps_objects = Map.empty\<rparr> =
     (1, \<lparr>ps_legacy = [(''l.mjpack'', [5])], ps_staging = staging, ps_objects = Map.empty\<rparr>) \<and>
     map_of staging ''notes'' = Some [2]"
proof -
  have "mjpacks [(''a.mjpack'', [1]), (''notes'', [2])] = [''a.mjpack'']"
    by (simp add: mjpacks_def is_mjpack_code pack_suffix_def)
  moreover have "\<not> is_mjpack ''notes''" by (simp add: is_mjpack_code)
  ultimately show ?thesis
    using discard_staging_safe [of "\<lparr>ps_legacy = [(''l.mjpack'', [5])],
       ps_staging = [(''a.mjpack'', [1]), (''notes'', [2])], ps_objects = Map.empty\<rparr>"] by auto
qed

end
