(* ===== verification/Catalog.thy ===== *)
theory Catalog
  imports Mjai Pack Replay "HOL-Library.Multiset"
begin

text \<open>
  \<^verbatim>\<open>src/catalog.rs\<close>: the idempotency claims and the record index, as far as ingest, the pack
  worker, recovery and the collector of orphans use them. A statement sent to a database is
  one atomic step on its table. The claims table maps the digest of a key to its row
  (\<open>digest\<close>, the database's \<^verbatim>\<open>sha256\<close>, is a parameter); the index is the list of inserted rows,
  which ReplacingMergeTree reads by its sorting key, the last row winning. A time is a number
  of nanoseconds.
\<close>

section \<open>Services\<close>

text \<open>The answer of a service that changes state: it did what was asked and said so, it did it
  and the answer was lost, or it did not.\<close>

datatype outcome = Done | Unacked | Refused

definition took_effect :: "outcome \<Rightarrow> bool" where
  "took_effect answer \<longleftrightarrow> answer \<noteq> Refused"

lemma took_effect_simps [simp]: "took_effect Done" "took_effect Unacked" "\<not> took_effect Refused"
  by (simp_all add: took_effect_def)

section \<open>Rows\<close>

definition trunc_millis :: "int \<Rightarrow> int" where
  "trunc_millis t = t - t mod 1000000"

lemma trunc_millis_idem [simp]: "trunc_millis (trunc_millis t) = trunc_millis t"
  by (simp add: trunc_millis_def mod_diff_eq)

record pb_location =
  pb_offset :: nat
  pb_compressed_size :: u32
  pb_raw_size :: u32

definition pb_from_columns :: "nat \<Rightarrow> u32 \<Rightarrow> u32 \<Rightarrow> pb_location option" where
  "pb_from_columns offset compressed_size raw_size =
     (if 0 < raw_size \<and> 0 < offset
      then Some \<lparr>pb_offset = offset, pb_compressed_size = compressed_size, pb_raw_size = raw_size\<rparr> else None)"

definition in_pack :: "pb_location \<Rightarrow> string \<Rightarrow> pack_location" where
  "in_pack pb key =
     \<lparr>pl_pack_key = key, pl_offset = pb_offset pb, pl_compressed_size = pb_compressed_size pb,
      pl_raw_size = pb_raw_size pb, pl_codec = ''zstd''\<rparr>"

record index_row =
  rw_id :: uuid
  rw_source :: string
  rw_sha256 :: string
  rw_received_at :: int
  rw_played_at :: "int option"
  rw_players :: "string list"
  rw_rule :: "string option"
  rw_event_count :: u32
  rw_storage :: pack_location
  rw_majsoul_pb :: "pb_location option"

text \<open>A row that differs from others by its id and its pack only.\<close>

definition sample_row :: "uuid \<Rightarrow> string \<Rightarrow> index_row" where
  "sample_row u key =
     \<lparr>rw_id = u, rw_source = ''watch'', rw_sha256 = [], rw_received_at = 0, rw_played_at = None, rw_players = [],
      rw_rule = None, rw_event_count = 1, rw_storage = \<lparr>pl_pack_key = key, pl_offset = 32,
        pl_compressed_size = 1, pl_raw_size = 1, pl_codec = ''zstd''\<rparr>, rw_majsoul_pb = None\<rparr>"

record player_game =
  pg_record_id :: uuid
  pg_played_at :: int
  pg_rule :: "string option"
  pg_seats :: u8
  pg_detailed :: bool
  pg_stats :: seat_stats

definition player_games_of :: "index_row \<Rightarrow> game_stats \<Rightarrow> player_game list" where
  "player_games_of row game =
     (let played_at = (case rw_played_at row of Some t \<Rightarrow> t | None \<Rightarrow> rw_received_at row)
      in map (\<lambda>stats. \<lparr>pg_record_id = rw_id row, pg_played_at = trunc_millis played_at, pg_rule = rw_rule row,
             pg_seats = gs_seats game, pg_detailed = gs_detailed game, pg_stats = stats\<rparr>)
           (filter (\<lambda>stats. ss_player stats \<noteq> []) (gs_players game)))"

section \<open>Claims\<close>

datatype key_scope = Game | Caller

definition content_must_match :: "key_scope \<Rightarrow> bool" where
  "content_must_match scope \<longleftrightarrow> scope = Caller"

definition expires :: "key_scope \<Rightarrow> bool" where
  "expires scope \<longleftrightarrow> scope = Caller"

datatype catalog_error = Conflict | Pending | Index_Error | Store_Error

datatype idempotency_claim = New | Existing uuid

record claim_row =
  cr_record_id :: uuid
  cr_content_sha256 :: string
  cr_expires :: bool
  cr_created_at :: int

type_synonym claims = "u8 list \<rightharpoonup> claim_row"

text \<open>\<^verbatim>\<open>INSERT ... ON CONFLICT (key_hash) DO NOTHING RETURNING record_id\<close>\<close>

definition insert_claim ::
  "(u8 list \<Rightarrow> u8 list) \<Rightarrow> int \<Rightarrow> string \<Rightarrow> uuid \<Rightarrow> string \<Rightarrow> key_scope \<Rightarrow> claims \<Rightarrow> bool \<times> claims" where
  "insert_claim digest now key record_id sha256 scope claims =
     (let key_hash = digest (as_bytes key)
      in case claims key_hash of
           Some _ \<Rightarrow> (False, claims)
         | None \<Rightarrow> (True, claims(key_hash \<mapsto>
             \<lparr>cr_record_id = record_id, cr_content_sha256 = sha256, cr_expires = expires scope, cr_created_at = now\<rparr>)))"

text \<open>The \<^verbatim>\<open>SELECT\<close> that follows when the key was taken.\<close>

definition lookup_claim ::
  "(u8 list \<Rightarrow> u8 list) \<Rightarrow> string \<Rightarrow> string \<Rightarrow> key_scope \<Rightarrow> claims \<Rightarrow> catalog_error + idempotency_claim" where
  "lookup_claim digest key sha256 scope claims =
     (case claims (digest (as_bytes key)) of
        None \<Rightarrow> Inl Pending
      | Some row \<Rightarrow>
          if content_must_match scope \<and> cr_content_sha256 row \<noteq> sha256 then Inl Conflict
          else Inr (Existing (cr_record_id row)))"

text \<open>\<open>claim\<close>: \<open>answer\<close> is the outcome of the \<^verbatim>\<open>INSERT\<close>, \<open>selected\<close> whether the \<^verbatim>\<open>SELECT\<close> was
  answered, and \<open>meanwhile\<close> what other requests do to the table between the two statements.\<close>

definition claim ::
  "(u8 list \<Rightarrow> u8 list) \<Rightarrow> int \<Rightarrow> outcome \<Rightarrow> bool \<Rightarrow> (claims \<Rightarrow> claims) \<Rightarrow> string \<Rightarrow> uuid \<Rightarrow> string \<Rightarrow> key_scope \<Rightarrow> claims \<Rightarrow>
   (catalog_error + idempotency_claim) \<times> claims" where
  "claim digest now answer selected meanwhile key record_id sha256 scope claims =
     (let (won, inserted) = insert_claim digest now key record_id sha256 scope claims;
          claims = (if took_effect answer then inserted else claims)
      in if answer \<noteq> Done then (Inl Store_Error, claims)
         else if won then (Inr New, claims)
         else let claims = meanwhile claims
              in (if selected then lookup_claim digest key sha256 scope claims else Inl Store_Error, claims))"

text \<open>\<^verbatim>\<open>INSERT ... ON CONFLICT DO UPDATE SET expires = false\<close>, row by row; the caller passes each
  key once.\<close>

definition adopt_one :: "(u8 list \<Rightarrow> u8 list) \<Rightarrow> int \<Rightarrow> string \<times> uuid \<times> string \<Rightarrow> claims \<Rightarrow> claims" where
  "adopt_one digest now adopted claims =
     (let (key, record_id, sha256) = adopted; key_hash = digest (as_bytes key)
      in claims(key_hash \<mapsto> (case claims key_hash of
           Some row \<Rightarrow> row\<lparr>cr_expires := False\<rparr>
         | None \<Rightarrow> \<lparr>cr_record_id = record_id, cr_content_sha256 = sha256, cr_expires = False, cr_created_at = now\<rparr>)))"

definition adopt_game_claims ::
  "(u8 list \<Rightarrow> u8 list) \<Rightarrow> int \<Rightarrow> (string \<times> uuid \<times> string) list \<Rightarrow> claims \<Rightarrow> nat \<times> claims" where
  "adopt_game_claims digest now adopted claims = (length adopted, fold (adopt_one digest now) adopted claims)"

definition abandon_claim :: "(u8 list \<Rightarrow> u8 list) \<Rightarrow> string \<Rightarrow> uuid \<Rightarrow> claims \<Rightarrow> claims" where
  "abandon_claim digest key record_id claims =
     (let key_hash = digest (as_bytes key)
      in case claims key_hash of
           Some row \<Rightarrow> if cr_record_id row = record_id then claims(key_hash := None) else claims
         | None \<Rightarrow> claims)"

definition idempotency_retention :: int where
  "idempotency_retention = 30 * 24 * 60 * 60 * 1000000000"

definition prune :: "int \<Rightarrow> claims \<Rightarrow> claims" where
  "prune now claims =
     (\<lambda>key_hash. case claims key_hash of
        Some row \<Rightarrow> if cr_expires row \<and> cr_created_at row < now - idempotency_retention then None else Some row
      | None \<Rightarrow> None)"

definition claimed_games :: "u8 list list \<Rightarrow> claims \<Rightarrow> u8 list set" where
  "claimed_games hashes claims = {h \<in> set hashes. claims h \<noteq> None}"

section \<open>The index\<close>

text \<open>A row as it reads back (\<^verbatim>\<open>record_json\<close>, then \<^verbatim>\<open>Record::from\<close>): times to the millisecond, an
  empty rule as none, the event count of a 16-bit column, a protobuf only when its columns say
  there is one. The codec column is not read: every entry is zstd.\<close>

definition stored_row :: "index_row \<Rightarrow> index_row" where
  "stored_row row = row\<lparr>rw_received_at := trunc_millis (rw_received_at row),
     rw_played_at := map_option trunc_millis (rw_played_at row),
     rw_rule := (case rw_rule row of None \<Rightarrow> None | Some rule \<Rightarrow> if rule = [] then None else Some rule),
     rw_event_count := min (rw_event_count row) 0xFFFF,
     rw_majsoul_pb := (case rw_majsoul_pb row of None \<Rightarrow> pb_from_columns 0 0 0
       | Some pb \<Rightarrow> pb_from_columns (pb_offset pb) (pb_compressed_size pb) (pb_raw_size pb))\<rparr>"

text \<open>\<open>insert_batch\<close>: nothing is sent for no records.\<close>

definition insert_batch :: "outcome \<Rightarrow> index_row list \<Rightarrow> index_row list \<Rightarrow> (catalog_error + unit) \<times> index_row list" where
  "insert_batch answer records index =
     (if records = [] then (Inr (), index)
      else (if answer = Done then Inr () else Inl Index_Error,
            if took_effect answer then index @ map stored_row records else index))"

text \<open>\<open>month_blocks\<close>: \<open>month_of\<close> numbers the calendar months of the played times in order.\<close>

definition max_months_per_insert :: nat where
  "max_months_per_insert = 64"

definition by_month :: "(int \<Rightarrow> int) \<Rightarrow> player_game list \<Rightarrow> player_game list list" where
  "by_month month_of games =
     map (\<lambda>month. filter (\<lambda>game. month_of (pg_played_at game) = month) games)
       (sort (remdups (map (\<lambda>game. month_of (pg_played_at game)) games)))"

definition month_step ::
  "player_game list \<Rightarrow> player_game list list \<times> player_game list \<times> nat \<Rightarrow> player_game list list \<times> player_game list \<times> nat" where
  "month_step rows acc =
     (let (blocks, batch, months) = acc; batch = batch @ rows; months = months + 1
      in if months = max_months_per_insert then (blocks @ [batch], [], 0) else (blocks, batch, months))"

definition month_blocks :: "(int \<Rightarrow> int) \<Rightarrow> player_game list \<Rightarrow> player_game list list" where
  "month_blocks month_of games =
     (let (blocks, batch, _) = fold month_step (by_month month_of games) ([], [], 0)
      in if batch \<noteq> [] then blocks @ [batch] else blocks)"

text \<open>One statement per block; the first that is not acknowledged ends the insert.\<close>

fun insert_blocks ::
  "(player_game list \<Rightarrow> outcome) \<Rightarrow> player_game list list \<Rightarrow> player_game list \<Rightarrow> (catalog_error + unit) \<times> player_game list" where
  "insert_blocks sent [] table = (Inr (), table)"
| "insert_blocks sent (block # blocks) table =
     (let table' = (if took_effect (sent block) then table @ block else table)
      in if sent block = Done then insert_blocks sent blocks table' else (Inl Index_Error, table'))"

definition insert_player_games ::
  "(int \<Rightarrow> int) \<Rightarrow> (player_game list \<Rightarrow> outcome) \<Rightarrow> player_game list \<Rightarrow> player_game list \<Rightarrow>
   (catalog_error + unit) \<times> player_game list" where
  "insert_player_games month_of sent games table = insert_blocks sent (month_blocks month_of games) table"

definition indexed_counts :: "string list \<Rightarrow> index_row list \<Rightarrow> (string \<times> nat) list" where
  "indexed_counts pack_keys index =
     map (\<lambda>key. (key, length (remdups (map rw_id (filter (\<lambda>row. pl_pack_key (rw_storage row) = key) index)))))
       (filter (\<lambda>key. key \<in> set pack_keys) (remdups (map (\<lambda>row. pl_pack_key (rw_storage row)) index)))"

definition indexed_pack_keys :: "index_row list \<Rightarrow> string list" where
  "indexed_pack_keys index = remdups (map (\<lambda>row. pl_pack_key (rw_storage row)) index)"

definition indexed_ids :: "string \<Rightarrow> index_row list \<Rightarrow> uuid list" where
  "indexed_ids key index = remdups (map rw_id (filter (\<lambda>row. pl_pack_key (rw_storage row) = key) index))"

section \<open>The register of claims\<close>

text \<open>
  What ingest relies on: taking a free key makes its owner visible, a taken key is answered
  with its owner and nothing changes hands, and only the owner can give it up. \<open>owner\<close> is
  the record a key currently belongs to.
\<close>

text \<open>A run of requests, served one after the other: each takes a key or releases one. The
  answers say which requests won.\<close>

fun run_requests ::
  "('k \<Rightarrow> uuid \<Rightarrow> 'st \<Rightarrow> bool \<times> 'st) \<Rightarrow> ('k \<Rightarrow> uuid \<Rightarrow> 'st \<Rightarrow> 'st) \<Rightarrow> ('k \<times> uuid \<times> bool) list \<Rightarrow> 'st \<Rightarrow> bool list \<times> 'st" where
  "run_requests acquire release [] st = ([], st)"
| "run_requests acquire release ((k, u, taking) # ops) st =
     (let (won, st') = (if taking then acquire k u st else (False, release k u st));
          (wins, st'') = run_requests acquire release ops st'
      in (won # wins, st''))"

locale claim_register =
  fixes owner :: "'k \<Rightarrow> 'st \<Rightarrow> uuid option"
    and acquire :: "'k \<Rightarrow> uuid \<Rightarrow> 'st \<Rightarrow> bool \<times> 'st"
    and release :: "'k \<Rightarrow> uuid \<Rightarrow> 'st \<Rightarrow> 'st"
  assumes take_free: "owner k st = None \<Longrightarrow> fst (acquire k u st) \<and> owner k (snd (acquire k u st)) = Some u"
    and take_taken: "owner k st = Some v \<Longrightarrow> acquire k u st = (False, st)"
    and take_other: "owner k' st = Some v \<Longrightarrow> owner k' (snd (acquire k u st)) = Some v"
    and release_own: "owner k (release k u st) = (if owner k st = Some u then None else owner k st)"
    and release_other: "owner k' st = Some v \<Longrightarrow> v \<noteq> u \<Longrightarrow> owner k' (release k u st) = Some v"
begin

text \<open>As long as the owner does not give the key up, it stays the owner and no other request
  wins the key.\<close>

lemma owner_step:
  "owner k st = Some v \<Longrightarrow> (\<not> taking \<Longrightarrow> u \<noteq> v) \<Longrightarrow>
     owner k (snd (if taking then acquire k' u st else (False, release k' u st))) = Some v"
  using take_other [of k st v k' u] release_other [of k st v u k'] by auto

lemma owner_keeps:
  assumes "owner k st = Some v" and "\<forall>op \<in> set ops. \<not> snd (snd op) \<longrightarrow> fst (snd op) \<noteq> v"
  shows "owner k (snd (run_requests acquire release ops st)) = Some v \<and>
     (\<forall>i < length ops. fst (ops ! i) = k \<longrightarrow> \<not> fst (run_requests acquire release ops st) ! i)"
  using assms
proof (induction ops arbitrary: st)
  case (Cons op ops)
  obtain k' u taking where op: "op = (k', u, taking)" by (cases op)
  define next_st where "next_st = snd (if taking then acquire k' u st else (False, release k' u st))"
  define won where "won = fst (if taking then acquire k' u st else (False, release k' u st))"
  have run [unfolded op]: "run_requests acquire release (op # ops) st =
      (won # fst (run_requests acquire release ops next_st), snd (run_requests acquire release ops next_st))"
    by (simp add: op next_st_def won_def case_prod_beta Let_def)
  have "owner k next_st = Some v"
    unfolding next_st_def using Cons.prems by (intro owner_step) (auto simp: op)
  from Cons.IH [OF this] Cons.prems(2) have rest: "owner k (snd (run_requests acquire release ops next_st)) = Some v"
    "\<forall>i < length ops. fst (ops ! i) = k \<longrightarrow> \<not> fst (run_requests acquire release ops next_st) ! i"
    by auto
  have "k' = k \<Longrightarrow> \<not> won" using take_taken [OF Cons.prems(1)] by (simp add: won_def)
  then show ?case using rest by (auto simp: run nth_Cons op simp del: run_requests.simps split: nat.splits)
qed simp

text \<open>Of any number of requests for one free key the first wins and no other does.\<close>

lemma first_wins:
  assumes "owner k st = None"
  shows "run_requests acquire release (map (\<lambda>u. (k, u, True)) (u # us)) st = (True # replicate (length us) False, snd (acquire k u st))"
proof -
  have "run_requests acquire release (map (\<lambda>u. (k, u, True)) us) st' = (replicate (length us) False, st')"
    if "owner k st' = Some v" for st' v
    using take_taken [OF that] by (induction us) auto
  from this [of "snd (acquire k u st)" u] take_free [OF assms, of u] show ?thesis
    by (auto simp: case_prod_beta Let_def)
qed

end

definition claim_owner :: "(u8 list \<Rightarrow> u8 list) \<Rightarrow> string \<Rightarrow> claims \<Rightarrow> uuid option" where
  "claim_owner digest key claims = map_option cr_record_id (claims (digest (as_bytes key)))"

text \<open>A request whose statements are answered has the key when it is told that it is new.\<close>

definition answered_claim ::
  "(u8 list \<Rightarrow> u8 list) \<Rightarrow> int \<Rightarrow> string \<Rightarrow> key_scope \<Rightarrow> string \<Rightarrow> uuid \<Rightarrow> claims \<Rightarrow> bool \<times> claims" where
  "answered_claim digest now sha256 scope key u claims =
     (case claim digest now Done True (\<lambda>c. c) key u sha256 scope claims of (told, claims') \<Rightarrow> (told = Inr New, claims'))"

lemma answered_claim_cases:
  "answered_claim digest now sha256 scope key u claims =
     (if claim_owner digest key claims = None then (True, snd (insert_claim digest now key u sha256 scope claims)) else (False, claims))"
  by (auto simp: answered_claim_def claim_def insert_claim_def lookup_claim_def claim_owner_def Let_def split: option.splits if_splits)

interpretation scoped_claims: claim_register "claim_owner digest" "answered_claim digest now sha256 scope" "abandon_claim digest"
  for digest now sha256 scope
  by unfold_locales
     (auto simp: answered_claim_cases claim_owner_def insert_claim_def abandon_claim_def Let_def split: option.splits if_splits)

section \<open>Blocks of months\<close>

lemma by_month_span:
  "rows \<in> set (by_month month_of games) \<Longrightarrow>
     rows \<noteq> [] \<and> (\<exists>month. (\<lambda>game. month_of (pg_played_at game)) ` set rows \<subseteq> {month})"
  by (auto simp: by_month_def filter_empty_conv)

lemma mset_filter_by_key:
  assumes "distinct ks" and "key ` set xs \<subseteq> set ks"
  shows "mset (concat (map (\<lambda>k. filter (\<lambda>x. key x = k) xs) ks)) = mset xs"
  using assms
proof (induction ks arbitrary: xs)
  case (Cons k ks)
  let ?rest = "filter (\<lambda>x. key x \<noteq> k) xs"
  have "map (\<lambda>j. filter (\<lambda>x. key x = j) xs) ks = map (\<lambda>j. filter (\<lambda>x. key x = j) ?rest) ks"
    using Cons.prems(1) by (auto intro!: filter_cong)
  moreover have "mset (concat (map (\<lambda>j. filter (\<lambda>x. key x = j) ?rest) ks)) = mset ?rest"
    using Cons.prems by (intro Cons.IH) auto
  ultimately have "mset (concat (map (\<lambda>j. filter (\<lambda>x. key x = j) xs) ks)) = mset ?rest"
    by (simp only:)
  then have "mset (concat (map (\<lambda>j. filter (\<lambda>x. key x = j) xs) (k # ks))) =
      filter_mset (\<lambda>x. key x = k) (mset xs) + filter_mset (\<lambda>x. \<not> key x = k) (mset xs)"
    by simp
  then show ?case by (simp only: multiset_partition [symmetric])
qed auto

lemma mset_by_month: "mset (concat (by_month month_of games)) = mset games"
  unfolding by_month_def by (rule mset_filter_by_key) auto

text \<open>After some months, every closed block and the open one hold what was read and span at most
  the number of months counted.\<close>

definition months_of :: "(int \<Rightarrow> int) \<Rightarrow> player_game list \<Rightarrow> int set" where
  "months_of month_of games = (\<lambda>game. month_of (pg_played_at game)) ` set games"

lemma months_of_Nil [simp]: "months_of month_of [] = {}"
  by (simp add: months_of_def)

definition blocking ::
  "(int \<Rightarrow> int) \<Rightarrow> player_game list \<Rightarrow> player_game list list \<times> player_game list \<times> nat \<Rightarrow> bool" where
  "blocking month_of seen acc \<longleftrightarrow>
     (case acc of (blocks, batch, months) \<Rightarrow>
        concat blocks @ batch = seen \<and> (\<forall>block \<in> set blocks. block \<noteq> [] \<and> card (months_of month_of block) \<le> max_months_per_insert) \<and>
        card (months_of month_of batch) \<le> months \<and> months < max_months_per_insert)"

lemma card_months_append:
  assumes "(\<lambda>game. month_of (pg_played_at game)) ` set rows \<subseteq> {month}"
  shows "card (months_of month_of (batch @ rows)) \<le> Suc (card (months_of month_of batch))"
proof -
  have "months_of month_of (batch @ rows) \<subseteq> insert month (months_of month_of batch)"
    using assms by (auto simp: months_of_def)
  then have "card (months_of month_of (batch @ rows)) \<le> card (insert month (months_of month_of batch))"
    by (intro card_mono) (auto simp: months_of_def)
  also have "\<dots> \<le> Suc (card (months_of month_of batch))" by (rule card_insert_le_m1 [of "Suc _", simplified]) simp
  finally show ?thesis .
qed

lemma blocking_step:
  assumes "blocking month_of seen acc" and "rows \<noteq> []"
    and "(\<lambda>game. month_of (pg_played_at game)) ` set rows \<subseteq> {month}"
  shows "blocking month_of (seen @ rows) (month_step rows acc)"
  using assms(1,2) card_months_append [OF assms(3), of "fst (snd acc)"]
  by (auto simp: blocking_def month_step_def Let_def max_months_per_insert_def split: prod.splits)

lemma blocking_fold:
  assumes "\<forall>rows \<in> set groups. rows \<noteq> [] \<and> (\<exists>month. (\<lambda>game. month_of (pg_played_at game)) ` set rows \<subseteq> {month})"
    and "blocking month_of seen acc"
  shows "blocking month_of (seen @ concat groups) (fold month_step groups acc)"
  using assms
proof (induction groups arbitrary: seen acc)
  case (Cons rows groups)
  then obtain month where "(\<lambda>game. month_of (pg_played_at game)) ` set rows \<subseteq> {month}" by auto
  then have "blocking month_of (seen @ rows) (month_step rows acc)"
    using Cons.prems by (intro blocking_step) auto
  from Cons.IH [OF _ this] Cons.prems(1) show ?case by simp
qed simp

lemma month_blocks_ok:
  "concat (month_blocks month_of games) = concat (by_month month_of games) \<and>
   (\<forall>block \<in> set (month_blocks month_of games). block \<noteq> [] \<and> card (months_of month_of block) \<le> max_months_per_insert)"
proof -
  have "blocking month_of (concat (by_month month_of games)) (fold month_step (by_month month_of games) ([], [], 0))"
    using blocking_fold [of "by_month month_of games" month_of "[]" "([], [], 0)"] by_month_span
    by (fastforce simp: blocking_def max_months_per_insert_def months_of_def)
  then show ?thesis by (auto simp: month_blocks_def blocking_def split: prod.splits)
qed

lemma insert_blocks_Done:
  "\<forall>block \<in> set blocks. sent block = Done \<Longrightarrow> insert_blocks sent blocks table = (Inr (), table @ concat blocks)"
  by (induction blocks arbitrary: table) auto

section \<open>Claims over time\<close>

text \<open>What a game claim is there for: once some record owns a game, no sequence of further claims,
  releases by others, adoptions and prunings takes the game away from it.\<close>

lemma prune_keeps_game:
  "claims h = Some row \<Longrightarrow> \<not> cr_expires row \<Longrightarrow> prune now claims h = Some row"
  by (simp add: prune_def)

lemma lookup_claim_owner:
  "lookup_claim digest key sha256 scope claims = Inr (Existing v) \<longleftrightarrow>
     claim_owner digest key claims = Some v \<and>
     (content_must_match scope \<longrightarrow> map_option cr_content_sha256 (claims (digest (as_bytes key))) = Some sha256)"
  by (auto simp: lookup_claim_def claim_owner_def split: option.splits)

definition permanent :: "(u8 list \<Rightarrow> u8 list) \<Rightarrow> string \<Rightarrow> uuid \<Rightarrow> claims \<Rightarrow> bool" where
  "permanent digest key v claims \<longleftrightarrow>
     (case claims (digest (as_bytes key)) of Some row \<Rightarrow> cr_record_id row = v \<and> \<not> cr_expires row | None \<Rightarrow> False)"

text \<open>The requests that reach the table.\<close>

datatype claim_request =
    Claim_Request int string uuid string key_scope
  | Abandon_Request string uuid
  | Adopt_Request int "(string \<times> uuid \<times> string) list"
  | Prune_Request int

fun serve_claim :: "(u8 list \<Rightarrow> u8 list) \<Rightarrow> claim_request \<Rightarrow> claims \<Rightarrow> claims" where
  "serve_claim digest (Claim_Request now key u sha256 scope) claims = snd (insert_claim digest now key u sha256 scope claims)"
| "serve_claim digest (Abandon_Request key u) claims = abandon_claim digest key u claims"
| "serve_claim digest (Adopt_Request now adopted) claims = snd (adopt_game_claims digest now adopted claims)"
| "serve_claim digest (Prune_Request now) claims = prune now claims"

lemma permanent_adopt_one: "permanent digest key v claims \<Longrightarrow> permanent digest key v (adopt_one digest now adopted claims)"
  by (auto simp: adopt_one_def permanent_def Let_def split: prod.splits option.splits)

lemma permanent_adopt: "permanent digest key v claims \<Longrightarrow> permanent digest key v (snd (adopt_game_claims digest now adopted claims))"
  unfolding adopt_game_claims_def snd_conv
  by (induction adopted arbitrary: claims) (simp_all add: permanent_adopt_one)

lemma permanent_serve:
  assumes "permanent digest key v claims" and "\<forall>k. request \<noteq> Abandon_Request k v"
  shows "permanent digest key v (serve_claim digest request claims)"
  using assms
  by (cases request)
     (auto simp: permanent_adopt, auto simp: permanent_def insert_claim_def abandon_claim_def prune_def Let_def
       split: option.splits)

lemma permanent_run:
  "permanent digest key v claims \<Longrightarrow> \<forall>k. Abandon_Request k v \<notin> set requests \<Longrightarrow>
     permanent digest key v (fold (serve_claim digest) requests claims)"
proof (induction requests arbitrary: claims)
  case (Cons request requests)
  then have "permanent digest key v (serve_claim digest request claims)" by (intro permanent_serve) auto
  from Cons.IH [OF this] Cons.prems(2) show ?case by simp
qed simp

section \<open>Properties\<close>

text \<open>Claim C8: one game is one record. Once a game is claimed, then whatever requests follow, for
  as long a time as they like (claims by others, releases by others, adoptions, prunings), a
  further claim of the game is answered with the first record's id and changes nothing, unless
  the owner itself gave the claim up.\<close>

theorem game_claim_is_permanent:
  assumes "claim digest now Done selected meanwhile key u sha256 Game claims = (Inr New, claims')"
    and "\<forall>k. Abandon_Request k u \<notin> set requests"
  shows "claim digest now' Done True (\<lambda>c. c) key v sha256' Game (fold (serve_claim digest) requests claims') =
     (Inr (Existing u), fold (serve_claim digest) requests claims')"
proof -
  have "permanent digest key u claims'"
    using assms(1)
    by (auto simp: claim_def insert_claim_def permanent_def expires_def Let_def lookup_claim_def split: option.splits if_splits)
  from permanent_run [OF this assms(2)] show ?thesis
    by (auto simp: permanent_def claim_def insert_claim_def lookup_claim_def content_must_match_def Let_def
        split: option.splits)
qed

text \<open>A claim fails only for the reasons it names: a conflict means a caller's key whose
  stored content differs, pending means that the key was taken at the insert and free at the
  lookup, and a claim that answers with an existing record never changes the table itself.\<close>

theorem claim_errors_explained:
  "(fst (claim digest now answer selected meanwhile key u sha256 scope claims) = Inl Conflict \<longrightarrow>
      scope = Caller \<and> (\<exists>row. meanwhile claims (digest (as_bytes key)) = Some row \<and> cr_content_sha256 row \<noteq> sha256)) \<and>
   (fst (claim digest now answer selected meanwhile key u sha256 scope claims) = Inl Pending \<longrightarrow>
      claims (digest (as_bytes key)) \<noteq> None \<and> meanwhile claims (digest (as_bytes key)) = None) \<and>
   (\<forall>v. fst (claim digest now answer selected meanwhile key u sha256 scope claims) = Inr (Existing v) \<longrightarrow>
      snd (claim digest now answer selected meanwhile key u sha256 scope claims) = meanwhile claims)"
  by (auto simp: claim_def insert_claim_def lookup_claim_def content_must_match_def Let_def
      split: option.splits if_splits key_scope.splits)

text \<open>The seat rows of a batch are sent in blocks that hold every row once, none of them
  empty, and no block spans more months than one statement may touch; when every block is
  acknowledged the table gains exactly those rows.\<close>

theorem seat_rows_by_month:
  "mset (concat (month_blocks month_of games)) = mset games \<and>
   (\<forall>block. block \<in> set (month_blocks month_of games) \<longrightarrow>
      block \<noteq> [] \<and> card ((\<lambda>game. month_of (pg_played_at game)) ` set block) \<le> 64) \<and>
   insert_player_games month_of (\<lambda>_. Done) games table = (Inr (), table @ concat (month_blocks month_of games))"
  using month_blocks_ok [of month_of games] mset_by_month [of month_of games]
  by (simp add: months_of_def max_months_per_insert_def insert_player_games_def insert_blocks_Done)

text \<open>When any number of requests present one free key at once, in whatever order the
  database takes them, exactly one is told to store the record, and the others find its id.\<close>

theorem one_claim_wins:
  assumes "claim_owner digest key claims = None"
  shows "run_requests (answered_claim digest now sha256 scope) (abandon_claim digest)
       (map (\<lambda>u. (key, u, True)) (u # us)) claims =
     (True # replicate (length us) False, snd (answered_claim digest now sha256 scope key u claims)) \<and>
     fst (claim digest later Done True (\<lambda>c. c) key v sha256 scope (snd (answered_claim digest now sha256 scope key u claims))) =
       Inr (Existing u)"
proof (intro conjI)
  show "run_requests (answered_claim digest now sha256 scope) (abandon_claim digest)
       (map (\<lambda>u. (key, u, True)) (u # us)) claims =
     (True # replicate (length us) False, snd (answered_claim digest now sha256 scope key u claims))"
    using assms by (rule scoped_claims.first_wins)
  show "fst (claim digest later Done True (\<lambda>c. c) key v sha256 scope (snd (answered_claim digest now sha256 scope key u claims))) =
      Inr (Existing u)"
    using assms by (auto simp: answered_claim_cases claim_def lookup_claim_def insert_claim_def claim_owner_def Let_def)
qed

section \<open>Witnesses\<close>

theorem game_claim_is_permanent_witness:
  "fst (claim (\<lambda>b. b) 9 Done True (\<lambda>c. c) ''g'' [2] ''y'' Game
      (fold (serve_claim (\<lambda>b. b)) [Prune_Request (10 ^ 18), Abandon_Request ''g'' [3]]
        (snd (claim (\<lambda>b. b) 0 Done True (\<lambda>c. c) ''g'' [1] ''x'' Game Map.empty)))) = Inr (Existing [1])"
proof -
  have "claim (\<lambda>b. b) 0 Done True (\<lambda>c. c) ''g'' [1] ''x'' Game Map.empty =
      (Inr New, snd (claim (\<lambda>b. b) 0 Done True (\<lambda>c. c) ''g'' [1] ''x'' Game Map.empty))"
    by (simp add: claim_def insert_claim_def Let_def)
  from game_claim_is_permanent [OF this, of "[Prune_Request (10 ^ 18), Abandon_Request ''g'' [3]]" 9 "[2]" "''y''"]
  show ?thesis by simp
qed

theorem claim_errors_explained_witness:
  "fst (claim (\<lambda>b. b) 0 Done True (\<lambda>c. c) ''k'' [2] ''y'' Caller
      [as_bytes ''k'' \<mapsto> \<lparr>cr_record_id = [1], cr_content_sha256 = ''x'', cr_expires = True, cr_created_at = 0\<rparr>]) = Inl Conflict \<and>
   Caller = Caller"
proof -
  let ?table = "[as_bytes ''k'' \<mapsto> \<lparr>cr_record_id = [1], cr_content_sha256 = ''x'', cr_expires = True, cr_created_at = 0\<rparr>]"
  have "fst (claim (\<lambda>b. b) 0 Done True (\<lambda>c. c) ''k'' [2] ''y'' Caller ?table) = Inl Conflict"
    by (simp add: claim_def insert_claim_def lookup_claim_def content_must_match_def Let_def)
  with claim_errors_explained [of "\<lambda>b. b" 0 Done True "\<lambda>c. c" "''k''" "[2]" "''y''" Caller ?table] show ?thesis by simp
qed

theorem one_claim_wins_witness:
  "fst (run_requests (answered_claim (\<lambda>b. b) 0 ''x'' Caller) (abandon_claim (\<lambda>b. b))
      [(''k'', [1], True), (''k'', [2], True)] Map.empty) = [True, False]"
  using one_claim_wins [of "\<lambda>b. b" "''k''" Map.empty 0 "''x''" Caller "[1]" "[[2]]"] by (simp add: claim_owner_def)

definition sample_seat :: "int \<Rightarrow> player_game" where
  "sample_seat at = \<lparr>pg_record_id = [1], pg_played_at = at, pg_rule = None, pg_seats = 4, pg_detailed = True,
     pg_stats = default_stats\<rparr>"

theorem seat_rows_by_month_witness:
  "mset (concat (month_blocks (\<lambda>at. at div 30) [sample_seat 70, sample_seat 5])) = mset [sample_seat 70, sample_seat 5] \<and>
   month_blocks (\<lambda>at. at div 30) [sample_seat 70, sample_seat 5] = [[sample_seat 5, sample_seat 70]]"
  using seat_rows_by_month [of "\<lambda>at. at div 30" "[sample_seat 70, sample_seat 5]" "[]"]
  by (simp add: month_blocks_def by_month_def month_step_def max_months_per_insert_def sample_seat_def)

end
