(* ===== verification/Kafka.thy ===== *)
theory Kafka
  imports Catalog
begin

text \<open>
  \<^verbatim>\<open>src/kafka.rs\<close>: the message that carries a record through the topic, the routing and
  chunking of a produce, the fetch of a consumer and the stored offsets. The text forms of ids
  and times, and the size the client library counts for a record, are the fields of a record of
  library functions; the broker's answers are arguments. An offset is an integer, a time a
  number of nanoseconds. A partition's log is the list of its records, the first at offset
  zero.
\<close>

section \<open>Messages\<close>

record kafka_record =
  kr_key :: "u8 list option"
  kr_value :: "u8 list option"
  kr_headers :: "string \<rightharpoonup> u8 list"
  kr_timestamp :: int

record text_forms =
  uuid_to_string :: "uuid \<Rightarrow> string"
  uuid_parse_str :: "string \<Rightarrow> uuid option"
  to_rfc3339 :: "int \<Rightarrow> string"
  parse_from_rfc3339 :: "string \<Rightarrow> int option"

datatype kafka_error = Broker | Timeout | Malformed string | Offset_Store

record ingest_message =
  im_record_id :: uuid
  im_source :: string
  im_played_at :: "int option"
  im_raw :: "u8 list"
  im_majsoul_pb :: "u8 list option"
  im_received_at :: int

definition new_message ::
  "int \<Rightarrow> uuid \<Rightarrow> string \<Rightarrow> int option \<Rightarrow> u8 list \<Rightarrow> u8 list option \<Rightarrow> ingest_message" where
  "new_message now record_id source played_at raw majsoul_pb =
     \<lparr>im_record_id = record_id, im_source = source, im_played_at = map_option trunc_millis played_at, im_raw = raw,
      im_majsoul_pb = majsoul_pb, im_received_at = trunc_millis now\<rparr>"

definition reindex ::
  "uuid \<Rightarrow> string \<Rightarrow> int \<Rightarrow> int option \<Rightarrow> u8 list \<Rightarrow> u8 list option \<Rightarrow> ingest_message" where
  "reindex record_id source received_at played_at raw majsoul_pb =
     \<lparr>im_record_id = record_id, im_source = source, im_played_at = map_option trunc_millis played_at, im_raw = raw,
      im_majsoul_pb = majsoul_pb, im_received_at = trunc_millis received_at\<rparr>"

definition into_record :: "text_forms \<Rightarrow> ingest_message \<Rightarrow> kafka_record" where
  "into_record lib msg =
     (let headers = [''source'' \<mapsto> as_bytes (im_source msg)];
          headers = (case im_played_at msg of
            Some at \<Rightarrow> headers(''played_at'' \<mapsto> as_bytes (to_rfc3339 lib at)) | None \<Rightarrow> headers);
          headers = (case im_majsoul_pb msg of Some pb \<Rightarrow> headers(''majsoul_pb'' \<mapsto> pb) | None \<Rightarrow> headers)
      in \<lparr>kr_key = Some (as_bytes (uuid_to_string lib (im_record_id msg))), kr_value = Some (im_raw msg),
          kr_headers = headers, kr_timestamp = im_received_at msg\<rparr>)"

definition or_malformed :: "string \<Rightarrow> 'a option \<Rightarrow> kafka_error + 'a" where
  "or_malformed why value = (case value of Some v \<Rightarrow> Inr v | None \<Rightarrow> Inl (Malformed why))"

definition from_record :: "text_forms \<Rightarrow> kafka_record \<Rightarrow> kafka_error + ingest_message" where
  "from_record lib r =
     attempt (or_malformed ''message has no record id key'' (kr_key r)) (\<lambda>key.
     attempt (or_malformed ''message key is not a record id'' (Option.bind (from_utf8 key) (uuid_parse_str lib)))
       (\<lambda>record_id.
     attempt (or_malformed (uuid_to_string lib record_id @ '' carries no source'')
         (Option.bind (kr_headers r ''source'') from_utf8)) (\<lambda>source.
     let played_at = Option.bind (Option.bind (kr_headers r ''played_at'') from_utf8) (parse_from_rfc3339 lib);
         majsoul_pb = kr_headers r ''majsoul_pb''
     in attempt (or_malformed (uuid_to_string lib record_id @ '' has no body'') (kr_value r)) (\<lambda>raw.
          Inr \<lparr>im_record_id = record_id, im_source = source, im_played_at = played_at, im_raw = raw,
            im_majsoul_pb = majsoul_pb, im_received_at = kr_timestamp r\<rparr>))))"

section \<open>Producing\<close>

text \<open>The state of the client that the ingest path reads: one producer pool per partition and the
  sampled backlog of each.\<close>

record kafka =
  kf_producers :: nat
  kf_lag :: "i64 list"
  kf_max_lag :: i64

definition i64_saturate :: "int \<Rightarrow> i64" where
  "i64_saturate n = word_of_int (max (- (2 ^ 63)) (min (2 ^ 63 - 1) n))"

definition max_lag :: "kafka \<Rightarrow> i64" where
  "max_lag kafka = i64_saturate (sint (kf_max_lag kafka) * int (kf_producers kafka))"

definition lag :: "kafka \<Rightarrow> i64" where
  "lag kafka = sum_list (kf_lag kafka)"

definition partition_lag :: "int \<Rightarrow> int \<Rightarrow> int option \<Rightarrow> int" where
  "partition_lag high_watermark earliest committed =
     max (high_watermark - (case committed of Some c \<Rightarrow> c | None \<Rightarrow> earliest)) 0"

text \<open>\<open>as_u128\<close> reads the sixteen bytes big-endian.\<close>

definition as_u128 :: "uuid \<Rightarrow> nat" where
  "as_u128 u = foldl (\<lambda>n b. n * 256 + unat b) 0 u"

definition partition_for :: "nat \<Rightarrow> uuid \<Rightarrow> nat" where
  "partition_for producers record_id = as_u128 record_id mod producers"

definition max_produce_batch_bytes :: nat where
  "max_produce_batch_bytes = 768 * 1024"

definition chunk_step ::
  "('r \<Rightarrow> nat) \<Rightarrow> 'r \<Rightarrow> 'r list list \<times> 'r list \<times> nat \<Rightarrow> 'r list list \<times> 'r list \<times> nat" where
  "chunk_step approximate_size r acc =
     (let (chunks, current, current_bytes) = acc;
          (chunks, current, current_bytes) =
            (if current \<noteq> [] \<and> max_produce_batch_bytes < current_bytes + approximate_size r
             then (chunks @ [current], [], 0) else (chunks, current, current_bytes))
      in (chunks, current @ [r], current_bytes + approximate_size r))"

definition produce_chunks :: "('r \<Rightarrow> nat) \<Rightarrow> 'r list \<Rightarrow> 'r list list" where
  "produce_chunks approximate_size records =
     (let (chunks, current, _) = fold (chunk_step approximate_size) records ([], [], 0)
      in if current \<noteq> [] then chunks @ [current] else chunks)"

type_synonym topic = "nat \<Rightarrow> kafka_record list"

text \<open>On the wire a timestamp has milliseconds: what a record carries below that is lost.\<close>

definition wire :: "kafka_record \<Rightarrow> kafka_record" where
  "wire r = r\<lparr>kr_timestamp := trunc_millis (kr_timestamp r)\<rparr>"

text \<open>One produce request: the broker appends the batch as a whole or not at all, and its
  acknowledgement may be lost.\<close>

definition produce_chunk ::
  "(nat \<Rightarrow> kafka_record list \<Rightarrow> outcome) \<Rightarrow> nat \<Rightarrow> kafka_record list \<Rightarrow> topic \<Rightarrow> (kafka_error + unit) \<times> topic" where
  "produce_chunk broker part chunk topic =
     (let topic' = (if took_effect (broker part chunk) then topic(part := topic part @ map wire chunk) else topic)
      in if broker part chunk = Done then (Inr (), topic') else (Inl Broker, topic'))"

fun produce_requests ::
  "(nat \<Rightarrow> kafka_record list \<Rightarrow> outcome) \<Rightarrow> (nat \<times> kafka_record list) list \<Rightarrow> topic \<Rightarrow> (kafka_error + unit) \<times> topic" where
  "produce_requests broker [] topic = (Inr (), topic)"
| "produce_requests broker ((part, chunk) # rest) topic =
     (case produce_chunk broker part chunk topic of
        (Inl e, topic') \<Rightarrow> (Inl e, topic')
      | (Inr _, topic') \<Rightarrow> produce_requests broker rest topic')"

definition routed :: "text_forms \<Rightarrow> nat \<Rightarrow> ingest_message list \<Rightarrow> nat \<Rightarrow> kafka_record list" where
  "routed lib producers messages part =
     map (into_record lib) (filter (\<lambda>m. partition_for producers (im_record_id m) = part) messages)"

definition produce_batch ::
  "text_forms \<Rightarrow> (kafka_record \<Rightarrow> nat) \<Rightarrow> (nat \<Rightarrow> kafka_record list \<Rightarrow> outcome) \<Rightarrow> nat \<Rightarrow> ingest_message list \<Rightarrow> topic \<Rightarrow>
   (kafka_error + unit) \<times> topic" where
  "produce_batch lib approximate_size broker producers messages topic =
     produce_requests broker
       (concat (map (\<lambda>part. map (Pair part) (produce_chunks approximate_size (routed lib producers messages part))) [0..<producers]))
       topic"

definition produce ::
  "text_forms \<Rightarrow> (kafka_record \<Rightarrow> nat) \<Rightarrow> (nat \<Rightarrow> kafka_record list \<Rightarrow> outcome) \<Rightarrow> nat \<Rightarrow> ingest_message \<Rightarrow> topic \<Rightarrow>
   (kafka_error + unit) \<times> topic" where
  "produce lib approximate_size broker producers msg topic = produce_batch lib approximate_size broker producers [msg] topic"

text \<open>\<open>consumer\<close>: the partitions are numbered from zero.\<close>

definition consumer :: "kafka \<Rightarrow> int \<Rightarrow> nat option" where
  "consumer kafka part = (if 0 \<le> part \<and> nat part < kf_producers kafka then Some (nat part) else None)"

text \<open>\<open>sample_lag\<close>: per partition the answers for the head, the earliest offset and the stored
  offset. A failure ends the loop and leaves the readings it has not reached as they were.\<close>

definition sample_one ::
  "kafka \<Rightarrow> nat \<times> (kafka_error + int) \<times> (kafka_error + int) \<times> (kafka_error + int option) \<Rightarrow> kafka_error + kafka" where
  "sample_one kafka answers =
     (let (part, latest, earliest, committed) = answers
      in attempt latest (\<lambda>high_watermark. attempt earliest (\<lambda>e. attempt committed (\<lambda>c.
           Inr (kafka\<lparr>kf_lag := (kf_lag kafka)[part := word_of_int (partition_lag high_watermark e c)]\<rparr>)))))"

fun sample_lag ::
  "kafka \<Rightarrow> (nat \<times> (kafka_error + int) \<times> (kafka_error + int) \<times> (kafka_error + int option)) list \<Rightarrow>
   (kafka_error + i64) \<times> kafka" where
  "sample_lag kafka [] = (Inr (lag kafka), kafka)"
| "sample_lag kafka (answers # rest) =
     (case sample_one kafka answers of
        Inl e \<Rightarrow> (Inl e, kafka)
      | Inr kafka' \<Rightarrow> sample_lag kafka' rest)"

section \<open>Consuming\<close>

record fetched =
  ft_records :: "(int \<times> kafka_record) list"
  ft_high_watermark :: int
  ft_start_offset :: int

definition is_end_of_log :: "fetched \<Rightarrow> bool" where
  "is_end_of_log f \<longleftrightarrow> ft_records f = []"

definition next_offset :: "fetched \<Rightarrow> int" where
  "next_offset f = (case last_opt (ft_records f) of None \<Rightarrow> ft_start_offset f | Some l \<Rightarrow> fst l + 1)"

text \<open>What a fetch request answers: records and the high watermark, that the offset is out of
  range, or another failure.\<close>

datatype fetch_answer = Answer "(int \<times> kafka_record) list" int | Offset_Out_Of_Range | Fetch_Failed kafka_error

definition fetch_result :: "int \<Rightarrow> fetch_answer \<Rightarrow> kafka_error + fetched" where
  "fetch_result start answer =
     (case answer of
        Answer records hw \<Rightarrow> Inr \<lparr>ft_records = records, ft_high_watermark = hw, ft_start_offset = start\<rparr>
      | Offset_Out_Of_Range \<Rightarrow> Inl Broker
      | Fetch_Failed e \<Rightarrow> Inl e)"

text \<open>\<open>first\<close> and \<open>again\<close> are the answers of the two requests \<open>fetch\<close> may send, each as a function
  of the offset it asks for, \<open>earliest\<close> the answer to \<^verbatim>\<open>OffsetAt::Earliest\<close>.\<close>

definition fetch ::
  "(int \<Rightarrow> fetch_answer) \<Rightarrow> (kafka_error + int) \<Rightarrow> (int \<Rightarrow> fetch_answer) \<Rightarrow> int \<Rightarrow> kafka_error + fetched" where
  "fetch first earliest again offset =
     (case first offset of
        Offset_Out_Of_Range \<Rightarrow> attempt earliest (\<lambda>e. fetch_result e (again e))
      | answer \<Rightarrow> fetch_result offset answer)"

type_synonym offsets = "string \<times> int \<rightharpoonup> int"

definition load_offset :: "string \<Rightarrow> int \<Rightarrow> offsets \<Rightarrow> int option" where
  "load_offset topic part offsets = offsets (topic, part)"

definition commit_offset :: "string \<Rightarrow> int \<Rightarrow> int \<Rightarrow> offsets \<Rightarrow> offsets" where
  "commit_offset topic part next offsets = offsets((topic, part) \<mapsto> next)"

section \<open>Messages survive the topic\<close>

definition message_texts_ok :: "text_forms \<Rightarrow> ingest_message \<Rightarrow> bool" where
  "message_texts_ok lib msg \<longleftrightarrow>
     uuid_parse_str lib (uuid_to_string lib (im_record_id msg)) = Some (im_record_id msg) \<and>
     valid_utf8 (as_bytes (uuid_to_string lib (im_record_id msg))) \<and> valid_utf8 (as_bytes (im_source msg)) \<and>
     (case im_played_at msg of None \<Rightarrow> True
      | Some at \<Rightarrow> valid_utf8 (as_bytes (to_rfc3339 lib at)) \<and> parse_from_rfc3339 lib (to_rfc3339 lib at) = Some at)"

lemma into_record_headers [simp]:
  "kr_headers (into_record lib msg) ''source'' = Some (as_bytes (im_source msg))"
  "kr_headers (into_record lib msg) ''played_at'' = map_option (\<lambda>at. as_bytes (to_rfc3339 lib at)) (im_played_at msg)"
  "kr_headers (into_record lib msg) ''majsoul_pb'' = im_majsoul_pb msg"
  by (auto simp: into_record_def Let_def split: option.splits)

lemma into_record_fields [simp]:
  "kr_key (into_record lib msg) = Some (as_bytes (uuid_to_string lib (im_record_id msg)))"
  "kr_value (into_record lib msg) = Some (im_raw msg)"
  "kr_timestamp (into_record lib msg) = im_received_at msg"
  by (simp_all add: into_record_def Let_def)

lemma from_into_record:
  "message_texts_ok lib msg \<Longrightarrow> from_record lib (into_record lib msg) = Inr msg"
  by (auto simp: from_record_def message_texts_ok_def or_malformed_def from_utf8_def Let_def split: option.splits)

section \<open>Chunks\<close>

definition chunk_ok :: "('r \<Rightarrow> nat) \<Rightarrow> 'r list \<Rightarrow> bool" where
  "chunk_ok approximate_size chunk \<longleftrightarrow>
     chunk \<noteq> [] \<and> (length chunk = 1 \<or> sum_list (map approximate_size chunk) \<le> max_produce_batch_bytes)"

text \<open>While chunking, the closed chunks and the open one hold what was read, in order, and the
  open one is within the bound unless it holds one record.\<close>

definition chunking :: "('r \<Rightarrow> nat) \<Rightarrow> 'r list \<Rightarrow> 'r list list \<times> 'r list \<times> nat \<Rightarrow> bool" where
  "chunking approximate_size seen acc \<longleftrightarrow>
     (case acc of (chunks, current, bytes) \<Rightarrow>
        concat chunks @ current = seen \<and> list_all (chunk_ok approximate_size) chunks \<and>
        bytes = sum_list (map approximate_size current) \<and> (current = [] \<or> chunk_ok approximate_size current))"

lemma chunking_step [inv_intros]:
  "chunking approximate_size seen acc \<Longrightarrow> chunking approximate_size (seen @ [r]) (chunk_step approximate_size r acc)"
  by (auto simp: chunking_def chunk_step_def chunk_ok_def Let_def split: prod.splits if_splits)

lemma chunking_fold:
  "chunking approximate_size seen acc \<Longrightarrow>
     chunking approximate_size (seen @ records) (fold (chunk_step approximate_size) records acc)"
proof (induction records arbitrary: seen acc)
  case (Cons r records)
  from Cons.IH [OF chunking_step [OF Cons.prems, of r]] show ?case by simp
qed simp

lemma produce_chunks_ok:
  "concat (produce_chunks approximate_size records) = records \<and>
   list_all (chunk_ok approximate_size) (produce_chunks approximate_size records)"
proof -
  have "chunking approximate_size records (fold (chunk_step approximate_size) records ([], [], 0))"
    using chunking_fold [of approximate_size "[]" "([], [], 0)" records] by (simp add: chunking_def)
  then show ?thesis by (auto simp: produce_chunks_def chunking_def split: prod.splits)
qed

lemmas concat_produce_chunks [simp] = produce_chunks_ok [THEN conjunct1]

section \<open>A produce only appends\<close>

text \<open>What every partition gains: nothing, or some of its requests in order.\<close>

fun requests_for :: "nat \<Rightarrow> (nat \<times> kafka_record list) list \<Rightarrow> kafka_record list" where
  "requests_for part [] = []"
| "requests_for part ((p, chunk) # rest) = (if p = part then map wire chunk else []) @ requests_for part rest"

lemma requests_for_append [simp]: "requests_for part (xs @ ys) = requests_for part xs @ requests_for part ys"
  by (induction xs) auto

lemma requests_for_partition [simp]:
  "requests_for part (map (Pair p) chunks) = (if p = part then map wire (concat chunks) else [])"
  by (induction chunks) auto

lemma requests_for_routed:
  "requests_for part (concat (map (\<lambda>p. map (Pair p) (chunks p)) ps)) =
     concat (map (\<lambda>p. if p = part then map wire (concat (chunks p)) else []) ps)"
  by (induction ps) auto

lemma concat_map_single:
  "distinct ps \<Longrightarrow> concat (map (\<lambda>p. if p = part then f p else []) ps) = (if part \<in> set ps then f part else [])"
  by (induction ps) auto

lemma produce_requests_ok:
  "produce_requests broker reqs topic = (Inr (), topic') \<Longrightarrow> topic' part = topic part @ requests_for part reqs"
  by (induction reqs arbitrary: topic)
     (auto simp: produce_chunk_def Let_def split: prod.splits sum.splits if_splits)

lemma produce_requests_prefix:
  "produce_requests broker reqs topic = (res, topic') \<Longrightarrow>
     \<exists>n. topic' part = topic part @ requests_for part (take n reqs)"
proof (induction reqs arbitrary: topic)
  case (Cons req reqs)
  obtain p chunk where req: "req = (p, chunk)" by (cases req)
  obtain ans topic1 where step: "produce_chunk broker p chunk topic = (ans, topic1)" by fastforce
  have gains: "topic1 part = topic part \<or> topic1 part = topic part @ requests_for part [req]"
    using step by (auto simp: produce_chunk_def req Let_def split: if_splits)
  show ?case
  proof (cases ans)
    case (Inl e)
    then have "topic' = topic1" using Cons.prems step by (simp add: req)
    with gains show ?thesis by (metis append_Nil2 requests_for.simps(1) take_Suc_Cons take_0)
  next
    case (Inr u)
    then have "broker p chunk = Done" using step by (auto simp: produce_chunk_def Let_def split: if_splits)
    then have "topic1 part = topic part @ requests_for part [req]"
      using step by (auto simp: produce_chunk_def req Let_def)
    moreover obtain n where "topic' part = topic1 part @ requests_for part (take n reqs)"
      using Cons.IH Cons.prems step Inr by (fastforce simp: req)
    ultimately have "topic' part = topic part @ requests_for part (take (Suc n) (req # reqs))" by (simp add: req)
    then show ?thesis by blast
  qed
qed auto

lemma produce_batch_appends:
  assumes "produce_batch lib approximate_size broker producers messages topic = (Inr (), topic')" and "part < producers"
  shows "topic' part = topic part @ map wire (routed lib producers messages part)"
  using produce_requests_ok [OF assms(1) [unfolded produce_batch_def], of part] assms(2)
  by (simp add: requests_for_routed concat_map_single)

lemma requests_for_subset: "set (requests_for part (take n reqs)) \<subseteq> set (requests_for part reqs)"
  by (induction part reqs arbitrary: n rule: requests_for.induct) (auto simp: take_Cons' split: if_splits)

lemma produce_batch_extends:
  assumes "produce_batch lib approximate_size broker producers messages topic = (res, topic')"
  obtains gained where "topic' part = topic part @ gained" "set gained \<subseteq> wire ` set (routed lib producers messages part)"
proof -
  define reqs where "reqs = concat (map (\<lambda>p. map (Pair p) (produce_chunks approximate_size (routed lib producers messages p))) [0..<producers])"
  obtain n where "topic' part = topic part @ requests_for part (take n reqs)"
    using produce_requests_prefix assms unfolding produce_batch_def reqs_def by blast
  moreover have "set (requests_for part reqs) \<subseteq> wire ` set (routed lib producers messages part)"
    by (auto simp: reqs_def requests_for_routed concat_map_single)
  ultimately show thesis using that requests_for_subset by (meson order_trans)
qed

section \<open>Properties\<close>

text \<open>Messages of the two constructors have whole milliseconds, so that the wire takes nothing away.\<close>

inductive constructed :: "ingest_message \<Rightarrow> bool" where
  fresh: "constructed (new_message now record_id source played_at raw majsoul_pb)"
| again: "constructed (reindex record_id source received_at played_at raw majsoul_pb)"

lemma constructed_millis: "constructed msg \<Longrightarrow> trunc_millis (im_received_at msg) = im_received_at msg"
  by (induction rule: constructed.induct) (simp_all add: new_message_def reindex_def)

lemma from_wire_record:
  assumes "message_texts_ok lib msg" and "constructed msg"
  shows "from_record lib (wire (into_record lib msg)) = Inr msg"
proof -
  have "wire (into_record lib msg) = into_record lib msg"
    using constructed_millis [OF assms(2)] by (simp add: wire_def into_record_def Let_def)
  then show ?thesis using from_into_record [OF assms(1)] by simp
qed

text \<open>The messages of a batch that is produced with success, made by one of the two
  constructors, read back from their partition as they were and in their order, behind what was
  there: ingest time included, so that a replay of one lands on the same row of the index. The
  printed ids and times parse back, and the texts are UTF-8.\<close>

theorem produced_messages_read_back:
  assumes "produce_batch lib approximate_size broker producers messages topic = (Inr (), topic')" and "part < producers"
    and "\<forall>msg \<in> set messages. message_texts_ok lib msg \<and> constructed msg"
  shows "\<exists>gained. topic' part = topic part @ gained \<and> map (from_record lib) gained =
     map Inr (filter (\<lambda>msg. partition_for producers (im_record_id msg) = part) messages)"
  using produce_batch_appends [OF assms(1,2)] assms(3) from_wire_record
  by (auto simp: routed_def)

text \<open>The requests a batch is split into hold all its records in order, none of them is
  empty, and a request above the broker's bound holds one record.\<close>

theorem produce_chunks_bounded:
  "concat (produce_chunks approximate_size records) = records \<and>
   list_all (\<lambda>chunk. chunk \<noteq> [] \<and> \<not> (length chunk \<noteq> 1 \<and> 768 * 1024 < sum_list (map approximate_size chunk)))
     (produce_chunks approximate_size records)"
  using produce_chunks_ok [of approximate_size records]
  by (auto simp: chunk_ok_def max_produce_batch_bytes_def list_all_iff)

section \<open>Witnesses\<close>

definition toy_texts :: text_forms where
  "toy_texts = \<lparr>uuid_to_string = of_bytes, uuid_parse_str = (\<lambda>s. if length s = 16 then Some (as_bytes s) else None),
     to_rfc3339 = (\<lambda>at. ''at''), parse_from_rfc3339 = (\<lambda>s. if s = ''at'' then Some 5000000 else None)\<rparr>"

definition toy_message :: ingest_message where
  "toy_message = \<lparr>im_record_id = replicate 16 65, im_source = ''watch'', im_played_at = Some 5000000, im_raw = [1, 2],
     im_majsoul_pb = Some [3], im_received_at = 7000000\<rparr>"

lemma toy_message_ok: "message_texts_ok toy_texts toy_message"
proof -
  have "valid_utf8 (replicate 16 65)" by (rule valid_utf8_ascii_list) (simp add: list_all_iff)
  moreover have "valid_utf8 (as_bytes ''watch'')" "valid_utf8 (as_bytes ''at'')"
    by (simp_all add: valid_utf8_ascii_list as_bytes_def byte_of_char_def)
  ultimately show ?thesis by (simp add: message_texts_ok_def toy_texts_def toy_message_def)
qed

theorem produced_messages_read_back_witness:
  "\<exists>topic gained. produce_batch toy_texts (\<lambda>_. 10) (\<lambda>_ _. Done) 1 [toy_message] (\<lambda>_. []) = (Inr (), topic) \<and>
     topic 0 = gained \<and> map (from_record toy_texts) gained = [Inr toy_message]"
proof -
  obtain topic where run: "produce_batch toy_texts (\<lambda>_. 10) (\<lambda>_ _. Done) 1 [toy_message] (\<lambda>_. []) = (Inr (), topic)"
    by (simp add: produce_batch_def routed_def partition_for_def produce_chunks_def chunk_step_def produce_chunk_def)
  have "toy_message = new_message 7000000 (replicate 16 65) ''watch'' (Some 5000000) [1, 2] (Some [3])"
    by (simp add: toy_message_def new_message_def trunc_millis_def)
  then have "constructed toy_message" using constructed.fresh by metis
  with produced_messages_read_back [OF run, of 0] toy_message_ok run show ?thesis by (simp add: partition_for_def)
qed

end
