(* ===== verification/Indexer.thy ===== *)
theory Indexer
  imports Kafka
begin

text \<open>
  \<^verbatim>\<open>src/indexer.rs\<close>: the ingest half (claim, produce, release) and the pack worker (fetch,
  append, seal, upload, insert, commit). \<open>libs\<close> collects the library functions both halves call;
  the answers of the databases, the bucket and the broker are arguments, grouped in records by
  the operation that asks for them. \<open>world\<close> is what outlives the process: the claims, the topic,
  the stored offsets, the packs and the bucket, the index and the seat rows.
\<close>

section \<open>Libraries and services\<close>

record libs =
  lb_texts :: text_forms
  lb_from_str :: "string \<Rightarrow> json option"
  lb_from_str_vec :: "string \<Rightarrow> json list option"
  lb_to_string :: "json \<Rightarrow> string"
  lb_timestamp_ok :: "int \<Rightarrow> bool"
  lb_digest :: "u8 list \<Rightarrow> u8 list"
  lb_hex :: "u8 list \<Rightarrow> string"
  lb_compress :: "u8 list \<Rightarrow> u8 list option"
  lb_bulk :: "u8 list \<Rightarrow> nat \<Rightarrow> u8 list option"
  lb_approximate_size :: "kafka_record \<Rightarrow> nat"
  lb_month_of :: "int \<Rightarrow> int"

record world =
  wd_claims :: claims
  wd_topic :: topic
  wd_offsets :: offsets
  wd_store :: pack_store
  wd_index :: "index_row list"
  wd_games :: "player_game list"

abbreviation metadata_of_raw :: "libs \<Rightarrow> u8 list \<Rightarrow> parse_error + metadata" where
  "metadata_of_raw lb \<equiv> parse_metadata (lb_from_str lb) (lb_from_str_vec lb) (lb_to_string lb) (lb_timestamp_ok lb)"

abbreviation events_of_raw :: "libs \<Rightarrow> u8 list \<Rightarrow> parse_error + json list" where
  "events_of_raw lb \<equiv> events (lb_from_str lb) (lb_from_str_vec lb)"

section \<open>Ingest\<close>

definition majsoul_game_scope :: string where
  "majsoul_game_scope = ''majsoul-watch''"

definition game_scope_key :: "string \<Rightarrow> string" where
  "game_scope_key majsoul_uuid = majsoul_game_scope @ [CHR 0x00] @ majsoul_uuid"

definition game_claim_hash :: "libs \<Rightarrow> string \<Rightarrow> u8 list" where
  "game_claim_hash lb majsoul_uuid = lb_digest lb (as_bytes (game_scope_key majsoul_uuid))"

datatype ingest_error = Malformed_Record parse_error | Catalog_Failed catalog_error | Produce_Failed kafka_error | Backlogged i64

record claimed =
  cl_id :: uuid
  cl_sha256 :: string
  cl_key :: string
  cl_message :: "ingest_message option"

definition is_duplicate :: "claimed \<Rightarrow> bool" where
  "is_duplicate c \<longleftrightarrow> cl_message c = None"

definition raw_len :: "claimed \<Rightarrow> nat" where
  "raw_len c = (case cl_message c of None \<Rightarrow> 0 | Some m \<Rightarrow> length (im_raw m))"

record accepted =
  ac_id :: uuid
  ac_sha256 :: string
  ac_duplicate :: bool

text \<open>What one ingest meets: the clock, the fresh id, the two statements of the claim and what
  happens between them, the broker, and the release of each key.\<close>

record ingest_env =
  ie_now :: int
  ie_new_id :: uuid
  ie_insert :: outcome
  ie_selected :: bool
  ie_meanwhile :: "claims \<Rightarrow> claims"
  ie_broker :: "nat \<Rightarrow> kafka_record list \<Rightarrow> outcome"
  ie_release :: "string \<Rightarrow> outcome"

definition claim_scope :: "string \<Rightarrow> string \<Rightarrow> metadata \<Rightarrow> string \<times> key_scope" where
  "claim_scope source idempotency_key md =
     (case md_majsoul_uuid md of
        Some uuid \<Rightarrow> (game_scope_key uuid, Game)
      | None \<Rightarrow> (source @ [CHR 0x00] @ idempotency_key, Caller))"

definition ingest_claim ::
  "libs \<Rightarrow> kafka \<Rightarrow> ingest_env \<Rightarrow> string \<Rightarrow> string \<Rightarrow> int option \<Rightarrow> u8 list \<Rightarrow> u8 list option \<Rightarrow> claims \<Rightarrow>
   (ingest_error + claimed) \<times> claims" where
  "ingest_claim lb kafka env source idempotency_key played_at raw majsoul_pb claims =
     (if sint (max_lag kafka) \<le> sint (lag kafka) then (Inl (Backlogged (lag kafka)), claims)
      else case metadata_of_raw lb raw of
             Inl e \<Rightarrow> (Inl (Malformed_Record e), claims)
           | Inr md \<Rightarrow>
               let sha256 = lb_hex lb (lb_digest lb raw);
                   (key, scope) = claim_scope source idempotency_key md
               in case claim (lb_digest lb) (ie_now env) (ie_insert env) (ie_selected env) (ie_meanwhile env)
                         key (ie_new_id env) sha256 scope claims of
                    (Inl e, claims') \<Rightarrow> (Inl (Catalog_Failed e), claims')
                  | (Inr (Existing other), claims') \<Rightarrow>
                      (Inr \<lparr>cl_id = other, cl_sha256 = sha256, cl_key = key, cl_message = None\<rparr>, claims')
                  | (Inr New, claims') \<Rightarrow>
                      (Inr \<lparr>cl_id = ie_new_id env, cl_sha256 = sha256, cl_key = key,
                         cl_message = Some (new_message (ie_now env) (ie_new_id env) source played_at raw majsoul_pb)\<rparr>,
                       claims'))"

definition reindex_one ::
  "libs \<Rightarrow> kafka \<Rightarrow> (nat \<Rightarrow> kafka_record list \<Rightarrow> outcome) \<Rightarrow> index_row \<Rightarrow> u8 list \<Rightarrow> u8 list option \<Rightarrow> topic \<Rightarrow>
   (ingest_error + unit) \<times> topic" where
  "reindex_one lb kafka broker row raw majsoul_pb topic =
     (case metadata_of_raw lb raw of
        Inl e \<Rightarrow> (Inl (Malformed_Record e), topic)
      | Inr _ \<Rightarrow>
          (case produce (lb_texts lb) (lb_approximate_size lb) broker (kf_producers kafka)
                  (reindex (rw_id row) (rw_source row) (rw_received_at row) (rw_played_at row) raw majsoul_pb) topic of
             (Inl e, topic') \<Rightarrow> (Inl (Produce_Failed e), topic')
           | (Inr _, topic') \<Rightarrow> (Inr (), topic')))"

text \<open>The claims of a batch that carry a message; each release that is not carried out is only
  logged.\<close>

definition release_claims ::
  "libs \<Rightarrow> (string \<Rightarrow> outcome) \<Rightarrow> (string \<times> uuid) list \<Rightarrow> claims \<Rightarrow> claims" where
  "release_claims lb release keys claims =
     fold (\<lambda>(key, u) cs. if took_effect (release key) then abandon_claim (lb_digest lb) key u cs else cs) keys claims"

definition produce_claimed ::
  "libs \<Rightarrow> kafka \<Rightarrow> ingest_env \<Rightarrow> claimed list \<Rightarrow> claims \<Rightarrow> topic \<Rightarrow> (ingest_error + unit) \<times> claims \<times> topic" where
  "produce_claimed lb kafka env batch claims topic =
     (let fresh = List.map_filter (\<lambda>c. map_option (Pair (cl_key c)) (cl_message c)) batch;
          keys = map (\<lambda>(key, m). (key, im_record_id m)) fresh;
          messages = map snd fresh
      in if messages = [] then (Inr (), claims, topic)
         else case produce_batch (lb_texts lb) (lb_approximate_size lb) (ie_broker env) (kf_producers kafka) messages topic of
                (Inr _, topic') \<Rightarrow> (Inr (), claims, topic')
              | (Inl e, topic') \<Rightarrow> (Inl (Produce_Failed e), release_claims lb (ie_release env) keys claims, topic'))"

definition abandon_claimed :: "libs \<Rightarrow> (string \<Rightarrow> outcome) \<Rightarrow> claimed list \<Rightarrow> claims \<Rightarrow> claims" where
  "abandon_claimed lb release batch claims =
     release_claims lb release (map (\<lambda>c. (cl_key c, cl_id c)) (filter (\<lambda>c. \<not> is_duplicate c) batch)) claims"

definition ingest_one ::
  "libs \<Rightarrow> kafka \<Rightarrow> ingest_env \<Rightarrow> string \<Rightarrow> string \<Rightarrow> int option \<Rightarrow> u8 list \<Rightarrow> u8 list option \<Rightarrow> world \<Rightarrow>
   (ingest_error + accepted) \<times> world" where
  "ingest_one lb kafka env source idempotency_key played_at raw majsoul_pb wd =
     (case ingest_claim lb kafka env source idempotency_key played_at raw majsoul_pb (wd_claims wd) of
        (Inl e, claims) \<Rightarrow> (Inl e, wd\<lparr>wd_claims := claims\<rparr>)
      | (Inr c, claims) \<Rightarrow>
          (case produce_claimed lb kafka env [c] claims (wd_topic wd) of
             (Inl e, claims', topic) \<Rightarrow> (Inl e, wd\<lparr>wd_claims := claims', wd_topic := topic\<rparr>)
           | (Inr _, claims', topic) \<Rightarrow>
               (Inr \<lparr>ac_id = cl_id c, ac_sha256 = cl_sha256 c, ac_duplicate = is_duplicate c\<rparr>,
                wd\<lparr>wd_claims := claims', wd_topic := topic\<rparr>)))"

section \<open>Appending a batch\<close>

datatype index_error =
    Pack_Failed pack_error | Object_Failed | Index_Failed catalog_error | Kafka_Failed kafka_error | Read_Back_Failed
  | Truncated | Worker_Panicked string

type_synonym hand_state = "pack_writer \<times> index_row list \<times> player_game list"

definition pack_step :: "pack_error + 'a \<Rightarrow> index_error + 'a" where
  "pack_step r = (case r of Inl e \<Rightarrow> Inl (Pack_Failed e) | Inr x \<Rightarrow> Inr x)"

definition append_pb ::
  "libs \<Rightarrow> nat \<Rightarrow> pack_writer \<Rightarrow> ingest_message \<Rightarrow> index_error + (pb_location option \<times> pack_writer)" where
  "append_pb lb now w msg =
     (case im_majsoul_pb msg of
        None \<Rightarrow> Inr (None, w)
      | Some pb \<Rightarrow> attempt (pack_step (append_entry (lb_compress lb) now w (im_record_id msg) pb)) (\<lambda>(stored, w').
          Inr (Some \<lparr>pb_offset = pl_offset stored, pb_compressed_size = pl_compressed_size stored,
                     pb_raw_size = pl_raw_size stored\<rparr>, w')))"

definition row_of :: "libs \<Rightarrow> ingest_message \<Rightarrow> metadata \<Rightarrow> pack_location \<Rightarrow> pb_location option \<Rightarrow> index_row" where
  "row_of lb msg md location majsoul_pb =
     \<lparr>rw_id = im_record_id msg, rw_source = im_source msg, rw_sha256 = lb_hex lb (lb_digest lb (im_raw msg)),
      rw_received_at = im_received_at msg,
      rw_played_at = (case im_played_at msg of Some at \<Rightarrow> Some at
        | None \<Rightarrow> map_option (\<lambda>seconds. seconds * 1000000000) (md_played_at md)),
      rw_players = md_players md, rw_rule = md_rule md, rw_event_count = md_event_count md,
      rw_storage = location, rw_majsoul_pb = majsoul_pb\<rparr>"

definition score_row :: "json list \<Rightarrow> index_row \<Rightarrow> index_error + player_game list" where
  "score_row evs row =
     (case replay evs of
        Inl (Panicked m) \<Rightarrow> Inl (Worker_Panicked m)
      | Inl (Bail m) \<Rightarrow> Inr []
      | Inr None \<Rightarrow> Inr []
      | Inr (Some game) \<Rightarrow> Inr (player_games_of row game))"

definition append_one :: "libs \<Rightarrow> nat \<Rightarrow> hand_state \<Rightarrow> ingest_message \<Rightarrow> index_error + hand_state" where
  "append_one lb now st msg =
     (let (w, rows, games) = st;
          evs = (case events_of_raw lb (im_raw msg) of Inr evs \<Rightarrow> evs | Inl _ \<Rightarrow> [])
      in case metadata_of_raw lb (im_raw msg) of
           Inl _ \<Rightarrow> Inr st
         | Inr md \<Rightarrow>
             attempt (pack_step (append_entry (lb_compress lb) now w (im_record_id msg) (im_raw msg))) (\<lambda>(location, w1).
             attempt (append_pb lb now w1 msg) (\<lambda>(majsoul_pb, w2).
             let row = row_of lb msg md location majsoul_pb
             in attempt (score_row evs row) (\<lambda>seats. Inr (w2, rows @ [row], games @ seats)))))"

definition append_batch :: "libs \<Rightarrow> nat \<Rightarrow> hand_state \<Rightarrow> ingest_message list \<Rightarrow> index_error + hand_state" where
  "append_batch lb now = try_fold (append_one lb now)"

section \<open>The pack worker\<close>

record worker =
  wk_topic :: string
  wk_partition :: int
  wk_cursor :: int
  wk_committed :: int
  wk_at_end_of_log :: bool
  wk_seal_failures :: u32
  wk_open :: "pack_writer option"
  wk_rows :: "index_row list"
  wk_player_games :: "player_game list"

definition start_worker :: "kafka \<Rightarrow> string \<Rightarrow> int \<Rightarrow> (kafka_error + int option) \<Rightarrow> index_error + worker" where
  "start_worker kafka topic part loaded =
     (case consumer kafka part of
        None \<Rightarrow> Inl (Kafka_Failed (Malformed ''no such partition''))
      | Some _ \<Rightarrow>
          (case loaded of
             Inl e \<Rightarrow> Inl (Kafka_Failed e)
           | Inr offset \<Rightarrow>
               let committed = (case offset of Some n \<Rightarrow> n | None \<Rightarrow> 0)
               in Inr \<lparr>wk_topic = topic, wk_partition = part, wk_cursor = committed, wk_committed = committed,
                    wk_at_end_of_log = False, wk_seal_failures = 0, wk_open = None, wk_rows = [], wk_player_games = []\<rparr>))"

definition decode :: "libs \<Rightarrow> (int \<times> kafka_record) list \<Rightarrow> ingest_message list" where
  "decode lb records =
     List.map_filter (\<lambda>(_, r). case from_record (lb_texts lb) r of Inr m \<Rightarrow> Some m | Inl _ \<Rightarrow> None) records"

text \<open>\<open>append\<close>: a failure leaves the worker with a partly written pack that both callers throw away.
  \<open>left\<close> is whatever the failing batch added to the file: the entries before the failure, a
  header, a part of a frame. \<open>today\<close>, \<open>part\<close> and \<open>new_uuid\<close> name a new pack.\<close>

record append_env =
  ae_now :: nat
  ae_today :: string
  ae_part :: string
  ae_new_uuid :: string
  ae_left :: "u8 list"

definition open_writer :: "append_env \<Rightarrow> pack_store \<Rightarrow> worker \<Rightarrow> pack_error + pack_writer" where
  "open_writer env store wk =
     (case wk_open wk of
        Some w \<Rightarrow> Inr w
      | None \<Rightarrow> staging_writer store (ae_today env) (ae_part env) (ae_new_uuid env))"

definition hold :: "worker \<Rightarrow> hand_state \<Rightarrow> worker" where
  "hold wk st = (case st of (w, rows, games) \<Rightarrow> wk\<lparr>wk_open := Some w, wk_rows := rows, wk_player_games := games\<rparr>)"

definition stage :: "pack_writer \<Rightarrow> pack_store \<Rightarrow> pack_store" where
  "stage w store = store\<lparr>ps_staging := write_back w (ps_staging store)\<rparr>"

definition torn :: "append_env \<Rightarrow> pack_writer \<Rightarrow> pack_writer" where
  "torn env w = w\<lparr>pw_file := pw_file w @ ae_left env\<rparr>"

definition append_messages ::
  "libs \<Rightarrow> append_env \<Rightarrow> ingest_message list \<Rightarrow> worker \<Rightarrow> pack_store \<Rightarrow> (index_error + unit) \<times> worker \<times> pack_store" where
  "append_messages lb env messages wk store =
     (if messages = [] then (Inr (), wk, store)
      else case open_writer env store wk of
             Inl e \<Rightarrow> (Inl (Pack_Failed e), wk, store)
           | Inr w \<Rightarrow>
               (case append_batch lb (ae_now env) (w, wk_rows wk, wk_player_games wk) messages of
                  Inl e \<Rightarrow> (Inl e, wk\<lparr>wk_open := Some (torn env w)\<rparr>, stage (torn env w) store)
                | Inr (w', rows, games) \<Rightarrow> (Inr (), hold wk (w', rows, games), stage w' store)))"

definition should_seal :: "nat \<Rightarrow> nat \<Rightarrow> nat \<Rightarrow> nat \<Rightarrow> nat \<Rightarrow> bool \<Rightarrow> bool" where
  "should_seal bytes target waited max_age idle_age at_end_of_log \<longleftrightarrow>
     target \<le> bytes \<or> max_age \<le> waited \<or> (at_end_of_log \<and> idle_age \<le> waited)"

record pack_limits =
  pt_target_bytes :: nat
  pt_max_age :: nat
  pt_idle_age :: nat

definition pack_is_ready :: "pack_limits \<Rightarrow> nat \<Rightarrow> worker \<Rightarrow> bool" where
  "pack_is_ready limits now wk \<longleftrightarrow>
     (case wk_open wk of
        None \<Rightarrow> False
      | Some w \<Rightarrow>
          (case age now w of
             None \<Rightarrow> False
           | Some a \<Rightarrow> should_seal (pw_size w) (pt_target_bytes limits) a (pt_max_age limits) (pt_idle_age limits)
               (wk_at_end_of_log wk)))"

text \<open>What a seal meets: the sync of the file, its read, the upload and what the bucket keeps of
  it, the size query, the two inserts, the commit and the removal of the local file.\<close>

record seal_env =
  se_synced :: bool
  se_read :: bool
  se_put :: outcome
  se_stored :: "string \<Rightarrow> u8 list \<Rightarrow> u8 list"
  se_head :: bool
  se_insert :: outcome
  se_insert_games :: "player_game list \<Rightarrow> outcome"
  se_commit :: outcome
  se_removed :: bool

definition put_object :: "seal_env \<Rightarrow> string \<Rightarrow> u8 list \<Rightarrow> world \<Rightarrow> world" where
  "put_object env key bytes wd =
     (if took_effect (se_put env)
      then wd\<lparr>wd_store := (wd_store wd)\<lparr>ps_objects := (ps_objects (wd_store wd))(key \<mapsto> se_stored env key bytes)\<rparr>\<rparr>
      else wd)"

definition index_and_commit :: "libs \<Rightarrow> seal_env \<Rightarrow> worker \<Rightarrow> world \<Rightarrow> (index_error + unit) \<times> worker \<times> world" where
  "index_and_commit lb env wk wd =
     (case insert_batch (se_insert env) (wk_rows wk) (wd_index wd) of
        (Inl e, index) \<Rightarrow> (Inl (Index_Failed e), wk, wd\<lparr>wd_index := index\<rparr>)
      | (Inr _, index) \<Rightarrow>
          (case insert_player_games (lb_month_of lb) (se_insert_games env) (wk_player_games wk) (wd_games wd) of
             (Inl e, games) \<Rightarrow> (Inl (Index_Failed e), wk, wd\<lparr>wd_index := index, wd_games := games\<rparr>)
           | (Inr _, games) \<Rightarrow>
               let wd' = wd\<lparr>wd_index := index, wd_games := games, wd_offsets :=
                     (if took_effect (se_commit env)
                      then commit_offset (wk_topic wk) (wk_partition wk) (wk_cursor wk) (wd_offsets wd) else wd_offsets wd)\<rparr>
               in if se_commit env \<noteq> Done then (Inl (Kafka_Failed Offset_Store), wk, wd')
                  else (Inr (), wk\<lparr>wk_committed := wk_cursor wk, wk_rows := [], wk_player_games := []\<rparr>, wd')))"

definition upload_and_index ::
  "libs \<Rightarrow> seal_env \<Rightarrow> pack_writer \<Rightarrow> worker \<Rightarrow> world \<Rightarrow> (index_error + unit) \<times> worker \<times> world" where
  "upload_and_index lb env w wk wd =
     (let (key, name) = seal w
      in if \<not> se_synced env then (Inl (Pack_Failed Io), wk, wd)
         else case (if se_read env then map_of (ps_staging (wd_store wd)) name else None) of
                None \<Rightarrow> (Inl Read_Back_Failed, wk, wd)
              | Some bytes \<Rightarrow>
                  let wd' = put_object env key bytes wd
                  in if se_put env \<noteq> Done \<or> \<not> se_head env then (Inl Object_Failed, wk, wd')
                     else if map_option length (ps_objects (wd_store wd') key) \<noteq> Some (length bytes)
                          then (Inl Truncated, wk, wd')
                     else index_and_commit lb env wk wd')"

definition drop_staged :: "bool \<Rightarrow> pack_writer \<Rightarrow> world \<Rightarrow> world" where
  "drop_staged removed w wd =
     (if removed then wd\<lparr>wd_store := (wd_store wd)\<lparr>ps_staging := remove_file (pw_name w) (ps_staging (wd_store wd))\<rparr>\<rparr> else wd)"

definition seal_open :: "libs \<Rightarrow> seal_env \<Rightarrow> worker \<Rightarrow> world \<Rightarrow> (index_error + unit) \<times> worker \<times> world" where
  "seal_open lb env wk wd =
     (case wk_open wk of
        None \<Rightarrow> (Inr (), wk, wd)
      | Some w \<Rightarrow>
          (case upload_and_index lb env w (wk\<lparr>wk_open := None\<rparr>) wd of
             (res, wk', wd') \<Rightarrow> (res, wk', drop_staged (se_removed env) w wd')))"

definition discard :: "bool \<Rightarrow> worker \<Rightarrow> world \<Rightarrow> worker \<times> world" where
  "discard removed wk wd =
     (wk\<lparr>wk_open := None, wk_rows := [], wk_player_games := [], wk_cursor := wk_committed wk\<rparr>,
      case wk_open wk of None \<Rightarrow> wd | Some w \<Rightarrow> drop_staged removed w wd)"

text \<open>\<^verbatim>\<open>Duration\<close> in seconds: \<^verbatim>\<open>RETRY_DELAY\<close> is two seconds, \<^verbatim>\<open>MAX_SEAL_BACKOFF\<close> sixty-four.\<close>

definition saturating_pow2 :: "nat \<Rightarrow> nat" where
  "saturating_pow2 n = min (2 ^ n) (2 ^ 32 - 1)"

definition seal_backoff :: "u32 \<Rightarrow> nat" where
  "seal_backoff consecutive_failures =
     (let doublings = min (unat (saturating_sub consecutive_failures 1)) 16
      in min (2 * saturating_pow2 doublings) 64)"

definition saturating_inc :: "u32 \<Rightarrow> u32" where
  "saturating_inc n = (if n = 0xFFFFFFFF then n else n + 1)"

section \<open>One turn of the loop\<close>

text \<open>\<open>run\<close>: what one pass of the loop meets. \<open>tn_fetched\<close> is nothing when the shutdown arrives
  during the fetch. The result says whether the loop goes on, stops, or died with a panic.\<close>

record turn_env =
  tn_shutdown :: bool
  tn_fetched :: "(kafka_error + fetched) option"
  tn_append :: append_env
  tn_discarded :: bool
  tn_stopping :: bool
  tn_now :: nat
  tn_seal :: seal_env

datatype status = Running | Stopped | Died

definition fetch_part :: "libs \<Rightarrow> turn_env \<Rightarrow> worker \<Rightarrow> world \<Rightarrow> (index_error + unit) \<times> worker \<times> world" where
  "fetch_part lb env wk wd =
     (if tn_shutdown env then (Inr (), wk, wd)
      else case tn_fetched env of
             Some (Inr f) \<Rightarrow>
               (let next = next_offset f;
                    wk = wk\<lparr>wk_at_end_of_log := is_end_of_log f\<rparr>
                in case append_messages lb (tn_append env) (decode lb (ft_records f)) wk (wd_store wd) of
                     (Inl e, wk', store) \<Rightarrow> (Inl e, wk', wd\<lparr>wd_store := store\<rparr>)
                   | (Inr _, wk', store) \<Rightarrow> (Inr (), wk'\<lparr>wk_cursor := next\<rparr>, wd\<lparr>wd_store := store\<rparr>))
           | Some (Inl _) \<Rightarrow> (Inr (), wk, wd)
           | None \<Rightarrow> (Inr (), wk, wd))"

definition seal_part :: "libs \<Rightarrow> pack_limits \<Rightarrow> turn_env \<Rightarrow> worker \<Rightarrow> world \<Rightarrow> worker \<times> world" where
  "seal_part lb limits env wk wd =
     (if (tn_stopping env \<or> pack_is_ready limits (tn_now env) wk) \<and> wk_open wk \<noteq> None then
        (case seal_open lb (tn_seal env) wk wd of
           (Inr _, wk', wd') \<Rightarrow> (wk'\<lparr>wk_seal_failures := 0\<rparr>, wd')
         | (Inl _, wk', wd') \<Rightarrow>
             (case discard (tn_discarded env) wk' wd' of
                (wk'', wd'') \<Rightarrow> (wk''\<lparr>wk_seal_failures := saturating_inc (wk_seal_failures wk'')\<rparr>, wd'')))
      else (wk, wd))"

definition run_turn :: "libs \<Rightarrow> pack_limits \<Rightarrow> turn_env \<Rightarrow> worker \<Rightarrow> world \<Rightarrow> status \<times> worker \<times> world" where
  "run_turn lb limits env wk wd =
     (case fetch_part lb env wk wd of
        (Inl (Worker_Panicked m), wk', wd') \<Rightarrow> (Died, wk', wd')
      | (Inl e, wk', wd') \<Rightarrow> (case discard (tn_discarded env) wk' wd' of (wk'', wd'') \<Rightarrow> (Running, wk'', wd''))
      | (Inr _, wk', wd') \<Rightarrow>
          (case seal_part lb limits env wk' wd' of
             (wk'', wd'') \<Rightarrow> (if tn_stopping env then Stopped else Running, wk'', wd'')))"

text \<open>\<open>drain\<close>, against a broker that answers a fetch by its offset; \<open>fuel\<close> bounds the fetches.\<close>

fun drain_fetch ::
  "nat \<Rightarrow> libs \<Rightarrow> append_env \<Rightarrow> (int \<Rightarrow> kafka_error + fetched) \<Rightarrow> worker \<Rightarrow> pack_store \<Rightarrow>
   (index_error + (worker \<times> pack_store)) option" where
  "drain_fetch 0 lb env broker wk store = None"
| "drain_fetch (Suc fuel) lb env broker wk store =
     (case broker (wk_cursor wk) of
        Inl e \<Rightarrow> Some (Inl (Kafka_Failed e))
      | Inr f \<Rightarrow>
          if is_end_of_log f then Some (Inr (wk, store))
          else case append_messages lb env (decode lb (ft_records f)) wk store of
                 (Inl e, _) \<Rightarrow> Some (Inl e)
               | (Inr _, wk', store') \<Rightarrow>
                   drain_fetch fuel lb env broker (wk'\<lparr>wk_cursor := next_offset f\<rparr>) store')"

definition drain ::
  "nat \<Rightarrow> libs \<Rightarrow> append_env \<Rightarrow> seal_env \<Rightarrow> (int \<Rightarrow> kafka_error + fetched) \<Rightarrow> worker \<Rightarrow> world \<Rightarrow>
   (index_error + (nat \<times> worker \<times> world)) option" where
  "drain fuel lb env senv broker wk wd =
     (case drain_fetch fuel lb env broker wk (wd_store wd) of
        None \<Rightarrow> None
      | Some (Inl e) \<Rightarrow> Some (Inl e)
      | Some (Inr (wk', store)) \<Rightarrow>
          let indexed = length (wk_rows wk')
          in (case seal_open lb senv wk' (wd\<lparr>wd_store := store\<rparr>) of
                (Inl e, _) \<Rightarrow> Some (Inl e)
              | (Inr _, wk'', wd') \<Rightarrow> Some (Inr (indexed, wk'', wd'))))"

end
