(* ===== verification/Indexer_Correct.thy ===== *)
theory Indexer_Correct
  imports Indexer Pack_Correct
begin

text \<open>
  What one append, one fetch, one seal and one turn of the pack worker do to the pack in hand,
  the rows in hand and the world, on every answer of the services.
\<close>

section \<open>Appending\<close>

lemma read_exact_append: "read_exact file offset n = Inr bs \<Longrightarrow> read_exact (file @ post) offset n = Inr bs"
  by (auto simp: read_exact_def split: if_splits)

lemma entry_reads_append: "entry_reads bulk file loc raw \<Longrightarrow> entry_reads bulk (file @ post) loc raw"
  by (auto simp: entry_reads_def result_simps dest: read_exact_append)

definition same_row :: "ingest_message \<Rightarrow> index_row \<Rightarrow> bool" where
  "same_row m row \<longleftrightarrow> rw_id row = im_record_id m \<and> rw_source row = im_source m \<and>
     trunc_millis (rw_received_at row) = trunc_millis (im_received_at m)"

definition indexable :: "libs \<Rightarrow> ingest_message \<Rightarrow> bool" where
  "indexable lb m \<longleftrightarrow> (\<exists>md. metadata_of_raw lb (im_raw m) = Inr md)"

text \<open>The row a message leaves in hand: it names the message and its bytes are in the open pack.\<close>

definition row_in_file :: "libs \<Rightarrow> string \<Rightarrow> u8 list \<Rightarrow> ingest_message \<Rightarrow> index_row \<Rightarrow> bool" where
  "row_in_file lb key file m row \<longleftrightarrow> indexable lb m \<and> same_row m row \<and>
     rw_sha256 row = lb_hex lb (lb_digest lb (im_raw m)) \<and> pl_pack_key (rw_storage row) = key \<and>
     entry_reads (lb_bulk lb) file (rw_storage row) (im_raw m)"

lemma row_in_file_append: "row_in_file lb key file m row \<Longrightarrow> row_in_file lb key (file @ post) m row"
  by (simp add: row_in_file_def entry_reads_append)

lemma stored_row_simps [simp]:
  "rw_id (stored_row row) = rw_id row" "rw_source (stored_row row) = rw_source row"
  "rw_sha256 (stored_row row) = rw_sha256 row" "rw_storage (stored_row row) = rw_storage row"
  "rw_received_at (stored_row row) = trunc_millis (rw_received_at row)"
  by (simp_all add: stored_row_def)

lemma same_row_stored [simp]: "same_row m (stored_row row) = same_row m row"
  by (simp add: same_row_def)

lemma row_in_file_stored [simp]: "row_in_file lb key file m (stored_row row) = row_in_file lb key file m row"
  by (simp add: row_in_file_def)

lemma pack_step_Inr [simp]: "pack_step r = Inr x \<longleftrightarrow> r = Inr x"
  by (cases r) (auto simp: pack_step_def)

text \<open>A writer that went on: same pack, more bytes.\<close>

definition goes_on :: "pack_writer \<Rightarrow> pack_writer \<Rightarrow> bool" where
  "goes_on w w' \<longleftrightarrow> writer_wf w' \<and> pw_key w' = pw_key w \<and> pw_name w' = pw_name w \<and>
     (\<exists>tail. pw_file w' = pw_file w @ tail)"

lemma goes_on_refl: "writer_wf w \<Longrightarrow> goes_on w w"
  by (simp add: goes_on_def)

lemma goes_on_trans: "goes_on w w1 \<Longrightarrow> goes_on w1 w2 \<Longrightarrow> goes_on w w2"
  by (auto simp: goes_on_def)

lemma goes_on_row:
  "goes_on w w' \<Longrightarrow> row_in_file lb key (pw_file w) m row \<Longrightarrow> row_in_file lb key (pw_file w') m row"
  by (auto simp: goes_on_def row_in_file_append)

lemma append_entry_goes_on:
  assumes "append_entry compress now w u raw = Inr (loc, w')" and "writer_wf w" and "length u = 16"
  shows "goes_on w w'"
  using append_entry_wf [OF assms] by (rule_tac append_entry_obtain [OF assms(1)]) (auto simp: goes_on_def)

lemma append_pb_goes_on:
  assumes "append_pb lb now w m = Inr (pb, w')" and "writer_wf w" and "length (im_record_id m) = 16"
  shows "goes_on w w'"
  using assms by (auto simp: append_pb_def result_simps goes_on_refl intro: append_entry_goes_on split: option.splits)

lemma append_entry_reads:
  assumes "codec_ok compress bulk" and "append_entry compress now w u raw = Inr (loc, w')" and "writer_wf w"
    and "length u = 16"
  shows "entry_reads bulk (pw_file w') loc raw \<and> pl_pack_key loc = pw_key w"
proof (rule append_entry_obtain [OF assms(2)])
  fix c assume c: "compress raw = Some c" "length raw < 2 ^ 32" "length c < 2 ^ 32"
    "loc = location_at (pw_key w) (pw_size w) raw c" "pw_file w' = pw_file w @ frame u raw c"
  from entry_reads_frame [OF assms(1) c(1-3) assms(4), of "pw_file w" "[]" "pw_key w"] c(4,5) assms(3)
  show ?thesis by (simp add: writer_wf_def location_at_def)
qed

lemma append_one_effect:
  assumes codec: "codec_ok (lb_compress lb) (lb_bulk lb)"
    and step: "append_one lb now (w, rows, games) m = Inr (w', rows', games')"
    and wf: "writer_wf w" and id: "length (im_record_id m) = 16"
  shows "goes_on w w' \<and> (\<exists>new. rows' = rows @ new \<and> (indexable lb m \<longrightarrow> new \<noteq> []) \<and>
     (\<forall>row \<in> set new. row_in_file lb (pw_key w) (pw_file w') m row))"
proof (cases "metadata_of_raw lb (im_raw m)")
  case (Inl e)
  then show ?thesis using step wf by (auto simp: append_one_def indexable_def goes_on_refl)
next
  case (Inr md)
  with step obtain loc w1 pb seats where
    entry: "append_entry (lb_compress lb) now w (im_record_id m) (im_raw m) = Inr (loc, w1)"
    and pb: "append_pb lb now w1 m = Inr (pb, w')" and rows: "rows' = rows @ [row_of lb m md loc pb]"
    by (auto simp: append_one_def Let_def result_simps split: prod.splits)
  have on: "goes_on w w1" using entry wf id by (rule append_entry_goes_on)
  have on': "goes_on w1 w'" using append_pb_goes_on [OF pb _ id] on by (simp add: goes_on_def)
  have "row_in_file lb (pw_key w) (pw_file w1) m (row_of lb m md loc pb)"
    using append_entry_reads [OF codec entry wf id] Inr
    by (simp add: row_in_file_def row_of_def same_row_def indexable_def)
  from goes_on_row [OF on' this] goes_on_trans [OF on on'] rows show ?thesis by auto
qed

lemma append_batch_effect:
  assumes codec: "codec_ok (lb_compress lb) (lb_bulk lb)"
    and run: "append_batch lb now (w, rows, games) ms = Inr (w', rows', games')"
    and wf: "writer_wf w" and ids: "\<forall>m \<in> set ms. length (im_record_id m) = 16"
  shows "goes_on w w' \<and> (\<exists>new. rows' = rows @ new \<and>
     (\<forall>m \<in> set ms. indexable lb m \<longrightarrow> (\<exists>row \<in> set new. same_row m row)) \<and>
     (\<forall>row \<in> set new. \<exists>m \<in> set ms. row_in_file lb (pw_key w) (pw_file w') m row))"
  using run wf ids unfolding append_batch_def
proof (induction ms arbitrary: w rows games)
  case Nil
  then show ?case by (auto simp: goes_on_refl)
next
  case (Cons m ms)
  then obtain w1 rows1 games1 where step: "append_one lb now (w, rows, games) m = Inr (w1, rows1, games1)"
    and rest: "try_fold (append_one lb now) (w1, rows1, games1) ms = Inr (w', rows', games')"
    by (auto simp: result_simps)
  have idm: "length (im_record_id m) = 16" using Cons.prems by simp
  from append_one_effect [OF codec step Cons.prems(2) idm] obtain new where on: "goes_on w w1"
    and new: "rows1 = rows @ new" "indexable lb m \<longrightarrow> new \<noteq> []"
      "\<forall>row \<in> set new. row_in_file lb (pw_key w) (pw_file w1) m row" by blast
  have "writer_wf w1" using on by (simp add: goes_on_def)
  from Cons.IH [OF rest this] Cons.prems(3) obtain new' where on': "goes_on w1 w'"
    and new': "rows' = rows1 @ new'" "\<forall>m \<in> set ms. indexable lb m \<longrightarrow> (\<exists>row \<in> set new'. same_row m row)"
      "\<forall>row \<in> set new'. \<exists>m \<in> set ms. row_in_file lb (pw_key w1) (pw_file w') m row" by auto
  have key: "pw_key w1 = pw_key w" using on by (simp add: goes_on_def)
  have "\<forall>row \<in> set new. row_in_file lb (pw_key w) (pw_file w') m row" using new(3) goes_on_row [OF on'] by blast
  moreover have "indexable lb m \<longrightarrow> (\<exists>row \<in> set new. same_row m row)"
    using new(2,3) by (cases new) (auto simp: row_in_file_def)
  ultimately show ?case
    using new' key goes_on_trans [OF on on']
    by (intro conjI exI [of _ "new @ new'"]) (auto simp: new(1))
qed

text \<open>A record whose replay panics never gets past the append.\<close>

definition poisonous :: "libs \<Rightarrow> ingest_message \<Rightarrow> bool" where
  "poisonous lb m \<longleftrightarrow> (\<exists>md evs msg. metadata_of_raw lb (im_raw m) = Inr md \<and> events_of_raw lb (im_raw m) = Inr evs \<and>
     replay evs = Inl (Panicked msg))"

lemma append_one_poisonous: "poisonous lb m \<Longrightarrow> append_one lb now st m \<noteq> Inr st'"
  by (auto simp: poisonous_def append_one_def score_row_def Let_def result_simps split: prod.splits)

lemma append_batch_poisonous: "m \<in> set ms \<Longrightarrow> poisonous lb m \<Longrightarrow> append_batch lb now st ms \<noteq> Inr st'"
  unfolding append_batch_def
proof (induction ms arbitrary: st)
  case (Cons x ms)
  then show ?case by (auto simp: result_simps dest: append_one_poisonous)
qed simp

section \<open>The worker and the world\<close>

text \<open>The indexable message at an offset of a partition's log.\<close>

definition msg_at :: "libs \<Rightarrow> kafka_record list \<Rightarrow> int \<Rightarrow> ingest_message \<Rightarrow> bool" where
  "msg_at lb log n m \<longleftrightarrow> 0 \<le> n \<and> n < int (length log) \<and> from_record (lb_texts lb) (log ! nat n) = Inr m \<and> indexable lb m"

definition produced :: "libs \<Rightarrow> topic \<Rightarrow> ingest_message \<Rightarrow> bool" where
  "produced lb topic m \<longleftrightarrow> (\<exists>p n. msg_at lb (topic p) n m)"

definition backed :: "libs \<Rightarrow> topic \<Rightarrow> string \<Rightarrow> u8 list \<Rightarrow> index_row \<Rightarrow> bool" where
  "backed lb topic key file row \<longleftrightarrow> (\<exists>m. produced lb topic m \<and> row_in_file lb key file m row)"

text \<open>Every message below an offset, other than the lost ones, has one of the rows.\<close>

definition covered :: "libs \<Rightarrow> kafka_record list \<Rightarrow> int set \<Rightarrow> index_row set \<Rightarrow> int \<Rightarrow> bool" where
  "covered lb log lost rows n \<longleftrightarrow>
     (\<forall>i m. i < n \<longrightarrow> i \<notin> lost \<longrightarrow> msg_at lb log i m \<longrightarrow> (\<exists>row \<in> rows. same_row m row))"

lemma coveredD: "covered lb log lost rows n \<Longrightarrow> i < n \<Longrightarrow> i \<notin> lost \<Longrightarrow> msg_at lb log i m \<Longrightarrow> \<exists>row \<in> rows. same_row m row"
  by (simp add: covered_def)

lemma covered_mono:
  "covered lb log lost rows n \<Longrightarrow> lost \<subseteq> lost' \<Longrightarrow> (\<And>m. \<exists>row \<in> rows. same_row m row \<Longrightarrow> \<exists>row \<in> rows'. same_row m row) \<Longrightarrow>
     covered lb log lost' rows' n"
  unfolding covered_def by blast

lemma covered_rows: "covered lb log lost rows n \<Longrightarrow> rows \<subseteq> rows' \<Longrightarrow> covered lb log lost rows' n"
  unfolding covered_def by blast

definition pack_in_hand :: "libs \<Rightarrow> world \<Rightarrow> worker \<Rightarrow> pack_writer \<Rightarrow> bool" where
  "pack_in_hand lb wd wk w \<longleftrightarrow> writer_wf w \<and> file_name (pw_key w) = Some (pw_name w) \<and>
     map_of (ps_staging (wd_store wd)) (pw_name w) = Some (pw_file w) \<and> ps_objects (wd_store wd) (pw_key w) = None \<and>
     (\<forall>row \<in> set (wk_rows wk). backed lb (wd_topic wd) (pw_key w) (pw_file w) row)"

definition within :: "kafka_record list \<Rightarrow> int \<Rightarrow> bool" where
  "within log n \<longleftrightarrow> 0 \<le> n \<and> n \<le> int (length log)"

definition worker_inv :: "libs \<Rightarrow> string \<Rightarrow> nat \<Rightarrow> world \<Rightarrow> int set \<Rightarrow> worker \<Rightarrow> bool" where
  "worker_inv lb topic p wd lost wk \<longleftrightarrow>
     wk_topic wk = topic \<and> wk_partition wk = int p \<and>
     within (wd_topic wd p) (wk_committed wk) \<and> within (wd_topic wd p) (wk_cursor wk) \<and>
     covered lb (wd_topic wd p) lost (set (wd_index wd)) (wk_committed wk) \<and>
     covered lb (wd_topic wd p) lost (set (wd_index wd) \<union> set (wk_rows wk)) (wk_cursor wk) \<and>
     (case wk_open wk of None \<Rightarrow> wk_rows wk = [] | Some w \<Rightarrow> pack_in_hand lb wd wk w)"

definition rows_backed :: "libs \<Rightarrow> world \<Rightarrow> bool" where
  "rows_backed lb wd \<longleftrightarrow>
     (\<forall>row \<in> set (wd_index wd). \<exists>body. ps_objects (wd_store wd) (pl_pack_key (rw_storage row)) = Some body \<and>
        backed lb (wd_topic wd) (pl_pack_key (rw_storage row)) body row)"

definition stored_offset :: "world \<Rightarrow> string \<Rightarrow> nat \<Rightarrow> int" where
  "stored_offset wd topic p = (case load_offset topic (int p) (wd_offsets wd) of Some n \<Rightarrow> n | None \<Rightarrow> 0)"

definition offset_inv :: "libs \<Rightarrow> string \<Rightarrow> nat \<Rightarrow> world \<Rightarrow> int set \<Rightarrow> bool" where
  "offset_inv lb topic p wd lost \<longleftrightarrow>
     within (wd_topic wd p) (stored_offset wd topic p) \<and>
     covered lb (wd_topic wd p) lost (set (wd_index wd)) (stored_offset wd topic p)"

lemmas worker_inv_defs = worker_inv_def pack_in_hand_def

section \<open>The fetch\<close>

text \<open>What the broker answers: a stretch of the log from the offset asked for, or, when retention
  has passed that offset, from the first retained one.\<close>

definition served :: "kafka_record list \<Rightarrow> int \<Rightarrow> fetched \<Rightarrow> bool" where
  "served log cursor f \<longleftrightarrow> cursor \<le> ft_start_offset f \<and> within log (ft_start_offset f) \<and>
     (\<exists>n \<le> length log. ft_records f = map (\<lambda>i. (int i, log ! i)) [nat (ft_start_offset f)..<n])"

definition broker_law :: "kafka_record list \<Rightarrow> (int \<Rightarrow> fetch_answer) \<Rightarrow> bool" where
  "broker_law log answer \<longleftrightarrow>
     (\<forall>offset recs hw. answer offset = Answer recs hw \<longrightarrow> within log offset \<and>
        (\<exists>n \<le> length log. recs = map (\<lambda>i. (int i, log ! i)) [nat offset..<n]))"

lemma fetch_result_served:
  assumes "broker_law log answer" and "cursor \<le> start" and "fetch_result start (answer start) = Inr f"
  shows "served log cursor f"
proof -
  from assms(3) obtain recs hw where "answer start = Answer recs hw"
    "f = \<lparr>ft_records = recs, ft_high_watermark = hw, ft_start_offset = start\<rparr>"
    by (cases "answer start") (auto simp: fetch_result_def)
  with assms(1,2) show ?thesis by (auto simp: served_def broker_law_def)
qed

lemma fetch_served:
  assumes "broker_law log first" and "broker_law log again"
    and "first cursor = Offset_Out_Of_Range \<Longrightarrow> (\<And>e. earliest = Inr e \<Longrightarrow> cursor \<le> e)"
    and "fetch first earliest again cursor = Inr f"
  shows "served log cursor f"
proof (cases "first cursor = Offset_Out_Of_Range")
  case True
  with assms(4) obtain e where "earliest = Inr e" "fetch_result e (again e) = Inr f"
    by (auto simp: fetch_def result_simps)
  with assms(2,3) True show ?thesis by (auto intro: fetch_result_served)
next
  case False
  then have "fetch_result cursor (first cursor) = Inr f"
    using assms(4) by (auto simp: fetch_def split: fetch_answer.splits)
  with assms(1) show ?thesis by (auto intro: fetch_result_served)
qed

lemma next_offset_served:
  assumes "served log cursor f"
  obtains n where "ft_records f = map (\<lambda>i. (int i, log ! i)) [nat (ft_start_offset f)..<n]" "n \<le> length log"
    "next_offset f = int n \<and> ft_start_offset f < int n \<or> next_offset f = ft_start_offset f \<and> ft_records f = []"
proof -
  from assms obtain n where n: "n \<le> length log"
    "ft_records f = map (\<lambda>i. (int i, log ! i)) [nat (ft_start_offset f)..<n]" and start: "0 \<le> ft_start_offset f"
    by (auto simp: served_def within_def)
  show thesis
  proof (cases "ft_start_offset f < int n")
    case True
    then have "nat (ft_start_offset f) < n" using start by linarith
    moreover from this have "next_offset f = int n"
      by (simp add: next_offset_def last_opt_def n(2) last_map)
    ultimately show ?thesis using that n True by blast
  next
    case False
    then have "ft_records f = []" using start n(2) by simp
    then show ?thesis using that [OF n(2,1)] by (simp add: next_offset_def last_opt_def)
  qed
qed

lemma set_decode:
  "m \<in> set (decode lb recs) \<longleftrightarrow> (\<exists>i r. (i, r) \<in> set recs \<and> from_record (lb_texts lb) r = Inr m)"
  by (force simp: decode_def List.map_filter_def split: sum.splits)

text \<open>What a uuid is: sixteen bytes.\<close>

definition ids_ok :: "libs \<Rightarrow> bool" where
  "ids_ok lb \<longleftrightarrow> (\<forall>s u. uuid_parse_str (lb_texts lb) s = Some u \<longrightarrow> length u = 16)"

lemma from_record_id: "ids_ok lb \<Longrightarrow> from_record (lb_texts lb) r = Inr m \<Longrightarrow> length (im_record_id m) = 16"
  by (auto simp: from_record_def or_malformed_def ids_ok_def result_simps bind_eq_Some_conv Let_def split: option.splits)

lemma served_fetched:
  assumes "served log cursor f" and "msg_at lb log i m" and "ft_start_offset f \<le> i" and "i < next_offset f"
  shows "m \<in> set (decode lb (ft_records f))"
proof -
  obtain n where n: "ft_records f = map (\<lambda>i. (int i, log ! i)) [nat (ft_start_offset f)..<n]"
    "next_offset f = int n \<or> next_offset f = ft_start_offset f"
    using next_offset_served [OF assms(1)] by metis
  have "nat i \<in> set [nat (ft_start_offset f)..<n]" using n(2) assms(2-4) by (auto simp: msg_at_def nat_less_iff nat_le_iff)
  then have "(int (nat i), log ! nat i) \<in> set (ft_records f)" unfolding n(1) by force
  with assms(2) show ?thesis by (auto simp: set_decode msg_at_def)
qed

lemma served_decoded:
  assumes "served log cursor f" and "m \<in> set (decode lb (ft_records f))"
  obtains i where "0 \<le> i" "i < int (length log)" "from_record (lb_texts lb) (log ! nat i) = Inr m"
proof -
  obtain n where n: "ft_records f = map (\<lambda>i. (int i, log ! i)) [nat (ft_start_offset f)..<n]" "n \<le> length log"
    using next_offset_served [OF assms(1)] by metis
  from assms(2) obtain j where "j < n" "from_record (lb_texts lb) (log ! j) = Inr m"
    by (auto simp: set_decode n(1))
  then show thesis using that [of "int j"] n(2) by simp
qed

section \<open>What a step leaves alone\<close>

text \<open>A step that may touch the staged packs with names in \<open>names\<close>: the topic stays, the index
  grows, every other staged pack stays, and an object appears only under a key that was free
  and belongs to one of those packs.\<close>

definition frame_on :: "string set \<Rightarrow> world \<Rightarrow> world \<Rightarrow> bool" where
  "frame_on names wd wd' \<longleftrightarrow>
     wd_topic wd' = wd_topic wd \<and> set (wd_index wd) \<subseteq> set (wd_index wd') \<and>
     (\<forall>n. n \<notin> names \<longrightarrow> map_of (ps_staging (wd_store wd')) n = map_of (ps_staging (wd_store wd)) n) \<and>
     (\<forall>k. ps_objects (wd_store wd') k \<noteq> ps_objects (wd_store wd) k \<longrightarrow>
        ps_objects (wd_store wd) k = None \<and> (\<exists>n \<in> names. file_name k = Some n))"

lemma frame_refl [simp]: "frame_on names wd wd"
  by (simp add: frame_on_def)

lemma frame_trans: "frame_on names wd wd1 \<Longrightarrow> frame_on names wd1 wd2 \<Longrightarrow> frame_on names wd wd2"
  unfolding frame_on_def by (intro conjI allI impI) (auto, metis+)

lemma map_of_filter_key: "map_of (filter (\<lambda>(k, _). P k) xs) n = (if P n then map_of xs n else None)"
  by (induction xs) auto

lemma map_of_write_back: "map_of (write_back w dir) n = (if n = pw_name w then Some (pw_file w) else map_of dir n)"
  by (simp add: write_back_def map_of_filter_key)

lemma map_of_remove_file: "map_of (remove_file name dir) n = (if n = name then None else map_of dir n)"
  by (simp add: remove_file_def map_of_filter_key)

lemma frame_stage: "pw_name w \<in> names \<Longrightarrow> frame_on names wd (wd\<lparr>wd_store := stage w (wd_store wd)\<rparr>)"
  by (auto simp: frame_on_def stage_def map_of_write_back)

lemma frame_drop: "pw_name w \<in> names \<Longrightarrow> frame_on names wd (drop_staged removed w wd)"
  by (auto simp: frame_on_def drop_staged_def map_of_remove_file)

lemma frame_put:
  "ps_objects (wd_store wd) key = None \<Longrightarrow> file_name key = Some n \<Longrightarrow> n \<in> names \<Longrightarrow> frame_on names wd (put_object env key bytes wd)"
  by (auto simp: frame_on_def put_object_def)

lemma frame_index: "set (wd_index wd) \<subseteq> set index \<Longrightarrow> frame_on names wd (wd\<lparr>wd_index := index, wd_games := games, wd_offsets := offs\<rparr>)"
  by (simp add: frame_on_def)

lemma insert_batch_set:
  "insert_batch answer rows index = (res, index') \<Longrightarrow>
     set index \<subseteq> set index' \<and> set index' \<subseteq> set index \<union> stored_row ` set rows \<and>
     (res = Inr () \<longrightarrow> set index' = set index \<union> stored_row ` set rows)"
  by (cases answer) (auto simp: insert_batch_def split: if_splits)

lemma drop_staged_simps [simp]:
  "wd_topic (drop_staged removed w wd) = wd_topic wd" "wd_index (drop_staged removed w wd) = wd_index wd"
  "wd_offsets (drop_staged removed w wd) = wd_offsets wd" "wd_games (drop_staged removed w wd) = wd_games wd"
  "ps_objects (wd_store (drop_staged removed w wd)) = ps_objects (wd_store wd)"
  by (simp_all add: drop_staged_def)

lemma put_object_simps [simp]:
  "wd_topic (put_object env key bytes wd) = wd_topic wd" "wd_index (put_object env key bytes wd) = wd_index wd"
  "wd_offsets (put_object env key bytes wd) = wd_offsets wd"
  "ps_staging (wd_store (put_object env key bytes wd)) = ps_staging (wd_store wd)"
  by (simp_all add: put_object_def)

section \<open>Falling back\<close>

text \<open>What a worker keeps whatever fails: its place in the topic and the offset it goes back to.\<close>

definition worker_base :: "libs \<Rightarrow> string \<Rightarrow> nat \<Rightarrow> world \<Rightarrow> int set \<Rightarrow> worker \<Rightarrow> bool" where
  "worker_base lb topic p wd lost wk \<longleftrightarrow>
     wk_topic wk = topic \<and> wk_partition wk = int p \<and> within (wd_topic wd p) (wk_committed wk) \<and>
     covered lb (wd_topic wd p) lost (set (wd_index wd)) (wk_committed wk)"

lemma worker_inv_base: "worker_inv lb topic p wd lost wk \<Longrightarrow> worker_base lb topic p wd lost wk"
  by (simp add: worker_inv_def worker_base_def)

lemma worker_base_frame:
  "worker_base lb topic p wd lost wk \<Longrightarrow> frame_on names wd wd' \<Longrightarrow> lost \<subseteq> lost' \<Longrightarrow> worker_base lb topic p wd' lost' wk"
  unfolding worker_base_def frame_on_def by (auto elim!: covered_mono)

lemma discard_inv:
  assumes "worker_base lb topic p wd lost wk" and "discard removed wk wd = (wk', wd')"
  shows "worker_inv lb topic p wd' lost wk' \<and> wk_open wk' = None"
  using assms by (auto simp: discard_def worker_base_def worker_inv_def split: option.splits)

lemma discard_frame:
  assumes "discard removed wk wd = (wk', wd')" and "\<And>w. wk_open wk = Some w \<Longrightarrow> pw_name w \<in> names"
  shows "frame_on names wd wd' \<and> wd_index wd' = wd_index wd \<and> wd_offsets wd' = wd_offsets wd \<and>
     ps_objects (wd_store wd') = ps_objects (wd_store wd)"
  using assms by (auto simp: discard_def frame_drop split: option.splits)

section \<open>The seal\<close>

text \<open>The bucket keeps a prefix of what it is sent: an upload may be stored short.\<close>

definition stores_prefix :: "seal_env \<Rightarrow> bool" where
  "stores_prefix env \<longleftrightarrow> (\<forall>key bytes. \<exists>n. se_stored env key bytes = take n bytes)"

lemma verified_upload:
  assumes "stores_prefix env" and "se_put env = Done"
    and "map_option length (ps_objects (wd_store (put_object env key bytes wd)) key) = Some (length bytes)"
  shows "ps_objects (wd_store (put_object env key bytes wd)) key = Some bytes"
proof -
  obtain n where "se_stored env key bytes = take n bytes" using assms(1) by (auto simp: stores_prefix_def)
  with assms(2,3) show ?thesis by (auto simp: put_object_def)
qed

lemma rows_backed_put:
  assumes "rows_backed lb wd" and "ps_objects (wd_store wd) key = None"
  shows "rows_backed lb (put_object env key bytes wd)"
  using assms unfolding rows_backed_def put_object_def by (auto split: if_splits)

lemma backed_stored [simp]: "backed lb topic key file (stored_row row) = backed lb topic key file row"
  by (simp add: backed_def)

lemma backed_key: "backed lb topic key file row \<Longrightarrow> pl_pack_key (rw_storage row) = key"
  by (auto simp: backed_def row_in_file_def)

lemma covered_stored:
  "covered lb log lost (A \<union> B) n \<Longrightarrow> A \<subseteq> C \<Longrightarrow> stored_row ` B \<subseteq> C \<Longrightarrow> covered lb log lost C n"
proof (rule covered_mono [where lost = lost and rows = "A \<union> B"])
  fix m assume "\<exists>row \<in> A \<union> B. same_row m row" and sub: "A \<subseteq> C" "stored_row ` B \<subseteq> C"
  then obtain row where "row \<in> A \<union> B" "same_row m row" by blast
  with sub show "\<exists>row \<in> C. same_row m row" by (intro bexI [of _ "if row \<in> A then row else stored_row row"]) auto
qed simp_all

text \<open>The second half of a seal, once the object is there with every byte of the pack.\<close>

lemma rows_backed_insert:
  assumes rows: "rows_backed lb wd" and index: "set index \<subseteq> set (wd_index wd) \<union> stored_row ` set added"
    and wd': "wd_index wd' = index" "wd_store wd' = wd_store wd" "wd_topic wd' = wd_topic wd"
    and object: "ps_objects (wd_store wd) key = Some body" "\<forall>row \<in> set added. backed lb (wd_topic wd) key body row"
  shows "rows_backed lb wd'"
  unfolding rows_backed_def
proof
  fix row assume "row \<in> set (wd_index wd')"
  then consider "row \<in> set (wd_index wd)" | r where "r \<in> set added" "row = stored_row r" using index by (auto simp: wd')
  then show "\<exists>body. ps_objects (wd_store wd') (pl_pack_key (rw_storage row)) = Some body \<and>
      backed lb (wd_topic wd') (pl_pack_key (rw_storage row)) body row"
  proof cases
    case 1
    then show ?thesis using rows by (auto simp: rows_backed_def wd')
  next
    case (2 r)
    then show ?thesis using object backed_key by (auto simp: wd')
  qed
qed

lemma index_and_commit_inv:
  assumes run: "index_and_commit lb env wk wd = (res, wk', wd')"
    and base: "worker_base lb topic p wd lost wk" and off: "offset_inv lb topic p wd lost" and rows: "rows_backed lb wd"
    and cursor: "within (wd_topic wd p) (wk_cursor wk)"
      "covered lb (wd_topic wd p) lost (set (wd_index wd) \<union> set (wk_rows wk)) (wk_cursor wk)"
    and object: "ps_objects (wd_store wd) key = Some file" "\<forall>row \<in> set (wk_rows wk). backed lb (wd_topic wd) key file row"
    and closed: "wk_open wk = None"
  shows "worker_base lb topic p wd' lost wk' \<and> offset_inv lb topic p wd' lost \<and> rows_backed lb wd' \<and>
     frame_on names wd wd' \<and> wd_store wd' = wd_store wd \<and> wk_open wk' = None \<and>
     (res = Inr () \<longrightarrow> worker_inv lb topic p wd' lost wk' \<and> wk_committed wk' = wk_cursor wk \<and>
        stored_offset wd' topic p = wk_cursor wk \<and> stored_row ` set (wk_rows wk) \<subseteq> set (wd_index wd')) \<and>
     (\<forall>q. q \<noteq> p \<longrightarrow> stored_offset wd' topic q = stored_offset wd topic q) \<and>
     (stored_offset wd' topic p = stored_offset wd topic p \<or> stored_offset wd' topic p = wk_cursor wk)"
proof -
  obtain ires index where ins: "insert_batch (se_insert env) (wk_rows wk) (wd_index wd) = (ires, index)" by fastforce
  obtain gres games where gms: "insert_player_games (lb_month_of lb) (se_insert_games env) (wk_player_games wk) (wd_games wd) = (gres, games)"
    by fastforce
  note index = insert_batch_set [OF ins]
  define offs where "offs = (if (\<exists>u. ires = Inr u) \<and> (\<exists>u. gres = Inr u) \<and> took_effect (se_commit env)
    then commit_offset topic (int p) (wk_cursor wk) (wd_offsets wd) else wd_offsets wd)"
  have names: "wk_topic wk = topic" "wk_partition wk = int p" using base by (simp_all add: worker_base_def)
  define games' where "games' = (case ires of Inl _ \<Rightarrow> wd_games wd | Inr _ \<Rightarrow> games)"
  have wd': "wd' = wd\<lparr>wd_index := index, wd_games := games', wd_offsets := offs\<rparr>"
    using run by (auto simp: index_and_commit_def ins gms names offs_def games'_def Let_def split: sum.splits if_splits)
  have frame: "frame_on names wd wd'" unfolding wd' using index by (intro frame_index) auto
  have "rows_backed lb wd'"
    using rows_backed_insert [OF rows _ _ _ _ object] index by (auto simp: wd')
  moreover have cov: "covered lb (wd_topic wd p) lost (set index) (wk_cursor wk)" if "ires = Inr ()"
    using cursor(2) index that by (auto intro: covered_stored)
  moreover have offset: "offset_inv lb topic p wd' lost"
  proof (cases "offs = wd_offsets wd")
    case True
    with off index show ?thesis
      by (auto simp: offset_inv_def wd' stored_offset_def elim!: covered_mono)
  next
    case False
    then have "offs = commit_offset topic (int p) (wk_cursor wk) (wd_offsets wd)" "ires = Inr ()"
      by (auto simp: offs_def split: if_splits)
    with cursor(1) cov show ?thesis
      by (simp add: offset_inv_def wd' stored_offset_def load_offset_def commit_offset_def)
  qed
  moreover have wk': "wk' = wk \<or> (res = Inr () \<and> ires = Inr () \<and>
      wk' = wk\<lparr>wk_committed := wk_cursor wk, wk_rows := [], wk_player_games := []\<rparr>)"
    and res: "res = Inr () \<Longrightarrow> ires = Inr () \<and>
      wk' = wk\<lparr>wk_committed := wk_cursor wk, wk_rows := [], wk_player_games := []\<rparr>"
    using run by (auto simp: index_and_commit_def ins gms Let_def split: sum.splits if_splits)
  moreover have "worker_base lb topic p wd' lost wk'"
    using wk' worker_base_frame [OF base frame subset_refl] cov cursor(1) names
    by (auto simp: worker_base_def wd')
  moreover have "worker_inv lb topic p wd' lost wk' \<and> wk_committed wk' = wk_cursor wk \<and>
      stored_offset wd' topic p = wk_cursor wk \<and> stored_row ` set (wk_rows wk) \<subseteq> set (wd_index wd')" if "res = Inr ()"
  proof -
    have "offs = commit_offset topic (int p) (wk_cursor wk) (wd_offsets wd)"
      using run that by (auto simp: offs_def index_and_commit_def ins gms Let_def split: sum.splits if_splits)
    then show ?thesis using res [OF that] cov cursor(1) names closed index
      by (auto simp: worker_inv_def wd' stored_offset_def load_offset_def commit_offset_def)
  qed
  moreover have "stored_offset wd' topic q = stored_offset wd topic q" if "q \<noteq> p" for q
    using that by (simp add: wd' offs_def stored_offset_def load_offset_def commit_offset_def)
  moreover have "stored_offset wd' topic p = stored_offset wd topic p \<or> stored_offset wd' topic p = wk_cursor wk"
    by (simp add: wd' offs_def stored_offset_def load_offset_def commit_offset_def)
  ultimately show ?thesis using frame closed by (auto simp: wd')
qed

lemma offset_inv_same:
  "offset_inv lb topic p wd lost \<Longrightarrow> wd_topic wd' = wd_topic wd \<Longrightarrow> wd_index wd' = wd_index wd \<Longrightarrow>
     wd_offsets wd' = wd_offsets wd \<Longrightarrow> offset_inv lb topic p wd' lost"
  by (simp add: offset_inv_def stored_offset_def)

lemma rows_backed_same:
  "rows_backed lb wd \<Longrightarrow> wd_topic wd' = wd_topic wd \<Longrightarrow> wd_index wd' = wd_index wd \<Longrightarrow>
     ps_objects (wd_store wd') = ps_objects (wd_store wd) \<Longrightarrow> rows_backed lb wd'"
  by (simp add: rows_backed_def)

lemma worker_base_same:
  "worker_base lb topic p wd lost wk \<Longrightarrow> wd_topic wd' = wd_topic wd \<Longrightarrow> wd_index wd' = wd_index wd \<Longrightarrow>
     worker_base lb topic p wd' lost wk"
  by (simp add: worker_base_def)

lemmas same_world = offset_inv_same rows_backed_same worker_base_same

definition sealed_ok :: "libs \<Rightarrow> string \<Rightarrow> nat \<Rightarrow> int set \<Rightarrow> string set \<Rightarrow> worker \<Rightarrow> world \<Rightarrow> (index_error + unit) \<Rightarrow> worker \<Rightarrow> world \<Rightarrow> bool" where
  "sealed_ok lb topic p lost names wk wd res wk' wd' \<longleftrightarrow>
     worker_base lb topic p wd' lost wk' \<and> offset_inv lb topic p wd' lost \<and> rows_backed lb wd' \<and>
     frame_on names wd wd' \<and> wk_open wk' = None \<and>
     (res = Inr () \<longrightarrow> worker_inv lb topic p wd' lost wk' \<and> wk_committed wk' = wk_cursor wk \<and>
        stored_offset wd' topic p = wk_cursor wk \<and> stored_row ` set (wk_rows wk) \<subseteq> set (wd_index wd')) \<and>
     (\<forall>q. q \<noteq> p \<longrightarrow> stored_offset wd' topic q = stored_offset wd topic q) \<and>
     (stored_offset wd' topic p = stored_offset wd topic p \<or> stored_offset wd' topic p = wk_cursor wk)"

lemma upload_and_index_inv:
  assumes run: "upload_and_index lb env w (wk\<lparr>wk_open := None\<rparr>) wd = (res, wk', wd')"
    and inv: "worker_inv lb topic p wd lost wk" and off: "offset_inv lb topic p wd lost" and rows: "rows_backed lb wd"
    and w: "wk_open wk = Some w" and prefix: "stores_prefix env" and name: "pw_name w \<in> names"
  shows "sealed_ok lb topic p lost names wk wd res wk' wd'"
proof -
  have hand: "pack_in_hand lb wd wk w" using inv w by (simp add: worker_inv_def)
  then have free: "ps_objects (wd_store wd) (pw_key w) = None" and staged: "map_of (ps_staging (wd_store wd)) (pw_name w) = Some (pw_file w)"
    and key: "file_name (pw_key w) = Some (pw_name w)" by (simp_all add: pack_in_hand_def)
  let ?wk = "wk\<lparr>wk_open := None\<rparr>"
  let ?wd = "put_object env (pw_key w) (pw_file w) wd"
  have base: "worker_base lb topic p wd lost ?wk" using worker_inv_base [OF inv] by (simp add: worker_base_def)
  have frame: "frame_on names wd ?wd" using free key name by (rule frame_put)
  have put: "worker_base lb topic p ?wd lost ?wk" "offset_inv lb topic p ?wd lost" "rows_backed lb ?wd"
    using base off rows_backed_put [OF rows free] by (auto intro: same_world)
  have kept: "stored_offset ?wd topic q = stored_offset wd topic q" for q by (simp add: stored_offset_def)
  consider (early) "\<exists>e. res = Inl e" "wk' = ?wk" "wd' = wd"
    | (failed) "\<exists>e. res = Inl e" "wk' = ?wk" "wd' = ?wd"
    | (verified) "se_put env = Done"
        "map_option length (ps_objects (wd_store ?wd) (pw_key w)) = Some (length (pw_file w))"
        "index_and_commit lb env ?wk ?wd = (res, wk', wd')"
    using run staged by (auto simp: upload_and_index_def seal_def Let_def split: if_splits option.splits)
  then show ?thesis
  proof cases
    case early
    then show ?thesis using base off rows by (auto simp: sealed_ok_def)
  next
    case failed
    then show ?thesis using put frame kept by (auto simp: sealed_ok_def)
  next
    case verified
    have object: "ps_objects (wd_store ?wd) (pw_key w) = Some (pw_file w)"
      using verified_upload [OF prefix verified(1,2)] .
    have "within (wd_topic ?wd p) (wk_cursor ?wk)"
      "covered lb (wd_topic ?wd p) lost (set (wd_index ?wd) \<union> set (wk_rows ?wk)) (wk_cursor ?wk)"
      "\<forall>row \<in> set (wk_rows ?wk). backed lb (wd_topic ?wd) (pw_key w) (pw_file w) row"
      using inv hand by (simp_all add: worker_inv_def pack_in_hand_def)
    from index_and_commit_inv [OF verified(3) put this(1,2) object this(3), of names]
    have "sealed_ok lb topic p lost names wk ?wd res wk' wd'" by (simp add: sealed_ok_def)
    then show ?thesis using frame_trans [OF frame] kept by (auto simp: sealed_ok_def)
  qed
qed

lemma seal_open_inv:
  assumes run: "seal_open lb env wk wd = (res, wk', wd')"
    and inv: "worker_inv lb topic p wd lost wk" and off: "offset_inv lb topic p wd lost" and rows: "rows_backed lb wd"
    and w: "wk_open wk = Some w" and prefix: "stores_prefix env" and name: "pw_name w \<in> names"
  shows "sealed_ok lb topic p lost names wk wd res wk' wd'"
proof -
  obtain wd1 where up: "upload_and_index lb env w (wk\<lparr>wk_open := None\<rparr>) wd = (res, wk', wd1)"
    and wd': "wd' = drop_staged (se_removed env) w wd1"
    using run w by (auto simp: seal_open_def split: prod.splits)
  have ok: "sealed_ok lb topic p lost names wk wd res wk' wd1" using upload_and_index_inv [OF up inv off rows w prefix name] .
  have "frame_on names wd1 wd'" unfolding wd' using name by (rule frame_drop)
  moreover have "worker_inv lb topic p wd' lost wk'" if "worker_inv lb topic p wd1 lost wk'" "wk_open wk' = None"
    using that by (auto simp: worker_inv_def wd')
  ultimately show ?thesis
    using ok frame_trans [of names wd wd1 wd'] rows_backed_same [of lb wd1 wd']
      worker_base_same [of lb topic p wd1 lost wk' wd'] offset_inv_same [of lb topic p wd1 lost wd']
    by (auto simp: sealed_ok_def wd' stored_offset_def)
qed

section \<open>The append\<close>

definition reachable_names :: "worker \<Rightarrow> world \<Rightarrow> string set" where
  "reachable_names wk wd = {n. map_of (ps_staging (wd_store wd)) n = None} \<union> {pw_name w | w. wk_open wk = Some w}"

definition fresh_pack :: "append_env \<Rightarrow> world \<Rightarrow> bool" where
  "fresh_pack env wd \<longleftrightarrow>
     (\<forall>w. staging_writer (wd_store wd) (ae_today env) (ae_part env) (ae_new_uuid env) = Inr w \<longrightarrow>
        ps_objects (wd_store wd) (pw_key w) = None)"

lemma create_obtain:
  assumes "create dir key = Inr w"
  shows "writer_wf w" "pw_key w = key" "file_name key = Some (pw_name w)" "map_of dir (pw_name w) = None"
  using assms create_wf [OF assms] by (auto simp: create_def split: option.splits if_splits)

text \<open>The writer a batch goes to, whether it was open or is new.\<close>

lemma open_writer_hand:
  assumes "open_writer env (wd_store wd) wk = Inr w" and "worker_inv lb topic p wd lost wk" and "fresh_pack env wd"
  shows "writer_wf w \<and> file_name (pw_key w) = Some (pw_name w) \<and> ps_objects (wd_store wd) (pw_key w) = None \<and>
     pw_name w \<in> reachable_names wk wd \<and> (\<forall>row \<in> set (wk_rows wk). backed lb (wd_topic wd) (pw_key w) (pw_file w) row)"
proof (cases "wk_open wk")
  case None
  with assms(1) have new: "staging_writer (wd_store wd) (ae_today env) (ae_part env) (ae_new_uuid env) = Inr w"
    by (simp add: open_writer_def)
  note made = create_obtain [OF new [unfolded staging_writer_def]]
  from new assms(3) have "ps_objects (wd_store wd) (pw_key w) = None" by (simp add: fresh_pack_def)
  with made None assms(2) show ?thesis by (simp add: reachable_names_def worker_inv_def)
next
  case (Some v)
  with assms show ?thesis by (auto simp: open_writer_def worker_inv_def pack_in_hand_def reachable_names_def)
qed

lemma goes_on_backed:
  "goes_on w w' \<Longrightarrow> backed lb topic key (pw_file w) row \<Longrightarrow> backed lb topic key (pw_file w') row"
  unfolding backed_def using goes_on_row by blast

definition same_place :: "worker \<Rightarrow> worker \<Rightarrow> bool" where
  "same_place wk wk' \<longleftrightarrow> wk_topic wk' = wk_topic wk \<and> wk_partition wk' = wk_partition wk \<and>
     wk_cursor wk' = wk_cursor wk \<and> wk_committed wk' = wk_committed wk"

lemma append_messages_inv:
  assumes run: "append_messages lb env ms wk (wd_store wd) = (res, wk', store')"
    and inv: "worker_inv lb topic p wd lost wk" and fresh: "fresh_pack env wd"
    and codec: "codec_ok (lb_compress lb) (lb_bulk lb)"
    and ids: "\<forall>m \<in> set ms. length (im_record_id m) = 16"
    and sent: "\<forall>m \<in> set ms. indexable lb m \<longrightarrow> produced lb (wd_topic wd) m"
  defines "wd' \<equiv> wd\<lparr>wd_store := store'\<rparr>"
  shows "frame_on (reachable_names wk wd) wd wd' \<and> ps_objects store' = ps_objects (wd_store wd) \<and> same_place wk wk' \<and>
     (\<forall>w. wk_open wk' = Some w \<longrightarrow> pw_name w \<in> reachable_names wk wd) \<and>
     (res = Inr () \<longrightarrow> (case wk_open wk' of None \<Rightarrow> wk_rows wk' = [] | Some w \<Rightarrow> pack_in_hand lb wd' wk' w) \<and>
        set (wk_rows wk) \<subseteq> set (wk_rows wk') \<and>
        (\<forall>m \<in> set ms. indexable lb m \<longrightarrow> (\<exists>row \<in> set (wk_rows wk'). same_row m row)))"
proof (cases "ms = [] \<or> (\<exists>e. open_writer env (wd_store wd) wk = Inl e)")
  case True
  then have out: "wk' = wk" "store' = wd_store wd" "ms = [] \<or> (\<exists>e. res = Inl e)"
    using run by (auto simp: append_messages_def split: if_splits)
  then have "wd' = wd" by (simp add: wd'_def)
  with inv out show ?thesis by (auto simp: worker_inv_def same_place_def reachable_names_def)
next
  case False
  then obtain w where w: "open_writer env (wd_store wd) wk = Inr w" and ne: "ms \<noteq> []"
    by (cases "open_writer env (wd_store wd) wk") auto
  note hand = open_writer_hand [OF w inv fresh]
  show ?thesis
  proof (cases "append_batch lb (ae_now env) (w, wk_rows wk, wk_player_games wk) ms")
    case (Inl e)
    then have out: "res = Inl e" "wk' = wk\<lparr>wk_open := Some (torn env w)\<rparr>" "store' = stage (torn env w) (wd_store wd)"
      using run ne w by (auto simp: append_messages_def)
    moreover have "pw_name (torn env w) = pw_name w" by (simp add: torn_def)
    ultimately show ?thesis using hand frame_stage [of "torn env w" "reachable_names wk wd" wd]
      by (auto simp: wd'_def same_place_def stage_def)
  next
    case (Inr st)
    obtain w' rows games where st: "st = (w', rows, games)" by (cases st)
    have out: "res = Inr ()" "wk' = hold wk (w', rows, games)" "store' = stage w' (wd_store wd)"
      using run ne w Inr by (auto simp: append_messages_def st)
    from append_batch_effect [OF codec Inr [unfolded st]] hand ids obtain new where on: "goes_on w w'"
      and new: "rows = wk_rows wk @ new" "\<forall>m \<in> set ms. indexable lb m \<longrightarrow> (\<exists>row \<in> set new. same_row m row)"
        "\<forall>row \<in> set new. \<exists>m \<in> set ms. row_in_file lb (pw_key w) (pw_file w') m row"
      by blast
    have same: "pw_key w' = pw_key w" "pw_name w' = pw_name w" "writer_wf w'" using on by (simp_all add: goes_on_def)
    have "\<forall>row \<in> set new. backed lb (wd_topic wd) (pw_key w) (pw_file w') row"
      using new(3) sent by (fastforce simp: backed_def row_in_file_def)
    then have "\<forall>row \<in> set rows. backed lb (wd_topic wd) (pw_key w) (pw_file w') row"
      using hand goes_on_backed [OF on] by (auto simp: new(1))
    then have "pack_in_hand lb wd' wk' w'"
      using hand same by (simp add: pack_in_hand_def out wd'_def stage_def hold_def map_of_write_back)
    then show ?thesis
      using hand same new(2) frame_stage [of w' "reachable_names wk wd" wd]
      by (auto simp: out wd'_def hold_def same_place_def stage_def new(1))
  qed
qed

section \<open>One turn\<close>

text \<open>What a turn needs of its surroundings.\<close>

definition turn_ok :: "libs \<Rightarrow> turn_env \<Rightarrow> kafka_record list \<Rightarrow> worker \<Rightarrow> world \<Rightarrow> bool" where
  "turn_ok lb env log wk wd \<longleftrightarrow> codec_ok (lb_compress lb) (lb_bulk lb) \<and> ids_ok lb \<and> fresh_pack (tn_append env) wd \<and>
     stores_prefix (tn_seal env) \<and> (\<forall>f. tn_fetched env = Some (Inr f) \<longrightarrow> served log (wk_cursor wk) f)"

definition skipped :: "turn_env \<Rightarrow> worker \<Rightarrow> int set" where
  "skipped env wk =
     (if tn_shutdown env then {}
      else case tn_fetched env of Some (Inr f) \<Rightarrow> {wk_cursor wk..<ft_start_offset f} | _ \<Rightarrow> {})"

lemma covered_extend:
  assumes "covered lb log lost rows cursor" and "served log cursor f" and "rows \<subseteq> rows'"
    and "\<forall>m \<in> set (decode lb (ft_records f)). indexable lb m \<longrightarrow> (\<exists>row \<in> rows'. same_row m row)"
  shows "covered lb log (lost \<union> {cursor..<ft_start_offset f}) rows' (next_offset f)"
  unfolding covered_def
proof (intro allI impI)
  fix i m assume i: "i < next_offset f" "i \<notin> lost \<union> {cursor..<ft_start_offset f}" and at: "msg_at lb log i m"
  show "\<exists>row \<in> rows'. same_row m row"
  proof (cases "i < cursor")
    case True
    then show ?thesis using coveredD [OF assms(1) _ _ at] i(2) assms(3) by auto
  next
    case False
    then have "m \<in> set (decode lb (ft_records f))" using served_fetched [OF assms(2) at] i by auto
    then show ?thesis using assms(4) at by (simp add: msg_at_def)
  qed
qed

lemma next_offset_within: "served log cursor f \<Longrightarrow> within log (next_offset f)"
  by (rule next_offset_served) (auto simp: served_def within_def)

lemma decoded_messages:
  assumes "served (wd_topic wd p) cursor f" and "ids_ok lb" and "m \<in> set (decode lb (ft_records f))"
  shows "length (im_record_id m) = 16 \<and> (indexable lb m \<longrightarrow> produced lb (wd_topic wd) m)"
  by (rule served_decoded [OF assms(1,3)]) (auto simp: produced_def msg_at_def intro: from_record_id [OF assms(2)])

lemma worker_inv_lost: "worker_inv lb topic p wd lost wk \<Longrightarrow> lost \<subseteq> lost' \<Longrightarrow> worker_inv lb topic p wd lost' wk"
  unfolding worker_inv_def by (auto elim: covered_mono)

definition fetched_ok :: "libs \<Rightarrow> string \<Rightarrow> nat \<Rightarrow> int set \<Rightarrow> worker \<Rightarrow> world \<Rightarrow> (index_error + unit) \<Rightarrow> worker \<Rightarrow> world \<Rightarrow> bool" where
  "fetched_ok lb topic p lost wk wd res wk' wd' \<longleftrightarrow>
     frame_on (reachable_names wk wd) wd wd' \<and> ps_objects (wd_store wd') = ps_objects (wd_store wd) \<and>
     wd_index wd' = wd_index wd \<and> wd_offsets wd' = wd_offsets wd \<and>
     (\<forall>w. wk_open wk' = Some w \<longrightarrow> pw_name w \<in> reachable_names wk wd) \<and>
     worker_base lb topic p wd' lost wk' \<and> (res = Inr () \<longrightarrow> worker_inv lb topic p wd' lost wk')"

lemma fetch_part_idle:
  "worker_inv lb topic p wd lost wk \<Longrightarrow> lost \<subseteq> lost' \<Longrightarrow> fetched_ok lb topic p lost' wk wd (Inr ()) wk wd"
  by (auto simp: fetched_ok_def reachable_names_def dest: worker_inv_lost intro: worker_inv_base)

text \<open>A batch as it was served, appended: the worker is well again at the next offset.\<close>

lemma append_fetched_inv:
  assumes app: "append_messages lb env (decode lb (ft_records f)) wk (wd_store wd) = (res, wk1, store)"
    and inv: "worker_inv lb topic p wd lost wk" and srv: "served (wd_topic wd p) (wk_cursor wk) f"
    and lib: "codec_ok (lb_compress lb) (lb_bulk lb)" "ids_ok lb" and fresh: "fresh_pack env wd"
  shows "frame_on (reachable_names wk wd) wd (wd\<lparr>wd_store := store\<rparr>) \<and> ps_objects store = ps_objects (wd_store wd) \<and>
     same_place wk wk1 \<and> (\<forall>w. wk_open wk1 = Some w \<longrightarrow> pw_name w \<in> reachable_names wk wd) \<and>
     (res = Inr () \<longrightarrow> worker_inv lb topic p (wd\<lparr>wd_store := store\<rparr>) (lost \<union> {wk_cursor wk..<ft_start_offset f})
        (wk1\<lparr>wk_cursor := next_offset f\<rparr>))"
proof -
  from append_messages_inv [OF app inv fresh lib(1)] decoded_messages [OF srv lib(2)]
  have app_ok: "frame_on (reachable_names wk wd) wd (wd\<lparr>wd_store := store\<rparr>)" "ps_objects store = ps_objects (wd_store wd)"
     "same_place wk wk1" "\<forall>w. wk_open wk1 = Some w \<longrightarrow> pw_name w \<in> reachable_names wk wd"
     "res = Inr () \<Longrightarrow> (case wk_open wk1 of None \<Rightarrow> wk_rows wk1 = [] | Some w \<Rightarrow> pack_in_hand lb (wd\<lparr>wd_store := store\<rparr>) wk1 w)"
     "res = Inr () \<Longrightarrow> set (wk_rows wk) \<subseteq> set (wk_rows wk1) \<and>
        (\<forall>m \<in> set (decode lb (ft_records f)). indexable lb m \<longrightarrow> (\<exists>row \<in> set (wk_rows wk1). same_row m row))"
    by auto
  have base: "worker_base lb topic p (wd\<lparr>wd_store := store\<rparr>) (lost \<union> {wk_cursor wk..<ft_start_offset f}) wk1"
    using worker_base_frame [OF worker_inv_base [OF inv] app_ok(1), of "lost \<union> {wk_cursor wk..<ft_start_offset f}"] app_ok(3)
    by (simp add: worker_base_def same_place_def)
  have "worker_inv lb topic p (wd\<lparr>wd_store := store\<rparr>) (lost \<union> {wk_cursor wk..<ft_start_offset f})
      (wk1\<lparr>wk_cursor := next_offset f\<rparr>)" if "res = Inr ()"
  proof -
    have "covered lb (wd_topic wd p) (lost \<union> {wk_cursor wk..<ft_start_offset f})
        (set (wd_index wd) \<union> set (wk_rows wk1)) (next_offset f)"
      using inv srv app_ok(6) [OF that] by (intro covered_extend) (auto simp: worker_inv_def)
    then show ?thesis
      using base app_ok(5) [OF that] next_offset_within [OF srv]
      by (auto simp: worker_inv_def worker_base_def pack_in_hand_def split: option.splits)
  qed
  then show ?thesis using app_ok(1-4) by simp
qed

lemma fetch_part_inv:
  assumes run: "fetch_part lb env wk wd = (res, wk', wd')" and ok: "turn_ok lb env (wd_topic wd p) wk wd"
    and inv: "worker_inv lb topic p wd lost wk"
  shows "fetched_ok lb topic p (lost \<union> skipped env wk) wk wd res wk' wd'"
proof (cases "\<not> tn_shutdown env \<and> (\<exists>f. tn_fetched env = Some (Inr f))")
  case False
  then have "res = Inr ()" "wk' = wk" "wd' = wd"
    using run by (auto simp: fetch_part_def split: if_splits option.splits sum.splits)
  then show ?thesis using fetch_part_idle [OF inv] by simp
next
  case True
  then obtain f where f: "\<not> tn_shutdown env" "tn_fetched env = Some (Inr f)" by blast
  define wk0 where "wk0 = wk\<lparr>wk_at_end_of_log := is_end_of_log f\<rparr>"
  have inv0: "worker_inv lb topic p wd lost wk0" using inv by (simp add: wk0_def worker_inv_defs split: option.splits)
  have srv: "served (wd_topic wd p) (wk_cursor wk0) f" using ok f by (simp add: turn_ok_def wk0_def)
  obtain wk1 store where app: "append_messages lb (tn_append env) (decode lb (ft_records f)) wk0 (wd_store wd) = (res, wk1, store)"
    and out: "wd' = wd\<lparr>wd_store := store\<rparr>" "res = Inr () \<Longrightarrow> wk' = wk1\<lparr>wk_cursor := next_offset f\<rparr>"
      "res \<noteq> Inr () \<Longrightarrow> wk' = wk1"
    using run f by (auto simp: fetch_part_def Let_def wk0_def split: prod.splits sum.splits)
  have same: "reachable_names wk0 wd = reachable_names wk wd" "{wk_cursor wk0..<ft_start_offset f} = skipped env wk"
    using f by (simp_all add: reachable_names_def wk0_def skipped_def)
  have "codec_ok (lb_compress lb) (lb_bulk lb)" "ids_ok lb" "fresh_pack (tn_append env) wd"
    using ok by (simp_all add: turn_ok_def)
  from append_fetched_inv [OF app inv0 srv this, unfolded same]
  have ok': "frame_on (reachable_names wk wd) wd wd'" "ps_objects store = ps_objects (wd_store wd)" "same_place wk0 wk1"
    "\<forall>w. wk_open wk1 = Some w \<longrightarrow> pw_name w \<in> reachable_names wk wd"
    "res = Inr () \<longrightarrow> worker_inv lb topic p wd' (lost \<union> skipped env wk) (wk1\<lparr>wk_cursor := next_offset f\<rparr>)"
    by (simp_all add: out(1))
  have "worker_base lb topic p wd' (lost \<union> skipped env wk) wk'"
    using worker_base_frame [OF worker_inv_base [OF inv0] ok'(1), of "lost \<union> skipped env wk"] ok'(3) out(2,3)
    by (cases "res = Inr ()") (auto simp: worker_base_def same_place_def)
  moreover have "\<forall>w. wk_open wk' = Some w \<longrightarrow> pw_name w \<in> reachable_names wk wd"
    using ok'(4) out(2,3) by (cases "res = Inr ()") auto
  ultimately show ?thesis using ok' out by (cases "res = Inr ()") (auto simp: fetched_ok_def)
qed

definition turned_ok :: "libs \<Rightarrow> string \<Rightarrow> nat \<Rightarrow> int set \<Rightarrow> worker \<Rightarrow> world \<Rightarrow> status \<Rightarrow> worker \<Rightarrow> world \<Rightarrow> bool" where
  "turned_ok lb topic p lost wk wd status wk' wd' \<longleftrightarrow>
     frame_on (reachable_names wk wd) wd wd' \<and> rows_backed lb wd' \<and> offset_inv lb topic p wd' lost \<and>
     (\<forall>q. q \<noteq> p \<longrightarrow> stored_offset wd' topic q = stored_offset wd topic q) \<and>
     (status = Running \<longrightarrow> worker_inv lb topic p wd' lost wk' \<and>
        (\<forall>w. wk_open wk' = Some w \<longrightarrow> pw_name w \<in> reachable_names wk wd))"

lemma offset_inv_lost: "offset_inv lb topic p wd lost \<Longrightarrow> lost \<subseteq> lost' \<Longrightarrow> offset_inv lb topic p wd lost'"
  unfolding offset_inv_def by (auto elim: covered_mono)

lemma worker_inv_failures [simp]:
  "worker_inv lb topic p wd lost (wk\<lparr>wk_seal_failures := n\<rparr>) = worker_inv lb topic p wd lost wk"
  by (simp add: worker_inv_defs split: option.splits)

lemma seal_part_inv:
  assumes run: "seal_part lb limits env wk wd = (wk', wd')"
    and inv: "worker_inv lb topic p wd lost wk" and off: "offset_inv lb topic p wd lost" and rows: "rows_backed lb wd"
    and prefix: "stores_prefix (tn_seal env)" and name: "\<forall>w. wk_open wk = Some w \<longrightarrow> pw_name w \<in> names"
  shows "worker_inv lb topic p wd' lost wk' \<and> offset_inv lb topic p wd' lost \<and> rows_backed lb wd' \<and>
     frame_on names wd wd' \<and> (\<forall>w. wk_open wk' = Some w \<longrightarrow> pw_name w \<in> names) \<and>
     (\<forall>q. q \<noteq> p \<longrightarrow> stored_offset wd' topic q = stored_offset wd topic q) \<and>
     (stored_offset wd' topic p = stored_offset wd topic p \<or> stored_offset wd' topic p = wk_cursor wk)"
proof (cases "(tn_stopping env \<or> pack_is_ready limits (tn_now env) wk) \<and> wk_open wk \<noteq> None")
  case False
  then show ?thesis using run inv off rows name by (auto simp: seal_part_def)
next
  case True
  then obtain w where w: "wk_open wk = Some w" by auto
  obtain res wk1 wd1 where seal: "seal_open lb (tn_seal env) wk wd = (res, wk1, wd1)" by (cases "seal_open lb (tn_seal env) wk wd")
  have ok: "sealed_ok lb topic p lost names wk wd res wk1 wd1"
    using seal_open_inv [OF seal inv off rows w prefix] name w by simp
  show ?thesis
  proof (cases res)
    case (Inr u)
    then show ?thesis using run True seal ok by (auto simp: seal_part_def sealed_ok_def)
  next
    case (Inl e)
    obtain wk2 wd2 where dis: "discard (tn_discarded env) wk1 wd1 = (wk2, wd2)" by fastforce
    have base: "worker_base lb topic p wd1 lost wk1" and closed: "wk_open wk1 = None" using ok by (simp_all add: sealed_ok_def)
    have wd2: "wd2 = wd1" using dis closed by (simp add: discard_def)
    show ?thesis
      using run True seal Inl dis discard_inv [OF base dis] ok
      by (auto simp: seal_part_def sealed_ok_def wd2)
  qed
qed

lemma run_turn_inv:
  assumes run: "run_turn lb limits env wk wd = (status, wk', wd')" and ok: "turn_ok lb env (wd_topic wd p) wk wd"
    and inv: "worker_inv lb topic p wd lost wk" and off: "offset_inv lb topic p wd lost" and rows: "rows_backed lb wd"
  shows "turned_ok lb topic p (lost \<union> skipped env wk) wk wd status wk' wd'"
proof -
  let ?lost = "lost \<union> skipped env wk" and ?names = "reachable_names wk wd"
  obtain res wk1 wd1 where fetch: "fetch_part lb env wk wd = (res, wk1, wd1)" by (cases "fetch_part lb env wk wd")
  have fetched: "fetched_ok lb topic p ?lost wk wd res wk1 wd1" using fetch_part_inv [OF fetch ok inv] .
  then have frame: "frame_on ?names wd wd1" and base: "worker_base lb topic p wd1 ?lost wk1"
    and names: "\<forall>w. wk_open wk1 = Some w \<longrightarrow> pw_name w \<in> ?names" by (simp_all add: fetched_ok_def)
  have topic: "wd_topic wd1 = wd_topic wd" using frame by (simp add: frame_on_def)
  have off1: "offset_inv lb topic p wd1 ?lost" and rows1: "rows_backed lb wd1"
    using fetched topic offset_inv_same [OF offset_inv_lost [OF off], of ?lost wd1] rows_backed_same [OF rows, of wd1]
    by (auto simp: fetched_ok_def)
  have kept: "stored_offset wd1 topic q = stored_offset wd topic q" for q
    using fetched by (simp add: fetched_ok_def stored_offset_def)
  show ?thesis
  proof (cases res)
    case (Inr u)
    obtain wk2 wd2 where seal: "seal_part lb limits env wk1 wd1 = (wk2, wd2)" by fastforce
    have "worker_inv lb topic p wd1 ?lost wk1" using fetched Inr by (simp add: fetched_ok_def)
    from seal_part_inv [OF seal this off1 rows1 _ names] ok
    show ?thesis using run fetch Inr seal frame_trans [OF frame] kept by (auto simp: run_turn_def turned_ok_def turn_ok_def)
  next
    case (Inl e)
    obtain wk2 wd2 where dis: "discard (tn_discarded env) wk1 wd1 = (wk2, wd2)" by fastforce
    note fallen = discard_inv [OF base dis]
    note kept2 = discard_frame [OF dis, of ?names]
    show ?thesis
    proof (cases "\<exists>m. e = Worker_Panicked m")
      case True
      then show ?thesis using run fetch Inl frame off1 rows1 kept by (auto simp: run_turn_def turned_ok_def)
    next
      case False
      then have out: "status = Running" "wk' = wk2" "wd' = wd2"
        using run fetch Inl dis by (auto simp: run_turn_def split: index_error.splits)
      have same: "frame_on ?names wd1 wd2" "wd_index wd2 = wd_index wd1" "wd_offsets wd2 = wd_offsets wd1"
        "ps_objects (wd_store wd2) = ps_objects (wd_store wd1)" using kept2 names by auto
      then have "wd_topic wd2 = wd_topic wd1" by (simp add: frame_on_def)
      then have "offset_inv lb topic p wd2 ?lost" "rows_backed lb wd2"
        using offset_inv_same [OF off1] rows_backed_same [OF rows1] same by simp_all
      moreover have "stored_offset wd2 topic q = stored_offset wd topic q" for q
        using kept [of q] same(3) by (simp add: stored_offset_def)
      ultimately show ?thesis using fallen frame_trans [OF frame same(1)] by (simp add: turned_ok_def out)
    qed
  qed
qed

end
