(* ===== verification/Gc.thy ===== *)
theory Gc
  imports Catalog Pack_Correct
begin

text \<open>
  \<^verbatim>\<open>src/gc.rs\<close>: the collector of pack objects no index row points at. The answers of the
  index, of the listing and of every delete are arguments: a delete is acknowledged, refused, or
  carried out without an acknowledgement, and anything but an acknowledgement ends the run with
  an error. A time is a number of nanoseconds.
\<close>

section \<open>The collector\<close>

record object_entry =
  oe_key :: string
  oe_size :: nat
  oe_last_modified :: int

datatype gc_error = Index_Down | Listing_Down | Delete_Failed string

definition str_ends_with :: "string \<Rightarrow> string \<Rightarrow> bool" where
  "str_ends_with s suffix \<longleftrightarrow> length suffix \<le> length s \<and> drop (length s - length suffix) s = suffix"

text \<open>\<^verbatim>\<open>signed_duration_since(..).to_std().is_ok_and(..)\<close>: a negative duration has no \<^verbatim>\<open>Duration\<close>.\<close>

definition old_enough :: "int \<Rightarrow> nat \<Rightarrow> object_entry \<Rightarrow> bool" where
  "old_enough now grace entry \<longleftrightarrow>
     (let elapsed = now - oe_last_modified entry in 0 \<le> elapsed \<and> int grace \<le> elapsed)"

definition orphans :: "object_entry list \<Rightarrow> string set \<Rightarrow> int \<Rightarrow> nat \<Rightarrow> string list" where
  "orphans listed referenced now grace =
     (if referenced = {} then []
      else map oe_key
        (filter (old_enough now grace)
          (filter (\<lambda>entry. oe_key entry \<notin> referenced)
            (filter (\<lambda>entry. str_ends_with (oe_key entry) pack_suffix) listed))))"

text \<open>The loop over the orphans, with the number deleted so far.\<close>

fun delete_all :: "(string \<Rightarrow> outcome) \<Rightarrow> string list \<Rightarrow> nat \<Rightarrow> bucket \<Rightarrow> (gc_error + nat) \<times> bucket" where
  "delete_all delete [] deleted objects = (Inr deleted, objects)"
| "delete_all delete (key # keys) deleted objects =
     (let objects' = (if took_effect (delete key) then objects(key := None) else objects)
      in if delete key = Done then delete_all delete keys (deleted + 1) objects'
         else (Inl (Delete_Failed key), objects'))"

definition collect ::
  "(catalog_error + index_row list) \<Rightarrow> (unit + object_entry list) \<Rightarrow> (string \<Rightarrow> outcome) \<Rightarrow> int \<Rightarrow> nat \<Rightarrow> bucket \<Rightarrow>
   (gc_error + nat) \<times> bucket" where
  "collect index listing delete now grace objects =
     (case index of
        Inl _ \<Rightarrow> (Inl Index_Down, objects)
      | Inr rows \<Rightarrow>
          let referenced = set (indexed_pack_keys rows)
          in if referenced = {} then (Inr 0, objects)
             else case listing of
                    Inl _ \<Rightarrow> (Inl Listing_Down, objects)
                  | Inr listed \<Rightarrow> delete_all delete (orphans listed referenced now grace) 0 objects)"

section \<open>What the loop changes\<close>

lemma delete_all_only: "snd (delete_all delete keys n objects) key \<noteq> objects key \<Longrightarrow> key \<in> set keys"
proof (induction keys arbitrary: n objects)
  case (Cons k keys)
  define objects' where "objects' = (if took_effect (delete k) then objects(k := None) else objects)"
  have same: "k \<noteq> key \<Longrightarrow> objects' key = objects key" by (simp add: objects'_def)
  show ?case
  proof (cases "k = key \<or> delete k \<noteq> Done")
    case True
    then show ?thesis using Cons.prems same by (auto simp: Let_def objects'_def split: if_splits)
  next
    case False
    then have "snd (delete_all delete keys (Suc n) (objects(k := None))) key \<noteq> (objects(k := None)) key"
      using Cons.prems by auto
    then have "key \<in> set keys" by (rule Cons.IH)
    then show ?thesis by simp
  qed
qed simp

lemma delete_all_acked:
  "\<forall>key \<in> set keys. delete key = Done \<Longrightarrow>
     delete_all delete keys n objects = (Inr (n + length keys), (\<lambda>key. if key \<in> set keys then None else objects key))"
  by (induction keys arbitrary: n objects) (auto simp: Let_def took_effect_def fun_eq_iff)

lemma delete_all_shrinks: "snd (delete_all delete keys n objects) key = objects key \<or> snd (delete_all delete keys n objects) key = None"
proof (induction keys arbitrary: n objects)
  case (Cons k keys)
  define objects' where "objects' = (if took_effect (delete k) then objects(k := None) else objects)"
  have "objects' key = objects key \<or> objects' key = None" by (simp add: objects'_def)
  with Cons.IH [of "n + 1" objects'] show ?case by (auto simp: Let_def simp flip: objects'_def)
qed simp

lemma collect_shrinks:
  "snd (collect index listing delete now grace objects) key = objects key \<or>
   snd (collect index listing delete now grace objects) key = None"
  using delete_all_shrinks by (auto simp: collect_def Let_def split: sum.splits)

lemma set_orphans:
  "key \<in> set (orphans listed referenced now grace) \<longleftrightarrow>
     referenced \<noteq> {} \<and> key \<notin> referenced \<and> str_ends_with key pack_suffix \<and>
     (\<exists>entry \<in> set listed. oe_key entry = key \<and> old_enough now grace entry)"
  by (auto simp: orphans_def)

lemma set_indexed_pack_keys: "set (indexed_pack_keys rows) = (\<lambda>row. pl_pack_key (rw_storage row)) ` set rows"
  by (simp add: indexed_pack_keys_def)

lemma collect_only:
  assumes "snd (collect index listing delete now grace objects) key \<noteq> objects key"
  obtains rows listed entry where "index = Inr rows" "listing = Inr listed" "rows \<noteq> []"
    "\<forall>row \<in> set rows. pl_pack_key (rw_storage row) \<noteq> key" "entry \<in> set listed" "oe_key entry = key"
    "str_ends_with key pack_suffix" "0 \<le> now - oe_last_modified entry" "int grace \<le> now - oe_last_modified entry"
proof -
  obtain rows listed where inputs: "index = Inr rows" "listing = Inr listed"
    and changed: "snd (delete_all delete (orphans listed (set (indexed_pack_keys rows)) now grace) 0 objects) key \<noteq> objects key"
    using assms by (auto simp: collect_def Let_def split: sum.splits if_splits)
  from delete_all_only [OF changed] show thesis
    using that inputs by (fastforce simp: set_orphans set_indexed_pack_keys old_enough_def Let_def image_iff)
qed

section \<open>Properties\<close>

text \<open>Claim C9: whatever the index, the bucket and the deletes answer, and wherever the run
  stops, an object that is gone afterwards was a pack of the listing that no row of the index
  pointed at and that had been there for the whole grace period; and an index that reports no
  pack at all deletes nothing.\<close>

theorem collect_deletes_only_orphans:
  "(\<forall>key. snd (collect (Inr rows) (Inr listed) delete now grace objects) key \<noteq> objects key \<longrightarrow>
      str_ends_with key pack_suffix \<and> (\<forall>row \<in> set rows. pl_pack_key (rw_storage row) \<noteq> key) \<and>
      (\<exists>entry \<in> set listed. oe_key entry = key \<and> int grace \<le> now - oe_last_modified entry)) \<and>
   collect (Inr []) listing delete now grace objects = (Inr 0, objects) \<and>
   (\<forall>e. collect (Inl e) listing delete now grace objects = (Inl Index_Down, objects))"
proof -
  have "str_ends_with key pack_suffix \<and> (\<forall>row \<in> set rows. pl_pack_key (rw_storage row) \<noteq> key) \<and>
      (\<exists>entry \<in> set listed. oe_key entry = key \<and> int grace \<le> now - oe_last_modified entry)"
    if "snd (collect (Inr rows) (Inr listed) delete now grace objects) key \<noteq> objects key" for key
    using that by (rule collect_only) auto
  then show ?thesis by (auto simp: collect_def indexed_pack_keys_def)
qed

text \<open>A failed run may already have deleted: with two orphans and a bucket that refuses
  the second delete, the run reports an error and the first object is gone.\<close>

theorem collect_fails_midway:
  "collect (Inr [sample_row u ''packs/c.mjpack''])
     (Inr [\<lparr>oe_key = ''packs/a.mjpack'', oe_size = 1, oe_last_modified = now\<rparr>,
           \<lparr>oe_key = ''packs/b.mjpack'', oe_size = 1, oe_last_modified = now\<rparr>])
     (\<lambda>key. if key = ''packs/a.mjpack'' then Done else Refused) now 0
     [''packs/a.mjpack'' \<mapsto> [1], ''packs/b.mjpack'' \<mapsto> [2]] =
   (Inl (Delete_Failed ''packs/b.mjpack''), [''packs/b.mjpack'' \<mapsto> [2]])"
  by (simp add: collect_def orphans_def indexed_pack_keys_def str_ends_with_def pack_suffix_def old_enough_def
      sample_row_def)

section \<open>Witnesses\<close>

theorem collect_deletes_only_orphans_witness:
  "snd (collect (Inr [sample_row [] ''packs/c.mjpack''])
      (Inr [\<lparr>oe_key = ''packs/a.mjpack'', oe_size = 1, oe_last_modified = 0\<rparr>,
            \<lparr>oe_key = ''packs/c.mjpack'', oe_size = 1, oe_last_modified = 0\<rparr>])
      (\<lambda>_. Done) 100 10 [''packs/a.mjpack'' \<mapsto> [1], ''packs/c.mjpack'' \<mapsto> [2]]) ''packs/a.mjpack'' \<noteq> Some [1] \<and>
   str_ends_with ''packs/a.mjpack'' pack_suffix"
proof -
  let ?row = "sample_row [] ''packs/c.mjpack''"
  let ?listed = "[\<lparr>oe_key = ''packs/a.mjpack'', oe_size = 1, oe_last_modified = 0\<rparr>,
            \<lparr>oe_key = ''packs/c.mjpack'', oe_size = 1, oe_last_modified = 0\<rparr>]"
  let ?objects = "[''packs/a.mjpack'' \<mapsto> [1], ''packs/c.mjpack'' \<mapsto> [2]] :: bucket"
  have "snd (collect (Inr [?row]) (Inr ?listed) (\<lambda>_. Done) 100 10 ?objects) ''packs/a.mjpack'' \<noteq> Some [1]"
    by (simp add: collect_def orphans_def indexed_pack_keys_def str_ends_with_def pack_suffix_def old_enough_def
        sample_row_def)
  with collect_deletes_only_orphans [of "[?row]" ?listed "\<lambda>_. Done" 100 10 ?objects "Inr []"] show ?thesis by simp
qed

end
