(* ===== verification/Pipeline.thy ===== *)
theory Pipeline
  imports Indexer_Correct Gc Replay_Correct
begin

text \<open>
  The record pipeline as one system: ingest, the pack workers of all partitions, the collector
  of orphans and the merges of the index as a step relation, every service failing wherever it
  may. In every reachable state each index row reads back from the bucket, and each message
  below a stored offset is indexed unless the broker dropped it before it was fetched. A seal
  and a run of the collector are each one step.
\<close>

section \<open>The system\<close>

text \<open>\<open>sy_lost\<close> records the offsets retention passed before the worker of the partition reached them.\<close>

record system =
  sy_world :: world
  sy_workers :: "nat \<Rightarrow> worker option"
  sy_lost :: "nat \<Rightarrow> int set"

abbreviation set_objects :: "bucket \<Rightarrow> world \<Rightarrow> world" where
  "set_objects objects wd \<equiv> wd\<lparr>wd_store := (wd_store wd)\<lparr>ps_objects := objects\<rparr>\<rparr>"

text \<open>The sorting key of the index, by which ReplacingMergeTree collapses rows.\<close>

definition sort_key :: "index_row \<Rightarrow> string \<times> int \<times> uuid" where
  "sort_key row = (rw_source row, rw_received_at row, rw_id row)"

inductive pipeline_step :: "libs \<Rightarrow> pack_limits \<Rightarrow> kafka \<Rightarrow> string \<Rightarrow> system \<Rightarrow> system \<Rightarrow> bool"
  for lb limits kafka topic where
  ingest: "pipeline_step lb limits kafka topic s
     (s\<lparr>sy_world := snd (ingest_one lb kafka env source idempotency_key played_at raw majsoul_pb (sy_world s))\<rparr>)"
| batch: "produce_claimed lb kafka env members (wd_claims (sy_world s)) (wd_topic (sy_world s)) = (res, claims, log) \<Longrightarrow>
     pipeline_step lb limits kafka topic s (s\<lparr>sy_world := (sy_world s)\<lparr>wd_claims := claims, wd_topic := log\<rparr>\<rparr>)"
| reindexed: "pipeline_step lb limits kafka topic s
     (s\<lparr>sy_world := (sy_world s)\<lparr>wd_topic := snd (reindex_one lb kafka broker row raw majsoul_pb (wd_topic (sy_world s)))\<rparr>\<rparr>)"
| claim_table: "pipeline_step lb limits kafka topic s (s\<lparr>sy_world := (sy_world s)\<lparr>wd_claims := claims\<rparr>\<rparr>)"
| started: "start_worker kafka topic (int p) (Inr (load_offset topic (int p) (wd_offsets (sy_world s)))) = Inr wk \<Longrightarrow>
     pipeline_step lb limits kafka topic s (s\<lparr>sy_workers := (sy_workers s)(p \<mapsto> wk)\<rparr>)"
| turn: "sy_workers s p = Some wk \<Longrightarrow> turn_ok lb env (wd_topic (sy_world s) p) wk (sy_world s) \<Longrightarrow>
     run_turn lb limits env wk (sy_world s) = (status, wk', wd') \<Longrightarrow>
     pipeline_step lb limits kafka topic s
       (s\<lparr>sy_world := wd', sy_workers := (sy_workers s)(p := (if status = Running then Some wk' else None)),
          sy_lost := (sy_lost s)(p := sy_lost s p \<union> skipped env wk)\<rparr>)"
| restarted: "pipeline_step lb limits kafka topic s
     (s\<lparr>sy_world := (sy_world s)\<lparr>wd_store := snd (discard_staging (wd_store (sy_world s)))\<rparr>, sy_workers := Map.empty\<rparr>)"
| collected: "pipeline_step lb limits kafka topic s
     (s\<lparr>sy_world := set_objects (snd (collect (Inr (wd_index (sy_world s))) listing delete now grace
        (ps_objects (wd_store (sy_world s))))) (sy_world s)\<rparr>)"
| merged: "wd_index (sy_world s) = before @ row # after \<Longrightarrow> row' \<in> set after \<Longrightarrow> sort_key row' = sort_key row \<Longrightarrow>
     pipeline_step lb limits kafka topic s (s\<lparr>sy_world := (sy_world s)\<lparr>wd_index := before @ after\<rparr>\<rparr>)"

definition fresh_system :: "system \<Rightarrow> bool" where
  "fresh_system s \<longleftrightarrow> (\<forall>p. wd_topic (sy_world s) p = []) \<and> wd_offsets (sy_world s) = Map.empty \<and>
     wd_index (sy_world s) = [] \<and> sy_workers s = Map.empty"

inductive pipeline_reachable :: "libs \<Rightarrow> pack_limits \<Rightarrow> kafka \<Rightarrow> string \<Rightarrow> system \<Rightarrow> bool"
  for lb limits kafka topic where
  initial: "fresh_system s \<Longrightarrow> pipeline_reachable lb limits kafka topic s"
| further: "pipeline_reachable lb limits kafka topic s \<Longrightarrow> pipeline_step lb limits kafka topic s s' \<Longrightarrow>
     pipeline_reachable lb limits kafka topic s'"

section \<open>The invariant\<close>

definition distinct_names :: "(nat \<Rightarrow> worker option) \<Rightarrow> bool" where
  "distinct_names workers \<longleftrightarrow>
     (\<forall>p q wk wk' w w'. p \<noteq> q \<longrightarrow> workers p = Some wk \<longrightarrow> workers q = Some wk' \<longrightarrow>
        wk_open wk = Some w \<longrightarrow> wk_open wk' = Some w' \<longrightarrow> pw_name w \<noteq> pw_name w')"

definition pipeline_inv :: "libs \<Rightarrow> string \<Rightarrow> system \<Rightarrow> bool" where
  "pipeline_inv lb topic s \<longleftrightarrow>
     (\<forall>p wk. sy_workers s p = Some wk \<longrightarrow> worker_inv lb topic p (sy_world s) (sy_lost s p) wk) \<and>
     distinct_names (sy_workers s) \<and> (\<forall>p. offset_inv lb topic p (sy_world s) (sy_lost s p)) \<and> rows_backed lb (sy_world s)"

lemma pipeline_invI:
  assumes "\<And>p wk. sy_workers s p = Some wk \<Longrightarrow> worker_inv lb topic p (sy_world s) (sy_lost s p) wk"
    and "distinct_names (sy_workers s)" and "\<And>p. offset_inv lb topic p (sy_world s) (sy_lost s p)" and "rows_backed lb (sy_world s)"
  shows "pipeline_inv lb topic s"
  using assms by (simp add: pipeline_inv_def)

lemma pipeline_invD:
  assumes "pipeline_inv lb topic s"
  shows "sy_workers s p = Some wk \<Longrightarrow> worker_inv lb topic p (sy_world s) (sy_lost s p) wk"
    and "distinct_names (sy_workers s)" and "offset_inv lb topic p (sy_world s) (sy_lost s p)" and "rows_backed lb (sy_world s)"
  using assms by (simp_all add: pipeline_inv_def)

text \<open>The topic grows at its end.\<close>

definition topic_grows :: "topic \<Rightarrow> topic \<Rightarrow> bool" where
  "topic_grows log log' \<longleftrightarrow> (\<forall>p. \<exists>gained. log' p = log p @ gained)"

lemma msg_at_append: "msg_at lb log i m \<Longrightarrow> msg_at lb (log @ gained) i m"
  by (auto simp: msg_at_def nth_append nat_less_iff)

lemma msg_at_append_within: "within log n \<Longrightarrow> i < n \<Longrightarrow> msg_at lb (log @ gained) i m \<longleftrightarrow> msg_at lb log i m"
  by (auto simp: msg_at_def within_def nth_append nat_less_iff)

lemma covered_append: "within log n \<Longrightarrow> covered lb log lost rows n \<Longrightarrow> covered lb (log @ gained) lost rows n"
  by (auto simp: covered_def msg_at_append_within)

lemma within_append: "within log n \<Longrightarrow> within (log @ gained) n"
  by (auto simp: within_def)

lemma produced_grows: "topic_grows log log' \<Longrightarrow> produced lb log m \<Longrightarrow> produced lb log' m"
  unfolding produced_def topic_grows_def by (metis msg_at_append)

lemma backed_grows: "topic_grows log log' \<Longrightarrow> backed lb log key file row \<Longrightarrow> backed lb log' key file row"
  unfolding backed_def using produced_grows by blast

lemma rows_backed_mono:
  assumes "rows_backed lb wd" and "topic_grows (wd_topic wd) (wd_topic wd')" and "set (wd_index wd') \<subseteq> set (wd_index wd)"
    and "\<And>row. row \<in> set (wd_index wd') \<Longrightarrow>
      ps_objects (wd_store wd') (pl_pack_key (rw_storage row)) = ps_objects (wd_store wd) (pl_pack_key (rw_storage row))"
  shows "rows_backed lb wd'"
  unfolding rows_backed_def
proof
  fix row assume row: "row \<in> set (wd_index wd')"
  then obtain body where "ps_objects (wd_store wd) (pl_pack_key (rw_storage row)) = Some body"
    "backed lb (wd_topic wd) (pl_pack_key (rw_storage row)) body row"
    using assms(1,3) by (auto simp: rows_backed_def)
  with backed_grows [OF assms(2)] assms(4) [OF row] show "\<exists>body. ps_objects (wd_store wd') (pl_pack_key (rw_storage row)) = Some body \<and>
      backed lb (wd_topic wd') (pl_pack_key (rw_storage row)) body row" by auto
qed

lemma pipeline_inv_grows:
  assumes inv: "pipeline_inv lb topic s" and grows: "topic_grows (wd_topic (sy_world s)) log'"
  shows "pipeline_inv lb topic (s\<lparr>sy_world := (sy_world s)\<lparr>wd_claims := claims, wd_topic := log'\<rparr>\<rparr>)" (is "pipeline_inv lb topic ?s")
proof (rule pipeline_invI)
  have gained: "\<exists>gained. log' p = wd_topic (sy_world s) p @ gained" for p using grows by (simp add: topic_grows_def)
  fix p
  obtain g where g: "log' p = wd_topic (sy_world s) p @ g" using gained by blast
  show "offset_inv lb topic p (sy_world ?s) (sy_lost ?s p)"
    using pipeline_invD(3) [OF inv, of p]
    by (simp add: offset_inv_def stored_offset_def g within_append covered_append)
  fix wk assume "sy_workers ?s p = Some wk"
  then have "worker_inv lb topic p (sy_world s) (sy_lost s p) wk" using pipeline_invD(1) [OF inv] by simp
  moreover have "pack_in_hand lb (sy_world ?s) wk w" if "pack_in_hand lb (sy_world s) wk w" for w
    using that backed_grows [OF grows] by (simp add: pack_in_hand_def)
  ultimately show "worker_inv lb topic p (sy_world ?s) (sy_lost ?s p) wk"
    unfolding worker_inv_def by (cases "wk_open wk") (auto simp: g within_append covered_append)
next
  show "distinct_names (sy_workers ?s)" using pipeline_invD(2) [OF inv] by simp
  show "rows_backed lb (sy_world ?s)"
    using pipeline_invD(4) [OF inv] grows by (rule_tac rows_backed_mono) simp_all
qed

lemma produce_batch_grows: "topic_grows log (snd (produce_batch lib size_of broker producers ms log))"
  unfolding topic_grows_def
proof
  fix p
  have "produce_batch lib size_of broker producers ms log =
      (fst (produce_batch lib size_of broker producers ms log), snd (produce_batch lib size_of broker producers ms log))"
    by simp
  then show "\<exists>gained. snd (produce_batch lib size_of broker producers ms log) p = log p @ gained"
    by (rule produce_batch_extends [where part = p]) blast
qed

lemma topic_grows_refl [simp]: "topic_grows log log"
  by (simp add: topic_grows_def)

lemma produce_batch_grows': "produce_batch lib size_of broker producers ms log = (res, log') \<Longrightarrow> topic_grows log log'"
  using produce_batch_grows [of log lib size_of broker producers ms] by simp

lemma produce_claimed_grows: "produce_claimed lb kafka env members claims log = (res, claims', log') \<Longrightarrow> topic_grows log log'"
  by (auto simp: produce_claimed_def Let_def dest: produce_batch_grows' split: if_splits prod.splits sum.splits)

lemma ingest_one_world:
  obtains claims log where "topic_grows (wd_topic wd) log"
    "snd (ingest_one lb kafka env source idempotency_key played_at raw majsoul_pb wd) = wd\<lparr>wd_claims := claims, wd_topic := log\<rparr>"
proof -
  obtain r claims where claim: "ingest_claim lb kafka env source idempotency_key played_at raw majsoul_pb (wd_claims wd) = (r, claims)"
    by fastforce
  show thesis
  proof (cases r)
    case (Inl e)
    then show ?thesis using that [of "wd_topic wd" claims] claim by (simp add: ingest_one_def)
  next
    case (Inr c)
    obtain res claims' log where "produce_claimed lb kafka env [c] claims (wd_topic wd) = (res, claims', log)"
      by (cases "produce_claimed lb kafka env [c] claims (wd_topic wd)")
    then show ?thesis using that [of log claims'] claim Inr produce_claimed_grows
      by (fastforce simp: ingest_one_def split: sum.splits)
  qed
qed

lemma reindex_one_grows: "topic_grows log (snd (reindex_one lb kafka broker row raw majsoul_pb log))"
  by (auto simp: reindex_one_def produce_def dest: produce_batch_grows' split: sum.splits prod.splits)

section \<open>Each step keeps it\<close>

lemma worker_inv_frame:
  assumes inv: "worker_inv lb topic q wd lost wk" and frame: "frame_on names wd wd'"
    and other: "\<And>w. wk_open wk = Some w \<Longrightarrow> pw_name w \<notin> names"
  shows "worker_inv lb topic q wd' lost wk"
proof -
  have same: "wd_topic wd' = wd_topic wd" and grows: "set (wd_index wd) \<subseteq> set (wd_index wd')"
    using frame by (simp_all add: frame_on_def)
  have "pack_in_hand lb wd' wk w" if "wk_open wk = Some w" and hand: "pack_in_hand lb wd wk w" for w
  proof -
    have "file_name (pw_key w) = Some (pw_name w)" using hand by (simp add: pack_in_hand_def)
    then have "ps_objects (wd_store wd') (pw_key w) = ps_objects (wd_store wd) (pw_key w)"
      using other [OF that(1)] frame by (fastforce simp: frame_on_def)
    then show ?thesis using hand other [OF that(1)] frame by (simp add: pack_in_hand_def frame_on_def)
  qed
  moreover have "covered lb (wd_topic wd q) lost (set (wd_index wd')) (wk_committed wk)"
    "covered lb (wd_topic wd q) lost (set (wd_index wd') \<union> set (wk_rows wk)) (wk_cursor wk)"
    using inv grows by (auto simp: worker_inv_def elim!: covered_mono)
  ultimately show ?thesis using inv by (cases "wk_open wk") (auto simp: worker_inv_def same)
qed

lemma staged_not_reachable:
  assumes inv: "pipeline_inv lb topic s" and "sy_workers s p = Some wk" and "sy_workers s q = Some wk'" and "p \<noteq> q"
    and open_q: "wk_open wk' = Some w"
  shows "pw_name w \<notin> reachable_names wk (sy_world s)"
proof -
  have "pack_in_hand lb (sy_world s) wk' w"
    using pipeline_invD(1) [OF inv assms(3)] open_q by (simp add: worker_inv_def)
  moreover have "pw_name v \<noteq> pw_name w" if "wk_open wk = Some v" for v
    using pipeline_invD(2) [OF inv] assms(2-4) open_q that unfolding distinct_names_def by blast
  ultimately show ?thesis by (auto simp: reachable_names_def pack_in_hand_def)
qed

lemma distinct_names_update:
  assumes "distinct_names workers"
    and "\<And>q wk wk' w w'. q \<noteq> p \<Longrightarrow> workers q = Some wk \<Longrightarrow> new = Some wk' \<Longrightarrow> wk_open wk = Some w \<Longrightarrow>
       wk_open wk' = Some w' \<Longrightarrow> pw_name w \<noteq> pw_name w'"
  shows "distinct_names (workers(p := new))"
  using assms unfolding distinct_names_def by (metis fun_upd_apply)

lemma turn_inv:
  assumes inv: "pipeline_inv lb topic s" and wk: "sy_workers s p = Some wk"
    and ok: "turn_ok lb env (wd_topic (sy_world s) p) wk (sy_world s)"
    and run: "run_turn lb limits env wk (sy_world s) = (status, wk', wd')"
  shows "pipeline_inv lb topic
    (s\<lparr>sy_world := wd', sy_workers := (sy_workers s)(p := (if status = Running then Some wk' else None)),
       sy_lost := (sy_lost s)(p := sy_lost s p \<union> skipped env wk)\<rparr>)" (is "pipeline_inv lb topic ?s")
proof -
  have turned: "turned_ok lb topic p (sy_lost s p \<union> skipped env wk) wk (sy_world s) status wk' wd'"
    by (rule run_turn_inv [OF run ok]) (use pipeline_invD [OF inv] wk in auto)
  then have frame: "frame_on (reachable_names wk (sy_world s)) (sy_world s) wd'" by (simp add: turned_ok_def)
  show ?thesis
  proof (rule pipeline_invI)
    fix q wq assume q: "sy_workers ?s q = Some wq"
    show "worker_inv lb topic q (sy_world ?s) (sy_lost ?s q) wq"
    proof (cases "q = p")
      case True
      then show ?thesis using q turned by (auto simp: turned_ok_def split: if_splits)
    next
      case False
      then have "sy_workers s q = Some wq" using q by simp
      with pipeline_invD(1) [OF inv this] staged_not_reachable [OF inv wk this] False frame
      show ?thesis by (auto intro: worker_inv_frame)
    qed
  next
    have "pw_name w \<noteq> pw_name w'" if "q \<noteq> p" "sy_workers s q = Some wq" "status = Running" "wk_open wq = Some w"
        "wk_open wk' = Some w'" for q wq w w'
      using staged_not_reachable [OF inv wk that(2)] that turned by (auto simp: turned_ok_def)
    then have "distinct_names ((sy_workers s)(p := (if status = Running then Some wk' else None)))"
      using pipeline_invD(2) [OF inv] by (intro distinct_names_update) (auto split: if_splits)
    then show "distinct_names (sy_workers ?s)" by simp
  next
    fix q show "offset_inv lb topic q (sy_world ?s) (sy_lost ?s q)"
    proof (cases "q = p")
      case False
      have "stored_offset wd' topic q = stored_offset (sy_world s) topic q" using turned False by (simp add: turned_ok_def)
      with False pipeline_invD(3) [OF inv, of q] frame show ?thesis
        by (auto simp: offset_inv_def frame_on_def intro: covered_rows)
    qed (use turned in \<open>simp add: turned_ok_def\<close>)
  next
    show "rows_backed lb (sy_world ?s)" using turned by (simp add: turned_ok_def)
  qed
qed

lemma start_worker_inv:
  assumes inv: "pipeline_inv lb topic s"
    and start: "start_worker kafka topic (int p) (Inr (load_offset topic (int p) (wd_offsets (sy_world s)))) = Inr wk"
  shows "pipeline_inv lb topic (s\<lparr>sy_workers := (sy_workers s)(p \<mapsto> wk)\<rparr>)"
proof -
  have wk: "wk_topic wk = topic" "wk_partition wk = int p" "wk_cursor wk = stored_offset (sy_world s) topic p"
    "wk_committed wk = stored_offset (sy_world s) topic p" "wk_open wk = None" "wk_rows wk = []"
    using start by (auto simp: start_worker_def stored_offset_def Let_def split: option.splits)
  then have "worker_inv lb topic p (sy_world s) (sy_lost s p) wk"
    using pipeline_invD(3) [OF inv, of p] by (simp add: worker_inv_def offset_inv_def)
  then show ?thesis
    using pipeline_invD [OF inv] wk(5) by (auto intro!: pipeline_invI distinct_names_update split: if_splits)
qed

lemma collected_inv:
  assumes inv: "pipeline_inv lb topic s"
    and objects: "objects = snd (collect (Inr (wd_index (sy_world s))) listing delete now grace (ps_objects (wd_store (sy_world s))))"
  shows "pipeline_inv lb topic (s\<lparr>sy_world := set_objects objects (sy_world s)\<rparr>)" (is "pipeline_inv lb topic ?s")
proof (rule pipeline_invI)
  fix p wk assume "sy_workers ?s p = Some wk"
  then have old: "worker_inv lb topic p (sy_world s) (sy_lost s p) wk" using pipeline_invD(1) [OF inv] by simp
  have "pack_in_hand lb (sy_world ?s) wk w" if "pack_in_hand lb (sy_world s) wk w" for w
    using that collect_shrinks [of "Inr (wd_index (sy_world s))" listing delete now grace "ps_objects (wd_store (sy_world s))" "pw_key w"]
    by (auto simp: pack_in_hand_def objects)
  with old show "worker_inv lb topic p (sy_world ?s) (sy_lost ?s p) wk"
    unfolding worker_inv_def by (cases "wk_open wk") auto
next
  have "objects (pl_pack_key (rw_storage row)) = ps_objects (wd_store (sy_world s)) (pl_pack_key (rw_storage row))"
    if "row \<in> set (wd_index (sy_world s))" for row
    using that collect_only [of "Inr (wd_index (sy_world s))" listing delete now grace "ps_objects (wd_store (sy_world s))"
        "pl_pack_key (rw_storage row)"] unfolding objects by auto
  then show "rows_backed lb (sy_world ?s)" using pipeline_invD(4) [OF inv] by (rule_tac rows_backed_mono) auto
qed (use pipeline_invD [OF inv] in \<open>auto simp: offset_inv_def stored_offset_def\<close>)

lemma same_sort_key: "sort_key row' = sort_key row \<Longrightarrow> same_row m row' = same_row m row"
  by (auto simp: sort_key_def same_row_def)

lemma merged_inv:
  assumes inv: "pipeline_inv lb topic s" and index: "wd_index (sy_world s) = before @ row # after"
    and later: "row' \<in> set after" "sort_key row' = sort_key row"
  shows "pipeline_inv lb topic (s\<lparr>sy_world := (sy_world s)\<lparr>wd_index := before @ after\<rparr>\<rparr>)" (is "pipeline_inv lb topic ?s")
proof -
  have kept: "\<exists>r \<in> set (before @ after) \<union> extra. same_row m r"
    if "\<exists>r \<in> set (wd_index (sy_world s)) \<union> extra. same_row m r" for m extra
    using that later same_sort_key [OF later(2)] by (auto simp: index)
  have cov: "covered lb log lost (set (before @ after) \<union> extra) n"
    if "covered lb log lost (set (wd_index (sy_world s)) \<union> extra) n" for log lost n extra
    using that by (rule covered_mono [OF _ subset_refl]) (rule kept)
  show ?thesis
  proof (rule pipeline_invI)
    fix p wk assume "sy_workers ?s p = Some wk"
    then have old: "worker_inv lb topic p (sy_world s) (sy_lost s p) wk" using pipeline_invD(1) [OF inv] by simp
    then show "worker_inv lb topic p (sy_world ?s) (sy_lost ?s p) wk"
      using cov [of "wd_topic (sy_world s) p" "sy_lost s p" "{}"] cov [of "wd_topic (sy_world s) p" "sy_lost s p" "set (wk_rows wk)"]
      unfolding worker_inv_def by (cases "wk_open wk") (auto simp: pack_in_hand_def)
  next
    fix p show "offset_inv lb topic p (sy_world ?s) (sy_lost ?s p)"
      using pipeline_invD(3) [OF inv, of p] cov [of "wd_topic (sy_world s) p" "sy_lost s p" "{}"]
      by (auto simp: offset_inv_def stored_offset_def)
  next
    show "rows_backed lb (sy_world ?s)"
      using pipeline_invD(4) [OF inv] by (rule rows_backed_mono) (auto simp: index)
  qed (use pipeline_invD(2) [OF inv] in simp)
qed

lemma pipeline_step_inv: "pipeline_step lb limits kafka topic s s' \<Longrightarrow> pipeline_inv lb topic s \<Longrightarrow> pipeline_inv lb topic s'"
proof (induction rule: pipeline_step.induct)
  case (ingest s env source idempotency_key played_at raw majsoul_pb)
  obtain claims log where "topic_grows (wd_topic (sy_world s)) log" and
    "snd (ingest_one lb kafka env source idempotency_key played_at raw majsoul_pb (sy_world s)) =
      (sy_world s)\<lparr>wd_claims := claims, wd_topic := log\<rparr>" by (rule ingest_one_world)
  with pipeline_inv_grows [OF ingest] show ?case by simp
next
  case (batch env members s res claims log)
  then show ?case by (intro pipeline_inv_grows produce_claimed_grows [OF batch(1)])
next
  case (reindexed s broker row raw majsoul_pb)
  from pipeline_inv_grows [OF reindexed reindex_one_grows, where claims = "wd_claims (sy_world s)"]
  show ?case by simp
next
  case (claim_table s claims)
  from pipeline_inv_grows [OF claim_table topic_grows_refl] show ?case by simp
next
  case (restarted s)
  then show ?case
    by (auto simp: pipeline_inv_def distinct_names_def discard_staging_eq offset_inv_def stored_offset_def rows_backed_def)
next
  case (turn s p wk env status wk' wd')
  then show ?case by (intro turn_inv)
qed (auto intro: start_worker_inv collected_inv merged_inv)

lemma fresh_system_inv: "fresh_system s \<Longrightarrow> pipeline_inv lb topic s"
  by (simp add: fresh_system_def pipeline_inv_def distinct_names_def offset_inv_def stored_offset_def load_offset_def
      within_def covered_def msg_at_def rows_backed_def)

lemma pipeline_reachable_inv: "pipeline_reachable lb limits kafka topic s \<Longrightarrow> pipeline_inv lb topic s"
  by (induction rule: pipeline_reachable.induct) (auto intro: fresh_system_inv pipeline_step_inv)

section \<open>A record that cannot be scored\<close>

text \<open>Where a turn can leave the offsets of its partition.\<close>

lemma index_and_commit_place:
  assumes "index_and_commit lb env wk wd = (res, wk', wd')" and "wk_topic wk = topic" and "wk_partition wk = int p"
  shows "wk_cursor wk' = wk_cursor wk \<and> wk_committed wk' \<in> {wk_committed wk, wk_cursor wk} \<and>
     stored_offset wd' topic p \<in> {stored_offset wd topic p, wk_cursor wk}"
  using assms
  by (auto simp: index_and_commit_def Let_def stored_offset_def load_offset_def commit_offset_def
      split: prod.splits sum.splits if_splits)

lemma seal_open_place:
  assumes "seal_open lb env wk wd = (res, wk', wd')" and "wk_topic wk = topic" and "wk_partition wk = int p"
  shows "wk_cursor wk' = wk_cursor wk \<and> wk_committed wk' \<in> {wk_committed wk, wk_cursor wk} \<and>
     stored_offset wd' topic p \<in> {stored_offset wd topic p, wk_cursor wk}"
proof (cases "wk_open wk")
  case None
  then show ?thesis using assms(1) by (auto simp: seal_open_def)
next
  case (Some w)
  then obtain wd1 where up: "upload_and_index lb env w (wk\<lparr>wk_open := None\<rparr>) wd = (res, wk', wd1)"
    and wd': "wd' = drop_staged (se_removed env) w wd1"
    using assms(1) by (auto simp: seal_open_def split: prod.splits)
  have same: "stored_offset wd' topic p = stored_offset wd1 topic p" by (simp add: wd' stored_offset_def)
  have kept: "stored_offset (put_object env key bytes wd) topic p = stored_offset wd topic p" for key bytes
    by (simp add: stored_offset_def)
  consider "wk' = wk\<lparr>wk_open := None\<rparr>" "stored_offset wd1 topic p = stored_offset wd topic p"
    | key bytes where "index_and_commit lb env (wk\<lparr>wk_open := None\<rparr>) (put_object env key bytes wd) = (res, wk', wd1)"
    using up kept by (auto simp: upload_and_index_def seal_def Let_def split: if_splits option.splits)
  then show ?thesis
  proof cases
    case (2 key bytes)
    from index_and_commit_place [OF this, of topic p] show ?thesis using assms(2,3) kept same by simp
  qed (simp add: same)
qed

lemma seal_part_place:
  assumes "seal_part lb limits env wk wd = (wk', wd')" and "wk_topic wk = topic" and "wk_partition wk = int p"
  shows "wk_cursor wk' \<in> {wk_committed wk, wk_cursor wk} \<and> wk_committed wk' \<in> {wk_committed wk, wk_cursor wk} \<and>
     stored_offset wd' topic p \<in> {stored_offset wd topic p, wk_cursor wk}"
proof -
  obtain res wk1 wd1 where seal: "seal_open lb (tn_seal env) wk wd = (res, wk1, wd1)" by (cases "seal_open lb (tn_seal env) wk wd")
  note place = seal_open_place [OF seal assms(2,3)]
  have "stored_offset (snd (discard r wk1 wd1)) topic p = stored_offset wd1 topic p" for r
    by (auto simp: discard_def stored_offset_def split: option.splits)
  then show ?thesis using assms(1) seal place
    by (auto simp: seal_part_def discard_def split: if_splits sum.splits)
qed

definition not_past :: "libs \<Rightarrow> kafka_record list \<Rightarrow> int set \<Rightarrow> int \<Rightarrow> bool" where
  "not_past lb log lost n \<longleftrightarrow> (\<forall>i m. msg_at lb log i m \<longrightarrow> poisonous lb m \<longrightarrow> i \<notin> lost \<longrightarrow> n \<le> i)"

lemma not_past_lost: "not_past lb log lost n \<Longrightarrow> lost \<subseteq> lost' \<Longrightarrow> not_past lb log lost' n"
  unfolding not_past_def by blast

lemma not_past_append: "within log n \<Longrightarrow> not_past lb log lost n \<Longrightarrow> not_past lb (log @ gained) lost n"
  unfolding not_past_def using msg_at_append_within by (metis linorder_not_le)

lemma append_messages_not_poisonous:
  assumes "append_messages lb env ms wk store = (Inr (), wk', store')" and "m \<in> set ms" and "poisonous lb m"
  shows False
  using assms append_batch_poisonous [OF assms(2,3)]
  by (auto simp: append_messages_def split: if_splits sum.splits)

lemma not_past_fetch:
  assumes "not_past lb log lost cursor" and "served log cursor f"
    and "\<And>m. m \<in> set (decode lb (ft_records f)) \<Longrightarrow> \<not> poisonous lb m"
  shows "not_past lb log (lost \<union> {cursor..<ft_start_offset f}) (next_offset f)"
  unfolding not_past_def
proof (intro allI impI)
  fix i m assume at: "msg_at lb log i m" "poisonous lb m" "i \<notin> lost \<union> {cursor..<ft_start_offset f}"
  then have "ft_start_offset f \<le> i" using assms(1) by (fastforce simp: not_past_def)
  with served_fetched [OF assms(2) at(1)] assms(3) at(2) show "next_offset f \<le> i" by force
qed

definition stuck_inv :: "libs \<Rightarrow> string \<Rightarrow> nat \<Rightarrow> system \<Rightarrow> bool" where
  "stuck_inv lb topic p s \<longleftrightarrow>
     not_past lb (wd_topic (sy_world s) p) (sy_lost s p) (stored_offset (sy_world s) topic p) \<and>
     (\<forall>wk. sy_workers s p = Some wk \<longrightarrow> not_past lb (wd_topic (sy_world s) p) (sy_lost s p) (wk_committed wk) \<and>
        not_past lb (wd_topic (sy_world s) p) (sy_lost s p) (wk_cursor wk))"

lemma fetch_part_place:
  assumes run: "fetch_part lb env wk wd = (res, wk', wd')" and ok: "turn_ok lb env (wd_topic wd p) wk wd"
    and past: "not_past lb (wd_topic wd p) lost (wk_cursor wk)"
  shows "same_place (wk\<lparr>wk_cursor := wk_cursor wk'\<rparr>) wk' \<and> wd_topic wd' = wd_topic wd \<and> wd_offsets wd' = wd_offsets wd \<and>
     not_past lb (wd_topic wd p) (lost \<union> skipped env wk) (wk_cursor wk')"
proof (cases "\<not> tn_shutdown env \<and> (\<exists>f. tn_fetched env = Some (Inr f))")
  case False
  then have "wk' = wk" "wd' = wd" using run by (auto simp: fetch_part_def split: if_splits option.splits sum.splits)
  then show ?thesis using not_past_lost [OF past] by (simp add: same_place_def)
next
  case True
  then obtain f where f: "\<not> tn_shutdown env" "tn_fetched env = Some (Inr f)" by blast
  have srv: "served (wd_topic wd p) (wk_cursor wk) f" using ok f by (simp add: turn_ok_def)
  obtain wk1 store where app: "append_messages lb (tn_append env) (decode lb (ft_records f))
       (wk\<lparr>wk_at_end_of_log := is_end_of_log f\<rparr>) (wd_store wd) = (res, wk1, store)"
    and out: "wd' = wd\<lparr>wd_store := store\<rparr>" "res = Inr () \<Longrightarrow> wk' = wk1\<lparr>wk_cursor := next_offset f\<rparr>"
      "res \<noteq> Inr () \<Longrightarrow> wk' = wk1"
    using run f by (auto simp: fetch_part_def Let_def split: prod.splits sum.splits)
  have place: "same_place wk wk1"
    using app by (auto simp: append_messages_def same_place_def hold_def split: if_splits sum.splits)
  have "not_past lb (wd_topic wd p) (lost \<union> skipped env wk) (wk_cursor wk')"
  proof (cases "res = Inr ()")
    case True
    with app have "\<not> poisonous lb m" if "m \<in> set (decode lb (ft_records f))" for m
      using append_messages_not_poisonous that by blast
    from not_past_fetch [OF past srv this] show ?thesis using True out(2) f by (simp add: skipped_def)
  next
    case False
    then show ?thesis using out(3) place not_past_lost [OF past] by (simp add: same_place_def)
  qed
  then show ?thesis using place out by (cases "res = Inr ()") (auto simp: same_place_def)
qed

lemma stuck_turn:
  assumes stuck: "stuck_inv lb topic p s" and inv: "pipeline_inv lb topic s" and wk: "sy_workers s p = Some wk"
    and ok: "turn_ok lb env (wd_topic (sy_world s) p) wk (sy_world s)"
    and run: "run_turn lb limits env wk (sy_world s) = (status, wk', wd')"
  shows "stuck_inv lb topic p
    (s\<lparr>sy_world := wd', sy_workers := (sy_workers s)(p := (if status = Running then Some wk' else None)),
       sy_lost := (sy_lost s)(p := sy_lost s p \<union> skipped env wk)\<rparr>)"
proof -
  let ?log = "wd_topic (sy_world s) p" and ?lost = "sy_lost s p \<union> skipped env wk"
  have topic: "wk_topic wk = topic" "wk_partition wk = int p"
    using pipeline_invD(1) [OF inv wk] by (simp_all add: worker_inv_def)
  have before: "not_past lb ?log (sy_lost s p) (wk_cursor wk)" "not_past lb ?log ?lost (wk_committed wk)"
    "not_past lb ?log ?lost (stored_offset (sy_world s) topic p)"
    using stuck wk not_past_lost by (auto simp: stuck_inv_def)
  obtain res wk1 wd1 where fetch: "fetch_part lb env wk (sy_world s) = (res, wk1, wd1)"
    by (cases "fetch_part lb env wk (sy_world s)")
  from fetch_part_place [OF fetch ok before(1)]
  have place: "wk_topic wk1 = topic" "wk_partition wk1 = int p" "wk_committed wk1 = wk_committed wk"
    "wd_topic wd1 = wd_topic (sy_world s)" "stored_offset wd1 topic p = stored_offset (sy_world s) topic p"
    "not_past lb ?log ?lost (wk_cursor wk1)"
    using topic by (simp_all add: same_place_def stored_offset_def)
  have turned: "turned_ok lb topic p ?lost wk (sy_world s) status wk' wd'"
    by (rule run_turn_inv [OF run ok]) (use pipeline_invD [OF inv] wk in auto)
  then have topic': "wd_topic wd' = wd_topic (sy_world s)" by (simp add: turned_ok_def frame_on_def)
  have "not_past lb ?log ?lost (stored_offset wd' topic p) \<and>
     (status = Running \<longrightarrow> not_past lb ?log ?lost (wk_committed wk') \<and> not_past lb ?log ?lost (wk_cursor wk'))"
  proof (cases res)
    case (Inr u)
    obtain wk2 wd2 where seal: "seal_part lb limits env wk1 wd1 = (wk2, wd2)" by fastforce
    from seal_part_place [OF seal place(1,2)] show ?thesis
      using run fetch Inr seal before place by (auto simp: run_turn_def)
  next
    case (Inl e)
    have "stored_offset (snd (discard (tn_discarded env) wk1 wd1)) topic p = stored_offset wd1 topic p"
      by (auto simp: discard_def stored_offset_def split: option.splits)
    then show ?thesis using run fetch Inl before place
      by (auto simp: run_turn_def discard_def split: index_error.splits)
  qed
  then show ?thesis by (auto simp: stuck_inv_def topic')
qed

lemma stuck_grows:
  assumes "stuck_inv lb topic p s" and inv: "pipeline_inv lb topic s" and "topic_grows (wd_topic (sy_world s)) log'"
  shows "stuck_inv lb topic p (s\<lparr>sy_world := (sy_world s)\<lparr>wd_claims := claims, wd_topic := log'\<rparr>\<rparr>)"
proof -
  obtain g where g: "log' p = wd_topic (sy_world s) p @ g" using assms(3) by (auto simp: topic_grows_def)
  have "within (wd_topic (sy_world s) p) (stored_offset (sy_world s) topic p)"
    using pipeline_invD(3) [OF inv, of p] by (simp add: offset_inv_def)
  moreover have "within (wd_topic (sy_world s) p) (wk_committed wk) \<and> within (wd_topic (sy_world s) p) (wk_cursor wk)"
    if "sy_workers s p = Some wk" for wk
    using pipeline_invD(1) [OF inv that] by (simp add: worker_inv_def)
  ultimately show ?thesis using assms(1) by (simp add: stuck_inv_def g not_past_append stored_offset_def)
qed

lemma stuck_same:
  "stuck_inv lb topic p s \<Longrightarrow> wd_topic (sy_world s') p = wd_topic (sy_world s) p \<Longrightarrow> sy_lost s' p = sy_lost s p \<Longrightarrow>
     stored_offset (sy_world s') topic p = stored_offset (sy_world s) topic p \<Longrightarrow>
     sy_workers s' p = sy_workers s p \<or> sy_workers s' p = None \<Longrightarrow> stuck_inv lb topic p s'"
  by (auto simp: stuck_inv_def)

lemma stuck_step:
  "pipeline_step lb limits kafka topic s s' \<Longrightarrow> pipeline_inv lb topic s \<Longrightarrow> stuck_inv lb topic p s \<Longrightarrow> stuck_inv lb topic p s'"
proof (induction rule: pipeline_step.induct)
  case (ingest s env source idempotency_key played_at raw majsoul_pb)
  obtain claims log where "topic_grows (wd_topic (sy_world s)) log" and
    "snd (ingest_one lb kafka env source idempotency_key played_at raw majsoul_pb (sy_world s)) =
      (sy_world s)\<lparr>wd_claims := claims, wd_topic := log\<rparr>" by (rule ingest_one_world)
  with stuck_grows [OF ingest(2,1)] show ?case by simp
next
  case (batch env members s res claims log)
  then show ?case by (intro stuck_grows produce_claimed_grows [OF batch(1)])
next
  case (reindexed s broker row raw majsoul_pb)
  from stuck_grows [OF reindexed(2,1) reindex_one_grows, where claims = "wd_claims (sy_world s)"] show ?case by simp
next
  case (claim_table s claims)
  from stuck_grows [OF claim_table(2,1) topic_grows_refl] show ?case by simp
next
  case (started q s wk)
  then show ?case
    by (auto simp: stuck_inv_def start_worker_def stored_offset_def Let_def split: option.splits)
next
  case (turn s q wk env status wk' wd')
  show ?case
  proof (cases "q = p")
    case True
    then show ?thesis using stuck_turn [OF turn(5,4)] turn(1-3) by simp
  next
    case False
    have "turned_ok lb topic q (sy_lost s q \<union> skipped env wk) wk (sy_world s) status wk' wd'"
      by (rule run_turn_inv [OF turn(3,2)]) (use pipeline_invD [OF turn(4)] turn(1) in auto)
    with False show ?thesis by (intro stuck_same [OF turn(5)]) (auto simp: turned_ok_def frame_on_def)
  qed
qed (auto intro: stuck_same simp: stored_offset_def)

lemma pipeline_reachable_stuck: "pipeline_reachable lb limits kafka topic s \<Longrightarrow> stuck_inv lb topic p s"
proof (induction rule: pipeline_reachable.induct)
  case (initial s)
  then show ?case by (simp add: fresh_system_def stuck_inv_def not_past_def msg_at_def)
next
  case (further s s')
  then show ?case using stuck_step pipeline_reachable_inv by blast
qed

section \<open>Properties\<close>

text \<open>Claim C6: no index row dangles. Whatever the services answer and wherever the process stops, in
  every reachable state each row of the index points into an object of the bucket, and the range
  it names decompresses to the body of a message that was produced under the row's id, with the
  row's digest.\<close>

theorem no_dangling_rows:
  assumes "pipeline_reachable lb limits kafka topic s" and "row \<in> set (wd_index (sy_world s))"
  shows "\<exists>body m. ps_objects (wd_store (sy_world s)) (pl_pack_key (rw_storage row)) = Some body \<and>
     produced lb (wd_topic (sy_world s)) m \<and> im_record_id m = rw_id row \<and>
     rw_sha256 row = lb_hex lb (lb_digest lb (im_raw m)) \<and>
     entry_reads (lb_bulk lb) body (rw_storage row) (im_raw m)"
  using pipeline_invD(4) [OF pipeline_reachable_inv [OF assms(1)]] assms(2)
  by (fastforce simp: rows_backed_def backed_def row_in_file_def same_row_def)

text \<open>Claim C5: delivery is at least once. In every reachable state, each message below the stored
  offset of its partition that can be read and parsed has a row in the index under its id, its
  source and its ingest time, unless the broker's retention dropped it before it was fetched.\<close>

theorem committed_messages_indexed:
  assumes "pipeline_reachable lb limits kafka topic s"
    and "0 \<le> i" and "i < stored_offset (sy_world s) topic p" and "i \<notin> sy_lost s p"
    and "from_record (lb_texts lb) (wd_topic (sy_world s) p ! nat i) = Inr m"
    and "metadata_of_raw lb (im_raw m) = Inr md"
  shows "\<exists>row \<in> set (wd_index (sy_world s)). rw_id row = im_record_id m \<and> rw_source row = im_source m \<and>
     trunc_millis (rw_received_at row) = trunc_millis (im_received_at m)"
proof -
  have off: "offset_inv lb topic p (sy_world s) (sy_lost s p)"
    using pipeline_invD(3) [OF pipeline_reachable_inv [OF assms(1)]] .
  then have "i < int (length (wd_topic (sy_world s) p))" using assms(3) by (simp add: offset_inv_def within_def)
  then have "msg_at lb (wd_topic (sy_world s) p) i m" using assms(2,5,6) by (simp add: msg_at_def indexable_def)
  with off assms(3,4) show ?thesis by (auto simp: offset_inv_def covered_def same_row_def)
qed

text \<open>Claim C31: one record can stop a partition for good. If the message at some offset parses but
  its replay panics, then in every reachable state, however often the process is restarted, the
  stored offset of the partition has not moved past it, unless retention dropped the message
  before it was fetched: nothing behind it is ever committed.\<close>

theorem panicking_record_stops_partition:
  assumes "pipeline_reachable lb limits kafka topic s"
    and "0 \<le> i" and "i < int (length (wd_topic (sy_world s) p))" and "i \<notin> sy_lost s p"
    and "from_record (lb_texts lb) (wd_topic (sy_world s) p ! nat i) = Inr m"
    and "metadata_of_raw lb (im_raw m) = Inr md" and "events_of_raw lb (im_raw m) = Inr evs"
    and "replay evs = Inl (Panicked why)"
  shows "stored_offset (sy_world s) topic p \<le> i"
proof -
  have "msg_at lb (wd_topic (sy_world s) p) i m" using assms(2,3,5,6) by (simp add: msg_at_def indexable_def)
  moreover have "poisonous lb m" using assms(6-8) by (auto simp: poisonous_def)
  ultimately show ?thesis
    using pipeline_reachable_stuck [OF assms(1), of p] assms(4) by (auto simp: stuck_inv_def not_past_def)
qed

text \<open>Claim C32: the state of every running worker stays well-formed: its offsets lie within the log of
  its partition, and an open pack starts with the magic bytes, counts its own length, is the file
  of that name in the staging directory, and its key is free in the bucket.\<close>

theorem workers_well_formed:
  assumes "pipeline_reachable lb limits kafka topic s" and "sy_workers s p = Some wk"
  shows "0 \<le> wk_committed wk \<and> wk_committed wk \<le> int (length (wd_topic (sy_world s) p)) \<and>
     0 \<le> wk_cursor wk \<and> wk_cursor wk \<le> int (length (wd_topic (sy_world s) p)) \<and>
     (case wk_open wk of None \<Rightarrow> wk_rows wk = []
      | Some w \<Rightarrow> take (length magic) (pw_file w) = magic \<and> pw_size w = length (pw_file w) \<and>
          map_of (ps_staging (wd_store (sy_world s))) (pw_name w) = Some (pw_file w) \<and>
          ps_objects (wd_store (sy_world s)) (pw_key w) = None)"
proof -
  have "worker_inv lb topic p (sy_world s) (sy_lost s p) wk"
    using pipeline_invD(1) [OF pipeline_reachable_inv [OF assms(1)] assms(2)] .
  then show ?thesis
    by (auto simp: worker_inv_def within_def pack_in_hand_def writer_wf_def split: option.splits)
qed

end
