(* ===== verification/Drain.thy ===== *)
theory Drain
  imports Pipeline
begin

text \<open>
  Progress of the pack worker: against services that answer and a broker that serves its log,
  \<open>drain\<close> ends within as many fetches as there are messages left, and everything readable in the
  log is then indexed. The retry delay after a failed seal stays within its bounds. The last
  section runs the pipeline on a small topic.
\<close>

section \<open>What makes an append succeed\<close>

definition fits :: "libs \<Rightarrow> u8 list \<Rightarrow> bool" where
  "fits lb raw \<longleftrightarrow> length raw < 2 ^ 32 \<and> (\<exists>c. lb_compress lb raw = Some c \<and> length c < 2 ^ 32)"

definition storable :: "libs \<Rightarrow> ingest_message \<Rightarrow> bool" where
  "storable lb m \<longleftrightarrow> \<not> poisonous lb m \<and> fits lb (im_raw m) \<and> (\<forall>pb. im_majsoul_pb m = Some pb \<longrightarrow> fits lb pb)"

lemma append_entry_total: "fits lb raw \<Longrightarrow> \<exists>loc w'. append_entry (lb_compress lb) now w u raw = Inr (loc, w')"
  by (auto simp: fits_def append_entry_def to_u32_def Let_def)

lemma append_pb_total: "storable lb m \<Longrightarrow> \<exists>loc w'. append_pb lb now w m = Inr (loc, w')"
  using append_entry_total [of lb "the (im_majsoul_pb m)" now w "im_record_id m"]
  by (auto simp: storable_def append_pb_def pack_step_def split: option.splits)

lemma score_row_total:
  assumes "\<not> poisonous lb m" and "metadata_of_raw lb (im_raw m) = Inr md" and "events_of_raw lb (im_raw m) = Inr evs"
  shows "\<exists>seats. score_row evs row = Inr seats"
  using assms by (auto simp: poisonous_def score_row_def split: sum.splits fault.splits option.splits)

lemma append_one_total:
  assumes "storable lb m"
  shows "\<exists>st'. append_one lb now st m = Inr st'"
proof (cases "metadata_of_raw lb (im_raw m)")
  case (Inl e)
  then show ?thesis by (cases st) (simp add: append_one_def)
next
  case (Inr md)
  obtain w rows games where st: "st = (w, rows, games)" by (cases st)
  obtain evs where evs: "events_of_raw lb (im_raw m) = Inr evs" using Inr by (auto simp: parse_metadata_events result_simps)
  obtain loc w1 where entry: "append_entry (lb_compress lb) now w (im_record_id m) (im_raw m) = Inr (loc, w1)"
    using append_entry_total assms by (auto simp: storable_def) blast
  obtain pb w2 where pb: "append_pb lb now w1 m = Inr (pb, w2)" using append_pb_total [OF assms] by blast
  obtain seats where "score_row evs (row_of lb m md loc pb) = Inr seats"
    using score_row_total [OF _ Inr evs] assms by (auto simp: storable_def)
  then show ?thesis by (simp add: append_one_def st Inr evs entry pb pack_step_def)
qed

lemma append_batch_total: "\<forall>m \<in> set ms. storable lb m \<Longrightarrow> \<exists>st'. append_batch lb now st ms = Inr st'"
  unfolding append_batch_def
proof (induction ms arbitrary: st)
  case (Cons m ms)
  obtain st' where "append_one lb now st m = Inr st'" using append_one_total [of lb m now st] Cons.prems by auto
  with Cons.IH [of st'] Cons.prems show ?case by simp
next
  case Nil
  show ?case by (rule exI [of _ st]) simp
qed

definition staging_key :: "append_env \<Rightarrow> string" where
  "staging_key env = pack_prefix @ ae_today env @ ''/'' @ ae_part env @ ''-'' @ ae_new_uuid env @ pack_suffix"

lemma staging_writer_key: "staging_writer store (ae_today env) (ae_part env) (ae_new_uuid env) = create (ps_staging store) (staging_key env)"
  by (simp add: staging_writer_def staging_key_def)

text \<open>The worker has a pack open, or the name of a new one is free.\<close>

definition can_open :: "append_env \<Rightarrow> worker \<Rightarrow> pack_store \<Rightarrow> bool" where
  "can_open env wk store \<longleftrightarrow> wk_open wk \<noteq> None \<or> (\<exists>w. create (ps_staging store) (staging_key env) = Inr w)"

lemma append_messages_total:
  assumes "\<forall>m \<in> set ms. storable lb m" and "can_open env wk store"
  shows "\<exists>wk' store'. append_messages lb env ms wk store = (Inr (), wk', store') \<and> can_open env wk' store'"
proof (cases "ms = []")
  case True
  then show ?thesis using assms(2) by (simp add: append_messages_def)
next
  case False
  obtain w where w: "open_writer env store wk = Inr w"
    using assms(2) by (cases "wk_open wk") (auto simp: can_open_def open_writer_def staging_writer_key)
  obtain w' rows games where "append_batch lb (ae_now env) (w, wk_rows wk, wk_player_games wk) ms = Inr (w', rows, games)"
    using append_batch_total [OF assms(1), of "ae_now env" "(w, wk_rows wk, wk_player_games wk)"] by auto
  with False w show ?thesis by (auto simp: append_messages_def can_open_def hold_def)
qed

section \<open>What makes a seal succeed\<close>

definition all_done :: "seal_env \<Rightarrow> bool" where
  "all_done env \<longleftrightarrow> se_synced env \<and> se_read env \<and> se_put env = Done \<and> (\<forall>key bytes. se_stored env key bytes = bytes) \<and>
     se_head env \<and> se_insert env = Done \<and> (\<forall>block. se_insert_games env block = Done) \<and> se_commit env = Done"

lemma all_done_prefix: "all_done env \<Longrightarrow> stores_prefix env"
  unfolding stores_prefix_def all_done_def by (metis take_all_iff le_refl)

lemma index_and_commit_done: "all_done env \<Longrightarrow> \<exists>wk' wd'. index_and_commit lb env wk wd = (Inr (), wk', wd')"
  by (auto simp: all_done_def index_and_commit_def insert_batch_def insert_player_games_def insert_blocks_Done Let_def
      split: prod.splits)

lemma seal_open_done:
  assumes "all_done env" and "worker_inv lb topic p wd lost wk"
  shows "\<exists>wk' wd'. seal_open lb env wk wd = (Inr (), wk', wd')"
proof (cases "wk_open wk")
  case None
  then show ?thesis by (simp add: seal_open_def)
next
  case (Some w)
  then have "map_of (ps_staging (wd_store wd)) (pw_name w) = Some (pw_file w)"
    using assms(2) by (simp add: worker_inv_def pack_in_hand_def)
  moreover obtain wk' wd' where
    "index_and_commit lb env (wk\<lparr>wk_open := None\<rparr>) (put_object env (pw_key w) (pw_file w) wd) = (Inr (), wk', wd')"
    using index_and_commit_done [OF assms(1)] by blast
  ultimately show ?thesis
    using assms(1) Some by (auto simp: seal_open_def upload_and_index_def seal_def all_done_def put_object_def)
qed

section \<open>The fetches of a drain\<close>

text \<open>A broker that serves its log: a fetch within the log is answered from its offset, with at least
  one record while there is one.\<close>

definition steady :: "kafka_record list \<Rightarrow> (int \<Rightarrow> kafka_error + fetched) \<Rightarrow> bool" where
  "steady log broker \<longleftrightarrow>
     (\<forall>n. within log n \<longrightarrow> (\<exists>f. broker n = Inr f \<and> served log n f \<and> ft_start_offset f = n \<and>
        (n < int (length log) \<longrightarrow> ft_records f \<noteq> [])))"

lemma next_offset_advances:
  assumes "served log cursor f" and "ft_records f \<noteq> []"
  shows "ft_start_offset f < next_offset f"
  by (rule next_offset_served [OF assms(1)]) (use assms(2) in auto)

lemma drain_fetch_ends:
  assumes "steady (wd_topic wd p) broker"
    and "\<forall>r \<in> set (wd_topic wd p). \<forall>m. from_record (lb_texts lb) r = Inr m \<longrightarrow> storable lb m"
    and lib: "codec_ok (lb_compress lb) (lb_bulk lb)" "ids_ok lb"
    and "worker_inv lb topic p wd lost wk" and "can_open env wk (wd_store wd)"
    and "ps_objects (wd_store wd) (staging_key env) = None"
    and "int (length (wd_topic wd p)) - wk_cursor wk < int fuel"
  shows "\<exists>wk' store. drain_fetch fuel lb env broker wk (wd_store wd) = Some (Inr (wk', store)) \<and>
     worker_inv lb topic p (wd\<lparr>wd_store := store\<rparr>) lost wk' \<and> wk_cursor wk' = int (length (wd_topic wd p))"
  using assms(1-2,5-)
proof (induction fuel arbitrary: wd wk)
  case 0
  then show ?case by (simp add: worker_inv_def within_def)
next
  case (Suc fuel)
  let ?log = "wd_topic wd p"
  have "within ?log (wk_cursor wk)" using Suc.prems(3) by (simp add: worker_inv_def)
  then obtain f where f: "broker (wk_cursor wk) = Inr f" "served ?log (wk_cursor wk) f" "ft_start_offset f = wk_cursor wk"
    "wk_cursor wk < int (length ?log) \<Longrightarrow> ft_records f \<noteq> []"
    using Suc.prems(1) by (auto simp: steady_def)
  show ?case
  proof (cases "ft_records f = []")
    case True
    then have "\<not> wk_cursor wk < int (length ?log)" using f(4) by blast
    then have "wk_cursor wk = int (length ?log)" using \<open>within ?log (wk_cursor wk)\<close> by (simp add: within_def)
    then show ?thesis using True f(1) Suc.prems(3) by (simp add: is_end_of_log_def)
  next
    case False
    have "\<forall>m \<in> set (decode lb (ft_records f)). storable lb m"
    proof
      fix m assume "m \<in> set (decode lb (ft_records f))"
      from served_decoded [OF f(2) this] obtain i where "0 \<le> i" "i < int (length ?log)"
        "from_record (lb_texts lb) (?log ! nat i) = Inr m" by blast
      moreover from this have "?log ! nat i \<in> set ?log" by (auto intro: nth_mem)
      ultimately show "storable lb m" using Suc.prems(2) by blast
    qed
    from append_messages_total [OF this Suc.prems(4)] obtain wk1 store1 where
      app: "append_messages lb env (decode lb (ft_records f)) wk (wd_store wd) = (Inr (), wk1, store1)"
      and opens: "can_open env wk1 store1" by blast
    have fresh: "fresh_pack env wd"
      using Suc.prems(5) create_obtain(2) by (auto simp: fresh_pack_def staging_writer_key)
    define wd1 where "wd1 = wd\<lparr>wd_store := store1\<rparr>"
    define wk2 where "wk2 = wk1\<lparr>wk_cursor := next_offset f\<rparr>"
    have inv: "worker_inv lb topic p wd1 lost wk2" and objects: "ps_objects store1 = ps_objects (wd_store wd)"
      using append_fetched_inv [OF app Suc.prems(3) f(2) lib fresh] f(3) by (simp_all add: wd1_def wk2_def)
    have "\<exists>wk' store. drain_fetch fuel lb env broker wk2 (wd_store wd1) = Some (Inr (wk', store)) \<and>
        worker_inv lb topic p (wd1\<lparr>wd_store := store\<rparr>) lost wk' \<and> wk_cursor wk' = int (length (wd_topic wd1 p))"
      using Suc.prems(1-2,5,6) inv opens objects next_offset_advances [OF f(2) False] f(3)
      by (intro Suc.IH) (auto simp: wd1_def wk2_def can_open_def)
    then show ?thesis using False f(1) app by (simp add: is_end_of_log_def wd1_def wk2_def)
  qed
qed

lemma append_messages_objects:
  "append_messages lb env ms wk store = (res, wk', store') \<Longrightarrow> ps_objects store' = ps_objects store"
  by (auto simp: append_messages_def stage_def split: if_splits sum.splits)

lemma drain_fetch_objects:
  "drain_fetch fuel lb env broker wk store = Some (Inr (wk', store')) \<Longrightarrow> ps_objects store' = ps_objects store"
proof (induction fuel arbitrary: wk store)
  case (Suc fuel)
  then show ?case
    by (auto split: sum.splits if_splits prod.splits dest!: append_messages_objects)
qed simp

section \<open>Properties\<close>

text \<open>Claim C7: a drain ends. In any reachable state, when the broker serves its log, the services
  answer and the messages left can be stored, then as much fuel as there are messages left, and
  one more, is enough: the drain returns, its cursor is at the end of the log, every readable
  message of the log that retention did not take is in the index, and if a row was indexed the
  end of the log is committed.\<close>

theorem drain_indexes_everything:
  assumes "pipeline_reachable lb limits kafka topic s" and "sy_workers s p = Some wk"
    and "codec_ok (lb_compress lb) (lb_bulk lb)" and "ids_ok lb"
    and "steady (wd_topic (sy_world s) p) broker" and "all_done senv"
    and "\<forall>r \<in> set (wd_topic (sy_world s) p). \<forall>m. from_record (lb_texts lb) r = Inr m \<longrightarrow> storable lb m"
    and "can_open env wk (wd_store (sy_world s))" and "ps_objects (wd_store (sy_world s)) (staging_key env) = None"
    and "int (length (wd_topic (sy_world s) p)) - wk_cursor wk < int fuel"
  shows "\<exists>n wk' wd'. drain fuel lb env senv broker wk (sy_world s) = Some (Inr (n, wk', wd')) \<and>
     wk_cursor wk' = int (length (wd_topic (sy_world s) p)) \<and>
     (\<forall>i m. msg_at lb (wd_topic (sy_world s) p) i m \<longrightarrow> i \<notin> sy_lost s p \<longrightarrow>
        (\<exists>row \<in> set (wd_index wd'). same_row m row)) \<and>
     (0 < n \<longrightarrow> stored_offset wd' topic p = int (length (wd_topic (sy_world s) p)))"
proof -
  let ?wd = "sy_world s" and ?log = "wd_topic (sy_world s) p"
  note inv = pipeline_reachable_inv [OF assms(1)]
  from drain_fetch_ends [OF assms(5,7,3,4) pipeline_invD(1) [OF inv assms(2)] assms(8-10)] obtain wk1 store where
    fetched: "drain_fetch fuel lb env broker wk (wd_store ?wd) = Some (Inr (wk1, store))"
    and inv1: "worker_inv lb topic p (?wd\<lparr>wd_store := store\<rparr>) (sy_lost s p) wk1" and cursor: "wk_cursor wk1 = int (length ?log)"
    by blast
  obtain wk2 wd2 where sealed: "seal_open lb senv wk1 (?wd\<lparr>wd_store := store\<rparr>) = (Inr (), wk2, wd2)"
    using seal_open_done [OF assms(6) inv1] by blast
  have place: "wk_cursor wk2 = wk_cursor wk1"
    using seal_open_place [OF sealed, of topic p] inv1 by (simp add: worker_inv_def)
  have ended: "drain fuel lb env senv broker wk ?wd = Some (Inr (length (wk_rows wk1), wk2, wd2))"
    by (simp add: drain_def fetched sealed)
  have cov: "covered lb ?log (sy_lost s p) (set (wd_index ?wd) \<union> set (wk_rows wk1)) (int (length ?log))"
    using inv1 cursor by (simp add: worker_inv_def)
  have "covered lb ?log (sy_lost s p) (set (wd_index wd2)) (int (length ?log)) \<and>
      (0 < length (wk_rows wk1) \<longrightarrow> stored_offset wd2 topic p = int (length ?log))"
  proof (cases "wk_open wk1")
    case None
    then show ?thesis using sealed cov inv1 by (auto simp: seal_open_def worker_inv_def)
  next
    case (Some w)
    have "drain_fetch fuel lb env broker wk (wd_store ?wd) = Some (Inr (wk1, store)) \<Longrightarrow> rows_backed lb (?wd\<lparr>wd_store := store\<rparr>)"
      using drain_fetch_objects pipeline_invD(4) [OF inv] by (auto simp: rows_backed_def)
    with fetched have rows: "rows_backed lb (?wd\<lparr>wd_store := store\<rparr>)" by blast
    have off: "offset_inv lb topic p (?wd\<lparr>wd_store := store\<rparr>) (sy_lost s p)"
      using pipeline_invD(3) [OF inv, of p] by (simp add: offset_inv_def stored_offset_def)
    have ok: "sealed_ok lb topic p (sy_lost s p) {pw_name w} wk1 (?wd\<lparr>wd_store := store\<rparr>) (Inr ()) wk2 wd2"
      using seal_open_inv [OF sealed inv1 off rows Some all_done_prefix [OF assms(6)]] by simp
    then have "set (wd_index ?wd) \<subseteq> set (wd_index wd2)" "stored_row ` set (wk_rows wk1) \<subseteq> set (wd_index wd2)"
      "stored_offset wd2 topic p = wk_cursor wk1"
      by (simp_all add: sealed_ok_def frame_on_def)
    then show ?thesis using covered_stored [OF cov] cursor by simp
  qed
  then show ?thesis using ended place cursor by (auto simp: covered_def msg_at_def)
qed

text \<open>The wait after a failed seal is between two and sixty-four seconds, however many
  failures precede it, and never shorter after more failures.\<close>

theorem seal_backoff_bounds:
  "2 \<le> seal_backoff n \<and> seal_backoff n \<le> 64 \<and> (n \<le> n' \<longrightarrow> seal_backoff n \<le> seal_backoff n')"
proof -
  have mono: "saturating_pow2 a \<le> saturating_pow2 b" if "a \<le> b" for a b :: nat
    unfolding saturating_pow2_def by (intro min.mono power_increasing that) auto
  have "1 \<le> saturating_pow2 a" for a by (simp add: saturating_pow2_def)
  then have low: "2 \<le> 2 * saturating_pow2 a" for a by (metis mult_2 add_mono one_add_one)
  have "seal_backoff n \<le> seal_backoff n'" if "n \<le> n'"
    unfolding seal_backoff_def Let_def
    using that by (intro min.mono mult_le_mono2 mono) (auto simp: unat_saturating_sub word_le_nat_alt diff_le_mono)
  with low show ?thesis by (simp add: seal_backoff_def Let_def)
qed

section \<open>A small topic\<close>

text \<open>Libraries whose JSON parser reads \<^verbatim>\<open>[\<close> as the given events, and a topic of one partition with one
  message.\<close>

definition toy_libs :: "json list \<Rightarrow> libs" where
  "toy_libs evs = \<lparr>lb_texts = toy_texts, lb_from_str = (\<lambda>_. None),
     lb_from_str_vec = (\<lambda>s. if s = ''['' then Some evs else None), lb_to_string = (\<lambda>_. []), lb_timestamp_ok = (\<lambda>_. True),
     lb_digest = (\<lambda>b. b), lb_hex = of_bytes, lb_compress = stored_codec, lb_bulk = stored_bulk,
     lb_approximate_size = (\<lambda>_. 1), lb_month_of = (\<lambda>_. 0)\<rparr>"

definition toy_body :: ingest_message where
  "toy_body = toy_message\<lparr>im_raw := as_bytes ''['', im_majsoul_pb := None\<rparr>"

definition toy_kafka :: kafka where
  "toy_kafka = \<lparr>kf_producers = 1, kf_lag = [0], kf_max_lag = 10\<rparr>"

definition toy_env :: ingest_env where
  "toy_env = \<lparr>ie_now = 0, ie_new_id = replicate 16 65, ie_insert = Done, ie_selected = True, ie_meanwhile = (\<lambda>c. c),
     ie_broker = (\<lambda>_ _. Done), ie_release = (\<lambda>_. Done)\<rparr>"

definition toy_world :: "kafka_record list \<Rightarrow> world" where
  "toy_world log = \<lparr>wd_claims = Map.empty, wd_topic = (\<lambda>p. if p = 0 then log else []), wd_offsets = Map.empty,
     wd_store = \<lparr>ps_legacy = [], ps_staging = [], ps_objects = Map.empty\<rparr>, wd_index = [], wd_games = []\<rparr>"

definition toy_log :: "kafka_record list" where
  "toy_log = [into_record toy_texts toy_body]"

definition toy_worker :: worker where
  "toy_worker = \<lparr>wk_topic = ''t'', wk_partition = 0, wk_cursor = 0, wk_committed = 0, wk_at_end_of_log = False,
     wk_seal_failures = 0, wk_open = None, wk_rows = [], wk_player_games = []\<rparr>"

definition toy_system :: "kafka_record list \<Rightarrow> (nat \<Rightarrow> worker option) \<Rightarrow> system" where
  "toy_system log workers = \<lparr>sy_world = toy_world log, sy_workers = workers, sy_lost = (\<lambda>_. {})\<rparr>"

definition toy_append :: append_env where
  "toy_append = \<lparr>ae_now = 0, ae_today = ''d'', ae_part = ''0'', ae_new_uuid = ''u'', ae_left = []\<rparr>"

definition toy_seal :: seal_env where
  "toy_seal = \<lparr>se_synced = True, se_read = True, se_put = Done, se_stored = (\<lambda>_ bytes. bytes), se_head = True,
     se_insert = Done, se_insert_games = (\<lambda>_. Done), se_commit = Done, se_removed = True\<rparr>"

definition toy_broker :: "int \<Rightarrow> kafka_error + fetched" where
  "toy_broker n = Inr \<lparr>ft_records = (if n = 0 then [(0, hd toy_log)] else []), ft_high_watermark = 1, ft_start_offset = n\<rparr>"

lemma toy_body_texts: "message_texts_ok toy_texts toy_body"
  using toy_message_ok by (simp add: message_texts_ok_def toy_body_def)

lemma toy_decodes [simp]: "from_record toy_texts (into_record toy_texts toy_body) = Inr toy_body"
  using from_into_record [OF toy_body_texts] .

lemma toy_libs_simps [simp]: "lb_texts (toy_libs evs) = toy_texts" "lb_compress (toy_libs evs) = stored_codec"
  "lb_bulk (toy_libs evs) = stored_bulk"
  by (simp_all add: toy_libs_def)

lemma toy_ids_ok: "ids_ok (toy_libs evs)"
  by (auto simp: ids_ok_def toy_texts_def split: if_splits)

lemma toy_events:
  assumes "evs \<noteq> []" and "list_all is_object evs"
  shows "events_of_raw (toy_libs evs) (im_raw toy_body) = Inr evs"
proof -
  have "valid_utf8 (as_bytes ''['')" by (simp add: valid_utf8_ascii_list as_bytes_def byte_of_char_def)
  then have "from_utf8 (as_bytes ''['') = Some ''[''" by (simp add: from_utf8_def)
  moreover have "str_trim ''['' = ''[''"
    by (simp add: str_trim_def str_chars_Cons_ascii byte_of_char_def is_white_space_def white_space_def as_bytes_def)
  ultimately show ?thesis using assms
    by (auto simp: events_def Let_def toy_libs_def toy_body_def list_all_iff list_ex_iff)
qed

lemma toy_metadata:
  "evs \<noteq> [] \<Longrightarrow> list_all is_object evs \<Longrightarrow> \<exists>md. metadata_of_raw (toy_libs evs) (im_raw toy_body) = Inr md"
  using toy_events [of evs] by (simp add: parse_metadata_events)

lemma toy_produced_reachable: "pipeline_reachable (toy_libs evs) limits toy_kafka ''t'' (toy_system toy_log Map.empty)"
proof -
  let ?s = "toy_system [] Map.empty"
  define c where "c = \<lparr>cl_id = replicate 16 65, cl_sha256 = [], cl_key = ''k'', cl_message = Some toy_body\<rparr>"
  have "pipeline_reachable (toy_libs evs) limits toy_kafka ''t'' ?s"
    by (rule pipeline_reachable.initial) (simp add: fresh_system_def toy_system_def toy_world_def)
  moreover have "produce_claimed (toy_libs evs) toy_kafka toy_env [c] (wd_claims (sy_world ?s)) (wd_topic (sy_world ?s)) =
      (Inr (), Map.empty, wd_topic (toy_world toy_log))"
    by (auto simp: produce_claimed_def c_def List.map_filter_def toy_system_def toy_world_def toy_kafka_def toy_env_def
        produce_batch_def routed_def partition_for_def produce_chunks_def chunk_step_def produce_chunk_def toy_log_def wire_def trunc_millis_def toy_body_def toy_message_def into_record_def
        toy_libs_def fun_eq_iff)
  then have "pipeline_step (toy_libs evs) limits toy_kafka ''t'' ?s
      (?s\<lparr>sy_world := (sy_world ?s)\<lparr>wd_claims := Map.empty, wd_topic := wd_topic (toy_world toy_log)\<rparr>\<rparr>)"
    by (rule pipeline_step.batch)
  ultimately have "pipeline_reachable (toy_libs evs) limits toy_kafka ''t''
      (?s\<lparr>sy_world := (sy_world ?s)\<lparr>wd_claims := Map.empty, wd_topic := wd_topic (toy_world toy_log)\<rparr>\<rparr>)"
    by (rule pipeline_reachable.further)
  then show ?thesis by (simp add: toy_system_def toy_world_def)
qed

lemma toy_started_reachable: "pipeline_reachable (toy_libs evs) limits toy_kafka ''t'' (toy_system toy_log [0 \<mapsto> toy_worker])"
proof -
  let ?s = "toy_system toy_log Map.empty"
  have "start_worker toy_kafka ''t'' (int 0) (Inr (load_offset ''t'' (int 0) (wd_offsets (sy_world ?s)))) = Inr toy_worker"
    by (simp add: start_worker_def consumer_def toy_kafka_def load_offset_def toy_system_def toy_world_def toy_worker_def)
  then have "pipeline_step (toy_libs evs) limits toy_kafka ''t'' ?s (?s\<lparr>sy_workers := (sy_workers ?s)(0 \<mapsto> toy_worker)\<rparr>)"
    by (rule pipeline_step.started)
  from pipeline_reachable.further [OF toy_produced_reachable this] show ?thesis by (simp add: toy_system_def)
qed

text \<open>One turn that fetches the message and then stops: the pack is sealed and the offset committed.\<close>

definition toy_turn :: turn_env where
  "toy_turn = \<lparr>tn_shutdown = False, tn_fetched = Some (toy_broker 0), tn_append = toy_append, tn_discarded = True,
     tn_stopping = True, tn_now = 0, tn_seal = toy_seal\<rparr>"

abbreviation toy_events_list :: "json list" where
  "toy_events_list \<equiv> [JObject []]"

lemma toy_replay: "replay toy_events_list = Inr None"
  by (simp add: replay_def kind_def)

lemma toy_seal_done: "all_done toy_seal"
  by (simp add: all_done_def toy_seal_def)

lemma toy_served: "served toy_log 0 (projr (toy_broker 0))"
  by (simp add: served_def within_def toy_broker_def toy_log_def exI [of _ 1])

lemma toy_storable: "storable (toy_libs toy_events_list) toy_body"
proof -
  have "\<not> poisonous (toy_libs toy_events_list) toy_body"
    using toy_events [of toy_events_list] toy_replay by (auto simp: poisonous_def)
  then show ?thesis by (simp add: storable_def fits_def stored_codec_def toy_body_def)
qed

lemma toy_can_open: "can_open toy_append toy_worker (wd_store (toy_world log))"
  by (simp add: can_open_def toy_world_def toy_worker_def create_def staging_key_def toy_append_def file_name_def
      pack_prefix_def pack_suffix_def)

lemma toy_turn_ok: "turn_ok (toy_libs evs) toy_turn toy_log toy_worker (toy_world toy_log)"
  using toy_served toy_ids_ok stored_codec_ok all_done_prefix [OF toy_seal_done]
  by (auto simp: turn_ok_def toy_turn_def toy_worker_def toy_broker_def fresh_pack_def toy_world_def)

lemma toy_turned:
  obtains wk wd where "run_turn (toy_libs toy_events_list) limits toy_turn toy_worker (toy_world toy_log) = (Stopped, wk, wd)"
    "stored_offset wd ''t'' 0 = 1"
proof -
  let ?lb = "toy_libs toy_events_list" and ?wd = "toy_world toy_log"
  define f where "f = projr (toy_broker 0)"
  define wk0 where "wk0 = toy_worker\<lparr>wk_at_end_of_log := is_end_of_log f\<rparr>"
  have f: "toy_broker 0 = Inr f" "decode ?lb (ft_records f) = [toy_body]" "next_offset f = 1"
    by (simp_all add: f_def toy_broker_def toy_log_def decode_def List.map_filter_def next_offset_def last_opt_def)
  have "can_open toy_append wk0 (wd_store ?wd)" using toy_can_open by (simp add: can_open_def wk0_def toy_worker_def)
  with append_messages_total [of "[toy_body]" ?lb toy_append wk0 "wd_store ?wd"] toy_storable obtain wk1 store where
    app: "append_messages ?lb toy_append [toy_body] wk0 (wd_store ?wd) = (Inr (), wk1, store)" by auto
  define wk2 where "wk2 = wk1\<lparr>wk_cursor := 1\<rparr>"
  define wd1 where "wd1 = ?wd\<lparr>wd_store := store\<rparr>"
  have fetch: "fetch_part ?lb toy_turn toy_worker ?wd = (Inr (), wk2, wd1)"
    using app f by (simp add: fetch_part_def toy_turn_def wk0_def wk2_def wd1_def Let_def)
  have inv: "pipeline_inv ?lb ''t'' (toy_system toy_log [0 \<mapsto> toy_worker])"
    by (rule pipeline_reachable_inv [OF toy_started_reachable])
  then have "worker_inv ?lb ''t'' 0 ?wd {} toy_worker"
    using pipeline_invD(1) [of ?lb "''t''" "toy_system toy_log [0 \<mapsto> toy_worker]" 0 toy_worker] by (simp add: toy_system_def)
  from fetch_part_inv [OF fetch _ this] toy_turn_ok
  have ok: "fetched_ok ?lb ''t'' 0 ({} \<union> skipped toy_turn toy_worker) toy_worker ?wd (Inr ()) wk2 wd1"
    by (simp add: toy_world_def)
  have inv2: "worker_inv ?lb ''t'' 0 wd1 (skipped toy_turn toy_worker) wk2" using ok by (simp add: fetched_ok_def)
  obtain w where w: "wk_open wk2 = Some w"
    using app by (auto simp: append_messages_def hold_def wk2_def split: if_splits sum.splits)
  obtain wk3 wd3 where seal: "seal_open ?lb toy_seal wk2 wd1 = (Inr (), wk3, wd3)"
    using seal_open_done [OF toy_seal_done inv2] by blast
  have "offset_inv ?lb ''t'' 0 wd1 (skipped toy_turn toy_worker)" "rows_backed ?lb wd1"
    by (simp_all add: toy_world_def offset_inv_def stored_offset_def load_offset_def within_def covered_def msg_at_def
        rows_backed_def wd1_def)
  from seal_open_inv [OF seal inv2 this w all_done_prefix [OF toy_seal_done], of "{pw_name w}"]
  have "stored_offset wd3 ''t'' 0 = 1" by (simp add: sealed_ok_def wk2_def)
  then show thesis using that [of "wk3\<lparr>wk_seal_failures := 0\<rparr>" wd3] fetch seal w
    by (simp add: run_turn_def seal_part_def toy_turn_def)
qed

lemma toy_committed_reachable:
  obtains s where "pipeline_reachable (toy_libs toy_events_list) limits toy_kafka ''t'' s" "stored_offset (sy_world s) ''t'' 0 = 1"
    "sy_lost s 0 = {}" "wd_topic (sy_world s) 0 = toy_log"
proof -
  let ?s = "toy_system toy_log [0 \<mapsto> toy_worker]"
  obtain wk wd where turned: "run_turn (toy_libs toy_events_list) limits toy_turn toy_worker (sy_world ?s) = (Stopped, wk, wd)"
    and off: "stored_offset wd ''t'' 0 = 1"
    using toy_turned [of limits] by (auto simp: toy_system_def)
  have worker: "sy_workers ?s 0 = Some toy_worker" by (simp add: toy_system_def)
  have ok: "turn_ok (toy_libs toy_events_list) toy_turn (wd_topic (sy_world ?s) 0) toy_worker (sy_world ?s)"
    using toy_turn_ok by (simp add: toy_system_def toy_world_def)
  have "worker_inv (toy_libs toy_events_list) ''t'' 0 (sy_world ?s) (sy_lost ?s 0) toy_worker"
    "offset_inv (toy_libs toy_events_list) ''t'' 0 (sy_world ?s) (sy_lost ?s 0)" "rows_backed (toy_libs toy_events_list) (sy_world ?s)"
    using pipeline_invD [OF pipeline_reachable_inv [OF toy_started_reachable]] worker by blast+
  from run_turn_inv [OF turned ok this] have "wd_topic wd 0 = toy_log"
    by (simp add: turned_ok_def frame_on_def toy_system_def toy_world_def)
  moreover have "skipped toy_turn toy_worker = {}" by (simp add: skipped_def toy_turn_def toy_broker_def toy_worker_def)
  ultimately show thesis
    using that [OF pipeline_reachable.further [OF toy_started_reachable pipeline_step.turn [OF worker ok turned]]] off
    by (simp add: toy_system_def)
qed

section \<open>Witnesses\<close>

theorem committed_messages_indexed_witness:
  "\<exists>s. pipeline_reachable (toy_libs [JObject []]) \<lparr>pt_target_bytes = 1, pt_max_age = 1, pt_idle_age = 1\<rparr> toy_kafka ''t'' s \<and>
     (\<exists>row \<in> set (wd_index (sy_world s)). rw_id row = replicate 16 65)"
proof -
  obtain s where s: "pipeline_reachable (toy_libs [JObject []]) \<lparr>pt_target_bytes = 1, pt_max_age = 1, pt_idle_age = 1\<rparr> toy_kafka ''t'' s"
    "stored_offset (sy_world s) ''t'' 0 = 1" "sy_lost s 0 = {}" "wd_topic (sy_world s) 0 = toy_log"
    by (rule toy_committed_reachable)
  obtain md where md: "metadata_of_raw (toy_libs [JObject []]) (im_raw toy_body) = Inr md"
    using toy_metadata [of "[JObject []]"] by auto
  have "from_record (lb_texts (toy_libs [JObject []])) (wd_topic (sy_world s) 0 ! nat 0) = Inr toy_body"
    by (simp add: s(4) toy_log_def)
  from committed_messages_indexed [OF s(1) _ _ _ this md] s show ?thesis
    by (auto simp: toy_body_def toy_message_def)
qed

theorem no_dangling_rows_witness:
  "\<exists>s row body. pipeline_reachable (toy_libs [JObject []]) \<lparr>pt_target_bytes = 1, pt_max_age = 1, pt_idle_age = 1\<rparr> toy_kafka ''t'' s \<and>
     row \<in> set (wd_index (sy_world s)) \<and> ps_objects (wd_store (sy_world s)) (pl_pack_key (rw_storage row)) = Some body"
proof -
  obtain s where s: "pipeline_reachable (toy_libs [JObject []]) \<lparr>pt_target_bytes = 1, pt_max_age = 1, pt_idle_age = 1\<rparr> toy_kafka ''t'' s"
    "stored_offset (sy_world s) ''t'' 0 = 1" "sy_lost s 0 = {}" "wd_topic (sy_world s) 0 = toy_log"
    by (rule toy_committed_reachable)
  have "msg_at (toy_libs [JObject []]) (wd_topic (sy_world s) 0) 0 toy_body"
    using toy_metadata [of "[JObject []]"] by (simp add: msg_at_def indexable_def s(4) toy_log_def)
  then obtain row where row: "row \<in> set (wd_index (sy_world s))"
    using pipeline_invD(3) [OF pipeline_reachable_inv [OF s(1)], of 0] s(2,3) by (fastforce simp: offset_inv_def covered_def)
  from no_dangling_rows [OF s(1) row] s(1) row show ?thesis by blast
qed

theorem workers_well_formed_witness:
  "\<exists>s wk. pipeline_reachable (toy_libs [JObject []]) \<lparr>pt_target_bytes = 1, pt_max_age = 1, pt_idle_age = 1\<rparr> toy_kafka ''t'' s \<and>
     sy_workers s 0 = Some wk \<and> wk_cursor wk \<le> int (length (wd_topic (sy_world s) 0)) \<and> wd_topic (sy_world s) 0 \<noteq> []"
  using workers_well_formed [OF toy_started_reachable [of "[JObject []]" "\<lparr>pt_target_bytes = 1, pt_max_age = 1, pt_idle_age = 1\<rparr>"],
      where p = 0 and wk = toy_worker] toy_started_reachable
  by (intro exI [of _ "toy_system toy_log [0 \<mapsto> toy_worker]"] exI [of _ toy_worker])
     (auto simp: toy_system_def toy_world_def toy_log_def)

text \<open>The game of one hand whose winner shows an empty indicator.\<close>

theorem panicking_record_stops_partition_witness:
  "\<exists>s. pipeline_reachable (toy_libs (sample_game [''''] [])) \<lparr>pt_target_bytes = 1, pt_max_age = 1, pt_idle_age = 1\<rparr> toy_kafka ''t'' s \<and>
     wd_topic (sy_world s) 0 \<noteq> [] \<and> stored_offset (sy_world s) ''t'' 0 \<le> 0"
proof -
  let ?evs = "sample_game [''''] []" and ?s = "toy_system toy_log Map.empty"
  have evs: "?evs \<noteq> []" "list_all is_object ?evs" by (simp_all add: sample_game_def)
  obtain md where md: "metadata_of_raw (toy_libs ?evs) (im_raw toy_body) = Inr md" using toy_metadata [OF evs] by blast
  have at: "0 < int (length (wd_topic (sy_world ?s) 0))" "0 \<notin> sy_lost ?s 0"
    "from_record (lb_texts (toy_libs ?evs)) (wd_topic (sy_world ?s) 0 ! nat 0) = Inr toy_body"
    by (simp_all add: toy_system_def toy_world_def toy_log_def)
  from panicking_record_stops_partition [OF toy_produced_reachable _ at md toy_events [OF evs] empty_marker_panics]
    toy_produced_reachable at(1)
  show ?thesis by (intro exI [of _ ?s]) auto
qed

theorem drain_indexes_everything_witness:
  "\<exists>n wk' wd'. drain 2 (toy_libs [JObject []]) toy_append toy_seal toy_broker toy_worker (toy_world toy_log) = Some (Inr (n, wk', wd')) \<and>
     (\<exists>row \<in> set (wd_index wd'). rw_id row = replicate 16 65)"
proof -
  let ?lb = "toy_libs [JObject []]" and ?s = "toy_system toy_log [0 \<mapsto> toy_worker]"
  have steady: "steady (wd_topic (sy_world ?s) 0) toy_broker"
    unfolding steady_def
  proof (intro allI impI)
    fix n assume "within (wd_topic (sy_world ?s) 0) n"
    then have "n = 0 \<or> n = 1" by (auto simp: within_def toy_system_def toy_world_def toy_log_def)
    then show "\<exists>f. toy_broker n = Inr f \<and> served (wd_topic (sy_world ?s) 0) n f \<and> ft_start_offset f = n \<and>
        (n < int (length (wd_topic (sy_world ?s) 0)) \<longrightarrow> ft_records f \<noteq> [])"
      by (auto simp: toy_broker_def served_def within_def toy_system_def toy_world_def toy_log_def exI [of _ "1 :: nat"])
  qed
  have "\<forall>r \<in> set (wd_topic (sy_world ?s) 0). \<forall>m. from_record (lb_texts ?lb) r = Inr m \<longrightarrow> storable ?lb m"
    using toy_storable by (auto simp: toy_system_def toy_world_def toy_log_def)
  moreover have "codec_ok (lb_compress ?lb) (lb_bulk ?lb)" using stored_codec_ok by simp
  moreover have "sy_workers ?s 0 = Some toy_worker" "ps_objects (wd_store (sy_world ?s)) (staging_key toy_append) = None"
    "int (length (wd_topic (sy_world ?s) 0)) - wk_cursor toy_worker < int 2" "can_open toy_append toy_worker (wd_store (sy_world ?s))"
    using toy_can_open by (simp_all add: toy_system_def toy_world_def toy_log_def toy_worker_def)
  ultimately obtain n wk' wd' where ended: "drain 2 ?lb toy_append toy_seal toy_broker toy_worker (sy_world ?s) = Some (Inr (n, wk', wd'))"
    and all: "\<forall>i m. msg_at ?lb (wd_topic (sy_world ?s) 0) i m \<longrightarrow> i \<notin> sy_lost ?s 0 \<longrightarrow> (\<exists>row \<in> set (wd_index wd'). same_row m row)"
    using drain_indexes_everything [OF toy_started_reachable _ _ toy_ids_ok steady toy_seal_done, where wk = toy_worker and env = toy_append and fuel = 2] by blast
  have "msg_at ?lb (wd_topic (sy_world ?s) 0) 0 toy_body" "0 \<notin> sy_lost ?s 0"
    using toy_metadata [of "[JObject []]"] by (simp_all add: msg_at_def indexable_def toy_log_def toy_system_def toy_world_def)
  with all ended show ?thesis by (fastforce simp: toy_system_def same_row_def toy_body_def toy_message_def)
qed

theorem seal_backoff_bounds_witness: "seal_backoff 3 = 8 \<and> seal_backoff 3 \<le> seal_backoff 200 \<and> seal_backoff 200 \<le> 64"
  using seal_backoff_bounds [of 3 200] by (simp add: seal_backoff_def saturating_pow2_def saturating_sub_def)

end
