(* ===== verification/Recovery.thy ===== *)
theory Recovery
  imports Drain
begin

text \<open>
  \<^verbatim>\<open>src/recovery.rs\<close>: the start-up scan that re-indexes the entries of the legacy packs the
  index does not have. The modification time of a pack, and the answers of the index, are
  arguments. An error ends the scan; the packs before it stay re-indexed.
\<close>

section \<open>The scan\<close>

record recovery_env =
  rv_modified :: "string \<Rightarrow> int"
  rv_counted :: bool
  rv_listed :: "string \<Rightarrow> bool"
  rv_insert :: "string \<Rightarrow> outcome"

datatype recovery_error = Scan_Failed pack_error | Recovery_Index catalog_error

definition recovered_source :: string where
  "recovered_source = ''recovered''"

text \<open>The row of one entry, or nothing when it is indexed already, unreadable or unparseable.\<close>

definition recovered_row ::
  "libs \<Rightarrow> pack_store \<Rightarrow> int \<Rightarrow> uuid set \<Rightarrow> uuid \<times> pack_location \<Rightarrow> index_row option" where
  "recovered_row lb store received_at known entry =
     (let (u, location) = entry
      in if u \<in> known then None
         else case read (lb_bulk lb) store location of
                Inl _ \<Rightarrow> None
              | Inr raw \<Rightarrow>
                  (case metadata_of_raw lb raw of
                     Inl _ \<Rightarrow> None
                   | Inr md \<Rightarrow> Some \<lparr>rw_id = u, rw_source = recovered_source, rw_sha256 = lb_hex lb (lb_digest lb raw),
                       rw_received_at = received_at, rw_played_at = None, rw_players = md_players md, rw_rule = md_rule md,
                       rw_event_count = md_event_count md, rw_storage = location, rw_majsoul_pb = None\<rparr>))"

definition recover_pack ::
  "libs \<Rightarrow> recovery_env \<Rightarrow> pack_store \<Rightarrow> (string \<rightharpoonup> nat) \<Rightarrow> string \<Rightarrow> index_row list \<Rightarrow>
   (recovery_error + nat) \<times> index_row list" where
  "recover_pack lb env store indexed name index =
     (case (case map_of (ps_legacy store) name of None \<Rightarrow> Inl Io | Some bs \<Rightarrow> scan_pack name bs) of
        Inl e \<Rightarrow> (Inl (Scan_Failed e), index)
      | Inr (key, entries) \<Rightarrow>
          if length entries \<le> (case indexed key of Some n \<Rightarrow> n | None \<Rightarrow> 0) then (Inr 0, index)
          else if \<not> rv_listed env key then (Inl (Recovery_Index Index_Error), index)
          else
            let known = set (indexed_ids key index);
                rows = List.map_filter (recovered_row lb store (rv_modified env name) known) entries
            in case insert_batch (rv_insert env key) rows index of
                 (Inl e, index') \<Rightarrow> (Inl (Recovery_Index e), index')
               | (Inr _, index') \<Rightarrow> (Inr (length rows), index'))"

fun recover_packs ::
  "libs \<Rightarrow> recovery_env \<Rightarrow> pack_store \<Rightarrow> (string \<rightharpoonup> nat) \<Rightarrow> string list \<Rightarrow> nat \<Rightarrow> index_row list \<Rightarrow>
   (recovery_error + nat) \<times> index_row list" where
  "recover_packs lb env store indexed [] recovered index = (Inr recovered, index)"
| "recover_packs lb env store indexed (name # names) recovered index =
     (case recover_pack lb env store indexed name index of
        (Inl e, index') \<Rightarrow> (Inl e, index')
      | (Inr n, index') \<Rightarrow> recover_packs lb env store indexed names (recovered + n) index')"

definition recover :: "libs \<Rightarrow> recovery_env \<Rightarrow> pack_store \<Rightarrow> index_row list \<Rightarrow> (recovery_error + nat) \<times> index_row list" where
  "recover lb env store index =
     (if \<not> rv_counted env then (Inl (Recovery_Index Index_Error), index)
      else recover_packs lb env store (map_of (indexed_counts (map pack_key (packs store)) index)) (packs store) 0 index)"

section \<open>What a pack gains\<close>

lemma scan_entries_key: "list_all (\<lambda>entry. pl_pack_key (snd entry) = key) (scan_entries key bs pos)"
proof (induction key bs pos rule: scan_entries.induct)
  case (1 key bs pos)
  then show ?case by (subst scan_entries.simps) (simp add: Let_def)
qed

lemma scan_pack_entries:
  "scan_pack name bs = Inr (key, entries) \<Longrightarrow> key = pack_key name \<and> (\<forall>entry \<in> set entries. pl_pack_key (snd entry) = key)"
  using scan_entries_key [of "pack_key name" bs "length magic"] by (auto simp: scan_pack_def list_all_iff split: if_splits)

text \<open>The ids a pack's readable entries carry.\<close>

definition entries_of :: "pack_store \<Rightarrow> string \<Rightarrow> (uuid \<times> pack_location) list" where
  "entries_of store name =
     (case map_of (ps_legacy store) name of
        None \<Rightarrow> []
      | Some bs \<Rightarrow> (case scan_pack name bs of Inl _ \<Rightarrow> [] | Inr (_, entries) \<Rightarrow> entries))"

definition readable :: "libs \<Rightarrow> pack_store \<Rightarrow> uuid \<times> pack_location \<Rightarrow> bool" where
  "readable lb store entry \<longleftrightarrow>
     (\<exists>raw md. read (lb_bulk lb) store (snd entry) = Inr raw \<and> metadata_of_raw lb raw = Inr md)"

definition complete :: "libs \<Rightarrow> pack_store \<Rightarrow> string \<Rightarrow> index_row list \<Rightarrow> bool" where
  "complete lb store name index \<longleftrightarrow>
     (\<forall>entry \<in> set (entries_of store name). readable lb store entry \<longrightarrow> fst entry \<in> set (indexed_ids (pack_key name) index))"

text \<open>Packs whose names are UTF-8 have different keys.\<close>

definition distinct_keys :: "pack_store \<Rightarrow> bool" where
  "distinct_keys store \<longleftrightarrow> inj_on pack_key (set (packs store))"

lemma distinct_keys_utf8: "(\<And>name. name \<in> set (packs store) \<Longrightarrow> utf8_name name) \<Longrightarrow> distinct_keys store"
  unfolding distinct_keys_def by (rule pack_key_inj)

text \<open>The index names nothing but entries of the packs it points into.\<close>

definition index_from_packs :: "pack_store \<Rightarrow> index_row list \<Rightarrow> bool" where
  "index_from_packs store index \<longleftrightarrow>
     (\<forall>name \<in> set (packs store). set (indexed_ids (pack_key name) index) \<subseteq> fst ` set (entries_of store name))"

lemma recovered_row_None: "recovered_row lb store at known entry = None \<longleftrightarrow> fst entry \<in> known \<or> \<not> readable lb store entry"
  by (auto simp: recovered_row_def readable_def split: prod.splits sum.splits)

lemma recovered_row_Some:
  "recovered_row lb store at known entry = Some row \<Longrightarrow> rw_id row = fst entry \<and> rw_storage row = snd entry \<and> readable lb store entry"
  by (auto simp: recovered_row_def readable_def split: prod.splits sum.splits if_splits)

lemma set_indexed_ids: "set (indexed_ids key index) = rw_id ` {row \<in> set index. pl_pack_key (rw_storage row) = key}"
  by (auto simp: indexed_ids_def)

lemma indexed_count:
  "map_of (indexed_counts keys index) key =
     (if key \<in> set keys \<and> set (indexed_ids key index) \<noteq> {} then Some (card (set (indexed_ids key index))) else None)"
proof -
  have "map_of (map (\<lambda>k. (k, f k)) ks) key = (if key \<in> set ks then Some (f key) else None)" for f :: "string \<Rightarrow> nat" and ks
    by (induction ks) auto
  then show ?thesis by (auto simp: indexed_counts_def set_indexed_ids length_remdups_card_conv image_iff)
qed

lemma all_entries_indexed:
  assumes "index_from_packs store index" and "name \<in> set (packs store)"
    and "length (entries_of store name) \<le> card (set (indexed_ids (pack_key name) index))"
  shows "complete lb store name index"
proof -
  have sub: "set (indexed_ids (pack_key name) index) \<subseteq> fst ` set (entries_of store name)"
    using assms(1,2) by (simp add: index_from_packs_def)
  have "card (fst ` set (entries_of store name)) \<le> length (entries_of store name)"
    by (metis card_image_le card_length finite_set le_trans)
  with assms(3) have "set (indexed_ids (pack_key name) index) = fst ` set (entries_of store name)"
    using card_mono [OF _ sub] by (intro card_subset_eq [OF _ sub]) simp_all
  then show ?thesis by (auto simp: complete_def)
qed

text \<open>One pack: rows are only added, all of them for entries of the pack, and afterwards it is
  complete.\<close>

lemma recovered_rows_of:
  assumes "scan_pack name bs = Inr (pack_key name, entries)"
    and "row \<in> set (List.map_filter (recovered_row lb store modified seen) entries)"
  shows "\<exists>entry \<in> set entries. rw_id row = fst entry \<and> rw_storage row = snd entry" "pl_pack_key (rw_storage row) = pack_key name"
proof -
  obtain entry where "entry \<in> set entries" and "recovered_row lb store modified seen entry = Some row"
    using assms(2) by (auto simp: set_map_filter)
  then show of_entry: "\<exists>entry \<in> set entries. rw_id row = fst entry \<and> rw_storage row = snd entry"
    using recovered_row_Some by blast
  then show "pl_pack_key (rw_storage row) = pack_key name" using scan_pack_entries [OF assms(1)] by auto
qed

lemma recovered_from_packs:
  assumes "index_from_packs store index" and keys: "distinct_keys store" and name: "name \<in> set (packs store)"
    and index': "set index' = set index \<union> stored_row ` set rows"
    and rows: "\<And>row. row \<in> set rows \<Longrightarrow> rw_id row \<in> fst ` set (entries_of store name)"
      "\<And>row. row \<in> set rows \<Longrightarrow> pl_pack_key (rw_storage row) = pack_key name"
  shows "index_from_packs store index'"
  unfolding index_from_packs_def
proof
  fix other assume other: "other \<in> set (packs store)"
  have "rw_id row \<in> fst ` set (entries_of store other)"
    if "row \<in> set rows" "pl_pack_key (rw_storage row) = pack_key other" for row
  proof -
    have "other = name"
      using rows(2) [OF that(1)] that(2) inj_onD [OF keys [unfolded distinct_keys_def] _ other name] by simp
    then show ?thesis using rows(1) [OF that(1)] by simp
  qed
  with assms(1) other show "set (indexed_ids (pack_key other) index') \<subseteq> fst ` set (entries_of store other)"
    by (auto simp: index_from_packs_def set_indexed_ids index' stored_row_def)
qed

lemma recovered_complete:
  assumes rows: "rows = List.map_filter (recovered_row lb store modified (set (indexed_ids (pack_key name) index))) (entries_of store name)"
    and index': "set index' = set index \<union> stored_row ` set rows"
    and keys: "\<And>row. row \<in> set rows \<Longrightarrow> pl_pack_key (rw_storage row) = pack_key name"
  shows "complete lb store name index'"
  unfolding complete_def
proof (intro ballI impI)
  fix entry assume entry: "entry \<in> set (entries_of store name)" "readable lb store entry"
  show "fst entry \<in> set (indexed_ids (pack_key name) index')"
  proof (cases "fst entry \<in> set (indexed_ids (pack_key name) index)")
    case True
    then show ?thesis by (auto simp: set_indexed_ids index')
  next
    case False
    with entry(2) obtain row where row: "recovered_row lb store modified (set (indexed_ids (pack_key name) index)) entry = Some row"
      using recovered_row_None by blast
    then have "row \<in> set rows" using entry(1) by (auto simp: rows set_map_filter)
    then have "stored_row row \<in> set index'" "pl_pack_key (rw_storage row) = pack_key name" using index' keys by auto
    with recovered_row_Some [OF row] show ?thesis by (force simp: set_indexed_ids stored_row_def)
  qed
qed

lemma recover_pack_effect:
  assumes run: "recover_pack lb env store indexed name index = (Inr n, index')" and name: "name \<in> set (packs store)"
    and from_packs: "index_from_packs store index" and distinct: "distinct_keys store"
    and counted: "\<And>k. indexed (pack_key name) = Some k \<Longrightarrow> k \<le> card (set (indexed_ids (pack_key name) index))"
  shows "set index \<subseteq> set index' \<and> index_from_packs store index' \<and> complete lb store name index'"
proof -
  obtain bs entries where bs: "map_of (ps_legacy store) name = Some bs"
    and scan: "scan_pack name bs = Inr (pack_key name, entries)"
    using run scan_pack_entries by (fastforce simp: recover_pack_def split: option.splits sum.splits)
  have ents: "entries_of store name = entries" by (simp add: entries_of_def bs scan)
  show ?thesis
  proof (cases "length entries \<le> (case indexed (pack_key name) of Some k \<Rightarrow> k | None \<Rightarrow> 0)")
    case True
    then have "index' = index" using run by (simp add: recover_pack_def bs scan)
    moreover have "length (entries_of store name) \<le> card (set (indexed_ids (pack_key name) index))"
      using True counted by (fastforce simp: ents split: option.splits)
    ultimately show ?thesis using all_entries_indexed [OF from_packs name] from_packs by blast
  next
    case False
    define rows where "rows = List.map_filter (recovered_row lb store (rv_modified env name)
      (set (indexed_ids (pack_key name) index))) entries"
    have ins: "\<exists>u. insert_batch (rv_insert env (pack_key name)) rows index = (Inr u, index')"
      using run False by (auto simp: recover_pack_def bs scan rows_def Let_def split: if_splits sum.splits prod.splits)
    have index': "set index' = set index \<union> stored_row ` set rows"
      using ins by (cases "rv_insert env (pack_key name)") (auto simp: insert_batch_def split: if_splits)
    note rows_of = recovered_rows_of [OF scan, of _ lb store "rv_modified env name", folded rows_def]
    have "rw_id row \<in> fst ` set (entries_of store name)" if "row \<in> set rows" for row
      using rows_of(1) [OF that [unfolded rows_def]] by (auto simp: ents)
    moreover have keys: "pl_pack_key (rw_storage row) = pack_key name" if "row \<in> set rows" for row
      using rows_of(2) [OF that [unfolded rows_def]] .
    ultimately have "index_from_packs store index'" by (rule recovered_from_packs [OF from_packs distinct name index'])
    moreover have "complete lb store name index'"
      using recovered_complete [OF _ index' keys] rows_def ents by simp
    ultimately show ?thesis by (auto simp: index')
  qed
qed

lemma indexed_ids_mono: "set index \<subseteq> set index' \<Longrightarrow> set (indexed_ids key index) \<subseteq> set (indexed_ids key index')"
  by (auto simp: set_indexed_ids)

lemma complete_mono: "complete lb store name index \<Longrightarrow> set index \<subseteq> set index' \<Longrightarrow> complete lb store name index'"
  unfolding complete_def using indexed_ids_mono by blast

lemma recover_packs_effect:
  assumes "recover_packs lb env store indexed names k index = (Inr n, index')" and "set names \<subseteq> set (packs store)"
    and "index_from_packs store index"
    and "\<And>name c. indexed (pack_key name) = Some c \<Longrightarrow> c \<le> card (set (indexed_ids (pack_key name) index))"
    and distinct: "distinct_keys store"
  shows "set index \<subseteq> set index' \<and> index_from_packs store index' \<and> (\<forall>name \<in> set names. complete lb store name index')"
  using assms(1-4)
proof (induction names arbitrary: k index)
  case (Cons name names)
  then obtain c index1 where step: "recover_pack lb env store indexed name index = (Inr c, index1)"
    and rest: "recover_packs lb env store indexed names (k + c) index1 = (Inr n, index')"
    by (auto split: prod.splits sum.splits)
  have name: "name \<in> set (packs store)" using Cons.prems(2) by simp
  note one = recover_pack_effect [OF step name Cons.prems(3) distinct Cons.prems(4)]
  have "c \<le> card (set (indexed_ids (pack_key other) index1))" if "indexed (pack_key other) = Some c" for other c
    using Cons.prems(4) [OF that] card_mono [OF _ indexed_ids_mono [of index index1 "pack_key other"]] one by fastforce
  with Cons.IH [OF rest] Cons.prems(2) one
  have "set index1 \<subseteq> set index'" "index_from_packs store index'" "\<forall>name \<in> set names. complete lb store name index'" by auto
  with one show ?case using complete_mono [of lb store name index1 index'] by auto
qed simp

lemma recover_runs:
  "recover lb env store index = (Inr n, index') \<Longrightarrow>
     recover_packs lb env store (map_of (indexed_counts (map pack_key (packs store)) index)) (packs store) 0 index = (Inr n, index')"
  by (simp add: recover_def split: if_splits)

lemma recover_effect:
  assumes "recover lb env store index = (Inr n, index')" and "index_from_packs store index" and "distinct_keys store"
  shows "set index \<subseteq> set index' \<and> index_from_packs store index' \<and> (\<forall>name \<in> set (packs store). complete lb store name index')"
  by (rule recover_packs_effect [OF recover_runs [OF assms(1)] subset_refl assms(2) _ assms(3)])
    (simp add: indexed_count split: if_splits)

section \<open>A second scan\<close>

lemma recover_packs_scanned:
  "recover_packs lb env store indexed names k index = (Inr n, index') \<Longrightarrow> name \<in> set names \<Longrightarrow>
     \<exists>bs entries. map_of (ps_legacy store) name = Some bs \<and> scan_pack name bs = Inr (pack_key name, entries)"
proof (induction names arbitrary: k index)
  case (Cons other names)
  then obtain c index1 where step: "recover_pack lb env store indexed other index = (Inr c, index1)"
    and rest: "recover_packs lb env store indexed names (k + c) index1 = (Inr n, index')"
    by (auto split: prod.splits sum.splits)
  from step have "\<exists>bs entries. map_of (ps_legacy store) other = Some bs \<and> scan_pack other bs = Inr (pack_key other, entries)"
    by (fastforce simp: recover_pack_def split: option.splits sum.splits dest: scan_pack_entries)
  with Cons.IH [OF rest] Cons.prems(2) show ?case by auto
qed simp

lemma recover_pack_complete:
  assumes "map_of (ps_legacy store) name = Some bs" and "scan_pack name bs = Inr (pack_key name, entries)"
    and "complete lb store name index" and "rv_listed env (pack_key name)"
  shows "recover_pack lb env store indexed name index = (Inr 0, index)"
proof -
  have "recovered_row lb store at (set (indexed_ids (pack_key name) index)) entry = None" if "entry \<in> set entries" for at entry
    using assms(1-3) that by (auto simp: complete_def entries_of_def recovered_row_None)
  then have "List.map_filter (recovered_row lb store at (set (indexed_ids (pack_key name) index))) entries = []" for at
    by (simp add: List.map_filter_def)
  then show ?thesis using assms(4) by (simp add: recover_pack_def assms(1,2) insert_batch_def Let_def)
qed

lemma recover_packs_complete:
  assumes "\<And>name. name \<in> set names \<Longrightarrow> recover_pack lb env store indexed name index = (Inr 0, index)"
  shows "recover_packs lb env store indexed names k index = (Inr k, index)"
  using assms by (induction names) auto

section \<open>Properties\<close>

text \<open>Claim C12: a scan that succeeds leaves every entry of every legacy pack whose record can be read and parsed
  in the index, takes no row away and adds only entries of the packs; and the scan is safe on every boot:
  run again over the same packs it re-indexes nothing, whatever the file times, even when some entries
  stay unreadable for ever. The index is one that names only entries the packs hold, and no two
  packs have the same index key (as any two whose names are UTF-8).\<close>

theorem recover_complete:
  assumes "recover lb env store index = (Inr n, index')" and "index_from_packs store index" and "distinct_keys store"
  shows "(\<forall>name \<in> set (packs store). complete lb store name index') \<and> set index \<subseteq> set index' \<and> index_from_packs store index' \<and>
     (rv_counted again \<and> (\<forall>key. rv_listed again key) \<longrightarrow> recover lb again store index' = (Inr 0, index'))"
proof -
  note effect = recover_effect [OF assms]
  have "recover_pack lb again store indexed name index' = (Inr 0, index')"
    if "name \<in> set (packs store)" "rv_listed again (pack_key name)" for indexed name
    using recover_packs_scanned [OF recover_runs [OF assms(1)] that(1)] effect that recover_pack_complete by blast
  then have "rv_counted again \<and> (\<forall>key. rv_listed again key) \<longrightarrow> recover lb again store index' = (Inr 0, index')"
    by (auto simp: recover_def intro: recover_packs_complete)
  with effect show ?thesis by blast
qed

section \<open>A small legacy pack\<close>

definition toy_legacy :: pack_store where
  "toy_legacy = \<lparr>ps_legacy = [(''a.mjpack'', magic @ [65, 65, 65, 65, 65, 65, 65, 65, 65, 65, 65, 65, 65, 65, 65, 65] @ [0, 0, 0, 1, 0, 0, 0, 2] @ [0, 91])],
     ps_staging = [], ps_objects = Map.empty\<rparr>"

definition toy_scan :: "int \<Rightarrow> recovery_env" where
  "toy_scan time = \<lparr>rv_modified = (\<lambda>_. time), rv_counted = True, rv_listed = (\<lambda>_. True), rv_insert = (\<lambda>_. Done)\<rparr>"

lemma toy_legacy_packs: "packs toy_legacy = [''a.mjpack'']"
  by (simp add: packs_def toy_legacy_def mjpacks_def is_mjpack_code pack_suffix_def)

lemma toy_legacy_scanned:
  "\<exists>bs u. map_of (ps_legacy toy_legacy) ''a.mjpack'' = Some bs \<and>
     scan_pack ''a.mjpack'' bs = Inr (pack_key ''a.mjpack'', [(u, \<lparr>pl_pack_key = pack_key ''a.mjpack'',
       pl_offset = 32, pl_compressed_size = 2, pl_raw_size = 1, pl_codec = ''zstd''\<rparr>)])"
proof -
  have magic: "magic = [77, 74, 80, 65, 67, 75, 48, 49]" by (simp add: magic_def as_bytes_def byte_of_char_def)
  have size: "length magic = 8" unfolding magic by simp
  have id: "\<not> is_nil [65, 65, 65, 65, 65, 65, 65, 65, 65, 65, 65, 65, 65, 65, 65, 65]" using list.set_intros(1) by (fastforce simp: is_nil_def dest: arg_cong [of _ _ set])
  show ?thesis
    unfolding toy_legacy_def scan_pack_def size
    by (simp add: scan_entries.simps [of _ _ 8] scan_entries.simps [of _ _ 34] magic entry_header_len_def id Let_def)
qed

lemma toy_legacy_recovered: "\<exists>row. recover (toy_libs [JObject []]) (toy_scan 5) toy_legacy [] = (Inr 1, [row])"
proof -
  let ?loc = "\<lparr>pl_pack_key = pack_key ''a.mjpack'', pl_offset = 32, pl_compressed_size = 2, pl_raw_size = 1, pl_codec = ''zstd''\<rparr>"
  obtain bs u where bs: "map_of (ps_legacy toy_legacy) ''a.mjpack'' = Some bs"
    and scan: "scan_pack ''a.mjpack'' bs = Inr (pack_key ''a.mjpack'', [(u, ?loc)])"
    using toy_legacy_scanned by blast
  have body: "im_raw toy_body = [91]" by (simp add: toy_body_def as_bytes_def byte_of_char_def)
  obtain md where md: "metadata_of_raw (toy_libs [JObject []]) [91] = Inr md"
    using toy_metadata [of "[JObject []]"] body by auto
  have "read stored_bulk toy_legacy ?loc = Inr [91]"
    by (simp add: read_def sample_key file_name_def toy_legacy_def read_exact_def decompress_def stored_bulk_def
        Let_def magic_def last_opt_def)
  then obtain row where row: "recovered_row (toy_libs [JObject []]) toy_legacy 5 {} (u, ?loc) = Some row"
    using md by (simp add: recovered_row_def)
  then show ?thesis
    by (simp add: recover_def toy_scan_def toy_legacy_packs indexed_counts_def recover_pack_def bs scan indexed_ids_def
        List.map_filter_def insert_batch_def took_effect_def)
qed

theorem recover_complete_witness:
  "\<exists>row. recover (toy_libs [JObject []]) (toy_scan 5) toy_legacy [] = (Inr 1, [row]) \<and>
     complete (toy_libs [JObject []]) toy_legacy ''a.mjpack'' [row] \<and>
     recover (toy_libs [JObject []]) (toy_scan 9) toy_legacy [row] = (Inr 0, [row])"
proof -
  obtain row where run: "recover (toy_libs [JObject []]) (toy_scan 5) toy_legacy [] = (Inr 1, [row])"
    using toy_legacy_recovered by blast
  have "index_from_packs toy_legacy []" "distinct_keys toy_legacy"
    by (simp_all add: index_from_packs_def indexed_ids_def distinct_keys_def toy_legacy_packs)
  from recover_complete [OF run this, of "toy_scan 9"] run show ?thesis
    by (auto simp: toy_legacy_packs toy_scan_def)
qed

end
