(* ===== verification/Watch_Log.thy ===== *)
theory Watch_Log
  imports Rust_Text "HOL-Library.Sublist"
begin

text \<open>
  \<^verbatim>\<open>src/watch_log.rs\<close>: the ring of the collectors' log lines the console polls, and the redaction of
  registered secrets. The clock and the boot id are arguments. The specification is a log that
  forgets nothing; the ring holds its last 500 lines.
\<close>

section \<open>Searching and replacing\<close>

text \<open>\<^verbatim>\<open>str::contains\<close> and \<^verbatim>\<open>str::replace\<close> for a pattern that is not empty; on valid UTF-8 the bytes
  of a pattern match only at character boundaries.\<close>

fun contains :: "string \<Rightarrow> string \<Rightarrow> bool" where
  "contains pat [] = (pat = [])"
| "contains pat (c # cs) = (prefix pat (c # cs) \<or> contains pat cs)"

function replace_all :: "string \<Rightarrow> string \<Rightarrow> string \<Rightarrow> string" where
  "replace_all pat new [] = []"
| "replace_all pat new (c # cs) =
     (if prefix pat (c # cs) then new @ replace_all pat new (drop (length pat - 1) cs) else c # replace_all pat new cs)"
  by pat_completeness auto
termination
  by (relation "measure (\<lambda>(_, _, s). length s)") auto

section \<open>The buffer\<close>

definition watch_log_capacity :: nat where
  "watch_log_capacity = 500"

definition max_message_chars :: nat where
  "max_message_chars = 2048"

definition min_secret_chars :: nat where
  "min_secret_chars = 4"

datatype watch_log_level = Debug | Info | Warn | Error

record watch_log_entry =
  we_seq :: u64
  we_timestamp :: int
  we_level :: watch_log_level
  we_source :: string
  we_message :: string

record watch_log_buffer =
  wb_entries :: "watch_log_entry list"
  wb_next_seq :: u64
  wb_boot_id :: string
  wb_secrets :: "string list"

definition new_buffer :: "string \<Rightarrow> watch_log_buffer" where
  "new_buffer uuid = \<lparr>wb_entries = [], wb_next_seq = 1, wb_boot_id = uuid, wb_secrets = []\<rparr>"

definition boot_id :: "watch_log_buffer \<Rightarrow> string" where
  "boot_id buffer = wb_boot_id buffer"

definition register_secret :: "string \<Rightarrow> watch_log_buffer \<Rightarrow> watch_log_buffer" where
  "register_secret secret buffer =
     (if length (str_chars secret) < min_secret_chars then buffer
      else if secret \<in> set (wb_secrets buffer) then buffer
      else buffer\<lparr>wb_secrets := wb_secrets buffer @ [secret]\<rparr>)"

definition redact_one :: "string \<Rightarrow> string \<Rightarrow> string" where
  "redact_one secret message = (if contains secret message then replace_all secret ''***'' message else message)"

definition redact :: "string list \<Rightarrow> string \<Rightarrow> string" where
  "redact secrets message = fold redact_one secrets message"

text \<open>The message as it is stored: redacted, then cut before character 2048.\<close>

definition stored_message :: "string list \<Rightarrow> string \<Rightarrow> string" where
  "stored_message secrets message = take_chars max_message_chars (redact secrets message)"

definition append_log ::
  "int \<Rightarrow> watch_log_level \<Rightarrow> string \<Rightarrow> string \<Rightarrow> watch_log_buffer \<Rightarrow> watch_log_buffer" where
  "append_log now level source message buffer =
     (let entries = (if length (wb_entries buffer) = watch_log_capacity then tl (wb_entries buffer) else wb_entries buffer)
      in buffer\<lparr>wb_entries := entries @ [\<lparr>we_seq = wb_next_seq buffer, we_timestamp = now, we_level = level,
                  we_source = source, we_message = stored_message (wb_secrets buffer) message\<rparr>],
                wb_next_seq := wb_next_seq buffer + 1\<rparr>)"

text \<open>\<^verbatim>\<open>partition_point\<close> of entries whose numbers ascend.\<close>

definition partition_point :: "('a \<Rightarrow> bool) \<Rightarrow> 'a list \<Rightarrow> nat" where
  "partition_point p xs = length (takeWhile p xs)"

definition entries_after :: "u64 \<Rightarrow> nat \<Rightarrow> watch_log_buffer \<Rightarrow> watch_log_entry list" where
  "entries_after after limit buffer =
     take limit (drop (partition_point (\<lambda>entry. we_seq entry \<le> after) (wb_entries buffer)) (wb_entries buffer))"

section \<open>Redaction\<close>

lemma contains_iff: "contains pat s \<longleftrightarrow> sublist pat s"
  by (induction s) (auto simp: sublist_Cons_right)

lemma replace_prefix:
  "prefix q (replace_all pat new s) \<Longrightarrow> new \<noteq> [] \<Longrightarrow> set q \<inter> set new = {} \<Longrightarrow> prefix q s"
proof (induction pat new s arbitrary: q rule: replace_all.induct)
  case (2 pat new c cs)
  show ?case
  proof (cases "prefix pat (c # cs)")
    case True
    with 2 show ?thesis by (cases q; cases new) auto
  next
    case False
    with 2 show ?thesis by (cases q) auto
  qed
qed simp

lemma sublist_foreign_prefix:
  assumes "sublist q (xs @ ys)" and "set q \<inter> set xs = {}"
  shows "sublist q ys"
proof -
  from assms(1) consider "sublist q xs" | "sublist q ys" | a b where "q = a @ b" "suffix a xs" "prefix b ys"
    by (auto simp: sublist_append)
  then show ?thesis
  proof cases
    case 1
    then have "set q \<subseteq> set xs" by (rule set_mono_sublist)
    then have "set q \<inter> set xs = set q" by (rule inf.absorb1)
    with assms(2) have "q = []" by simp
    then show ?thesis by simp
  next
    case 3
    then have "set a \<subseteq> set xs" by (intro set_mono_suffix)
    then have "set a \<inter> set xs = set a" by (rule inf.absorb1)
    with 3 assms(2) have "a = []" by (simp add: Int_Un_distrib2)
    with 3 show ?thesis by (simp add: prefix_imp_sublist)
  qed
qed

text \<open>A pattern that shares no character with the replacement appears in the result only where it was in
  the text already; the replaced pattern itself never does.\<close>

lemma sublist_replace:
  "sublist q (replace_all pat new s) \<Longrightarrow> new \<noteq> [] \<Longrightarrow> set q \<inter> set new = {} \<Longrightarrow> sublist q s"
proof (induction pat new s rule: replace_all.induct)
  case (2 pat new c cs)
  show ?case
  proof (cases "prefix pat (c # cs)")
    case True
    with "2.prems"(1) have "sublist q (new @ replace_all pat new (drop (length pat - 1) cs))" by simp
    then have "sublist q (replace_all pat new (drop (length pat - 1) cs))"
      using "2.prems"(3) by (rule sublist_foreign_prefix)
    with 2 True have "sublist q (drop (length pat - 1) cs)" by blast
    moreover have "sublist (drop (length pat - 1) cs) (c # cs)"
      using sublist_drop [of "Suc (length pat - 1)" "c # cs"] by simp
    ultimately show ?thesis by (rule sublist_order.order_trans)
  next
    case False
    with "2.prems" consider "prefix q (replace_all pat new (c # cs))" | "sublist q (replace_all pat new cs)"
      by (auto simp: sublist_Cons_right)
    then show ?thesis
    proof cases
      case 1
      with "2.prems" show ?thesis using replace_prefix by (blast intro: prefix_imp_sublist)
    next
      case 2
      with "2.IH"(2) [OF False] "2.prems" show ?thesis by (auto simp: sublist_Cons_right)
    qed
  qed
qed simp

lemma replaced_gone:
  "pat \<noteq> [] \<Longrightarrow> new \<noteq> [] \<Longrightarrow> set pat \<inter> set new = {} \<Longrightarrow> \<not> sublist pat (replace_all pat new s)"
proof (induction pat new s rule: replace_all.induct)
  case (2 pat new c cs)
  show ?case
  proof (cases "prefix pat (c # cs)")
    case True
    with 2 show ?thesis using sublist_foreign_prefix [of pat new] by auto
  next
    case False
    then have "\<not> prefix pat (replace_all pat new (c # cs))"
      using replace_prefix 2 by blast
    with 2 False show ?thesis by (auto simp: sublist_Cons_right)
  qed
qed simp

lemma redact_one_clean:
  assumes "pat \<noteq> []" and "CHR ''*'' \<notin> set pat"
  shows "\<not> contains pat (redact_one pat m)" and "\<not> contains pat m \<Longrightarrow> \<not> contains pat (redact_one secret m)"
  using assms replaced_gone [of pat "''***''" m] sublist_replace [of pat secret "''***''" m]
  by (auto simp: redact_one_def contains_iff)

lemma redact_clean:
  assumes "pat \<noteq> []" and "CHR ''*'' \<notin> set pat"
  shows "\<not> contains pat m \<Longrightarrow> \<not> contains pat (redact secrets m)" and "pat \<in> set secrets \<Longrightarrow> \<not> contains pat (redact secrets m)"
proof -
  have stays: "\<not> contains pat m \<Longrightarrow> \<not> contains pat (fold redact_one secrets m)" for m secrets
    by (induction secrets arbitrary: m) (auto dest: redact_one_clean(2) [OF assms])
  then show "\<not> contains pat m \<Longrightarrow> \<not> contains pat (redact secrets m)" by (simp add: redact_def)
  assume "pat \<in> set secrets"
  then obtain before later where "secrets = before @ pat # later" by (auto simp: in_set_conv_decomp)
  then show "\<not> contains pat (redact secrets m)" using stays redact_one_clean(1) [OF assms] by (simp add: redact_def)
qed

lemma stored_message_clean:
  assumes "pat \<noteq> []" and "CHR ''*'' \<notin> set pat" and "pat \<in> set secrets"
  shows "\<not> contains pat (stored_message secrets m)"
proof -
  let ?cs = "str_chars (redact secrets m)"
  have "concat (take max_message_chars ?cs) @ concat (drop max_message_chars ?cs) = redact secrets m"
    by (simp flip: concat_append)
  then have "sublist (stored_message secrets m) (redact secrets m)"
    unfolding stored_message_def take_chars_def by (metis sublist_appendI append_Nil)
  then show ?thesis
    using redact_clean(2) [OF assms] unfolding contains_iff by (metis sublist_order.order_trans)
qed

section \<open>The log that forgets nothing\<close>

datatype log_op = Append int watch_log_level string string | Register string

fun apply_op :: "log_op \<Rightarrow> watch_log_buffer \<Rightarrow> watch_log_buffer" where
  "apply_op (Append now level source message) buffer = append_log now level source message buffer"
| "apply_op (Register secret) buffer = register_secret secret buffer"

text \<open>The specification: the same without the capacity.\<close>

fun full_op :: "log_op \<Rightarrow> watch_log_buffer \<Rightarrow> watch_log_buffer" where
  "full_op (Append now level source message) full =
     full\<lparr>wb_entries := wb_entries full @ [\<lparr>we_seq = wb_next_seq full, we_timestamp = now, we_level = level,
            we_source = source, we_message = stored_message (wb_secrets full) message\<rparr>],
          wb_next_seq := wb_next_seq full + 1\<rparr>"
| "full_op (Register secret) full = register_secret secret full"

definition window :: "watch_log_buffer \<Rightarrow> watch_log_buffer" where
  "window full = full\<lparr>wb_entries := drop (length (wb_entries full) - watch_log_capacity) (wb_entries full)\<rparr>"

lemma apply_op_refines: "apply_op op (window full) = window (full_op op full)"
proof (cases op)
  case (Append now level source message)
  have tl: "tl (drop n xs) = drop (Suc n) xs" for n and xs :: "watch_log_entry list" by (simp add: drop_Suc tl_drop)
  show ?thesis
  proof (cases "length (wb_entries full) < watch_log_capacity")
    case True
    then show ?thesis by (simp add: Append append_log_def window_def)
  next
    case False
    then have "length (drop (length (wb_entries full) - watch_log_capacity) (wb_entries full)) = watch_log_capacity" by simp
    moreover have "Suc 0 - watch_log_capacity = 0" by (simp add: watch_log_capacity_def)
    ultimately show ?thesis using False by (simp add: Append append_log_def window_def tl Suc_diff_le)
  qed
next
  case (Register secret)
  then show ?thesis by (simp add: register_secret_def window_def)
qed

lemma ops_refine: "fold apply_op ops (window full) = window (fold full_op ops full)"
  by (induction ops arbitrary: full) (simp_all add: apply_op_refines)

definition numbered :: "watch_log_buffer \<Rightarrow> bool" where
  "numbered full \<longleftrightarrow> map we_seq (wb_entries full) = map (\<lambda>i. of_nat (Suc i)) [0..<length (wb_entries full)] \<and>
     wb_next_seq full = of_nat (Suc (length (wb_entries full)))"

lemma numbered_op: "numbered full \<Longrightarrow> numbered (full_op op full)"
  by (cases op) (auto simp: numbered_def register_secret_def)

lemma numbered_run: "numbered (fold full_op ops (new_buffer boot))"
proof -
  have "numbered full \<Longrightarrow> numbered (fold full_op ops full)" for full
    by (induction ops arbitrary: full) (simp_all add: numbered_op)
  then show ?thesis by (simp add: numbered_def new_buffer_def)
qed

lemma takeWhile_window:
  assumes "numbered full" and "length (wb_entries full) < 2 ^ 64 - 1" and "n \<le> unat after"
  shows "length (takeWhile (\<lambda>e. we_seq e \<le> after) (drop n (wb_entries full))) = min (unat after) (length (wb_entries full)) - n"
proof -
  let ?es = "wb_entries full"
  have seq: "unat (we_seq (?es ! i)) = Suc i" if "i < length ?es" for i
  proof -
    have "we_seq (?es ! i) = map we_seq ?es ! i" using that by simp
    also have "\<dots> = of_nat (Suc i)" using that assms(1) by (simp add: numbered_def)
    finally show ?thesis using that assms(2) by (simp add: unat_of_nat take_bit_nat_eq_self del: of_nat_Suc)
  qed
  have le: "we_seq (?es ! i) \<le> after \<longleftrightarrow> i < unat after" if "i < length ?es" for i
    using seq [OF that] by (simp add: word_le_nat_alt less_eq_Suc_le)
  have "takeWhile (\<lambda>e. we_seq e \<le> after) (drop n ?es) = take (min (unat after) (length ?es) - n) (drop n ?es)"
    by (rule takeWhile_eq_take_P_nth) (use assms(3) in \<open>auto simp: le\<close>)
  then show ?thesis by simp
qed

section \<open>Properties\<close>

text \<open>Claim C38: the ring refines the log that forgets nothing: after any operations it holds exactly the last 500 lines of
  it, and a client that polls with the number of the last line it saw, at most 500 lines behind, receives the
  lines that follow it in order, without a gap, a repetition or more than it asked for.\<close>

theorem ring_keeps_last_lines:
  "fold apply_op ops (new_buffer boot) = window (fold full_op ops (new_buffer boot)) \<and>
     (let lines = wb_entries (fold full_op ops (new_buffer boot))
      in length lines < 2 ^ 64 - 1 \<and> length lines \<le> unat after + watch_log_capacity \<longrightarrow>
         entries_after after limit (fold apply_op ops (new_buffer boot)) = take limit (drop (unat after) lines))"
proof -
  let ?full = "fold full_op ops (new_buffer boot)" and ?ring = "fold apply_op ops (new_buffer boot)"
  let ?es = "wb_entries ?full"
  have "window (new_buffer boot) = new_buffer boot" by (simp add: window_def new_buffer_def)
  then have ring: "?ring = window ?full" using ops_refine [of ops "new_buffer boot"] by simp
  have "entries_after after limit ?ring = take limit (drop (unat after) ?es)"
    if small: "length ?es < 2 ^ 64 - 1" and near: "length ?es \<le> unat after + watch_log_capacity"
  proof -
    have near': "length ?es - watch_log_capacity \<le> unat after" using near by simp
    have "entries_after after limit ?ring = take limit (drop (min (unat after) (length ?es)) ?es)"
      using takeWhile_window [OF numbered_run small near'] near'
      by (simp add: entries_after_def partition_point_def ring window_def min_def)
    then show ?thesis by (simp add: min_def)
  qed
  with ring show ?thesis by (simp add: Let_def)
qed

text \<open>Once a secret of at least four characters and without an asterisk is registered, no line logged from then
  on contains it, whatever else is registered and wherever the line is cut.\<close>

theorem registered_secret_never_logged:
  assumes "min_secret_chars \<le> length (str_chars secret)" and "CHR ''*'' \<notin> set secret"
    and "entry \<in> set (wb_entries (fold apply_op ops (register_secret secret buffer)))"
  shows "entry \<in> set (wb_entries buffer) \<or> \<not> contains secret (we_message entry)"
proof -
  have nonempty: "secret \<noteq> []" using assms(1) by (auto simp: min_secret_chars_def)
  have reg: "secret \<in> set (wb_secrets (register_secret secret buffer))"
    "wb_entries (register_secret secret buffer) = wb_entries buffer"
    using assms(1) by (auto simp: register_secret_def)
  have "entry \<in> set (wb_entries b) \<or> \<not> contains secret (we_message entry)"
    if "secret \<in> set (wb_secrets b)" "entry \<in> set (wb_entries (fold apply_op ops b))" for b
    using that
  proof (induction ops arbitrary: b)
    case (Cons op ops)
    have "secret \<in> set (wb_secrets (apply_op op b))"
      using Cons.prems(1) by (cases op) (auto simp: append_log_def register_secret_def Let_def)
    with Cons have "entry \<in> set (wb_entries (apply_op op b)) \<or> \<not> contains secret (we_message entry)" by simp
    moreover have "set (tl (wb_entries b)) \<subseteq> set (wb_entries b)" by (cases "wb_entries b") auto
    ultimately show ?case
      using stored_message_clean [OF nonempty assms(2) Cons.prems(1)]
      by (cases op) (auto simp: append_log_def register_secret_def Let_def split: if_splits)
  qed simp
  from this [OF reg(1) assms(3)] show ?thesis by (simp add: reg)
qed

text \<open>Registration is checked for whole secrets only: of a secret that contains an earlier one the rest stays.\<close>

lemma longer_secret_shows_its_tail:
  "we_message (last (wb_entries (append_log 0 Info ''module'' ''login pass12ab''
     (register_secret ''pass12ab'' (register_secret ''pass'' (new_buffer boot)))))) = ''login ***12ab''"
  by (simp add: append_log_def register_secret_def new_buffer_def stored_message_def redact_def redact_one_def take_chars_def
      str_chars_Cons_ascii byte_of_char_def min_secret_chars_def max_message_chars_def watch_log_capacity_def)

definition two_lines :: "log_op list" where
  "two_lines = [Append 0 Info ''s'' ''one'', Append 1 Warn ''s'' ''two'']"

lemma two_lines_full:
  "map we_message (wb_entries (fold full_op two_lines (new_buffer ''b''))) = [''one'', ''two'']"
  by (simp add: two_lines_def new_buffer_def stored_message_def redact_def take_chars_def str_chars_Cons_ascii
      byte_of_char_def max_message_chars_def)

theorem ring_keeps_last_lines_witness:
  "map we_message (entries_after 1 5 (fold apply_op two_lines (new_buffer ''b''))) = [''two'']"
proof -
  let ?lines = "wb_entries (fold full_op two_lines (new_buffer ''b''))"
  have "length ?lines = 2" using arg_cong [OF two_lines_full, of length] by simp
  then have "entries_after 1 5 (fold apply_op two_lines (new_buffer ''b'')) = take 5 (drop 1 ?lines)"
    using conjunct2 [OF ring_keeps_last_lines [of two_lines "''b''" 1 5]] by (simp add: watch_log_capacity_def Let_def)
  then show ?thesis using two_lines_full by (simp flip: take_map drop_map)
qed

theorem registered_secret_never_logged_witness:
  "\<not> contains ''pass'' (we_message (last (wb_entries (append_log 0 Info ''s'' ''my pass'' (register_secret ''pass'' (new_buffer ''b''))))))"
proof -
  let ?b = "append_log 0 Info ''s'' ''my pass'' (register_secret ''pass'' (new_buffer ''b''))"
  have "last (wb_entries ?b) \<in> set (wb_entries ?b)" by (simp add: append_log_def Let_def)
  moreover have "min_secret_chars \<le> length (str_chars ''pass'')"
    by (simp add: min_secret_chars_def str_chars_Cons_ascii byte_of_char_def)
  ultimately show ?thesis
    using registered_secret_never_logged [of "''pass''" "last (wb_entries ?b)" "[Append 0 Info ''s'' ''my pass'']" "new_buffer ''b''"]
    by (auto simp: new_buffer_def)
qed

end
