(* ===== verification/Ascii_Case.thy ===== *)
theory Ascii_Case
  imports Rust_Text
begin

text \<open>
  \<^verbatim>\<open>to_ascii_lowercase\<close> and \<^verbatim>\<open>eq_ignore_ascii_case\<close>, and the search and update of the first element of a
  \<^verbatim>\<open>Vec\<close> that satisfies a condition, shared by the account stores.
\<close>

section \<open>ASCII case\<close>

definition lower_char :: "char \<Rightarrow> char" where
  "lower_char c = (let n = of_char c :: nat in if 65 \<le> n \<and> n \<le> 90 then char_of (n + 32) else c)"

definition ascii_lower :: "string \<Rightarrow> string" where
  "ascii_lower s = map lower_char s"

definition eq_ignore_ascii_case :: "string \<Rightarrow> string \<Rightarrow> bool" where
  "eq_ignore_ascii_case s t \<longleftrightarrow> ascii_lower s = ascii_lower t"

lemma lower_char_idem [simp]: "lower_char (lower_char c) = lower_char c"
proof (cases "65 \<le> (of_char c :: nat) \<and> (of_char c :: nat) \<le> 90")
  case True
  then have "of_char (char_of ((of_char c :: nat) + 32)) = (of_char c :: nat) + 32" by simp
  with True show ?thesis by (simp add: lower_char_def Let_def)
qed (auto simp: lower_char_def Let_def)

lemma ascii_lower_idem [simp]: "ascii_lower (ascii_lower s) = ascii_lower s"
  by (simp add: ascii_lower_def)

lemma length_ascii_lower [simp]: "length (ascii_lower s) = length s"
  by (simp add: ascii_lower_def)

lemma eq_ignore_ascii_case_refl [simp]: "eq_ignore_ascii_case s s"
  by (simp add: eq_ignore_ascii_case_def)

section \<open>The first match\<close>

text \<open>\<^verbatim>\<open>iter_mut().find(p)\<close> followed by a change of what it found.\<close>

fun update_first :: "('a \<Rightarrow> bool) \<Rightarrow> ('a \<Rightarrow> 'a) \<Rightarrow> 'a list \<Rightarrow> 'a list" where
  "update_first p f [] = []"
| "update_first p f (x # xs) = (if p x then f x # xs else x # update_first p f xs)"

lemma length_update_first [simp]: "length (update_first p f xs) = length xs"
  by (induction xs) auto

lemma map_update_first: "(\<And>x. p x \<Longrightarrow> g (f x) = g x) \<Longrightarrow> map g (update_first p f xs) = map g xs"
  by (induction xs) auto

lemma update_first_keeps: "x \<in> set xs \<Longrightarrow> \<not> p x \<Longrightarrow> x \<in> set (update_first p f xs)"
  by (induction xs) auto

lemma set_update_first: "y \<in> set (update_first p f xs) \<Longrightarrow> y \<in> set xs \<or> (\<exists>x \<in> set xs. p x \<and> y = f x)"
  by (induction xs) (auto split: if_splits)

lemma find_update_first: "find p xs = Some x \<Longrightarrow> f x \<in> set (update_first p f xs)"
  by (induction xs) (auto split: if_splits)

lemma update_first_none: "find p xs = None \<Longrightarrow> update_first p f xs = xs"
  by (induction xs) (auto split: if_splits)

lemma find_Some_in: "find p xs = Some x \<Longrightarrow> x \<in> set xs \<and> p x"
  by (induction xs) (auto split: if_splits)

lemma find_update_other:
  "(\<And>x. p x \<Longrightarrow> \<not> q x \<and> \<not> q (f x)) \<Longrightarrow> find q (update_first p f xs) = find q xs"
  by (induction xs) auto

text \<open>Where a key is unique, the first match of it is the only one.\<close>

lemma find_unique: "distinct (map key xs) \<Longrightarrow> x \<in> set xs \<Longrightarrow> find (\<lambda>y. key y = key x) xs = Some x"
  by (induction xs) auto

lemma update_first_unique:
  "distinct (map key xs) \<Longrightarrow> update_first (\<lambda>y. key y = k) f xs = map (\<lambda>y. if key y = k then f y else y) xs"
proof (induction xs)
  case (Cons x xs)
  from Cons.prems have "key x \<notin> key ` set xs" by simp
  then have "key x' \<noteq> key x" if "x' \<in> set xs" for x' using that by (metis imageI)
  then have "key x = k \<Longrightarrow> map (\<lambda>y. if key y = k then f y else y) xs = xs" by (intro map_idI) auto
  with Cons show ?case by auto
qed simp

end
