(* ===== verification/Auth.thy ===== *)
theory Auth
  imports Ascii_Case
begin

text \<open>
  \<^verbatim>\<open>src/auth.rs\<close>: the users of the console, their passwords, sessions and e-mail verification.
  Each operation acts on the store: the document in memory, the document on disk and the sessions.
  SHA-256, HMAC and the hexadecimal codec are arguments (\<open>crypto\<close>), as are the clock, the random ids and
  whether a write of the file succeeds. Times are in nanoseconds. An operation that checks under one
  lock and acts under another is given both stores: \<open>seen\<close> as the check finds it, and the store as
  the write lock finds it, with whatever other operations did in between.
\<close>

section \<open>Data\<close>

datatype user_role = Admin | Member

datatype user_status = Pending_Verification | Active | Disabled

record user_view =
  uv_id :: string
  uv_email :: string
  uv_name :: string
  uv_role :: user_role
  uv_status :: user_status
  uv_email_verified_at :: "int option"
  uv_last_login_at :: "int option"
  uv_created_at :: int

record stored_user =
  su_id :: string
  su_email :: string
  su_name :: string
  su_role :: user_role
  su_status :: user_status
  su_password_hash :: string
  su_email_verified_at :: "int option"
  su_last_login_at :: "int option"
  su_created_at :: int

definition view_of :: "stored_user \<Rightarrow> user_view" where
  "view_of user = \<lparr>uv_id = su_id user, uv_email = su_email user, uv_name = su_name user, uv_role = su_role user,
     uv_status = su_status user, uv_email_verified_at = su_email_verified_at user, uv_last_login_at = su_last_login_at user,
     uv_created_at = su_created_at user\<rparr>"

record verification =
  vf_user_id :: string
  vf_token_hash :: string
  vf_expires_at :: int

record stored_auth =
  st_registration_enabled :: bool
  st_users :: "stored_user list"
  st_verifications :: "verification list"

record session =
  ss_user_id :: string
  ss_expires_at :: int

record update_user_request =
  uq_name :: "string option"
  uq_role :: "user_role option"
  uq_status :: "user_status option"

datatype auth_error =
    Invalid_Credentials | Email_Not_Verified | Account_Disabled | Registration_Disabled | Email_Unavailable
  | Email_Exists | Invalid_Verification | Not_Found | Forbidden | Invalid_Input | Storage_Io | Storage_Json | Email_Failed

record auth_store =
  as_file :: "stored_auth option"
  as_state :: stored_auth
  as_sessions :: "string \<rightharpoonup> session"
  as_email_api_url :: "string option"

record crypto =
  cy_token_digest :: "string \<Rightarrow> string"
  cy_hmac :: "u8 list \<Rightarrow> u8 list \<Rightarrow> u8 list"
  cy_hex :: "u8 list \<Rightarrow> string"
  cy_unhex :: "string \<Rightarrow> u8 list option"

text \<open>What one call draws from outside: two readings of the clock, a new id, a new token, a salt, and
  whether the file could be written.\<close>

record auth_env =
  av_now :: int
  av_later :: int
  av_uuid :: string
  av_token :: string
  av_salt :: "u8 list"
  av_persisted :: bool

definition hours :: "int \<Rightarrow> int" where
  "hours n = n * 3600 * 10 ^ 9"

definition days :: "int \<Rightarrow> int" where
  "days n = hours (24 * n)"

section \<open>Checks\<close>

definition normalize_email :: "string \<Rightarrow> auth_error + string" where
  "normalize_email s =
     (let v = ascii_lower (str_trim s)
      in if 254 < length v \<or> CHR ''@'' \<notin> set v \<or> (v \<noteq> [] \<and> hd v = CHR ''@'') then Inl Invalid_Input else Inr v)"

definition validate_name :: "string \<Rightarrow> auth_error + string" where
  "validate_name s =
     (let v = str_trim s in if v = [] \<or> 80 < length (str_chars v) then Inl Invalid_Input else Inr v)"

definition validate_password :: "string \<Rightarrow> auth_error + unit" where
  "validate_password s = (if length s < 10 \<or> 128 < length s then Inl Invalid_Input else Inr ())"

definition non_empty :: "string option \<Rightarrow> string option" where
  "non_empty x = (case x of None \<Rightarrow> None | Some v \<Rightarrow> if str_trim v = [] then None else Some (str_trim v))"

section \<open>Passwords\<close>

fun pbkdf2_rounds :: "crypto \<Rightarrow> u8 list \<Rightarrow> nat \<Rightarrow> u8 list \<Rightarrow> u8 list \<Rightarrow> u8 list" where
  "pbkdf2_rounds cy password 0 previous result = result"
| "pbkdf2_rounds cy password (Suc n) previous result =
     (let next_block = cy_hmac cy password previous
      in pbkdf2_rounds cy password n next_block (map2 xor result next_block))"

definition pbkdf2_sha256 :: "crypto \<Rightarrow> u8 list \<Rightarrow> u8 list \<Rightarrow> nat \<Rightarrow> u8 list" where
  "pbkdf2_sha256 cy password salt iterations =
     (let first = cy_hmac cy password (salt @ [0, 0, 0, 1])
      in pbkdf2_rounds cy password (iterations - 1) first first)"

definition hash_password :: "crypto \<Rightarrow> u8 list \<Rightarrow> string \<Rightarrow> auth_error + string" where
  "hash_password cy salt s =
     attempt (validate_password s) (\<lambda>_.
       let iterations = 120000;
           hash = pbkdf2_sha256 cy (as_bytes s) salt iterations
       in Inr (''pbkdf2-sha256$'' @ show_nat iterations @ ''$'' @ cy_hex cy salt @ ''$'' @ cy_hex cy hash))"

definition verify_password :: "crypto \<Rightarrow> string \<Rightarrow> string \<Rightarrow> auth_error + unit" where
  "verify_password cy hash s =
     (if 128 < length s then Inl Invalid_Credentials
      else case split_on CHR ''$'' hash of
             [scheme, rounds, salt, expected] \<Rightarrow>
               if scheme \<noteq> ''pbkdf2-sha256'' then Inl Invalid_Credentials
               else (case parse_u32 rounds of
                       None \<Rightarrow> Inl Invalid_Credentials
                     | Some iterations \<Rightarrow>
                         if \<not> (10000 \<le> iterations \<and> iterations \<le> 1000000) then Inl Invalid_Credentials
                         else (case (cy_unhex cy salt, cy_unhex cy expected) of
                                 (Some salt', Some expected') \<Rightarrow>
                                   if expected' = pbkdf2_sha256 cy (as_bytes s) salt' iterations then Inr ()
                                   else Inl Invalid_Credentials
                               | _ \<Rightarrow> Inl Invalid_Credentials))
           | _ \<Rightarrow> Inl Invalid_Credentials)"

section \<open>The store\<close>

definition persist :: "auth_env \<Rightarrow> auth_store \<Rightarrow> (auth_error + unit) \<times> auth_store" where
  "persist av store =
     (if av_persisted av then (Inr (), store\<lparr>as_file := Some (as_state store)\<rparr>) else (Inl Storage_Io, store))"

datatype stored_file = Found stored_auth | Missing | Unreadable auth_error

text \<open>\<^verbatim>\<open>AuthStore::new\<close>: the file, or a document with one administrator written at once.\<close>

definition new_store ::
  "crypto \<Rightarrow> auth_env \<Rightarrow> stored_file \<Rightarrow> string \<Rightarrow> string \<Rightarrow> string option \<Rightarrow> auth_error + auth_store" where
  "new_store cy av found admin_email admin_password email_api_url =
     (case found of
        Found state \<Rightarrow> Inr \<lparr>as_file = Some state, as_state = state, as_sessions = Map.empty, as_email_api_url = non_empty email_api_url\<rparr>
      | Unreadable e \<Rightarrow> Inl e
      | Missing \<Rightarrow>
          attempt (normalize_email admin_email) (\<lambda>email.
          attempt (hash_password cy (av_salt av) admin_password) (\<lambda>hash.
            let admin = \<lparr>su_id = av_uuid av, su_email = email, su_name = ''Administrator'', su_role = Admin, su_status = Active,
                  su_password_hash = hash, su_email_verified_at = Some (av_now av), su_last_login_at = None, su_created_at = av_later av\<rparr>;
                state = \<lparr>st_registration_enabled = False, st_users = [admin], st_verifications = []\<rparr>
            in case persist av \<lparr>as_file = None, as_state = state, as_sessions = Map.empty, as_email_api_url = non_empty email_api_url\<rparr> of
                 (Inl e, _) \<Rightarrow> Inl e
               | (Inr _, store) \<Rightarrow> Inr store)))"

definition set_users :: "stored_user list \<Rightarrow> auth_store \<Rightarrow> auth_store" where
  "set_users users store = store\<lparr>as_state := (as_state store)\<lparr>st_users := users\<rparr>\<rparr>"

definition users_of :: "auth_store \<Rightarrow> stored_user list" where
  "users_of store = st_users (as_state store)"

section \<open>Sessions\<close>

definition login ::
  "crypto \<Rightarrow> auth_env \<Rightarrow> string \<Rightarrow> string \<Rightarrow> auth_store \<Rightarrow> (auth_error + string \<times> int \<times> user_view) \<times> auth_store" where
  "login cy av email password store =
     (case normalize_email email of
        Inl e \<Rightarrow> (Inl e, store)
      | Inr email' \<Rightarrow>
          (case find (\<lambda>user. su_email user = email') (users_of store) of
             None \<Rightarrow> (Inl Invalid_Credentials, store)
           | Some user \<Rightarrow>
               (case verify_password cy (su_password_hash user) password of
                  Inl e \<Rightarrow> (Inl e, store)
                | Inr _ \<Rightarrow>
                    (case su_status user of
                       Pending_Verification \<Rightarrow> (Inl Email_Not_Verified, store)
                     | Disabled \<Rightarrow> (Inl Account_Disabled, store)
                     | Active \<Rightarrow>
                         let seen = (\<lambda>u. u\<lparr>su_last_login_at := Some (av_now av)\<rparr>);
                             store1 = set_users (update_first (\<lambda>u. su_email u = email') seen (users_of store)) store;
                             view = view_of (seen user)
                         in case persist av store1 of
                              (Inl e, store2) \<Rightarrow> (Inl e, store2)
                            | (Inr _, store2) \<Rightarrow>
                                let expires_at = av_later av + days 7
                                in (Inr (av_token av, expires_at, view),
                                    store2\<lparr>as_sessions := (as_sessions store2)(cy_token_digest cy (av_token av) \<mapsto>
                                      \<lparr>ss_user_id = uv_id view, ss_expires_at = expires_at\<rparr>)\<rparr>)))))"

definition user_for_session :: "crypto \<Rightarrow> int \<Rightarrow> string \<Rightarrow> auth_store \<Rightarrow> auth_error + user_view" where
  "user_for_session cy now token store =
     (case as_sessions store (cy_token_digest cy token) of
        None \<Rightarrow> Inl Invalid_Credentials
      | Some session \<Rightarrow>
          if ss_expires_at session \<le> now then Inl Invalid_Credentials
          else (case find (\<lambda>user. su_id user = ss_user_id session) (users_of store) of
                  None \<Rightarrow> Inl Invalid_Credentials
                | Some user \<Rightarrow> if su_status user \<noteq> Active then Inl Account_Disabled else Inr (view_of user)))"

definition logout :: "crypto \<Rightarrow> string \<Rightarrow> auth_store \<Rightarrow> auth_store" where
  "logout cy token store = store\<lparr>as_sessions := (as_sessions store)(cy_token_digest cy token := None)\<rparr>"

definition require_admin :: "crypto \<Rightarrow> int \<Rightarrow> string \<Rightarrow> auth_store \<Rightarrow> auth_error + user_view" where
  "require_admin cy now token store =
     attempt (user_for_session cy now token store) (\<lambda>user. if uv_role user \<noteq> Admin then Inl Forbidden else Inr user)"

section \<open>Registration\<close>

text \<open>\<^verbatim>\<open>register\<close> up to the delivery of the mail, and what follows it.\<close>

definition register_begin ::
  "crypto \<Rightarrow> auth_env \<Rightarrow> string \<Rightarrow> string \<Rightarrow> string \<Rightarrow> auth_store \<Rightarrow> auth_store \<Rightarrow> (auth_error + string) \<times> auth_store" where
  "register_begin cy av name email password seen store =
     (if \<not> st_registration_enabled (as_state seen) then (Inl Registration_Disabled, store)
      else if as_email_api_url store = None then (Inl Email_Unavailable, store)
      else case attempt (validate_password password) (\<lambda>_. attempt (normalize_email email) (\<lambda>email'.
                  attempt (validate_name name) (\<lambda>name'. Inr (email', name')))) of
             Inl e \<Rightarrow> (Inl e, store)
           | Inr (email', name') \<Rightarrow>
               if \<exists>user \<in> set (users_of store). su_email user = email' then (Inl Email_Exists, store)
               else (case hash_password cy (av_salt av) password of
                       Inl e \<Rightarrow> (Inl e, store)
                     | Inr hash \<Rightarrow>
                         let user = \<lparr>su_id = av_uuid av, su_email = email', su_name = name', su_role = Member,
                               su_status = Pending_Verification, su_password_hash = hash, su_email_verified_at = None,
                               su_last_login_at = None, su_created_at = av_now av\<rparr>;
                             verification = \<lparr>vf_user_id = av_uuid av, vf_token_hash = cy_token_digest cy (av_token av),
                               vf_expires_at = av_later av + hours 24\<rparr>;
                             state = as_state store;
                             store1 = store\<lparr>as_state := state\<lparr>st_users := st_users state @ [user],
                               st_verifications := st_verifications state @ [verification]\<rparr>\<rparr>
                         in case persist av store1 of
                              (Inl e, store2) \<Rightarrow> (Inl e, store2)
                            | (Inr _, store2) \<Rightarrow> (Inr (av_uuid av), store2)))"

definition register_end :: "auth_env \<Rightarrow> string \<Rightarrow> bool \<Rightarrow> auth_store \<Rightarrow> (auth_error + unit) \<times> auth_store" where
  "register_end av user_id delivered store =
     (if delivered then (Inr (), store)
      else
        let state = as_state store;
            store1 = store\<lparr>as_state := state\<lparr>st_users := filter (\<lambda>user. su_id user \<noteq> user_id) (st_users state),
              st_verifications := filter (\<lambda>v. vf_user_id v \<noteq> user_id) (st_verifications state)\<rparr>\<rparr>
        in case persist av store1 of
             (Inl e, store2) \<Rightarrow> (Inl e, store2)
           | (Inr _, store2) \<Rightarrow> (Inl Email_Failed, store2))"

definition verify_email :: "crypto \<Rightarrow> auth_env \<Rightarrow> string \<Rightarrow> auth_store \<Rightarrow> (auth_error + unit) \<times> auth_store" where
  "verify_email cy av token store =
     (case find (\<lambda>v. vf_token_hash v = cy_token_digest cy token \<and> av_now av < vf_expires_at v) (st_verifications (as_state store)) of
        None \<Rightarrow> (Inl Invalid_Verification, store)
      | Some verification \<Rightarrow>
          (case find (\<lambda>user. su_id user = vf_user_id verification) (users_of store) of
             None \<Rightarrow> (Inl Invalid_Verification, store)
           | Some _ \<Rightarrow>
               let state = as_state store;
                   activate = (\<lambda>user. user\<lparr>su_status := Active, su_email_verified_at := Some (av_later av)\<rparr>)
               in persist av (store\<lparr>as_state := state\<lparr>
                    st_users := update_first (\<lambda>user. su_id user = vf_user_id verification) activate (st_users state),
                    st_verifications := filter (\<lambda>v. vf_user_id v \<noteq> vf_user_id verification) (st_verifications state)\<rparr>\<rparr>)))"

section \<open>Administration\<close>

definition list_users :: "crypto \<Rightarrow> int \<Rightarrow> string \<Rightarrow> auth_store \<Rightarrow> auth_error + user_view list" where
  "list_users cy now token store = attempt (require_admin cy now token store) (\<lambda>_. Inr (map view_of (users_of store)))"

definition create_user ::
  "crypto \<Rightarrow> auth_env \<Rightarrow> string \<Rightarrow> string \<Rightarrow> string \<Rightarrow> string \<Rightarrow> user_role \<Rightarrow> auth_store \<Rightarrow> auth_store \<Rightarrow>
   (auth_error + user_view) \<times> auth_store" where
  "create_user cy av token name email password role seen store =
     (case attempt (require_admin cy (av_now av) token seen) (\<lambda>_. attempt (validate_password password) (\<lambda>_. normalize_email email)) of
        Inl e \<Rightarrow> (Inl e, store)
      | Inr email' \<Rightarrow>
          if \<exists>user \<in> set (users_of store). su_email user = email' then (Inl Email_Exists, store)
          else (case attempt (validate_name name) (\<lambda>name'. attempt (hash_password cy (av_salt av) password) (\<lambda>hash. Inr (name', hash))) of
                  Inl e \<Rightarrow> (Inl e, store)
                | Inr (name', hash) \<Rightarrow>
                    let user = \<lparr>su_id = av_uuid av, su_email = email', su_name = name', su_role = role, su_status = Active,
                          su_password_hash = hash, su_email_verified_at = Some (av_now av), su_last_login_at = None,
                          su_created_at = av_later av\<rparr>
                    in case persist av (set_users (users_of store @ [user]) store) of
                         (Inl e, store1) \<Rightarrow> (Inl e, store1)
                       | (Inr _, store1) \<Rightarrow> (Inr (view_of user), store1)))"

text \<open>\<^verbatim>\<open>update_user\<close> after its check, under the write lock, for the administrator \<open>admin\<close>.\<close>

definition changed_user :: "update_user_request \<Rightarrow> string \<Rightarrow> stored_user \<Rightarrow> stored_user" where
  "changed_user request name user =
     user\<lparr>su_name := name,
       su_role := (case uq_role request of None \<Rightarrow> su_role user | Some role \<Rightarrow> role),
       su_status := (case uq_status request of None \<Rightarrow> su_status user | Some status \<Rightarrow> status)\<rparr>"

definition update_user_locked ::
  "auth_env \<Rightarrow> user_view \<Rightarrow> string \<Rightarrow> update_user_request \<Rightarrow> auth_store \<Rightarrow> (auth_error + user_view) \<times> auth_store" where
  "update_user_locked av admin ident request store =
     (case find (\<lambda>user. su_id user = ident) (users_of store) of
        None \<Rightarrow> (Inl Not_Found, store)
      | Some user \<Rightarrow>
          if su_id user = uv_id admin \<and> uq_status request = Some Disabled then (Inl Invalid_Input, store)
          else if su_id user = uv_id admin \<and> uq_role request = Some Member then (Inl Invalid_Input, store)
          else (case (case uq_name request of None \<Rightarrow> Inr (su_name user) | Some name \<Rightarrow> validate_name name) of
                  Inl e \<Rightarrow> (Inl e, store)
                | Inr name \<Rightarrow>
                    (case persist av (set_users (update_first (\<lambda>u. su_id u = ident) (changed_user request name) (users_of store)) store) of
                       (Inl e, store1) \<Rightarrow> (Inl e, store1)
                     | (Inr _, store1) \<Rightarrow> (Inr (view_of (changed_user request name user)), store1))))"

definition update_user ::
  "crypto \<Rightarrow> auth_env \<Rightarrow> string \<Rightarrow> string \<Rightarrow> update_user_request \<Rightarrow> auth_store \<Rightarrow> auth_store \<Rightarrow>
   (auth_error + user_view) \<times> auth_store" where
  "update_user cy av token ident request seen store =
     (case require_admin cy (av_now av) token seen of
        Inl e \<Rightarrow> (Inl e, store)
      | Inr admin \<Rightarrow> update_user_locked av admin ident request store)"

definition registration_status :: "auth_store \<Rightarrow> bool \<times> bool" where
  "registration_status store = (st_registration_enabled (as_state store), as_email_api_url store \<noteq> None)"

definition settings :: "crypto \<Rightarrow> int \<Rightarrow> string \<Rightarrow> auth_store \<Rightarrow> auth_error + (bool \<times> bool)" where
  "settings cy now token store = attempt (require_admin cy now token store) (\<lambda>_. Inr (registration_status store))"

definition update_settings ::
  "crypto \<Rightarrow> auth_env \<Rightarrow> string \<Rightarrow> bool \<Rightarrow> auth_store \<Rightarrow> auth_store \<Rightarrow> (auth_error + (bool \<times> bool)) \<times> auth_store" where
  "update_settings cy av token registration_enabled seen store =
     (case require_admin cy (av_now av) token seen of
        Inl e \<Rightarrow> (Inl e, store)
      | Inr _ \<Rightarrow>
          if registration_enabled \<and> as_email_api_url store = None then (Inl Email_Unavailable, store)
          else (case persist av (store\<lparr>as_state := (as_state store)\<lparr>st_registration_enabled := registration_enabled\<rparr>\<rparr>) of
                  (Inl e, store1) \<Rightarrow> (Inl e, store1)
                | (Inr _, store1) \<Rightarrow> (Inr (registration_status store1), store1)))"

end
