(* ===== verification/Auth_Correct.thy ===== *)
theory Auth_Correct
  imports Auth
begin

text \<open>
  The console's user store over every sequence of operations and restarts: accounts stay unique and well
  formed in memory and on disk, an administrator keeps access, sessions live exactly as long as they should,
  and a stored password hash accepts its password.
\<close>

section \<open>Operations and reachable stores\<close>

text \<open>One operation of a sequence is one section under the write lock. An operation that checked before
  carries the store it checked, which may be any store: the sequences contain every interleaving.\<close>

datatype auth_op =
    Login auth_env string string
  | Logout string
  | Register_Begin auth_store auth_env string string string
  | Register_End auth_env string bool
  | Verify_Email auth_env string
  | Create_User auth_store auth_env string string string string user_role
  | Update_User auth_store auth_env string string update_user_request
  | Update_Settings auth_store auth_env string bool

fun apply_auth :: "crypto \<Rightarrow> auth_op \<Rightarrow> auth_store \<Rightarrow> auth_store" where
  "apply_auth cy (Login av email password) store = snd (login cy av email password store)"
| "apply_auth cy (Logout token) store = logout cy token store"
| "apply_auth cy (Register_Begin seen av name email password) store = snd (register_begin cy av name email password seen store)"
| "apply_auth cy (Register_End av user_id delivered) store = snd (register_end av user_id delivered store)"
| "apply_auth cy (Verify_Email av token) store = snd (verify_email cy av token store)"
| "apply_auth cy (Create_User seen av token name email password role) store =
     snd (create_user cy av token name email password role seen store)"
| "apply_auth cy (Update_User seen av token ident request) store = snd (update_user cy av token ident request seen store)"
| "apply_auth cy (Update_Settings seen av token enabled) store = snd (update_settings cy av token enabled seen store)"

text \<open>From a first start on an empty directory, by allowed operations and by restarts from the file.\<close>

inductive auth_reachable :: "crypto \<Rightarrow> (auth_op \<Rightarrow> auth_store \<Rightarrow> bool) \<Rightarrow> auth_store \<Rightarrow> bool" for cy allowed where
  created: "new_store cy av Missing email password url = Inr store \<Longrightarrow> auth_reachable cy allowed store"
| restarted: "auth_reachable cy allowed store \<Longrightarrow> as_file store = Some state \<Longrightarrow>
    new_store cy av (Found state) email password url = Inr store' \<Longrightarrow> auth_reachable cy allowed store'"
| operated: "auth_reachable cy allowed store \<Longrightarrow> allowed op store \<Longrightarrow> auth_reachable cy allowed (apply_auth cy op store)"

lemma persist_effect:
  "persist av store = (r, store') \<Longrightarrow>
     as_state store' = as_state store \<and> as_sessions store' = as_sessions store \<and> as_email_api_url store' = as_email_api_url store \<and>
     (as_file store' = as_file store \<or> as_file store' = Some (as_state store))"
  by (auto simp: persist_def split: if_splits)

lemma persist_state [simp]: "as_state (snd (persist av store)) = as_state store"
  by (simp add: persist_def)

lemma persist_file: "as_file (snd (persist av store)) = as_file store \<or> as_file (snd (persist av store)) = Some (as_state store)"
  by (simp add: persist_def)

lemma set_users_simps [simp]:
  "as_file (set_users users store) = as_file store" "st_users (as_state (set_users users store)) = users"
  by (simp_all add: set_users_def)

text \<open>The file only ever becomes the document the same operation leaves in memory.\<close>

lemma file_follows:
  "as_file (apply_auth cy op store) = as_file store \<or> as_file (apply_auth cy op store) = Some (as_state (apply_auth cy op store))"
proof (cases op)
  case (Login av email password)
  then show ?thesis by (auto simp: login_def Let_def persist_def split: sum.splits option.splits user_status.splits)
next
  case (Register_Begin seen av name email password)
  then show ?thesis by (auto simp: register_begin_def Let_def persist_def split: sum.splits)
next
  case (Register_End av user_id delivered)
  then show ?thesis by (auto simp: register_end_def Let_def persist_def)
next
  case (Verify_Email av token)
  then show ?thesis by (auto simp: verify_email_def Let_def persist_def split: option.splits)
next
  case (Create_User seen av token name email password role)
  then show ?thesis by (auto simp: create_user_def Let_def persist_def split: sum.splits)
next
  case (Update_User seen av token ident request)
  then show ?thesis by (auto simp: update_user_def update_user_locked_def Let_def persist_def split: sum.splits option.splits)
next
  case (Update_Settings seen av token enabled)
  then show ?thesis by (auto simp: update_settings_def Let_def persist_def split: sum.splits)
qed (simp add: logout_def)

text \<open>What holds of the first document and is kept by every allowed operation holds of the document in
  memory and of the file.\<close>

locale document_invariant =
  fixes cy :: crypto and allowed :: "auth_op \<Rightarrow> auth_store \<Rightarrow> bool" and good :: "stored_auth \<Rightarrow> bool"
  assumes first_good: "new_store cy av Missing email password url = Inr store \<Longrightarrow> good (as_state store)"
    and kept_good: "good (as_state store) \<Longrightarrow> allowed op store \<Longrightarrow> good (as_state (apply_auth cy op store))"
begin

lemma always_good: "auth_reachable cy allowed store \<Longrightarrow> good (as_state store) \<and> (\<forall>state. as_file store = Some state \<longrightarrow> good state)"
proof (induction rule: auth_reachable.induct)
  case (created av email password url store)
  have "as_file store = Some (as_state store)"
    using created by (auto simp: new_store_def persist_def Let_def result_simps split: if_splits)
  with first_good [OF created] show ?case by simp
next
  case (restarted store state av email password url store')
  then have "as_state store' = state" "as_file store' = Some state" by (auto simp: new_store_def)
  with restarted.IH restarted.hyps(2) show ?case by simp
next
  case (operated store op)
  then have "good (as_state (apply_auth cy op store))" using kept_good by blast
  with operated.IH show ?case using file_follows [of cy op store] by auto
qed

end

section \<open>Well-formed documents\<close>

definition email_ok :: "string \<Rightarrow> bool" where
  "email_ok email \<longleftrightarrow> ascii_lower email = email \<and> length email \<le> 254 \<and> CHR ''@'' \<in> set email \<and> hd email \<noteq> CHR ''@''"

definition document_ok :: "stored_auth \<Rightarrow> bool" where
  "document_ok state \<longleftrightarrow> distinct (map su_id (st_users state)) \<and> distinct (map su_email (st_users state)) \<and>
     (\<forall>user \<in> set (st_users state). email_ok (su_email user))"

text \<open>A random id is one no user has.\<close>

definition fresh_op :: "auth_op \<Rightarrow> auth_store \<Rightarrow> bool" where
  "fresh_op op store =
     (case op of
        Register_Begin _ av _ _ _ \<Rightarrow> av_uuid av \<notin> su_id ` set (users_of store)
      | Create_User _ av _ _ _ _ _ \<Rightarrow> av_uuid av \<notin> su_id ` set (users_of store)
      | _ \<Rightarrow> True)"

lemma normalize_email_ok: "normalize_email s = Inr email \<Longrightarrow> email_ok email"
  by (auto simp: normalize_email_def email_ok_def Let_def split: if_splits)

lemma document_update:
  "document_ok state \<Longrightarrow> (\<And>u. su_id (f u) = su_id u \<and> su_email (f u) = su_email u) \<Longrightarrow>
     document_ok (state\<lparr>st_users := update_first p f (st_users state)\<rparr>)"
  by (auto simp: document_ok_def map_update_first dest!: set_update_first)

lemma document_more [simp]:
  "document_ok (state\<lparr>st_verifications := v\<rparr>) = document_ok state" "document_ok (state\<lparr>st_registration_enabled := b\<rparr>) = document_ok state"
  by (simp_all add: document_ok_def)

lemma document_append:
  "document_ok state \<Longrightarrow> su_id user \<notin> su_id ` set (st_users state) \<Longrightarrow> \<forall>u \<in> set (st_users state). su_email u \<noteq> su_email user \<Longrightarrow>
     email_ok (su_email user) \<Longrightarrow> document_ok (state\<lparr>st_users := st_users state @ [user]\<rparr>)"
  by (auto simp: document_ok_def)

lemma document_filter: "document_ok state \<Longrightarrow> document_ok (state\<lparr>st_users := filter p (st_users state)\<rparr>)"
  by (auto simp: document_ok_def distinct_map_filter)

lemma changed_user_keys [simp]: "su_id (changed_user request name u) = su_id u" "su_email (changed_user request name u) = su_email u"
  by (simp_all add: changed_user_def)

lemma document_ok_kept:
  assumes ok: "document_ok (as_state store)" and fresh: "fresh_op op store"
  shows "document_ok (as_state (apply_auth cy op store))"
proof (cases op)
  case (Login av email password)
  with ok show ?thesis
    by (auto simp: login_def Let_def persist_def set_users_def users_of_def document_update split: sum.splits option.splits user_status.splits)
next
  case (Register_Begin seen av name email password)
  with ok fresh show ?thesis
    by (auto simp: register_begin_def Let_def persist_def fresh_op_def users_of_def result_simps
        intro!: document_append split: sum.splits dest: normalize_email_ok)
next
  case (Register_End av user_id delivered)
  with ok show ?thesis by (auto simp: register_end_def Let_def persist_def document_filter)
next
  case (Verify_Email av token)
  with ok show ?thesis by (auto simp: verify_email_def Let_def users_of_def document_update split: option.splits)
next
  case (Create_User seen av token name email password role)
  with ok fresh show ?thesis
    by (auto simp: create_user_def Let_def persist_def fresh_op_def users_of_def set_users_def result_simps
        intro!: document_append split: sum.splits dest: normalize_email_ok)
next
  case (Update_User seen av token ident request)
  with ok show ?thesis
    by (auto simp: update_user_def update_user_locked_def Let_def persist_def users_of_def set_users_def document_update
        split: sum.splits option.splits)
next
  case (Update_Settings seen av token enabled)
  with ok show ?thesis by (auto simp: update_settings_def Let_def persist_def split: sum.splits)
qed (use ok in \<open>simp add: logout_def\<close>)

lemma first_document_ok: "new_store cy av Missing email password url = Inr store \<Longrightarrow> document_ok (as_state store)"
  by (auto simp: new_store_def persist_def Let_def document_ok_def result_simps split: if_splits dest: normalize_email_ok)

interpretation well_formed: document_invariant cy fresh_op document_ok for cy
  using first_document_ok document_ok_kept by unfold_locales

section \<open>Administrators\<close>

definition is_admin :: "stored_user \<Rightarrow> bool" where
  "is_admin user \<longleftrightarrow> su_role user = Admin \<and> su_status user = Active"

definition has_admin :: "stored_auth \<Rightarrow> bool" where
  "has_admin state \<longleftrightarrow> (\<exists>user \<in> set (st_users state). is_admin user)"

text \<open>The ways access can be given up: an administrator sets their own status to pending, or changes a
  user after losing their own rights between the check and the write lock; and a failed delivery
  takes back a user who was made an administrator meanwhile.\<close>

definition still_admin :: "user_view \<Rightarrow> auth_store \<Rightarrow> bool" where
  "still_admin admin store \<longleftrightarrow> (\<exists>user \<in> set (users_of store). su_id user = uv_id admin \<and> is_admin user)"

definition gives_up_admin :: "crypto \<Rightarrow> auth_op \<Rightarrow> auth_store \<Rightarrow> bool" where
  "gives_up_admin cy op store =
     (case op of
        Update_User seen av token ident request \<Rightarrow>
          (case require_admin cy (av_now av) token seen of
             Inl _ \<Rightarrow> False
           | Inr admin \<Rightarrow> (uv_id admin = ident \<and> uq_status request = Some Pending_Verification) \<or> \<not> still_admin admin store)
      | Register_End av user_id delivered \<Rightarrow> \<not> delivered \<and> (\<exists>user \<in> set (users_of store). su_id user = user_id \<and> is_admin user)
      | _ \<Rightarrow> False)"

definition keeps_admin :: "crypto \<Rightarrow> auth_op \<Rightarrow> auth_store \<Rightarrow> bool" where
  "keeps_admin cy op store \<longleftrightarrow> fresh_op op store \<and> \<not> gives_up_admin cy op store"

lemma user_for_session_active:
  "user_for_session cy now token store = Inr view \<Longrightarrow>
     \<exists>user \<in> set (users_of store). view = view_of user \<and> su_status user = Active"
  by (auto simp: user_for_session_def split: option.splits if_splits dest: find_Some_in)

lemma require_admin_is_admin:
  "require_admin cy now token store = Inr view \<Longrightarrow> \<exists>user \<in> set (users_of store). view = view_of user \<and> is_admin user"
proof -
  assume "require_admin cy now token store = Inr view"
  then have "user_for_session cy now token store = Inr view" "uv_role view = Admin"
    by (auto simp: require_admin_def result_simps split: if_splits)
  then obtain user where "user \<in> set (users_of store)" "view = view_of user" "su_status user = Active"
    using user_for_session_active by blast
  with \<open>uv_role view = Admin\<close> show ?thesis by (intro bexI [of _ user]) (simp_all add: is_admin_def view_of_def)
qed

text \<open>Nothing is given up by a check of the store the write lock finds.\<close>

lemma checked_still_admin: "require_admin cy now token store = Inr admin \<Longrightarrow> still_admin admin store"
  using require_admin_is_admin by (fastforce simp: still_admin_def view_of_def)

lemma has_admin_update:
  assumes "has_admin state" and "\<And>u. is_admin u \<Longrightarrow> p u \<Longrightarrow> is_admin (f u)"
  shows "has_admin (state\<lparr>st_users := update_first p f (st_users state)\<rparr>)"
proof -
  have "\<exists>y \<in> set (update_first p f xs). is_admin y" if "x \<in> set xs" "is_admin x" for x xs
    using that assms(2) by (induction xs) auto
  then show ?thesis using assms(1) by (auto simp: has_admin_def)
qed

lemma has_admin_more [simp]:
  "has_admin (state\<lparr>st_verifications := v\<rparr>) = has_admin state" "has_admin (state\<lparr>st_registration_enabled := b\<rparr>) = has_admin state"
  by (simp_all add: has_admin_def)

lemma has_admin_append: "has_admin state \<Longrightarrow> has_admin (state\<lparr>st_users := st_users state @ users\<rparr>)"
  by (auto simp: has_admin_def)

text \<open>The administrator who acts is another user than the one changed, or keeps role and status.\<close>

lemma update_user_locked_admin:
  assumes admin: "user \<in> set (users_of store)" "is_admin user" "su_id user = uv_id admin"
    and own: "su_id user = ident \<Longrightarrow> uq_status request \<noteq> Some Pending_Verification"
  shows "has_admin (as_state (snd (update_user_locked av admin ident request store)))"
proof -
  have "has_admin (as_state store)" using admin by (auto simp: has_admin_def users_of_def)
  moreover have "has_admin ((as_state store)\<lparr>st_users := update_first (\<lambda>u. su_id u = ident) (changed_user request name) (users_of store)\<rparr>)"
    if ok: "su_id user = ident \<longrightarrow> uq_status request \<noteq> Some Disabled \<and> uq_role request \<noteq> Some Member" for name
  proof (cases "su_id user = ident")
    case False
    then have "user \<in> set (update_first (\<lambda>u. su_id u = ident) (changed_user request name) (users_of store))"
      using admin(1) by (intro update_first_keeps)
    with admin(2) show ?thesis by (auto simp: has_admin_def)
  next
    case True
    then have "uq_status request \<in> {None, Some Active}" "uq_role request \<in> {None, Some Admin}"
      using ok own [OF True] by (cases "uq_status request"; cases "the (uq_status request)"; simp)
        (use True ok in \<open>cases "uq_role request"; cases "the (uq_role request)"; simp\<close>)
    then have "is_admin (changed_user request name u)" if "is_admin u" for u
      using that by (auto simp: is_admin_def changed_user_def)
    then show ?thesis using has_admin_update [OF \<open>has_admin (as_state store)\<close>] by (simp add: users_of_def)
  qed
  ultimately show ?thesis
    by (auto simp: update_user_locked_def admin(3) persist_def set_users_def Let_def split: option.splits sum.splits dest!: find_Some_in)
qed

lemma has_admin_kept:
  assumes has: "has_admin (as_state store)" and keeps: "keeps_admin cy op store"
  shows "has_admin (as_state (apply_auth cy op store))"
proof (cases op)
  case (Login av email password)
  with has show ?thesis
    by (auto simp: login_def Let_def persist_def set_users_def users_of_def is_admin_def intro!: has_admin_update
        split: sum.splits option.splits user_status.splits)
next
  case (Register_Begin seen av name email password)
  with has show ?thesis by (auto simp: register_begin_def Let_def persist_def intro!: has_admin_append split: sum.splits)
next
  case (Register_End av user_id delivered)
  with has keeps show ?thesis
    by (auto simp: register_end_def Let_def persist_def keeps_admin_def gives_up_admin_def has_admin_def users_of_def)
next
  case (Verify_Email av token)
  with has show ?thesis
    by (auto simp: verify_email_def Let_def users_of_def is_admin_def intro!: has_admin_update split: option.splits)
next
  case (Create_User seen av token name email password role)
  with has show ?thesis
    by (auto simp: create_user_def Let_def persist_def set_users_def users_of_def intro!: has_admin_append split: sum.splits)
next
  case (Update_User seen av token ident request)
  show ?thesis
  proof (cases "require_admin cy (av_now av) token seen")
    case (Inr admin)
    then have "still_admin admin store" and own: "uv_id admin = ident \<Longrightarrow> uq_status request \<noteq> Some Pending_Verification"
      using keeps by (auto simp: keeps_admin_def gives_up_admin_def Update_User)
    then obtain user where user: "user \<in> set (users_of store)" "is_admin user" "su_id user = uv_id admin"
      by (auto simp: still_admin_def)
    with own have "su_id user = ident \<Longrightarrow> uq_status request \<noteq> Some Pending_Verification" by simp
    with update_user_locked_admin [OF user] show ?thesis by (simp add: Update_User update_user_def Inr)
  qed (use has in \<open>simp add: Update_User update_user_def\<close>)
next
  case (Update_Settings seen av token enabled)
  with has show ?thesis by (auto simp: update_settings_def Let_def persist_def split: sum.splits)
qed (use has in \<open>simp add: logout_def\<close>)

lemma first_has_admin: "new_store cy av Missing email password url = Inr store \<Longrightarrow> has_admin (as_state store)"
  by (auto simp: new_store_def persist_def Let_def has_admin_def is_admin_def result_simps split: if_splits)

interpretation administered: document_invariant cy "keeps_admin cy" has_admin for cy
  using first_has_admin has_admin_kept by unfold_locales

section \<open>Password hashes\<close>

text \<open>The hexadecimal codec: decoding undoes encoding, and the digits hold no dollar sign.\<close>

definition hex_ok :: "crypto \<Rightarrow> bool" where
  "hex_ok cy \<longleftrightarrow> (\<forall>bytes. cy_unhex cy (cy_hex cy bytes) = Some bytes \<and> CHR ''$'' \<notin> set (cy_hex cy bytes))"

lemma show_iterations: "show_nat 120000 = ''120000''"
  by (simp add: show_nat.simps [of 120000] show_nat.simps [of 12000] show_nat.simps [of 1200] show_nat.simps [of 120]
      show_nat.simps [of 12] show_nat.simps [of "Suc 0"] char_of_def bit_0)

lemma hash_password_parts:
  assumes "hex_ok cy" and "hash_password cy salt password = Inr hash"
  shows "split_on CHR ''$'' hash =
     [''pbkdf2-sha256'', ''120000'', cy_hex cy salt, cy_hex cy (pbkdf2_sha256 cy (as_bytes password) salt 120000)]"
proof -
  have "hash = ''pbkdf2-sha256'' @ CHR ''$'' # ''120000'' @ CHR ''$'' # cy_hex cy salt @ CHR ''$'' #
      cy_hex cy (pbkdf2_sha256 cy (as_bytes password) salt 120000)"
    using assms(2) by (simp add: hash_password_def show_iterations Let_def result_simps)
  then show ?thesis using assms(1) by (simp only: hex_ok_def split_on_append split_on_no_sep) (simp add: split_on_append split_on_no_sep)
qed

lemma verify_accepts:
  assumes "hex_ok cy" and "hash_password cy salt password = Inr hash"
  shows "verify_password cy hash s = Inr () \<longleftrightarrow> length s \<le> 128 \<and>
     pbkdf2_sha256 cy (as_bytes s) salt 120000 = pbkdf2_sha256 cy (as_bytes password) salt 120000"
proof -
  have "parse_u32 ''120000'' = Some 120000" by (simp add: parse_u32_def parse_nat_def digit_of_def of_char_def Let_def)
  then show ?thesis
    using assms(1) by (auto simp: verify_password_def hash_password_parts [OF assms] hex_ok_def)
qed

lemma hash_password_length: "hash_password cy salt password = Inr hash \<Longrightarrow> length password \<le> 128"
  by (auto simp: hash_password_def validate_password_def split: if_splits)

section \<open>What a login and an update do\<close>

lemma uv_id_view [simp]: "uv_id (view_of user) = su_id user"
  by (simp add: view_of_def)

lemma login_success:
  assumes "login cy av email password store = (Inr (token, expires, view), store')"
  obtains user where "normalize_email email = Inr (su_email user)"
    and "find (\<lambda>u. su_email u = su_email user) (users_of store) = Some user"
    and "verify_password cy (su_password_hash user) password = Inr ()" and "su_status user = Active"
    and "token = av_token av" and "expires = av_later av + days 7" and "view = view_of (user\<lparr>su_last_login_at := Some (av_now av)\<rparr>)"
    and "users_of store' = update_first (\<lambda>u. su_email u = su_email user) (\<lambda>u. u\<lparr>su_last_login_at := Some (av_now av)\<rparr>) (users_of store)"
    and "as_sessions store' (cy_token_digest cy (av_token av)) = Some \<lparr>ss_user_id = su_id user, ss_expires_at = av_later av + days 7\<rparr>"
proof -
  obtain email' user where email: "normalize_email email = Inr email'"
    and found: "find (\<lambda>u. su_email u = email') (users_of store) = Some user"
    and rest: "verify_password cy (su_password_hash user) password = Inr ()" "su_status user = Active" "token = av_token av"
      "expires = av_later av + days 7" "view = view_of (user\<lparr>su_last_login_at := Some (av_now av)\<rparr>)"
      "users_of store' = update_first (\<lambda>u. su_email u = email') (\<lambda>u. u\<lparr>su_last_login_at := Some (av_now av)\<rparr>) (users_of store)"
      "as_sessions store' (cy_token_digest cy (av_token av)) = Some \<lparr>ss_user_id = su_id user, ss_expires_at = av_later av + days 7\<rparr>"
    using assms by (auto simp: login_def persist_def users_of_def set_users_def Let_def
        split: sum.splits option.splits user_status.splits if_splits)
  moreover have "su_email user = email'" using found by (auto dest: find_Some_in)
  ultimately show thesis using that by blast
qed

lemma update_user_locked_users:
  assumes "update_user_locked av admin ident request store = (result, store')" and "result \<in> range Inr \<union> {Inl Storage_Io}"
  shows "\<exists>name. users_of store' = update_first (\<lambda>u. su_id u = ident) (changed_user request name) (users_of store)"
proof -
  have "(case uq_name request of None \<Rightarrow> Inr n | Some name \<Rightarrow> validate_name name) \<noteq> Inl Storage_Io" for n
    by (auto simp: validate_name_def Let_def split: option.splits)
  then show ?thesis using assms
    by (auto simp: update_user_locked_def users_of_def set_users_def persist_def split: option.splits sum.splits if_splits)
qed

lemma require_admin_error: "require_admin cy now token store \<noteq> Inl Storage_Io"
  by (auto simp: require_admin_def user_for_session_def attempt_def split: option.splits sum.splits if_splits)

section \<open>Properties\<close>

text \<open>Whatever operations and restarts happened, in memory and on disk no two users share an id or an e-mail
  address, and every address is in the form a login looks for. Ids are drawn fresh.\<close>

theorem user_documents_well_formed:
  assumes "auth_reachable cy fresh_op store"
  shows "document_ok (as_state store) \<and> (\<forall>state. as_file store = Some state \<longrightarrow> document_ok state)"
  using assms by (rule well_formed.always_good)

text \<open>Claim C10: the console is never locked out, in any interleaving of the operations and with any restarts: an
  active administrator exists in memory and in the file, whoever disables, demotes or removes whom, as long
  as no administrator sets their own status to pending, none changes a user after losing their own rights
  between the check and the change, and no failed delivery takes back a user promoted meanwhile. Ids are
  drawn fresh.\<close>

theorem an_administrator_remains:
  assumes "auth_reachable cy (keeps_admin cy) store"
  shows "has_admin (as_state store) \<and> (\<forall>state. as_file store = Some state \<longrightarrow> has_admin state)"
  using assms by (rule administered.always_good)

text \<open>A password hash accepts a password exactly when it is at most 128 bytes long and derives the same key;
  in particular it accepts the password it was made from.\<close>

theorem password_hash_round_trip:
  assumes "hex_ok cy" and "hash_password cy salt password = Inr hash"
  shows "verify_password cy hash password = Inr () \<and>
     (verify_password cy hash other = Inr () \<longleftrightarrow> length other \<le> 128 \<and>
        pbkdf2_sha256 cy (as_bytes other) salt 120000 = pbkdf2_sha256 cy (as_bytes password) salt 120000)"
  using verify_accepts [OF assms] hash_password_length [OF assms(2)] by simp

text \<open>Claim C35: A login succeeds only for an active user with that address and an accepted password; the token it returns
  is then that user's session until it expires seven days later, and no longer after a logout.\<close>

theorem login_opens_session:
  assumes "login cy av email password store = (Inr (token, expires, view), store')" and "document_ok (as_state store)"
  shows "(\<exists>user \<in> set (users_of store). normalize_email email = Inr (su_email user) \<and> su_id user = uv_id view \<and>
       su_status user = Active \<and> verify_password cy (su_password_hash user) password = Inr ()) \<and>
     (now < expires \<longrightarrow> user_for_session cy now token store' = Inr view) \<and>
     (expires \<le> now \<longrightarrow> user_for_session cy now token store' = Inl Invalid_Credentials) \<and>
     user_for_session cy now token (logout cy token store') = Inl Invalid_Credentials \<and> expires = av_later av + days 7"
proof -
  let ?seen = "\<lambda>u. u\<lparr>su_last_login_at := Some (av_now av)\<rparr>"
  from login_success [OF assms(1)] obtain user where email: "normalize_email email = Inr (su_email user)"
    and found: "find (\<lambda>u. su_email u = su_email user) (users_of store) = Some user"
    and user: "verify_password cy (su_password_hash user) password = Inr ()" "su_status user = Active"
    and out: "token = av_token av" "expires = av_later av + days 7" "view = view_of (?seen user)"
    and users: "users_of store' = update_first (\<lambda>u. su_email u = su_email user) ?seen (users_of store)"
    and opened: "as_sessions store' (cy_token_digest cy (av_token av)) =
        Some \<lparr>ss_user_id = su_id user, ss_expires_at = av_later av + days 7\<rparr>" .
  have "?seen user \<in> set (users_of store')" unfolding users by (rule find_update_first [OF found])
  moreover have "distinct (map su_id (users_of store'))"
    using assms(2) unfolding users by (simp add: map_update_first document_ok_def users_of_def)
  ultimately have "find (\<lambda>u. su_id u = su_id user) (users_of store') = Some (?seen user)"
    using find_unique [of su_id "users_of store'" "?seen user"] by simp
  then have "user_for_session cy now token store' = (if expires \<le> now then Inl Invalid_Credentials else Inr view)"
    using opened user(2) out by (simp add: user_for_session_def)
  moreover have "user_for_session cy now token (logout cy token store') = Inl Invalid_Credentials"
    by (simp add: user_for_session_def logout_def)
  ultimately show ?thesis
    using email find_Some_in [OF found] user out by auto
qed

text \<open>Claim C36: an update that takes a user's active status away ends every session of that user at once: whatever token is
  presented to the store it leaves, whatever happened between the check and the change, and even when the write of
  the file failed, no session resolves to that user.\<close>

theorem revoked_user_has_no_session:
  assumes "update_user cy av token ident request seen store = (result, store')" and "document_ok (as_state store)"
    and "uq_status request = Some status" and "status \<noteq> Active"
    and "result \<in> range Inr \<union> {Inl Storage_Io}"
    and "user_for_session cy now other_token store' = Inr view"
  shows "uv_id view \<noteq> ident"
proof -
  obtain name where users: "users_of store' = update_first (\<lambda>u. su_id u = ident) (changed_user request name) (users_of store)"
    using assms(1,5) update_user_locked_users require_admin_error by (fastforce simp: update_user_def split: sum.splits)
  obtain user where user: "user \<in> set (users_of store')" "view = view_of user" "su_status user = Active"
    using user_for_session_active [OF assms(6)] by blast
  have "distinct (map su_id (users_of store))" using assms(2) by (simp add: document_ok_def users_of_def)
  then have "set (users_of store') = (\<lambda>u. if su_id u = ident then changed_user request name u else u) ` set (users_of store)"
    unfolding users by (subst update_first_unique) simp_all
  with user(1) have "user \<in> (\<lambda>u. if su_id u = ident then changed_user request name u else u) ` set (users_of store)" by simp
  then obtain u where u: "user = (if su_id u = ident then changed_user request name u else u)" by (rule imageE)
  have "su_id user \<noteq> ident"
  proof
    assume "su_id user = ident"
    then have "user = changed_user request name u" using u by (cases "su_id u = ident") simp_all
    then have "su_status user = status" by (simp add: changed_user_def assms(3))
    with user(3) assms(4) show False by simp
  qed
  then show ?thesis by (simp add: user(2))
qed

text \<open>The verification link overrides an administrator's decision: a user who was disabled before following it,
  with the link unexpired, is active afterwards.\<close>

theorem verification_reactivates_disabled:
  assumes "document_ok (as_state store)" and "user \<in> set (users_of store)" and "su_status user = Disabled"
    and "find (\<lambda>v. vf_token_hash v = cy_token_digest cy token \<and> av_now av < vf_expires_at v)
           (st_verifications (as_state store)) = Some v" and "vf_user_id v = su_id user"
  shows "\<exists>user' \<in> set (users_of (snd (verify_email cy av token store))). su_id user' = su_id user \<and> su_status user' = Active"
proof -
  let ?activate = "\<lambda>u. u\<lparr>su_status := Active, su_email_verified_at := Some (av_later av)\<rparr>"
  have found: "find (\<lambda>u. su_id u = su_id user) (users_of store) = Some user"
    using assms(1,2) by (intro find_unique) (simp_all add: document_ok_def users_of_def)
  have "users_of (snd (verify_email cy av token store)) = update_first (\<lambda>u. su_id u = su_id user) ?activate (users_of store)"
    by (simp add: verify_email_def assms(4,5) found Let_def) (simp add: users_of_def)
  then show ?thesis using find_update_first [OF found, of ?activate] by (intro bexI [of _ "?activate user"]) simp_all
qed

section \<open>What the guards leave open\<close>

text \<open>An administrator may set their own status to pending, and is then out.\<close>

lemma own_pending_status_locks_out:
  assumes "require_admin cy (av_now av) token store = Inr (view_of user)" and "document_ok (as_state store)"
    and "user \<in> set (users_of store)" and "request = \<lparr>uq_name = None, uq_role = None, uq_status = Some Pending_Verification\<rparr>"
    and "av_persisted av"
  shows "\<exists>view store'. update_user cy av token (su_id user) request store store = (Inr view, store') \<and> uv_status view = Pending_Verification"
proof -
  have found: "find (\<lambda>u. su_id u = su_id user) (users_of store) = Some user"
    using assms(2,3) by (intro find_unique) (simp_all add: document_ok_def users_of_def)
  show ?thesis
    by (simp add: update_user_def assms(1,4,5) update_user_locked_def found persist_def) (simp add: view_of_def changed_user_def)
qed

section \<open>A small store\<close>

definition hex_digit :: "nat \<Rightarrow> char" where
  "hex_digit n = ''0123456789abcdef'' ! n"

definition unhex_digit :: "char \<Rightarrow> nat option" where
  "unhex_digit c = find (\<lambda>n. hex_digit n = c) [0..<16]"

definition hex_encode :: "u8 list \<Rightarrow> string" where
  "hex_encode bytes = concat (map (\<lambda>b. [hex_digit (unat b div 16), hex_digit (unat b mod 16)]) bytes)"

fun hex_decode :: "string \<Rightarrow> u8 list option" where
  "hex_decode [] = Some []"
| "hex_decode [_] = None"
| "hex_decode (a # b # cs) =
     (case (unhex_digit a, unhex_digit b, hex_decode cs) of
        (Some hi, Some lo, Some bytes) \<Rightarrow> Some (of_nat (16 * hi + lo) # bytes)
      | _ \<Rightarrow> None)"

definition toy_crypto :: crypto where
  "toy_crypto = \<lparr>cy_token_digest = (\<lambda>t. t), cy_hmac = (\<lambda>k d. k @ d), cy_hex = hex_encode, cy_unhex = hex_decode\<rparr>"

lemma hex_digits: "n < 16 \<Longrightarrow> unhex_digit (hex_digit n) = Some n \<and> hex_digit n \<noteq> CHR ''$''"
proof -
  have "list_all (\<lambda>n. unhex_digit (hex_digit n) = Some n \<and> hex_digit n \<noteq> CHR ''$'') [0..<16]" by code_simp
  then show "n < 16 \<Longrightarrow> ?thesis" by (simp add: list_all_iff)
qed

lemma toy_hex_ok: "hex_ok toy_crypto"
proof -
  have hi: "unat b div 16 < 16" for b :: u8 using unsigned_less [of b, where 'a = nat] by (simp add: less_mult_imp_div_less)
  have "hex_decode (hex_encode bytes) = Some bytes" for bytes
    using hi hex_digits by (induction bytes) (auto simp: hex_encode_def)
  moreover have "CHR ''$'' \<notin> set (hex_encode bytes)" for bytes
    using hi hex_digits by (auto simp: hex_encode_def) (metis hex_digits hi, metis hex_digits mod_less_divisor zero_less_numeral)
  ultimately show ?thesis by (simp add: hex_ok_def toy_crypto_def)
qed

definition toy_av :: auth_env where
  "toy_av = \<lparr>av_now = 1, av_later = 2, av_uuid = ''1'', av_token = ''t'', av_salt = [7], av_persisted = True\<rparr>"

lemma toy_email: "normalize_email ''a@b'' = Inr ''a@b''"
  by (simp add: normalize_email_def str_trim_def str_chars_Cons_ascii byte_of_char_def is_white_space_def white_space_def as_bytes_def
      ascii_lower_def lower_char_def of_char_def Let_def)

lemma toy_hash: "\<exists>hash. hash_password toy_crypto [7] ''password12'' = Inr hash"
  by (simp add: hash_password_def validate_password_def Let_def)

lemma toy_started:
  "\<exists>store hash. new_store toy_crypto toy_av Missing ''a@b'' ''password12'' None = Inr store \<and>
     hash_password toy_crypto [7] ''password12'' = Inr hash \<and>
     users_of store = [\<lparr>su_id = ''1'', su_email = ''a@b'', su_name = ''Administrator'', su_role = Admin, su_status = Active,
       su_password_hash = hash, su_email_verified_at = Some 1, su_last_login_at = None, su_created_at = 2\<rparr>]"
proof -
  obtain hash where "hash_password toy_crypto [7] ''password12'' = Inr hash" using toy_hash by blast
  then show ?thesis by (simp add: new_store_def toy_email toy_av_def persist_def users_of_def Let_def)
qed

theorem user_documents_well_formed_witness:
  "\<exists>store. auth_reachable toy_crypto fresh_op store \<and> length (users_of store) = 1 \<and> document_ok (as_state store)"
proof -
  obtain store where store: "new_store toy_crypto toy_av Missing ''a@b'' ''password12'' None = Inr store" "length (users_of store) = 1"
    using toy_started by fastforce
  from user_documents_well_formed [OF auth_reachable.created [OF store(1)]] auth_reachable.created [OF store(1)] store(2)
  show ?thesis by blast
qed

theorem an_administrator_remains_witness:
  "\<exists>store. auth_reachable toy_crypto (keeps_admin toy_crypto) store \<and> has_admin (as_state store)"
proof -
  obtain store where store: "new_store toy_crypto toy_av Missing ''a@b'' ''password12'' None = Inr store"
    using toy_started by fastforce
  from an_administrator_remains [OF auth_reachable.created [OF store]] auth_reachable.created [OF store] show ?thesis by blast
qed

theorem password_hash_round_trip_witness:
  "\<exists>hash. hash_password toy_crypto [7] ''password12'' = Inr hash \<and> verify_password toy_crypto hash ''password12'' = Inr ()"
  using toy_hash password_hash_round_trip [OF toy_hex_ok] by blast

theorem login_opens_session_witness:
  "\<exists>store token expires view store'. login toy_crypto toy_av ''a@b'' ''password12'' store = (Inr (token, expires, view), store') \<and>
     user_for_session toy_crypto 9 token store' = Inr view"
proof -
  obtain store hash where store: "new_store toy_crypto toy_av Missing ''a@b'' ''password12'' None = Inr store"
    and hash: "hash_password toy_crypto [7] ''password12'' = Inr hash"
    and users: "users_of store = [\<lparr>su_id = ''1'', su_email = ''a@b'', su_name = ''Administrator'', su_role = Admin, su_status = Active,
       su_password_hash = hash, su_email_verified_at = Some 1, su_last_login_at = None, su_created_at = 2\<rparr>]"
    using toy_started by blast
  have "verify_password toy_crypto hash ''password12'' = Inr ()"
    using verify_accepts [OF toy_hex_ok hash] by simp
  then obtain token view store' where run:
    "login toy_crypto toy_av ''a@b'' ''password12'' store = (Inr (token, 2 + days 7, view), store')"
    by (simp add: login_def toy_email users persist_def toy_av_def Let_def)
  have "user_for_session toy_crypto 9 token store' = Inr view"
    using login_opens_session [OF run first_document_ok [OF store], of 9] by (simp add: days_def hours_def)
  with run show ?thesis by blast
qed

definition toy_user :: "string \<Rightarrow> user_role \<Rightarrow> user_status \<Rightarrow> stored_user" where
  "toy_user name role status = \<lparr>su_id = name, su_email = name @ ''@b'', su_name = name, su_role = role, su_status = status,
     su_password_hash = [], su_email_verified_at = None, su_last_login_at = None, su_created_at = 0\<rparr>"

definition toy_store :: "user_status \<Rightarrow> auth_store" where
  "toy_store status = \<lparr>as_file = None,
     as_state = \<lparr>st_registration_enabled = True, st_users = [toy_user ''x'' Admin Active, toy_user ''y'' Member status],
       st_verifications = [\<lparr>vf_user_id = ''y'', vf_token_hash = ''v'', vf_expires_at = 9\<rparr>]\<rparr>,
     as_sessions = [''s'' \<mapsto> \<lparr>ss_user_id = ''x'', ss_expires_at = 9\<rparr>, ''t'' \<mapsto> \<lparr>ss_user_id = ''y'', ss_expires_at = 9\<rparr>],
     as_email_api_url = None\<rparr>"

lemma toy_store_ok: "document_ok (as_state (toy_store status))"
  by (simp add: document_ok_def toy_store_def toy_user_def email_ok_def ascii_lower_def lower_char_def of_char_def)

theorem revoked_user_has_no_session_witness:
  "\<exists>view store' admin. update_user toy_crypto toy_av ''s'' ''y'' \<lparr>uq_name = None, uq_role = None, uq_status = Some Disabled\<rparr>
       (toy_store Active) (toy_store Active) =
       (Inr view, store') \<and> user_for_session toy_crypto 1 ''s'' store' = Inr admin \<and> uv_id admin \<noteq> ''y''"
proof -
  let ?rq = "\<lparr>uq_name = None, uq_role = None, uq_status = Some Disabled\<rparr>"
  obtain view store' admin where run: "update_user toy_crypto toy_av ''s'' ''y'' ?rq (toy_store Active) (toy_store Active) = (Inr view, store')"
    and still: "user_for_session toy_crypto 1 ''s'' store' = Inr admin"
    by (simp add: update_user_def require_admin_def user_for_session_def toy_store_def toy_user_def toy_crypto_def toy_av_def users_of_def
        update_user_locked_def persist_def set_users_def view_of_def result_simps)
  with revoked_user_has_no_session [OF run toy_store_ok, of Disabled 1 "''s''" admin] show ?thesis by auto
qed

theorem verification_reactivates_disabled_witness:
  "\<exists>user \<in> set (users_of (snd (verify_email toy_crypto toy_av ''v'' (toy_store Disabled)))). su_id user = ''y'' \<and> su_status user = Active"
proof -
  have "toy_user ''y'' Member Disabled \<in> set (users_of (toy_store Disabled))" by (simp add: users_of_def toy_store_def)
  from verification_reactivates_disabled [OF toy_store_ok this, of toy_crypto "''v''" toy_av
      "\<lparr>vf_user_id = ''y'', vf_token_hash = ''v'', vf_expires_at = 9\<rparr>"]
  show ?thesis by (simp add: toy_user_def toy_store_def toy_crypto_def toy_av_def)
qed

text \<open>The check of the caller and the change are two locked sections: two administrators who demote each other at
  the same time both pass the check, and none is left.\<close>

lemma racing_demotions_leave_no_admin:
  defines "store \<equiv> (toy_store Active)\<lparr>as_state := (as_state (toy_store Active))\<lparr>st_users := [toy_user ''x'' Admin Active, toy_user ''y'' Admin Active]\<rparr>\<rparr>"
    and "demote \<equiv> \<lparr>uq_name = None, uq_role = Some Member, uq_status = None\<rparr>"
  shows "\<not> has_admin (as_state (snd (update_user toy_crypto toy_av ''t'' ''x'' demote store
        (snd (update_user toy_crypto toy_av ''s'' ''y'' demote store store)))))"
  by (simp add: update_user_def store_def demote_def require_admin_def user_for_session_def toy_store_def toy_user_def toy_crypto_def toy_av_def
      users_of_def update_user_locked_def persist_def set_users_def view_of_def changed_user_def has_admin_def is_admin_def)

end
