(* ===== verification/Refetch.thy ===== *)
theory Refetch
  imports Rust_Text
begin

text \<open>
  \<^verbatim>\<open>src/refetch.rs\<close>: the counter between the backfill, which leaves requests for old games, and the
  collectors, which take them in their spare time. A \<^verbatim>\<open>oneshot\<close> channel is a number and its state;
  \<^verbatim>\<open>fetch\<close> is the push it makes at once and the poll of the wait that follows, so that everything
  between the two interleaves with it.
\<close>

section \<open>Requests and channels\<close>

definition claim_timeout :: nat where
  "claim_timeout = 180"

datatype refetch_error = Unserved | Refused string

type_synonym fetch_result = "refetch_error + u8 list"

text \<open>\<^verbatim>\<open>impl Display for RefetchError\<close>; the fixed message is in the UTF-8 bytes of the source.\<close>

definition unserved_text :: string where
  "unserved_text = of_bytes [0xE6, 0xB2, 0xA1, 0xE6, 0x9C, 0x89, 0xE9, 0x87, 0x87, 0xE9, 0x9B, 0x86, 0xE5, 0x99, 0xA8, 0xE6, 0x8E, 0xA5, 0xE6, 0x89, 0x8B]"

definition refetch_error_text :: "refetch_error \<Rightarrow> string" where
  "refetch_error_text e = (case e of Unserved \<Rightarrow> unserved_text | Refused why \<Rightarrow> why)"

text \<open>A channel: its receiver waits, the receiver is gone, a value was sent, or the sender was dropped.\<close>

datatype channel = Waiting | Closed | Sent fetch_result | Released

record request =
  rq_uuid :: string
  rq_answer :: nat

record refetch_broker =
  rb_queue :: "request list"
  rb_arrived :: bool
  rb_channels :: "channel list"

definition new_broker :: refetch_broker where
  "new_broker = \<lparr>rb_queue = [], rb_arrived = False, rb_channels = []\<rparr>"

definition channel_of :: "refetch_broker \<Rightarrow> nat \<Rightarrow> channel" where
  "channel_of rb c = (if c < length (rb_channels rb) then rb_channels rb ! c else Closed)"

definition is_closed :: "refetch_broker \<Rightarrow> request \<Rightarrow> bool" where
  "is_closed rb rq \<longleftrightarrow> channel_of rb (rq_answer rq) = Closed"

definition set_channel :: "nat \<Rightarrow> channel \<Rightarrow> refetch_broker \<Rightarrow> refetch_broker" where
  "set_channel c state rb = rb\<lparr>rb_channels := (rb_channels rb)[c := state]\<rparr>"

section \<open>The backfill's side\<close>

text \<open>\<^verbatim>\<open>fetch\<close> up to its wait: a new channel, the request at the back of the queue, one wake-up.\<close>

definition fetch_begin :: "string \<Rightarrow> refetch_broker \<Rightarrow> nat \<times> refetch_broker" where
  "fetch_begin uuid rb =
     (let c = length (rb_channels rb)
      in (c, rb\<lparr>rb_queue := rb_queue rb @ [\<lparr>rq_uuid = uuid, rq_answer = c\<rparr>], rb_arrived := True,
                 rb_channels := rb_channels rb @ [Waiting]\<rparr>))"

text \<open>One poll of the wait, \<open>elapsed\<close> seconds after it began. The channel is polled before the clock;
  a finished \<^verbatim>\<open>fetch\<close> drops its receiver.\<close>

definition fetch_poll :: "nat \<Rightarrow> nat \<Rightarrow> refetch_broker \<Rightarrow> fetch_result option \<times> refetch_broker" where
  "fetch_poll c elapsed rb =
     (case channel_of rb c of
        Sent result \<Rightarrow> (Some result, rb)
      | Released \<Rightarrow> (Some (Inl Unserved), rb)
      | Closed \<Rightarrow> (None, rb)
      | Waiting \<Rightarrow> if claim_timeout \<le> elapsed then (Some (Inl Unserved), set_channel c Closed rb) else (None, rb))"

text \<open>A caller that is stopped drops the \<^verbatim>\<open>fetch\<close> and its receiver with it.\<close>

definition fetch_dropped :: "nat \<Rightarrow> refetch_broker \<Rightarrow> refetch_broker" where
  "fetch_dropped c rb = (if channel_of rb c = Waiting then set_channel c Closed rb else rb)"

section \<open>The collector's side\<close>

fun claim_loop :: "refetch_broker \<Rightarrow> request list \<Rightarrow> request option \<times> request list" where
  "claim_loop rb [] = (None, [])"
| "claim_loop rb (rq # queue) = (if \<not> is_closed rb rq then (Some rq, queue) else claim_loop rb queue)"

definition claim :: "refetch_broker \<Rightarrow> request option \<times> refetch_broker" where
  "claim rb = (let (taken, queue) = claim_loop rb (rb_queue rb) in (taken, rb\<lparr>rb_queue := queue\<rparr>))"

text \<open>\<^verbatim>\<open>wait_for_work\<close>: a stored wake-up ends the wait at once and is used up; the result says so.\<close>

definition wait_for_work :: "refetch_broker \<Rightarrow> bool \<times> refetch_broker" where
  "wait_for_work rb = (rb_arrived rb, rb\<lparr>rb_arrived := False\<rparr>)"

definition waiting :: "refetch_broker \<Rightarrow> nat" where
  "waiting rb = length (filter (\<lambda>rq. \<not> is_closed rb rq) (rb_queue rb))"

text \<open>\<^verbatim>\<open>PendingFetch::answer\<close>, which is lost on a closed channel, and a claim that is dropped unanswered.\<close>

definition answer :: "request \<Rightarrow> fetch_result \<Rightarrow> refetch_broker \<Rightarrow> refetch_broker" where
  "answer pending result rb = (if is_closed rb pending then rb else set_channel (rq_answer pending) (Sent result) rb)"

definition drop_claim :: "request \<Rightarrow> refetch_broker \<Rightarrow> refetch_broker" where
  "drop_claim pending rb = (if is_closed rb pending then rb else set_channel (rq_answer pending) Released rb)"

section \<open>The queue of the requests somebody still waits for\<close>

definition live_requests :: "refetch_broker \<Rightarrow> request list" where
  "live_requests rb = filter (\<lambda>rq. \<not> is_closed rb rq) (rb_queue rb)"

text \<open>A collector that takes up to \<open>n\<close> requests in a row.\<close>

fun serve :: "('s \<Rightarrow> 'r option \<times> 's) \<Rightarrow> nat \<Rightarrow> 's \<Rightarrow> 'r list \<times> 's" where
  "serve take_next 0 s = ([], s)"
| "serve take_next (Suc n) s =
     (case take_next s of
        (None, s') \<Rightarrow> ([], s')
      | (Some r, s') \<Rightarrow> (let (rs, s'') = serve take_next n s' in (r # rs, s'')))"

text \<open>The contract of a counter: an abstract first-in-first-out queue of live requests.\<close>

locale request_counter =
  fixes pending :: "'s \<Rightarrow> 'r list"
    and take_next :: "'s \<Rightarrow> 'r option \<times> 's"
    and outstanding :: "'s \<Rightarrow> nat"
  assumes take_head: "fst (take_next s) = first_opt (pending s)"
    and take_tail: "pending (snd (take_next s)) = tl (pending s)"
    and outstanding_length: "outstanding s = length (pending s)"
begin

lemma serve_in_order:
  "fst (serve take_next n s) = take n (pending s) \<and> pending (snd (serve take_next n s)) = drop n (pending s)"
proof (induction n arbitrary: s)
  case (Suc n)
  obtain r s' where got: "take_next s = (r, s')" by fastforce
  show ?case
  proof (cases "pending s")
    case Nil
    then show ?thesis using take_head [of s] take_tail [of s] got by simp
  next
    case (Cons x xs)
    then have "r = Some x" "pending s' = xs" using take_head [of s] take_tail [of s] got by auto
    with Suc.IH [of s'] Cons got show ?thesis by (auto split: prod.splits)
  qed
qed simp

lemma serve_outstanding: "outstanding (snd (serve take_next n s)) = outstanding s - n"
  using serve_in_order by (simp add: outstanding_length)

end

lemma claim_loop_live:
  "fst (claim_loop rb queue) = first_opt (filter (\<lambda>rq. \<not> is_closed rb rq) queue)"
  "filter (\<lambda>rq. \<not> is_closed rb rq) (snd (claim_loop rb queue)) = tl (filter (\<lambda>rq. \<not> is_closed rb rq) queue)"
  by (induction queue) auto

lemma channel_of_queue [simp]: "channel_of (rb\<lparr>rb_queue := queue\<rparr>) c = channel_of rb c"
  by (simp add: channel_of_def)

lemma is_closed_queue [simp]: "is_closed (rb\<lparr>rb_queue := queue\<rparr>) rq = is_closed rb rq"
  by (simp add: is_closed_def)

interpretation counter: request_counter live_requests claim waiting
  by unfold_locales (auto simp: claim_def live_requests_def waiting_def claim_loop_live split: prod.splits
      dest: arg_cong [of _ _ fst] arg_cong [of _ _ snd])

section \<open>Every interleaving\<close>

text \<open>The broker together with the claims collectors hold.\<close>

inductive counter_step :: "refetch_broker \<times> request list \<Rightarrow> refetch_broker \<times> request list \<Rightarrow> bool" where
  begun: "counter_step (rb, held) (snd (fetch_begin uuid rb), held)"
| polled: "counter_step (rb, held) (snd (fetch_poll c elapsed rb), held)"
| abandoned: "counter_step (rb, held) (fetch_dropped c rb, held)"
| woken: "counter_step (rb, held) (snd (wait_for_work rb), held)"
| found: "claim rb = (Some rq, rb') \<Longrightarrow> counter_step (rb, held) (rb', rq # held)"
| none: "claim rb = (None, rb') \<Longrightarrow> counter_step (rb, held) (rb', held)"
| answered: "rq \<in> set held \<Longrightarrow> counter_step (rb, held) (answer rq result rb, remove1 rq held)"
| died: "rq \<in> set held \<Longrightarrow> counter_step (rb, held) (drop_claim rq rb, remove1 rq held)"

inductive counter_reachable :: "refetch_broker \<times> request list \<Rightarrow> bool" where
  initial: "counter_reachable (new_broker, [])"
| further: "counter_reachable s \<Longrightarrow> counter_step s t \<Longrightarrow> counter_reachable t"

inductive_cases counter_stepE: "counter_step s t"

text \<open>The invariant: the queued and the held requests have channels of their own, the queue is in order of
  arrival, nothing queued or held was answered, and every channel somebody waits on is queued or held.\<close>

definition unanswered :: "channel list \<Rightarrow> nat set \<Rightarrow> bool" where
  "unanswered chs C \<longleftrightarrow>
     (\<forall>c \<in> C. c < length chs \<and> chs ! c \<in> {Waiting, Closed}) \<and> (\<forall>c < length chs. chs ! c = Waiting \<longrightarrow> c \<in> C)"

definition counter_inv :: "refetch_broker \<times> request list \<Rightarrow> bool" where
  "counter_inv s =
     (let (rb, held) = s; cs = map rq_answer (rb_queue rb @ held)
      in distinct cs \<and> sorted (map rq_answer (rb_queue rb)) \<and> unanswered (rb_channels rb) (set cs))"

lemma nth_update: "xs[c := v] ! i = (if i = c \<and> c < length xs then v else xs ! i)"
  by (cases "c < length xs") (simp_all add: list_update_beyond)

lemma unanswered_close: "unanswered chs C \<Longrightarrow> unanswered (chs[c := Closed]) C"
  by (auto simp: unanswered_def nth_update split: if_splits)

lemma unanswered_subset: "unanswered chs C \<Longrightarrow> D \<subseteq> C \<Longrightarrow> (\<And>c. c \<in> C - D \<Longrightarrow> chs ! c = Closed) \<Longrightarrow> unanswered chs D"
  unfolding unanswered_def by (metis DiffI channel.distinct(1) subsetD)

lemma unanswered_send: "unanswered chs C \<Longrightarrow> v \<noteq> Waiting \<Longrightarrow> unanswered (chs[c := v]) (C - {c})"
  by (auto simp: unanswered_def nth_update split: if_splits)

lemma unanswered_new: "unanswered chs C \<Longrightarrow> unanswered (chs @ [Waiting]) (insert (length chs) C)"
  by (auto simp: unanswered_def nth_append)

lemma claim_loop_split:
  "claim_loop rb queue = (taken, rest) \<Longrightarrow>
     \<exists>dead. list_all (is_closed rb) dead \<and> queue = dead @ (case taken of None \<Rightarrow> [] | Some rq \<Rightarrow> [rq]) @ rest \<and> (taken = None \<longrightarrow> rest = [])"
proof (induction queue)
  case (Cons rq queue)
  show ?case
  proof (cases "is_closed rb rq")
    case True
    with Cons obtain dead where "list_all (is_closed rb) dead"
      "queue = dead @ (case taken of None \<Rightarrow> [] | Some rq \<Rightarrow> [rq]) @ rest" "taken = None \<longrightarrow> rest = []" by auto
    with True show ?thesis by (intro exI [of _ "rq # dead"]) simp
  next
    case False
    with Cons.prems show ?thesis by (intro exI [of _ "[]"]) auto
  qed
qed simp

lemma inv_closed_nth:
  assumes "unanswered (rb_channels rb) C" and "rq_answer rq \<in> C" and "is_closed rb rq"
  shows "rb_channels rb ! rq_answer rq = Closed"
  using assms by (auto simp: unanswered_def is_closed_def channel_of_def)

lemma inv_claim:
  assumes inv: "counter_inv (rb, held)" and taken: "claim rb = (taken, rb')"
  shows "counter_inv (rb', (case taken of None \<Rightarrow> [] | Some rq \<Rightarrow> [rq]) @ held)"
proof -
  obtain rest where loop: "claim_loop rb (rb_queue rb) = (taken, rest)" and rb': "rb' = rb\<lparr>rb_queue := rest\<rparr>"
    using taken by (auto simp: claim_def split: prod.splits)
  obtain dead where dead: "list_all (is_closed rb) dead"
    and queue: "rb_queue rb = dead @ (case taken of None \<Rightarrow> [] | Some rq \<Rightarrow> [rq]) @ rest"
    using claim_loop_split [OF loop] by blast
  have ua: "unanswered (rb_channels rb) (rq_answer ` set (rb_queue rb @ held))"
    using inv by (simp add: counter_inv_def image_Un)
  have "rb_channels rb ! rq_answer rq = Closed" if "rq \<in> set dead" for rq
    using inv_closed_nth [OF ua] that dead queue by (auto simp: list_all_iff)
  then have "unanswered (rb_channels rb) (rq_answer ` set (rest @ (case taken of None \<Rightarrow> [] | Some rq \<Rightarrow> [rq]) @ held))"
    by (intro unanswered_subset [OF ua]) (auto simp: queue split: option.splits)
  with inv show ?thesis
    by (auto simp: counter_inv_def rb' queue sorted_append image_Un Un_assoc Un_left_commute split: option.splits)
qed

lemma inv_answer:
  assumes inv: "counter_inv (rb, held)" and rq: "rq \<in> set held" and v: "v \<noteq> Waiting"
  shows "counter_inv (if is_closed rb rq then rb else set_channel (rq_answer rq) v rb, remove1 rq held)"
proof -
  have dist: "distinct (map rq_answer (rb_queue rb @ held))" and ua: "unanswered (rb_channels rb) (rq_answer ` set (rb_queue rb @ held))"
    using inv by (simp_all add: counter_inv_def image_Un)
  then have left: "rq_answer ` set (rb_queue rb @ remove1 rq held) = rq_answer ` set (rb_queue rb @ held) - {rq_answer rq}"
    using rq by (auto simp: distinct_map inj_on_def set_remove1_eq)
  have "distinct (map rq_answer (rb_queue rb @ remove1 rq held))"
    using dist by (auto simp: distinct_map set_remove1_eq inj_on_def)
  moreover have "unanswered (rb_channels rb) (rq_answer ` set (rb_queue rb @ remove1 rq held))" if "is_closed rb rq"
    unfolding left
    using inv_closed_nth [OF ua _ that] rq by (intro unanswered_subset [OF ua]) auto
  moreover have "unanswered ((rb_channels rb)[rq_answer rq := v]) (rq_answer ` set (rb_queue rb @ remove1 rq held))"
    unfolding left by (rule unanswered_send [OF ua v])
  ultimately show ?thesis using inv by (auto simp: counter_inv_def set_channel_def image_Un)
qed

lemma inv_close: "counter_inv (rb, held) \<Longrightarrow> counter_inv (set_channel c Closed rb, held)"
  by (auto simp: counter_inv_def set_channel_def unanswered_close)

lemma inv_begin:
  assumes inv: "counter_inv (rb, held)"
  shows "counter_inv (snd (fetch_begin uuid rb), held)"
proof -
  let ?C = "set (map rq_answer (rb_queue rb @ held))"
  have ua: "unanswered (rb_channels rb) ?C" using inv by (simp add: counter_inv_def)
  then have below: "c < length (rb_channels rb)" if "c \<in> ?C" for c using that by (simp add: unanswered_def)
  have "length (rb_channels rb) \<notin> ?C" using below by blast
  moreover have "sorted (map rq_answer (rb_queue rb) @ [length (rb_channels rb)])"
    using inv below by (auto simp: counter_inv_def sorted_append intro: less_imp_le)
  ultimately show ?thesis using inv unanswered_new [OF ua]
    by (auto simp: counter_inv_def fetch_begin_def Let_def)
qed

lemma counter_inv_step: "counter_step s t \<Longrightarrow> counter_inv s \<Longrightarrow> counter_inv t"
proof (induction rule: counter_step.induct)
  case (begun rb held uuid)
  then show ?case by (rule inv_begin)
next
  case (polled rb held c elapsed)
  then show ?case by (auto simp: fetch_poll_def inv_close split: channel.splits)
next
  case (abandoned rb held c)
  then show ?case by (auto simp: fetch_dropped_def inv_close)
next
  case (woken rb held)
  then show ?case by (simp add: wait_for_work_def counter_inv_def)
next
  case (found rb rq rb' held)
  then show ?case using inv_claim [of rb held "Some rq" rb'] by simp
next
  case (none rb rb' held)
  then show ?case using inv_claim [of rb held None rb'] by simp
next
  case (answered rq held rb result)
  then show ?case using inv_answer [of rb held rq "Sent result"] by (simp add: answer_def)
next
  case (died rq held rb)
  then show ?case using inv_answer [of rb held rq Released] by (simp add: drop_claim_def)
qed

lemma counter_inv_reachable: "counter_reachable s \<Longrightarrow> counter_inv s"
proof (induction rule: counter_reachable.induct)
  case initial
  show ?case by (simp add: counter_inv_def new_broker_def unanswered_def)
qed (rule counter_inv_step)

lemma channel_of_set:
  "channel_of (set_channel c v rb) d = (if d = c \<and> c < length (rb_channels rb) then v else channel_of rb d)"
  by (simp add: channel_of_def set_channel_def)

lemma queued_channel:
  assumes "counter_inv (rb, held)" and "rq \<in> set (rb_queue rb)"
  shows "rq_answer rq < length (rb_channels rb) \<and> channel_of rb (rq_answer rq) \<in> {Waiting, Closed}"
proof -
  let ?C = "set (map rq_answer (rb_queue rb @ held))"
  have "rq_answer rq \<in> ?C" using assms(2) by simp
  moreover have "\<forall>c \<in> ?C. c < length (rb_channels rb) \<and> rb_channels rb ! c \<in> {Waiting, Closed}"
    using assms(1) by (simp add: counter_inv_def unanswered_def)
  ultimately have "rq_answer rq < length (rb_channels rb) \<and> rb_channels rb ! rq_answer rq \<in> {Waiting, Closed}" by (rule bspec [rotated])
  then show ?thesis by (simp add: channel_of_def)
qed

text \<open>A request that is given up leaves the live ones, and no other does.\<close>

lemma fetch_dropped_live:
  assumes "counter_inv (rb, held)"
  shows "live_requests (fetch_dropped c rb) = filter (\<lambda>rq. rq_answer rq \<noteq> c) (live_requests rb)"
proof -
  have "\<not> is_closed (fetch_dropped c rb) rq \<longleftrightarrow> rq_answer rq \<noteq> c \<and> \<not> is_closed rb rq" if "rq \<in> set (rb_queue rb)" for rq
    using queued_channel [OF assms that] by (auto simp: fetch_dropped_def is_closed_def channel_of_set)
  moreover have "rb_queue (fetch_dropped c rb) = rb_queue rb" by (simp add: fetch_dropped_def set_channel_def)
  ultimately show ?thesis by (auto simp: live_requests_def intro: filter_cong)
qed

text \<open>A new request goes behind the live ones: its channel is new, so no request of the queue comes to life or dies.\<close>

lemma fetch_begin_live:
  assumes "counter_inv (rb, held)"
  shows "live_requests (snd (fetch_begin uuid rb)) = live_requests rb @ [\<lparr>rq_uuid = uuid, rq_answer = fst (fetch_begin uuid rb)\<rparr>]"
proof -
  let ?rb = "snd (fetch_begin uuid rb)"
  have "is_closed ?rb rq = is_closed rb rq" if "rq \<in> set (rb_queue rb)" for rq
  proof -
    have "rq_answer rq < length (rb_channels rb)" using queued_channel [OF assms that] by simp
    then show ?thesis by (simp add: is_closed_def channel_of_def fetch_begin_def Let_def nth_append)
  qed
  then have "filter (\<lambda>rq. \<not> is_closed ?rb rq) (rb_queue rb) = live_requests rb"
    unfolding live_requests_def by (intro filter_cong) simp_all
  moreover have "\<not> is_closed ?rb \<lparr>rq_uuid = uuid, rq_answer = fst (fetch_begin uuid rb)\<rparr>"
    by (simp add: is_closed_def channel_of_def fetch_begin_def Let_def)
  moreover have "rb_queue ?rb = rb_queue rb @ [\<lparr>rq_uuid = uuid, rq_answer = fst (fetch_begin uuid rb)\<rparr>]"
    by (simp add: fetch_begin_def Let_def)
  ultimately show ?thesis by (simp add: live_requests_def [of ?rb])
qed

section \<open>Properties\<close>

text \<open>Claim C37: the counter refines a first-in-first-out queue of the requests somebody still waits for. In every state
  the counter reaches, a fetch adds its request behind the live ones, one that is given up takes its own away
  and no other, \<open>n\<close> claims return the \<open>n\<close> oldest live
  requests in order of arrival, leave the others in the counter, and lower the reported number by exactly as
  many; an abandoned request is never served and never counted.\<close>

theorem claims_serve_live_in_order:
  assumes "counter_reachable (rb, held)"
  shows "live_requests (snd (fetch_begin uuid rb)) = live_requests rb @ [\<lparr>rq_uuid = uuid, rq_answer = fst (fetch_begin uuid rb)\<rparr>] \<and>
     live_requests (fetch_dropped c rb) = filter (\<lambda>rq. rq_answer rq \<noteq> c) (live_requests rb) \<and>
     fst (serve claim n rb) = take n (live_requests rb) \<and> live_requests (snd (serve claim n rb)) = drop n (live_requests rb) \<and>
     waiting (snd (serve claim n rb)) = waiting rb - n"
  using fetch_begin_live [OF counter_inv_reachable [OF assms]] fetch_dropped_live [OF counter_inv_reachable [OF assms]] counter.serve_in_order counter.serve_outstanding by blast

text \<open>Claim C13: however fetches, claims, answers, timeouts and collectors that die interleave, a fetch that still waits
  has its request in the counter or in a collector's hands, exactly once; the collector's answer is what the
  fetch returns, a collector that dies releases it unserved, and after the claim timeout it returns
  unserved and its request is no longer among the live ones.\<close>

theorem waiting_fetch_never_stranded:
  assumes "counter_reachable (rb, held)" and "channel_of rb c = Waiting"
  shows "(\<exists>rq \<in> set (rb_queue rb @ held). rq_answer rq = c) \<and> distinct (map rq_answer (rb_queue rb @ held)) \<and>
     (\<forall>rq \<in> set held. rq_answer rq = c \<longrightarrow>
        fst (fetch_poll c e (answer rq result rb)) = Some result \<and> fst (fetch_poll c e (drop_claim rq rb)) = Some (Inl Unserved)) \<and>
     (claim_timeout \<le> e \<longrightarrow> (case fetch_poll c e rb of (r, rb') \<Rightarrow>
        r = Some (Inl Unserved) \<and> (\<forall>rq \<in> set (live_requests rb'). rq_answer rq \<noteq> c)))"
proof -
  have c: "c < length (rb_channels rb)" using assms(2) by (auto simp: channel_of_def split: if_splits)
  have "counter_inv (rb, held)" using assms(1) by (rule counter_inv_reachable)
  then have "distinct (map rq_answer (rb_queue rb @ held))" "\<exists>rq \<in> set (rb_queue rb @ held). rq_answer rq = c"
    using c assms(2) by (auto simp: counter_inv_def unanswered_def channel_of_def)
  moreover have "fst (fetch_poll c e (answer rq result rb)) = Some result \<and> fst (fetch_poll c e (drop_claim rq rb)) = Some (Inl Unserved)"
    if "rq_answer rq = c" for rq
    using that c assms(2) by (simp add: answer_def drop_claim_def fetch_poll_def is_closed_def channel_of_set)
  moreover have "(case fetch_poll c e rb of (r, rb') \<Rightarrow>
        r = Some (Inl Unserved) \<and> (\<forall>rq \<in> set (live_requests rb'). rq_answer rq \<noteq> c))" if "claim_timeout \<le> e"
    using that c assms(2) by (auto simp: fetch_poll_def live_requests_def is_closed_def channel_of_set)
  ultimately show ?thesis by blast
qed

text \<open>Two fetches, the first given up on, and a collector that takes the second.\<close>

lemma two_fetches_reachable:
  "\<exists>rb rq. counter_reachable (rb, [rq]) \<and> rq_uuid rq = ''b'' \<and> rq_answer rq = 1 \<and> channel_of rb 1 = Waiting"
proof -
  define rb1 where "rb1 = snd (fetch_begin ''b'' (snd (fetch_begin ''a'' new_broker)))"
  define rb2 where "rb2 = fetch_dropped 0 rb1"
  have "counter_reachable (rb2, [])"
    unfolding rb2_def rb1_def by (intro counter_reachable.further [OF _ counter_step.abandoned]
        counter_reachable.further [OF _ counter_step.begun] counter_reachable.initial)
  moreover have "claim rb2 = (Some \<lparr>rq_uuid = ''b'', rq_answer = 1\<rparr>, rb2\<lparr>rb_queue := []\<rparr>)"
    by (simp add: rb2_def rb1_def fetch_begin_def new_broker_def fetch_dropped_def channel_of_def set_channel_def claim_def
        is_closed_def Let_def)
  then have "counter_step (rb2, []) (rb2\<lparr>rb_queue := []\<rparr>, [\<lparr>rq_uuid = ''b'', rq_answer = 1\<rparr>])" by (rule counter_step.found)
  ultimately have "counter_reachable (rb2\<lparr>rb_queue := []\<rparr>, [\<lparr>rq_uuid = ''b'', rq_answer = 1\<rparr>])"
    by (rule counter_reachable.further)
  moreover have "channel_of rb2 1 = Waiting"
    by (simp add: rb2_def rb1_def fetch_begin_def new_broker_def fetch_dropped_def channel_of_def set_channel_def Let_def)
  ultimately show ?thesis
    by (intro exI [of _ "rb2\<lparr>rb_queue := []\<rparr>"] exI [of _ "\<lparr>rq_uuid = ''b'', rq_answer = 1\<rparr>"]) simp
qed

theorem waiting_fetch_never_stranded_witness:
  "\<exists>rb rq. counter_reachable (rb, [rq]) \<and> rq_uuid rq = ''b'' \<and> fst (fetch_poll 1 9 (answer rq (Inr [7]) rb)) = Some (Inr [7]) \<and>
     fst (fetch_poll 1 180 rb) = Some (Inl Unserved)"
proof -
  obtain rb rq where r: "counter_reachable (rb, [rq])" "rq_uuid rq = ''b''" "rq_answer rq = 1" "channel_of rb 1 = Waiting"
    using two_fetches_reachable by blast
  from waiting_fetch_never_stranded [OF r(1,4), of 9 "Inr [7]"] waiting_fetch_never_stranded [OF r(1,4), of 180 "Inr []"] r
  show ?thesis by (intro exI [of _ rb] exI [of _ rq]) (auto simp: claim_timeout_def split: prod.splits)
qed

theorem claims_serve_live_in_order_witness:
  "live_requests (snd (fetch_begin ''b'' (snd (fetch_begin ''a'' new_broker)))) =
     [\<lparr>rq_uuid = ''a'', rq_answer = 0\<rparr>, \<lparr>rq_uuid = ''b'', rq_answer = 1\<rparr>]"
proof -
  have "counter_reachable (snd (fetch_begin ''a'' new_broker), [])"
    using counter_reachable.further [OF counter_reachable.initial counter_step.begun] .
  from claims_serve_live_in_order [OF this, of "''b''"] claims_serve_live_in_order [OF counter_reachable.initial, of "''a''"]
  show ?thesis by (simp add: new_broker_def fetch_begin_def live_requests_def Let_def)
qed

end
