(* ===== verification/Reconvert.thy ===== *)
theory Reconvert
  imports Converted Indexer_Correct Refetch "HOL-Library.Signed_Division"
begin

text \<open>
  The repairs of \<^verbatim>\<open>src/refetch_service.rs\<close>: reading the header of a stored record, converting a game that was
  fetched again, the guards a replacement has to pass (\<open>reconverted\<close>), and the handling of one record of the index
  (\<open>one_record\<close>) and of one game of the catalogue (\<open>one_game\<close>). What the bucket, the sessions and the broker answer are
  arguments; a panic inside \<^verbatim>\<open>spawn_blocking\<close> reaches the caller as an error.
\<close>

section \<open>Rejections\<close>

datatype unconvertible = NoUuid | ConvertFailed | WrongGame | Truncated

text \<open>The detail of a rejection: which message it is, and the values printed in it.\<close>

datatype detail =
    No_Header | Fresh_Failed | Failed_With string | Other_Game string string | Not_Gzip
  | Fresh_Unreadable parse_error | Stored_Unreadable parse_error
  | Diverges nat nat nat string string | Misses_Tail nat nat "string list"

record rejected =
  rj_why :: unconvertible
  rj_detail :: detail

definition rejected_new :: "unconvertible \<Rightarrow> detail \<Rightarrow> rejected" where
  "rejected_new why d = \<lparr>rj_why = why, rj_detail = d\<rparr>"

record refetch_failure =
  rf_at :: int
  rf_subject :: string
  rf_why :: unconvertible
  rf_detail :: detail

text \<open>The display buffer of the console.\<close>

definition keep_failures :: nat where
  "keep_failures = 200"

definition note_failure :: "int \<Rightarrow> string \<Rightarrow> rejected \<Rightarrow> refetch_failure list \<Rightarrow> refetch_failure list" where
  "note_failure now subject rejected failures =
     (if keep_failures \<le> length failures then tl failures else failures) @
       [\<lparr>rf_at = now, rf_subject = subject, rf_why = rj_why rejected, rf_detail = rj_detail rejected\<rparr>]"

record unconvertible_counts =
  uc_no_uuid :: u64
  uc_convert_failed :: u64
  uc_wrong_game :: u64
  uc_truncated :: u64

definition no_counts :: unconvertible_counts where
  "no_counts = \<lparr>uc_no_uuid = 0, uc_convert_failed = 0, uc_wrong_game = 0, uc_truncated = 0\<rparr>"

definition bump :: "unconvertible \<Rightarrow> unconvertible_counts \<Rightarrow> unconvertible_counts" where
  "bump why c =
     (case why of
        NoUuid \<Rightarrow> c\<lparr>uc_no_uuid := uc_no_uuid c + 1\<rparr>
      | ConvertFailed \<Rightarrow> c\<lparr>uc_convert_failed := uc_convert_failed c + 1\<rparr>
      | WrongGame \<Rightarrow> c\<lparr>uc_wrong_game := uc_wrong_game c + 1\<rparr>
      | Truncated \<Rightarrow> c\<lparr>uc_truncated := uc_truncated c + 1\<rparr>)"

text \<open>The causes the progress line names, with their counts.\<close>

definition counts_summary :: "unconvertible_counts \<Rightarrow> (unconvertible \<times> u64) list" where
  "counts_summary c =
     filter (\<lambda>(_, n). n > 0)
       [(NoUuid, uc_no_uuid c), (ConvertFailed, uc_convert_failed c), (WrongGame, uc_wrong_game c),
        (Truncated, uc_truncated c)]"

section \<open>The header of a stored record\<close>

definition header_int :: "string \<Rightarrow> json \<Rightarrow> int" where
  "header_int k majsoul = (case Option.bind (json_get k majsoul) as_i64 of Some n \<Rightarrow> n | None \<Rightarrow> 0)"

definition header_text :: "string \<Rightarrow> json \<Rightarrow> string" where
  "header_text k majsoul = (case Option.bind (json_get k majsoul) as_str of Some s \<Rightarrow> s | None \<Rightarrow> [])"

definition stored_metadata :: "json \<Rightarrow> game_metadata" where
  "stored_metadata majsoul =
     \<lparr>gm_mode_id = of_int (header_int ''mode_id'' majsoul), gm_room = header_text ''room'' majsoul,
      gm_game_length = header_text ''game_length'' majsoul,
      gm_players = (case Option.bind (json_get ''players'' majsoul) as_u64 of Some n \<Rightarrow> of_nat n | None \<Rightarrow> 0),
      gm_year = of_int (header_int ''year'' majsoul)\<rparr>"

definition stored_header ::
  "(string \<Rightarrow> json option) \<Rightarrow> (string \<Rightarrow> json list option) \<Rightarrow> u8 list \<Rightarrow> (string \<times> game_metadata) option" where
  "stored_header from_str from_str_vec raw =
     (case events from_str from_str_vec raw of
        Inl _ \<Rightarrow> None
      | Inr evs \<Rightarrow>
          Option.bind (find (\<lambda>event. kind event = Some ''start_game'') evs) (\<lambda>start.
          Option.bind (json_get ''majsoul'' start) (\<lambda>majsoul.
          Option.bind (Option.bind (json_get ''uuid'' majsoul) as_str) (\<lambda>uuid.
          Some (uuid, stored_metadata majsoul)))))"

section \<open>Converting again\<close>

record codec =
  cd_gzip :: "u8 list \<Rightarrow> u8 list"
  cd_gunzip :: "u8 list \<Rightarrow> u8 list option"

text \<open>\<^verbatim>\<open>==\<close> on JSON values: the members of an object have no order.\<close>

lemma zip_size [termination_simp]:
  "(a, b) \<in> set (zip xs ys) \<Longrightarrow> size a < Suc (size_list size xs)"
  "(a, b) \<in> set (zip xs ys) \<Longrightarrow> size b < Suc (size_list size ys)"
  by (auto simp: less_Suc_eq_le dest: set_zip_leftD set_zip_rightD intro: size_list_estimation')

fun json_eq :: "json \<Rightarrow> json \<Rightarrow> bool" where
  "json_eq (JArray xs) (JArray ys) = (length xs = length ys \<and> list_all (\<lambda>(x, y). json_eq x y) (zip xs ys))"
| "json_eq (JObject kvs) (JObject kws) =
     (length kvs = length kws \<and> list_all (\<lambda>(k, v). list_ex (\<lambda>(k', w). k = k' \<and> json_eq v w) kws) kvs)"
| "json_eq v w = (v = w)"

lemma json_eq_refl: "json_eq v v"
proof (induction v)
  case (JArray xs)
  then show ?case by (auto simp: list_all_iff in_set_zip)
next
  case (JObject kvs)
  then show ?case by (fastforce simp: list_all_iff list_ex_iff)
qed simp_all

definition kind_text :: "json \<Rightarrow> string" where
  "kind_text event = (case kind event of Some k \<Rightarrow> k | None \<Rightarrow> ''?'')"

definition hands :: "json list \<Rightarrow> nat" where
  "hands evs = length (filter (\<lambda>e. kind_text e = ''end_kyoku'') evs)"

definition closed :: "json list \<Rightarrow> bool" where
  "closed evs \<longleftrightarrow> map_option kind_text (last_opt evs) = Some ''end_game''"

text \<open>Where two streams first differ, as far as both go.\<close>

fun first_difference :: "json list \<Rightarrow> json list \<Rightarrow> nat option" where
  "first_difference (a # as) (b # bs) = (if json_eq a b then map_option Suc (first_difference as bs) else Some 0)"
| "first_difference _ _ = None"

text \<open>The message about two streams that do not match. Its last arm slices the stored events from the
  length of the new ones on, which panics when there are fewer.\<close>

definition divergence :: "json list \<Rightarrow> json list \<Rightarrow> detail result" where
  "divergence fresh before =
     (case first_difference fresh before of
        Some i \<Rightarrow> Inr (Diverges (length fresh) (length before) i (kind_text (before ! i)) (kind_text (fresh ! i)))
      | None \<Rightarrow>
          if length before < length fresh then Inl (Panicked ''range start index out of range for slice'')
          else Inr (Misses_Tail (length fresh) (length before) (map kind_text (drop (length fresh) before))))"

definition converted_fresh :: "libs \<Rightarrow> codec \<Rightarrow> u8 list \<Rightarrow> string \<Rightarrow> u8 list option result" where
  "converted_fresh lb cd pb expected_uuid =
     (case convert_record_bytes (lb_to_string lb) (cd_gzip cd) pb None of
        Inl (Panicked m) \<Rightarrow> Inl (Panicked m)
      | Inl (Bail _) \<Rightarrow> Inr None
      | Inr (uuid, compressed) \<Rightarrow> if uuid \<noteq> expected_uuid then Inr None else Inr (cd_gunzip cd compressed))"

definition reconverted ::
  "libs \<Rightarrow> codec \<Rightarrow> u8 list \<Rightarrow> game_metadata \<Rightarrow> u8 list \<Rightarrow> string \<Rightarrow> (rejected + u8 list) result" where
  "reconverted lb cd pb metadata stored expected_uuid =
     (case convert_record_bytes (lb_to_string lb) (cd_gzip cd) pb (Some metadata) of
        Inl (Panicked m) \<Rightarrow> Inl (Panicked m)
      | Inl (Bail m) \<Rightarrow> Inr (Inl (rejected_new ConvertFailed (Failed_With m)))
      | Inr (uuid, compressed) \<Rightarrow>
          if uuid \<noteq> expected_uuid then Inr (Inl (rejected_new WrongGame (Other_Game expected_uuid uuid)))
          else case cd_gunzip cd compressed of
            None \<Rightarrow> Inr (Inl (rejected_new ConvertFailed Not_Gzip))
          | Some mjai \<Rightarrow>
              (case events_of_raw lb mjai of
                 Inl e \<Rightarrow> Inr (Inl (rejected_new ConvertFailed (Fresh_Unreadable e)))
               | Inr fresh_events \<Rightarrow>
                   (case events_of_raw lb stored of
                      Inl e \<Rightarrow> Inr (Inl (rejected_new ConvertFailed (Stored_Unreadable e)))
                    | Inr before_events \<Rightarrow>
                        if hands fresh_events \<noteq> hands before_events \<or> \<not> closed fresh_events
                        then attempt (divergence fresh_events before_events) (\<lambda>d. Inr (Inl (rejected_new Truncated d)))
                        else Inr (Inr mjai))))"

section \<open>One record, one game\<close>

datatype walk_outcome =
  Replaced | Refused_Game | Unreadable | Unconvertible unconvertible | Duplicate | Unserved_Game

record repair_state =
  rs_throttled :: bool
  rs_failures :: "refetch_failure list"
  rs_world :: world

text \<open>\<^verbatim>\<open>yield_to_packing\<close>: stands aside as long as the samples of the lag stay at half the ceiling or above.
  \<open>None\<close> when the samples run out before that.\<close>

fun yield_to_packing :: "i64 \<Rightarrow> i64 list \<Rightarrow> bool \<Rightarrow> (bool \<times> i64 list) option" where
  "yield_to_packing ceiling [] throttled = None"
| "yield_to_packing ceiling (now # later) throttled =
     (if sint ceiling sdiv 2 \<le> sint now then yield_to_packing ceiling later True else Some (False, later))"

record record_env =
  re_raw :: "u8 list option"
  re_fetch :: fetch_result
  re_sessions :: nat
  re_now :: int
  re_lags :: "i64 list"
  re_broker :: "nat \<Rightarrow> kafka_record list \<Rightarrow> outcome"

definition no_session :: fault where
  "no_session = Bail ''no session took the request''"

definition reject :: "int \<Rightarrow> string \<Rightarrow> rejected \<Rightarrow> repair_state \<Rightarrow> walk_outcome result \<times> repair_state" where
  "reject now subject rejected st =
     (Inr (Unconvertible (rj_why rejected)), st\<lparr>rs_failures := note_failure now subject rejected (rs_failures st)\<rparr>)"

definition one_record ::
  "libs \<Rightarrow> codec \<Rightarrow> kafka \<Rightarrow> record_env \<Rightarrow> index_row \<Rightarrow> repair_state \<Rightarrow> (walk_outcome result \<times> repair_state) option" where
  "one_record lb cd kafka env row st =
     (case re_raw env of
        None \<Rightarrow> Some (Inr Unreadable, st)
      | Some raw \<Rightarrow>
          (case stored_header (lb_from_str lb) (lb_from_str_vec lb) raw of
             None \<Rightarrow> Some (reject (re_now env) (uuid_to_string (lb_texts lb) (rw_id row)) (rejected_new NoUuid No_Header) st)
           | Some (uuid, metadata) \<Rightarrow>
               (case re_fetch env of
                  Inl Unserved \<Rightarrow> Some (if re_sessions env = 0 then Inl no_session else Inr Unserved_Game, st)
                | Inl (Refused _) \<Rightarrow> Some (Inr Refused_Game, st)
                | Inr pb \<Rightarrow>
                    (case reconverted lb cd pb metadata raw uuid of
                       Inl fault \<Rightarrow> Some (Inl fault, st)
                     | Inr (Inl rejected) \<Rightarrow> Some (reject (re_now env) uuid rejected st)
                     | Inr (Inr mjai) \<Rightarrow>
                         map_option (\<lambda>(throttled, _).
                           case reindex_one lb kafka (re_broker env) row mjai (Some pb) (wd_topic (rs_world st)) of
                             (r, topic) \<Rightarrow>
                               (case r of Inl _ \<Rightarrow> Inl (Bail ''not produced'') | Inr _ \<Rightarrow> Inr Replaced,
                                st\<lparr>rs_throttled := throttled, rs_world := (rs_world st)\<lparr>wd_topic := topic\<rparr>\<rparr>))
                           (yield_to_packing (max_lag kafka) (re_lags env) (rs_throttled st))))))"

text \<open>Storing a game that was never stored: every attempt stands aside, then ingests; only a full queue
  leads to another one. \<open>None\<close> when it is still at it after all given attempts.\<close>

definition paipuya_source :: string where
  "paipuya_source = ''paipuya''"

fun store_game ::
  "libs \<Rightarrow> (i64 list \<times> kafka \<times> ingest_env) list \<Rightarrow> string \<Rightarrow> u8 list \<Rightarrow> u8 list \<Rightarrow> repair_state \<Rightarrow>
   (walk_outcome result \<times> repair_state) option" where
  "store_game lb [] uuid mjai pb st = None"
| "store_game lb ((lags, kafka, env) # later) uuid mjai pb st =
     Option.bind (yield_to_packing (max_lag kafka) lags (rs_throttled st)) (\<lambda>(throttled, _).
       case ingest_one lb kafka env paipuya_source uuid None mjai (Some pb) (rs_world st) of (r, wd) \<Rightarrow>
         let st' = st\<lparr>rs_throttled := throttled, rs_world := wd\<rparr>
         in case r of
              Inr accepted \<Rightarrow> Some (Inr (if ac_duplicate accepted then Duplicate else Replaced), st')
            | Inl (Backlogged _) \<Rightarrow> store_game lb later uuid mjai pb st'
            | Inl _ \<Rightarrow> Some (Inl (Bail ''not stored''), st'))"

record game_env =
  ge_fetch :: fetch_result
  ge_sessions :: nat
  ge_now :: int
  ge_attempts :: "(i64 list \<times> kafka \<times> ingest_env) list"

definition one_game ::
  "libs \<Rightarrow> codec \<Rightarrow> game_env \<Rightarrow> string \<Rightarrow> repair_state \<Rightarrow> (walk_outcome result \<times> repair_state) option" where
  "one_game lb cd env uuid st =
     (case ge_fetch env of
        Inl Unserved \<Rightarrow> Some (if ge_sessions env = 0 then Inl no_session else Inr Unserved_Game, st)
      | Inl (Refused _) \<Rightarrow> Some (Inr Refused_Game, st)
      | Inr pb \<Rightarrow>
          (case converted_fresh lb cd pb uuid of
             Inl fault \<Rightarrow> Some (Inl fault, st)
           | Inr None \<Rightarrow> Some (reject (ge_now env) uuid (rejected_new ConvertFailed Fresh_Failed) st)
           | Inr (Some mjai) \<Rightarrow> store_game lb (ge_attempts env) uuid mjai pb st))"

section \<open>Reading back what the converter wrote\<close>

text \<open>What the libraries promise of one conversion: decompression undoes compression and every event of
  the stream parses back.\<close>

definition rereads :: "libs \<Rightarrow> codec \<Rightarrow> json list \<Rightarrow> bool" where
  "rereads lb cd es \<longleftrightarrow> (let bytes = ndjson_bytes (lb_to_string lb) es in cd_gunzip cd (cd_gzip cd bytes) = Some bytes) \<and>
     list_all (prints_back (lb_to_string lb) (lb_from_str lb)) es"

abbreviation stream_bytes :: "libs \<Rightarrow> json list \<Rightarrow> u8 list" where
  "stream_bytes lb es \<equiv> ndjson_bytes (lb_to_string lb) es"

lemma conversion_reads:
  assumes "conversion pb metadata = Inr (fetched, es)" and "rereads lb cd es"
  shows "events_of_raw lb (stream_bytes lb es) = Inr es"
proof -
  from assms(1) obtain game evs where "events_to_mjai game evs (header_of game metadata) = Inr es"
    by (rule conversion_obtain)
  then show ?thesis
    by (rule converted_events_read) (use assms(2) in \<open>simp add: rereads_def list_all_iff\<close>)
qed

lemma conversion_closed:
  assumes "conversion pb metadata = Inr (fetched, es)"
  shows "closed es"
proof -
  from assms obtain game evs where "events_to_mjai game evs (header_of game metadata) = Inr es"
    by (rule conversion_obtain)
  from events_to_mjai_brackets [OF this] show ?thesis
    by (auto simp: closed_def last_opt_def kind_text_def end_game_event_def kind_def)
qed

lemma as_i64_i32: "as_i64 (j_i32 w) = Some (sint w)"
proof -
  have "- (2 ^ 31) \<le> sint w" "sint w < 2 ^ 31"
    using sint_greater_eq [of w] sint_less [of w] by simp_all
  then show ?thesis by (simp add: as_i64_def)
qed

lemma stored_metadata_header: "stored_metadata (majsoul_header game (Some metadata)) = metadata"
  by (simp add: stored_metadata_def header_int_def header_text_def majsoul_header_def Let_def as_i64_i32 as_u64_u8)

lemma stored_header_converted:
  assumes "conversion pb (Some metadata) = Inr (fetched, es)" and "rereads lb cd es"
  shows "stored_header (lb_from_str lb) (lb_from_str_vec lb) (stream_bytes lb es) = Some (fetched, metadata)"
proof -
  from assms(1) obtain game evs where es: "events_to_mjai game evs (header_of game (Some metadata)) = Inr es"
    and fetched: "fetched = gr_uuid game"
    by (rule conversion_obtain)
  have "find (\<lambda>e. kind e = Some ''start_game'') es = Some (start_game_event game (Some metadata))"
    using start_of_converted(3) [OF es] by (simp add: header_of_def)
  moreover have "json_get ''majsoul'' (start_game_event game (Some metadata)) = Some (majsoul_header game (Some metadata))"
    by (simp add: start_game_event_def)
  moreover have "json_get ''uuid'' (majsoul_header game (Some metadata)) = Some (JString (gr_uuid game))"
    by (simp add: majsoul_header_def Let_def)
  ultimately show ?thesis
    by (simp add: stored_header_def conversion_reads [OF assms] stored_metadata_header fetched)
qed

lemma first_difference_None:
  "first_difference as bs = None \<longleftrightarrow>
     list_all2 json_eq (take (length bs) as) (take (length as) bs)"
  by (induction as bs rule: first_difference.induct) auto

lemma reconverted_steps:
  assumes "conversion pb (Some metadata) = Inr (fetched, es)" and "rereads lb cd es"
  shows "reconverted lb cd pb metadata stored uuid =
     (if fetched \<noteq> uuid then Inr (Inl (rejected_new WrongGame (Other_Game uuid fetched)))
      else case events_of_raw lb stored of
             Inl e \<Rightarrow> Inr (Inl (rejected_new ConvertFailed (Stored_Unreadable e)))
           | Inr before \<Rightarrow>
               if hands es \<noteq> hands before
               then attempt (divergence es before) (\<lambda>d. Inr (Inl (rejected_new Truncated d)))
               else Inr (Inr (stream_bytes lb es)))"
proof -
  have "cd_gunzip cd (cd_gzip cd (stream_bytes lb es)) = Some (stream_bytes lb es)"
    using assms(2) by (simp add: rereads_def Let_def)
  then show ?thesis
    using conversion_reads [OF assms] conversion_closed [OF assms(1)]
    by (simp add: reconverted_def convert_record_bytes_conversion assms(1) split: sum.split)
qed

lemma divergence_cases:
  "(\<exists>m. divergence fresh before = Inl (Panicked m)) \<and> length before < length fresh \<and>
      list_all2 json_eq (take (length before) fresh) before \<or>
   (\<exists>d. divergence fresh before = Inr d) \<and>
      \<not> (length before < length fresh \<and> list_all2 json_eq (take (length before) fresh) before)"
  using first_difference_None [of fresh before]
  by (auto simp: divergence_def split: option.splits)

section \<open>Properties of a replacement\<close>


text \<open>The verdict on a conversion that read back. It is accepted exactly when it is the game that was asked for and
  the stored record has as many finished hands. It panics exactly when the stored record lacks hands at its end and
  agrees with the new stream as far as it goes, that is for a stored record that was cut short: the message
  about the difference then slices past the end. In every other case the record is kept and the cause is
  reported.\<close>

theorem reconversion_verdict:
  assumes "conversion pb (Some metadata) = Inr (fetched, es)" and "rereads lb cd es"
  shows "(case reconverted lb cd pb metadata stored uuid of
       Inr (Inr mjai) \<Rightarrow> fetched = uuid \<and> mjai = stream_bytes lb es \<and>
         (\<exists>before. events_of_raw lb stored = Inr before \<and> hands before = hands es)
     | Inr (Inl rejected) \<Rightarrow>
         (case rj_why rejected of
            NoUuid \<Rightarrow> False
          | WrongGame \<Rightarrow> fetched \<noteq> uuid
          | ConvertFailed \<Rightarrow> fetched = uuid \<and> (\<exists>e. events_of_raw lb stored = Inl e)
          | Truncated \<Rightarrow> fetched = uuid \<and> (\<exists>before. events_of_raw lb stored = Inr before \<and> hands before \<noteq> hands es \<and>
              \<not> (length before < length es \<and> list_all2 json_eq (take (length before) es) before)))
     | Inl fault \<Rightarrow> is_panic fault \<and> fetched = uuid \<and>
         (\<exists>before. events_of_raw lb stored = Inr before \<and> hands before \<noteq> hands es \<and>
            length before < length es \<and> list_all2 json_eq (take (length before) es) before))"
proof (cases "events_of_raw lb stored")
  case (Inr before)
  show ?thesis
    unfolding reconverted_steps [OF assms] Inr using divergence_cases [of es before]
    by (auto simp: rejected_new_def split: sum.splits)
qed (simp add: reconverted_steps [OF assms] rejected_new_def)

section \<open>A game that was stored is held\<close>

lemma claim_held:
  "Catalog.claim digest now reply selected meanwhile key u sha256 scope claims = (Inr c, claims') \<Longrightarrow>
     claims' (digest (as_bytes key)) \<noteq> None"
  by (auto simp: Catalog.claim_def insert_claim_def lookup_claim_def Let_def split: if_splits option.splits prod.splits)

lemma ingest_claim_held:
  assumes "ingest_claim lb kafka env source idempotency_key played_at raw pb claims = (Inr c, claims')"
    and "metadata_of_raw lb raw = Inr md" and "md_majsoul_uuid md = Some uuid"
  shows "claims' (game_claim_hash lb uuid) \<noteq> None"
  using assms claim_held
  by (fastforce simp: ingest_claim_def claim_scope_def game_claim_hash_def Let_def
      split: if_splits sum.splits prod.splits idempotency_claim.splits)

lemma produce_claimed_done:
  "produce_claimed lb kafka env batch claims log = (Inr u, claims', log') \<Longrightarrow> claims' = claims"
  by (auto simp: produce_claimed_def Let_def split: if_splits sum.splits prod.splits)

lemma ingest_one_held:
  assumes "ingest_one lb kafka env source idempotency_key played_at raw pb wd = (Inr accepted, wd')"
    and "metadata_of_raw lb raw = Inr md" and "md_majsoul_uuid md = Some uuid"
  shows "wd_claims wd' (game_claim_hash lb uuid) \<noteq> None"
  using assms(1) ingest_claim_held [OF _ assms(2,3)] produce_claimed_done
  by (fastforce simp: ingest_one_def split: sum.splits prod.splits)

lemma store_game_held:
  assumes "store_game lb attempts uuid mjai pb st = Some (Inr result, st')"
    and "metadata_of_raw lb mjai = Inr md" and "md_majsoul_uuid md = Some uuid"
  shows "wd_claims (rs_world st') (game_claim_hash lb uuid) \<noteq> None"
  using assms
proof (induction lb attempts uuid mjai pb st rule: store_game.induct)
  case (2 lb lags kafka env later uuid mjai pb st)
  from "2.prems"(1) obtain throttled rest where yield:
      "yield_to_packing (max_lag kafka) lags (rs_throttled st) = Some (throttled, rest)"
    by (auto simp: bind_eq_Some_conv)
  obtain r wd where ingest: "ingest_one lb kafka env paipuya_source uuid None mjai (Some pb) (rs_world st) = (r, wd)"
    by fastforce
  show ?case
  proof (cases r)
    case (Inl e)
    with "2.prems"(1) yield ingest obtain n where "e = Backlogged n"
      by (auto simp: Let_def split: ingest_error.splits)
    with "2.IH" [OF yield refl ingest [symmetric] refl] Inl "2.prems" yield ingest show ?thesis
      by (simp add: Let_def)
  next
    case (Inr accepted)
    with ingest_one_held [OF _ "2.prems"(2,3)] ingest have "wd_claims wd (game_claim_hash lb uuid) \<noteq> None" by blast
    with "2.prems"(1) yield ingest Inr show ?thesis by (auto simp: Let_def)
  qed
qed simp

lemma conversion_metadata:
  assumes "conversion pb metadata = Inr (fetched, es)" and "rereads lb cd es"
    and "str_trim fetched = fetched" and "fetched \<noteq> []" and "length fetched \<le> 128"
  shows "\<exists>md. metadata_of_raw lb (stream_bytes lb es) = Inr md \<and> md_majsoul_uuid md = Some fetched"
proof -
  from assms(1) obtain game evs where es: "events_to_mjai game evs (header_of game metadata) = Inr es"
    and fetched: "fetched = gr_uuid game"
    by (rule conversion_obtain)
  show ?thesis
    using assms(3-5)
    by (simp add: parse_metadata_events conversion_reads [OF assms(1,2)] start_of_converted(1) [OF es] converted_uuid fetched Let_def)
qed

text \<open>A catalogued game that was stored, or found stored, is never asked for again. When the walk books a
  fetched game as stored or as a duplicate, the table of claims holds the hash by which the next page comparison
  looks the game up, whatever the attempts to store it went through; and a game whose bytes name another one is
  never stored.\<close>

theorem stored_game_is_held:
  assumes "ge_fetch env = Inr pb" and "conversion pb None = Inr (fetched, es)" and "rereads lb cd es"
    and "str_trim uuid = uuid" and "uuid \<noteq> []" and "length uuid \<le> 128"
    and "one_game lb cd env uuid st = Some (Inr result, st')"
  shows "(result \<in> {Replaced, Duplicate} \<longrightarrow>
       fetched = uuid \<and> claimed_games [game_claim_hash lb uuid] (wd_claims (rs_world st')) = {game_claim_hash lb uuid}) \<and>
     (fetched \<noteq> uuid \<longrightarrow> rs_world st' = rs_world st)"
proof (cases "fetched = uuid")
  case True
  have "cd_gunzip cd (cd_gzip cd (stream_bytes lb es)) = Some (stream_bytes lb es)"
    using assms(3) by (simp add: rereads_def Let_def)
  then have "store_game lb (ge_attempts env) uuid (stream_bytes lb es) pb st = Some (Inr result, st')"
    using assms(7) by (simp add: one_game_def assms(1) converted_fresh_def convert_record_bytes_conversion assms(2) True)
  moreover obtain md where "metadata_of_raw lb (stream_bytes lb es) = Inr md" "md_majsoul_uuid md = Some uuid"
    using conversion_metadata [OF assms(2,3)] assms(4-6) True by blast
  ultimately have "wd_claims (rs_world st') (game_claim_hash lb uuid) \<noteq> None"
    by (rule store_game_held)
  then show ?thesis using True by (auto simp: claimed_games_def)
next
  case False
  then show ?thesis
    using assms(7) by (auto simp: one_game_def assms(1) converted_fresh_def convert_record_bytes_conversion assms(2) reject_def)
qed

section \<open>Witnesses\<close>

definition sample_mode :: game_metadata where
  "sample_mode = \<lparr>gm_mode_id = 9, gm_room = ''gold'', gm_game_length = ''south'', gm_players = 4, gm_year = 2024\<rparr>"

definition repair_libs :: "game_metadata option \<Rightarrow> libs" where
  "repair_libs metadata = \<lparr>lb_texts = toy_texts, lb_from_str = toy_parse metadata, lb_from_str_vec = (\<lambda>_. None),
     lb_to_string = toy_print, lb_timestamp_ok = (\<lambda>_. True), lb_digest = (\<lambda>b. b), lb_hex = of_bytes,
     lb_compress = Some, lb_bulk = (\<lambda>b _. Some b), lb_approximate_size = (\<lambda>_. 1), lb_month_of = (\<lambda>_. 0)\<rparr>"

definition plain_codec :: codec where
  "plain_codec = \<lparr>cd_gzip = (\<lambda>b. b), cd_gunzip = Some\<rparr>"

lemma sample_rereads: "rereads (repair_libs metadata) plain_codec (sample_stream metadata)"
  using sample_prints_back [of _ metadata] by (auto simp: rereads_def plain_codec_def repair_libs_def Let_def list_all_iff)


theorem reconversion_verdict_witness:
  "\<exists>rejected. reconverted (repair_libs (Some sample_mode)) plain_codec (enc_record sample_record) sample_mode [] ''v'' = Inr (Inl rejected) \<and>
     rj_why rejected = WrongGame"
  using reconversion_verdict [OF sample_conversion sample_rereads, where stored = "[]" and uuid = "''v''" and metadata = sample_mode]
  by (simp add: reconverted_steps [OF sample_conversion sample_rereads] rejected_new_def)

definition ready_kafka :: kafka where
  "ready_kafka = \<lparr>kf_producers = 1, kf_lag = [0], kf_max_lag = 10\<rparr>"

definition calm_env :: ingest_env where
  "calm_env = \<lparr>ie_now = 0, ie_new_id = replicate 16 65, ie_insert = Done, ie_selected = True, ie_meanwhile = (\<lambda>c. c),
     ie_broker = (\<lambda>_ _. Done), ie_release = (\<lambda>_. Done)\<rparr>"

definition fetched_env :: game_env where
  "fetched_env = \<lparr>ge_fetch = Inr (enc_record sample_record), ge_sessions = 1, ge_now = 0,
     ge_attempts = [([9, 0], ready_kafka, calm_env)]\<rparr>"

definition empty_world :: world where
  "empty_world = \<lparr>wd_claims = Map.empty, wd_topic = (\<lambda>_. []), wd_offsets = Map.empty,
     wd_store = \<lparr>ps_legacy = [], ps_staging = [], ps_objects = Map.empty\<rparr>, wd_index = [], wd_games = []\<rparr>"

definition fresh_repair :: repair_state where
  "fresh_repair = \<lparr>rs_throttled = False, rs_failures = [], rs_world = empty_world\<rparr>"

lemma ready_lag: "sint (max_lag ready_kafka) = 10" "sint (lag ready_kafka) = 0" "kf_producers ready_kafka = 1"
  by (simp_all add: max_lag_def lag_def ready_kafka_def i64_saturate_def)

lemma calm_ingest:
  assumes "metadata_of_raw lb raw = Inr md" and "md_majsoul_uuid md = Some uuid"
  shows "\<exists>accepted wd. ingest_one lb ready_kafka calm_env source idempotency_key played_at raw pb empty_world = (Inr accepted, wd) \<and>
     \<not> ac_duplicate accepted"
  using assms
  by (simp add: ingest_one_def ingest_claim_def ready_lag claim_scope_def Catalog.claim_def insert_claim_def calm_env_def
      empty_world_def Let_def produce_claimed_def is_duplicate_def List.map_filter_def produce_batch_def routed_def partition_for_def
      produce_chunks_def chunk_step_def produce_chunk_def)

theorem stored_game_is_held_witness:
  "\<exists>result st. one_game (repair_libs None) plain_codec fetched_env ''u'' fresh_repair = Some (Inr result, st) \<and>
     result = Replaced \<and> game_claim_hash (repair_libs None) ''u'' \<in> dom (wd_claims (rs_world st))"
proof -
  have uuid: "str_trim ''u'' = ''u''" "''u'' \<noteq> []" "length ''u'' \<le> 128"
    by (simp_all add: str_trim_def str_chars_Cons_ascii byte_of_char_def is_white_space_def white_space_def as_bytes_def)
  obtain md where md: "metadata_of_raw (repair_libs None) (stream_bytes (repair_libs None) (sample_stream None)) = Inr md"
      "md_majsoul_uuid md = Some ''u''"
    using conversion_metadata [OF sample_conversion sample_rereads, of None] uuid by blast
  have "\<exists>st. one_game (repair_libs None) plain_codec fetched_env ''u'' fresh_repair = Some (Inr Replaced, st)"
    using calm_ingest [OF md, of paipuya_source "''u''" None "Some (enc_record sample_record)"]
    by (auto simp: ready_lag signed_divide_int_def fresh_repair_def one_game_def fetched_env_def converted_fresh_def convert_record_bytes_conversion sample_conversion plain_codec_def)
  then obtain st where run: "one_game (repair_libs None) plain_codec fetched_env ''u'' fresh_repair = Some (Inr Replaced, st)" by blast
  have "ge_fetch fetched_env = Inr (enc_record sample_record)" by (simp add: fetched_env_def)
  from stored_game_is_held [OF this sample_conversion sample_rereads uuid run] run show ?thesis
    by (auto simp: claimed_games_def)
qed

end
