(* ===== verification/Walk.thy ===== *)
theory Walk
  imports Reconvert "HOL-Library.Product_Lexorder" "HOL-Library.List_Lexorder" "HOL-Library.Char_ord"
begin

text \<open>
  The walks of \<^verbatim>\<open>src/refetch_service.rs\<close> over the catalogue of known games: the pages that are read but not
  finished (\<open>pending_pages\<close>), one pass (\<open>sweep_turn\<close> is one turn of its loop), and the tally that decides when to
  stop (\<open>after_round\<close>). From \<^verbatim>\<open>src/catalog.rs\<close> it uses the listing of the catalogue and the durable cursor. What the
  databases answer, which request returns next and with what outcome are the input of a turn.
\<close>

section \<open>The catalogue and its cursor\<close>

text \<open>A position is the sorting key of the catalogue: the millisecond a game started and its uuid.\<close>

type_synonym sweep_position = "int \<times> string"

definition beyond :: "sweep_position option \<Rightarrow> sweep_position \<Rightarrow> bool" where
  "beyond from r \<longleftrightarrow> (case from of None \<Rightarrow> True | Some p \<Rightarrow> p < r)"

definition game_uuid_listings ::
  "(int \<Rightarrow> bool) \<Rightarrow> sweep_position list \<Rightarrow> sweep_position option \<Rightarrow> nat \<Rightarrow> sweep_position list" where
  "game_uuid_listings timestamp_ok catalogue from limit =
     remdups_adj (filter (\<lambda>r. timestamp_ok (fst r)) (take limit (sort (filter (beyond from) catalogue))))"

definition page_size :: nat where
  "page_size = 1000"

definition unclaimed :: "libs \<Rightarrow> string list \<Rightarrow> u8 list set \<Rightarrow> string list" where
  "unclaimed lb uuids held = filter (\<lambda>uuid. game_claim_hash lb uuid \<notin> held) uuids"

section \<open>Pages that are read but not finished\<close>

record page_commit =
  pc_position :: sweep_position
  pc_rows :: u64
  pc_present :: u64
  pc_outstanding :: nat
  pc_unserved :: bool

record pending_pages =
  pp_pages :: "page_commit list"
  pp_done :: nat

record committed =
  co_position :: sweep_position
  co_rows :: u64
  co_present :: u64

definition no_pages :: pending_pages where
  "no_pages = \<lparr>pp_pages = [], pp_done = 0\<rparr>"

definition push_page :: "page_commit \<Rightarrow> pending_pages \<Rightarrow> nat \<times> pending_pages" where
  "push_page page pp = (pp_done pp + length (pp_pages pp), pp\<lparr>pp_pages := pp_pages pp @ [page]\<rparr>)"

definition answered :: "nat \<Rightarrow> bool \<Rightarrow> pending_pages \<Rightarrow> pending_pages" where
  "answered page unserved pp =
     (if pp_done pp \<le> page \<and> page - pp_done pp < length (pp_pages pp) then
        let entry = pp_pages pp ! (page - pp_done pp)
        in pp\<lparr>pp_pages := (pp_pages pp)[page - pp_done pp :=
             entry\<lparr>pc_outstanding := pc_outstanding entry - 1, pc_unserved := pc_unserved entry \<or> unserved\<rparr>]\<rparr>
      else pp)"

definition is_finished :: "page_commit \<Rightarrow> bool" where
  "is_finished page \<longleftrightarrow> pc_outstanding page = 0 \<and> \<not> pc_unserved page"

definition commit_one :: "page_commit \<Rightarrow> committed option \<Rightarrow> committed" where
  "commit_one page sofar =
     \<lparr>co_position = pc_position page,
      co_rows = (case sofar of None \<Rightarrow> 0 | Some c \<Rightarrow> co_rows c) + pc_rows page,
      co_present = (case sofar of None \<Rightarrow> 0 | Some c \<Rightarrow> co_present c) + pc_present page\<rparr>"

fun commit_loop :: "committed option \<Rightarrow> page_commit list \<Rightarrow> nat \<Rightarrow> committed option \<times> page_commit list \<times> nat" where
  "commit_loop sofar [] gone = (sofar, [], gone)"
| "commit_loop sofar (page # pages) gone =
     (if is_finished page then commit_loop (Some (commit_one page sofar)) pages (Suc gone)
      else (sofar, page # pages, gone))"

definition committable :: "pending_pages \<Rightarrow> committed option \<times> pending_pages" where
  "committable pp =
     (case commit_loop None (pp_pages pp) (pp_done pp) of
        (c, pages, gone) \<Rightarrow> (c, \<lparr>pp_pages = pages, pp_done = gone\<rparr>))"

section \<open>One pass\<close>

record pass_outcome =
  po_scanned :: u64
  po_replaced :: u64
  po_finished :: bool

definition interrupted :: "u64 \<Rightarrow> u64 \<Rightarrow> pass_outcome" where
  "interrupted scanned replaced = \<lparr>po_scanned = scanned, po_replaced = replaced, po_finished = False\<rparr>"

definition finished :: "u64 \<Rightarrow> u64 \<Rightarrow> pass_outcome" where
  "finished scanned replaced = \<lparr>po_scanned = scanned, po_replaced = replaced, po_finished = True\<rparr>"

record refetch_progress =
  rp_pass :: u32
  rp_scanned :: u64
  rp_replaced :: u64
  rp_present :: u64
  rp_duplicates :: u64
  rp_position :: "int option"
  rp_refused :: u64
  rp_unreadable :: u64
  rp_unconvertible :: u64
  rp_unconvertible_by :: unconvertible_counts

text \<open>The local variables of the loop, the progress card and the durable cursor.\<close>

record sweep =
  sw_reading_from :: "sweep_position option"
  sw_fetching :: "(nat \<times> string) list"
  sw_pending :: pending_pages
  sw_queued :: "(nat \<times> string) list"
  sw_listed_everything :: bool
  sw_unserved :: nat
  sw_scanned :: u64
  sw_replaced :: u64
  sw_progress :: refetch_progress
  sw_cursor :: "sweep_position option"

definition begin_sweep :: "sweep_position option \<Rightarrow> int option \<Rightarrow> refetch_progress \<Rightarrow> sweep" where
  "begin_sweep cursor sweep_from progress =
     \<lparr>sw_reading_from = (case cursor of Some p \<Rightarrow> Some p | None \<Rightarrow> map_option (\<lambda>started_at. (started_at, [])) sweep_from),
      sw_fetching = [], sw_pending = no_pages, sw_queued = [], sw_listed_everything = False, sw_unserved = 0,
      sw_scanned = 0, sw_replaced = 0, sw_progress = progress, sw_cursor = cursor\<rparr>"

text \<open>What a turn meets: whether the run is still the current one, whether the listing and the lookup of the claims
  were answered and what the claims were, the fate of the write of the cursor and of its deletion, which request
  in the air returns, whether its task died, and its outcome.\<close>

record turn_input =
  ti_current :: bool
  ti_listed :: bool
  ti_looked_up :: bool
  ti_claims :: claims
  ti_saved :: outcome
  ti_cleared :: outcome
  ti_returns :: nat
  ti_died :: bool
  ti_outcome :: "walk_outcome result"

definition wants_page :: "nat \<Rightarrow> sweep \<Rightarrow> bool" where
  "wants_page in_flight s \<longleftrightarrow> \<not> sw_listed_everything s \<and> sw_unserved s = 0 \<and> length (sw_queued s) < in_flight"

definition next_page :: "(int \<Rightarrow> bool) \<Rightarrow> sweep_position list \<Rightarrow> sweep \<Rightarrow> sweep_position list" where
  "next_page timestamp_ok catalogue s = game_uuid_listings timestamp_ok catalogue (sw_reading_from s) page_size"

definition held_games :: "libs \<Rightarrow> claims \<Rightarrow> string list \<Rightarrow> u8 list set" where
  "held_games lb claims uuids = claimed_games (map (game_claim_hash lb) uuids) claims"

definition take_page :: "libs \<Rightarrow> claims \<Rightarrow> sweep_position list \<Rightarrow> sweep \<Rightarrow> sweep" where
  "take_page lb claims page s =
     (let uuids = map snd page;
          wanted = unclaimed lb uuids (held_games lb claims uuids);
          (number, pending) = push_page
            \<lparr>pc_position = last page, pc_rows = of_nat (length page), pc_present = of_nat (length page - length wanted),
             pc_outstanding = length wanted, pc_unserved = False\<rparr> (sw_pending s)
      in s\<lparr>sw_pending := pending, sw_queued := sw_queued s @ map (Pair number) wanted, sw_reading_from := Some (last page)\<rparr>)"

definition read_ahead ::
  "libs \<Rightarrow> (int \<Rightarrow> bool) \<Rightarrow> sweep_position list \<Rightarrow> nat \<Rightarrow> turn_input \<Rightarrow> sweep \<Rightarrow> sweep result" where
  "read_ahead lb timestamp_ok catalogue in_flight inp s =
     (if wants_page in_flight s then
        if \<not> ti_listed inp then Inl (Bail ''listing'')
        else let page = next_page timestamp_ok catalogue s
             in if page = [] then Inr (s\<lparr>sw_listed_everything := True\<rparr>)
                else if \<not> ti_looked_up inp then Inl (Bail ''claims'')
                else Inr (take_page lb (ti_claims inp) page s)
      else Inr s)"

definition commit_pages :: "outcome \<Rightarrow> sweep \<Rightarrow> sweep" where
  "commit_pages saved s =
     (case committable (sw_pending s) of
        (None, pending) \<Rightarrow> s\<lparr>sw_pending := pending\<rparr>
      | (Some c, pending) \<Rightarrow>
          s\<lparr>sw_pending := pending,
            sw_cursor := (if took_effect saved then Some (co_position c) else sw_cursor s),
            sw_scanned := sw_scanned s + co_rows c,
            sw_progress := (sw_progress s)\<lparr>rp_scanned := rp_scanned (sw_progress s) + co_rows c,
              rp_present := rp_present (sw_progress s) + co_present c, rp_position := Some (fst (co_position c))\<rparr>\<rparr>)"

definition feed :: "nat \<Rightarrow> sweep \<Rightarrow> sweep" where
  "feed in_flight s =
     (let n = in_flight - length (sw_fetching s)
      in s\<lparr>sw_fetching := sw_fetching s @ take n (sw_queued s), sw_queued := drop n (sw_queued s)\<rparr>)"

definition count_outcome :: "walk_outcome \<Rightarrow> refetch_progress \<Rightarrow> refetch_progress" where
  "count_outcome oc p =
     (case oc of
        Replaced \<Rightarrow> p\<lparr>rp_replaced := rp_replaced p + 1\<rparr>
      | Duplicate \<Rightarrow> p\<lparr>rp_duplicates := rp_duplicates p + 1\<rparr>
      | Refused_Game \<Rightarrow> p\<lparr>rp_refused := rp_refused p + 1\<rparr>
      | Unserved_Game \<Rightarrow> p\<lparr>rp_refused := rp_refused p + 1\<rparr>
      | Unconvertible why \<Rightarrow> p\<lparr>rp_unconvertible := rp_unconvertible p + 1, rp_unconvertible_by := bump why (rp_unconvertible_by p)\<rparr>
      | Unreadable \<Rightarrow> p\<lparr>rp_unreadable := rp_unreadable p + 1\<rparr>)"

text \<open>The rest of a turn once a request returned. An error is counted with the refusals and booked as answered.\<close>

definition book :: "nat \<Rightarrow> walk_outcome result \<Rightarrow> sweep \<Rightarrow> sweep" where
  "book page joined s =
     (case joined of
        Inl _ \<Rightarrow> s\<lparr>sw_progress := (sw_progress s)\<lparr>rp_refused := rp_refused (sw_progress s) + 1\<rparr>,
                  sw_pending := answered page False (sw_pending s)\<rparr>
      | Inr oc \<Rightarrow>
          let unserved = (oc = Unserved_Game)
          in s\<lparr>sw_replaced := sw_replaced s + (if oc = Replaced then 1 else 0),
               sw_unserved := sw_unserved s + (if unserved then 1 else 0),
               sw_progress := count_outcome oc (sw_progress s),
               sw_pending := answered page unserved (sw_pending s),
               sw_queued := (if unserved then [] else sw_queued s)\<rparr>)"

datatype pass_status = Going | Ended "pass_outcome result"

definition end_pass :: "outcome \<Rightarrow> sweep \<Rightarrow> pass_status \<times> sweep" where
  "end_pass cleared s =
     (if 0 < sw_unserved s then (Ended (Inr (interrupted (sw_scanned s) (sw_replaced s))), s)
      else let s' = (if took_effect cleared then s\<lparr>sw_cursor := None\<rparr> else s)
           in (Ended (if cleared = Done then Inr (finished (sw_scanned s) (sw_replaced s)) else Inl (Bail ''cursor'')), s'))"

definition join_one :: "turn_input \<Rightarrow> sweep \<Rightarrow> pass_status \<times> sweep" where
  "join_one inp s =
     (let i = ti_returns inp mod length (sw_fetching s);
          (page, uuid) = sw_fetching s ! i;
          s' = s\<lparr>sw_fetching := take i (sw_fetching s) @ drop (Suc i) (sw_fetching s)\<rparr>
      in if ti_died inp then (Ended (Inl (Bail ''task'')), s')
         else (Going, book page (ti_outcome inp) s'))"

definition sweep_turn ::
  "libs \<Rightarrow> (int \<Rightarrow> bool) \<Rightarrow> sweep_position list \<Rightarrow> nat \<Rightarrow> turn_input \<Rightarrow> sweep \<Rightarrow> pass_status \<times> sweep" where
  "sweep_turn lb timestamp_ok catalogue in_flight inp s =
     (if \<not> ti_current inp then (Ended (Inr (interrupted (sw_scanned s) (sw_replaced s))), s)
      else case read_ahead lb timestamp_ok catalogue in_flight inp s of
             Inl e \<Rightarrow> (Ended (Inl e), s)
           | Inr s1 \<Rightarrow>
               let s2 = feed in_flight (commit_pages (ti_saved inp) s1)
               in if sw_fetching s2 = [] then
                    if sw_queued s2 = [] \<and> (sw_listed_everything s2 \<or> 0 < sw_unserved s2) then end_pass (ti_cleared inp) s2
                    else (Going, s2)
                  else join_one inp s2)"

section \<open>One pass of the repair\<close>

text \<open>\<^verbatim>\<open>one_pass\<close> over the records in the order their repairs end, each with whether the run is still the current one.
  An error of one record ends the pass.\<close>

fun repair_pass ::
  "(bool \<times> walk_outcome result) list \<Rightarrow> u64 \<Rightarrow> u64 \<Rightarrow> refetch_progress \<Rightarrow> pass_outcome result \<times> refetch_progress" where
  "repair_pass [] scanned replaced p = (Inr (finished scanned replaced), p)"
| "repair_pass ((current, joined) # later) scanned replaced p =
     (if \<not> current then (Inr (interrupted scanned replaced), p)
      else case joined of
             Inl e \<Rightarrow> (Inl e, p)
           | Inr oc \<Rightarrow>
               repair_pass later (scanned + 1) (replaced + (if oc = Replaced then 1 else 0))
                 (count_outcome oc (p\<lparr>rp_scanned := rp_scanned p + 1\<rparr>)))"

section \<open>Round after round\<close>

definition max_passes :: nat where
  "max_passes = 12"

definition max_stumbles :: nat where
  "max_stumbles = 10"

datatype walk_stop = Walk_Done | Stalled | Exhausted

record walk_tally =
  wt_passes :: nat
  wt_stumbles :: nat

definition new_tally :: walk_tally where
  "new_tally = \<lparr>wt_passes = 0, wt_stumbles = 0\<rparr>"

definition after_round :: "pass_outcome \<Rightarrow> walk_tally \<Rightarrow> walk_stop option \<times> walk_tally" where
  "after_round oc t =
     (let t = (if po_finished oc \<or> 0 < po_replaced oc then t\<lparr>wt_stumbles := 0\<rparr> else t\<lparr>wt_stumbles := wt_stumbles t + 1\<rparr>)
      in if max_stumbles \<le> wt_stumbles t then (Some Stalled, t)
         else if \<not> po_finished oc then (None, t)
         else let t = t\<lparr>wt_passes := wt_passes t + 1\<rparr>
              in if po_replaced oc = 0 then (Some Walk_Done, t)
                 else (if max_passes \<le> wt_passes t then Some Exhausted else None, t))"

datatype walk_end = Config_Replaced | Stopped_By walk_stop pass_outcome | Failed_With_Error fault

text \<open>The loop of \<^verbatim>\<open>walk\<close> over the outcomes of its rounds, each with whether the run was still the current one
  afterwards. \<open>None\<close> when it goes on after all of them.\<close>

fun walk_rounds :: "walk_tally \<Rightarrow> (pass_outcome result \<times> bool) list \<Rightarrow> walk_end option" where
  "walk_rounds t [] = None"
| "walk_rounds t ((Inl e, current) # rounds) = Some (Failed_With_Error e)"
| "walk_rounds t ((Inr oc, current) # rounds) =
     (if \<not> current then Some Config_Replaced
      else case after_round oc t of
             (Some stop, _) \<Rightarrow> Some (Stopped_By stop oc)
           | (None, t') \<Rightarrow> walk_rounds t' rounds)"

section \<open>The listing\<close>

lemma sorted_le_last: "sorted xs \<Longrightarrow> x \<in> set xs \<Longrightarrow> x \<le> last xs"
  by (induction xs) auto

lemma last_take_sorted:
  fixes xs :: "'a::linorder list"
  assumes "sorted xs" and "take n xs \<noteq> []"
  shows "set (take n xs) = {x \<in> set xs. x \<le> last (take n xs)}"
proof -
  have all: "x \<le> last (take n xs)" if "x \<in> set (take n xs)" for x
    using sorted_wrt_take [OF assms(1)] that by (rule sorted_le_last)
  have later: "last (take n xs) \<le> x" if "x \<in> set (drop n xs)" for x
    using assms that by (metis append_take_drop_id last_in_set sorted_append)
  have "set xs = set (take n xs) \<union> set (drop n xs)" by (metis append_take_drop_id set_append)
  then show ?thesis using all later assms(2) by (auto dest: last_in_set order_antisym)
qed

lemma game_uuid_listings_page:
  assumes "\<forall>r \<in> set catalogue. timestamp_ok (fst r)" and "page = game_uuid_listings timestamp_ok catalogue from limit"
  shows "page = [] \<Longrightarrow> 0 < limit \<Longrightarrow> r \<in> set catalogue \<Longrightarrow> \<not> beyond from r"
    and "page \<noteq> [] \<Longrightarrow> set page = {r \<in> set catalogue. beyond from r \<and> r \<le> last page}"
proof -
  let ?rows = "sort (filter (beyond from) catalogue)"
  have ok: "filter (\<lambda>r. timestamp_ok (fst r)) (take limit ?rows) = take limit ?rows"
    using assms(1) by (auto simp: filter_id_conv dest!: in_set_takeD)
  have page: "page = remdups_adj (take limit ?rows)"
    by (simp add: assms(2) game_uuid_listings_def ok)
  show "\<not> beyond from r" if "page = []" "0 < limit" "r \<in> set catalogue"
  proof -
    have "set ?rows = {}" using that(1,2) by (simp add: page)
    then have "{x \<in> set catalogue. beyond from x} = {}" by (simp only: set_sort set_filter)
    with that(3) show ?thesis by blast
  qed
  show "set page = {r \<in> set catalogue. beyond from r \<and> r \<le> last page}" if "page \<noteq> []"
  proof -
    have "take limit ?rows \<noteq> []" using that page by auto
    from last_take_sorted [OF sorted_sort this] show ?thesis by (auto simp: page last_remdups_adj)
  qed
qed

section \<open>The invariant of a pass\<close>

text \<open>\<open>settled\<close> is the set of games that were found held or came back with any outcome but \<open>Unserved_Game\<close>. The pages cover the
  catalogue from \<open>lo\<close> to \<open>hi\<close>: every game of a page is settled, still open under the number of its page, or the page is marked.\<close>

fun pages_covered ::
  "sweep_position list \<Rightarrow> string set \<Rightarrow> (nat \<times> string) list \<Rightarrow> nat \<Rightarrow> sweep_position option \<Rightarrow> page_commit list \<Rightarrow>
   sweep_position option \<Rightarrow> bool" where
  "pages_covered cat settled open k lo [] hi \<longleftrightarrow> lo = hi"
| "pages_covered cat settled open k lo (page # pages) hi \<longleftrightarrow>
     beyond lo (pc_position page) \<and>
     (\<forall>r \<in> set cat. beyond lo r \<and> r \<le> pc_position page \<longrightarrow>
        snd r \<in> settled \<or> (k, snd r) \<in> set open \<or> pc_unserved page) \<and>
     pages_covered cat settled open (Suc k) (Some (pc_position page)) pages hi"

abbreviation open_in :: "nat \<Rightarrow> (nat \<times> string) list \<Rightarrow> nat" where
  "open_in k open \<equiv> count_list (map fst open) k"

definition tags_ok :: "nat \<Rightarrow> page_commit list \<Rightarrow> (nat \<times> string) list \<Rightarrow> bool" where
  "tags_ok k pages open \<longleftrightarrow>
     (\<forall>e \<in> set open. k \<le> fst e \<and> fst e < k + length pages) \<and>
     (\<forall>j < length pages. pc_outstanding (pages ! j) = open_in (k + j) open)"

definition behind :: "sweep_position option \<Rightarrow> sweep_position option \<Rightarrow> bool" where
  "behind a b \<longleftrightarrow> (\<forall>r. beyond b r \<longrightarrow> beyond a r)"

definition settled_to :: "sweep_position list \<Rightarrow> string set \<Rightarrow> sweep_position option \<Rightarrow> sweep_position option \<Rightarrow> bool" where
  "settled_to cat settled start lo \<longleftrightarrow> (\<forall>r \<in> set cat. beyond start r \<and> \<not> beyond lo r \<longrightarrow> snd r \<in> settled)"

definition pages_inv ::
  "sweep_position list \<Rightarrow> sweep_position option \<Rightarrow> sweep \<Rightarrow> string set \<Rightarrow> (nat \<times> string) list \<Rightarrow> sweep_position option \<Rightarrow> bool" where
  "pages_inv cat start s settled open lo \<longleftrightarrow>
     tags_ok (pp_done (sw_pending s)) (pp_pages (sw_pending s)) open \<and> settled_to cat settled start lo \<and> behind start lo \<and>
     (\<forall>c. sw_cursor s = Some c \<longrightarrow> behind (sw_cursor s) lo) \<and>
     pages_covered cat settled open (pp_done (sw_pending s)) lo (pp_pages (sw_pending s)) (sw_reading_from s) \<and>
     (sw_listed_everything s \<longrightarrow> (\<forall>r \<in> set cat. \<not> beyond (sw_reading_from s) r)) \<and>
     (sw_unserved s = 0 \<longrightarrow> list_all (\<lambda>page. \<not> pc_unserved page) (pp_pages (sw_pending s)))"

text \<open>A queue that was emptied leaves its games open for good.\<close>

definition sweep_inv :: "sweep_position list \<Rightarrow> sweep_position option \<Rightarrow> sweep \<Rightarrow> string set \<Rightarrow> bool" where
  "sweep_inv cat start s settled \<longleftrightarrow>
     (\<exists>dropped lo. pages_inv cat start s settled (sw_fetching s @ sw_queued s @ dropped) lo \<and>
        (sw_unserved s = 0 \<longrightarrow> dropped = []))"

lemma sweep_invI:
  "pages_inv cat start s settled (sw_fetching s @ sw_queued s @ dropped) lo \<Longrightarrow> (sw_unserved s = 0 \<longrightarrow> dropped = []) \<Longrightarrow>
     sweep_inv cat start s settled"
  unfolding sweep_inv_def by (intro exI conjI)

lemma sweep_invE:
  assumes "sweep_inv cat start s settled"
  obtains dropped lo where "pages_inv cat start s settled (sw_fetching s @ sw_queued s @ dropped) lo" "sw_unserved s = 0 \<longrightarrow> dropped = []"
  using assms unfolding sweep_inv_def by (elim exE conjE) (rule that)

lemma pages_covered_mono:
  assumes "pages_covered cat settled open k lo pages hi" and "settled \<subseteq> settled'"
    and "\<And>j u. k \<le> j \<Longrightarrow> (j, u) \<in> set open \<Longrightarrow> (j, u) \<in> set open' \<or> u \<in> settled'"
  shows "pages_covered cat settled' open' k lo pages hi"
  using assms
proof (induction pages arbitrary: k lo)
  case (Cons page pages)
  from Cons.prems(3) have "pages_covered cat settled' open' (Suc k) (Some (pc_position page)) pages hi"
    using Cons.prems(1,2) by (intro Cons.IH) auto
  with Cons.prems show ?case by auto
qed simp

lemma pages_covered_append:
  "pages_covered cat settled open k lo pages mid \<Longrightarrow> pages_covered cat settled open (k + length pages) mid pages2 hi \<Longrightarrow>
     pages_covered cat settled open k lo (pages @ pages2) hi"
  by (induction pages arbitrary: k lo) auto

lemma beyond_trans: "beyond lo p \<Longrightarrow> beyond (Some p) r \<Longrightarrow> beyond lo r"
  by (auto simp: beyond_def split: option.splits)

lemma behind_refl [simp]: "behind a a" and behind_trans: "behind a b \<Longrightarrow> behind b c \<Longrightarrow> behind a c"
  and behind_beyond: "beyond a p \<Longrightarrow> behind a (Some p)"
  by (auto simp: behind_def beyond_trans)

lemma not_beyond: "\<not> beyond (Some p) r \<longleftrightarrow> r \<le> p"
  by (auto simp: beyond_def)

lemma tags_ok_first:
  assumes "tags_ok k (page # pages) open"
  shows "pc_outstanding page = open_in k open"
proof -
  have "\<forall>j < length (page # pages). pc_outstanding ((page # pages) ! j) = open_in (k + j) open"
    using assms by (simp add: tags_ok_def)
  from this [rule_format, of 0] show ?thesis by simp
qed

lemma tags_ok_tl:
  assumes tags: "tags_ok k (page # pages) open" and "pc_outstanding page = 0"
  shows "tags_ok (Suc k) pages open" and "(k, u) \<notin> set open"
proof -
  have "open_in k open = 0" using tags_ok_first [OF tags] assms(2) by simp
  then have k: "k \<notin> fst ` set open" by (simp add: count_list_0_iff)
  then show "(k, u) \<notin> set open" by force
  have "k \<le> fst e \<and> fst e < Suc (k + length pages)" if "e \<in> set open" for e
    using tags that by (simp add: tags_ok_def)
  moreover have "fst e \<noteq> k" if "e \<in> set open" for e using k that by blast
  ultimately have "\<forall>e \<in> set open. Suc k \<le> fst e \<and> fst e < Suc k + length pages"
    by (metis Suc_leI add_Suc le_neq_implies_less)
  moreover have "\<forall>j < length pages. pc_outstanding (pages ! j) = open_in (Suc k + j) open"
  proof (intro allI impI)
    fix j assume "j < length pages"
    with tags show "pc_outstanding (pages ! j) = open_in (Suc k + j) open"
      by (auto simp: tags_ok_def dest!: spec [of _ "Suc j"])
  qed
  ultimately show "tags_ok (Suc k) pages open" by (simp add: tags_ok_def)
qed

lemma commit_loop_inv:
  assumes "pages_covered cat settled open k lo pages hi" and "settled_to cat settled start lo" and "tags_ok k pages open"
    and "commit_loop sofar pages k = (c, pages', k')"
  shows "\<exists>lo'. pages_covered cat settled open k' lo' pages' hi \<and> settled_to cat settled start lo' \<and> tags_ok k' pages' open \<and>
     behind lo lo' \<and> (pages' \<noteq> [] \<longrightarrow> \<not> is_finished (hd pages')) \<and> set pages' \<subseteq> set pages \<and>
     (c = sofar \<and> lo' = lo \<or> (\<exists>cc. c = Some cc \<and> lo' = Some (co_position cc)))"
  using assms
proof (induction pages arbitrary: k lo sofar)
  case (Cons page pages)
  show ?case
  proof (cases "is_finished page")
    case True
    then have zero: "pc_outstanding page = 0" "\<not> pc_unserved page" by (simp_all add: is_finished_def)
    note tail = tags_ok_tl [OF Cons.prems(3) zero(1)]
    have page: "beyond lo (pc_position page)"
        "\<forall>r \<in> set cat. beyond lo r \<and> r \<le> pc_position page \<longrightarrow> snd r \<in> settled \<or> (k, snd r) \<in> set open"
      using Cons.prems(1) zero(2) by simp_all
    have "settled_to cat settled start (Some (pc_position page))"
      using Cons.prems(2) page(2) tail(2) unfolding settled_to_def not_beyond by blast
    from Cons.IH [OF _ this tail(1), of "Some (commit_one page sofar)"] Cons.prems(1,4) True
    obtain lo' where lo': "pages_covered cat settled open k' lo' pages' hi" "settled_to cat settled start lo'" "tags_ok k' pages' open"
      "behind (Some (pc_position page)) lo'" "pages' \<noteq> [] \<longrightarrow> \<not> is_finished (hd pages')" "set pages' \<subseteq> set pages"
      "c = Some (commit_one page sofar) \<and> lo' = Some (pc_position page) \<or> (\<exists>cc. c = Some cc \<and> lo' = Some (co_position cc))"
      by auto
    have "behind lo lo'" using behind_beyond [OF page(1)] lo'(4) by (rule behind_trans)
    moreover have "\<exists>cc. c = Some cc \<and> lo' = Some (co_position cc)" using lo'(7) by (auto simp: commit_one_def)
    ultimately show ?thesis using lo' by (intro exI [of _ lo']) auto
  next
    case False
    with Cons.prems show ?thesis by (intro exI [of _ lo]) auto
  qed
qed auto

lemma pages_inv_perm:
  assumes "mset open = mset open'"
  shows "pages_inv cat start s settled open lo = pages_inv cat start s settled open' lo"
proof -
  have sets: "set open = set open'" using assms by (rule mset_eq_setD)
  have "mset (map fst open) = mset (map fst open')" using assms by simp
  then have counts: "open_in k open = open_in k open'" for k by (metis count_mset)
  have "pages_covered cat settled open k l pages hi = pages_covered cat settled open' k l pages hi" for k l pages hi
    by (induction pages arbitrary: k l) (simp_all add: sets)
  then show ?thesis by (simp add: pages_inv_def tags_ok_def sets counts)
qed

lemma pages_inv_commit:
  assumes "pages_inv cat start s settled open lo"
  shows "\<exists>lo'. pages_inv cat start (commit_pages saved s) settled open lo' \<and>
     (pp_pages (sw_pending (commit_pages saved s)) \<noteq> [] \<longrightarrow> \<not> is_finished (hd (pp_pages (sw_pending (commit_pages saved s)))))"
proof -
  note inv = assms [unfolded pages_inv_def]
  obtain c pages' k' where loop: "commit_loop None (pp_pages (sw_pending s)) (pp_done (sw_pending s)) = (c, pages', k')"
    by (metis prod_cases3)
  from commit_loop_inv [OF _ _ _ loop] inv
  obtain lo' where lo': "pages_covered cat settled open k' lo' pages' (sw_reading_from s)" "settled_to cat settled start lo'"
    "tags_ok k' pages' open" "behind lo lo'" "pages' \<noteq> [] \<longrightarrow> \<not> is_finished (hd pages')" "set pages' \<subseteq> set (pp_pages (sw_pending s))"
    "c = None \<and> lo' = lo \<or> (\<exists>cc. c = Some cc \<and> lo' = Some (co_position cc))"
    by blast
  have start: "behind start lo'" using inv lo'(4) by (blast intro: behind_trans)
  have cursor: "behind (sw_cursor s) lo'" if "sw_cursor s = Some p" for p
    using inv lo'(4) that by (blast intro: behind_trans)
  have unserved: "sw_unserved s = 0 \<longrightarrow> list_all (\<lambda>page. \<not> pc_unserved page) pages'"
    using inv lo'(6) by (auto simp: list_all_iff)
  have "pages_inv cat start (commit_pages saved s) settled open lo'"
  proof (cases c)
    case None
    then show ?thesis
      using inv lo' start cursor unserved by (auto simp: pages_inv_def commit_pages_def committable_def loop)
  next
    case (Some cc)
    then have "lo' = Some (co_position cc)" using lo'(7) by auto
    then show ?thesis
      using inv lo' start cursor unserved Some by (auto simp: pages_inv_def commit_pages_def committable_def loop)
  qed
  moreover have "pp_pages (sw_pending (commit_pages saved s)) = pages'"
    by (simp add: commit_pages_def committable_def loop split: option.splits)
  ultimately show ?thesis using lo'(5) by blast
qed

definition held_in :: "libs \<Rightarrow> claims \<Rightarrow> string list \<Rightarrow> string set" where
  "held_in lb claims uuids = {u \<in> set uuids. game_claim_hash lb u \<in> held_games lb claims uuids}"

lemma open_in_tagged: "open_in j (map (Pair n) us) = (if j = n then length us else 0)"
  by (induction us) auto

lemma pages_inv_take_page:
  assumes inv: "pages_inv cat start s settled open lo" and unserved: "sw_unserved s = 0" "\<not> sw_listed_everything s"
    and page: "page \<noteq> []" "set page = {r \<in> set cat. beyond (sw_reading_from s) r \<and> r \<le> last page}"
  shows "pages_inv cat start (take_page lb claims page s) (settled \<union> held_in lb claims (map snd page))
     (open @ map (Pair (pp_done (sw_pending s) + length (pp_pages (sw_pending s))))
        (unclaimed lb (map snd page) (held_games lb claims (map snd page)))) lo"
    (is "pages_inv _ _ ?s ?settled (open @ map (Pair ?n) ?wanted) _")
proof -
  let ?pg = "\<lparr>pc_position = last page, pc_rows = of_nat (length page), pc_present = of_nat (length page - length ?wanted),
     pc_outstanding = length ?wanted, pc_unserved = False\<rparr>"
  let ?k = "pp_done (sw_pending s)" and ?pages = "pp_pages (sw_pending s)" and ?open = "open @ map (Pair ?n) ?wanted"
  note inv = inv [unfolded pages_inv_def]
  have s': "pp_done (sw_pending ?s) = ?k" "pp_pages (sw_pending ?s) = ?pages @ [?pg]" "sw_reading_from ?s = Some (last page)"
      "sw_cursor ?s = sw_cursor s" "sw_unserved ?s = sw_unserved s" "\<not> sw_listed_everything ?s"
    using unserved(2) by (simp_all add: take_page_def push_page_def Let_def)
  have last: "beyond (sw_reading_from s) (last page)" using page last_in_set by blast
  have wanted: "snd r \<in> ?settled \<or> (?n, snd r) \<in> set ?open" if "r \<in> set page" for r
    using that by (auto simp: unclaimed_def held_in_def)
  have "pages_covered cat settled open ?k lo ?pages (sw_reading_from s)" using inv by simp
  then have "pages_covered cat ?settled ?open ?k lo ?pages (sw_reading_from s)" by (rule pages_covered_mono) auto
  moreover have "pages_covered cat ?settled ?open ?n (sw_reading_from s) [?pg] (Some (last page))"
    using last wanted page(2) by auto
  ultimately have "pages_covered cat ?settled ?open ?k lo (?pages @ [?pg]) (Some (last page))"
    by (rule pages_covered_append)
  moreover have "tags_ok ?k (?pages @ [?pg]) ?open"
  proof -
    have old: "\<forall>e \<in> set open. ?k \<le> fst e \<and> fst e < ?n" using inv by (simp add: tags_ok_def)
    then have "?n \<notin> fst ` set open" by auto
    then have fresh: "open_in ?n open = 0" by (simp add: count_list_0_iff)
    show ?thesis
      unfolding tags_ok_def
    proof (intro conjI allI impI)
      show "\<forall>e \<in> set ?open. ?k \<le> fst e \<and> fst e < ?k + length (?pages @ [?pg])"
        using old by (auto simp: less_Suc_eq)
      fix j assume "j < length (?pages @ [?pg])"
      then show "pc_outstanding ((?pages @ [?pg]) ! j) = open_in (?k + j) ?open"
        using inv fresh by (cases "j < length ?pages") (auto simp: tags_ok_def nth_append less_Suc_eq open_in_tagged simp del: map_map)
    qed
  qed
  moreover have "settled_to cat ?settled start lo" using inv by (auto simp: settled_to_def)
  ultimately show ?thesis using inv unserved by (simp add: pages_inv_def s')
qed

definition settle :: "bool \<Rightarrow> string \<Rightarrow> string set \<Rightarrow> string set" where
  "settle unserved u settled = (if unserved then settled else insert u settled)"

lemma pages_covered_answered:
  assumes "pages_covered cat settled ((k, u) # open) j lo pages hi" and "j \<le> k"
  shows "pages_covered cat (settle unserved u settled) open j lo
     (pages[k - j := (pages ! (k - j))\<lparr>pc_outstanding := m, pc_unserved := pc_unserved (pages ! (k - j)) \<or> unserved\<rparr>]) hi"
  using assms
proof (induction pages arbitrary: j lo)
  case (Cons page pages)
  show ?case
  proof (cases "k = j")
    case True
    have "pages_covered cat settled ((k, u) # open) (Suc j) (Some (pc_position page)) pages hi" using Cons.prems by simp
    then have "pages_covered cat (settle unserved u settled) open (Suc j) (Some (pc_position page)) pages hi"
      by (rule pages_covered_mono) (auto simp: settle_def True)
    with Cons.prems True show ?thesis by (auto simp: settle_def)
  next
    case False
    then have "k - j = Suc (k - Suc j)" using Cons.prems(2) by simp
    moreover have "pages_covered cat (settle unserved u settled) open (Suc j) (Some (pc_position page))
       (pages[k - Suc j := (pages ! (k - Suc j))\<lparr>pc_outstanding := m, pc_unserved := pc_unserved (pages ! (k - Suc j)) \<or> unserved\<rparr>]) hi"
      using Cons.prems False by (intro Cons.IH) auto
    ultimately show ?thesis using Cons.prems False by (auto simp: settle_def)
  qed
qed simp

lemma pages_inv_answered:
  assumes inv: "pages_inv cat start s settled ((k, u) # open) lo"
    and s': "sw_pending s' = answered k unserved (sw_pending s)" "sw_cursor s' = sw_cursor s" "sw_reading_from s' = sw_reading_from s"
      "sw_listed_everything s' = sw_listed_everything s" "sw_unserved s' = 0 \<Longrightarrow> sw_unserved s = 0 \<and> \<not> unserved"
  shows "pages_inv cat start s' (settle unserved u settled) open lo"
proof -
  let ?d = "pp_done (sw_pending s)" and ?pages = "pp_pages (sw_pending s)"
  let ?i = "k - ?d" and ?entry = "pp_pages (sw_pending s) ! (k - pp_done (sw_pending s))"
  let ?new = "?entry\<lparr>pc_outstanding := pc_outstanding ?entry - 1, pc_unserved := pc_unserved ?entry \<or> unserved\<rparr>"
  note inv = inv [unfolded pages_inv_def]
  have k: "?d \<le> k" "?i < length ?pages" using inv by (auto simp: tags_ok_def)
  then have pages: "pp_pages (sw_pending s') = ?pages[?i := ?new]" "pp_done (sw_pending s') = ?d"
    by (simp_all add: s' answered_def Let_def)
  have "pages_covered cat (settle unserved u settled) open ?d lo (?pages[?i := ?new]) (sw_reading_from s)"
    using inv k(1) by (intro pages_covered_answered) auto
  moreover have "tags_ok ?d (?pages[?i := ?new]) open"
    unfolding tags_ok_def
  proof (intro conjI allI impI)
    show "\<forall>e \<in> set open. ?d \<le> fst e \<and> fst e < ?d + length (?pages[?i := ?new])"
      using inv by (simp add: tags_ok_def)
    fix j assume j: "j < length (?pages[?i := ?new])"
    then have "pc_outstanding (?pages ! j) = open_in (?d + j) ((k, u) # open)" using inv by (simp add: tags_ok_def)
    with j k show "pc_outstanding (?pages[?i := ?new] ! j) = open_in (?d + j) open"
      by (cases "j = ?i") auto
  qed
  moreover have "settled_to cat (settle unserved u settled) start lo"
    using inv by (auto simp: settled_to_def settle_def)
  moreover have "list_all (\<lambda>page. \<not> pc_unserved page) (?pages[?i := ?new])" if "sw_unserved s' = 0"
  proof -
    have "list_all (\<lambda>page. \<not> pc_unserved page) ?pages" using inv s'(5) [OF that] by simp
    with k s'(5) [OF that] show ?thesis by (auto simp: list_all_length nth_list_update)
  qed
  ultimately show ?thesis using inv by (simp add: pages_inv_def pages s'(2-4))
qed

lemma commit_pages_fields [simp]:
  "sw_fetching (commit_pages saved s) = sw_fetching s" "sw_queued (commit_pages saved s) = sw_queued s"
  "sw_unserved (commit_pages saved s) = sw_unserved s" "sw_listed_everything (commit_pages saved s) = sw_listed_everything s"
  "sw_reading_from (commit_pages saved s) = sw_reading_from s"
  by (simp_all add: commit_pages_def split: prod.splits option.splits)

lemma feed_fields [simp]:
  "sw_pending (feed n s) = sw_pending s" "sw_unserved (feed n s) = sw_unserved s" "sw_cursor (feed n s) = sw_cursor s"
  "sw_listed_everything (feed n s) = sw_listed_everything s" "sw_reading_from (feed n s) = sw_reading_from s"
  "sw_fetching (feed n s) @ sw_queued (feed n s) = sw_fetching s @ sw_queued s"
  by (simp_all add: feed_def Let_def)

lemma pages_inv_cong:
  assumes "sw_pending s' = sw_pending s" "sw_cursor s' = sw_cursor s" "sw_unserved s' = sw_unserved s"
    "sw_listed_everything s' = sw_listed_everything s" "sw_reading_from s' = sw_reading_from s"
  shows "pages_inv cat start s' settled open lo = pages_inv cat start s settled open lo"
  using assms by (simp add: pages_inv_def)

lemma sweep_inv_commit:
  assumes "sweep_inv cat start s settled"
  shows "sweep_inv cat start (commit_pages saved s) settled"
proof -
  from assms obtain dropped lo where lo: "pages_inv cat start s settled (sw_fetching s @ sw_queued s @ dropped) lo"
    "sw_unserved s = 0 \<longrightarrow> dropped = []" by (rule sweep_invE)
  from pages_inv_commit [OF lo(1), of saved] obtain lo' where
    "pages_inv cat start (commit_pages saved s) settled (sw_fetching s @ sw_queued s @ dropped) lo'" by blast
  with lo(2) show ?thesis by (intro sweep_invI) simp_all
qed

lemma sweep_inv_feed: "sweep_inv cat start s settled \<Longrightarrow> sweep_inv cat start (feed n s) settled"
proof -
  have same: "sw_fetching (feed n s) @ sw_queued (feed n s) @ dropped = sw_fetching s @ sw_queued s @ dropped" for dropped
    using feed_fields(6) [of n s] by (metis append_assoc)
  assume "sweep_inv cat start s settled"
  then show "sweep_inv cat start (feed n s) settled"
    unfolding sweep_inv_def same by (simp add: pages_inv_cong [of "feed n s" s])
qed

definition read_held :: "libs \<Rightarrow> (int \<Rightarrow> bool) \<Rightarrow> sweep_position list \<Rightarrow> nat \<Rightarrow> turn_input \<Rightarrow> sweep \<Rightarrow> string set" where
  "read_held lb timestamp_ok cat in_flight inp s =
     (if wants_page in_flight s then held_in lb (ti_claims inp) (map snd (next_page timestamp_ok cat s)) else {})"

lemma sweep_inv_read_ahead:
  assumes inv: "sweep_inv cat start s settled" and ok: "\<forall>r \<in> set cat. timestamp_ok (fst r)"
    and read: "read_ahead lb timestamp_ok cat in_flight inp s = Inr s'"
  shows "sweep_inv cat start s' (settled \<union> read_held lb timestamp_ok cat in_flight inp s)"
proof (cases "wants_page in_flight s")
  case True
  let ?page = "next_page timestamp_ok cat s"
  note listing = game_uuid_listings_page [OF ok next_page_def [of timestamp_ok cat s]]
  from True have zero: "sw_unserved s = 0" "\<not> sw_listed_everything s" by (simp_all add: wants_page_def)
  with inv obtain lo where lo: "pages_inv cat start s settled (sw_fetching s @ sw_queued s) lo"
    by (auto simp: sweep_inv_def)
  show ?thesis
  proof (cases "?page = []")
    case empty: True
    then have "\<forall>r \<in> set cat. \<not> beyond (sw_reading_from s) r" using listing(1) by (simp add: page_size_def)
    with read True lo zero empty have "pages_inv cat start s' settled (sw_fetching s' @ sw_queued s' @ []) lo"
      by (auto simp: read_ahead_def pages_inv_def Let_def split: if_splits)
    moreover have "read_held lb timestamp_ok cat in_flight inp s = {}" by (simp add: read_held_def held_in_def empty)
    ultimately show ?thesis by (metis Un_empty_right sweep_invI)
  next
    case False
    with read True have s': "s' = take_page lb (ti_claims inp) ?page s"
      by (auto simp: read_ahead_def Let_def split: if_splits)
    from pages_inv_take_page [OF lo zero False listing(2) [OF False]]
    show ?thesis
      using zero True
      by (auto simp: sweep_inv_def s' read_held_def take_page_def push_page_def Let_def intro!: exI [of _ "[]"])
  qed
qed (use assms in \<open>simp add: read_ahead_def read_held_def\<close>)

text \<open>The state a request returns to: pages read, finished pages committed, free slots filled.\<close>

definition prepared ::
  "libs \<Rightarrow> (int \<Rightarrow> bool) \<Rightarrow> sweep_position list \<Rightarrow> nat \<Rightarrow> turn_input \<Rightarrow> sweep \<Rightarrow> sweep result" where
  "prepared lb timestamp_ok cat in_flight inp s =
     attempt (read_ahead lb timestamp_ok cat in_flight inp s) (\<lambda>s1. Inr (feed in_flight (commit_pages (ti_saved inp) s1)))"

definition returning :: "turn_input \<Rightarrow> sweep \<Rightarrow> nat \<times> string" where
  "returning inp s = sw_fetching s ! (ti_returns inp mod length (sw_fetching s))"

definition is_unserved :: "walk_outcome result \<Rightarrow> bool" where
  "is_unserved joined \<longleftrightarrow> joined = Inr Unserved_Game"

lemma join_one_book:
  assumes "sw_fetching s \<noteq> []" and "join_one inp s = (Going, s')"
  obtains before rest where "sw_fetching s = before @ returning inp s # rest"
    "s' = book (fst (returning inp s)) (ti_outcome inp) (s\<lparr>sw_fetching := before @ rest\<rparr>)"
proof -
  let ?i = "ti_returns inp mod length (sw_fetching s)"
  have "?i < length (sw_fetching s)" using assms(1) by simp
  then have "sw_fetching s = take ?i (sw_fetching s) @ returning inp s # drop (Suc ?i) (sw_fetching s)"
    by (simp add: returning_def id_take_nth_drop)
  moreover have "s' = book (fst (returning inp s)) (ti_outcome inp)
      (s\<lparr>sw_fetching := take ?i (sw_fetching s) @ drop (Suc ?i) (sw_fetching s)\<rparr>)"
    using assms(2) by (auto simp: join_one_def returning_def Let_def split: prod.splits if_splits)
  ultimately show ?thesis by (rule that)
qed

lemma book_fields [simp]:
  "sw_pending (book k joined s) = answered k (is_unserved joined) (sw_pending s)" "sw_cursor (book k joined s) = sw_cursor s"
  "sw_reading_from (book k joined s) = sw_reading_from s" "sw_listed_everything (book k joined s) = sw_listed_everything s"
  "sw_unserved (book k joined s) = sw_unserved s + (if is_unserved joined then 1 else 0)"
  "sw_fetching (book k joined s) = sw_fetching s" "sw_queued (book k joined s) = (if is_unserved joined then [] else sw_queued s)"
  by (simp_all add: book_def is_unserved_def Let_def split: sum.splits)

lemma sweep_inv_join:
  assumes inv: "sweep_inv cat start s settled" and "sw_fetching s \<noteq> []" and "join_one inp s = (Going, s')"
  shows "sweep_inv cat start s' (settle (is_unserved (ti_outcome inp)) (snd (returning inp s)) settled)"
proof -
  let ?u = "is_unserved (ti_outcome inp)"
  obtain k u where came: "returning inp s = (k, u)" by fastforce
  from assms(2,3) obtain before rest where fetching: "sw_fetching s = before @ (k, u) # rest"
    and s': "s' = book k (ti_outcome inp) (s\<lparr>sw_fetching := before @ rest\<rparr>)"
    by (rule join_one_book) (simp add: came)
  from inv obtain dropped lo where lo: "pages_inv cat start s settled (sw_fetching s @ sw_queued s @ dropped) lo"
    "sw_unserved s = 0 \<longrightarrow> dropped = []" by (auto simp: sweep_inv_def)
  have "mset (sw_fetching s @ sw_queued s @ dropped) = mset ((k, u) # before @ rest @ sw_queued s @ dropped)"
    by (simp add: fetching)
  from lo(1) [unfolded pages_inv_perm [OF this]]
  have "pages_inv cat start s' (settle ?u u settled) (before @ rest @ sw_queued s @ dropped) lo"
    by (rule pages_inv_answered) (simp_all add: s' split: if_splits)
  moreover have "before @ rest @ sw_queued s @ dropped =
      sw_fetching s' @ sw_queued s' @ (if ?u then sw_queued s @ dropped else dropped)"
    by (simp add: s')
  ultimately show ?thesis
    unfolding sweep_inv_def came
    by (intro exI [of _ "if ?u then sw_queued s @ dropped else dropped"] exI [of _ lo]) (use lo(2) in \<open>simp add: s'\<close>)
qed

section \<open>Runs of a pass\<close>

text \<open>What a turn settles: the games of the page it read that are held, and the game whose request returned.\<close>

definition turn_settles :: "libs \<Rightarrow> (int \<Rightarrow> bool) \<Rightarrow> sweep_position list \<Rightarrow> nat \<Rightarrow> turn_input \<Rightarrow> sweep \<Rightarrow> string set \<Rightarrow> string set" where
  "turn_settles lb timestamp_ok cat in_flight inp s settled =
     (let now = settled \<union> read_held lb timestamp_ok cat in_flight inp s
      in case prepared lb timestamp_ok cat in_flight inp s of
           Inl _ \<Rightarrow> now
         | Inr s2 \<Rightarrow> if sw_fetching s2 = [] then now else settle (is_unserved (ti_outcome inp)) (snd (returning inp s2)) now)"

inductive sweep_run ::
  "libs \<Rightarrow> (int \<Rightarrow> bool) \<Rightarrow> sweep_position list \<Rightarrow> nat \<Rightarrow> sweep \<Rightarrow> sweep \<Rightarrow> string set \<Rightarrow> bool"
  for lb timestamp_ok cat in_flight s0 where
  run_begin: "sweep_run lb timestamp_ok cat in_flight s0 s0 {}"
| run_turn: "sweep_run lb timestamp_ok cat in_flight s0 s settled \<Longrightarrow>
    sweep_turn lb timestamp_ok cat in_flight inp s = (Going, s') \<Longrightarrow>
    sweep_run lb timestamp_ok cat in_flight s0 s' (turn_settles lb timestamp_ok cat in_flight inp s settled)"

lemma sweep_turn_prepared:
  assumes "ti_current inp"
  shows "sweep_turn lb timestamp_ok cat in_flight inp s =
     (case prepared lb timestamp_ok cat in_flight inp s of
        Inl e \<Rightarrow> (Ended (Inl e), s)
      | Inr s2 \<Rightarrow>
          if sw_fetching s2 = [] then
            if sw_queued s2 = [] \<and> (sw_listed_everything s2 \<or> 0 < sw_unserved s2) then end_pass (ti_cleared inp) s2
            else (Going, s2)
          else join_one inp s2)"
  using assms by (auto simp: sweep_turn_def prepared_def Let_def split: sum.splits)

lemma going_current: "sweep_turn lb timestamp_ok cat in_flight inp s = (Going, s') \<Longrightarrow> ti_current inp"
  by (cases "ti_current inp") (simp_all add: sweep_turn_def)

lemma end_pass_ends: "end_pass cleared s \<noteq> (Going, s')"
  by (simp add: end_pass_def Let_def)

lemma sweep_inv_prepared:
  assumes "sweep_inv cat start s settled" and "\<forall>r \<in> set cat. timestamp_ok (fst r)"
    and "prepared lb timestamp_ok cat in_flight inp s = Inr s2"
  shows "sweep_inv cat start s2 (settled \<union> read_held lb timestamp_ok cat in_flight inp s)"
proof -
  from assms(3) obtain s1 where s1: "read_ahead lb timestamp_ok cat in_flight inp s = Inr s1"
    and s2: "s2 = feed in_flight (commit_pages (ti_saved inp) s1)"
    by (auto simp: prepared_def result_simps)
  show ?thesis
    unfolding s2 using sweep_inv_read_ahead [OF assms(1,2) s1] by (intro sweep_inv_feed sweep_inv_commit)
qed

lemma sweep_inv_turn:
  assumes "sweep_inv cat start s settled" and "\<forall>r \<in> set cat. timestamp_ok (fst r)"
    and turn: "sweep_turn lb timestamp_ok cat in_flight inp s = (Going, s')"
  shows "sweep_inv cat start s' (turn_settles lb timestamp_ok cat in_flight inp s settled)"
proof -
  note steps = turn [unfolded sweep_turn_prepared [OF going_current [OF turn]]]
  then obtain s2 where s2: "prepared lb timestamp_ok cat in_flight inp s = Inr s2" by (auto split: sum.splits)
  note inv = sweep_inv_prepared [OF assms(1,2) s2]
  show ?thesis
  proof (cases "sw_fetching s2 = []")
    case True
    with steps s2 have "s' = s2" by (auto simp: end_pass_ends split: if_splits)
    with inv s2 True show ?thesis by (simp add: turn_settles_def Let_def)
  next
    case False
    with steps s2 have "join_one inp s2 = (Going, s')" by simp
    from sweep_inv_join [OF inv False this] s2 False show ?thesis by (simp add: turn_settles_def Let_def)
  qed
qed

lemma sweep_inv_begin: "sweep_inv cat (sw_reading_from (begin_sweep cursor sweep_from progress)) (begin_sweep cursor sweep_from progress) {}"
  by (rule sweep_invI [where dropped = "[]" and lo = "sw_reading_from (begin_sweep cursor sweep_from progress)"])
     (auto simp: pages_inv_def begin_sweep_def no_pages_def tags_ok_def settled_to_def split: option.splits)

lemma sweep_inv_run:
  assumes "sweep_run lb timestamp_ok cat in_flight (begin_sweep cursor sweep_from progress) s settled"
    and "\<forall>r \<in> set cat. timestamp_ok (fst r)"
  shows "sweep_inv cat (sw_reading_from (begin_sweep cursor sweep_from progress)) s settled"
  using assms(1)
proof induction
  case run_begin
  show ?case by (rule sweep_inv_begin)
next
  case (run_turn s settled inp s')
  from run_turn.IH assms(2) run_turn.hyps(2) show ?case by (rule sweep_inv_turn)
qed

lemma sweep_inv_cursor:
  assumes "sweep_inv cat start s settled" and "sw_cursor s = Some c" and "r \<in> set cat" and "beyond start r" and "r \<le> c"
  shows "snd r \<in> settled"
proof -
  from assms(1) obtain dropped lo where "pages_inv cat start s settled (sw_fetching s @ sw_queued s @ dropped) lo"
    by (rule sweep_invE)
  then have "settled_to cat settled start lo" "behind (Some c) lo"
    using assms(2) by (simp_all add: pages_inv_def)
  then show ?thesis using assms(3-5) unfolding settled_to_def behind_def not_beyond [symmetric] by blast
qed

lemma is_finished_all:
  assumes "tags_ok k pages []" and "list_all (\<lambda>page. \<not> pc_unserved page) pages" and "pages \<noteq> []"
  shows "is_finished (hd pages)"
  using assms by (cases pages) (auto simp: is_finished_def dest: tags_ok_first)

text \<open>When nothing is queued, in the air or marked, everything that was read is settled.\<close>

lemma sweep_inv_idle:
  assumes inv: "sweep_inv cat start s settled" and idle: "sw_fetching s = []" "sw_queued s = []" "sw_unserved s = 0"
    and first: "pp_pages (sw_pending s) \<noteq> [] \<longrightarrow> \<not> is_finished (hd (pp_pages (sw_pending s)))"
  shows "settled_to cat settled start (sw_reading_from s) \<and> pp_pages (sw_pending s) = []"
proof -
  from inv obtain dropped lo where "pages_inv cat start s settled (sw_fetching s @ sw_queued s @ dropped) lo"
    "sw_unserved s = 0 \<longrightarrow> dropped = []" by (rule sweep_invE)
  then have lo: "pages_inv cat start s settled [] lo" using idle by simp
  then have none: "pp_pages (sw_pending s) = []"
    using is_finished_all [of "pp_done (sw_pending s)" "pp_pages (sw_pending s)"] first idle(3) by (auto simp: pages_inv_def)
  with lo show ?thesis by (auto simp: pages_inv_def)
qed

lemma commit_loop_first: "commit_loop sofar pages k = (c, pages', k') \<Longrightarrow> pages' \<noteq> [] \<longrightarrow> \<not> is_finished (hd pages')"
  by (induction sofar pages k rule: commit_loop.induct) (auto split: if_splits)

lemma prepared_first:
  assumes "prepared lb timestamp_ok cat in_flight inp s = Inr s2"
  shows "pp_pages (sw_pending s2) \<noteq> [] \<longrightarrow> \<not> is_finished (hd (pp_pages (sw_pending s2)))"
proof -
  from assms obtain s1 where s2: "s2 = feed in_flight (commit_pages (ti_saved inp) s1)"
    by (auto simp: prepared_def result_simps)
  obtain c pages' k' where loop: "commit_loop None (pp_pages (sw_pending s1)) (pp_done (sw_pending s1)) = (c, pages', k')"
    by (metis prod_cases3)
  then have "pp_pages (sw_pending s2) = pages'"
    by (simp add: s2 commit_pages_def committable_def split: option.splits)
  with commit_loop_first [OF loop] show ?thesis by simp
qed

section \<open>The loop ends\<close>

text \<open>\<^verbatim>\<open>one_known_games_pass\<close>: turns until one ends the pass; \<open>Going\<close> when the inputs run out first.\<close>

fun sweep_pass ::
  "libs \<Rightarrow> (int \<Rightarrow> bool) \<Rightarrow> sweep_position list \<Rightarrow> nat \<Rightarrow> turn_input list \<Rightarrow> sweep \<Rightarrow> pass_status \<times> sweep" where
  "sweep_pass lb timestamp_ok cat in_flight [] s = (Going, s)"
| "sweep_pass lb timestamp_ok cat in_flight (inp # inps) s =
     (case sweep_turn lb timestamp_ok cat in_flight inp s of
        (Going, s') \<Rightarrow> sweep_pass lb timestamp_ok cat in_flight inps s'
      | (Ended r, s') \<Rightarrow> (Ended r, s'))"

definition ahead :: "sweep_position list \<Rightarrow> sweep_position option \<Rightarrow> nat" where
  "ahead cat from = length (filter (beyond from) cat)"

definition work :: "sweep_position list \<Rightarrow> sweep \<Rightarrow> nat" where
  "work cat s = 2 * ahead cat (sw_reading_from s) + length (sw_queued s) + length (sw_fetching s)"

lemma distinct_remdups_adj_sorted: "sorted xs \<Longrightarrow> distinct (remdups_adj xs)"
  by (induction xs rule: remdups_adj.induct) (auto simp: less_le)

lemma card_le_filter: "card {x \<in> set xs. P x} \<le> length (filter P xs)"
  by (metis card_length set_filter)

lemma ahead_page:
  assumes ok: "\<forall>r \<in> set cat. timestamp_ok (fst r)" and page: "page = game_uuid_listings timestamp_ok cat from limit" "page \<noteq> []"
  shows "length page + ahead cat (Some (last page)) \<le> ahead cat from"
proof -
  let ?rows = "take limit (sort (filter (beyond from) cat))"
  have "sorted (filter (\<lambda>r. timestamp_ok (fst r)) ?rows)"
    by (intro sorted_wrt_filter sorted_wrt_take) simp
  then have "distinct page" by (simp add: page(1) game_uuid_listings_def distinct_remdups_adj_sorted)
  then have "length page = card (set page)" by (simp add: distinct_card)
  also have "\<dots> \<le> length (filter (\<lambda>r. beyond from r \<and> r \<le> last page) cat)"
    unfolding game_uuid_listings_page(2) [OF ok page] by (rule card_le_filter)
  finally have "length page \<le> length (filter (\<lambda>r. beyond from r \<and> \<not> beyond (Some (last page)) r) cat)"
    by (simp add: not_beyond)
  moreover have "beyond from (last page)"
    using page(2) game_uuid_listings_page(2) [OF ok page] last_in_set by blast
  then have "filter (beyond (Some (last page))) cat = filter (\<lambda>r. beyond from r \<and> beyond (Some (last page)) r) cat"
    by (intro filter_cong refl) (metis beyond_trans)
  moreover have "length (filter (beyond from) cat) =
      length (filter (\<lambda>r. beyond from r \<and> beyond (Some (last page)) r) cat) +
      length (filter (\<lambda>r. beyond from r \<and> \<not> beyond (Some (last page)) r) cat)"
    by (induction cat) auto
  ultimately show ?thesis by (simp add: ahead_def)
qed

lemma feed_length: "length (sw_queued (feed n s)) + length (sw_fetching (feed n s)) = length (sw_queued s) + length (sw_fetching s)"
  by (simp add: feed_def Let_def)

lemma work_feed: "work cat (feed n (commit_pages saved s)) = work cat s"
  using feed_length [of n "commit_pages saved s"] by (simp add: work_def)

lemma work_take_page:
  assumes "length page + ahead cat (Some (last page)) \<le> ahead cat (sw_reading_from s)" and "page \<noteq> []"
  shows "work cat (take_page lb claims page s) < work cat s"
proof -
  have "length (unclaimed lb (map snd page) (held_games lb claims (map snd page))) \<le> length page"
    by (metis length_filter_le length_map unclaimed_def)
  moreover have "0 < length page" using assms(2) by simp
  ultimately have "2 * ahead cat (Some (last page)) + length (unclaimed lb (map snd page) (held_games lb claims (map snd page)))
      < 2 * ahead cat (sw_reading_from s)"
    using assms(1) by linarith
  then show ?thesis by (simp add: work_def take_page_def push_page_def Let_def)
qed

lemma work_read_ahead:
  assumes ok: "\<forall>r \<in> set cat. timestamp_ok (fst r)" and read: "read_ahead lb timestamp_ok cat in_flight inp s = Inr s1"
  shows "work cat s1 \<le> work cat s" and "wants_page in_flight s \<Longrightarrow> \<not> sw_listed_everything s1 \<Longrightarrow> work cat s1 < work cat s"
proof -
  have "work cat s1 < work cat s \<or> work cat s1 = work cat s \<and> (wants_page in_flight s \<longrightarrow> sw_listed_everything s1)"
  proof (cases "wants_page in_flight s \<and> next_page timestamp_ok cat s \<noteq> []")
    case True
    with read have "s1 = take_page lb (ti_claims inp) (next_page timestamp_ok cat s) s"
      by (auto simp: read_ahead_def Let_def split: if_splits)
    with work_take_page [OF ahead_page [OF ok next_page_def]] True show ?thesis by simp
  next
    case False
    with read show ?thesis by (auto simp: read_ahead_def work_def Let_def split: if_splits)
  qed
  then show "work cat s1 \<le> work cat s" "wants_page in_flight s \<Longrightarrow> \<not> sw_listed_everything s1 \<Longrightarrow> work cat s1 < work cat s"
    by auto
qed

lemma work_book: "work cat (book k joined s) \<le> work cat s"
  by (simp add: work_def)

lemma work_turn:
  assumes ok: "\<forall>r \<in> set cat. timestamp_ok (fst r)" and "0 < in_flight"
    and turn: "sweep_turn lb timestamp_ok cat in_flight inp s = (Going, s')"
  shows "work cat s' < work cat s"
proof -
  note steps = turn [unfolded sweep_turn_prepared [OF going_current [OF turn]]]
  then obtain s2 where s2: "prepared lb timestamp_ok cat in_flight inp s = Inr s2" by (auto split: sum.splits)
  then obtain s1 where s1: "read_ahead lb timestamp_ok cat in_flight inp s = Inr s1"
    and feed: "s2 = feed in_flight (commit_pages (ti_saved inp) s1)"
    by (auto simp: prepared_def result_simps)
  have same: "work cat s2 = work cat s1" by (simp add: feed work_feed)
  note less = work_read_ahead [OF ok s1]
  show ?thesis
  proof (cases "sw_fetching s2 = []")
    case True
    then have air: "sw_fetching s1 = []" "sw_queued s1 = []" using feed assms(2) by (auto simp: feed_def Let_def)
    then have "sw_queued s2 = []" by (simp add: feed feed_def Let_def)
    with steps s2 True have s': "s' = s2" "\<not> sw_listed_everything s2" "sw_unserved s2 = 0"
      by (auto simp: end_pass_ends split: if_splits)
    then have "\<not> sw_listed_everything s1" "sw_unserved s1 = 0" by (simp_all add: feed)
    moreover from this air s1 have "wants_page in_flight s"
      using assms(2) by (auto simp: read_ahead_def wants_page_def Let_def split: if_splits)
    ultimately show ?thesis using less(2) same s'(1) by simp
  next
    case False
    with steps s2 have "join_one inp s2 = (Going, s')" by simp
    from False this obtain before rest where fetching: "sw_fetching s2 = before @ returning inp s2 # rest"
      and s': "s' = book (fst (returning inp s2)) (ti_outcome inp) (s2\<lparr>sw_fetching := before @ rest\<rparr>)"
      by (rule join_one_book)
    have "work cat s' \<le> work cat (s2\<lparr>sw_fetching := before @ rest\<rparr>)" unfolding s' by (rule work_book)
    also have "\<dots> < work cat s2" by (simp add: work_def fetching)
    finally show ?thesis using less(1) same by simp
  qed
qed

section \<open>Properties of a pass\<close>

text \<open>Claim C15: the cursor never passes a game nobody dealt with. At any moment of a pass over the catalogue, however the
  requests return and whichever writes of the cursor fail, every game of a catalogue that does not change meanwhile and
  whose times are representable, between the start of the pass and the
  durable cursor was held already or its request came back with something other than
  \<open>Unserved_Game\<close>.\<close>

theorem cursor_passes_only_settled:
  assumes "\<forall>r \<in> set cat. timestamp_ok (fst r)"
    and "sweep_run lb timestamp_ok cat in_flight (begin_sweep cursor sweep_from progress) s settled"
    and "sw_cursor s = Some c"
  shows "\<forall>r \<in> set cat. beyond (sw_reading_from (begin_sweep cursor sweep_from progress)) r \<and> r \<le> c \<longrightarrow> snd r \<in> settled"
  using sweep_inv_cursor [OF sweep_inv_run [OF assms(2,1)] assms(3)] by blast

text \<open>A pass that reports the end of its list dealt with the whole list: every game of the catalogue beyond the
  start was held or its request came back, every page is committed, and the cursor is cleared.\<close>

theorem finished_pass_settles_all:
  assumes "\<forall>r \<in> set cat. timestamp_ok (fst r)"
    and "sweep_run lb timestamp_ok cat in_flight (begin_sweep cursor sweep_from progress) s settled"
    and "sweep_turn lb timestamp_ok cat in_flight inp s = (Ended (Inr out), s')" and "po_finished out"
  shows "sw_cursor s' = None \<and> pp_pages (sw_pending s') = [] \<and>
     (\<forall>r \<in> set cat. beyond (sw_reading_from (begin_sweep cursor sweep_from progress)) r \<longrightarrow>
        snd r \<in> turn_settles lb timestamp_ok cat in_flight inp s settled)"
proof -
  let ?start = "sw_reading_from (begin_sweep cursor sweep_from progress)"
  have current: "ti_current inp" using assms(3,4) by (cases "ti_current inp") (auto simp: sweep_turn_def interrupted_def)
  note steps = assms(3) [unfolded sweep_turn_prepared [OF current]]
  from steps obtain s2 where s2: "prepared lb timestamp_ok cat in_flight inp s = Inr s2"
    by (auto split: sum.splits)
  let ?now = "settled \<union> read_held lb timestamp_ok cat in_flight inp s"
  have idle: "sw_fetching s2 = []" "sw_queued s2 = []" "sw_listed_everything s2 \<or> 0 < sw_unserved s2"
      "end_pass (ti_cleared inp) s2 = (Ended (Inr out), s')"
    using steps s2 by (auto simp: join_one_def Let_def split: if_splits prod.splits)
  then have zero: "sw_unserved s2 = 0" "sw_listed_everything s2" "sw_cursor s' = None" "sw_pending s' = sw_pending s2"
    using assms(4) by (auto simp: end_pass_def interrupted_def Let_def split: if_splits)
  note inv = sweep_inv_prepared [OF sweep_inv_run [OF assms(2,1)] assms(1) s2]
  from sweep_inv_idle [OF inv idle(1,2) zero(1) prepared_first [OF s2]]
  have none: "settled_to cat ?now ?start (sw_reading_from s2)" "pp_pages (sw_pending s2) = []" by simp_all
  have "\<forall>r \<in> set cat. \<not> beyond (sw_reading_from s2) r"
    using inv zero(2) by (auto simp: pages_inv_def elim!: sweep_invE)
  with none(1) have "\<forall>r \<in> set cat. beyond ?start r \<longrightarrow> snd r \<in> ?now" by (auto simp: settled_to_def)
  moreover have "turn_settles lb timestamp_ok cat in_flight inp s settled = ?now"
    by (simp add: turn_settles_def s2 idle(1) Let_def)
  ultimately show ?thesis using zero(3,4) none(2) by simp
qed

text \<open>A pass ends. Every turn that goes on reads a page or sees a request return, so after at most twice the rows
  left in the catalogue, plus the games queued and in the air, the loop has ended, whatever the databases and
  the sessions answered.\<close>

theorem sweep_pass_ends:
  assumes "\<forall>r \<in> set cat. timestamp_ok (fst r)" and "0 < in_flight" and "work cat s < length inps"
  shows "\<exists>r. fst (sweep_pass lb timestamp_ok cat in_flight inps s) = Ended r"
  using assms(3)
proof (induction inps arbitrary: s)
  case (Cons inp inps)
  show ?case
  proof (cases "sweep_turn lb timestamp_ok cat in_flight inp s")
    case (Pair status s')
    show ?thesis
    proof (cases status)
      case Going
      with work_turn [OF assms(1,2)] Pair have "work cat s' < work cat s" by blast
      with Cons Pair Going show ?thesis by simp
    qed (simp add: Pair)
  qed
qed simp

section \<open>When the walk stops\<close>

text \<open>What the rounds so far call for, by their history alone.\<close>

definition in_vain :: "pass_outcome \<Rightarrow> bool" where
  "in_vain oc \<longleftrightarrow> \<not> po_finished oc \<and> po_replaced oc = 0"

definition verdict :: "pass_outcome list \<Rightarrow> walk_stop option" where
  "verdict rounds =
     (if rounds = [] then None
      else if max_stumbles \<le> length (takeWhile in_vain (rev rounds)) then Some Stalled
      else if \<not> po_finished (last rounds) then None
      else if po_replaced (last rounds) = 0 then Some Walk_Done
      else if max_passes \<le> length (filter po_finished rounds) then Some Exhausted
      else None)"

definition tally_of :: "pass_outcome list \<Rightarrow> walk_tally" where
  "tally_of rounds = \<lparr>wt_passes = length (filter po_finished rounds), wt_stumbles = length (takeWhile in_vain (rev rounds))\<rparr>"

lemma after_round_tally: "after_round oc (tally_of rounds) = (verdict (rounds @ [oc]), tally_of (rounds @ [oc]))"
  by (auto simp: after_round_def tally_of_def verdict_def in_vain_def Let_def word_gt_0 max_stumbles_def)

lemma walk_rounds_tally:
  "walk_rounds (tally_of past) (map (\<lambda>oc. (Inr oc, True)) rounds) =
     map_option (\<lambda>n. Stopped_By (the (verdict (take n (past @ rounds)))) ((past @ rounds) ! (n - 1)))
       (find (\<lambda>n. verdict (take n (past @ rounds)) \<noteq> None) [Suc (length past)..<Suc (length past + length rounds)])"
proof (induction rounds arbitrary: past)
  case (Cons oc rounds)
  have upt: "[Suc (length past)..<Suc (length past + length (oc # rounds))] =
      Suc (length past) # [Suc (length (past @ [oc]))..<Suc (length (past @ [oc]) + length rounds)]"
    by (simp add: upt_conv_Cons del: upt_Suc)
  have first: "take (Suc (length past)) (past @ oc # rounds) = past @ [oc]" by simp
  show ?case
  proof (cases "verdict (past @ [oc])")
    case None
    with Cons.IH [of "past @ [oc]"] show ?thesis
      unfolding upt by (simp add: after_round_tally del: upt_Suc)
  next
    case (Some stop)
    then show ?thesis unfolding upt by (simp add: after_round_tally first del: upt_Suc)
  qed
qed simp

text \<open>The walk stops at the first round its history calls for and at no other. Ten rounds in a row that neither
  reached the end of the list nor stored anything mean it stalled; a round that reached the end with nothing stored means
  it is done; the twelfth round that reached the end means it is exhausted. A round that did not reach the end is
  never taken for the end of the work, whatever it stored.\<close>

theorem walk_stops_by_history:
  "walk_rounds new_tally (map (\<lambda>oc. (Inr oc, True)) rounds) =
     map_option (\<lambda>n. Stopped_By (the (verdict (take n rounds))) (rounds ! (n - 1)))
       (find (\<lambda>n. verdict (take n rounds) \<noteq> None) [1..<Suc (length rounds)])"
proof -
  have "new_tally = tally_of []" by (simp add: new_tally_def tally_of_def)
  with walk_rounds_tally [of "[]" rounds] show ?thesis by (simp del: upt_Suc)
qed

section \<open>A game nobody answered\<close>

text \<open>A turn with nothing special about it.\<close>

definition plain_turn :: "claims \<Rightarrow> walk_outcome result \<Rightarrow> turn_input" where
  "plain_turn claims joined = \<lparr>ti_current = True, ti_listed = True, ti_looked_up = True, ti_claims = claims, ti_saved = Done,
     ti_cleared = Done, ti_returns = 0, ti_died = False, ti_outcome = joined\<rparr>"

text \<open>With no session logged in, a game nobody answered is booked as answered. The request for the only game of a
  catalogue runs into the claim timeout while no session is logged in: the walk of the game fails, its page commits all
  the same, the pass reports that it read its list to the end, the cursor is cleared, and the walk stops as done
  although nothing was ever asked of the game's servers.\<close>

theorem no_session_passes_for_done:
  assumes "ge_fetch env = Inl Unserved" and "ge_sessions env = 0" and "claims (game_claim_hash lb uuid) = None"
    and "one_game lb cd env uuid st = Some (joined, st')"
  shows "\<exists>s. sweep_pass lb (\<lambda>_. True) [(started, uuid)] (Suc m) [plain_turn claims joined, plain_turn claims joined]
       (begin_sweep None None progress) = (Ended (Inr (finished 1 0)), s) \<and> sw_cursor s = None \<and>
     walk_rounds new_tally [(Inr (finished 1 0), True)] = Some (Stopped_By Walk_Done (finished 1 0)) \<and> st' = st"
proof -
  have joined: "joined = Inl no_session" "st' = st" using assms by (auto simp: one_game_def)
  have listing: "game_uuid_listings (\<lambda>_. True) [(started, uuid)] None page_size = [(started, uuid)]"
    "game_uuid_listings (\<lambda>_. True) [(started, uuid)] (Some (started, uuid)) page_size = []"
    by (simp_all add: game_uuid_listings_def beyond_def page_size_def)
  have wanted: "unclaimed lb [uuid] (held_games lb claims [uuid]) = [uuid]"
    using assms(3) by (simp add: unclaimed_def held_games_def claimed_games_def)
  note eval = sweep_turn_def plain_turn_def begin_sweep_def read_ahead_def wants_page_def next_page_def listing take_page_def wanted
    push_page_def no_pages_def commit_pages_def committable_def is_finished_def feed_def join_one_def book_def answered_def
    commit_one_def end_pass_def Let_def
  have "\<exists>s. sweep_pass lb (\<lambda>_. True) [(started, uuid)] (Suc m) [plain_turn claims joined, plain_turn claims joined]
       (begin_sweep None None progress) = (Ended (Inr (finished 1 0)), s) \<and> sw_cursor s = None"
    unfolding joined by (simp add: eval)
  then show ?thesis
    by (simp add: joined after_round_def new_tally_def finished_def max_stumbles_def Let_def)
qed

section \<open>A record that was cut short\<close>

text \<open>One stored record that was cut short ends the whole repair. When the bytes of a record hold a beginning of its
  game with hands missing, and the game fetched again converts to a stream that starts the same way, then the
  repair of that record fails, the pass over the corpus fails with it whatever comes after, and the walk ends
  with the error.\<close>

theorem cut_short_record_ends_repair:
  assumes "conversion pb (Some metadata) = Inr (uuid, es)" and "rereads lb cd es"
    and "re_raw env = Some raw" and "re_fetch env = Inr pb"
    and "stored_header (lb_from_str lb) (lb_from_str_vec lb) raw = Some (uuid, metadata)"
    and "events_of_raw lb raw = Inr before" and "hands before \<noteq> hands es"
    and "length before < length es" and "list_all2 json_eq (take (length before) es) before"
  shows "\<exists>fault. is_panic fault \<and> one_record lb cd kafka env row st = Some (Inl fault, st) \<and>
     (\<forall>later scanned replaced p t rounds.
        walk_rounds t ((fst (repair_pass ((True, Inl fault) # later) scanned replaced p), True) # rounds) = Some (Failed_With_Error fault))"
proof -
  from divergence_cases [of es before] assms(8,9) obtain m where "divergence es before = Inl (Panicked m)" by blast
  then have "reconverted lb cd pb metadata raw uuid = Inl (Panicked m)"
    using assms(6,7) by (simp add: reconverted_steps [OF assms(1,2)])
  then have "one_record lb cd kafka env row st = Some (Inl (Panicked m), st)"
    by (simp add: one_record_def assms(3-5))
  then show ?thesis by (intro exI [of _ "Panicked m"]) simp
qed

section \<open>Witnesses\<close>

definition two_games :: "sweep_position list" where
  "two_games = [(7, ''a''), (5, ''b''), (7, ''a'')]"

definition blank_progress :: refetch_progress where
  "blank_progress = \<lparr>rp_pass = 1, rp_scanned = 0, rp_replaced = 0, rp_present = 0, rp_duplicates = 0, rp_position = None, rp_refused = 0,
     rp_unreadable = 0, rp_unconvertible = 0, rp_unconvertible_by = no_counts\<rparr>"

lemmas sweep_eval = sweep_turn_def plain_turn_def begin_sweep_def read_ahead_def wants_page_def next_page_def take_page_def
  push_page_def no_pages_def commit_pages_def committable_def is_finished_def feed_def join_one_def book_def answered_def
  commit_one_def end_pass_def game_uuid_listings_def beyond_def page_size_def two_games_def unclaimed_def held_games_def
  claimed_games_def blank_progress_def count_outcome_def

definition first_state :: "libs \<Rightarrow> sweep" where
  "first_state lb = snd (sweep_turn lb (\<lambda>_. True) two_games 4 (plain_turn Map.empty (Inr Replaced)) (begin_sweep None None blank_progress))"

definition second_state :: "libs \<Rightarrow> sweep" where
  "second_state lb = snd (sweep_turn lb (\<lambda>_. True) two_games 4 (plain_turn Map.empty (Inr Refused_Game)) (first_state lb))"

lemma first_turn: "sweep_turn lb (\<lambda>_. True) two_games 4 (plain_turn Map.empty (Inr Replaced)) (begin_sweep None None blank_progress) =
    (Going, first_state lb)"
  unfolding first_state_def by (simp add: sweep_eval Let_def)

lemma second_turn: "sweep_turn lb (\<lambda>_. True) two_games 4 (plain_turn Map.empty (Inr Refused_Game)) (first_state lb) = (Going, second_state lb)"
  unfolding second_state_def first_state_def by (simp add: sweep_eval Let_def)

lemma third_turn: "\<exists>s. sweep_turn lb (\<lambda>_. True) two_games 4 (plain_turn Map.empty (Inr Refused_Game)) (second_state lb) =
    (Ended (Inr (finished 2 1)), s)"
  unfolding second_state_def first_state_def by (simp add: sweep_eval Let_def)

definition full_claims :: claims where
  "full_claims = (\<lambda>_. Some \<lparr>cr_record_id = [], cr_content_sha256 = [], cr_expires = False, cr_created_at = 0\<rparr>)"

theorem cursor_passes_only_settled_witness:
  "\<exists>s settled. sweep_run (repair_libs None) (\<lambda>_. True) two_games 4 (begin_sweep None None blank_progress) s settled \<and>
     sw_cursor s = Some (7, ''a'') \<and> {''a'', ''b''} \<subseteq> settled"
proof -
  let ?s0 = "begin_sweep None None blank_progress" and ?inp = "plain_turn full_claims (Inr Replaced)"
  obtain s where s: "sweep_turn (repair_libs None) (\<lambda>_. True) two_games 4 ?inp ?s0 = (Going, s)" "sw_cursor s = Some (7, ''a'')"
    by (simp add: sweep_eval full_claims_def Let_def)
  note run = run_turn [OF run_begin s(1)]
  from cursor_passes_only_settled [OF _ run s(2)]
  have "{''a'', ''b''} \<subseteq> turn_settles (repair_libs None) (\<lambda>_. True) two_games 4 ?inp ?s0 {}"
    by (simp add: two_games_def begin_sweep_def beyond_def)
  with run s(2) show ?thesis by blast
qed

theorem finished_pass_settles_all_witness:
  "\<exists>s settled. sweep_run (repair_libs None) (\<lambda>_. True) two_games 4 (begin_sweep None None blank_progress) s settled \<and>
     {''a'', ''b''} \<subseteq> turn_settles (repair_libs None) (\<lambda>_. True) two_games 4 (plain_turn Map.empty (Inr Refused_Game)) s settled"
proof -
  let ?lb = "repair_libs None"
  note run = run_turn [OF run_turn [OF run_begin first_turn] second_turn, of ?lb]
  obtain s where "sweep_turn ?lb (\<lambda>_. True) two_games 4 (plain_turn Map.empty (Inr Refused_Game)) (second_state ?lb) =
      (Ended (Inr (finished 2 1)), s)" using third_turn by blast
  from finished_pass_settles_all [OF _ run this] run show ?thesis
    by (auto simp: two_games_def begin_sweep_def beyond_def finished_def)
qed

theorem sweep_pass_ends_witness:
  "\<exists>r. fst (sweep_pass (repair_libs None) (\<lambda>_. True) two_games 4 (replicate 7 (plain_turn Map.empty (Inr Replaced)))
     (begin_sweep None None blank_progress)) = Ended r"
  by (rule sweep_pass_ends) (simp_all add: work_def ahead_def two_games_def begin_sweep_def beyond_def)

theorem no_session_passes_for_done_witness:
  "\<exists>s. sweep_pass (repair_libs None) (\<lambda>_. True) [(7, ''a'')] 1 [plain_turn Map.empty (Inl no_session), plain_turn Map.empty (Inl no_session)]
       (begin_sweep None None blank_progress) = (Ended (Inr (finished 1 0)), s) \<and> sw_cursor s = None"
proof -
  let ?env = "fetched_env\<lparr>ge_fetch := Inl Unserved, ge_sessions := 0\<rparr>"
  have "one_game (repair_libs None) plain_codec ?env ''a'' fresh_repair = Some (Inl no_session, fresh_repair)"
    by (simp add: one_game_def)
  from no_session_passes_for_done [OF _ _ _ this, of Map.empty 7 0 blank_progress] show ?thesis by auto
qed

text \<open>A game with one aborted hand, and a stored record that holds only its first event.\<close>

definition hand_record :: game_record where
  "hand_record = sample_record\<lparr>gr_records := [\<lparr>ra_name = ''.lq.RecordLiuJu'', ra_data = [], ra_passed_ms = Some 3\<rparr>]\<rparr>"

definition hand_stream :: "json list" where
  "hand_stream = [start_game_event hand_record (Some sample_mode),
     json_put ''dt_ms'' (JNum 3) (liu_ju_event \<lparr>lj_type = 0, lj_seat = None, lj_tiles = []\<rparr>),
     json_put ''dt_ms'' (JNum 0) end_kyoku_event, end_game_event hand_record]"

lemma hand_conversion: "conversion (enc_record hand_record) (Some sample_mode) = Inr (''u'', hand_stream)"
proof -
  have "record_wf hand_record"
    using sample_record_wf by (simp add: hand_record_def record_wf_def valid_utf8_ascii_list as_bytes_def byte_of_char_def)
  moreover have "length (enc_record hand_record) < 2 ^ 64" "20 \<le> length (enc_record hand_record)"
    by (simp_all add: hand_record_def sample_record_def enc_defs)
  ultimately have "decode_game_record (enc_record hand_record) = Inr hand_record" "20 \<le> length (enc_record hand_record)"
    using decode_game_record_enc by blast+
  moreover have "parse_actions (gr_records hand_record) = Inr [(Some 3, LiuJu \<lparr>lj_type = 0, lj_seat = None, lj_tiles = []\<rparr>)]"
    by (simp add: hand_record_def parse_actions_def parse_record_action_def parse_liu_ju_def fold_fields_from.simps next_field_def)
  moreover have "events_to_mjai hand_record [(Some 3, LiuJu \<lparr>lj_type = 0, lj_seat = None, lj_tiles = []\<rparr>)]
      (header_of hand_record (Some sample_mode)) = Inr hand_stream"
    by (simp add: events_to_mjai_def conv_init_def conv_step_def handle_event_def on_liu_ju_def take_pending_reach_def push_def
        stamp_def hand_stream_def header_of_def saturating_sub_def)
  moreover have "gr_records hand_record \<noteq> []" "gr_uuid hand_record = ''u''"
    by (simp_all add: hand_record_def sample_record_def)
  ultimately show ?thesis by (simp add: conversion_def)
qed

definition hand_print :: "json \<Rightarrow> string" where
  "hand_print e = (if kind e = Some ''start_game'' then ''{0}'' else if kind e = Some ''ryukyoku'' then ''{2}''
     else if kind e = Some ''end_kyoku'' then ''{3}'' else ''{1}'')"

definition hand_libs :: libs where
  "hand_libs = (repair_libs None)\<lparr>lb_to_string := hand_print, lb_from_str := (\<lambda>s. find (\<lambda>e. hand_print e = s) hand_stream),
     lb_from_str_vec := (\<lambda>_. Some [hd hand_stream])\<rparr>"

lemma hand_prints:
  "hand_print (hand_stream ! 0) = ''{0}''" "hand_print (hand_stream ! 1) = ''{2}''" "hand_print (hand_stream ! 2) = ''{3}''"
  "hand_print (hand_stream ! 3) = ''{1}''"
  by (simp_all add: hand_print_def hand_stream_def bracket_defs liu_ju_event_def end_kyoku_event_def kind_def json_get_put)

lemma hand_rereads: "rereads hand_libs plain_codec hand_stream"
proof -
  have four: "hand_stream = [hand_stream ! 0, hand_stream ! 1, hand_stream ! 2, hand_stream ! 3]"
    by (simp add: hand_stream_def)
  have "list_all (prints_back hand_print (\<lambda>s. find (\<lambda>e. hand_print e = s) hand_stream)) hand_stream"
    by (subst (2) four, subst four)
       (simp add: prints_back_def hand_prints hand_prints(2) [unfolded One_nat_def] valid_utf8_ascii_list as_bytes_def byte_of_char_def)
  then show ?thesis by (simp add: rereads_def hand_libs_def plain_codec_def Let_def)
qed

definition cut_env :: record_env where
  "cut_env = \<lparr>re_raw = Some (as_bytes ''[''), re_fetch = Inr (enc_record hand_record), re_sessions = 1, re_now = 0, re_lags = [],
     re_broker = (\<lambda>_ _. Done)\<rparr>"

lemma cut_stored: "events_of_raw hand_libs (as_bytes ''['') = Inr [hd hand_stream]"
proof -
  have "from_utf8 (as_bytes ''['') = Some ''[''"
    using valid_utf8_single [of "CHR ''[''"] by (simp add: from_utf8_def byte_of_char_def)
  moreover have "str_trim ''['' = ''[''"
    by (simp add: str_trim_def str_chars_Cons_ascii byte_of_char_def is_white_space_def white_space_def as_bytes_def)
  ultimately show ?thesis
    by (simp add: events_def Let_def hand_libs_def hand_stream_def start_game_event_def)
qed

theorem cut_short_record_ends_repair_witness:
  "\<exists>fault. is_panic fault \<and>
     one_record hand_libs plain_codec ready_kafka cut_env (sample_row [] []) fresh_repair = Some (Inl fault, fresh_repair)"
proof -
  have env: "re_raw cut_env = Some (as_bytes ''['')" "re_fetch cut_env = Inr (enc_record hand_record)"
    by (simp_all add: cut_env_def)
  have header: "stored_header (lb_from_str hand_libs) (lb_from_str_vec hand_libs) (as_bytes ''['') = Some (''u'', sample_mode)"
    using cut_stored stored_metadata_header [of hand_record sample_mode]
    by (simp add: stored_header_def hand_stream_def start_game_event_def kind_def majsoul_header_def [of _ "Some _"] Let_def hand_record_def sample_record_def)
  have "hands [hd hand_stream] \<noteq> hands hand_stream" "length [hd hand_stream] < length hand_stream"
    "list_all2 json_eq (take (length [hd hand_stream]) hand_stream) [hd hand_stream]"
    by (simp_all add: hands_def kind_text_def hand_stream_def bracket_defs liu_ju_event_def end_kyoku_event_def kind_def json_get_put json_eq_refl)
  from cut_short_record_ends_repair [OF hand_conversion hand_rereads env header cut_stored this] show ?thesis by blast
qed

end
