(* ===== verification/Accounts.thy ===== *)
theory Accounts
  imports Ascii_Case "HOL-Library.List_Lexorder" "HOL-Library.Char_ord"
begin

text \<open>
  \<^verbatim>\<open>src/accounts.rs\<close>: the Mahjong Soul accounts the console keeps, and the code that decides who may log in
  with which: \<^verbatim>\<open>load_accounts\<close> of \<^verbatim>\<open>src/managed_watch.rs\<close>, \<^verbatim>\<open>referenced_accounts\<close> of
  \<^verbatim>\<open>src/watch_service.rs\<close>, \<^verbatim>\<open>collector_accounts\<close>, \<^verbatim>\<open>pool_accounts\<close> and \<^verbatim>\<open>usable_accounts\<close> of
  \<^verbatim>\<open>src/refetch_service.rs\<close>, and the save handler \<^verbatim>\<open>put_accounts\<close> of \<^verbatim>\<open>src/api.rs\<close>.
  \<open>lower\<close> is \<^verbatim>\<open>str::to_lowercase\<close>, whose Unicode table is an argument; the clock, the new ids, the files and
  the environment are arguments too.
\<close>

section \<open>Data\<close>

datatype account_purpose = Watch | Refetch

definition parse_purpose :: "string \<Rightarrow> account_purpose option" where
  "parse_purpose s = (if s = ''watch'' then Some Watch else if s = ''refetch'' then Some Refetch else None)"

record stored_account =
  sa_id :: string
  sa_username :: string
  sa_password :: string
  sa_purpose :: account_purpose
  sa_note :: string
  sa_enabled :: bool
  sa_node :: string
  sa_banned_at :: "int option"

record account_document =
  ad_revision :: u64
  ad_accounts :: "stored_account list"
  ad_updated_at :: "int option"

definition default_document :: account_document where
  "default_document = \<lparr>ad_revision = 0, ad_accounts = [], ad_updated_at = None\<rparr>"

datatype account_state = Unknown | Ok_State | Banned | Refused_State | Unreachable

definition is_terminal :: "account_state \<Rightarrow> bool" where
  "is_terminal state \<longleftrightarrow> state = Banned"

record account_health =
  ah_state :: account_state
  ah_at :: "int option"
  ah_detail :: string
  ah_failures :: u32

definition default_health :: account_health where
  "default_health = \<lparr>ah_state = Unknown, ah_at = None, ah_detail = [], ah_failures = 0\<rparr>"

datatype pool_error = Invalid_Config | Revision_Conflict u64 u64 | Pool_Io | Pool_Json

record account_pool =
  ap_file :: "account_document option"
  ap_document :: account_document
  ap_health :: "string \<rightharpoonup> account_health"

definition saturating_add :: "'a::len word \<Rightarrow> 'a word \<Rightarrow> 'a word" where
  "saturating_add a b = (if unat a + unat b < 2 ^ LENGTH('a) then a + b else - 1)"

section \<open>Secrets in documents\<close>

text \<open>\<^verbatim>\<open>redacted_secret\<close> and \<^verbatim>\<open>restored_secret\<close> of \<^verbatim>\<open>src/watch_service.rs\<close>.\<close>

definition redacted :: string where
  "redacted = ''***''"

definition redacted_secret :: "string option \<Rightarrow> string option" where
  "redacted_secret s = (case s of None \<Rightarrow> None | Some v \<Rightarrow> if v = [] then None else Some redacted)"

definition restored_secret :: "string option \<Rightarrow> string option \<Rightarrow> string option" where
  "restored_secret submitted stored =
     (case submitted of Some v \<Rightarrow> if v = redacted then stored else Some v | None \<Rightarrow> None)"

definition unwrap_or_default :: "string option \<Rightarrow> string" where
  "unwrap_or_default s = (case s of None \<Rightarrow> [] | Some v \<Rightarrow> v)"

definition published_account :: "stored_account \<Rightarrow> stored_account" where
  "published_account account = account\<lparr>sa_password := unwrap_or_default (redacted_secret (Some (sa_password account)))\<rparr>"

definition published :: "account_document \<Rightarrow> account_document" where
  "published document = document\<lparr>ad_accounts := map published_account (ad_accounts document)\<rparr>"

section \<open>Validation\<close>

fun validate_accounts :: "(string \<Rightarrow> string) \<Rightarrow> string set \<Rightarrow> stored_account list \<Rightarrow> pool_error + unit" where
  "validate_accounts lower seen [] = Inr ()"
| "validate_accounts lower seen (account # accounts) =
     (let username = str_trim (sa_username account)
      in if username = [] then Inl Invalid_Config
         else if (\<exists>c \<in> set (str_chars username). is_white_space c) \<or> CHR ''/'' \<in> set username then Inl Invalid_Config
         else if str_trim (sa_password account) = [] then Inl Invalid_Config
         else if lower username \<in> seen then Inl Invalid_Config
         else validate_accounts lower (insert (lower username) seen) accounts)"

definition validate :: "(string \<Rightarrow> string) \<Rightarrow> account_document \<Rightarrow> pool_error + unit" where
  "validate lower document = validate_accounts lower {} (ad_accounts document)"

section \<open>References\<close>

datatype pool_ref = All account_purpose | One account_purpose string

definition parse_ref :: "string \<Rightarrow> pool_ref option" where
  "parse_ref target =
     (case split_once CHR ''/'' target of
        Some (purpose, username) \<Rightarrow>
          if username \<noteq> [] then map_option (\<lambda>p. One p username) (parse_purpose purpose) else None
      | None \<Rightarrow> map_option All (parse_purpose target))"

definition matches_ref :: "pool_ref \<Rightarrow> stored_account \<Rightarrow> bool" where
  "matches_ref reference account =
     (case reference of
        All purpose \<Rightarrow> sa_purpose account = purpose
      | One purpose username \<Rightarrow> sa_purpose account = purpose \<and> eq_ignore_ascii_case (sa_username account) username)"

definition resolve :: "pool_ref \<Rightarrow> account_pool \<Rightarrow> (string \<times> string) list" where
  "resolve reference pool =
     map (\<lambda>account. (sa_username account, sa_password account))
       (filter (matches_ref reference) (filter sa_enabled (ad_accounts (ap_document pool))))"

section \<open>The pool\<close>

datatype pool_file = Found_Pool account_document | No_Pool | Bad_Pool pool_error

definition open_pool :: "(string \<Rightarrow> string) \<Rightarrow> pool_file \<Rightarrow> pool_error + account_pool" where
  "open_pool lower found =
     (case found of
        Found_Pool document \<Rightarrow>
          attempt (validate lower document) (\<lambda>_. Inr \<lparr>ap_file = Some document, ap_document = document, ap_health = Map.empty\<rparr>)
      | No_Pool \<Rightarrow> Inr \<lparr>ap_file = None, ap_document = default_document, ap_health = Map.empty\<rparr>
      | Bad_Pool e \<Rightarrow> Inl e)"

definition record_login ::
  "(string \<Rightarrow> string) \<Rightarrow> int \<Rightarrow> string \<Rightarrow> account_state \<Rightarrow> string \<Rightarrow> account_pool \<Rightarrow> account_pool" where
  "record_login lower now username state detail pool =
     (let entry = (case ap_health pool (lower username) of None \<Rightarrow> default_health | Some h \<Rightarrow> h)
      in pool\<lparr>ap_health := (ap_health pool)(lower username \<mapsto>
           \<lparr>ah_state = state, ah_at = Some now, ah_detail = detail,
            ah_failures = (if state = Ok_State then 0 else saturating_add (ah_failures entry) 1)\<rparr>)\<rparr>)"

text \<open>\<^verbatim>\<open>persist_secret_json\<close> and the replacement of the document in memory, which only follows a write that
  succeeded.\<close>

definition commit_document :: "bool \<Rightarrow> account_document \<Rightarrow> account_pool \<Rightarrow> (pool_error + unit) \<times> account_pool" where
  "commit_document written document pool =
     (if written then (Inr (), pool\<lparr>ap_file := Some document, ap_document := document\<rparr>) else (Inl Pool_Io, pool))"

definition retire_banned :: "int \<Rightarrow> bool \<Rightarrow> string \<Rightarrow> account_pool \<Rightarrow> (pool_error + bool) \<times> account_pool" where
  "retire_banned now written username pool =
     (let document = ap_document pool;
          this_one = (\<lambda>account. eq_ignore_ascii_case (sa_username account) (str_trim username))
      in case find this_one (ad_accounts document) of
           None \<Rightarrow> (Inr False, pool)
         | Some account \<Rightarrow>
             if sa_purpose account \<noteq> Refetch \<or> \<not> sa_enabled account then (Inr False, pool)
             else
               let retired = update_first this_one (\<lambda>a. a\<lparr>sa_enabled := False, sa_banned_at := Some now\<rparr>) (ad_accounts document)
               in case commit_document written (document\<lparr>ad_accounts := retired,
                         ad_revision := saturating_add (ad_revision document) 1, ad_updated_at := Some now\<rparr>) pool of
                    (Inl e, pool') \<Rightarrow> (Inl e, pool')
                  | (Inr _, pool') \<Rightarrow> (Inr True, pool'))"

text \<open>\<^verbatim>\<open>health\<close>: a map by username as the document spells it; of equal usernames the last would win.\<close>

definition health :: "(string \<Rightarrow> string) \<Rightarrow> account_pool \<Rightarrow> string \<rightharpoonup> account_health" where
  "health lower pool =
     map_of (rev (map (\<lambda>account. (sa_username account,
       case ap_health pool (lower (sa_username account)) of None \<Rightarrow> default_health | Some h \<Rightarrow> h)) (ad_accounts (ap_document pool))))"

text \<open>The loop of \<^verbatim>\<open>append\<close>; \<open>new_id\<close> numbers the ids it draws.\<close>

fun append_loop ::
  "(string \<Rightarrow> string) \<Rightarrow> (nat \<Rightarrow> string) \<Rightarrow> string set \<Rightarrow> nat \<Rightarrow> stored_account list \<Rightarrow> stored_account list" where
  "append_loop lower new_id seen n [] = []"
| "append_loop lower new_id seen n (account # accounts) =
     (let username = str_trim (sa_username account)
      in if username = [] \<or> lower username \<in> seen then append_loop lower new_id seen n accounts
         else account\<lparr>sa_username := username, sa_id := (if sa_id account = [] then new_id n else sa_id account)\<rparr> #
              append_loop lower new_id (insert (lower username) seen) (Suc n) accounts)"

definition append_accounts ::
  "(string \<Rightarrow> string) \<Rightarrow> (nat \<Rightarrow> string) \<Rightarrow> int \<Rightarrow> bool \<Rightarrow> stored_account list \<Rightarrow> account_pool \<Rightarrow> (pool_error + nat) \<times> account_pool" where
  "append_accounts lower new_id now written accounts pool =
     (if accounts = [] then (Inr 0, pool)
      else
        let document = ap_document pool;
            seen = (\<lambda>account. lower (str_trim (sa_username account))) ` set (ad_accounts document);
            added = append_loop lower new_id seen 0 accounts;
            document' = document\<lparr>ad_accounts := ad_accounts document @ added\<rparr>
        in if added = [] then (Inr 0, pool)
           else (case validate lower document' of
                   Inl e \<Rightarrow> (Inl e, pool)
                 | Inr _ \<Rightarrow>
                     (case commit_document written (document'\<lparr>ad_revision := saturating_add (ad_revision document) 1,
                             ad_updated_at := Some now\<rparr>) pool of
                        (Inl e, pool') \<Rightarrow> (Inl e, pool')
                      | (Inr _, pool') \<Rightarrow> (Inr (length added), pool'))))"

definition restored_account :: "(nat \<Rightarrow> string) \<Rightarrow> account_document \<Rightarrow> nat \<Rightarrow> stored_account \<Rightarrow> stored_account" where
  "restored_account new_id document i account =
     (let previous = find (\<lambda>stored. sa_id stored \<noteq> [] \<and> sa_id stored = sa_id account) (ad_accounts document)
      in account\<lparr>sa_username := str_trim (sa_username account),
           sa_password := unwrap_or_default (restored_secret (Some (sa_password account)) (map_option sa_password previous)),
           sa_banned_at := (if sa_enabled account then None else Option.bind previous sa_banned_at),
           sa_id := (if sa_id account = [] then new_id i else sa_id account)\<rparr>)"

definition update ::
  "(string \<Rightarrow> string) \<Rightarrow> (nat \<Rightarrow> string) \<Rightarrow> int \<Rightarrow> bool \<Rightarrow> account_document \<Rightarrow> account_pool \<Rightarrow> (pool_error + account_document) \<times> account_pool" where
  "update lower new_id now written submitted pool =
     (let document = ap_document pool
      in if ad_revision submitted \<noteq> ad_revision document
         then (Inl (Revision_Conflict (ad_revision submitted) (ad_revision document)), pool)
         else
           let accounts = map_index (restored_account new_id document) (ad_accounts submitted);
               document' = submitted\<lparr>ad_accounts := accounts\<rparr>
           in if \<exists>account \<in> set accounts. sa_password account = redacted then (Inl Invalid_Config, pool)
              else (case validate lower document' of
                      Inl e \<Rightarrow> (Inl e, pool)
                    | Inr _ \<Rightarrow>
                        let saved = document'\<lparr>ad_revision := saturating_add (ad_revision document) 1, ad_updated_at := Some now\<rparr>
                        in case commit_document written saved pool of
                             (Inl e, pool') \<Rightarrow> (Inl e, pool')
                           | (Inr _, pool') \<Rightarrow> (Inr (published saved), pool')))"

section \<open>What the pool answers\<close>

definition reserved :: "account_purpose \<Rightarrow> account_pool \<Rightarrow> string set" where
  "reserved purpose pool = sa_username ` {account \<in> set (ad_accounts (ap_document pool)). sa_purpose account = purpose}"

lemma reserved_code [code]:
  "reserved purpose pool = set (map sa_username (filter (\<lambda>account. sa_purpose account = purpose) (ad_accounts (ap_document pool))))"
  by (auto simp: reserved_def)

definition node_for :: "string \<Rightarrow> account_pool \<Rightarrow> string option" where
  "node_for username pool =
     (case find (\<lambda>account. eq_ignore_ascii_case (sa_username account) username) (ad_accounts (ap_document pool)) of
        None \<Rightarrow> None
      | Some account \<Rightarrow> if str_trim (sa_node account) = [] then None else Some (str_trim (sa_node account)))"

definition in_refetch_pool :: "stored_account \<Rightarrow> bool" where
  "in_refetch_pool account \<longleftrightarrow> sa_enabled account \<and> sa_purpose account = Refetch"

definition refetch_bindings :: "account_pool \<Rightarrow> (string \<times> string) list" where
  "refetch_bindings pool =
     List.map_filter (\<lambda>account. if str_trim (sa_node account) \<noteq> [] then Some (sa_username account, str_trim (sa_node account)) else None)
       (filter in_refetch_pool (ad_accounts (ap_document pool)))"

fun rebind_loop :: "(string \<times> string) list \<Rightarrow> stored_account list \<Rightarrow> nat \<Rightarrow> stored_account list \<times> nat" where
  "rebind_loop [] accounts moved = (accounts, moved)"
| "rebind_loop ((username, node) # moves) accounts moved =
     (let this_one = (\<lambda>account. eq_ignore_ascii_case (sa_username account) username \<and> sa_purpose account = Refetch)
      in case find this_one accounts of
           Some account \<Rightarrow>
             if sa_node account \<noteq> node
             then rebind_loop moves (update_first this_one (\<lambda>a. a\<lparr>sa_node := node\<rparr>) accounts) (Suc moved)
             else rebind_loop moves accounts moved
         | None \<Rightarrow> rebind_loop moves accounts moved)"

definition rebind_nodes ::
  "(string \<Rightarrow> string) \<Rightarrow> (nat \<Rightarrow> string) \<Rightarrow> int \<Rightarrow> bool \<Rightarrow> (string \<times> string) list \<Rightarrow> account_pool \<Rightarrow> (pool_error + nat) \<times> account_pool" where
  "rebind_nodes lower new_id now written moves pool =
     (if moves = [] then (Inr 0, pool)
      else
        let (accounts, moved) = rebind_loop moves (ad_accounts (ap_document pool)) 0
        in case update lower new_id now written ((ap_document pool)\<lparr>ad_accounts := accounts\<rparr>) pool of
             (Inl e, pool') \<Rightarrow> (Inl e, pool')
           | (Inr _, pool') \<Rightarrow> (Inr moved, pool'))"

definition refetch_nodes :: "account_pool \<Rightarrow> string list" where
  "refetch_nodes pool =
     remdups (sort (filter (\<lambda>node. node \<noteq> [])
       (map (\<lambda>account. str_trim (sa_node account)) (filter in_refetch_pool (ad_accounts (ap_document pool))))))"

fun spread_loop :: "string list \<Rightarrow> nat \<Rightarrow> stored_account list \<Rightarrow> stored_account list" where
  "spread_loop nodes index [] = []"
| "spread_loop nodes index (account # accounts) =
     (if sa_purpose account = Refetch
      then account\<lparr>sa_node := (if nodes = [] then [] else nodes ! (index mod length nodes))\<rparr> # spread_loop nodes (Suc index) accounts
      else account # spread_loop nodes index accounts)"

definition spread_over ::
  "(string \<Rightarrow> string) \<Rightarrow> (nat \<Rightarrow> string) \<Rightarrow> int \<Rightarrow> bool \<Rightarrow> string list \<Rightarrow> account_pool \<Rightarrow> (pool_error + nat) \<times> account_pool" where
  "spread_over lower new_id now written nodes pool =
     (case update lower new_id now written ((ap_document pool)\<lparr>ad_accounts := spread_loop nodes 0 (ad_accounts (ap_document pool))\<rparr>) pool of
        (Inl e, pool') \<Rightarrow> (Inl e, pool')
      | (Inr _, pool') \<Rightarrow> (Inr (length (filter (\<lambda>account. sa_purpose account = Refetch) (ad_accounts (ap_document pool)))), pool'))"

definition export_line :: "stored_account \<Rightarrow> string" where
  "export_line account = str_trim (sa_username account) @ '','' @ sa_password account @ [CHR 0x0A]"

definition export_refetch :: "account_pool \<Rightarrow> string" where
  "export_refetch pool =
     concat (map export_line
       (filter (\<lambda>account. \<not> (sa_purpose account \<noteq> Refetch \<or> sa_banned_at account \<noteq> None)) (ad_accounts (ap_document pool))))"

definition taken_from_a_collector ::
  "(string \<Rightarrow> string) \<Rightarrow> account_document \<Rightarrow> string set \<Rightarrow> account_pool \<Rightarrow> string option" where
  "taken_from_a_collector lower submitted in_use pool =
     map_option sa_username (find (\<lambda>account. lower (sa_username account) \<in> in_use \<and>
        \<not> (\<exists>kept \<in> set (ad_accounts submitted). eq_ignore_ascii_case (sa_username kept) (sa_username account)))
       (ad_accounts (ap_document pool)))"

definition pool_secrets :: "account_pool \<Rightarrow> string list" where
  "pool_secrets pool = map sa_password (ad_accounts (ap_document pool))"

section \<open>Who logs in with what\<close>

datatype load_error = No_Scheme | Unreadable_File | Missing_Variable | Bad_Pool_Ref | Empty_Pool_Ref | Unsupported_Scheme | No_Usable_Account

text \<open>One line of an account file: skipped when it is empty, a comment, without a delimiter or incomplete.\<close>

definition account_line :: "string \<Rightarrow> (string \<times> string) option" where
  "account_line raw =
     (let line = str_trim raw
      in if line = [] \<or> hd line = CHR ''#'' then None
         else case split_once (if CHR 0x09 \<in> set line then CHR 0x09 else CHR '','') line of
                None \<Rightarrow> None
              | Some (username, password) \<Rightarrow>
                  if str_trim username \<noteq> [] \<and> str_trim password \<noteq> [] then Some (str_trim username, str_trim password) else None)"

definition parse_account_text :: "string \<Rightarrow> load_error + (string \<times> string) list" where
  "parse_account_text content =
     (let accounts = List.map_filter account_line (str_lines content)
      in if accounts = [] then Inl No_Usable_Account else Inr accounts)"

record secret_env =
  sv_files :: "string \<Rightarrow> string option"
  sv_vars :: "string \<Rightarrow> string option"

definition load_accounts :: "secret_env \<Rightarrow> string \<Rightarrow> account_pool \<Rightarrow> load_error + (string \<times> string) list" where
  "load_accounts sv secret_ref pool =
     (case split_once CHR '':'' secret_ref of
        None \<Rightarrow> Inl No_Scheme
      | Some (scheme, target) \<Rightarrow>
          if scheme = ''file'' then
            (case sv_files sv target of None \<Rightarrow> Inl Unreadable_File | Some content \<Rightarrow> parse_account_text content)
          else if scheme = ''env'' then
            (case sv_vars sv target of None \<Rightarrow> Inl Missing_Variable | Some content \<Rightarrow> parse_account_text content)
          else if scheme = ''pool'' then
            (case parse_ref target of
               None \<Rightarrow> Inl Bad_Pool_Ref
             | Some reference \<Rightarrow> if resolve reference pool = [] then Inl Empty_Pool_Ref else Inr (resolve reference pool))
          else Inl Unsupported_Scheme)"

text \<open>\<^verbatim>\<open>collector_accounts\<close>: \<open>refs\<close> are the account references of the watch instances.\<close>

fun collector_loop :: "secret_env \<Rightarrow> account_pool \<Rightarrow> string list \<Rightarrow> string set \<Rightarrow> pool_error + string set" where
  "collector_loop sv pool [] held = Inr held"
| "collector_loop sv pool (secret_ref # refs) held =
     (if take 5 secret_ref = ''pool:'' then collector_loop sv pool refs held
      else case load_accounts sv secret_ref pool of
             Inl _ \<Rightarrow> Inl Invalid_Config
           | Inr accounts \<Rightarrow> collector_loop sv pool refs (insert (fst (hd accounts)) held))"

definition collector_accounts :: "secret_env \<Rightarrow> string list \<Rightarrow> account_pool \<Rightarrow> pool_error + string set" where
  "collector_accounts sv refs pool = collector_loop sv pool refs (reserved Watch pool)"

fun pool_loop :: "string set \<Rightarrow> string set \<Rightarrow> (string \<times> string) list \<Rightarrow> (string \<times> string) list" where
  "pool_loop collectors seen [] = []"
| "pool_loop collectors seen ((username, password) # accounts) =
     (if username \<notin> collectors \<and> username \<notin> seen
      then (username, password) # pool_loop collectors (insert username seen) accounts
      else pool_loop collectors seen accounts)"

definition pool_accounts :: "(string \<times> string) list \<Rightarrow> string set \<Rightarrow> (string \<times> string) list" where
  "pool_accounts pool collectors = pool_loop collectors {} pool"

definition usable_accounts :: "secret_env \<Rightarrow> string \<Rightarrow> string list \<Rightarrow> account_pool \<Rightarrow> pool_error + (string \<times> string) list" where
  "usable_accounts sv account_secret_ref refs pool =
     (case load_accounts sv account_secret_ref pool of
        Inl _ \<Rightarrow> Inl Invalid_Config
      | Inr accounts \<Rightarrow> attempt (collector_accounts sv refs pool) (\<lambda>collectors. Inr (pool_accounts accounts collectors)))"

definition referenced_accounts :: "(string \<Rightarrow> string) \<Rightarrow> secret_env \<Rightarrow> string list \<Rightarrow> account_pool \<Rightarrow> string set" where
  "referenced_accounts lower sv refs pool =
     set (List.map_filter (\<lambda>secret_ref. case load_accounts sv secret_ref pool of
       Inl _ \<Rightarrow> None | Inr accounts \<Rightarrow> Some (lower (fst (hd accounts)))) refs)"

text \<open>\<^verbatim>\<open>put_accounts\<close> up to its answer; registering the passwords for redaction and handing the nodes to the
  proxy follow the save.\<close>

definition put_accounts ::
  "(string \<Rightarrow> string) \<Rightarrow> (nat \<Rightarrow> string) \<Rightarrow> int \<Rightarrow> bool \<Rightarrow> secret_env \<Rightarrow> string list \<Rightarrow> account_document \<Rightarrow> account_pool \<Rightarrow>
   (pool_error + account_document) \<times> account_pool" where
  "put_accounts lower new_id now written sv refs document pool =
     (let in_use = referenced_accounts lower sv refs pool
      in if \<exists>account \<in> set (ad_accounts document). lower (sa_username account) \<in> in_use \<and>
              (\<not> sa_enabled account \<or> sa_purpose account \<noteq> Watch) then (Inl Invalid_Config, pool)
         else if taken_from_a_collector lower document in_use pool \<noteq> None then (Inl Invalid_Config, pool)
         else update lower new_id now written document pool)"

end
