(* ===== verification/Accounts_Correct.thy ===== *)
theory Accounts_Correct
  imports Accounts
begin

text \<open>
  The account pool over every sequence of operations: stored documents stay valid, a save with the published
  document keeps the passwords, the re-fetch pool never takes an account filed for live collection, a
  collector's account survives a save, and what an export writes loads back.
\<close>

section \<open>Valid documents\<close>

text \<open>Lower-casing does not tell apart what differs in ASCII case only.\<close>

definition lower_ok :: "(string \<Rightarrow> string) \<Rightarrow> bool" where
  "lower_ok lower \<longleftrightarrow> (\<forall>s t. ascii_lower s = ascii_lower t \<longrightarrow> lower s = lower t)"

definition account_key :: "(string \<Rightarrow> string) \<Rightarrow> stored_account \<Rightarrow> string" where
  "account_key lower account = lower (str_trim (sa_username account))"

definition row_ok :: "stored_account \<Rightarrow> bool" where
  "row_ok account \<longleftrightarrow>
     (let username = str_trim (sa_username account)
      in username \<noteq> [] \<and> (\<forall>c \<in> set (str_chars username). \<not> is_white_space c) \<and> CHR ''/'' \<notin> set username \<and>
         str_trim (sa_password account) \<noteq> [])"

lemma validate_accounts_iff:
  "validate_accounts lower seen accounts = Inr () \<longleftrightarrow>
     (\<forall>account \<in> set accounts. row_ok account) \<and> distinct (map (account_key lower) accounts) \<and>
     account_key lower ` set accounts \<inter> seen = {}"
  by (induction accounts arbitrary: seen) (auto simp: row_ok_def account_key_def Let_def)

lemma validate_iff:
  "validate lower document = Inr () \<longleftrightarrow>
     (\<forall>account \<in> set (ad_accounts document). row_ok account) \<and> distinct (map (account_key lower) (ad_accounts document))"
  by (simp add: validate_def validate_accounts_iff)

datatype pool_op =
    Record_Login int string account_state string
  | Retire int bool string
  | Append_Accounts "nat \<Rightarrow> string" int bool "stored_account list"
  | Update "nat \<Rightarrow> string" int bool account_document
  | Rebind "nat \<Rightarrow> string" int bool "(string \<times> string) list"
  | Spread "nat \<Rightarrow> string" int bool "string list"

fun apply_pool :: "(string \<Rightarrow> string) \<Rightarrow> pool_op \<Rightarrow> account_pool \<Rightarrow> account_pool" where
  "apply_pool lower (Record_Login now username state detail) pool = record_login lower now username state detail pool"
| "apply_pool lower (Retire now written username) pool = snd (retire_banned now written username pool)"
| "apply_pool lower (Append_Accounts new_id now written accounts) pool = snd (append_accounts lower new_id now written accounts pool)"
| "apply_pool lower (Update new_id now written document) pool = snd (update lower new_id now written document pool)"
| "apply_pool lower (Rebind new_id now written moves) pool = snd (rebind_nodes lower new_id now written moves pool)"
| "apply_pool lower (Spread new_id now written nodes) pool = snd (spread_over lower new_id now written nodes pool)"

text \<open>From any file \<^verbatim>\<open>open\<close> accepts, by operations and restarts.\<close>

inductive pool_reachable :: "(string \<Rightarrow> string) \<Rightarrow> account_pool \<Rightarrow> bool" for lower where
  opened: "open_pool lower found = Inr pool \<Longrightarrow> pool_reachable lower pool"
| operated: "pool_reachable lower pool \<Longrightarrow> pool_reachable lower (apply_pool lower op pool)"

definition pool_valid :: "(string \<Rightarrow> string) \<Rightarrow> account_pool \<Rightarrow> bool" where
  "pool_valid lower pool \<longleftrightarrow> validate lower (ap_document pool) = Inr () \<and>
     (\<forall>document. ap_file pool = Some document \<longrightarrow> document = ap_document pool)"

lemma validate_more [simp]:
  "validate lower (document\<lparr>ad_revision := r\<rparr>) = validate lower document"
  "validate lower (document\<lparr>ad_updated_at := t\<rparr>) = validate lower document"
  by (simp_all add: validate_def)

lemma update_valid:
  assumes "pool_valid lower pool" and "update lower new_id now written document pool = (r, pool')"
  shows "pool_valid lower pool'"
  using assms by (auto simp: update_def commit_document_def pool_valid_def Let_def split: if_splits sum.splits)

lemma retire_valid:
  assumes "pool_valid lower pool" and "retire_banned now written username pool = (r, pool')"
  shows "pool_valid lower pool'"
proof -
  let ?retire = "\<lambda>a. a\<lparr>sa_enabled := False, sa_banned_at := Some now\<rparr>"
  have "validate lower (document\<lparr>ad_accounts := update_first p ?retire (ad_accounts document)\<rparr>) = Inr ()"
    if "validate lower document = Inr ()" for p document
    using that by (auto simp: validate_iff map_update_first account_key_def row_ok_def dest!: set_update_first)
  with assms show ?thesis
    by (auto simp: retire_banned_def commit_document_def pool_valid_def Let_def split: if_splits option.splits)
qed

lemma apply_pool_valid: "pool_valid lower pool \<Longrightarrow> pool_valid lower (apply_pool lower op pool)"
proof (cases op)
  case (Record_Login now username state detail)
  assume "pool_valid lower pool"
  then show ?thesis by (simp add: Record_Login record_login_def pool_valid_def Let_def)
next
  case (Retire now written username)
  assume "pool_valid lower pool"
  then show ?thesis using retire_valid by (simp add: Retire) (metis prod.collapse)
next
  case (Append_Accounts new_id now written accounts)
  assume "pool_valid lower pool"
  then show ?thesis
    by (auto simp: Append_Accounts append_accounts_def commit_document_def pool_valid_def Let_def split: sum.splits)
next
  case (Update new_id now written document)
  assume "pool_valid lower pool"
  then show ?thesis using update_valid by (simp add: Update) (metis prod.collapse)
next
  case (Rebind new_id now written moves)
  assume "pool_valid lower pool"
  then show ?thesis
    using update_valid by (auto simp: Rebind rebind_nodes_def Let_def split: prod.splits sum.splits)
next
  case (Spread new_id now written nodes)
  assume "pool_valid lower pool"
  then show ?thesis using update_valid by (auto simp: Spread spread_over_def split: prod.splits sum.splits)
qed

lemma pool_reachable_valid: "pool_reachable lower pool \<Longrightarrow> pool_valid lower pool"
proof (induction rule: pool_reachable.induct)
  case (opened found pool)
  then show ?case
    by (auto simp: open_pool_def pool_valid_def default_document_def validate_iff result_simps split: pool_file.splits)
qed (rule apply_pool_valid)

section \<open>Saving the published document\<close>

lemma find_by_id:
  "distinct (map sa_id accounts) \<Longrightarrow> account \<in> set accounts \<Longrightarrow> sa_id account \<noteq> [] \<Longrightarrow> sa_id row = sa_id account \<Longrightarrow>
     find (\<lambda>stored. sa_id stored \<noteq> [] \<and> sa_id stored = sa_id row) accounts = Some account"
  by (induction accounts) auto

lemma restored_password:
  assumes "distinct (map sa_id (ad_accounts document))" and "account \<in> set (ad_accounts document)" and "sa_id account \<noteq> []"
    and "sa_password account \<noteq> []" and "sa_id row = sa_id account" and "sa_password row = sa_password (published_account account)"
  shows "sa_password (restored_account new_id document i row) = sa_password account \<and>
     sa_id (restored_account new_id document i row) = sa_id account"
  unfolding restored_account_def Let_def find_by_id [OF assms(1,2,3,5)]
  by (simp add: assms(3,4,5,6) published_account_def redacted_secret_def restored_secret_def unwrap_or_default_def)

lemma row_ok_password: "row_ok account \<Longrightarrow> sa_password account \<noteq> []"
proof
  assume "row_ok account" and "sa_password account = []"
  moreover have "str_trim [] = []" by (simp add: str_trim_def)
  ultimately show False by (simp add: row_ok_def Let_def)
qed

section \<open>The accounts of the re-fetch pool\<close>

lemma pool_loop_spec:
  "set (pool_loop collectors seen accounts) \<subseteq> set accounts"
  "fst ` set (pool_loop collectors seen accounts) \<inter> (collectors \<union> seen) = {}"
  "distinct (map fst (pool_loop collectors seen accounts))"
proof (induction accounts arbitrary: seen)
  case (Cons entry accounts)
  obtain u p where entry: "entry = (u, p)" by fastforce
  { case 1 show ?case using Cons.IH(1) by (auto simp: entry) }
  { case 2 show ?case using Cons.IH(2) [of seen] Cons.IH(2) [of "insert u seen"] by (auto simp: entry) }
  { case 3 show ?case using Cons.IH(2) [of "insert u seen"] Cons.IH(3) by (auto simp: entry) }
qed simp_all

lemma collector_loop_spec:
  "collector_loop sv pool refs held = Inr held' \<Longrightarrow> held \<subseteq> held' \<and>
     (\<forall>secret_ref \<in> set refs. take 5 secret_ref \<noteq> ''pool:'' \<longrightarrow>
        (\<exists>accounts. load_accounts sv secret_ref pool = Inr accounts \<and> fst (hd accounts) \<in> held'))"
  by (induction refs arbitrary: held) (auto split: if_splits sum.splits)

lemma load_pool_ref:
  assumes "take 5 secret_ref = ''pool:''" and "load_accounts sv secret_ref pool = Inr accounts" and "(u, p) \<in> set accounts"
  shows "\<exists>account \<in> set (ad_accounts (ap_document pool)). sa_username account = u \<and> sa_password account = p \<and> sa_enabled account"
proof -
  obtain target where "secret_ref = ''pool:'' @ target" using assms(1) by (metis append_take_drop_id)
  then have "split_once CHR '':'' secret_ref = Some (''pool'', target)" using split_once_append [of "CHR '':''" "''pool''" target] by simp
  with assms(2,3) show ?thesis
    by (auto simp: load_accounts_def resolve_def split: option.splits if_splits)
qed

lemma key_unique:
  assumes "distinct (map key xs)" and "x \<in> set xs" and "y \<in> set xs" and "key x = key y"
  shows "x = y"
  using assms by (auto simp: distinct_map inj_on_def)

section \<open>Export and load\<close>

text \<open>The accounts whose line in the export reads back: the username holds no comma and does not open a comment,
  the password no tab and no line end, and neither has white space around it.\<close>

definition exportable :: "stored_account \<Rightarrow> bool" where
  "exportable account \<longleftrightarrow>
     (let u = str_trim (sa_username account); p = sa_password account; line = u @ '','' @ p
      in u \<noteq> [] \<and> CHR '','' \<notin> set u \<and> hd u \<noteq> CHR ''#'' \<and> str_trim u = u \<and> p \<noteq> [] \<and> str_trim p = p \<and> str_trim line = line \<and>
         CHR 0x09 \<notin> set line \<and> CHR 0x0A \<notin> set line \<and> last p \<noteq> CHR 0x0D)"

definition exported :: "account_pool \<Rightarrow> stored_account list" where
  "exported pool =
     filter (\<lambda>account. \<not> (sa_purpose account \<noteq> Refetch \<or> sa_banned_at account \<noteq> None)) (ad_accounts (ap_document pool))"

lemma split_lines:
  "(\<And>l. l \<in> set ls \<Longrightarrow> CHR 0x0A \<notin> set l) \<Longrightarrow> split_on CHR 0x0A (concat (map (\<lambda>l. l @ [CHR 0x0A]) ls)) = ls @ [[]]"
  by (induction ls) (simp_all add: split_on_append)

lemma str_lines_concat:
  "(\<And>l. l \<in> set ls \<Longrightarrow> CHR 0x0A \<notin> set l) \<Longrightarrow> str_lines (concat (map (\<lambda>l. l @ [CHR 0x0A]) ls)) = map strip_cr ls"
  by (simp add: str_lines_def split_lines Let_def)

lemma exported_line:
  assumes "exportable account"
  shows "account_line (strip_cr (str_trim (sa_username account) @ '','' @ sa_password account)) =
     Some (str_trim (sa_username account), sa_password account)"
proof -
  let ?u = "str_trim (sa_username account)" and ?p = "sa_password account"
  have ex: "?u \<noteq> []" "CHR '','' \<notin> set ?u" "hd ?u \<noteq> CHR ''#''" "str_trim ?u = ?u" "?p \<noteq> []" "str_trim ?p = ?p"
    "str_trim (?u @ '','' @ ?p) = ?u @ '','' @ ?p" "CHR 0x09 \<notin> set (?u @ '','' @ ?p)" "last ?p \<noteq> CHR 0x0D"
    using assms by (simp_all add: exportable_def Let_def)
  have "strip_cr (?u @ '','' @ ?p) = ?u @ '','' @ ?p" using ex(5,9) by (simp add: strip_cr_def)
  moreover have "split_once CHR '','' (?u @ '','' @ ?p) = Some (?u, ?p)" using split_once_append [OF ex(2), of ?p] by simp
  moreover have "hd (?u @ '','' @ ?p) \<noteq> CHR ''#''" using ex(1,3) by simp
  ultimately show ?thesis unfolding account_line_def by (simp only: ex Let_def if_False not_False_eq_True) (use ex in simp)
qed

section \<open>Properties\<close>

text \<open>Claim C34: however logins are recorded, accounts registered, saved, spread, re-bound or retired and whichever writes fail,
  the document in memory is one its own validation accepts: every account has a username without white space or
  a slash and a password, and no two accounts have the same username, in whatever case. What is on disk, if
  anything is, is the same document.\<close>

theorem account_documents_valid:
  assumes "pool_reachable lower pool"
  shows "(\<forall>account \<in> set (ad_accounts (ap_document pool)). row_ok account) \<and>
     distinct (map (account_key lower) (ad_accounts (ap_document pool))) \<and>
     (\<forall>document. ap_file pool = Some document \<longrightarrow> document = ap_document pool)"
  using pool_reachable_valid [OF assms] by (simp add: pool_valid_def validate_iff)

text \<open>Claim C33: the console never sees a password and never loses one: a save of the published document, with any edits but
  of ids and passwords, keeps every stored password, and the answer shows only asterisks.\<close>

theorem saves_keep_passwords:
  assumes "validate lower (ap_document pool) = Inr ()" and "distinct (map sa_id (ad_accounts (ap_document pool)))"
    and "\<forall>account \<in> set (ad_accounts (ap_document pool)). sa_id account \<noteq> []"
    and "\<And>account. sa_id (edit account) = sa_id account \<and> sa_password (edit account) = sa_password account"
    and "ad_accounts submitted = map edit (ad_accounts (published (ap_document pool)))"
    and "update lower new_id now written submitted pool = (Inr answer, pool')"
  shows "map sa_password (ad_accounts (ap_document pool')) = map sa_password (ad_accounts (ap_document pool)) \<and>
     map sa_id (ad_accounts (ap_document pool')) = map sa_id (ad_accounts (ap_document pool)) \<and>
     sa_password ` set (ad_accounts answer) \<subseteq> {redacted}"
proof -
  let ?stored = "ad_accounts (ap_document pool)"
  have saved: "ad_accounts (ap_document pool') = map_index (restored_account new_id (ap_document pool)) (ad_accounts submitted)"
    and answer: "answer = published (ap_document pool')" and valid: "validate lower (ap_document pool') = Inr ()"
    using assms(6) by (auto simp: update_def commit_document_def Let_def split: if_splits sum.splits)
  have nth: "sa_password (ad_accounts (ap_document pool') ! i) = sa_password (?stored ! i) \<and>
      sa_id (ad_accounts (ap_document pool') ! i) = sa_id (?stored ! i)" if "i < length ?stored" for i
  proof -
    have mem: "?stored ! i \<in> set ?stored" using that by (rule nth_mem)
    then have "row_ok (?stored ! i)" "sa_id (?stored ! i) \<noteq> []" using assms(1,3) by (simp_all add: validate_iff)
    with restored_password [OF assms(2), of "?stored ! i" "edit (published_account (?stored ! i))" new_id i] that assms(4)
    show ?thesis by (simp add: saved assms(5) published_def row_ok_password) (simp add: published_account_def)
  qed
  have len: "length (ad_accounts (ap_document pool')) = length ?stored" by (simp add: saved assms(5) published_def)
  have "sa_password (published_account account) = redacted" if "account \<in> set (ad_accounts (ap_document pool'))" for account
    using that valid row_ok_password [of account]
    by (simp add: validate_iff published_account_def redacted_secret_def unwrap_or_default_def)
  then have "sa_password ` set (ad_accounts answer) \<subseteq> {redacted}" by (auto simp: answer published_def)
  with nth len show ?thesis by (simp add: list_eq_iff_nth_eq)
qed

text \<open>Claim C11: the re-fetch pool takes no username an account of the console files under live collection, enabled or
  not, and none twice; none that opens the list of a collector whose reference is a file or a variable, as the
  two are spelt (\<open>case_evades_collectors\<close>); and when the pool's own reference is one to the console, none that
  an account filed under live collection has in another case. A collector whose reference is one to the console
  counts by the purpose of its account only (\<open>collector_on_refetch_accounts\<close>).\<close>

theorem pool_leaves_collectors_alone:
  assumes "usable_accounts sv secret_ref refs pool = Inr accounts" and "(u, p) \<in> set accounts"
  shows "u \<notin> reserved Watch pool \<and> distinct (map fst accounts) \<and>
     (\<forall>instance_ref \<in> set refs. take 5 instance_ref \<noteq> ''pool:'' \<longrightarrow>
        (\<exists>held. load_accounts sv instance_ref pool = Inr held \<and> fst (hd held) \<noteq> u)) \<and>
     (take 5 secret_ref = ''pool:'' \<and> validate lower (ap_document pool) = Inr () \<longrightarrow>
        (\<forall>account \<in> set (ad_accounts (ap_document pool)). sa_purpose account = Watch \<longrightarrow> account_key lower account \<noteq> lower (str_trim u)))"
proof -
  obtain loaded collectors where load: "load_accounts sv secret_ref pool = Inr loaded"
    and coll: "collector_loop sv pool refs (reserved Watch pool) = Inr collectors" and acc: "accounts = pool_loop collectors {} loaded"
    using assms(1) by (auto simp: usable_accounts_def collector_accounts_def pool_accounts_def result_simps split: sum.splits)
  note held = collector_loop_spec [OF coll]
  have out: "u \<notin> collectors" using pool_loop_spec(2) [of collectors "{}" loaded] assms(2) acc by force
  then have notw: "u \<notin> reserved Watch pool" using held by blast
  moreover have "\<exists>first. load_accounts sv instance_ref pool = Inr first \<and> fst (hd first) \<noteq> u"
    if "instance_ref \<in> set refs" "take 5 instance_ref \<noteq> ''pool:''" for instance_ref
    using held that out by metis
  moreover have "account_key lower account \<noteq> lower (str_trim u)"
    if "take 5 secret_ref = ''pool:''" "validate lower (ap_document pool) = Inr ()"
      "account \<in> set (ad_accounts (ap_document pool))" "sa_purpose account = Watch" for account
  proof
    assume same: "account_key lower account = lower (str_trim u)"
    have "(u, p) \<in> set loaded" using assms(2) acc pool_loop_spec(1) by blast
    from load_pool_ref [OF that(1) load this] obtain mine where mine: "mine \<in> set (ad_accounts (ap_document pool))" "sa_username mine = u"
      by blast
    then have "mine = account"
      using that(2,3) same by (intro key_unique [of "account_key lower" "ad_accounts (ap_document pool)"])
        (simp_all add: validate_iff account_key_def)
    with mine that(4) notw show False by (auto simp: reserved_def)
  qed
  ultimately show ?thesis using pool_loop_spec(3) acc by blast
qed

text \<open>A save the handler accepts leaves every account a collector is pointed at in the pool, enabled and filed
  under live collection, under the name it was submitted with, which differs from the stored one in case at most.\<close>

theorem collector_account_survives_save:
  assumes "put_accounts lower new_id now written sv refs document pool = (Inr answer, pool')" and "lower_ok lower"
    and "stored \<in> set (ad_accounts (ap_document pool))" and "lower (sa_username stored) \<in> referenced_accounts lower sv refs pool"
  shows "\<exists>name. eq_ignore_ascii_case name (sa_username stored) \<and>
     (\<exists>kept \<in> set (ad_accounts (ap_document pool')). sa_username kept = str_trim name \<and> sa_enabled kept \<and> sa_purpose kept = Watch)"
proof -
  let ?in_use = "referenced_accounts lower sv refs pool"
  have ok: "\<forall>account \<in> set (ad_accounts document). lower (sa_username account) \<in> ?in_use \<longrightarrow> sa_enabled account \<and> sa_purpose account = Watch"
    and none: "taken_from_a_collector lower document ?in_use pool = None"
    and saved: "update lower new_id now written document pool = (Inr answer, pool')"
    using assms(1) by (auto simp: put_accounts_def Let_def split: if_splits)
  obtain row where row: "row \<in> set (ad_accounts document)" "eq_ignore_ascii_case (sa_username row) (sa_username stored)"
    using none assms(3,4) by (auto simp: taken_from_a_collector_def find_None_iff)
  have "lower (sa_username row) = lower (sa_username stored)"
    using row(2) assms(2) unfolding eq_ignore_ascii_case_def lower_ok_def by blast
  with ok row(1) assms(4) have enabled: "sa_enabled row" "sa_purpose row = Watch" by simp_all
  obtain i where i: "i < length (ad_accounts document)" "ad_accounts document ! i = row" using row(1) by (auto simp: in_set_conv_nth)
  have accounts: "ad_accounts (ap_document pool') = map_index (restored_account new_id (ap_document pool)) (ad_accounts document)"
    using saved by (auto simp: update_def commit_document_def Let_def split: if_splits sum.splits)
  define kept where "kept = restored_account new_id (ap_document pool) i row"
  have "ad_accounts (ap_document pool') ! i = kept" using i by (simp add: accounts kept_def)
  then have "kept \<in> set (ad_accounts (ap_document pool'))" using i(1) nth_mem [of i "ad_accounts (ap_document pool')"] by (simp add: accounts)
  moreover have "sa_username kept = str_trim (sa_username row)" "sa_enabled kept" "sa_purpose kept = Watch"
    using enabled by (simp_all add: kept_def restored_account_def Let_def)
  ultimately show ?thesis using row(2) by blast
qed

text \<open>What the export writes, a \<^verbatim>\<open>file:\<close> or \<^verbatim>\<open>env:\<close> reference reads back, account for account, in order and without
  the banned ones, as long as the names and passwords are free of the format's own characters.\<close>

theorem export_loads_back:
  assumes "exported pool \<noteq> []" and "\<forall>account \<in> set (exported pool). exportable account"
  shows "parse_account_text (export_refetch pool) =
     Inr (map (\<lambda>account. (str_trim (sa_username account), sa_password account)) (exported pool))"
proof -
  let ?line = "\<lambda>account. str_trim (sa_username account) @ '','' @ sa_password account"
  have body: "export_refetch pool = concat (map (\<lambda>l. l @ [CHR 0x0A]) (map ?line (exported pool)))"
    by (simp add: export_refetch_def exported_def comp_def export_line_def [abs_def])
  have "str_lines (export_refetch pool) = map strip_cr (map ?line (exported pool))"
    unfolding body by (rule str_lines_concat) (use assms(2) in \<open>auto simp: exportable_def Let_def\<close>)
  moreover have "List.map_filter account_line (map strip_cr (map ?line accounts)) =
      map (\<lambda>account. (str_trim (sa_username account), sa_password account)) accounts"
    if "\<forall>account \<in> set accounts. exportable account" for accounts
    using that by (induction accounts) (simp_all add: List.map_filter_simps exported_line [simplified])
  ultimately show ?thesis using assms by (simp add: parse_account_text_def)
qed

section \<open>What the formats leave open\<close>

definition toy_account :: "string \<Rightarrow> string \<Rightarrow> account_purpose \<Rightarrow> stored_account" where
  "toy_account name password purpose = \<lparr>sa_id = name, sa_username = name, sa_password = password, sa_purpose = purpose, sa_note = [],
     sa_enabled = True, sa_node = [], sa_banned_at = None\<rparr>"

definition toy_pool :: "stored_account list \<Rightarrow> account_pool" where
  "toy_pool accounts = \<lparr>ap_file = None, ap_document = \<lparr>ad_revision = 0, ad_accounts = accounts, ad_updated_at = None\<rparr>, ap_health = Map.empty\<rparr>"

definition toy_secrets :: secret_env where
  "toy_secrets = \<lparr>sv_files = (\<lambda>f. if f = ''w'' then Some ''a,pw'' else if f = ''r'' then Some ''A,pw'' else None), sv_vars = Map.empty\<rparr>"

lemmas text_simps = str_trim_def str_chars_Cons_ascii byte_of_char_def is_white_space_def white_space_def as_bytes_def

lemmas toy_simps = toy_pool_def toy_account_def

text \<open>A comma in a username is accepted by the validation and moves into the password.\<close>

lemma export_of_a_comma:
  "validate id (ap_document (toy_pool [toy_account ''a,b'' ''pw'' Refetch])) = Inr () \<and>
     parse_account_text (export_refetch (toy_pool [toy_account ''a,b'' ''pw'' Refetch])) = Inr [(''a'', ''b,pw'')]"
  by (simp add: validate_def toy_simps text_simps export_refetch_def export_line_def parse_account_text_def account_line_def
      str_lines_def strip_cr_def List.map_filter_simps Let_def)

text \<open>The check against the collectors is by exact name: a file that spells the collector's account with a capital
  letter hands the same account to the pool.\<close>

lemma case_evades_collectors:
  "usable_accounts toy_secrets ''file:r'' [''file:w''] (toy_pool []) = Inr [(''A'', ''pw'')] \<and> eq_ignore_ascii_case ''A'' ''a''"
  by (simp add: usable_accounts_def load_accounts_def toy_secrets_def parse_account_text_def account_line_def text_simps
      str_lines_def strip_cr_def List.map_filter_simps collector_accounts_def reserved_def toy_pool_def pool_accounts_def
      eq_ignore_ascii_case_def ascii_lower_def lower_char_def of_char_def char_of_def bit_0 Let_def)

section \<open>A small pool\<close>

abbreviation two_accounts :: "stored_account list" where
  "two_accounts \<equiv> [toy_account ''w'' ''pw'' Watch, toy_account ''r'' ''qw'' Refetch]"

text \<open>A collector may refer to the accounts of re-fetching: the account it logs in with is then not kept from the
  pool.\<close>

lemma collector_on_refetch_accounts:
  "load_accounts toy_secrets ''pool:refetch'' (toy_pool two_accounts) = Inr [(''r'', ''qw'')] \<and>
   usable_accounts toy_secrets ''pool:refetch'' [''pool:refetch''] (toy_pool two_accounts) = Inr [(''r'', ''qw'')]"
  by (simp add: usable_accounts_def load_accounts_def parse_ref_def parse_purpose_def resolve_def matches_ref_def toy_simps
      collector_accounts_def reserved_code pool_accounts_def Let_def)

lemma two_accounts_valid: "validate ascii_lower (ap_document (toy_pool two_accounts)) = Inr ()"
  by (simp add: validate_def toy_simps text_simps ascii_lower_def lower_char_def of_char_def Let_def)

lemma ascii_lower_ok: "lower_ok ascii_lower"
  by (simp add: lower_ok_def)

theorem account_documents_valid_witness:
  "\<exists>pool. pool_reachable ascii_lower pool \<and> length (ad_accounts (ap_document pool)) = 2 \<and>
     distinct (map (account_key ascii_lower) (ad_accounts (ap_document pool)))"
proof -
  define pool where "pool = (toy_pool two_accounts)\<lparr>ap_file := Some (ap_document (toy_pool two_accounts))\<rparr>"
  have "open_pool ascii_lower (Found_Pool (ap_document (toy_pool two_accounts))) = Inr pool"
    by (simp add: open_pool_def two_accounts_valid) (simp add: pool_def toy_pool_def)
  then have reach: "pool_reachable ascii_lower pool" by (rule pool_reachable.opened)
  from account_documents_valid [OF reach] reach show ?thesis by (intro exI [of _ pool]) (simp add: pool_def toy_pool_def)
qed

lemma two_accounts_saved:
  "\<exists>answer pool'. update ascii_lower (\<lambda>_. []) 5 True (published (ap_document (toy_pool two_accounts))) (toy_pool two_accounts) = (Inr answer, pool')"
proof -
  let ?pool = "toy_pool two_accounts"
  let ?doc = "ap_document ?pool"
  have "map_index (restored_account (\<lambda>_. []) ?doc) (ad_accounts (published ?doc)) = ad_accounts ?doc"
    by (simp add: map_index_def published_def published_account_def restored_account_def redacted_secret_def restored_secret_def
        unwrap_or_default_def toy_simps text_simps Let_def)
  moreover have "ad_revision (published ?doc) = ad_revision ?doc" by (simp add: published_def)
  moreover have "validate ascii_lower ((published ?doc)\<lparr>ad_accounts := ad_accounts ?doc\<rparr>) = Inr ()"
    using two_accounts_valid by (simp add: validate_def)
  moreover have "\<forall>account \<in> set (ad_accounts ?doc). sa_password account \<noteq> redacted" by (simp add: toy_simps redacted_def)
  ultimately show ?thesis unfolding update_def Let_def by (simp add: commit_document_def)
qed

theorem saves_keep_passwords_witness:
  "\<exists>answer pool'. update ascii_lower (\<lambda>_. []) 5 True (published (ap_document (toy_pool two_accounts))) (toy_pool two_accounts) = (Inr answer, pool') \<and>
     map sa_password (ad_accounts (ap_document pool')) = [''pw'', ''qw''] \<and> sa_password ` set (ad_accounts answer) \<subseteq> {redacted}"
proof -
  obtain answer pool' where run:
    "update ascii_lower (\<lambda>_. []) 5 True (published (ap_document (toy_pool two_accounts))) (toy_pool two_accounts) = (Inr answer, pool')"
    using two_accounts_saved by blast
  have "map sa_password (ad_accounts (ap_document pool')) = map sa_password (ad_accounts (ap_document (toy_pool two_accounts))) \<and>
      sa_password ` set (ad_accounts answer) \<subseteq> {redacted}"
    using saves_keep_passwords [OF two_accounts_valid, of "\<lambda>a. a", OF _ _ _ _ run] by (simp add: toy_simps)
  with run show ?thesis by (intro exI [of _ answer] exI [of _ pool']) (simp add: toy_simps)
qed

theorem collector_account_survives_save_witness:
  "\<exists>answer pool'. put_accounts ascii_lower (\<lambda>_. []) 5 True toy_secrets [''pool:watch/w''] (published (ap_document (toy_pool two_accounts)))
       (toy_pool two_accounts) = (Inr answer, pool') \<and> (\<exists>kept \<in> set (ad_accounts (ap_document pool')). sa_enabled kept \<and> sa_purpose kept = Watch)"
proof -
  let ?pool = "toy_pool two_accounts"
  have in_use: "referenced_accounts ascii_lower toy_secrets [''pool:watch/w''] ?pool = {''w''}"
    by (simp add: referenced_accounts_def load_accounts_def parse_ref_def parse_purpose_def resolve_def matches_ref_def toy_simps
        eq_ignore_ascii_case_def ascii_lower_def lower_char_def of_char_def List.map_filter_simps Let_def)
  obtain answer pool' where saved: "update ascii_lower (\<lambda>_. []) 5 True (published (ap_document ?pool)) ?pool = (Inr answer, pool')"
    using two_accounts_saved by blast
  have run: "put_accounts ascii_lower (\<lambda>_. []) 5 True toy_secrets [''pool:watch/w''] (published (ap_document ?pool)) ?pool = (Inr answer, pool')"
    unfolding put_accounts_def Let_def in_use saved
    by (simp add: taken_from_a_collector_def published_def published_account_def toy_simps
        ascii_lower_def lower_char_def of_char_def Let_def)
  have "toy_account ''w'' ''pw'' Watch \<in> set (ad_accounts (ap_document ?pool))"
    "ascii_lower (sa_username (toy_account ''w'' ''pw'' Watch)) \<in> referenced_accounts ascii_lower toy_secrets [''pool:watch/w''] ?pool"
    by (simp add: toy_pool_def) (simp add: in_use, simp add: toy_simps ascii_lower_def lower_char_def of_char_def Let_def)
  from collector_account_survives_save [OF run ascii_lower_ok this] run show ?thesis by blast
qed

theorem pool_leaves_collectors_alone_witness:
  "usable_accounts toy_secrets ''pool:refetch'' [''file:w''] (toy_pool two_accounts) = Inr [(''r'', ''qw'')] \<and> ''r'' \<notin> reserved Watch (toy_pool two_accounts)"
proof -
  have run: "usable_accounts toy_secrets ''pool:refetch'' [''file:w''] (toy_pool two_accounts) = Inr [(''r'', ''qw'')]"
    by (simp add: usable_accounts_def load_accounts_def parse_ref_def parse_purpose_def resolve_def matches_ref_def toy_simps
        toy_secrets_def parse_account_text_def account_line_def text_simps str_lines_def strip_cr_def List.map_filter_simps
        collector_accounts_def reserved_code pool_accounts_def Let_def)
  with pool_leaves_collectors_alone [OF run, of "''r''" "''qw''"] show ?thesis by simp
qed

theorem export_loads_back_witness:
  "parse_account_text (export_refetch (toy_pool two_accounts)) = Inr [(''r'', ''qw'')]"
proof -
  have ex: "exported (toy_pool two_accounts) = [toy_account ''r'' ''qw'' Refetch]" by (simp add: exported_def toy_simps)
  have "exportable (toy_account ''r'' ''qw'' Refetch)" by (simp add: exportable_def toy_simps text_simps Let_def)
  then show ?thesis using export_loads_back [of "toy_pool two_accounts"] ex by (simp add: toy_account_def text_simps)
qed

end
