(* ===== verification/Balance.thy ===== *)
theory Balance
  imports Accounts_Correct Refetch "HOL-Library.Multiset"
begin

text \<open>
  The pool arithmetic of \<^verbatim>\<open>src/refetch_service.rs\<close>: how many requests a walk keeps in the air (\<open>in_flight_for\<close>), the tally of
  each exit and the moves that balance accounts over exits (\<open>rebalance\<close>, \<open>balance_round\<close>), the merge of an exit with the
  shared lane, and the rate shown on the console (\<open>rate_window\<close>). The rates of the balancer are floating-point numbers: the
  operations on them are a parameter over any linear order, so nothing proved here depends on their rounding.
\<close>

section \<open>Requests in the air\<close>

definition usize_max :: nat where
  "usize_max = 2 ^ 64 - 1"

definition saturating_mul :: "nat \<Rightarrow> nat \<Rightarrow> nat" where
  "saturating_mul a b = min (a * b) usize_max"

definition min_in_flight :: nat where
  "min_in_flight = 1000"

definition queue_per_session :: nat where
  "queue_per_session = 4"

definition in_flight_for :: "nat \<Rightarrow> nat \<Rightarrow> nat" where
  "in_flight_for workers request_delay_ms =
     (let workers = max workers 1;
          patience = claim_timeout * 1000 div 3;
          ceiling = saturating_mul workers (1 + patience div max request_delay_ms 1)
      in min (max (saturating_mul workers queue_per_session) min_in_flight) ceiling)"

section \<open>The exit of a session\<close>

definition exit_or_lane :: "string option \<Rightarrow> string option \<Rightarrow> string option" where
  "exit_or_lane node_exit lane = (case node_exit of Some e \<Rightarrow> Some e | None \<Rightarrow> lane)"

section \<open>The tally of an exit\<close>

record node_tally =
  nt_fetched :: u64
  nt_failed :: u64
  nt_nanos :: u64
  nt_sessions :: nat

definition no_tally :: node_tally where
  "no_tally = \<lparr>nt_fetched = 0, nt_failed = 0, nt_nanos = 0, nt_sessions = 0\<rparr>"

type_synonym tallies = "string \<rightharpoonup> node_tally"

definition tally_entry :: "string \<Rightarrow> tallies \<Rightarrow> node_tally" where
  "tally_entry node tally = (case tally node of Some t \<Rightarrow> t | None \<Rightarrow> no_tally)"

definition saturating_add_u64 :: "u64 \<Rightarrow> nat \<Rightarrow> u64" where
  "saturating_add_u64 a b = (if unat a + b < 2 ^ 64 then a + of_nat b else u64_max)"

definition record_node :: "string option \<Rightarrow> bool \<Rightarrow> u64 \<Rightarrow> tallies \<Rightarrow> tallies" where
  "record_node node fetched took tally =
     (case node of
        None \<Rightarrow> tally
      | Some n \<Rightarrow>
          let entry = tally_entry n tally;
              entry = entry\<lparr>nt_nanos := saturating_add_u64 (nt_nanos entry) (unat took)\<rparr>
          in tally(n \<mapsto> if fetched then entry\<lparr>nt_fetched := nt_fetched entry + 1\<rparr>
                       else entry\<lparr>nt_failed := nt_failed entry + 1\<rparr>))"

definition node_session :: "string option \<Rightarrow> bool \<Rightarrow> tallies \<Rightarrow> tallies" where
  "node_session node arriving tally =
     (case node of
        None \<Rightarrow> tally
      | Some n \<Rightarrow>
          let entry = tally_entry n tally
          in tally(n \<mapsto> entry\<lparr>nt_sessions := (if arriving then min (nt_sessions entry + 1) usize_max else nt_sessions entry - 1)\<rparr>))"

definition reset_tally :: "tallies \<Rightarrow> tallies" where
  "reset_tally tally = map_option (\<lambda>t. t\<lparr>nt_fetched := 0, nt_failed := 0, nt_nanos := 0\<rparr>) \<circ> tally"

section \<open>Balancing\<close>

definition min_per_node :: nat where
  "min_per_node = 1"

definition move_share :: nat where
  "move_share = 8"

definition max_node_share :: nat where
  "max_node_share = 4"

text \<open>The floating-point operations: records per session, the mean of two rates, and the two ends of the band around
  the median.\<close>

record 'f rate_ops =
  fl_rate :: "u64 \<Rightarrow> nat \<Rightarrow> 'f"
  fl_mean :: "'f \<Rightarrow> 'f \<Rightarrow> 'f"
  fl_poor :: "'f \<Rightarrow> 'f"
  fl_rich :: "'f \<Rightarrow> 'f"

type_synonym bindings = "(string \<times> string) list"

definition holders :: "bindings \<Rightarrow> string \<Rightarrow> string list" where
  "holders bindings node = map fst (filter (\<lambda>b. snd b = node) bindings)"

definition bound_nodes :: "bindings \<Rightarrow> string list" where
  "bound_nodes bindings = remdups (map snd bindings)"

definition produced :: "'f rate_ops \<Rightarrow> tallies \<Rightarrow> string \<Rightarrow> 'f" where
  "produced ops tally node =
     (let counted = tally_entry node tally in fl_rate ops (nt_fetched counted) (max (nt_sessions counted) 1))"

text \<open>Best first, and by name within a tie.\<close>

definition ranks_before :: "string \<times> nat \<times> 'f::linorder \<Rightarrow> string \<times> nat \<times> 'f \<Rightarrow> bool" where
  "ranks_before left right \<longleftrightarrow>
     snd (snd right) < snd (snd left) \<or> snd (snd left) = snd (snd right) \<and> fst left \<le> fst right"

fun insert_by :: "('a \<Rightarrow> 'a \<Rightarrow> bool) \<Rightarrow> 'a \<Rightarrow> 'a list \<Rightarrow> 'a list" where
  "insert_by before x [] = [x]"
| "insert_by before x (y # ys) = (if before x y then x # y # ys else y # insert_by before x ys)"

definition sort_by :: "('a \<Rightarrow> 'a \<Rightarrow> bool) \<Rightarrow> 'a list \<Rightarrow> 'a list" where
  "sort_by before xs = foldr (insert_by before) xs []"

definition ranked :: "'f::linorder rate_ops \<Rightarrow> tallies \<Rightarrow> bindings \<Rightarrow> (string \<times> nat \<times> 'f) list" where
  "ranked ops tally bindings =
     sort_by ranks_before
       (map (\<lambda>node. (node, length (holders bindings node), produced ops tally node)) (bound_nodes bindings))"

definition median_rate :: "'f rate_ops \<Rightarrow> (string \<times> nat \<times> 'f) list \<Rightarrow> 'f" where
  "median_rate ops ranks =
     (let middle = length ranks div 2; rate = (\<lambda>i. snd (snd (ranks ! i)))
      in if length ranks mod 2 = 0 then fl_mean ops (rate (middle - 1)) (rate middle) else rate middle)"

fun free_worst ::
  "bindings \<Rightarrow> nat \<Rightarrow> 'f::linorder \<Rightarrow> (string \<times> nat \<times> 'f) list \<Rightarrow> string list \<Rightarrow> string list" where
  "free_worst bindings budget poor [] spare = spare"
| "free_worst bindings budget poor ((node, held, rate) # ranks) spare =
     (if budget \<le> length spare \<or> poor \<le> rate then spare
      else let give = min (held - min_per_node) (budget - length spare)
           in free_worst bindings budget poor ranks (spare @ take give (rev (holders bindings node))))"

fun hand_out :: "nat \<Rightarrow> 'f::linorder \<Rightarrow> (string \<times> nat \<times> 'f) list \<Rightarrow> string list \<Rightarrow> (string \<times> string) list" where
  "hand_out cap rich [] spare = []"
| "hand_out cap rich ((node, held, rate) # ranks) spare =
     (if rate \<le> rich then []
      else let room = min (cap - held) held
           in map (\<lambda>u. (u, node)) (take room spare) @
              (if length spare < room then [] else hand_out cap rich ranks (drop room spare)))"

definition move_budget :: "bindings \<Rightarrow> nat" where
  "move_budget bindings = max (length bindings div move_share) 1"

definition rebalance :: "'f::linorder rate_ops \<Rightarrow> bindings \<Rightarrow> tallies \<Rightarrow> nat \<Rightarrow> (string \<times> string) list" where
  "rebalance ops bindings tally cap =
     (if length (bound_nodes bindings) < 2 then []
      else let ranks = ranked ops tally bindings;
               median = median_rate ops ranks;
               spare = free_worst bindings (move_budget bindings) (fl_poor ops median) (rev ranks) []
           in hand_out cap (fl_rich ops median) ranks spare)"

text \<open>One round of \<^verbatim>\<open>balance_forever\<close>; \<open>exits\<close> is the number of exits the tally knows.\<close>

definition node_cap :: "nat \<Rightarrow> bindings \<Rightarrow> nat" where
  "node_cap exits bindings = max (length bindings * max_node_share div max exits 1) max_node_share"

definition balance_round ::
  "'f::linorder rate_ops \<Rightarrow> (string \<Rightarrow> string) \<Rightarrow> (nat \<Rightarrow> string) \<Rightarrow> int \<Rightarrow> bool \<Rightarrow> tallies \<Rightarrow> account_pool \<Rightarrow> tallies \<times> account_pool" where
  "balance_round ops lower new_id now written tally pool =
     (let bindings = refetch_bindings pool;
          moves = rebalance ops bindings tally (node_cap (card (dom tally)) bindings)
      in (reset_tally tally, if moves = [] then pool else snd (rebind_nodes lower new_id now written moves pool)))"

section \<open>The rate on the console\<close>

definition window_secs :: nat where
  "window_secs = 30"

record rate_window =
  rt_buckets :: "(nat \<times> u32) list"
  rt_started :: bool

definition new_window :: rate_window where
  "new_window = \<lparr>rt_buckets = replicate window_secs (0, 0), rt_started = False\<rparr>"

text \<open>\<open>second\<close> counts from the first completion, which is the origin.\<close>

definition rate_hit :: "nat \<Rightarrow> rate_window \<Rightarrow> rate_window" where
  "rate_hit second w =
     (let slot = second mod window_secs; entry = rt_buckets w ! slot
      in w\<lparr>rt_buckets := (rt_buckets w)[slot := if fst entry = second then (second, snd entry + 1) else (second, 1)],
           rt_started := True\<rparr>)"

definition live_hits :: "nat \<Rightarrow> rate_window \<Rightarrow> u32" where
  "live_hits now w = sum_list (map snd (filter (\<lambda>b. now - fst b < window_secs) (rt_buckets w)))"

text \<open>The rate as a fraction of hits over seconds; the console shows their quotient.\<close>

definition qps :: "nat \<Rightarrow> rate_window \<Rightarrow> u32 \<times> nat" where
  "qps now w =
     (if \<not> rt_started w then (0, 1)
      else let live = live_hits now w in if live < 2 then (0, 1) else (live, window_secs))"

section \<open>Facts about the ranking and the two loops\<close>

lemma mset_insert_by: "mset (insert_by before x xs) = add_mset x (mset xs)"
  by (induction xs) auto

lemma mset_sort_by: "mset (sort_by before xs) = mset xs"
  by (induction xs) (simp_all add: sort_by_def mset_insert_by)

abbreviation load :: "string \<Rightarrow> bindings \<Rightarrow> nat" where
  "load node bindings \<equiv> length (holders bindings node)"

definition ranks_ok :: "('f rate_ops) \<Rightarrow> tallies \<Rightarrow> bindings \<Rightarrow> (string \<times> nat \<times> 'f) list \<Rightarrow> bool" where
  "ranks_ok ops tally bindings ranks \<longleftrightarrow>
     distinct (map fst ranks) \<and>
     (\<forall>(node, held, rate) \<in> set ranks. node \<in> snd ` set bindings \<and> held = load node bindings \<and> rate = produced ops tally node)"

lemma ranked_ok: "ranks_ok ops tally bindings (ranked ops tally bindings)"
proof -
  let ?rows = "map (\<lambda>node. (node, load node bindings, produced ops tally node)) (bound_nodes bindings)"
  have rows: "mset (ranked ops tally bindings) = mset ?rows" by (simp add: ranked_def mset_sort_by)
  have "mset (map fst (ranked ops tally bindings)) = mset (map fst ?rows)" by (simp only: mset_map rows)
  then have "distinct (map fst (ranked ops tally bindings)) = distinct (map fst ?rows)" by (rule mset_eq_imp_distinct_iff)
  moreover have "map fst ?rows = bound_nodes bindings" by (simp add: comp_def)
  moreover have "set (ranked ops tally bindings) = set ?rows" using rows by (rule mset_eq_setD)
  ultimately show ?thesis by (auto simp: ranks_ok_def bound_nodes_def)
qed

lemma holders_iff: "u \<in> set (holders bindings node) \<longleftrightarrow> (u, node) \<in> set bindings"
  by (force simp: holders_def)

lemma holders_distinct: "distinct (map fst bindings) \<Longrightarrow> distinct (holders bindings node)"
  by (simp add: holders_def distinct_map_filter)

lemma holders_unique: "distinct (map fst bindings) \<Longrightarrow> u \<in> set (holders bindings a) \<Longrightarrow> u \<in> set (holders bindings b) \<Longrightarrow> a = b"
  unfolding holders_iff by (rule eq_key_imp_eq_value)

text \<open>The accounts freed so far: distinct, from nodes already visited whose rate is poor, and never the last of a node.\<close>

definition spare_ok :: "bindings \<Rightarrow> nat \<Rightarrow> string set \<Rightarrow> string list \<Rightarrow> bool" where
  "spare_ok bindings budget donors spare \<longleftrightarrow>
     distinct spare \<and> length spare \<le> budget \<and>
     (\<forall>u \<in> set spare. \<exists>node \<in> donors. u \<in> set (holders bindings node)) \<and>
     (\<forall>node \<in> snd ` set bindings. \<exists>u \<in> set (holders bindings node). u \<notin> set spare)"

lemma spare_ok_give:
  assumes ok: "spare_ok bindings budget donors spare" and users: "distinct (map fst bindings)"
    and node: "node \<notin> donors" and give: "give \<le> load node bindings - 1" "give \<le> budget - length spare"
  shows "spare_ok bindings budget (insert node donors) (spare @ take give (rev (holders bindings node)))"
proof -
  let ?given = "take give (rev (holders bindings node))"
  have given: "set ?given \<subseteq> set (holders bindings node)" by (metis set_rev set_take_subset)
  have apart: "set spare \<inter> set (holders bindings node) = {}"
    using ok node holders_unique [OF users] unfolding spare_ok_def by blast
  have "distinct ?given" using holders_distinct [OF users] by simp
  moreover have "length (spare @ ?given) \<le> budget"
  proof -
    have "length spare \<le> budget" using ok by (simp add: spare_ok_def)
    moreover have "length ?given \<le> budget - length spare" using give(2) by simp
    ultimately show ?thesis by simp
  qed
  moreover have "\<exists>u \<in> set (holders bindings n). u \<notin> set (spare @ ?given)" if n: "n \<in> snd ` set bindings" for n
  proof (cases "n = node")
    case True
    have "holders bindings node \<noteq> []" using n True by (force simp: holders_def filter_empty_conv)
    then have "0 < load node bindings" by simp
    moreover have "card (set ?given) \<le> load node bindings - 1"
      using card_length [of ?given] give(1) by simp
    moreover have "card (set (holders bindings node)) = load node bindings"
      using holders_distinct [OF users] by (rule distinct_card)
    ultimately have "card (set ?given) < card (set (holders bindings node))" by linarith
    then have "\<not> set (holders bindings node) \<subseteq> set ?given" by (meson List.finite_set card_mono leD)
    with apart True show ?thesis by auto
  next
    case False
    then obtain u where "u \<in> set (holders bindings n)" "u \<notin> set spare" using ok n by (auto simp: spare_ok_def)
    moreover from this False given have "u \<notin> set ?given" using holders_unique [OF users, of u n node] by blast
    ultimately show ?thesis by auto
  qed
  moreover have "distinct spare" using ok by (simp add: spare_ok_def)
  moreover have "set spare \<inter> set ?given = {}" using given apart by blast
  moreover have "\<exists>n \<in> insert node donors. u \<in> set (holders bindings n)" if "u \<in> set (spare @ ?given)" for u
    using that given ok unfolding spare_ok_def set_append by blast
  ultimately show ?thesis by (simp add: spare_ok_def)
qed

lemma free_worst_ok:
  assumes "spare_ok bindings budget donors spare" and "distinct (map fst bindings)" and "ranks_ok ops tally bindings ranks"
    and "donors \<inter> fst ` set ranks = {}" and "\<forall>node \<in> donors. produced ops tally node < poor"
  shows "\<exists>donors'. spare_ok bindings budget donors' (free_worst bindings budget poor ranks spare) \<and>
     (\<forall>node \<in> donors'. produced ops tally node < poor)"
  using assms
proof (induction bindings budget poor ranks spare arbitrary: donors rule: free_worst.induct)
  case (2 bindings budget poor node held rate ranks spare)
  show ?case
  proof (cases "budget \<le> length spare \<or> poor \<le> rate")
    case True
    with "2.prems" show ?thesis by auto
  next
    case False
    let ?give = "min (held - min_per_node) (budget - length spare)"
    have held: "held = load node bindings" "rate = produced ops tally node" "node \<notin> fst ` set ranks" "ranks_ok ops tally bindings ranks"
      using "2.prems"(3) by (auto simp: ranks_ok_def)
    have "spare_ok bindings budget (insert node donors) (spare @ take ?give (rev (holders bindings node)))"
      using "2.prems"(4) by (intro spare_ok_give [OF "2.prems"(1,2)]) (auto simp: held min_per_node_def)
    moreover have "insert node donors \<inter> fst ` set ranks = {}" using "2.prems"(4) held(3) by auto
    moreover have "\<forall>n \<in> insert node donors. produced ops tally n < poor" using "2.prems"(5) False held(2) by auto
    ultimately show ?thesis using "2.IH" [OF False refl _ "2.prems"(2) held(4)] False by (simp add: Let_def)
  qed
qed auto

text \<open>What is handed out: a beginning of the spare accounts, each to a rich node with room.\<close>

lemma hand_out_users: "\<exists>n. map fst (hand_out cap rich ranks spare) = take n spare"
proof (induction cap rich ranks spare rule: hand_out.induct)
  case (2 cap rich node held rate ranks spare)
  let ?room = "min (cap - held) held"
  show ?case
  proof (cases "rate \<le> rich \<or> length spare < ?room")
    case True
    then show ?thesis by (auto simp: Let_def comp_def intro: exI [of _ 0] exI [of _ ?room])
  next
    case False
    with 2 obtain n where "map fst (hand_out cap rich ranks (drop ?room spare)) = take n (drop ?room spare)" by auto
    with False show ?thesis by (intro exI [of _ "?room + n"]) (simp add: Let_def comp_def take_add)
  qed
qed (auto intro: exI [of _ 0])

lemma hand_out_targets:
  "(u, node) \<in> set (hand_out cap rich ranks spare) \<Longrightarrow> \<exists>held rate. (node, held, rate) \<in> set ranks \<and> rich < rate"
  by (induction cap rich ranks spare rule: hand_out.induct) (auto simp: Let_def not_le split: if_splits)

lemma hand_out_room:
  assumes "distinct (map fst ranks)" and "(node, held, rate) \<in> set ranks"
  shows "length (filter (\<lambda>m. snd m = node) (hand_out cap rich ranks spare)) \<le> min (cap - held) held"
  using assms
proof (induction cap rich ranks spare rule: hand_out.induct)
  case (2 cap rich node' held' rate' ranks spare)
  let ?room = "min (cap - held') held'"
  have none: "filter (\<lambda>m. snd m = node') (hand_out cap rich ranks xs) = []" for xs
  proof -
    have "snd m \<noteq> node'" if "m \<in> set (hand_out cap rich ranks xs)" for m
    proof -
      from that obtain held rate where "(snd m, held, rate) \<in> set ranks" using hand_out_targets [of "fst m" "snd m" cap rich ranks xs] by auto
      then have "snd m \<in> fst ` set ranks" by force
      with "2.prems"(1) show ?thesis by auto
    qed
    then show ?thesis by (simp add: filter_empty_conv)
  qed
  show ?case
  proof (cases "node = node'")
    case True
    then have "held = held'" using "2.prems" by force
    with True none show ?thesis by (auto simp: Let_def comp_def)
  next
    case False
    with 2 show ?thesis by (auto simp: Let_def comp_def)
  qed
qed simp

section \<open>Properties of balancing\<close>

text \<open>The bindings after the moves.\<close>

definition moved :: "(string \<times> string) list \<Rightarrow> bindings \<Rightarrow> bindings" where
  "moved moves bindings = map (\<lambda>(u, node). (u, case map_of moves u of Some n \<Rightarrow> n | None \<Rightarrow> node)) bindings"

lemma moved_users: "map fst (moved moves bindings) = map fst bindings"
  by (induction bindings) (auto simp: moved_def)

lemma moved_iff: "(u, n) \<in> set (moved moves bindings) \<longleftrightarrow>
    (\<exists>node. (u, node) \<in> set bindings \<and> n = (case map_of moves u of Some n \<Rightarrow> n | None \<Rightarrow> node))"
  by (force simp: moved_def)

lemma moved_nodes:
  assumes "snd ` set moves \<subseteq> snd ` set bindings"
    and "\<And>n. n \<in> snd ` set bindings \<Longrightarrow> \<exists>u. (u, n) \<in> set bindings \<and> u \<notin> fst ` set moves"
  shows "snd ` set (moved moves bindings) = snd ` set bindings"
proof
  show "snd ` set (moved moves bindings) \<subseteq> snd ` set bindings"
  proof
    fix n assume "n \<in> snd ` set (moved moves bindings)"
    then obtain u node where "(u, node) \<in> set bindings" "n = (case map_of moves u of Some n \<Rightarrow> n | None \<Rightarrow> node)"
      by (auto simp: moved_iff)
    then show "n \<in> snd ` set bindings" using assms(1) by (force split: option.splits dest: map_of_SomeD)
  qed
  show "snd ` set bindings \<subseteq> snd ` set (moved moves bindings)"
  proof
    fix n assume "n \<in> snd ` set bindings"
    then obtain u where u: "(u, n) \<in> set bindings" "u \<notin> fst ` set moves" using assms(2) by blast
    then have "map_of moves u = None" by (simp add: map_of_eq_None_iff)
    with u(1) have "(u, n) \<in> set (moved moves bindings)" by (auto simp: moved_iff intro!: exI [of _ n])
    then show "n \<in> snd ` set (moved moves bindings)" by force
  qed
qed

lemma load_moved:
  assumes users: "distinct (map fst bindings)"
  shows "load n (moved moves bindings) \<le> load n bindings + length (filter (\<lambda>m. snd m = n) moves)"
proof -
  let ?to = "filter (\<lambda>m. snd m = n) moves"
  have "set (holders (moved moves bindings) n) \<subseteq> set (holders bindings n @ map fst ?to)"
  proof
    fix u assume "u \<in> set (holders (moved moves bindings) n)"
    then obtain node where node: "(u, node) \<in> set bindings" "n = (case map_of moves u of Some n \<Rightarrow> n | None \<Rightarrow> node)"
      by (auto simp: holders_iff moved_iff)
    show "u \<in> set (holders bindings n @ map fst ?to)"
    proof (cases "map_of moves u")
      case None
      with node show ?thesis by (simp add: holders_iff)
    next
      case (Some m)
      with node have "(u, n) \<in> set ?to" by (auto dest: map_of_SomeD)
      then show ?thesis by force
    qed
  qed
  then have "card (set (holders (moved moves bindings) n)) \<le> card (set (holders bindings n @ map fst ?to))"
    by (intro card_mono) simp_all
  also have "\<dots> \<le> length (holders bindings n @ map fst ?to)" by (rule card_length)
  finally show ?thesis
    using distinct_card [OF holders_distinct, of "moved moves bindings" n] users by (simp add: moved_users)
qed

lemma rebalance_obtain:
  assumes "distinct (map fst bindings)" and "rebalance ops bindings tally cap \<noteq> []"
  obtains ranks spare donors where "ranks_ok ops tally bindings ranks" "median_rate ops ranks = median_rate ops (ranked ops tally bindings)"
    "spare_ok bindings (move_budget bindings) donors spare"
    "\<forall>node \<in> donors. produced ops tally node < fl_poor ops (median_rate ops ranks)"
    "rebalance ops bindings tally cap = hand_out cap (fl_rich ops (median_rate ops ranks)) ranks spare"
proof -
  let ?ranks = "ranked ops tally bindings"
  let ?poor = "fl_poor ops (median_rate ops ?ranks)"
  have "ranks_ok ops tally bindings (rev ?ranks)" using ranked_ok [of ops tally bindings] by (auto simp: ranks_ok_def rev_map [symmetric])
  moreover have "spare_ok bindings (move_budget bindings) {} []"
    by (force simp: spare_ok_def holders_iff)
  ultimately obtain donors where
    "spare_ok bindings (move_budget bindings) donors (free_worst bindings (move_budget bindings) ?poor (rev ?ranks) [])"
    "\<forall>node \<in> donors. produced ops tally node < ?poor"
    using free_worst_ok [OF _ assms(1), where donors = "{}" and poor = ?poor] by fastforce
  with that [OF ranked_ok refl] assms(2) show ?thesis by (auto simp: rebalance_def Let_def split: if_splits)
qed

lemma hand_out_load:
  assumes users: "distinct (map fst bindings)" and ranks: "ranks_ok ops tally bindings ranks"
    and moves: "moves = hand_out cap rich ranks spare"
  shows "load n (moved moves bindings) \<le> max (load n bindings) (min cap (2 * load n bindings))"
proof (cases "\<exists>held rate. (n, held, rate) \<in> set ranks")
  case True
  then obtain held rate where "(n, held, rate) \<in> set ranks" by blast
  moreover from this have "held = load n bindings" using ranks by (auto simp: ranks_ok_def)
  moreover have "distinct (map fst ranks)" using ranks by (simp add: ranks_ok_def)
  ultimately have "length (filter (\<lambda>m. snd m = n) moves) \<le> min (cap - load n bindings) (load n bindings)"
    unfolding moves using hand_out_room by blast
  then show ?thesis using load_moved [OF users, where n = n and moves = moves] by linarith
next
  case False
  then have "filter (\<lambda>m. snd m = n) moves = []"
    using hand_out_targets [of _ n cap rich ranks spare] unfolding moves by (auto simp: filter_empty_conv)
  with load_moved [OF users, where n = n and moves = moves] show ?thesis by simp
qed

lemma rebalance_facts:
  assumes users: "distinct (map fst bindings)"
  shows "(let moves = rebalance ops bindings tally cap; median = median_rate ops (ranked ops tally bindings) in
     distinct (map fst moves) \<and> length moves \<le> max (length bindings div 8) 1 \<and>
     (\<forall>(u, n) \<in> set moves. fl_rich ops median < produced ops tally n \<and>
        (\<exists>m. (u, m) \<in> set bindings \<and> produced ops tally m < fl_poor ops median)) \<and>
     snd ` set (moved moves bindings) = snd ` set bindings \<and>
     (\<forall>n. length (holders (moved moves bindings) n) \<le> max (length (holders bindings n)) (min cap (2 * length (holders bindings n)))))"
proof (cases "rebalance ops bindings tally cap = []")
  case True
  have "moved [] bindings = bindings" by (induction bindings) (auto simp: moved_def)
  with True show ?thesis by (simp add: Let_def)
next
  case False
  define moves where "moves = rebalance ops bindings tally cap"
  from users False obtain ranks spare donors where ranks: "ranks_ok ops tally bindings ranks"
    and median: "median_rate ops ranks = median_rate ops (ranked ops tally bindings)"
    and spare: "spare_ok bindings (move_budget bindings) donors spare"
    and poor: "\<forall>node \<in> donors. produced ops tally node < fl_poor ops (median_rate ops ranks)"
    and moves: "moves = hand_out cap (fl_rich ops (median_rate ops ranks)) ranks spare"
    unfolding moves_def by (rule rebalance_obtain)
  obtain k where taken: "map fst moves = take k spare" using hand_out_users moves by blast
  have movers: "fst ` set moves \<subseteq> set spare" by (metis list.set_map set_take_subset taken)
  have distinct: "distinct (map fst moves)" using spare by (simp add: taken spare_ok_def)
  have few: "length moves \<le> max (length bindings div 8) 1"
  proof -
    have "length moves \<le> length spare" using taken by (metis length_map length_take min.cobounded1)
    then show ?thesis using spare by (auto simp: spare_ok_def move_budget_def move_share_def)
  qed
  have target: "n \<in> snd ` set bindings \<and> fl_rich ops (median_rate ops ranks) < produced ops tally n" if "(u, n) \<in> set moves" for u n
    using hand_out_targets [of u n cap "fl_rich ops (median_rate ops ranks)" ranks spare] that ranks
    unfolding moves ranks_ok_def by force
  have source: "\<exists>m. (u, m) \<in> set bindings \<and> produced ops tally m < fl_poor ops (median_rate ops ranks)" if "(u, n) \<in> set moves" for u n
  proof -
    have "u \<in> set spare" using movers that by force
    then obtain m where "m \<in> donors" "u \<in> set (holders bindings m)" using spare by (auto simp: spare_ok_def)
    with poor show ?thesis by (auto simp: holders_iff)
  qed
  have nodes: "snd ` set (moved moves bindings) = snd ` set bindings"
  proof (rule moved_nodes)
    show "snd ` set moves \<subseteq> snd ` set bindings" using target by fastforce
    show "\<exists>u. (u, n) \<in> set bindings \<and> u \<notin> fst ` set moves" if "n \<in> snd ` set bindings" for n
    proof -
      from that obtain u where "u \<in> set (holders bindings n)" "u \<notin> set spare" using spare by (auto simp: spare_ok_def)
      then show ?thesis using movers unfolding holders_iff by blast
    qed
  qed
  have "load n (moved moves bindings) \<le> max (load n bindings) (min cap (2 * load n bindings))" for n
    using hand_out_load [OF users ranks moves] .
  then show ?thesis
    using distinct few target source nodes median unfolding moves_def [symmetric] by (auto simp: Let_def)
qed

lemma rebalance_moves:
  assumes "distinct (map fst bindings)"
  shows "distinct (map fst (rebalance ops bindings tally cap)) \<and>
     snd ` set (moved (rebalance ops bindings tally cap) bindings) = snd ` set bindings"
  using rebalance_facts [OF assms, of ops tally cap, unfolded Let_def] by (elim conjE) (intro conjI)

text \<open>Claim C27: a round of balancing is safe. It moves at most an eighth of the accounts (and at least may move one), each once and
  only from an exit that produces less than the band around the median to one that produces more. No exit loses its
  last account and none appears, so the set of exits stays the same; and no exit ends up with more than
  the cap or with more than twice what it had, unless it had that many before.\<close>

theorem rebalance_safe:
  assumes users: "distinct (map fst bindings)"
  shows "(let moves = rebalance ops bindings tally cap; median = median_rate ops (ranked ops tally bindings) in
     distinct (map fst moves) \<and> length moves \<le> max (length bindings div 8) 1 \<and>
     (\<forall>(u, n) \<in> set moves. fl_rich ops median < produced ops tally n \<and>
        (\<exists>m. (u, m) \<in> set bindings \<and> produced ops tally m < fl_poor ops median)) \<and>
     snd ` set (moved moves bindings) = snd ` set bindings \<and>
     (\<forall>n. length (holders (moved moves bindings) n) \<le> max (length (holders bindings n)) (min cap (2 * length (holders bindings n)))))"
  using assms by (rule rebalance_facts)

section \<open>Balancing the account pool\<close>

text \<open>A document without white space around its usernames and nodes.\<close>

definition tidy :: "stored_account list \<Rightarrow> bool" where
  "tidy accounts \<longleftrightarrow> list_all (\<lambda>a. str_trim (sa_username a) = sa_username a \<and> str_trim (sa_node a) = sa_node a) accounts"

definition rebound :: "(string \<times> string) list \<Rightarrow> stored_account \<Rightarrow> stored_account" where
  "rebound moves a =
     (case map_of moves (sa_username a) of
        Some node \<Rightarrow> if sa_purpose a = Refetch then a\<lparr>sa_node := node\<rparr> else a
      | None \<Rightarrow> a)"

lemma rebound_fields [simp]:
  "sa_username (rebound moves a) = sa_username a" "sa_enabled (rebound moves a) = sa_enabled a" "sa_purpose (rebound moves a) = sa_purpose a"
  by (simp_all add: rebound_def split: option.splits)

lemma update_first_unique_where:
  "distinct (map key xs) \<Longrightarrow> update_first (\<lambda>y. key y = k \<and> q y) f xs = map (\<lambda>y. if key y = k \<and> q y then f y else y) xs"
proof (induction xs)
  case (Cons x xs)
  have "map (\<lambda>y. if key y = k \<and> q y then f y else y) xs = xs" if "key x = k"
  proof (rule map_idI)
    fix y assume "y \<in> set xs"
    then have "key y \<noteq> key x" using Cons.prems by (auto simp: image_iff)
    with that show "(if key y = k \<and> q y then f y else y) = y" by simp
  qed
  with Cons show ?case by auto
qed simp

lemma rebind_loop_rebound:
  assumes "distinct (map (\<lambda>a. ascii_lower (sa_username a)) accounts)" and "distinct (map fst moves)"
    and "fst ` set moves \<subseteq> sa_username ` {a \<in> set accounts. sa_purpose a = Refetch}"
  shows "fst (rebind_loop moves accounts m) = map (rebound moves) accounts"
  using assms
proof (induction moves arbitrary: accounts m)
  case Nil
  then show ?case by (simp add: rebound_def)
next
  case (Cons move moves)
  obtain u n where move: "move = (u, n)" by fastforce
  let ?is_it = "\<lambda>a. eq_ignore_ascii_case (sa_username a) u \<and> sa_purpose a = Refetch"
  let ?set = "\<lambda>a. if sa_username a = u \<and> sa_purpose a = Refetch then a\<lparr>sa_node := n\<rparr> else a"
  from Cons.prems(3) move obtain x where x: "x \<in> set accounts" "sa_purpose x = Refetch" "sa_username x = u" by force
  have it: "a = x" if "a \<in> set accounts" "eq_ignore_ascii_case (sa_username a) u" for a
    by (rule key_unique [OF Cons.prems(1) that(1) x(1)]) (use that(2) x(3) in \<open>simp add: eq_ignore_ascii_case_def\<close>)
  have refl: "eq_ignore_ascii_case u u" by (simp add: eq_ignore_ascii_case_def)
  have only: "?is_it a = (sa_username a = u \<and> sa_purpose a = Refetch)" if "a \<in> set accounts" for a
    using it [OF that] x(3) refl by (metis)
  have "update_first ?is_it (\<lambda>a. a\<lparr>sa_node := n\<rparr>) accounts = map (\<lambda>a. if ?is_it a then a\<lparr>sa_node := n\<rparr> else a) accounts"
    using update_first_unique_where [OF Cons.prems(1), of "ascii_lower u"] by (simp add: eq_ignore_ascii_case_def)
  also have "\<dots> = map ?set accounts" using only by (intro map_cong) auto
  finally have updated: "update_first ?is_it (\<lambda>a. a\<lparr>sa_node := n\<rparr>) accounts = map ?set accounts" .
  have found: "find ?is_it accounts = Some x"
  proof -
    have "find ?is_it accounts \<noteq> None" using x by (auto simp: find_None_iff eq_ignore_ascii_case_def)
    then obtain y where y: "find ?is_it accounts = Some y" by auto
    then have "y \<in> set accounts" "?is_it y" using find_Some_in by fast+
    then have "y = x" using it by blast
    with y show ?thesis by simp
  qed
  have same: "map ?set accounts = accounts" if "sa_node x = n"
  proof (rule map_idI)
    fix a assume "a \<in> set accounts"
    then have "sa_username a = u \<Longrightarrow> a = x" using it refl by blast
    with that show "?set a = a" by auto
  qed
  have step: "\<exists>m'. rebind_loop (move # moves) accounts m = rebind_loop moves (map ?set accounts) m'"
    using found updated same by (auto simp: move Let_def)
  have "map (\<lambda>a. ascii_lower (sa_username a)) (map ?set accounts) = map (\<lambda>a. ascii_lower (sa_username a)) accounts" by simp
  then have "distinct (map (\<lambda>a. ascii_lower (sa_username a)) (map ?set accounts))" using Cons.prems(1) by argo
  moreover have "map sa_username (filter (\<lambda>a. sa_purpose a = Refetch) (map ?set xs)) = map sa_username (filter (\<lambda>a. sa_purpose a = Refetch) xs)" for xs
    by (induction xs) auto
  then have "set (map sa_username (filter (\<lambda>a. sa_purpose a = Refetch) (map ?set accounts))) =
      set (map sa_username (filter (\<lambda>a. sa_purpose a = Refetch) accounts))" by (rule arg_cong)
  then have "sa_username ` {a \<in> set (map ?set accounts). sa_purpose a = Refetch} = sa_username ` {a \<in> set accounts. sa_purpose a = Refetch}"
    by (simp only: set_map set_filter)
  ultimately have "fst (rebind_loop moves (map ?set accounts) m') = map (rebound moves) (map ?set accounts)" for m'
    using Cons.IH Cons.prems(2,3) by (simp add: move)
  moreover have "map_of moves u = None" using Cons.prems(2) by (simp add: move map_of_eq_None_iff)
  then have "rebound moves (?set a) = rebound (move # moves) a" for a
    by (auto simp: rebound_def move split: option.splits)
  ultimately show ?case using step by auto
qed

text \<open>The bindings of a list of accounts, as \<open>refetch_bindings\<close> reads them.\<close>

definition bindings_of :: "stored_account list \<Rightarrow> bindings" where
  "bindings_of accounts =
     List.map_filter (\<lambda>a. if str_trim (sa_node a) \<noteq> [] then Some (sa_username a, str_trim (sa_node a)) else None)
       (filter in_refetch_pool accounts)"

lemma refetch_bindings_of: "refetch_bindings pool = bindings_of (ad_accounts (ap_document pool))"
  by (simp add: refetch_bindings_def bindings_of_def)

lemma bindings_of_simps [simp]:
  "bindings_of [] = []"
  "bindings_of (a # accounts) =
     (if in_refetch_pool a \<and> str_trim (sa_node a) \<noteq> [] then [(sa_username a, str_trim (sa_node a))] else []) @ bindings_of accounts"
  by (auto simp: bindings_of_def List.map_filter_simps)

lemma refetch_nodes_bindings: "set (refetch_nodes pool) = snd ` set (refetch_bindings pool)"
proof -
  have "snd ` set (bindings_of accounts) =
      {node. node \<noteq> [] \<and> node \<in> (\<lambda>a. str_trim (sa_node a)) ` set (filter in_refetch_pool accounts)}" for accounts
    by (induction accounts) auto
  then show ?thesis by (auto simp: refetch_nodes_def refetch_bindings_of)
qed

lemma bindings_of_users: "fst ` set (bindings_of accounts) \<subseteq> sa_username ` {a \<in> set accounts. sa_purpose a = Refetch}"
  by (induction accounts) (auto simp: in_refetch_pool_def)

lemma bindings_of_distinct: "distinct (map sa_username accounts) \<Longrightarrow> distinct (map fst (bindings_of accounts))"
proof (induction accounts)
  case (Cons a accounts)
  have "sa_username a \<notin> fst ` set (bindings_of accounts)" using Cons.prems bindings_of_users [of accounts] by auto
  with Cons show ?case by auto
qed simp

lemma bindings_of_rebound:
  assumes "distinct (map sa_username accounts)" and "\<forall>(u, n) \<in> set moves. n \<noteq> [] \<and> str_trim n = n"
    and "fst ` set moves \<inter> sa_username ` set accounts \<subseteq> fst ` set (bindings_of accounts)"
  shows "bindings_of (map (rebound moves) accounts) = moved moves (bindings_of accounts)"
  using assms
proof (induction accounts)
  case (Cons a accounts)
  have fresh: "sa_username a \<notin> fst ` set (bindings_of accounts)" using Cons.prems(1) bindings_of_users [of accounts] by auto
  have "bindings_of (map (rebound moves) accounts) = moved moves (bindings_of accounts)"
  proof (rule Cons.IH)
    show "fst ` set moves \<inter> sa_username ` set accounts \<subseteq> fst ` set (bindings_of accounts)"
    proof
      fix u assume u: "u \<in> fst ` set moves \<inter> sa_username ` set accounts"
      then have "u \<in> fst ` set (bindings_of (a # accounts))" using Cons.prems(3) by auto
      moreover have "sa_username a \<notin> sa_username ` set accounts" using Cons.prems(1) by simp
      with u have "u \<noteq> sa_username a" by blast
      ultimately show "u \<in> fst ` set (bindings_of accounts)" by (auto split: if_splits)
    qed
  qed (use Cons.prems in auto)
  moreover have "bindings_of [rebound moves a] = moved moves (bindings_of [a])"
  proof (cases "map_of moves (sa_username a)")
    case None
    then show ?thesis by (simp add: rebound_def moved_def)
  next
    case (Some n)
    then have "(sa_username a, n) \<in> set moves" by (rule map_of_SomeD)
    then have n: "n \<noteq> []" "str_trim n = n" "sa_username a \<in> fst ` set (bindings_of (a # accounts))"
      using Cons.prems(2,3) by force+
    then have "in_refetch_pool a \<and> str_trim (sa_node a) \<noteq> []" using fresh by (auto split: if_splits)
    with n Some show ?thesis by (simp add: rebound_def moved_def in_refetch_pool_def)
  qed
  ultimately show ?case by (simp add: moved_def split: if_splits)
qed (simp add: moved_def)

lemma restored_shape:
  assumes "str_trim (sa_username a) = sa_username a"
  shows "sa_username (restored_account new_id document i a) = sa_username a" "sa_node (restored_account new_id document i a) = sa_node a"
    "in_refetch_pool (restored_account new_id document i a) = in_refetch_pool a"
  by (simp_all add: restored_account_def Let_def assms in_refetch_pool_def)

lemma bindings_of_map_index:
  assumes "tidy accounts"
  shows "bindings_of (map_index (restored_account new_id document) accounts) = bindings_of accounts"
proof -
  have same: "bindings_of xs = bindings_of ys"
    if "length xs = length ys" "\<And>i. i < length xs \<Longrightarrow> sa_username (xs ! i) = sa_username (ys ! i) \<and> sa_node (xs ! i) = sa_node (ys ! i) \<and>
      in_refetch_pool (xs ! i) = in_refetch_pool (ys ! i)" for xs ys
    using that
  proof (induction xs ys rule: list_induct2)
    case (Cons x xs y ys)
    from Cons.prems [of 0] Cons.prems [of "Suc _"] Cons.IH show ?case by auto
  qed simp
  show ?thesis
    using assms by (intro same) (auto simp: tidy_def list_all_length restored_shape)
qed

lemma update_bindings:
  assumes "tidy (ad_accounts submitted)" and "update lower new_id now written submitted pool = (r, pool')"
  shows "refetch_bindings pool' = refetch_bindings pool \<or> refetch_bindings pool' = bindings_of (ad_accounts submitted)"
  using assms bindings_of_map_index [OF assms(1)]
  by (auto simp: update_def commit_document_def Let_def refetch_bindings_of split: if_splits sum.splits)

lemma valid_usernames:
  assumes "pool_valid lower pool" and "lower_ok lower" and "tidy (ad_accounts (ap_document pool))"
  shows "distinct (map (\<lambda>a. ascii_lower (sa_username a)) (ad_accounts (ap_document pool)))"
    and "distinct (map sa_username (ad_accounts (ap_document pool)))"
proof -
  have "map (account_key lower) (ad_accounts (ap_document pool)) = map (\<lambda>a. lower (sa_username a)) (ad_accounts (ap_document pool))"
    using assms(3) by (auto simp: account_key_def tidy_def list_all_iff)
  then have keys: "distinct (map (\<lambda>a. lower (sa_username a)) (ad_accounts (ap_document pool)))"
    using assms(1) by (metis pool_valid_def validate_iff)
  then have "inj_on (\<lambda>a. ascii_lower (sa_username a)) (set (ad_accounts (ap_document pool)))"
    using assms(2) unfolding lower_ok_def distinct_map inj_on_def by blast
  with keys show "distinct (map (\<lambda>a. ascii_lower (sa_username a)) (ad_accounts (ap_document pool)))" by (simp add: distinct_map)
  then show "distinct (map sa_username (ad_accounts (ap_document pool)))"
    unfolding distinct_map inj_on_def by metis
qed

lemma trimmed_nodes:
  "tidy accounts \<Longrightarrow> n \<in> snd ` set (bindings_of accounts) \<Longrightarrow> n \<noteq> [] \<and> str_trim n = n"
  by (induction accounts) (auto simp: tidy_def split: if_splits)

lemma rebalance_targets:
  assumes "distinct (map fst bindings)" and "(u, n) \<in> set (rebalance ops bindings tally cap)"
  shows "u \<in> fst ` set bindings" and "n \<in> snd ` set bindings"
proof -
  have nonempty: "rebalance ops bindings tally cap \<noteq> []" using assms(2) by auto
  from assms(1) nonempty obtain ranks spare donors where parts: "ranks_ok ops tally bindings ranks"
    "spare_ok bindings (move_budget bindings) donors spare"
    "rebalance ops bindings tally cap = hand_out cap (fl_rich ops (median_rate ops ranks)) ranks spare"
    by (rule rebalance_obtain)
  have "u \<in> set spare"
    using assms(2) hand_out_users [of cap "fl_rich ops (median_rate ops ranks)" ranks spare] unfolding parts(3)
    by (metis (no_types, lifting) fst_conv image_eqI in_set_takeD list.set_map)
  with parts(2) show "u \<in> fst ` set bindings" by (force simp: spare_ok_def holders_iff)
  from hand_out_targets assms(2) parts(3) obtain held rate where "(n, held, rate) \<in> set ranks" by metis
  with parts(1) show "n \<in> snd ` set bindings" by (auto simp: ranks_ok_def)
qed

text \<open>Balancing never changes which exits are bound. For a well-formed pool without stray white space, whatever the tally says and
  whether or not the save succeeds, the exits named by the re-fetch accounts are the same before and after a
  round, so no listener appears or disappears and no session is dropped; and the records of the next round are
  counted from zero while the count of live sessions is kept.\<close>

theorem balancing_keeps_exits:
  assumes "pool_reachable lower pool" and "lower_ok lower" and "tidy (ad_accounts (ap_document pool))"
    and "balance_round ops lower new_id now written tally pool = (tally', pool')"
  shows "set (refetch_nodes pool') = set (refetch_nodes pool) \<and>
     (\<forall>node t. tally node = Some t \<longrightarrow> (\<exists>t'. tally' node = Some t' \<and> nt_fetched t' = 0 \<and> nt_sessions t' = nt_sessions t))"
proof -
  let ?accounts = "ad_accounts (ap_document pool)" and ?bindings = "refetch_bindings pool"
  define moves where "moves = rebalance ops ?bindings tally (node_cap (card (dom tally)) ?bindings)"
  note names = valid_usernames [OF pool_reachable_valid [OF assms(1)] assms(2,3)]
  have users: "distinct (map fst ?bindings)" using bindings_of_distinct [OF names(2)] by (simp add: refetch_bindings_of)
  have safe: "distinct (map fst moves)" "snd ` set (moved moves ?bindings) = snd ` set ?bindings"
    using rebalance_moves [OF users, of ops tally] unfolding moves_def by blast+
  have pool': "pool' = (if moves = [] then pool else snd (rebind_nodes lower new_id now written moves pool))" and tally': "tally' = reset_tally tally"
    using assms(4) unfolding balance_round_def moves_def Let_def by (simp_all only: prod.inject)
  have "snd ` set (refetch_bindings pool') = snd ` set ?bindings"
  proof (cases "moves = []")
    case False
    have movers: "fst ` set moves \<subseteq> fst ` set ?bindings" "snd ` set moves \<subseteq> snd ` set ?bindings"
      using rebalance_targets [OF users] unfolding moves_def by (metis image_subsetI surj_pair prod.collapse)+
    have "fst ` set moves \<subseteq> sa_username ` {a \<in> set ?accounts. sa_purpose a = Refetch}"
      using subset_trans [OF movers(1) [unfolded refetch_bindings_of] bindings_of_users] .
    from rebind_loop_rebound [OF names(1) safe(1) this]
    have loop: "fst (rebind_loop moves ?accounts 0) = map (rebound moves) ?accounts" .
    have each: "n \<noteq> [] \<and> str_trim n = n" if "(u, n) \<in> set moves" for u n
    proof (rule trimmed_nodes [OF assms(3)])
      show "n \<in> snd ` set (bindings_of ?accounts)" using movers(2) that unfolding refetch_bindings_of by (metis image_subset_iff snd_conv)
    qed
    then have nodes: "\<forall>(u, n) \<in> set moves. n \<noteq> [] \<and> str_trim n = n" by blast
    have rebound: "bindings_of (map (rebound moves) ?accounts) = moved moves ?bindings"
      unfolding refetch_bindings_of
      by (rule bindings_of_rebound [OF names(2) nodes]) (rule order_trans [OF Int_lower1 movers(1) [unfolded refetch_bindings_of]])
    have "tidy (map (rebound moves) ?accounts)"
      using assms(3) nodes by (force simp: tidy_def list_all_iff rebound_def split: option.splits dest: map_of_SomeD)
    then have "refetch_bindings pool' = ?bindings \<or> refetch_bindings pool' = moved moves ?bindings"
      using update_bindings [of "(ap_document pool)\<lparr>ad_accounts := map (rebound moves) ?accounts\<rparr>" lower new_id now written pool] False loop rebound
      by (auto simp: pool' rebind_nodes_def Let_def split: prod.splits sum.splits)
    with safe(2) show ?thesis by metis
  qed (simp add: pool')
  then show ?thesis by (auto simp: refetch_nodes_bindings tally' reset_tally_def)
qed

section \<open>Bounds on the requests in the air\<close>

text \<open>A walk always has at least one request in the air, and never so many that they time out in the queue: the
  requests waiting behind the sessions, at one per session and delay, are served within a third of the time after
  which an unclaimed request is given up, for every number of sessions and every delay.\<close>

theorem in_flight_served_in_time:
  "0 < in_flight_for workers delay \<and>
   (in_flight_for workers delay - max workers 1) * max delay 1 \<le> max workers 1 * (claim_timeout * 1000 div 3)"
proof -
  let ?w = "max workers 1" and ?d = "max delay 1" and ?p = "claim_timeout * 1000 div 3"
  have "in_flight_for workers delay \<le> ?w * (1 + ?p div ?d)"
    unfolding in_flight_for_def saturating_mul_def Let_def by (meson min.cobounded1 min.cobounded2 order_trans)
  then have "in_flight_for workers delay - ?w \<le> ?w * (?p div ?d)" by (simp only: distrib_left mult_1_right le_diff_conv add.commute)
  then have "(in_flight_for workers delay - ?w) * ?d \<le> ?w * (?p div ?d) * ?d" by (rule mult_le_mono1)
  also have "\<dots> = ?w * ((?p div ?d) * ?d)" by (rule mult.assoc)
  also have "\<dots> \<le> ?w * ?p" by (intro mult_le_mono2 div_times_less_eq_dividend)
  finally have "(in_flight_for workers delay - ?w) * ?d \<le> ?w * ?p" .
  moreover have "0 < ?w" by (simp add: less_max_iff_disj)
  then have "0 < ?w * (1 + ?p div ?d)" by (simp only: zero_less_mult_iff zero_less_Suc plus_1_eq_Suc) simp
  then have "0 < in_flight_for workers delay"
    unfolding in_flight_for_def saturating_mul_def Let_def min_in_flight_def usize_max_def by (simp only: min_less_iff_conj less_max_iff_disj) simp
  ultimately show ?thesis by (rule conjI [rotated])
qed

section \<open>The rate window\<close>

text \<open>A bucket as a function of the completions, oldest first.\<close>

definition bucket_of :: "nat list \<Rightarrow> nat \<Rightarrow> nat \<times> u32" where
  "bucket_of hits i =
     (let ts = filter (\<lambda>t. t mod window_secs = i) hits
      in if ts = [] then (0, 0) else (last ts, of_nat (count_list hits (last ts))))"

lemma sorted_le_last_mem: "sorted xs \<Longrightarrow> x \<in> set xs \<Longrightarrow> x \<le> last xs"
  by (induction xs) auto

lemma length_buckets: "length (rt_buckets (fold rate_hit hits new_window)) = window_secs"
  by (induction hits rule: rev_induct) (simp_all add: new_window_def rate_hit_def Let_def)

lemma bucket_of_snoc:
  "bucket_of (hits @ [t]) i = (if t mod window_secs = i then (t, of_nat (count_list hits t) + 1) else bucket_of hits i)"
proof (cases "t mod window_secs = i")
  case False
  have "t \<noteq> last (filter (\<lambda>t. t mod window_secs = i) hits)" if "filter (\<lambda>t. t mod window_secs = i) hits \<noteq> []"
    using last_in_set [OF that] False by auto
  with False show ?thesis by (auto simp: bucket_of_def Let_def)
qed (simp add: bucket_of_def)

lemma buckets_of_hits:
  assumes "sorted hits"
  shows "i < window_secs \<Longrightarrow> rt_buckets (fold rate_hit hits new_window) ! i = bucket_of hits i"
  using assms
proof (induction hits arbitrary: i rule: rev_induct)
  case Nil
  then show ?case by (simp add: new_window_def bucket_of_def)
next
  case (snoc t hits)
  let ?w = "fold rate_hit hits new_window" and ?slot = "t mod window_secs"
  have old: "rt_buckets ?w ! j = bucket_of hits j" if "j < window_secs" for j
    using snoc.IH [OF that] snoc.prems(2) by (simp add: sorted_append)
  have slot: "?slot < window_secs" by (simp add: window_secs_def)
  have new: "rt_buckets (fold rate_hit (hits @ [t]) new_window) ! i =
      (if i = ?slot then (t, if fst (bucket_of hits ?slot) = t then snd (bucket_of hits ?slot) + 1 else 1) else bucket_of hits i)"
    using snoc.prems(1) slot by (auto simp: rate_hit_def Let_def length_buckets nth_list_update old)
  show ?case
  proof (cases "i = ?slot")
    case True
    let ?ts = "filter (\<lambda>u. u mod window_secs = ?slot) hits"
    have "count_list hits t = 0" if "fst (bucket_of hits ?slot) \<noteq> t"
    proof (rule ccontr)
      assume "count_list hits t \<noteq> 0"
      then have t: "t \<in> set ?ts" by (auto simp: count_list_0_iff)
      then have "?ts \<noteq> []" by (auto simp: filter_empty_conv)
      moreover have "last ?ts \<le> t" using snoc.prems(2) last_in_set [OF calculation] by (auto simp: sorted_append)
      moreover have "t \<le> last ?ts"
        using t snoc.prems(2) by (intro sorted_le_last_mem) (auto simp: sorted_append intro: sorted_wrt_filter)
      ultimately show False using that by (auto simp: bucket_of_def Let_def)
    qed
    moreover have "snd (bucket_of hits ?slot) = of_nat (count_list hits t)" if "fst (bucket_of hits ?slot) = t"
    proof (cases "?ts = []")
      case True
      then have "count_list hits t = 0" by (auto simp: count_list_0_iff filter_empty_conv)
      with True show ?thesis by (simp add: bucket_of_def)
    qed (use that in \<open>auto simp: bucket_of_def Let_def\<close>)
    ultimately show ?thesis unfolding new bucket_of_snoc using True by auto
  next
    case False
    then show ?thesis unfolding new bucket_of_snoc by simp
  qed
qed

text \<open>What a bucket contributes: the completions of its slot that fall into the window.\<close>

lemma bucket_contribution:
  assumes "sorted hits" and "\<forall>t \<in> set hits. t \<le> now"
  shows "(if now - fst (bucket_of hits i) < window_secs then snd (bucket_of hits i) else 0) =
     of_nat (length (filter (\<lambda>t. now - t < window_secs \<and> t mod window_secs = i) hits))"
proof -
  let ?ts = "filter (\<lambda>t. t mod window_secs = i) hits"
  have split: "filter (\<lambda>t. now - t < window_secs \<and> t mod window_secs = i) hits = filter (\<lambda>t. now - t < window_secs) ?ts"
    by (simp add: conj_commute)
  show ?thesis
  proof (cases "?ts = []")
    case True
    then show ?thesis unfolding split by (simp add: bucket_of_def)
  next
    case False
    let ?l = "last ?ts"
    have bucket: "bucket_of hits i = (?l, of_nat (count_list hits ?l))"
      using False by (simp add: bucket_of_def Let_def)
    have l: "?l \<in> set hits" "?l mod window_secs = i" using last_in_set [OF False] by auto
    have le: "t \<le> ?l" if "t \<in> set ?ts" for t
      using assms(1) that by (intro sorted_le_last_mem) (auto intro: sorted_wrt_filter)
    have same: "t = ?l" if "t \<in> set ?ts" "now - t < window_secs" for t
    proof -
      have "?l - t < window_secs" using that(2) assms(2) l(1) by auto
      moreover have "?l mod window_secs = t mod window_secs" using that(1) l(2) by simp
      then have "(?l - t) mod window_secs = 0" using mod_eq_dvd_iff_nat [OF le [OF that(1)]] by simp
      ultimately show ?thesis using le [OF that(1)] by simp
    qed
    show ?thesis
    proof (cases "now - ?l < window_secs")
      case True
      have "filter (\<lambda>t. now - t < window_secs) ?ts = filter ((=) ?l) hits"
        unfolding split [symmetric] using same True l(2) by (intro filter_cong) auto
      then show ?thesis unfolding split bucket using True by (simp add: count_list_eq_length_filter)
    next
      case far: False
      have "filter (\<lambda>t. now - t < window_secs) ?ts = []"
        using le far by (fastforce simp: filter_empty_conv)
      then show ?thesis unfolding split bucket using far by simp
    qed
  qed
qed

lemma length_filter_slots:
  "length (filter P xs) = (\<Sum>i < window_secs. length (filter (\<lambda>t::nat. P t \<and> t mod window_secs = i) xs))"
proof (induction xs)
  case (Cons x xs)
  have "x mod window_secs < window_secs" by (simp add: window_secs_def)
  then have one: "(\<Sum>i < window_secs. if x mod window_secs = i then 1 else 0) = (1::nat)" by simp
  have "length (filter (\<lambda>t. P t \<and> t mod window_secs = i) (x # xs)) =
      (if P x \<and> x mod window_secs = i then 1 else 0) + length (filter (\<lambda>t. P t \<and> t mod window_secs = i) xs)" for i
    by simp
  then have "(\<Sum>i < window_secs. length (filter (\<lambda>t. P t \<and> t mod window_secs = i) (x # xs))) =
      (if P x then 1 else 0) + length (filter P xs)"
    using one Cons.IH by (simp only: sum.distrib) (cases "P x"; simp)
  then show ?case by simp
qed simp

text \<open>The meter is exact and does not saturate. Whatever completions there were, in order and none in the future, the
  count behind the displayed rate is the number of completions of the last thirty seconds, up to the width of its
  counter; older ones do not show, however many there were.\<close>

theorem rate_counts_window:
  assumes "sorted hits" and "\<forall>t \<in> set hits. t \<le> now"
  shows "live_hits now (fold rate_hit hits new_window) = of_nat (length (filter (\<lambda>t. now - t < 30) hits))"
proof -
  let ?b = "rt_buckets (fold rate_hit hits new_window)"
  have "live_hits now (fold rate_hit hits new_window) = (\<Sum>b \<leftarrow> ?b. if now - fst b < window_secs then snd b else 0)"
    by (simp add: live_hits_def sum_list_map_filter')
  also have "\<dots> = (\<Sum>i < window_secs. if now - fst (?b ! i) < window_secs then snd (?b ! i) else 0)"
    by (simp add: sum_list_sum_nth length_buckets atLeast0LessThan)
  also have "\<dots> = (\<Sum>i < window_secs. of_nat (length (filter (\<lambda>t. now - t < window_secs \<and> t mod window_secs = i) hits)))"
    by (intro sum.cong refl) (simp only: lessThan_iff buckets_of_hits [OF assms(1)] bucket_contribution [OF assms])
  also have "\<dots> = of_nat (length (filter (\<lambda>t. now - t < window_secs) hits))"
    unfolding length_filter_slots [of "\<lambda>t. now - t < window_secs"] by simp
  finally show ?thesis by (simp add: window_secs_def)
qed

theorem rate_counts_window_witness: "live_hits 31 (fold rate_hit [0, 0, 1, 3, 3, 31] new_window) = 3"
  using rate_counts_window [of "[0, 0, 1, 3, 3, 31]" 31] by simp

definition whole_rates :: "nat rate_ops" where
  "whole_rates = \<lparr>fl_rate = (\<lambda>f s. unat f div s), fl_mean = (\<lambda>a b. (a + b) div 2), fl_poor = (\<lambda>m. m * 3 div 4), fl_rich = (\<lambda>m. m * 5 div 4)\<rparr>"

definition two_exits :: bindings where
  "two_exits = [(''a'', ''x''), (''b'', ''x''), (''c'', ''x''), (''d'', ''y'')]"

definition one_sided :: tallies where
  "one_sided = [''x'' \<mapsto> no_tally\<lparr>nt_fetched := 3, nt_sessions := 3\<rparr>, ''y'' \<mapsto> no_tally\<lparr>nt_fetched := 40, nt_sessions := 1\<rparr>]"

theorem rebalance_safe_witness:
  "rebalance whole_rates two_exits one_sided 4 = [(''c'', ''y'')] \<and>
     snd ` set (moved (rebalance whole_rates two_exits one_sided 4) two_exits) = snd ` set two_exits"
proof -
  have rates: "produced whole_rates one_sided ''x'' = 1" "produced whole_rates one_sided ''y'' = 40"
    by (simp_all add: produced_def whole_rates_def one_sided_def tally_entry_def no_tally_def Let_def)
  have nodes: "bound_nodes two_exits = [''x'', ''y'']" by (simp add: bound_nodes_def two_exits_def)
  have held: "holders two_exits ''x'' = [''a'', ''b'', ''c'']" "holders two_exits ''y'' = [''d'']" "length two_exits = 4"
    by (simp_all add: holders_def two_exits_def)
  have ranks: "ranked whole_rates one_sided two_exits = [(''y'', 1, 40), (''x'', 3, 1)]"
    by (simp add: ranked_def nodes held rates sort_by_def ranks_before_def)
  have median: "median_rate whole_rates [(''y'', 1, 40), (''x'', 3, 1)] = 20"
    by (simp add: median_rate_def whole_rates_def Let_def)
  have "free_worst two_exits 1 15 [(''x'', 3, 1), (''y'', 1, 40::nat)] [] = [''c'']"
    by (simp add: held min_per_node_def)
  moreover have "hand_out 4 25 [(''y'', 1, 40::nat), (''x'', 3, 1)] [''c''] = [(''c'', ''y'')]"
    by simp
  moreover have "fl_poor whole_rates 20 = 15" "fl_rich whole_rates 20 = 25" "move_budget two_exits = 1"
    by (simp_all add: whole_rates_def move_budget_def move_share_def held)
  ultimately have "rebalance whole_rates two_exits one_sided 4 = [(''c'', ''y'')]"
    by (simp only: rebalance_def nodes ranks median rev.simps append.simps Let_def) simp
  moreover have "distinct (map fst two_exits)" by (simp add: two_exits_def)
  from rebalance_safe [OF this, of whole_rates one_sided 4, unfolded Let_def]
  have "snd ` set (moved (rebalance whole_rates two_exits one_sided 4) two_exits) = snd ` set two_exits"
    by (elim conjE)
  ultimately show ?thesis by (rule conjI)
qed

definition balanced_account :: "string \<Rightarrow> string \<Rightarrow> stored_account" where
  "balanced_account u node = toy_account u ''pw'' Refetch \<lparr>sa_id := u, sa_node := node\<rparr>"

definition balanced_document :: account_document where
  "balanced_document = \<lparr>ad_revision = 0, ad_accounts = map (\<lambda>(u, node). balanced_account u node) two_exits, ad_updated_at = None\<rparr>"

lemma balanced_valid: "validate ascii_lower balanced_document = Inr ()"
  by (simp add: validate_def balanced_document_def two_exits_def balanced_account_def toy_account_def text_simps ascii_lower_def lower_char_def
      of_char_def Let_def)

theorem balancing_keeps_exits_witness:
  "\<exists>pool. pool_reachable ascii_lower pool \<and>
     set (refetch_nodes (snd (balance_round whole_rates ascii_lower (\<lambda>_. []) 5 True one_sided pool))) = {''x'', ''y''}"
proof -
  define pool where "pool = \<lparr>ap_file = Some balanced_document, ap_document = balanced_document, ap_health = Map.empty\<rparr>"
  have "open_pool ascii_lower (Found_Pool balanced_document) = Inr pool"
    by (simp add: open_pool_def balanced_valid pool_def)
  then have reach: "pool_reachable ascii_lower pool" by (rule pool_reachable.opened)
  have tidy: "tidy (ad_accounts (ap_document pool))"
    by (simp add: tidy_def pool_def balanced_document_def two_exits_def balanced_account_def toy_account_def text_simps)
  obtain tally' pool' where round: "balance_round whole_rates ascii_lower (\<lambda>_. []) 5 True one_sided pool = (tally', pool')" by fastforce
  have "set (refetch_nodes pool) = {''x'', ''y''}"
    by (simp add: refetch_nodes_def in_refetch_pool_def pool_def balanced_document_def two_exits_def balanced_account_def toy_account_def text_simps)
  then have "set (refetch_nodes pool') = {''x'', ''y''}"
    using balancing_keeps_exits [OF reach ascii_lower_ok tidy round, THEN conjunct1] by simp
  with reach round show ?thesis by (metis snd_conv)
qed

end
