(* ===== verification/Paipuya.thy ===== *)
theory Paipuya
  imports Modes Accounts_Correct Catalog "HOL-Library.Signed_Division"
begin

text \<open>
  \<^verbatim>\<open>src/paipuya.rs\<close>: the synchronisation with a public catalogue of games, mode by mode, and the part of \<^verbatim>\<open>src/catalog.rs\<close> that keeps its
  games and cursors. A time is a number of nanoseconds. What the site answers, what the clock reads and which writes succeed are
  the input of a step; the parser of addresses and the check of header names are parameters.
\<close>

section \<open>Pacing\<close>

record pacer =
  pa_interval :: int
  pa_next :: int

definition new_pacer :: "int \<Rightarrow> int \<Rightarrow> pacer" where
  "new_pacer interval now = \<lparr>pa_interval = interval, pa_next = now\<rparr>"

text \<open>\<open>tick\<close>, which holds the lock from \<open>entered\<close> until the caller is released; \<open>late\<close> is how long after the moment it was allowed to go the
  clock is read.\<close>

definition tick :: "int \<Rightarrow> nat \<Rightarrow> pacer \<Rightarrow> int \<times> pacer" where
  "tick entered late p =
     (let released = (if entered < pa_next p then pa_next p else entered) + int late
      in (released, p\<lparr>pa_next := released + pa_interval p\<rparr>))"

fun ticks :: "(int \<times> nat) list \<Rightarrow> pacer \<Rightarrow> int list" where
  "ticks [] p = []"
| "ticks ((entered, late) # calls) p = (case tick entered late p of (released, p') \<Rightarrow> released # ticks calls p')"

section \<open>The configuration\<close>

definition all_modes :: "i32 list" where
  "all_modes = [8, 9, 11, 12, 15, 16, 21, 22, 23, 24, 25, 26]"

definition max_page :: nat where
  "max_page = 500"

definition max_concurrency :: nat where
  "max_concurrency = 8"

definition min_request_interval_ms :: nat where
  "min_request_interval_ms = 200"

record paipuya_config =
  pf_revision :: u64
  pf_enabled :: bool
  pf_base_url :: string
  pf_api_key :: "string option"
  pf_api_key_header :: string
  pf_modes :: "i32 list"
  pf_start_from :: int
  pf_sync_until :: "int option"
  pf_request_interval_ms :: nat
  pf_concurrency :: nat
  pf_page_size :: nat

abbreviation second :: int where
  "second \<equiv> 1000000000"

text \<open>\<^verbatim>\<open>TimeDelta::num_seconds\<close> rounds toward zero.\<close>

definition num_seconds :: "int \<Rightarrow> int" where
  "num_seconds d = d sdiv second"

datatype config_error = Invalid_Paipuya string | Stale_Revision u64 u64 | Not_Persisted

definition validate_paipuya :: "(string \<Rightarrow> string option) \<Rightarrow> (string \<Rightarrow> bool) \<Rightarrow> paipuya_config \<Rightarrow> config_error + unit" where
  "validate_paipuya url_scheme header_ok c =
     (if url_scheme (pf_base_url c) = None then Inl (Invalid_Paipuya ''invalid base URL'')
      else if url_scheme (pf_base_url c) \<noteq> Some ''http'' \<and> url_scheme (pf_base_url c) \<noteq> Some ''https''
      then Inl (Invalid_Paipuya ''base URL must use http or https'')
      else if pf_api_key_header c = [] \<or> \<not> header_ok (pf_api_key_header c) then Inl (Invalid_Paipuya ''api_key_header'')
      else if (case pf_sync_until c of None \<Rightarrow> False | Some until \<Rightarrow> num_seconds (until - pf_start_from c) < 10)
      then Inl (Invalid_Paipuya ''window'')
      else if list_ex (\<lambda>mode. case mode_metadata mode of Inl _ \<Rightarrow> True | Inr _ \<Rightarrow> False) (pf_modes c) then Inl (Invalid_Paipuya ''mode'')
      else if pf_request_interval_ms c < min_request_interval_ms then Inl (Invalid_Paipuya ''request_interval_ms'')
      else if \<not> (1 \<le> pf_concurrency c \<and> pf_concurrency c \<le> max_concurrency) then Inl (Invalid_Paipuya ''concurrency'')
      else if \<not> (1 \<le> pf_page_size c \<and> pf_page_size c \<le> max_page) then Inl (Invalid_Paipuya ''page_size'')
      else Inr ())"

definition published_paipuya :: "paipuya_config \<Rightarrow> paipuya_config" where
  "published_paipuya c = c\<lparr>pf_api_key := redacted_secret (pf_api_key c)\<rparr>"

definition selected_modes :: "paipuya_config \<Rightarrow> i32 list" where
  "selected_modes c = (if pf_modes c = [] then all_modes else pf_modes c)"

definition mode_path :: "i32 \<Rightarrow> string" where
  "mode_path mode = (if sint mode < 20 then ''pl4'' else ''pl3'')"

definition rule_token :: "i32 \<Rightarrow> string" where
  "rule_token mode =
     (case mode_metadata mode of
        Inr (room, len, players) \<Rightarrow> show_nat (unat players) @ ''p-'' @ room @ ''-'' @ len
      | Inl _ \<Rightarrow> ''mode-'' @ (if sint mode < 0 then ''-'' else []) @ show_nat (nat \<bar>sint mode\<bar>))"

section \<open>A page of the site\<close>

record api_player =
  al_account_id :: u64
  al_nickname :: string
  al_score :: i32

record api_game =
  ag_uuid :: string
  ag_mode_id :: i32
  ag_start_time :: int
  ag_end_time :: int
  ag_players :: "api_player list"

record paipuya_game =
  pg_uuid :: string
  pg_mode_id :: i32
  pg_started_at :: int
  pg_ended_at :: int
  pg_players :: "string list"
  pg_account_ids :: "u64 list"
  pg_scores :: "i32 list"

definition at_second :: "(int \<Rightarrow> bool) \<Rightarrow> int \<Rightarrow> int option" where
  "at_second timestamp_ok seconds = (if timestamp_ok seconds then Some (seconds * second) else None)"

definition into_game :: "(int \<Rightarrow> bool) \<Rightarrow> api_game \<Rightarrow> paipuya_game option" where
  "into_game timestamp_ok g =
     (if ag_uuid g = [] \<or> ag_players g = [] then None
      else map_option (\<lambda>started.
             \<lparr>pg_uuid = ag_uuid g, pg_mode_id = ag_mode_id g, pg_started_at = started,
              pg_ended_at = (case at_second timestamp_ok (ag_end_time g) of Some ended \<Rightarrow> ended | None \<Rightarrow> started),
              pg_players = map al_nickname (ag_players g), pg_account_ids = map al_account_id (ag_players g),
              pg_scores = map al_score (ag_players g)\<rparr>)
           (at_second timestamp_ok (ag_start_time g)))"

section \<open>What is kept\<close>

record mode_cursor =
  mc_next_from :: int
  mc_synced_games :: i64

record paipuya_progress =
  pp_synced :: u64
  pp_without_uuid :: u64
  pp_requests :: u64
  pp_refused :: u64
  pp_cursors :: "i32 \<rightharpoonup> int"

definition no_progress :: paipuya_progress where
  "no_progress = \<lparr>pp_synced = 0, pp_without_uuid = 0, pp_requests = 0, pp_refused = 0, pp_cursors = Map.empty\<rparr>"

record sync_store =
  so_games :: "paipuya_game list"
  so_cursors :: "i32 \<rightharpoonup> mode_cursor"
  so_progress :: paipuya_progress

definition insert_paipuya_games :: "outcome \<Rightarrow> paipuya_game list \<Rightarrow> sync_store \<Rightarrow> bool \<times> sync_store" where
  "insert_paipuya_games oc games st =
     (if games = [] then (True, st)
      else (oc = Done, if took_effect oc then st\<lparr>so_games := so_games st @ games\<rparr> else st))"

definition set_paipuya_cursor :: "outcome \<Rightarrow> i32 \<Rightarrow> int \<Rightarrow> nat \<Rightarrow> sync_store \<Rightarrow> bool \<times> sync_store" where
  "set_paipuya_cursor oc mode next_from added st =
     (let before = (case so_cursors st mode of Some c \<Rightarrow> mc_synced_games c | None \<Rightarrow> 0)
      in (oc = Done,
          if took_effect oc
          then st\<lparr>so_cursors := (so_cursors st)(mode \<mapsto> \<lparr>mc_next_from = next_from, mc_synced_games = before + of_nat added\<rparr>)\<rparr>
          else st))"

definition rewind_paipuya_cursors :: "int \<Rightarrow> sync_store \<Rightarrow> sync_store" where
  "rewind_paipuya_cursors next_from st =
     st\<lparr>so_cursors := map_option (\<lambda>c. c\<lparr>mc_next_from := next_from\<rparr>) \<circ> so_cursors st\<rparr>"

section \<open>One mode\<close>

definition sweep_from :: "int option \<Rightarrow> int \<Rightarrow> int" where
  "sweep_from cursor start_from = (case cursor of None \<Rightarrow> start_from | Some c \<Rightarrow> max c start_from)"

text \<open>The loop over a page: the games to store, how many cannot be, and the latest start.\<close>

fun scan_page ::
  "(int \<Rightarrow> bool) \<Rightarrow> api_game list \<Rightarrow> paipuya_game list \<Rightarrow> nat \<Rightarrow> int \<Rightarrow> paipuya_game list \<times> nat \<times> int" where
  "scan_page timestamp_ok [] games without newest = (games, without, newest)"
| "scan_page timestamp_ok (g # page) games without newest =
     (case into_game timestamp_ok g of
        Some game \<Rightarrow> scan_page timestamp_ok page (games @ [game]) without (max newest (pg_started_at game))
      | None \<Rightarrow> scan_page timestamp_ok page games (without + 1)
          (case at_second timestamp_ok (ag_start_time g) of Some started \<Rightarrow> max newest started | None \<Rightarrow> newest))"

datatype mode_end = Reached_End | Past_Window | Caught_Up | Sync_Failed string

text \<open>What one turn of the loop meets: the clock, the page the site answers for the given range or an error (whether it was a refusal), and the
  fates of the two writes.\<close>

record page_env =
  pe_now :: int
  pe_page :: "int \<Rightarrow> int \<Rightarrow> bool + api_game list"
  pe_inserted :: outcome
  pe_saved :: outcome

definition page_turn ::
  "(int \<Rightarrow> bool) \<Rightarrow> paipuya_config \<Rightarrow> i32 \<Rightarrow> page_env \<Rightarrow> int \<Rightarrow> sync_store \<Rightarrow> (mode_end + int) \<times> sync_store" where
  "page_turn timestamp_ok c mode env from st =
     (let to = (case pf_sync_until c of Some until \<Rightarrow> until | None \<Rightarrow> pe_now env); p = so_progress st
      in if num_seconds (to - from) < 10 then (Inl (if pf_sync_until c \<noteq> None \<and> to < from then Past_Window else Reached_End), st)
         else case pe_page env from to of
           Inl refused \<Rightarrow>
             (Inl (Sync_Failed ''page''), if refused then st\<lparr>so_progress := p\<lparr>pp_refused := pp_refused p + 1\<rparr>\<rparr> else st)
         | Inr page \<Rightarrow>
             let st = st\<lparr>so_progress := p\<lparr>pp_requests := pp_requests p + 1\<rparr>\<rparr>;
                 full = pf_page_size c \<le> length page;
                 (games, without, newest) = scan_page timestamp_ok page [] 0 from;
                 (inserted, st) = insert_paipuya_games (pe_inserted env) games st
             in if \<not> inserted then (Inl (Sync_Failed ''insert''), st)
                else if newest \<le> from \<and> \<not> full then (Inl Caught_Up, st)
                else let next_from = (if from < newest then newest else from + second);
                         (saved, st) = set_paipuya_cursor (pe_saved env) mode next_from (length games) st
                     in if \<not> saved then (Inl (Sync_Failed ''cursor''), st)
                        else let p = so_progress st;
                                 st = st\<lparr>so_progress := p\<lparr>pp_synced := pp_synced p + of_nat (length games),
                                   pp_without_uuid := pp_without_uuid p + of_nat without, pp_cursors := (pp_cursors p)(mode \<mapsto> next_from)\<rparr>\<rparr>
                             in (if full then Inr next_from else Inl Caught_Up, st))"

fun sync_loop ::
  "(int \<Rightarrow> bool) \<Rightarrow> paipuya_config \<Rightarrow> i32 \<Rightarrow> page_env list \<Rightarrow> int \<Rightarrow> sync_store \<Rightarrow> mode_end option \<times> sync_store" where
  "sync_loop timestamp_ok c mode [] from st = (None, st)"
| "sync_loop timestamp_ok c mode (env # envs) from st =
     (case page_turn timestamp_ok c mode env from st of
        (Inl end, st') \<Rightarrow> (Some end, st')
      | (Inr from', st') \<Rightarrow> sync_loop timestamp_ok c mode envs from' st')"

text \<open>\<open>looked_up\<close> is whether the stored cursor could be read.\<close>

definition sync_mode ::
  "(int \<Rightarrow> bool) \<Rightarrow> paipuya_config \<Rightarrow> i32 \<Rightarrow> bool \<Rightarrow> page_env list \<Rightarrow> sync_store \<Rightarrow> mode_end option \<times> sync_store" where
  "sync_mode timestamp_ok c mode looked_up envs st =
     (if \<not> looked_up then (Some (Sync_Failed ''cursor''), st)
      else sync_loop timestamp_ok c mode envs (sweep_from (map_option mc_next_from (so_cursors st mode)) (pf_start_from c)) st)"

section \<open>The supervisor\<close>

text \<open>The generation counts the starts and stops; it is read as a number, 64 bits being more than will ever be used.\<close>

datatype service_phase = Stopped | Starting | Running | Reloading | Stopping | Failed

record paipuya_supervisor =
  py_config :: paipuya_config
  py_file :: "paipuya_config option"
  py_phase :: service_phase
  py_active_revision :: "u64 option"
  py_last_error :: "string option"
  py_generation :: nat
  py_tasks :: bool

text \<open>The states of the workers of a run: waiting for a mode, on one, or gone.\<close>

datatype sync_worker = Free | On i32 | Gone

record sync_run =
  sr_generation :: nat
  sr_queue :: "i32 list"
  sr_workers :: "sync_worker list"
  sr_live :: nat

definition start_sync :: "paipuya_supervisor \<Rightarrow> paipuya_supervisor \<times> sync_run" where
  "start_sync s =
     (let g = py_generation s + 1
      in (s\<lparr>py_generation := g, py_phase := Running, py_active_revision := Some (pf_revision (py_config s)), py_last_error := None, py_tasks := True\<rparr>,
          \<lparr>sr_generation = g, sr_queue = selected_modes (py_config s), sr_workers = replicate (pf_concurrency (py_config s)) Free,
           sr_live = pf_concurrency (py_config s)\<rparr>))"

text \<open>\<open>stop\<close> moves the generation first, then ends the tasks and waits for them, and only then says that it is stopped.\<close>

definition begin_stop :: "paipuya_supervisor \<Rightarrow> paipuya_supervisor" where
  "begin_stop s = s\<lparr>py_generation := py_generation s + 1\<rparr>"

definition end_stop :: "paipuya_supervisor \<Rightarrow> paipuya_supervisor" where
  "end_stop s = s\<lparr>py_phase := Stopped, py_active_revision := None, py_tasks := False\<rparr>"

definition stop_sync :: "paipuya_supervisor \<Rightarrow> paipuya_supervisor" where
  "stop_sync s = end_stop (begin_stop s)"

definition complete_sync :: "nat \<Rightarrow> paipuya_supervisor \<Rightarrow> paipuya_supervisor" where
  "complete_sync generation s =
     (if py_generation s \<noteq> generation then s
      else if py_phase s = Failed then s
      else s\<lparr>py_phase := Stopped\<rparr>)"

definition fail_sync :: "string \<Rightarrow> paipuya_supervisor \<Rightarrow> paipuya_supervisor" where
  "fail_sync message s = s\<lparr>py_phase := Failed, py_last_error := Some message\<rparr>"

definition reset_cursors :: "outcome \<Rightarrow> paipuya_supervisor \<Rightarrow> sync_store \<Rightarrow> bool \<times> paipuya_supervisor \<times> sync_store" where
  "reset_cursors oc s st =
     (let s = (if py_phase s \<noteq> Stopped then stop_sync s else s)
      in (oc = Done, s, if took_effect oc then rewind_paipuya_cursors (pf_start_from (py_config s)) st else st))"

definition saturating_next :: "u64 \<Rightarrow> u64" where
  "saturating_next r = (if r = u64_max then r else r + 1)"

definition update_paipuya ::
  "(string \<Rightarrow> string option) \<Rightarrow> (string \<Rightarrow> bool) \<Rightarrow> bool \<Rightarrow> paipuya_config \<Rightarrow> paipuya_supervisor \<Rightarrow>
   (config_error + paipuya_config) \<times> paipuya_supervisor" where
  "update_paipuya url_scheme header_ok written submitted s =
     (case validate_paipuya url_scheme header_ok submitted of
        Inl e \<Rightarrow> (Inl e, s)
      | Inr _ \<Rightarrow>
          if pf_revision submitted \<noteq> pf_revision (py_config s)
          then (Inl (Stale_Revision (pf_revision submitted) (pf_revision (py_config s))), s)
          else let saved = submitted\<lparr>pf_api_key := restored_secret (pf_api_key submitted) (pf_api_key (py_config s)),
                     pf_revision := saturating_next (pf_revision (py_config s))\<rparr>
               in if \<not> written then (Inl Not_Persisted, s)
                  else let s' = s\<lparr>py_config := saved, py_file := Some saved\<rparr>
                       in (Inr (published_paipuya saved), if pf_enabled saved then fst (start_sync s') else stop_sync s'))"

section \<open>The workers of a run\<close>

text \<open>A free worker takes the last mode of the queue, or leaves when there is none or the run is no longer the current one; a mode that failed
  ends its worker, and the last worker to leave reports the end.\<close>

definition leave :: "nat \<Rightarrow> paipuya_supervisor \<Rightarrow> sync_run \<Rightarrow> paipuya_supervisor \<times> sync_run" where
  "leave i s run =
     ((if sr_live run = 1 then complete_sync (sr_generation run) s else s),
      run\<lparr>sr_workers := (sr_workers run)[i := Gone], sr_live := sr_live run - 1\<rparr>)"

inductive run_step :: "paipuya_supervisor \<times> sync_run \<times> i32 set \<Rightarrow> paipuya_supervisor \<times> sync_run \<times> i32 set \<Rightarrow> bool" where
  take_mode: "i < length (sr_workers run) \<Longrightarrow> sr_workers run ! i = Free \<Longrightarrow> sr_queue run \<noteq> [] \<Longrightarrow> py_generation s = sr_generation run \<Longrightarrow>
    run_step (s, run, synced) (s, run\<lparr>sr_queue := butlast (sr_queue run), sr_workers := (sr_workers run)[i := On (last (sr_queue run))]\<rparr>, synced)"
| superseded: "i < length (sr_workers run) \<Longrightarrow> sr_workers run ! i = Free \<Longrightarrow> sr_queue run \<noteq> [] \<Longrightarrow> py_generation s \<noteq> sr_generation run \<Longrightarrow>
    leave i s (run\<lparr>sr_queue := butlast (sr_queue run)\<rparr>) = (s', run') \<Longrightarrow> run_step (s, run, synced) (s', run', synced)"
| no_mode: "i < length (sr_workers run) \<Longrightarrow> sr_workers run ! i = Free \<Longrightarrow> sr_queue run = [] \<Longrightarrow>
    leave i s run = (s', run') \<Longrightarrow> run_step (s, run, synced) (s', run', synced)"
| mode_done: "i < length (sr_workers run) \<Longrightarrow> sr_workers run ! i = On mode \<Longrightarrow>
    run_step (s, run, synced) (s, run\<lparr>sr_workers := (sr_workers run)[i := Free]\<rparr>, insert mode synced)"
| mode_failed: "i < length (sr_workers run) \<Longrightarrow> sr_workers run ! i = On mode \<Longrightarrow>
    leave i (fail_sync message s) run = (s', run') \<Longrightarrow> run_step (s, run, synced) (s', run', synced)"
| stop_begins: "run_step (s, run, synced) (begin_stop s, run, synced)"
| stop_ends: "py_generation s \<noteq> sr_generation run \<Longrightarrow>
    run_step (s, run, synced) (end_stop s, run\<lparr>sr_workers := map (\<lambda>_. Gone) (sr_workers run)\<rparr>, synced)"

inductive run_reachable :: "paipuya_supervisor \<Rightarrow> paipuya_supervisor \<times> sync_run \<times> i32 set \<Rightarrow> bool" for s0 where
  run_started: "start_sync s0 = (s, run) \<Longrightarrow> run_reachable s0 (s, run, {})"
| run_further: "run_reachable s0 x \<Longrightarrow> run_step x y \<Longrightarrow> run_reachable s0 y"

section \<open>The pace\<close>

lemma tick_release: "tick entered late p = (released, p') \<Longrightarrow> pa_next p \<le> released \<and> pa_next p' = released + pa_interval p \<and> pa_interval p' = pa_interval p"
  by (auto simp: tick_def Let_def)

lemma ticks_after: "0 \<le> pa_interval p \<Longrightarrow> \<forall>r \<in> set (ticks calls p). pa_next p \<le> r"
proof (induction calls p rule: ticks.induct)
  case (2 entered late calls p)
  obtain r p' where t: "tick entered late p = (r, p')" by fastforce
  note tick_release [OF t]
  with 2 t show ?case by fastforce
qed simp

lemma ticks_spaced: "0 \<le> pa_interval p \<Longrightarrow> sorted_wrt (\<lambda>a b. a + pa_interval p \<le> b) (ticks calls p)"
proof (induction calls p rule: ticks.induct)
  case (2 entered late calls p)
  obtain r p' where t: "tick entered late p = (r, p')" by fastforce
  note release = tick_release [OF t]
  have "sorted_wrt (\<lambda>a b. a + pa_interval p \<le> b) (ticks calls p')" using 2 t release by simp
  moreover have "\<forall>x \<in> set (ticks calls p'). r + pa_interval p \<le> x" using ticks_after [of p' calls] release "2.prems" by simp
  ultimately show ?case by (simp add: t)
qed simp

lemma spaced_in_window:
  fixes d :: int
  assumes "sorted_wrt (\<lambda>a b. a + d \<le> b) xs" and "0 < d" and "\<forall>x \<in> set xs. t \<le> x \<and> x < t + int k * d"
  shows "length xs \<le> k"
  using assms
proof (induction xs arbitrary: t k)
  case (Cons x xs)
  from Cons.prems(3) have "0 < int k * d" by auto
  then obtain m where k: "k = Suc m" using Cons.prems(2) by (cases k) auto
  have "\<forall>y \<in> set xs. t + d \<le> y \<and> y < (t + d) + int m * d"
    using Cons.prems by (fastforce simp: k algebra_simps)
  from Cons.IH [OF _ Cons.prems(2) this] Cons.prems(1) show ?case by (simp add: k)
qed simp

text \<open>The pace is a hard ceiling. However many workers call, in whatever order and however late each of them wakes, no stretch of time
  as long as \<open>k\<close> intervals ever sees more than \<open>k\<close> requests released.\<close>

theorem pace_is_a_ceiling:
  assumes "0 < interval"
  shows "length (filter (\<lambda>r. t \<le> r \<and> r < t + int k * interval) (ticks calls (new_pacer interval now))) \<le> k"
proof (rule spaced_in_window [of interval])
  show "sorted_wrt (\<lambda>a b. a + interval \<le> b) (filter (\<lambda>r. t \<le> r \<and> r < t + int k * interval) (ticks calls (new_pacer interval now)))"
    using ticks_spaced [of "new_pacer interval now"] assms by (intro sorted_wrt_filter) (simp add: new_pacer_def)
qed (use assms in auto)

theorem pace_is_a_ceiling_witness:
  "(0::int) < 200 \<and> length (filter (\<lambda>r. 0 \<le> r \<and> r < 0 + int 2 * 200) (ticks [(0, 0), (0, 3), (5, 0)] (new_pacer 200 0))) \<le> 2"
  using pace_is_a_ceiling [of 200 0 2 "[(0, 0), (0, 3), (5, 0)]" 0] by simp

section \<open>Nothing is skipped\<close>

abbreviation starts :: "api_game \<Rightarrow> int" where
  "starts g \<equiv> ag_start_time g * second"

text \<open>What the site promises: the games of a mode that started in the range, oldest first, as many as the limit allows. It may also fail to
  answer.\<close>

definition in_range :: "int \<Rightarrow> int \<Rightarrow> api_game \<Rightarrow> bool" where
  "in_range from to g \<longleftrightarrow> from \<le> starts g \<and> starts g \<le> to"

definition honest :: "api_game list \<Rightarrow> nat \<Rightarrow> page_env \<Rightarrow> bool" where
  "honest site limit env \<longleftrightarrow>
     (\<forall>from to page. pe_page env from to = Inr page \<longrightarrow> page = take limit (filter (in_range from to) site))"

definition site_ok :: "(int \<Rightarrow> bool) \<Rightarrow> api_game list \<Rightarrow> nat \<Rightarrow> bool" where
  "site_ok timestamp_ok site limit \<longleftrightarrow>
     sorted (map ag_start_time site) \<and> list_all (\<lambda>g. timestamp_ok (ag_start_time g)) site \<and> 0 < limit \<and>
     (\<forall>t. length (filter (\<lambda>g. ag_start_time g = t) site) < limit)"

definition stored_to :: "(int \<Rightarrow> bool) \<Rightarrow> api_game list \<Rightarrow> int \<Rightarrow> int \<Rightarrow> sync_store \<Rightarrow> bool" where
  "stored_to timestamp_ok site lo hi st \<longleftrightarrow>
     (\<forall>g \<in> set site. \<forall>x. into_game timestamp_ok g = Some x \<and> lo \<le> starts g \<and> starts g < hi \<longrightarrow> x \<in> set (so_games st))"

lemma stored_to_mono:
  "stored_to ok site lo hi st \<Longrightarrow> hi' \<le> hi \<Longrightarrow> set (so_games st) \<subseteq> set (so_games st') \<Longrightarrow> stored_to ok site lo hi' st'"
  unfolding stored_to_def by fastforce

lemma scan_page_result:
  assumes "list_all (\<lambda>g. ok (ag_start_time g)) page"
  shows "\<exists>n. scan_page ok page games without newest =
     (games @ List.map_filter (into_game ok) page, n, fold max (map starts page) newest)"
  using assms
proof (induction page arbitrary: games without newest)
  case (Cons g page)
  have ok: "at_second ok (ag_start_time g) = Some (starts g)" using Cons.prems by (simp add: at_second_def)
  have started: "pg_started_at x = starts g" if "into_game ok g = Some x" for x
    using that by (auto simp: into_game_def ok split: if_splits)
  have rest: "\<exists>n. scan_page ok page games without newest =
      (games @ List.map_filter (into_game ok) page, n, fold max (map starts page) newest)" for games without newest
    using Cons by simp
  show ?case
  proof (cases "into_game ok g")
    case None
    then show ?thesis using rest [of games "without + 1" "max newest (starts g)"]
      by (auto simp: List.map_filter_simps ok max.commute)
  next
    case (Some x)
    then show ?thesis using rest [of "games @ [x]" without "max newest (starts g)"]
      by (auto simp: List.map_filter_simps started max.commute)
  qed
qed (simp add: List.map_filter_simps)

lemma fold_max_ge: "n \<le> fold max xs n" "x \<in> set xs \<Longrightarrow> x \<le> fold max xs (n::int)"
proof -
  have base: "m \<le> fold max ys m" for ys and m :: int
  proof (induction ys arbitrary: m)
    case (Cons y ys)
    from Cons.IH [of "max y m"] show ?case by simp
  qed simp
  then show "n \<le> fold max xs n" .
  show "x \<in> set xs \<Longrightarrow> x \<le> fold max xs n"
  proof (induction xs arbitrary: n)
    case (Cons y ys)
    then show ?case using base [of "max y n" ys] by auto
  qed simp
qed

lemma fold_max_cases: "fold max xs (n::int) = n \<or> fold max xs n \<in> set xs"
proof (induction xs arbitrary: n)
  case (Cons x xs)
  from Cons.IH [of "max x n"] show ?case by (auto simp: max_def split: if_splits)
qed simp

text \<open>The games of a range that are missing from a full page started no earlier than its latest.\<close>

lemma page_prefix:
  assumes "sorted (map ag_start_time site)" and "g \<in> set site" and "in_range from to g"
    and "g \<notin> set (take limit (filter (in_range from to) site))" and "x \<in> set (take limit (filter (in_range from to) site))"
  shows "limit \<le> length (filter (in_range from to) site)" and "ag_start_time x \<le> ag_start_time g"
proof -
  let ?rows = "filter (in_range from to) site"
  have "sorted_wrt (\<lambda>a b. ag_start_time a \<le> ag_start_time b) ?rows"
    using assms(1) by (intro sorted_wrt_filter) (simp add: sorted_wrt_map)
  then have split: "sorted_wrt (\<lambda>a b. ag_start_time a \<le> ag_start_time b) (take limit ?rows @ drop limit ?rows)" by simp
  have "g \<in> set ?rows" using assms(2,3) by simp
  then have "g \<in> set (take limit ?rows @ drop limit ?rows)" by (simp only: append_take_drop_id)
  then have g: "g \<in> set (drop limit ?rows)" using assms(4) unfolding set_append by blast
  with split assms(5) show "ag_start_time x \<le> ag_start_time g" unfolding sorted_wrt_append by blast
  from g have "drop limit ?rows \<noteq> []" by (metis empty_iff empty_set)
  then show "limit \<le> length ?rows" by simp
qed

lemma page_not_one_second:
  assumes "\<forall>t. length (filter (\<lambda>g. ag_start_time g = t) site) < limit" and "limit \<le> length (take limit (filter q site))"
    and "\<forall>g \<in> set (take limit (filter q site)). ag_start_time g = t"
  shows False
proof -
  have "take limit (filter q site) = filter (\<lambda>g. ag_start_time g = t) (take limit (filter q site))"
    using assms(3) by (simp add: filter_id_conv)
  also have "length \<dots> \<le> length (filter (\<lambda>g. ag_start_time g = t) (filter q site))"
    by (metis append_take_drop_id filter_append length_append le_add1)
  also have "\<dots> \<le> length (filter (\<lambda>g. ag_start_time g = t) site)"
    by (induction site) auto
  finally show False using assms(1,2) by (meson leD le_less_trans)
qed

text \<open>One page: everything it stores is kept, and the next page starts where nothing earlier is missing.\<close>

lemma page_covers:
  assumes site: "site_ok ok site limit" and page: "page = take limit (filter (in_range from to) site)"
    and st: "stored_to ok site lo from st" and games: "set (so_games st') = set (so_games st) \<union> set (List.map_filter (into_game ok) page)"
  shows "length page < limit \<Longrightarrow> stored_to ok site lo (to + 1) st'"
    and "limit \<le> length page \<Longrightarrow> from < fold max (map starts page) from \<and> stored_to ok site lo (fold max (map starts page) from) st'"
proof -
  let ?newest = "fold max (map starts page) from"
  have sorted: "sorted (map ag_start_time site)" and crowd: "\<forall>t. length (filter (\<lambda>g. ag_start_time g = t) site) < limit" "0 < limit"
    using site by (simp_all add: site_ok_def)
  have kept: "x \<in> set (so_games st')" if "g \<in> set page" "into_game ok g = Some x" for g x
    using that games by (auto simp: set_map_filter)
  have old: "x \<in> set (so_games st')" if "g \<in> set site" "into_game ok g = Some x" "lo \<le> starts g" "starts g < from" for g x
    using that st games by (auto simp: stored_to_def)
  show "stored_to ok site lo (to + 1) st'" if short: "length page < limit"
    unfolding stored_to_def
  proof (intro ballI allI impI, elim conjE)
    fix g x assume g: "g \<in> set site" "into_game ok g = Some x" "lo \<le> starts g" "starts g < to + 1"
    show "x \<in> set (so_games st')"
    proof (cases "starts g < from")
      case False
      then have "g \<in> set (filter (in_range from to) site)" using g by (simp add: in_range_def)
      then have "g \<in> set page" using short page by simp
      then show ?thesis using kept g(2) by blast
    qed (use old g in blast)
  qed
  assume full: "limit \<le> length page"
  have low: "from \<le> starts g" if "g \<in> set page" for g using that page by (auto simp: in_range_def dest: in_set_takeD)
  have newest: "from < ?newest"
  proof (rule ccontr)
    assume "\<not> from < ?newest"
    then have "starts g = from" if "g \<in> set page" for g
      using low [OF that] fold_max_ge(2) [of "starts g" "map starts page" "from"] that by force
    then have "\<forall>g \<in> set page. ag_start_time g = from div second" by fastforce
    then show False using page_not_one_second [OF crowd(1), of "in_range from to"] full unfolding page by blast
  qed
  then obtain g where g: "g \<in> set page" "starts g = ?newest" using fold_max_cases [of "map starts page" "from"] by auto
  have "stored_to ok site lo ?newest st'"
    unfolding stored_to_def
  proof (intro ballI allI impI, elim conjE)
    fix h x assume h: "h \<in> set site" "into_game ok h = Some x" "lo \<le> starts h" "starts h < ?newest"
    show "x \<in> set (so_games st')"
    proof (cases "starts h < from")
      case False
      have "?newest \<le> to" using g page by (auto simp: in_range_def dest: in_set_takeD)
      then have "in_range from to h" using False h(4) by (simp add: in_range_def)
      then have "h \<in> set page"
        using page_prefix(2) [OF sorted h(1), of "from" to limit g] g h(4) unfolding page by fastforce
      then show ?thesis using kept h(2) by blast
    qed (use old h in blast)
  qed
  with newest show "from < ?newest \<and> stored_to ok site lo ?newest st'" by blast
qed

lemma num_seconds_less: "num_seconds d < 10 \<longleftrightarrow> d < 10 * second"
proof (cases "0 \<le> d")
  case True
  have "d = second * (d div second) + d mod second" "0 \<le> d mod second" "d mod second < second" by simp_all
  then have "d div second < 10 \<longleftrightarrow> d < 10 * second" by linarith
  with True show ?thesis by (simp add: num_seconds_def signed_divide_int_def sgn_if)
next
  case False
  then have "num_seconds d \<le> 0" by (simp add: num_seconds_def signed_divide_int_def pos_imp_zdiv_nonneg_iff)
  with False show ?thesis by simp
qed

definition window_end :: "paipuya_config \<Rightarrow> page_env \<Rightarrow> int" where
  "window_end c env = (case pf_sync_until c of Some until \<Rightarrow> until | None \<Rightarrow> pe_now env)"

definition turn_ok :: "(int \<Rightarrow> bool) \<Rightarrow> api_game list \<Rightarrow> int \<Rightarrow> int \<Rightarrow> int \<Rightarrow> mode_end + int \<Rightarrow> sync_store \<Rightarrow> bool" where
  "turn_ok ok site lo from to res st \<longleftrightarrow>
     (case res of
        Inr f \<Rightarrow> from < f \<and> stored_to ok site lo f st
      | Inl Caught_Up \<Rightarrow> stored_to ok site lo (to + 1) st
      | Inl Reached_End \<Rightarrow> to - from < 10 * second \<and> stored_to ok site lo from st
      | Inl Past_Window \<Rightarrow> to < from \<and> stored_to ok site lo from st
      | Inl (Sync_Failed _) \<Rightarrow> stored_to ok site lo from st)"

definition cursor_ok :: "(int \<Rightarrow> bool) \<Rightarrow> api_game list \<Rightarrow> int \<Rightarrow> i32 \<Rightarrow> sync_store \<Rightarrow> bool" where
  "cursor_ok ok site lo mode st \<longleftrightarrow> (\<forall>c. so_cursors st mode = Some c \<longrightarrow> stored_to ok site lo (mc_next_from c) st)"

text \<open>What a turn that got a page does to the store.\<close>

lemma page_turn_outcome:
  assumes turn: "page_turn ok c mode env from st = (res, st')" and far: "\<not> num_seconds (window_end c env - from) < 10"
    and page: "pe_page env from (window_end c env) = Inr page" "list_all (\<lambda>g. ok (ag_start_time g)) page"
  obtains (lost) "res = Inl (Sync_Failed ''insert'')" "so_cursors st' = so_cursors st" "set (so_games st) \<subseteq> set (so_games st')"
  | (nothing_new) "res = Inl Caught_Up" "length page < pf_page_size c" "so_cursors st' = so_cursors st"
      "set (so_games st') = set (so_games st) \<union> set (List.map_filter (into_game ok) page)"
  | (further) saved where "from < fold max (map starts page) from \<or> pf_page_size c \<le> length page"
      "set (so_games st') = set (so_games st) \<union> set (List.map_filter (into_game ok) page)"
      "res = (if \<not> saved then Inl (Sync_Failed ''cursor'')
              else if pf_page_size c \<le> length page then Inr (if from < fold max (map starts page) from then fold max (map starts page) from else from + second) else Inl Caught_Up)"
      "so_cursors st' mode = so_cursors st mode \<or>
       map_option mc_next_from (so_cursors st' mode) = Some (if from < fold max (map starts page) from then fold max (map starts page) from else from + second)"
proof -
  define games newest where defs: "games = List.map_filter (into_game ok)" "newest = (\<lambda>page. fold max (map starts page) from)"
  obtain n where scan: "scan_page ok page [] 0 from = (games page, n, newest page)"
    using scan_page_result [OF page(2), of "[]" 0 "from"] by (auto simp: defs)
  let ?p = "so_progress st" and ?next = "if from < newest page then newest page else from + second"
  obtain inserted st2 where ins: "insert_paipuya_games (pe_inserted env) (games page) (st\<lparr>so_progress := ?p\<lparr>pp_requests := pp_requests ?p + 1\<rparr>\<rparr>)
      = (inserted, st2)" by fastforce
  then have st2: "so_cursors st2 = so_cursors st" "set (so_games st) \<subseteq> set (so_games st2)"
      "inserted \<Longrightarrow> set (so_games st2) = set (so_games st) \<union> set (games page)"
    by (auto simp: insert_paipuya_games_def split: if_splits)
  obtain saved st3 where cur: "set_paipuya_cursor (pe_saved env) mode ?next (length (games page)) st2 = (saved, st3)" by fastforce
  then have st3: "so_games st3 = so_games st2"
      "so_cursors st3 mode = so_cursors st2 mode \<or> map_option mc_next_from (so_cursors st3 mode) = Some ?next"
    by (auto simp: set_paipuya_cursor_def Let_def split: if_splits)
  note step = turn [unfolded page_turn_def, folded window_end_def, unfolded Let_def] far page(1) scan ins
  consider "\<not> inserted" | inserted "newest page \<le> from \<and> \<not> pf_page_size c \<le> length page"
    | inserted "\<not> (newest page \<le> from \<and> \<not> pf_page_size c \<le> length page)" by blast
  then show thesis
  proof cases
    case 1
    then have "res = Inl (Sync_Failed ''insert'') \<and> st' = st2" using step by simp
    then show thesis using st2 by (intro lost) simp_all
  next
    case 2
    then have "res = Inl Caught_Up \<and> st' = st2" using step by simp
    then show thesis using st2 2 by (intro nothing_new) (simp_all add: defs)
  next
    case 3
    then have "res = (if \<not> saved then Inl (Sync_Failed ''cursor'') else if pf_page_size c \<le> length page then Inr ?next else Inl Caught_Up)
        \<and> so_games st' = so_games st3 \<and> so_cursors st' = so_cursors st3"
      using step cur by (auto split: if_splits)
    then show thesis using st2 st3 3 by (intro further [of saved]) (auto simp: defs)
  qed
qed

lemma page_turn_covers:
  assumes site: "site_ok ok site (pf_page_size c)" and honest: "honest site (pf_page_size c) env"
    and st: "stored_to ok site lo from st" "cursor_ok ok site lo mode st"
    and turn: "page_turn ok c mode env from st = (res, st')"
  shows "turn_ok ok site lo from (window_end c env) res st' \<and> cursor_ok ok site lo mode st'"
proof (cases "num_seconds (window_end c env - from) < 10")
  case True
  with turn st show ?thesis
    by (auto simp: page_turn_def window_end_def Let_def num_seconds_less turn_ok_def split: if_splits)
next
  case far: False
  let ?to = "window_end c env"
  show ?thesis
  proof (cases "pe_page env from ?to")
    case (Inl refused)
    then have "so_games st' = so_games st" "so_cursors st' = so_cursors st" "res = Inl (Sync_Failed ''page'')"
      using turn far by (auto simp: page_turn_def Let_def simp flip: window_end_def split: if_splits)
    then show ?thesis using st by (simp add: turn_ok_def cursor_ok_def stored_to_def)
  next
    case (Inr page)
    then have page: "page = take (pf_page_size c) (filter (in_range from ?to) site)" using honest by (simp add: honest_def)
    have timely: "list_all (\<lambda>g. ok (ag_start_time g)) page"
      using site page by (auto simp: site_ok_def list_all_iff dest: in_set_takeD)
    note covers = page_covers [OF site page st(1)]
    have kept: "stored_to ok site lo hi st'" if "set (so_games st) \<subseteq> set (so_games st')" "stored_to ok site lo hi st" for hi
      using stored_to_mono [OF that(2) order_refl that(1)] .
    from turn far Inr timely show ?thesis
    proof (cases rule: page_turn_outcome)
      case lost
      with kept st show ?thesis by (auto simp: turn_ok_def cursor_ok_def)
    next
      case nothing_new
      with kept covers(1) st show ?thesis by (auto simp: turn_ok_def cursor_ok_def)
    next
      case (further saved)
      let ?newest = "fold max (map starts page) from"
      have new: "from < ?newest" using further(1) covers(2) [OF further(2)] by blast
      have "?newest \<le> ?to + 1" if "length page < pf_page_size c"
        using new fold_max_cases [of "map starts page" "from"] by (auto simp: page in_range_def dest!: in_set_takeD)
      then have newest: "stored_to ok site lo ?newest st'"
        using covers [OF further(2)] stored_to_mono [of ok site lo "?to + 1" st'] by (meson not_less order_refl)
      moreover have "stored_to ok site lo from st'" using kept st(1) further(2) by blast
      ultimately have "turn_ok ok site lo from ?to res st'" using covers [OF further(2)] new further(3) by (auto simp: turn_ok_def)
      moreover have "cursor_ok ok site lo mode st'"
        using newest new further(2,4) st(2) kept by (auto simp: cursor_ok_def)
      ultimately show ?thesis ..
    qed
  qed
qed

definition window_start :: "i32 \<Rightarrow> paipuya_config \<Rightarrow> sync_store \<Rightarrow> int" where
  "window_start mode c st = sweep_from (map_option mc_next_from (so_cursors st mode)) (pf_start_from c)"

lemma sync_loop_covers:
  assumes site: "site_ok ok site (pf_page_size c)" and honest: "\<forall>env \<in> set envs. honest site (pf_page_size c) env \<and> horizon \<le> window_end c env"
    and "stored_to ok site lo from st" "cursor_ok ok site lo mode st" and "sync_loop ok c mode envs from st = (res, st')"
  shows "cursor_ok ok site lo mode st' \<and>
    (res \<in> {Some Reached_End, Some Past_Window, Some Caught_Up} \<longrightarrow> stored_to ok site lo (horizon - 10 * second + 1) st')"
  using honest assms(3-5)
proof (induction envs arbitrary: "from" st)
  case (Cons env envs)
  obtain r st2 where turn: "page_turn ok c mode env from st = (r, st2)" by fastforce
  note ok = page_turn_covers [OF site _ Cons.prems(2,3) turn]
  show ?case
  proof (cases r)
    case (Inl e)
    then have "res = Some e" "st' = st2" using Cons.prems(4) turn by auto
    moreover have "turn_ok ok site lo from (window_end c env) (Inl e) st2" "cursor_ok ok site lo mode st2" "horizon \<le> window_end c env"
      using ok Inl Cons.prems(1) by auto
    ultimately show ?thesis by (cases e) (auto simp: turn_ok_def elim!: stored_to_mono)
  next
    case (Inr f)
    then show ?thesis using Cons.IH [of f st2] Cons.prems turn ok by (auto simp: turn_ok_def)
  qed
qed simp


definition site_game :: "int \<Rightarrow> api_game" where
  "site_game t = \<lparr>ag_uuid = ''u'' @ show_nat (nat t), ag_mode_id = 8, ag_start_time = t, ag_end_time = t + 60, ag_players = [\<lparr>al_account_id = 1, al_nickname = ''a'', al_score = 25000\<rparr>]\<rparr>"

definition sample_site :: "api_game list" where
  "sample_site = [site_game 100, site_game 105]"

definition sample_sync :: paipuya_config where
  "sample_sync = \<lparr>pf_revision = 1, pf_enabled = True, pf_base_url = ''https://site'', pf_api_key = Some ''key'', pf_api_key_header = ''x'', pf_modes = [8],
     pf_start_from = 0, pf_sync_until = Some (1000 * second), pf_request_interval_ms = 200, pf_concurrency = 2, pf_page_size = 2\<rparr>"

definition site_env :: page_env where
  "site_env = \<lparr>pe_now = 0, pe_page = \<lambda>from to. Inr (take 2 (filter (in_range from to) sample_site)), pe_inserted = Done, pe_saved = Done\<rparr>"

definition empty_store :: sync_store where
  "empty_store = \<lparr>so_games = [], so_cursors = Map.empty, so_progress = no_progress\<rparr>"

lemma sample_site_ok: "site_ok (\<lambda>_. True) sample_site (pf_page_size sample_sync)"
  by (simp add: site_ok_def sample_site_def site_game_def sample_sync_def)

lemma sample_runs: "fst (sync_mode (\<lambda>_. True) sample_sync 8 True [site_env, site_env] empty_store) = Some Caught_Up"
  by (simp add: sync_mode_def empty_store_def sweep_from_def page_turn_def sample_sync_def site_env_def num_seconds_less in_range_def sample_site_def
      site_game_def into_game_def at_second_def insert_paipuya_games_def set_paipuya_cursor_def numeral_2_eq_2)


section \<open>A mode ends\<close>

lemma scan_page_newest:
  "scan_page ok page games without newest = (gs, n, latest) \<Longrightarrow> latest = newest \<or> (newest < latest \<and> second dvd latest)"
proof (induction page arbitrary: games without newest)
  case (Cons g page)
  have started: "second dvd pg_started_at x" if "into_game ok g = Some x" for x
    using that by (auto simp: into_game_def at_second_def split: if_splits)
  have at: "second dvd t" if "at_second ok (ag_start_time g) = Some t" for t using that by (auto simp: at_second_def split: if_splits)
  have rest: "latest = m \<or> (m < latest \<and> second dvd latest)" if "scan_page ok page gs' n' m = (gs, n, latest)" for gs' n' m
    using Cons.IH that by blast
  have join: "latest = newest \<or> (newest < latest \<and> second dvd latest)"
    if "second dvd t" and "latest = max newest t \<or> (max newest t < latest \<and> second dvd latest)" for t
    using that by (auto simp: max_def split: if_splits)
  show ?case
  proof (cases "into_game ok g")
    case None
    then show ?thesis
    proof (cases "at_second ok (ag_start_time g)")
      case (Some t)
      then show ?thesis using Cons.prems None rest [of games "without + 1" "max newest t"] at join [of t] by simp
    qed (use Cons.prems None rest [of games "without + 1" newest] in simp)
  next
    case (Some x)
    then show ?thesis using Cons.prems rest [of "games @ [x]" without "max newest (pg_started_at x)"] started join [of "pg_started_at x"] by simp
  qed
qed simp

lemma page_turn_further:
  assumes "page_turn ok c mode env from st = (Inr f, st')"
  shows "from div second < f div second \<and> from + 10 * second \<le> window_end c env"
proof -
  have far: "\<not> num_seconds (window_end c env - from) < 10"
    using assms by (auto simp: page_turn_def Let_def simp flip: window_end_def split: if_splits)
  then obtain page where page: "pe_page env from (window_end c env) = Inr page"
    using assms by (cases "pe_page env from (window_end c env)") (auto simp: page_turn_def Let_def simp flip: window_end_def split: if_splits)
  obtain gs n latest where scan: "scan_page ok page [] 0 from = (gs, n, latest)" using prod_cases3 by blast
  have f: "f = (if from < latest then latest else from + second)"
    using assms far page by (auto simp: page_turn_def scan Let_def simp flip: window_end_def split: if_splits prod.splits)
  have "from div second < f div second"
  proof (cases "from < latest")
    case True
    then obtain k where "latest = second * k" using scan_page_newest [OF scan] by (auto elim: dvdE)
    then have latest: "second * (latest div second) = latest" by simp
    have "from = second * (from div second) + from mod second" "0 \<le> from mod second" by simp_all
    with latest True show ?thesis unfolding f by simp
  qed (simp add: f)
  with far show ?thesis by (simp add: num_seconds_less)
qed

lemma sync_loop_ends:
  assumes "\<forall>env \<in> set envs. window_end c env \<le> horizon" and "nat (horizon div second - from div second) < length envs"
  shows "\<exists>e st'. sync_loop ok c mode envs from st = (Some e, st')"
  using assms
proof (induction envs arbitrary: "from" st)
  case (Cons env envs)
  obtain r st2 where turn: "page_turn ok c mode env from st = (r, st2)" by fastforce
  show ?case
  proof (cases r)
    case (Inr f)
    note further = page_turn_further [OF turn [unfolded Inr]]
    have "from + second \<le> horizon" using further Cons.prems(1) by simp
    then have "(from + second) div second \<le> horizon div second" by (intro zdiv_mono1) simp_all
    moreover have "(from + second) div second = from div second + 1" by (rule div_add_self2) simp
    ultimately have "nat (horizon div second - f div second) < length envs" using further Cons.prems(2) by (simp add: nat_less_iff) linarith
    then show ?thesis using Cons.IH [of f st2] Cons.prems(1) turn Inr by simp
  qed (use turn in auto)
qed simp

text \<open>A mode is never walked for ever. Every page that asks for another one moves the start of the range on by at least a second, whatever the
  site answers, so that a window that ends is walked in at most as many pages as it has seconds, plus one.\<close>

theorem sync_mode_ends:
  assumes "\<forall>env \<in> set envs. window_end c env \<le> horizon"
    and "nat (horizon div second - window_start mode c st div second) < length envs"
  shows "\<exists>e st'. sync_mode ok c mode looked_up envs st = (Some e, st')"
  using sync_loop_ends [OF assms] by (auto simp: sync_mode_def window_start_def)

theorem sync_mode_ends_witness:
  "\<exists>e st'. sync_mode (\<lambda>_. True) sample_sync 8 True (replicate 1001 site_env) empty_store = (Some e, st')"
  by (rule sync_mode_ends [of "replicate 1001 site_env" sample_sync "1000 * second" 8 empty_store])
    (simp_all add: window_end_def sample_sync_def window_start_def empty_store_def sweep_from_def)

section \<open>A run reports its end\<close>

definition run_ok :: "paipuya_supervisor \<Rightarrow> paipuya_supervisor \<times> sync_run \<times> i32 set \<Rightarrow> bool" where
  "run_ok s0 x \<longleftrightarrow>
     (case x of (s, run, synced) \<Rightarrow> sr_generation run \<le> py_generation s \<and>
        (py_generation s = sr_generation run \<longrightarrow>
           sr_live run = length (filter (\<lambda>w. w \<noteq> Gone) (sr_workers run)) \<and> length (sr_workers run) = pf_concurrency (py_config s0) \<and>
           py_phase s \<in> {Running, Failed, Stopped} \<and>
           (py_phase s \<noteq> Failed \<longrightarrow> set (selected_modes (py_config s0)) \<subseteq> set (sr_queue run) \<union> {m. On m \<in> set (sr_workers run)} \<union> synced) \<and>
           (py_phase s = Stopped \<longrightarrow> sr_live run = 0 \<and> sr_queue run = []) \<and>
           (py_phase s = Running \<longrightarrow> sr_live run = 0 \<longrightarrow> pf_concurrency (py_config s0) = 0) \<and>
           (py_phase s \<noteq> Failed \<longrightarrow> sr_queue run \<noteq> [] \<longrightarrow> Gone \<notin> set (sr_workers run))))"

lemma filter_update:
  "i < length xs \<Longrightarrow> P (xs ! i) \<Longrightarrow> P y \<Longrightarrow> length (filter P (xs[i := y])) = length (filter P xs)"
  "i < length xs \<Longrightarrow> P (xs ! i) \<Longrightarrow> \<not> P y \<Longrightarrow> length (filter P (xs[i := y])) = length (filter P xs) - 1 \<and> 0 < length (filter P xs)"
  by (induction xs arbitrary: i) (auto split: nat.splits)

lemma none_live: "length (filter (\<lambda>w. w \<noteq> Gone) ws) = 0 \<Longrightarrow> i < length ws \<Longrightarrow> ws ! i = Gone"
  by (auto simp: filter_empty_conv)

lemma on_update: "i < length ws \<Longrightarrow> On m \<in> set ws \<Longrightarrow> ws ! i \<noteq> On m \<Longrightarrow> On m \<in> set (ws[i := w])"
  by (metis in_set_conv_nth length_list_update nth_list_update)

lemma last_butlast_set: "xs \<noteq> [] \<Longrightarrow> set xs = insert (last xs) (set (butlast xs))"
  by (metis append_butlast_last_id insert_is_Un list.simps(15) rotate1.simps(2) set_rotate1 Un_insert_right set_append empty_set Un_empty_right)

lemma leave_ok:
  assumes ok: "run_ok s0 (s, run, synced)" and i: "i < length (sr_workers run)" "sr_workers run ! i \<noteq> Gone"
    and rest: "py_generation s = sr_generation run \<Longrightarrow> py_phase s = Failed \<or> (sr_queue run = [] \<and> sr_workers run ! i = Free)"
    and leave: "leave i s run = (s', run')"
  shows "run_ok s0 (s', run', synced)"
proof (cases "py_generation s = sr_generation run")
  case True
  have live: "length (filter (\<lambda>w. w \<noteq> Gone) ((sr_workers run)[i := Gone])) = length (filter (\<lambda>w. w \<noteq> Gone) (sr_workers run)) - 1 \<and>
      0 < length (filter (\<lambda>w. w \<noteq> Gone) (sr_workers run))"
    by (rule filter_update(2)) (use i in simp_all)
  have still: "On m \<in> set ((sr_workers run)[i := Gone])" if "On m \<in> set (sr_workers run)" "sr_workers run ! i = Free" for m
    using on_update [OF i(1) that(1)] that(2) by simp
  note here = ok [unfolded run_ok_def prod.case, THEN conjunct2, rule_format, OF True]
  have run': "run' = run\<lparr>sr_workers := (sr_workers run)[i := Gone], sr_live := sr_live run - 1\<rparr>"
    and s': "s' = (if sr_live run = 1 \<and> py_phase s \<noteq> Failed then s\<lparr>py_phase := Stopped\<rparr> else s)"
    using leave True by (auto simp: leave_def complete_sync_def)
  have counted: "sr_live run' = length (filter (\<lambda>w. w \<noteq> Gone) (sr_workers run'))" "0 < sr_live run"
    using here live by (simp_all add: run')
  show ?thesis
  proof (cases "py_phase s = Failed")
    case True
    then show ?thesis using here counted ok by (simp add: run_ok_def run' s')
  next
    case False
    then have free: "sr_queue run = []" "sr_workers run ! i = Free" using rest [OF True] by simp_all
    have modes: "set (selected_modes (py_config s0)) \<subseteq> {m. On m \<in> set (sr_workers run')} \<union> synced"
      using here False free still by (auto simp: run')
    have phase: "py_phase s = Running" using here False counted(2) by auto
    have "filter (\<lambda>w. w \<noteq> Gone) ((sr_workers run)[i := Gone]) = [] \<longleftrightarrow> length (filter (\<lambda>w. w \<noteq> Gone) (sr_workers run)) = Suc 0"
      unfolding length_0_conv [symmetric] using live by linarith
    then show ?thesis using here counted modes free phase ok by (simp add: run_ok_def run' s')
  qed
qed (use ok leave in \<open>auto simp: run_ok_def leave_def complete_sync_def split: if_splits\<close>)

lemma run_ok_step: "run_step x y \<Longrightarrow> run_ok s0 x \<Longrightarrow> run_ok s0 y"
proof (induction rule: run_step.induct)
  case (take_mode i run s synced)
  let ?m = "last (sr_queue run)"
  have "On m \<in> set ((sr_workers run)[i := On ?m])" if "On m \<in> set (sr_workers run)" for m
    using on_update [OF take_mode(1) that] take_mode(2) by simp
  moreover have "On ?m \<in> set ((sr_workers run)[i := On ?m])" using take_mode(1) by (simp add: set_update_memI)
  moreover have "Gone \<in> set ((sr_workers run)[i := On ?m]) \<Longrightarrow> Gone \<in> set (sr_workers run)"
    using set_update_subset_insert by fastforce
  ultimately show ?case
    using take_mode filter_update(1) [of i "sr_workers run" "\<lambda>w. w \<noteq> Gone" "On ?m"] last_butlast_set [OF take_mode(3)]
    by (auto simp: run_ok_def)
next
  case (superseded i run s s' run' synced)
  then show ?case by (auto simp: run_ok_def leave_def complete_sync_def split: if_splits)
next
  case (no_mode i run s s' run' synced)
  then show ?case by (intro leave_ok [OF no_mode(5) no_mode(1) _ _ no_mode(4)]) auto
next
  case (mode_done i run mode s synced)
  have "On m \<in> set ((sr_workers run)[i := Free])" if "On m \<in> set (sr_workers run)" "m \<noteq> mode" for m
    using on_update [OF mode_done(1) that(1)] mode_done(2) that(2) by simp
  moreover have "Gone \<in> set ((sr_workers run)[i := Free]) \<Longrightarrow> Gone \<in> set (sr_workers run)"
    using set_update_subset_insert by fastforce
  ultimately show ?case
    using mode_done filter_update(1) [of i "sr_workers run" "\<lambda>w. w \<noteq> Gone" Free] by (auto simp: run_ok_def)
next
  case (mode_failed i run mode message s s' run' synced)
  have "run_ok s0 (fail_sync message s, run, synced)" using mode_failed(4) by (simp add: run_ok_def fail_sync_def)
  then show ?case using mode_failed(1,2) by (intro leave_ok [OF _ mode_failed(1) _ _ mode_failed(3)]) (simp_all add: fail_sync_def)
next
  case (stop_begins s run synced)
  then show ?case by (simp add: run_ok_def begin_stop_def)
next
  case (stop_ends s run synced)
  then show ?case by (simp add: run_ok_def end_stop_def)
qed

lemma run_ok_reachable: "run_reachable s0 x \<Longrightarrow> run_ok s0 x"
proof (induction rule: run_reachable.induct)
  case (run_started s run)
  then show ?case by (auto simp: start_sync_def run_ok_def Let_def)
qed (rule run_ok_step)

text \<open>The state shown of a run is what happened. However its workers interleave, as long as it is the current run: it is shown as stopped only once
  every selected mode was walked to its end and no worker is left, and once no worker is left it is not shown as running any more.\<close>

theorem run_end_is_reported:
  assumes "run_reachable s0 (s, run, synced)" and "py_generation s = sr_generation run" and "1 \<le> pf_concurrency (py_config s0)"
  shows "(py_phase s = Stopped \<longrightarrow> set (selected_modes (py_config s0)) \<subseteq> synced \<and> set (sr_workers run) = {Gone}) \<and>
    (set (sr_workers run) = {Gone} \<longrightarrow> py_phase s = Stopped \<or> py_phase s = Failed)"
proof -
  note ok = run_ok_reachable [OF assms(1), unfolded run_ok_def prod.case, THEN conjunct2, rule_format, OF assms(2)]
  have all: "set (sr_workers run) = {Gone} \<longleftrightarrow> sr_live run = 0"
    using ok assms(3) by (cases "sr_workers run") (auto simp: filter_empty_conv)
  have gone: "On m \<notin> set (sr_workers run)" if "set (sr_workers run) = {Gone}" for m using that by simp
  show ?thesis
  proof (intro conjI impI)
    assume "py_phase s = Stopped"
    with ok all show "set (selected_modes (py_config s0)) \<subseteq> synced" "set (sr_workers run) = {Gone}" by auto
  next
    assume "set (sr_workers run) = {Gone}"
    with ok all assms(3) show "py_phase s = Stopped \<or> py_phase s = Failed" by auto
  qed
qed

definition idle_supervisor :: paipuya_supervisor where
  "idle_supervisor = \<lparr>py_config = sample_sync, py_file = None, py_phase = Stopped, py_active_revision = None, py_last_error = None, py_generation = 0,
     py_tasks = False\<rparr>"

definition two_workers :: "sync_worker \<Rightarrow> sync_worker \<Rightarrow> i32 list \<Rightarrow> nat \<Rightarrow> sync_run" where
  "two_workers a b queue live = \<lparr>sr_generation = 1, sr_queue = queue, sr_workers = [a, b], sr_live = live\<rparr>"

definition running_sample :: "service_phase \<Rightarrow> paipuya_supervisor" where
  "running_sample phase = idle_supervisor\<lparr>py_generation := 1, py_phase := phase, py_active_revision := Some 1, py_tasks := True\<rparr>"

lemmas sample_run_defs = two_workers_def running_sample_def idle_supervisor_def

lemma sample_run_ends: "run_reachable idle_supervisor (running_sample Stopped, two_workers Gone Gone [] 0, {8})"
proof -
  have "start_sync idle_supervisor = (running_sample Running, two_workers Free Free [8] 2)"
    by (simp add: start_sync_def sample_run_defs sample_sync_def selected_modes_def Let_def numeral_2_eq_2)
  note a = run_started [OF this]
  have b: "run_reachable idle_supervisor (running_sample Running, two_workers (On 8) Free [] 2, {})"
    using run_further [OF a take_mode [of 0]] by (simp add: sample_run_defs)
  have c: "run_reachable idle_supervisor (running_sample Running, two_workers (On 8) Gone [] 1, {})"
    by (rule run_further [OF b no_mode [of 1]]) (simp_all add: sample_run_defs leave_def)
  have d: "run_reachable idle_supervisor (running_sample Running, two_workers Free Gone [] 1, {8})"
    using run_further [OF c mode_done [of 0 _ 8]] by (simp add: sample_run_defs)
  show ?thesis
    by (rule run_further [OF d no_mode [of 0]]) (simp_all add: sample_run_defs leave_def complete_sync_def)
qed

theorem run_end_is_reported_witness:
  "py_phase (running_sample Stopped) = Stopped \<and> set (selected_modes sample_sync) \<subseteq> {8}"
  using run_end_is_reported [OF sample_run_ends] by (simp add: sample_run_defs sample_sync_def)

section \<open>Saving the settings\<close>

text \<open>A console that saves the settings it was shown keeps the key, whatever else it changes, and never sees it.\<close>

lemma saved_key_survives:
  assumes "update_paipuya url_scheme header_ok written submitted s = (Inr shown, s')"
    and "pf_api_key submitted = pf_api_key (published_paipuya (py_config s))" and "pf_api_key (py_config s) \<noteq> Some []"
  shows "pf_api_key (py_config s') = pf_api_key (py_config s) \<and> pf_api_key shown = pf_api_key submitted \<and> py_file s' = Some (py_config s') \<and>
    pf_revision (py_config s') = saturating_next (pf_revision (py_config s))"
  using assms
  by (auto simp: update_paipuya_def published_paipuya_def redacted_secret_def restored_secret_def Let_def start_sync_def stop_sync_def end_stop_def
      begin_stop_def split: sum.splits if_splits option.splits)

end
