(* ===== verification/Mihomo.thy ===== *)
theory Mihomo
  imports Accounts Json "HOL-Library.Product_Lexorder" "HOL-Library.List_Lexorder" "HOL-Library.Char_ord"
begin

text \<open>
  \<^verbatim>\<open>src/mihomo.rs\<close>: the exits of the deployment. The manager gives every node an account is bound to a port of its own, generates
  the configuration of the proxy, has the proxy read it, and hands out an address only once the proxy has confirmed it; it also
  keeps the subscriptions, reads the nodes with their state, and counts what they carry. What the controller answers and which
  files could be written are arguments; the parser of addresses and the reading of a decimal number are parameters.
\<close>

section \<open>Lanes and slots\<close>

datatype mihomo_lane = Watch_Lane | Refetch_Lane

definition lane_group :: "mihomo_lane \<Rightarrow> string" where
  "lane_group lane = (case lane of Watch_Lane \<Rightarrow> ''MAJSOUL-WATCH'' | Refetch_Lane \<Rightarrow> ''MAJSOUL-REFETCH'')"

definition lane_port :: "mihomo_lane \<Rightarrow> nat" where
  "lane_port lane = (case lane of Watch_Lane \<Rightarrow> 7891 | Refetch_Lane \<Rightarrow> 7892)"

definition lane_listener :: "mihomo_lane \<Rightarrow> string" where
  "lane_listener lane = (case lane of Watch_Lane \<Rightarrow> ''majsoul-watch-in'' | Refetch_Lane \<Rightarrow> ''majsoul-refetch-in'')"

definition all_lanes :: "mihomo_lane list" where
  "all_lanes = [Watch_Lane, Refetch_Lane]"

definition group_name :: string where
  "group_name = ''MAJSOUL''"

definition outbound_port_base :: nat where
  "outbound_port_base = 7900"

definition reserved_ports :: "nat list" where
  "reserved_ports = [9090]"

definition max_outbounds :: nat where
  "max_outbounds = 65535 - outbound_port_base"

definition outbound_group :: "nat \<Rightarrow> string" where
  "outbound_group slot = ''MAJSOUL-OUT-'' @ show_nat slot"

definition outbound_port :: "nat \<Rightarrow> nat" where
  "outbound_port slot = outbound_port_base + slot"

type_synonym slots = "string \<rightharpoonup> nat"

function free_slot :: "nat set \<Rightarrow> nat \<Rightarrow> nat option" where
  "free_slot taken slot =
     (if max_outbounds < slot then None
      else if slot \<notin> taken \<and> outbound_port slot \<notin> set reserved_ports then Some slot
      else free_slot taken (slot + 1))"
  by auto

termination
  by (relation "measure (\<lambda>(taken, slot). max_outbounds + 1 - slot)") auto

declare free_slot.simps [simp del]

fun refile_loop :: "string list \<Rightarrow> slots \<Rightarrow> nat set \<Rightarrow> slots" where
  "refile_loop [] slots taken = slots"
| "refile_loop (node # nodes) slots taken =
     (if slots node \<noteq> None then refile_loop nodes slots taken
      else case free_slot taken 1 of
        None \<Rightarrow> slots
      | Some slot \<Rightarrow> refile_loop nodes (slots(node \<mapsto> slot)) (insert slot taken))"

definition refile :: "string list \<Rightarrow> slots \<Rightarrow> slots" where
  "refile nodes slots = (let kept = slots |` set nodes in refile_loop nodes kept (ran kept))"

section \<open>Nodes\<close>

text \<open>The price a node's name advertises. The decimal numbers are those of a type with an order, one of which is par.\<close>

record 'f decimals =
  de_parse :: "string \<Rightarrow> 'f option"
  de_plausible :: "'f \<Rightarrow> bool"
  de_one :: 'f

definition is_marker :: "string \<Rightarrow> bool" where
  "is_marker c \<longleftrightarrow> c \<in> {''x'', ''X'', [CHR 0xC3, CHR 0x97], [CHR 0xE5, CHR 0x80, CHR 0x8D]}"

definition is_filler :: "string \<Rightarrow> bool" where
  "is_filler c \<longleftrightarrow> c \<in> {'' '', '':'', [CHR 0xEF, CHR 0xBC, CHR 0x9A], ''='', [CHR 0xE7, CHR 0x8E, CHR 0x87], [CHR 0xE6, CHR 0x95, CHR 0xB0]}"

definition is_figure :: "string \<Rightarrow> bool" where
  "is_figure c \<longleftrightarrow> c = ''.'' \<or> (\<exists>d \<in> set ''0123456789''. c = [d])"

definition number_after :: "'f decimals \<Rightarrow> string list \<Rightarrow> nat \<Rightarrow> 'f option" where
  "number_after de chars start = de_parse de (concat (takeWhile is_figure (dropWhile is_filler (drop start chars))))"

definition number_before :: "'f decimals \<Rightarrow> string list \<Rightarrow> nat \<Rightarrow> 'f option" where
  "number_before de chars stop = de_parse de (concat (rev (takeWhile is_figure (rev (take stop chars)))))"

definition weigh :: "'f::linorder decimals \<Rightarrow> 'f option \<Rightarrow> 'f option \<Rightarrow> 'f option" where
  "weigh de candidate found =
     (case candidate of
        Some value \<Rightarrow> if de_plausible de value then Some (case found of None \<Rightarrow> value | Some best \<Rightarrow> max best value) else found
      | None \<Rightarrow> found)"

fun multiplier_loop :: "'f::linorder decimals \<Rightarrow> string list \<Rightarrow> nat list \<Rightarrow> 'f option \<Rightarrow> 'f option" where
  "multiplier_loop de chars [] found = found"
| "multiplier_loop de chars (index # rest) found =
     (if \<not> is_marker (chars ! index) then multiplier_loop de chars rest found
      else multiplier_loop de chars rest
        (weigh de (number_before de chars index) (weigh de (number_after de chars (index + 1)) found)))"

definition node_multiplier :: "'f::linorder decimals \<Rightarrow> string \<Rightarrow> 'f" where
  "node_multiplier de name =
     (let chars = str_chars name
      in case multiplier_loop de chars [0..<length chars] None of Some m \<Rightarrow> m | None \<Rightarrow> de_one de)"

record 'f mihomo_node =
  mn_name :: string
  mn_node_type :: string
  mn_multiplier :: 'f
  mn_bytes :: u64
  mn_alive :: "bool option"
  mn_delay_ms :: "nat option"
  mn_selected :: bool
  mn_subscription :: string

definition delay_or_max :: "'f mihomo_node \<Rightarrow> nat" where
  "delay_or_max node = (case mn_delay_ms node of Some d \<Rightarrow> d | None \<Rightarrow> 2 ^ 64 - 1)"

definition usable_nodes :: "'f::linorder \<Rightarrow> 'f mihomo_node list \<Rightarrow> string list" where
  "usable_nodes max_multiplier nodes =
     map mn_name
       (sort_key (\<lambda>node. (delay_or_max node, mn_name node))
         (filter (\<lambda>node. mn_multiplier node \<le> max_multiplier) (filter (\<lambda>node. mn_alive node = Some True) nodes)))"

section \<open>Subscriptions\<close>

record url =
  ur_scheme :: string
  ur_host :: "string option"
  ur_port :: "nat option"

record stored_subscription =
  ss_id :: string
  ss_label :: string
  ss_prefix :: "string option"
  ss_url :: string
  ss_update_interval_secs :: u64

record subscription_update =
  su_url :: string
  su_update_interval_secs :: u64
  su_label :: "string option"
  su_id :: "string option"

datatype mihomo_error = Invalid_Config string | Controller_Error string | Io_Error

record traffic =
  tr_total :: "string \<rightharpoonup> u64"
  tr_counted :: "string \<rightharpoonup> u64"

record mihomo_manager =
  mh_proxy_url :: string
  mh_secret :: string
  mh_lanes_ready :: bool
  mh_slots_ready :: bool
  mh_slots :: slots
  mh_leased :: "string list"
  mh_subscriptions :: "stored_subscription list"
  mh_traffic :: traffic
  mh_outbounds_file :: "slots option"
  mh_subscription_file :: "stored_subscription list option"
  mh_config_file :: "string option"

definition legacy_provider :: string where
  "legacy_provider = ''majsoul''"

definition max_subscriptions :: nat where
  "max_subscriptions = 16"

definition prefix_text :: "stored_subscription \<Rightarrow> string" where
  "prefix_text s = (case ss_prefix s of Some p \<Rightarrow> p | None \<Rightarrow> [])"

definition validate_subscription :: "(string \<Rightarrow> url option) \<Rightarrow> subscription_update \<Rightarrow> mihomo_error + unit" where
  "validate_subscription parse_url upd =
     (case parse_url (su_url upd) of
        None \<Rightarrow> Inl (Invalid_Config ''url'')
      | Some u \<Rightarrow>
          if ur_scheme u \<notin> {''https'', ''http''} \<or> ur_host u = None then Inl (Invalid_Config ''subscription URL must be HTTP or HTTPS'')
          else if \<not> (300 \<le> su_update_interval_secs upd \<and> su_update_interval_secs upd \<le> 604800)
          then Inl (Invalid_Config ''update interval must be between 300 and 604800 seconds'')
          else Inr ())"

definition redacted_host :: "(string \<Rightarrow> url option) \<Rightarrow> string \<Rightarrow> string option" where
  "redacted_host parse_url v =
     (case parse_url v of
        None \<Rightarrow> None
      | Some u \<Rightarrow> map_option (\<lambda>host. case ur_port u of Some port \<Rightarrow> host @ '':'' @ show_nat port | None \<Rightarrow> host) (ur_host u))"

section \<open>The generated configuration\<close>

text \<open>The text the proxy reads. \<open>quote\<close> is the JSON encoding of a string.\<close>

definition text_lines :: "string list \<Rightarrow> string" where
  "text_lines ls = concat (map (\<lambda>l. l @ [CHR 10]) ls)"

definition provider_entry :: "(string \<Rightarrow> string) \<Rightarrow> stored_subscription \<Rightarrow> string" where
  "provider_entry quote s =
     text_lines ([''  '' @ ss_id s @ '':'', ''    type: http'', ''    url: '' @ quote (ss_url s), ''    path: ./providers/'' @ ss_id s @ ''.yaml'',
       ''    interval: '' @ show_nat (unat (ss_update_interval_secs s))] @
      (if prefix_text s = [] then [] else [''    override:'', ''      additional-prefix: '' @ quote (prefix_text s)]) @
      [''    health-check:'', ''      enable: true'', ''      url: https://game.maj-soul.com/1/version.json'', ''      interval: 300'',
       ''      timeout: 10000'', ''      lazy: false'', ''      expected-status: 200''])"

definition provider_block :: "(string \<Rightarrow> string) \<Rightarrow> stored_subscription list \<Rightarrow> string" where
  "provider_block quote subscriptions =
     (if subscriptions = [] then [] else text_lines [[], ''proxy-providers:''] @ concat (map (provider_entry quote) subscriptions))"

definition provider_use :: "stored_subscription list \<Rightarrow> string" where
  "provider_use subscriptions =
     (if subscriptions = [] then [] else text_lines (''    use:'' # map (\<lambda>s. ''      - '' @ ss_id s) subscriptions))"

definition select_group :: "stored_subscription list \<Rightarrow> string \<Rightarrow> string" where
  "select_group subscriptions name =
     text_lines [''  - name: '' @ name, ''    type: select'', ''    proxies:'', ''      - '' @ group_name, ''      - DIRECT''] @ provider_use subscriptions"

definition listener_block :: "string \<times> nat \<times> string \<Rightarrow> string" where
  "listener_block l =
     (case l of (name, port, grp) \<Rightarrow>
        text_lines [''  - name: '' @ name, ''    type: mixed'', ''    port: '' @ show_nat port, ''    listen: 0.0.0.0'', ''    proxy: '' @ grp])"

definition slot_list :: "slots \<Rightarrow> nat list" where
  "slot_list slots = sorted_list_of_set (ran slots)"

definition lane_listeners :: "(string \<times> nat \<times> string) list" where
  "lane_listeners = map (\<lambda>lane. (lane_listener lane, lane_port lane, lane_group lane)) all_lanes"

definition outbound_listeners :: "slots \<Rightarrow> (string \<times> nat \<times> string) list" where
  "outbound_listeners slots =
     map (\<lambda>slot. (''majsoul-out-'' @ show_nat slot @ ''-in'', outbound_port slot, outbound_group slot)) (slot_list slots)"

definition em_dash :: string where
  "em_dash = [CHR 0xE2, CHR 0x80, CHR 0x94]"

definition config_head :: "string list" where
  "config_head =
     [''mixed-port: 7890'', ''allow-lan: true'', ''bind-address: \"*\"'', ''mode: rule'', ''log-level: info'', ''ipv6: false'',
      ''external-controller: 0.0.0.0:9090'',
      ''# Selections survive a restart. Without it mihomo resets every select group to'',
      ''# its first entry '' @ em_dash @ '' DIRECT '' @ em_dash @ '' whenever the container comes back, so a deployment'',
      ''# would silently start collecting from the host'' @ [CHR 0x27] @ ''s own address until somebody'',
      ''# noticed and re-picked. That was true of the single group before the split and'',
      ''# would have been true of all three after it.'', ''profile:'', ''  store-selected: true'']"

definition runtime_config :: "(string \<Rightarrow> string) \<Rightarrow> mihomo_manager \<Rightarrow> string" where
  "runtime_config quote m =
     (let subs = mh_subscriptions m
      in text_lines (config_head @ [''secret: '' @ quote (mh_secret m)]) @ provider_block quote subs @
         text_lines [[], ''proxy-groups:'', ''  - name: '' @ group_name, ''    type: select'', ''    proxies:'', ''      - DIRECT''] @
         provider_use subs @ concat (map (select_group subs \<circ> lane_group) all_lanes) @
         concat (map (select_group subs \<circ> outbound_group) (slot_list (mh_slots m))) @
         text_lines [''listeners:''] @ concat (map listener_block (lane_listeners @ outbound_listeners (mh_slots m))) @
         text_lines [''rules:'', ''  - MATCH,'' @ group_name])"

definition write_runtime_config :: "(string \<Rightarrow> string) \<Rightarrow> bool \<Rightarrow> mihomo_manager \<Rightarrow> (mihomo_error + unit) \<times> mihomo_manager" where
  "write_runtime_config quote written m =
     (if written then (Inr (), m\<lparr>mh_config_file := Some (runtime_config quote m)\<rparr>) else (Inl Io_Error, m))"

section \<open>Exits\<close>

definition proxy_url_for :: "(string \<Rightarrow> nat \<Rightarrow> string option) \<Rightarrow> mihomo_lane \<Rightarrow> mihomo_manager \<Rightarrow> string" where
  "proxy_url_for port_url lane m =
     (if \<not> mh_lanes_ready m then mh_proxy_url m
      else case port_url (mh_proxy_url m) (lane_port lane) of Some u \<Rightarrow> u | None \<Rightarrow> mh_proxy_url m)"

definition proxy_url_for_node :: "(string \<Rightarrow> nat \<Rightarrow> string option) \<Rightarrow> string \<Rightarrow> mihomo_manager \<Rightarrow> string option" where
  "proxy_url_for_node port_url node m =
     (if \<not> mh_slots_ready m then None
      else Option.bind (mh_slots m (str_trim node)) (\<lambda>slot. port_url (mh_proxy_url m) (outbound_port slot)))"

fun add_leased :: "string list \<Rightarrow> string list \<Rightarrow> string list" where
  "add_leased [] wanted = wanted"
| "add_leased (node # leased) wanted = add_leased leased (if node \<in> set wanted then wanted else wanted @ [node])"

text \<open>\<open>slots_written\<close> and \<open>config_written\<close> are the fates of the two files.\<close>

definition set_outbound_nodes ::
  "(string \<Rightarrow> string) \<Rightarrow> bool \<Rightarrow> bool \<Rightarrow> string list \<Rightarrow> mihomo_manager \<Rightarrow> (mihomo_error + bool) \<times> mihomo_manager" where
  "set_outbound_nodes quote slots_written config_written nodes m =
     (let next_slots = refile (add_leased (mh_leased m) nodes) (mh_slots m);
          changed = (next_slots \<noteq> mh_slots m);
          m = m\<lparr>mh_slots := next_slots\<rparr>
      in if \<not> changed then (Inr False, m)
         else if \<not> slots_written then (Inl Io_Error, m)
         else let m = m\<lparr>mh_outbounds_file := Some next_slots, mh_slots_ready := False\<rparr>
              in case write_runtime_config quote config_written m of
                (Inl e, m) \<Rightarrow> (Inl e, m)
              | (Inr _, m) \<Rightarrow> (Inr True, m))"

definition lease_outbound_nodes ::
  "(string \<Rightarrow> string) \<Rightarrow> bool \<Rightarrow> bool \<Rightarrow> string list \<Rightarrow> string list \<Rightarrow> mihomo_manager \<Rightarrow> (mihomo_error + bool) \<times> mihomo_manager" where
  "lease_outbound_nodes quote slots_written config_written nodes held m =
     set_outbound_nodes quote slots_written config_written held (m\<lparr>mh_leased := nodes\<rparr>)"

definition release_outbound_nodes ::
  "(string \<Rightarrow> string) \<Rightarrow> bool \<Rightarrow> bool \<Rightarrow> string list \<Rightarrow> mihomo_manager \<Rightarrow> (mihomo_error + bool) \<times> mihomo_manager" where
  "release_outbound_nodes quote slots_written config_written held m =
     set_outbound_nodes quote slots_written config_written held (m\<lparr>mh_leased := []\<rparr>)"

text \<open>One attempt to have the proxy read its configuration: whether it accepted the reload, the groups it then lists, and which
  selections it takes.\<close>

record config_attempt =
  tt_reloaded :: bool
  tt_proxies :: "json option"
  tt_selects :: "string \<Rightarrow> string \<Rightarrow> bool"

definition proxies_of :: "json \<Rightarrow> (string \<times> json) list option" where
  "proxies_of v = (case json_get ''proxies'' v of Some (JObject kvs) \<Rightarrow> Some kvs | _ \<Rightarrow> None)"

definition lane_groups_present :: "json option \<Rightarrow> bool" where
  "lane_groups_present answer =
     (case Option.bind answer proxies_of of
        None \<Rightarrow> False
      | Some proxies \<Rightarrow> list_all (\<lambda>lane. map_of proxies (lane_group lane) \<noteq> None) all_lanes)"

text \<open>The assignments are read once, before the first selection, and the answer is stored after the last.\<close>

definition confirm_selections :: "(string \<Rightarrow> string \<Rightarrow> bool) \<Rightarrow> slots \<Rightarrow> mihomo_manager \<Rightarrow> mihomo_manager" where
  "confirm_selections selects assignments m =
     m\<lparr>mh_slots_ready := (\<forall>node \<in> dom assignments. selects (outbound_group (the (assignments node))) node)\<rparr>"

definition apply_outbound_selections :: "(string \<Rightarrow> string \<Rightarrow> bool) \<Rightarrow> mihomo_manager \<Rightarrow> mihomo_manager" where
  "apply_outbound_selections selects m = confirm_selections selects (mh_slots m) m"

fun apply_attempts :: "config_attempt list \<Rightarrow> mihomo_manager \<Rightarrow> mihomo_manager" where
  "apply_attempts [] m = m"
| "apply_attempts (a # as) m =
     (if tt_reloaded a \<and> lane_groups_present (tt_proxies a)
      then apply_outbound_selections (tt_selects a) (m\<lparr>mh_lanes_ready := True\<rparr>)
      else apply_attempts as m)"

definition lane_attempts :: nat where
  "lane_attempts = 12"

definition apply_runtime_config :: "config_attempt list \<Rightarrow> mihomo_manager \<Rightarrow> mihomo_manager" where
  "apply_runtime_config attempts m = apply_attempts (take lane_attempts attempts) m"

section \<open>Reading the nodes\<close>

record lane_status =
  ls_lane :: mihomo_lane
  ls_group :: string
  ls_proxy_url :: string
  ls_selected_node :: "string option"
  ls_effective_node :: "string option"
  ls_follows_shared :: bool
  ls_available :: bool

record outbound_status =
  os_node :: string
  os_group :: string
  os_proxy_url :: string
  os_selected_node :: "string option"
  os_available :: bool

definition group_now :: "json option \<Rightarrow> string option" where
  "group_now grp = Option.bind (Option.bind grp (json_get ''now'')) as_str"

definition lane_status_of :: "(string \<Rightarrow> nat \<Rightarrow> string option) \<Rightarrow> (string \<times> json) list \<Rightarrow> mihomo_manager \<Rightarrow> mihomo_lane \<Rightarrow> lane_status" where
  "lane_status_of port_url proxies m lane =
     (let grp = map_of proxies (lane_group lane); selected = group_now grp; follows = (selected = Some group_name)
      in \<lparr>ls_lane = lane, ls_group = lane_group lane, ls_proxy_url = proxy_url_for port_url lane m, ls_selected_node = selected,
          ls_effective_node = (if follows then group_now (map_of proxies group_name) else selected), ls_follows_shared = follows,
          ls_available = (grp \<noteq> None)\<rparr>)"

definition outbound_status_of ::
  "(string \<Rightarrow> nat \<Rightarrow> string option) \<Rightarrow> (string \<times> json) list \<Rightarrow> mihomo_manager \<Rightarrow> slots \<Rightarrow> string \<Rightarrow> outbound_status" where
  "outbound_status_of port_url proxies m assignments node =
     (let slot = the (assignments node); present = map_of proxies (outbound_group slot)
      in \<lparr>os_node = node, os_group = outbound_group slot,
          os_proxy_url = (case port_url (mh_proxy_url m) (outbound_port slot) of Some u \<Rightarrow> u | None \<Rightarrow> mh_proxy_url m),
          os_selected_node = group_now present, os_available = (present \<noteq> None)\<rparr>)"

definition confirmed_by :: "outbound_status \<Rightarrow> bool" where
  "confirmed_by out \<longleftrightarrow> os_available out \<and> os_selected_node out = Some (os_node out)"

definition provider_names :: "(string \<Rightarrow> json option) \<Rightarrow> string list \<Rightarrow> (string \<times> string) list" where
  "provider_names provider ids =
     concat (map (\<lambda>id. case provider id of
         None \<Rightarrow> []
       | Some v \<Rightarrow> map (\<lambda>name. (name, id))
           (List.map_filter (\<lambda>node. Option.bind (json_get ''name'' node) as_str)
             (case Option.bind (json_get ''proxies'' v) as_array of Some xs \<Rightarrow> xs | None \<Rightarrow> []))) ids)"

definition node_of :: "'f::linorder decimals \<Rightarrow> string option \<Rightarrow> traffic \<Rightarrow> json \<Rightarrow> string \<times> string \<Rightarrow> 'f mihomo_node" where
  "node_of de selected carried entry named =
     (case named of (name, subscription) \<Rightarrow>
        \<lparr>mn_name = name, mn_node_type = (case Option.bind (json_get ''type'' entry) as_str of Some t \<Rightarrow> t | None \<Rightarrow> ''Unknown''),
         mn_multiplier = node_multiplier de name, mn_bytes = (case tr_total carried name of Some b \<Rightarrow> b | None \<Rightarrow> 0),
         mn_alive = Option.bind (json_get ''alive'' entry) as_bool,
         mn_delay_ms = Option.bind (Option.bind (Option.bind (Option.bind (json_get ''history'' entry) as_array) last_opt) (json_get ''delay'')) as_u64,
         mn_selected = (selected = Some name), mn_subscription = subscription\<rparr>)"

definition nodes_of :: "'f::linorder decimals \<Rightarrow> (string \<times> json) list \<Rightarrow> traffic \<Rightarrow> (string \<times> string) list \<Rightarrow> 'f mihomo_node list" where
  "nodes_of de proxies carried named =
     (let selected = group_now (map_of proxies group_name)
      in sort_key (\<lambda>n. (\<not> mn_selected n, delay_or_max n, mn_name n))
           (List.map_filter (\<lambda>nm. map_option (\<lambda>entry. node_of de selected carried entry nm) (map_of proxies (fst nm))) named))"

text \<open>\<open>proxies\<close> is the answer to the list of proxies, \<open>provider\<close> to the list of a subscription. What it sees decides what is ready; the
  assignments were read between the two.\<close>

definition read_nodes ::
  "'f::linorder decimals \<Rightarrow> (string \<Rightarrow> nat \<Rightarrow> string option) \<Rightarrow> json option \<Rightarrow> (string \<Rightarrow> json option) \<Rightarrow> mihomo_manager \<Rightarrow>
   (mihomo_error + string option \<times> lane_status list \<times> outbound_status list \<times> 'f mihomo_node list) \<times> mihomo_manager" where
  "read_nodes de port_url answer provider m =
     (case answer of
        None \<Rightarrow> (Inl (Controller_Error ''proxies''), m)
      | Some v \<Rightarrow>
          (case proxies_of v of
             None \<Rightarrow> (Inl (Controller_Error ''missing proxies object''), m)
           | Some proxies \<Rightarrow>
               let lanes = map (lane_status_of port_url proxies m) all_lanes;
                   m1 = m\<lparr>mh_lanes_ready := list_all ls_available lanes\<rparr>;
                   outbounds = map (outbound_status_of port_url proxies m1 (mh_slots m1)) (sorted_list_of_set (dom (mh_slots m1)));
                   m2 = m1\<lparr>mh_slots_ready := list_all confirmed_by outbounds\<rparr>;
                   nodes = nodes_of de proxies (mh_traffic m2) (provider_names provider (map ss_id (mh_subscriptions m2)))
               in (Inr (group_now (map_of proxies group_name), lanes, outbounds, nodes), m2)))"

record subscription_status =
  sb_id :: string
  sb_label :: string
  sb_host :: "string option"
  sb_update_interval_secs :: u64
  sb_prefix :: "string option"
  sb_nodes :: nat
  sb_healthy :: nat

definition subscription_status_of :: "(string \<Rightarrow> url option) \<Rightarrow> 'f mihomo_node list \<Rightarrow> stored_subscription \<Rightarrow> subscription_status" where
  "subscription_status_of parse_url nodes s =
     (let mine = filter (\<lambda>n. mn_subscription n = ss_id s) nodes
      in \<lparr>sb_id = ss_id s, sb_label = ss_label s, sb_host = redacted_host parse_url (ss_url s),
          sb_update_interval_secs = ss_update_interval_secs s, sb_prefix = ss_prefix s,
          sb_nodes = length mine, sb_healthy = length (filter (\<lambda>n. mn_alive n = Some True) mine)\<rparr>)"

section \<open>Changing the subscriptions\<close>

record commit_env =
  ce_saved :: bool
  ce_config_written :: bool
  ce_reloaded :: bool

definition commit_subscriptions ::
  "(string \<Rightarrow> string) \<Rightarrow> commit_env \<Rightarrow> stored_subscription list \<Rightarrow> stored_subscription list \<Rightarrow> mihomo_manager \<Rightarrow> (mihomo_error + unit) \<times> mihomo_manager" where
  "commit_subscriptions quote env subs previous m =
     (if \<not> ce_saved env then (Inl Io_Error, m)
      else let m = m\<lparr>mh_subscription_file := Some subs, mh_subscriptions := subs\<rparr>
           in case write_runtime_config quote (ce_config_written env) m of
                (Inl e, m) \<Rightarrow> (Inl e, m\<lparr>mh_subscriptions := previous\<rparr>)
              | (Inr _, m) \<Rightarrow> (if ce_reloaded env then Inr () else Inl (Controller_Error ''reload''), m))"

definition label_of :: "(string \<Rightarrow> url option) \<Rightarrow> subscription_update \<Rightarrow> string" where
  "label_of parse_url upd =
     (case Option.bind (map_option str_trim (su_label upd)) (\<lambda>l. if l = [] then None else Some l) of
        Some l \<Rightarrow> l
      | None \<Rightarrow> (case redacted_host parse_url (su_url upd) of Some h \<Rightarrow> h | None \<Rightarrow> legacy_provider))"

text \<open>\<open>drawn\<close> are the random suffixes in the order they are drawn; the loop takes the first that is free.\<close>

definition fresh_id :: "string list \<Rightarrow> stored_subscription list \<Rightarrow> string option" where
  "fresh_id drawn subs = find (\<lambda>id. list_all (\<lambda>s. ss_id s \<noteq> id) subs) (map (\<lambda>suffix. ''majsoul-'' @ suffix) drawn)"

definition update_subscription ::
  "(string \<Rightarrow> string) \<Rightarrow> (string \<Rightarrow> url option) \<Rightarrow> string list \<Rightarrow> commit_env \<Rightarrow> subscription_update \<Rightarrow> mihomo_manager \<Rightarrow>
   ((mihomo_error + unit) \<times> mihomo_manager) option" where
  "update_subscription quote parse_url drawn env upd m =
     (case validate_subscription parse_url upd of
        Inl e \<Rightarrow> Some (Inl e, m)
      | Inr _ \<Rightarrow>
          let label = label_of parse_url upd; previous = mh_subscriptions m
          in if \<exists>s \<in> set previous. su_id upd = Some (ss_id s)
             then Some (commit_subscriptions quote env
               (update_first (\<lambda>s. su_id upd = Some (ss_id s))
                 (\<lambda>s. s\<lparr>ss_label := label, ss_url := su_url upd, ss_update_interval_secs := su_update_interval_secs upd\<rparr>) previous) previous m)
             else if max_subscriptions \<le> length previous then Some (Inl (Invalid_Config ''too many''), m)
             else map_option (\<lambda>id. commit_subscriptions quote env
               (previous @ [\<lparr>ss_id = id, ss_label = label, ss_prefix = Some (''['' @ drop 8 id @ ''] ''), ss_url = su_url upd,
                  ss_update_interval_secs = su_update_interval_secs upd\<rparr>]) previous m) (fresh_id drawn previous))"

definition remove_subscription ::
  "(string \<Rightarrow> string) \<Rightarrow> commit_env \<Rightarrow> string \<Rightarrow> mihomo_manager \<Rightarrow> (mihomo_error + unit) \<times> mihomo_manager" where
  "remove_subscription quote env sid m =
     (let previous = mh_subscriptions m; subs = filter (\<lambda>s. ss_id s \<noteq> sid) previous
      in if length subs = length previous then (Inl (Invalid_Config ''no such subscription''), m)
         else commit_subscriptions quote env subs previous m)"

definition for_each_provider :: "(string \<Rightarrow> bool) \<Rightarrow> mihomo_manager \<Rightarrow> mihomo_error + unit" where
  "for_each_provider answers m =
     (let providers = map ss_id (mh_subscriptions m)
      in if providers = [] then Inl (Invalid_Config ''configure a subscription before refreshing it'')
         else if \<exists>sid \<in> set providers. \<not> answers sid then (if list_all (\<lambda>sid. \<not> answers sid) providers then Inl (Controller_Error ''provider'') else Inr ())
         else Inr ())"

section \<open>Traffic\<close>

definition carried_by :: "json \<Rightarrow> u64" where
  "carried_by connection =
     sum_list (List.map_filter (\<lambda>f. map_option of_nat (Option.bind (json_get f connection) as_u64)) [''download'', ''upload''])"

definition exit_of :: "json \<Rightarrow> string option" where
  "exit_of connection = Option.bind (Option.bind (Option.bind (json_get ''chains'' connection) as_array) first_opt) as_str"

definition count_connection :: "string \<Rightarrow> string \<Rightarrow> u64 \<Rightarrow> traffic \<Rightarrow> traffic" where
  "count_connection cid node carried t =
     (let counted = (case tr_counted t cid of Some c \<Rightarrow> c | None \<Rightarrow> 0);
          fresh = saturating_sub carried counted;
          before = (case tr_total t node of Some b \<Rightarrow> b | None \<Rightarrow> 0)
      in t\<lparr>tr_counted := (tr_counted t)(cid \<mapsto> carried), tr_total := (if 0 < fresh then (tr_total t)(node \<mapsto> before + fresh) else tr_total t)\<rparr>)"

fun sample_loop :: "json list \<Rightarrow> string set \<Rightarrow> traffic \<Rightarrow> string set \<times> traffic" where
  "sample_loop [] seen t = (seen, t)"
| "sample_loop (connection # live) seen t =
     (case (Option.bind (json_get ''id'' connection) as_str, exit_of connection) of
        (Some cid, Some node) \<Rightarrow> sample_loop live (insert cid seen) (count_connection cid node (carried_by connection) t)
      | _ \<Rightarrow> sample_loop live seen t)"

definition sample_traffic :: "json option \<Rightarrow> mihomo_manager \<Rightarrow> (mihomo_error + unit) \<times> mihomo_manager" where
  "sample_traffic answer m =
     (case answer of
        None \<Rightarrow> (Inl (Controller_Error ''connections''), m)
      | Some v \<Rightarrow>
          (case Option.bind (json_get ''connections'' v) as_array of
             None \<Rightarrow> (Inl (Controller_Error ''missing connections array''), m)
           | Some live \<Rightarrow>
               (case sample_loop live {} (mh_traffic m) of
                  (seen, t) \<Rightarrow> (Inr (), m\<lparr>mh_traffic := t\<lparr>tr_counted := tr_counted t |` seen\<rparr>\<rparr>))))"

section \<open>Starting\<close>

definition new_manager ::
  "(string \<Rightarrow> string) \<Rightarrow> string \<Rightarrow> string \<Rightarrow> bool \<Rightarrow> stored_subscription list option \<Rightarrow> slots option \<Rightarrow> string option \<Rightarrow> (mihomo_error + unit) \<times> mihomo_manager" where
  "new_manager quote proxy_url secret config_written subscription_file outbounds_file config_file =
     write_runtime_config quote config_written
       \<lparr>mh_proxy_url = proxy_url, mh_secret = secret, mh_lanes_ready = False, mh_slots_ready = False,
        mh_slots = (case outbounds_file of Some slots \<Rightarrow> slots | None \<Rightarrow> Map.empty), mh_leased = [],
        mh_subscriptions = (case subscription_file of Some subs \<Rightarrow> subs | None \<Rightarrow> []),
        mh_traffic = \<lparr>tr_total = Map.empty, tr_counted = Map.empty\<rparr>,
        mh_outbounds_file = outbounds_file, mh_subscription_file = subscription_file, mh_config_file = config_file\<rparr>"

section \<open>Slots\<close>

definition slot_ok :: "nat \<Rightarrow> bool" where
  "slot_ok slot \<longleftrightarrow> 1 \<le> slot \<and> slot \<le> max_outbounds \<and> outbound_port slot \<notin> set reserved_ports"

definition slots_ok :: "slots \<Rightarrow> bool" where
  "slots_ok slots \<longleftrightarrow> finite (dom slots) \<and> inj_on slots (dom slots) \<and> (\<forall>slot \<in> ran slots. slot_ok slot)"

lemma slots_okI: "finite (dom slots) \<Longrightarrow> (\<And>a b s. slots a = Some s \<Longrightarrow> slots b = Some s \<Longrightarrow> a = b) \<Longrightarrow>
    (\<And>a s. slots a = Some s \<Longrightarrow> slot_ok s) \<Longrightarrow> slots_ok slots"
  unfolding slots_ok_def inj_on_def ran_def by (auto simp: dom_def)

lemma slots_ok_inj: "slots_ok slots \<Longrightarrow> slots a = Some s \<Longrightarrow> slots b = Some s \<Longrightarrow> a = b"
  unfolding slots_ok_def inj_on_def by (metis domI)

lemma slots_ok_range: "slots_ok slots \<Longrightarrow> slots a = Some s \<Longrightarrow> slot_ok s"
  unfolding slots_ok_def by (meson ranI)

lemma free_slot_first:
  "free_slot taken start = Some slot \<Longrightarrow> 1 \<le> start \<Longrightarrow>
     slot_ok slot \<and> slot \<notin> taken \<and> (\<forall>lower. start \<le> lower \<and> lower < slot \<longrightarrow> lower \<in> taken \<or> \<not> slot_ok lower)"
proof (induction taken start rule: free_slot.induct)
  case (1 taken start)
  show ?case
  proof (cases "max_outbounds < start")
    case True
    with "1.prems" show ?thesis by (simp add: free_slot.simps)
  next
    case False
    show ?thesis
    proof (cases "start \<notin> taken \<and> outbound_port start \<notin> set reserved_ports")
      case True
      with False "1.prems" show ?thesis by (auto simp: free_slot.simps [of taken start] slot_ok_def)
    next
      case taken: False
      with False "1.prems" have "free_slot taken (start + 1) = Some slot" by (simp add: free_slot.simps [of taken start])
      note IH = "1.IH" [OF False taken this]
      have "lower \<in> taken \<or> \<not> slot_ok lower" if "start \<le> lower" "lower < slot" for lower
        using that IH taken by (cases "lower = start") (auto simp: slot_ok_def)
      with IH show ?thesis by simp
    qed
  qed
qed

lemma free_slot_none: "free_slot taken start = None \<Longrightarrow> slot_ok slot \<Longrightarrow> start \<le> slot \<Longrightarrow> slot \<in> taken"
proof (induction taken start rule: free_slot.induct)
  case (1 taken start)
  then have small: "\<not> max_outbounds < start" by (simp add: slot_ok_def)
  show ?case
  proof (cases "start \<notin> taken \<and> outbound_port start \<notin> set reserved_ports")
    case True
    with small "1.prems" show ?thesis by (simp add: free_slot.simps [of taken start])
  next
    case False
    with small "1.prems" have "free_slot taken (start + 1) = None" by (simp add: free_slot.simps [of taken start])
    note IH = "1.IH" [OF small False this]
    show ?thesis
    proof (cases "slot = start")
      case True
      with False "1.prems"(2) show ?thesis by (auto simp: slot_ok_def)
    next
      case False
      with IH "1.prems"(2,3) show ?thesis by simp
    qed
  qed
qed

lemma refile_loop_keeps: "slots node = Some slot \<Longrightarrow> refile_loop nodes slots taken node = Some slot"
proof (induction nodes slots taken rule: refile_loop.induct)
  case (2 n nodes slots taken)
  show ?case
  proof (cases "slots n = None")
    case True
    then have "(slots(n \<mapsto> x)) node = Some slot" for x using "2.prems" by auto
    then show ?thesis using "2.IH"(2) "2.prems" True by (auto split: option.split simp del: fun_upd_apply)
  qed (use 2 in auto)
qed simp

lemma refile_loop_ok:
  "slots_ok slots \<Longrightarrow> ran slots = taken \<Longrightarrow> slots_ok (refile_loop nodes slots taken) \<and> dom (refile_loop nodes slots taken) \<subseteq> dom slots \<union> set nodes"
proof (induction nodes slots taken rule: refile_loop.induct)
  case (2 node nodes slots taken)
  show ?case
  proof (cases "slots node")
    case None
    show ?thesis
    proof (cases "free_slot taken 1")
      case (Some slot)
      note free = free_slot_first [OF Some]
      have "slots_ok (slots(node \<mapsto> slot))"
      proof (rule slots_okI)
        fix a b s assume ab: "(slots(node \<mapsto> slot)) a = Some s" "(slots(node \<mapsto> slot)) b = Some s"
        have "s \<noteq> slot" if "slots c = Some s" for c using that free "2.prems"(2) by (auto intro: ranI)
        with ab show "a = b" using slots_ok_inj [OF "2.prems"(1)] by (auto split: if_splits)
      qed (use "2.prems"(1) free slots_ok_range [OF "2.prems"(1)] in \<open>auto simp: slots_ok_def split: if_splits\<close>)
      moreover have "ran (slots(node \<mapsto> slot)) = insert slot taken" using "2.prems"(2) None by (simp add: ran_map_upd)
      ultimately have "slots_ok (refile_loop nodes (slots(node \<mapsto> slot)) (insert slot taken)) \<and>
          dom (refile_loop nodes (slots(node \<mapsto> slot)) (insert slot taken)) \<subseteq> dom (slots(node \<mapsto> slot)) \<union> set nodes"
        using "2.IH"(2) [OF _ Some] None by blast
      then show ?thesis using None Some by auto
    qed (use 2 None in auto)
  next
    case (Some old)
    then have "slots_ok (refile_loop nodes slots taken) \<and> dom (refile_loop nodes slots taken) \<subseteq> dom slots \<union> set nodes"
      using "2.IH"(1) "2.prems" by simp
    then show ?thesis using Some by auto
  qed
qed auto

lemma ran_restrict: "ran (m |` A) \<subseteq> ran m"
  by (auto simp: ran_def restrict_map_def split: if_splits)

lemma slots_ok_restrict: "slots_ok slots \<Longrightarrow> slots_ok (slots |` A)"
proof (rule slots_okI)
  assume ok: "slots_ok slots"
  then show "finite (dom (slots |` A))" by (simp add: slots_ok_def)
  show "a = b" if "(slots |` A) a = Some s" "(slots |` A) b = Some s" for a b s
    using that slots_ok_inj [OF ok] by (auto simp: restrict_map_def split: if_splits)
  show "slot_ok s" if "(slots |` A) a = Some s" for a s
    using that slots_ok_range [OF ok] by (auto simp: restrict_map_def split: if_splits)
qed

lemma refile_ok: "slots_ok slots \<Longrightarrow> slots_ok (refile nodes slots) \<and> dom (refile nodes slots) \<subseteq> set nodes"
  using refile_loop_ok [OF slots_ok_restrict [of slots "set nodes"] refl, of nodes] by (auto simp: refile_def Let_def)

lemma refile_keeps: "slots node = Some slot \<Longrightarrow> node \<in> set nodes \<Longrightarrow> refile nodes slots node = Some slot"
  by (simp add: refile_def Let_def refile_loop_keeps)

lemma usable_slots: "card {slot. slot_ok slot} = 57634" "finite {slot. slot_ok slot}"
proof -
  have "{slot. slot_ok slot} = {1..57635} - {1190}"
    by (auto simp: slot_ok_def max_outbounds_def outbound_port_base_def outbound_port_def reserved_ports_def)
  then show "card {slot. slot_ok slot} = 57634" "finite {slot. slot_ok slot}" by simp_all
qed

lemma card_ran: "slots_ok slots \<Longrightarrow> card (ran slots) = card (dom slots)"
proof -
  assume ok: "slots_ok slots"
  have "ran slots = (the \<circ> slots) ` dom slots" by (force simp: ran_def dom_def image_iff)
  moreover have "inj_on (the \<circ> slots) (dom slots)" using ok by (auto simp: slots_ok_def inj_on_def dom_def)
  ultimately show ?thesis by (simp only: card_image)
qed

lemma free_slot_room:
  assumes "slots_ok slots" and "dom slots \<subseteq> wanted" and "node \<in> wanted" and "slots node = None" and "finite wanted" and "card wanted \<le> 57634"
  shows "free_slot (ran slots) 1 \<noteq> None"
proof
  assume none: "free_slot (ran slots) 1 = None"
  have "dom slots \<subset> wanted" using assms(2-4) by auto
  from psubset_card_mono [OF assms(5) this] assms(6) have "card (dom slots) < 57634" by (rule less_le_trans)
  moreover have "{slot. slot_ok slot} \<subseteq> ran slots" using free_slot_none [OF none] by (auto simp: slot_ok_def)
  then have "57634 \<le> card (ran slots)"
    using card_mono [of "ran slots" "{slot. slot_ok slot}"] assms(1) by (simp add: usable_slots slots_ok_def finite_ran)
  ultimately show False using card_ran [OF assms(1)] by simp
qed

text \<open>Every wanted node gets a slot while there is room, and each new slot is the lowest that is free.\<close>

lemma refile_loop_complete:
  assumes "slots_ok slots" and "ran slots = taken" and "dom slots \<subseteq> wanted" and "set nodes \<subseteq> wanted" and "finite wanted" and "card wanted \<le> 57634"
  shows "set nodes \<subseteq> dom (refile_loop nodes slots taken) \<and>
    (\<forall>node slot. slots node = None \<and> refile_loop nodes slots taken node = Some slot \<longrightarrow>
       (\<forall>lower < slot. slot_ok lower \<longrightarrow> lower \<in> ran (refile_loop nodes slots taken)))"
  using assms(1-4)
proof (induction nodes slots taken rule: refile_loop.induct)
  case (2 node nodes slots taken)
  show ?case
  proof (cases "slots node")
    case None
    obtain slot where slot: "free_slot taken 1 = Some slot"
      using free_slot_room [OF "2.prems"(1,3) _ None assms(5,6)] "2.prems"(2,4) by auto
    let ?s = "slots(node \<mapsto> slot)" and ?r = "refile_loop nodes (slots(node \<mapsto> slot)) (insert slot taken)"
    note free = free_slot_first [OF slot, OF le_refl]
    have one: "refile_loop [node] slots taken = ?s" using None slot by simp
    have ok: "slots_ok ?s" using refile_loop_ok [OF "2.prems"(1,2), of "[node]"] unfolding one by blast
    have ran: "ran ?s = insert slot taken" using "2.prems"(2) None by (simp add: ran_map_upd)
    have IH: "set nodes \<subseteq> dom ?r \<and> (\<forall>n slot'. ?s n = None \<and> ?r n = Some slot' \<longrightarrow> (\<forall>lower < slot'. slot_ok lower \<longrightarrow> lower \<in> ran ?r))"
    proof (rule "2.IH"(2) [OF _ slot ok ran])
      show "dom ?s \<subseteq> wanted" using "2.prems"(3,4) by simp
    qed (use None "2.prems"(4) in auto)
    have here: "?r node = Some slot" by (rule refile_loop_keeps) simp
    have "lower \<in> ran ?r" if "lower < slot" "slot_ok lower" for lower
    proof -
      have "lower \<in> taken" using free that by (auto simp: slot_ok_def)
      then obtain n where "slots n = Some lower" using "2.prems"(2) by (auto simp: ran_def)
      then have "?s n = Some lower" using None by auto
      then show ?thesis using refile_loop_keeps [of ?s n lower] by (metis ranI)
    qed
    then have dense: "lower \<in> ran ?r" if "slots n = None" "?r n = Some slot'" "lower < slot'" "slot_ok lower" for n slot' lower
      using IH here that by (cases "n = node") (simp_all, metis)
    have "refile_loop (node # nodes) slots taken = ?r" using None slot by simp
    then show ?thesis using IH here dense by (metis insert_subset list.simps(15) domI)
  next
    case (Some old)
    then have "refile_loop nodes slots taken node = Some old" by (rule refile_loop_keeps)
    moreover have "refile_loop (node # nodes) slots taken = refile_loop nodes slots taken" using Some by simp
    ultimately show ?thesis using "2.IH"(1) [OF _ "2.prems"(1,2,3)] Some "2.prems"(4) by (simp add: domI)
  qed
qed auto

lemma refile_complete:
  assumes "slots_ok slots" and "card (set nodes) \<le> 57634"
  shows "dom (refile nodes slots) = set nodes \<and>
    (\<forall>node slot. node \<notin> dom slots \<and> refile nodes slots node = Some slot \<longrightarrow>
       (\<forall>lower < slot. slot_ok lower \<longrightarrow> lower \<in> ran (refile nodes slots)))"
proof -
  have "dom (slots |` set nodes) \<subseteq> set nodes" by auto
  from refile_loop_complete [OF slots_ok_restrict [OF assms(1)] refl this subset_refl _ assms(2)] refile_ok [OF assms(1), of nodes]
  have "set nodes \<subseteq> dom (refile nodes slots)"
    "\<forall>node slot. (slots |` set nodes) node = None \<and> refile nodes slots node = Some slot \<longrightarrow>
       (\<forall>lower < slot. slot_ok lower \<longrightarrow> lower \<in> ran (refile nodes slots))" "dom (refile nodes slots) \<subseteq> set nodes"
    unfolding refile_def Let_def by blast+
  moreover have "(slots |` set nodes) node = None" if "node \<notin> dom slots" for node using that by (auto simp: restrict_map_def)
  ultimately show ?thesis by blast
qed

lemma refile_again:
  assumes "slots_ok slots" and "card (set nodes) \<le> 57634"
  shows "refile nodes (refile nodes slots) = refile nodes slots"
proof -
  let ?s = "refile nodes slots"
  have dom: "dom ?s = set nodes" using refile_complete [OF assms] by blast
  have "refile_loop ns ?s taken = ?s" if "set ns \<subseteq> set nodes" for ns taken
    using that dom by (induction ns) auto
  moreover have "?s |` set nodes = ?s" using dom by (metis restrict_map_def domIff ext)
  ultimately show ?thesis unfolding refile_def [of nodes ?s] Let_def by simp
qed

text \<open>Re-filing the exits moves nobody. Every node that is wanted and had a port keeps it, every other wanted node gets the lowest free port of
  its own, no port is given twice, leaves the range of a port or meets the controller's, and exactly the wanted nodes have one, as long as there
  are no more of them than ports.\<close>

theorem refile_keeps_ports:
  assumes "slots_ok slots" and "card (set nodes) \<le> 57634"
  shows "slots_ok (refile nodes slots) \<and> dom (refile nodes slots) = set nodes \<and>
    (\<forall>node \<in> set nodes. slots node \<noteq> None \<longrightarrow> refile nodes slots node = slots node) \<and>
    (\<forall>node slot. node \<notin> dom slots \<and> refile nodes slots node = Some slot \<longrightarrow>
       (\<forall>lower < slot. slot_ok lower \<longrightarrow> lower \<in> ran (refile nodes slots)))"
  using refile_ok [OF assms(1)] refile_complete [OF assms] refile_keeps by fastforce

section \<open>The manager\<close>

lemma add_leased_set: "set (add_leased leased wanted) = set leased \<union> set wanted"
  by (induction leased wanted rule: add_leased.induct) auto

lemma set_outbound_fields:
  assumes "set_outbound_nodes quote sw cw nodes m = (r, m')"
  shows "mh_slots m' = refile (add_leased (mh_leased m) nodes) (mh_slots m)" and "mh_leased m' = mh_leased m"
    and "mh_subscriptions m' = mh_subscriptions m" and "mh_outbounds_file m' \<in> {mh_outbounds_file m, Some (mh_slots m')}"
  using assms by (auto simp: set_outbound_nodes_def write_runtime_config_def Let_def split: if_splits prod.splits sum.splits)

lemma commit_fields:
  assumes "commit_subscriptions quote env subs previous m = (r, m')"
  shows "mh_slots m' = mh_slots m" and "mh_outbounds_file m' = mh_outbounds_file m" and "mh_slots_ready m' = mh_slots_ready m"
    and "mh_subscriptions m' \<in> {subs, previous, mh_subscriptions m}" and "mh_subscription_file m' \<in> {Some subs, mh_subscription_file m}"
  using assms by (auto simp: commit_subscriptions_def write_runtime_config_def Let_def split: if_splits prod.splits sum.splits)

lemma apply_attempts_fields:
  "mh_slots (apply_attempts as m) = mh_slots m \<and> mh_outbounds_file (apply_attempts as m) = mh_outbounds_file m \<and>
   mh_subscriptions (apply_attempts as m) = mh_subscriptions m \<and> mh_subscription_file (apply_attempts as m) = mh_subscription_file m"
  by (induction as m rule: apply_attempts.induct) (simp_all add: apply_outbound_selections_def confirm_selections_def)

text \<open>Everything that happens to the manager, restarts from its files included.\<close>

inductive manager_step :: "(string \<Rightarrow> string) \<Rightarrow> mihomo_manager \<Rightarrow> mihomo_manager \<Rightarrow> bool" for quote where
  outbound: "set_outbound_nodes quote sw cw nodes m = (r, m') \<Longrightarrow> manager_step quote m m'"
| lease: "lease_outbound_nodes quote sw cw nodes held m = (r, m') \<Longrightarrow> manager_step quote m m'"
| release: "release_outbound_nodes quote sw cw held m = (r, m') \<Longrightarrow> manager_step quote m m'"
| apply_config: "manager_step quote m (apply_runtime_config attempts m)"
| reading: "read_nodes (de :: nat decimals) port_url reply provider m = (r2, m') \<Longrightarrow> manager_step quote m m'"
| sampling: "sample_traffic reply m = (r3, m') \<Longrightarrow> manager_step quote m m'"
| subscribe: "update_subscription quote parse_url drawn env upd m = Some (r3, m') \<Longrightarrow> manager_step quote m m'"
| unsubscribe: "remove_subscription quote env sid m = (r3, m') \<Longrightarrow> manager_step quote m m'"
| restart: "new_manager quote purl secret cw (mh_subscription_file m) (mh_outbounds_file m) (mh_config_file m) = (r3, m') \<Longrightarrow> manager_step quote m m'"

inductive manager_reachable :: "(string \<Rightarrow> string) \<Rightarrow> mihomo_manager \<Rightarrow> bool" for quote where
  fresh: "new_manager quote purl secret cw None None None = (r, m) \<Longrightarrow> manager_reachable quote m"
| further: "manager_reachable quote m \<Longrightarrow> manager_step quote m m' \<Longrightarrow> manager_reachable quote m'"

definition subs_ok :: "stored_subscription list \<Rightarrow> bool" where
  "subs_ok subs \<longleftrightarrow> distinct (map ss_id subs) \<and> length subs \<le> max_subscriptions"

definition manager_ok :: "mihomo_manager \<Rightarrow> bool" where
  "manager_ok m \<longleftrightarrow> slots_ok (mh_slots m) \<and> (\<forall>slots. mh_outbounds_file m = Some slots \<longrightarrow> slots_ok slots) \<and>
     subs_ok (mh_subscriptions m) \<and> (\<forall>subs. mh_subscription_file m = Some subs \<longrightarrow> subs_ok subs)"

lemma slots_ok_empty [simp]: "slots_ok Map.empty"
  by (simp add: slots_ok_def)

lemma fresh_id_free: "fresh_id drawn subs = Some x \<Longrightarrow> x \<notin> ss_id ` set subs"
  by (auto simp: fresh_id_def find_Some_iff list_all_iff)

lemma update_first_ids: "map ss_id (update_first p (\<lambda>s. s\<lparr>ss_label := l, ss_url := u, ss_update_interval_secs := i\<rparr>) subs) = map ss_id subs"
  by (induction subs) auto

lemma commit_ok:
  assumes "manager_ok m" and "subs_ok subs" and "commit_subscriptions quote env subs (mh_subscriptions m) m = (r, m')"
  shows "manager_ok m'"
  using commit_fields [OF assms(3)] assms(1,2) by (auto simp: manager_ok_def)

lemma new_manager_ok:
  assumes "new_manager quote purl secret cw subs slots config = (r, m)"
    and "\<forall>s. slots = Some s \<longrightarrow> slots_ok s" and "\<forall>s. subs = Some s \<longrightarrow> subs_ok s"
  shows "manager_ok m"
  using assms
  by (auto simp: new_manager_def write_runtime_config_def manager_ok_def subs_ok_def split: if_splits option.splits)

lemma set_outbound_ok: "manager_ok m \<Longrightarrow> set_outbound_nodes quote sw cw nodes m = (r, m') \<Longrightarrow> manager_ok m'"
  by (frule set_outbound_fields(1), frule set_outbound_fields(3), frule set_outbound_fields(4),
      auto simp: manager_ok_def refile_ok set_outbound_nodes_def write_runtime_config_def Let_def split: if_splits)

lemma update_subscription_cases:
  assumes "update_subscription quote parse_url drawn env upd m = Some (r, m')"
  obtains (same) "m' = m"
  | (replaced) p l u i where "commit_subscriptions quote env
      (update_first p (\<lambda>s. s\<lparr>ss_label := l, ss_url := u, ss_update_interval_secs := i\<rparr>) (mh_subscriptions m)) (mh_subscriptions m) m = (r, m')"
  | (extended) s where "ss_id s \<notin> ss_id ` set (mh_subscriptions m)" "length (mh_subscriptions m) < max_subscriptions"
      "commit_subscriptions quote env (mh_subscriptions m @ [s]) (mh_subscriptions m) m = (r, m')" "ss_prefix s \<noteq> None"
proof (cases "validate_subscription parse_url upd")
  case (Inl e)
  then show ?thesis using assms same by (auto simp: update_subscription_def)
next
  case (Inr u)
  show ?thesis
  proof (cases "\<exists>s \<in> set (mh_subscriptions m). su_id upd = Some (ss_id s)")
    case True
    with assms Inr show ?thesis by (intro replaced) (simp add: update_subscription_def Let_def)
  next
    case False
    show ?thesis
    proof (cases "max_subscriptions \<le> length (mh_subscriptions m)")
      case True
      with False assms Inr show ?thesis by (intro same) (simp add: update_subscription_def Let_def)
    next
      case room: False
      with False assms Inr obtain x where "fresh_id drawn (mh_subscriptions m) = Some x"
        by (auto simp: update_subscription_def Let_def)
      with False room assms Inr show ?thesis
        using fresh_id_free by (intro extended) (auto simp: update_subscription_def Let_def)
    qed
  qed
qed

lemma manager_ok_step: "manager_step quote m m' \<Longrightarrow> manager_ok m \<Longrightarrow> manager_ok m'"
proof (induction rule: manager_step.induct)
  case (outbound sw cw nodes m r m')
  then show ?case using set_outbound_ok by blast
next
  case (lease sw cw nodes held m r m')
  have "manager_ok (m\<lparr>mh_leased := nodes\<rparr>)" using lease(2) by (simp add: manager_ok_def)
  then show ?case using set_outbound_ok lease(1) unfolding lease_outbound_nodes_def by blast
next
  case (release sw cw held m r m')
  have "manager_ok (m\<lparr>mh_leased := []\<rparr>)" using release(2) by (simp add: manager_ok_def)
  then show ?case using set_outbound_ok release(1) unfolding release_outbound_nodes_def by blast
next
  case (apply_config m attempts)
  then show ?case by (simp add: manager_ok_def apply_runtime_config_def apply_attempts_fields)
next
  case (reading de port_url reply provider m r2 m')
  then show ?case by (auto simp: manager_ok_def read_nodes_def Let_def split: option.splits)
next
  case (sampling reply m r3 m')
  then show ?case by (auto simp: manager_ok_def sample_traffic_def split: option.splits prod.splits)
next
  case (subscribe parse_url drawn env upd m r3 m')
  let ?subs = "mh_subscriptions m"
  have subs: "subs_ok ?subs" using subscribe(2) by (simp add: manager_ok_def)
  have refiled: "subs_ok (update_first p (\<lambda>s. s\<lparr>ss_label := l, ss_url := u, ss_update_interval_secs := i\<rparr>) ?subs)" for p l u i
    using subs by (simp add: subs_ok_def update_first_ids length_update_first)
  have added: "subs_ok (?subs @ [s])" if "ss_id s \<notin> ss_id ` set ?subs" "length ?subs < max_subscriptions" for s
    using subs that by (simp add: subs_ok_def)
  from subscribe(1) show ?case
  proof (cases rule: update_subscription_cases)
    case same
    then show ?thesis using subscribe(2) by simp
  next
    case (replaced p l u i)
    from commit_ok [OF subscribe(2) refiled replaced] show ?thesis .
  next
    case (extended s)
    from commit_ok [OF subscribe(2) added [OF extended(1,2)] extended(3)] show ?thesis .
  qed
next
  case (unsubscribe env sid m r3 m')
  have "subs_ok (filter (\<lambda>s. ss_id s \<noteq> sid) (mh_subscriptions m))"
    using unsubscribe(2) order_trans [OF length_filter_le]
    by (auto simp: manager_ok_def subs_ok_def intro: distinct_map_filter)
  from commit_ok [OF unsubscribe(2) this] unsubscribe show ?case by (auto simp: remove_subscription_def Let_def split: if_splits)
next
  case (restart purl secret cw m r3 m')
  show ?case by (rule new_manager_ok [OF restart(1)]) (use restart(2) in \<open>simp_all add: manager_ok_def\<close>)
qed

lemma manager_reachable_ok: "manager_reachable quote m \<Longrightarrow> manager_ok m"
proof (induction rule: manager_reachable.induct)
  case (fresh purl secret cw r m)
  then show ?case by (rule new_manager_ok) simp_all
qed (rule manager_ok_step)

lemma slot_list_ok: "slots_ok slots \<Longrightarrow> distinct (slot_list slots) \<and> set (slot_list slots) = ran slots"
  by (simp add: slot_list_def slots_ok_def finite_ran)


section \<open>Leases and confirmations\<close>

fun save_all :: "(string \<Rightarrow> string) \<Rightarrow> (bool \<times> bool \<times> string list) list \<Rightarrow> mihomo_manager \<Rightarrow> mihomo_manager" where
  "save_all quote [] m = m"
| "save_all quote ((sw, cw, nodes) # saves) m = save_all quote saves (snd (set_outbound_nodes quote sw cw nodes m))"

lemma save_all_keeps:
  "node \<in> set (mh_leased m) \<Longrightarrow> mh_slots m node = Some slot \<Longrightarrow> mh_slots (save_all quote saves m) node = Some slot"
proof (induction quote saves m rule: save_all.induct)
  case (2 quote sw cw nodes saves m)
  obtain r m' where step: "set_outbound_nodes quote sw cw nodes m = (r, m')" by fastforce
  have "mh_slots m' node = Some slot"
    unfolding set_outbound_fields(1) [OF step] using "2.prems" by (intro refile_keeps) (simp_all add: add_leased_set)
  then show ?case using 2 step set_outbound_fields(2) [OF step] by simp
qed simp

text \<open>Claim C24: A borrowed exit is not taken back. Once a run has borrowed a node, and the node has a port, then however often the account pool is
  saved meanwhile, with whatever nodes and whichever files fail to be written, the port stays that node's.\<close>

theorem leased_exit_keeps_port:
  assumes "lease_outbound_nodes quote sw cw nodes held m = (r, m')" and "node \<in> set nodes" and "mh_slots m' node = Some slot"
  shows "mh_slots (save_all quote saves m') node = Some slot"
proof (rule save_all_keeps [OF _ assms(3)])
  show "node \<in> set (mh_leased m')"
    using set_outbound_fields(2) [OF assms(1) [unfolded lease_outbound_nodes_def]] assms(2) by simp
qed

text \<open>An address is handed out only for a node whose group the controller last showed on that node, and none is once the slots have
  changed.\<close>

lemma handed_out_exit_confirmed:
  assumes "read_nodes de port_url (Some v) provider m = (Inr shown, m')" and "finite (dom (mh_slots m))" and "proxy_url_for_node port_url node m' = Some u"
  shows "\<exists>proxies slot. proxies_of v = Some proxies \<and> mh_slots m (str_trim node) = Some slot \<and>
    group_now (map_of proxies (outbound_group slot)) = Some (str_trim node) \<and> port_url (mh_proxy_url m) (outbound_port slot) = Some u"
  using assms
  by (auto simp: read_nodes_def proxy_url_for_node_def Let_def list_all_iff confirmed_by_def outbound_status_of_def bind_eq_Some_conv
      split: option.splits if_splits) (metis domI option.sel)

lemma changed_slots_unconfirmed:
  "set_outbound_nodes quote True cw nodes m = (r, m') \<Longrightarrow> mh_slots m' \<noteq> mh_slots m \<Longrightarrow> proxy_url_for_node port_url node m' = None"
  by (auto simp: set_outbound_nodes_def write_runtime_config_def proxy_url_for_node_def Let_def split: if_splits)

text \<open>A slot file that cannot be written leaves wrong exits behind. The slots have already changed in memory when the write fails, and nothing
  takes the confirmation back or writes the configuration: the call fails, yet the manager goes on handing out addresses, a node that got the
  slot of another is sent to that other's exit, and asking again changes nothing, because the slots already are what is asked for.\<close>

theorem failed_slot_write_misroutes:
  assumes "manager_reachable quote m" and "mh_slots_ready m" and "card (set (mh_leased m) \<union> set nodes) \<le> 57634"
    and "refile (add_leased (mh_leased m) nodes) (mh_slots m) \<noteq> mh_slots m"
    and "set_outbound_nodes quote False cw nodes m = (r, m')"
  shows "r = Inl Io_Error \<and> mh_slots_ready m' \<and> mh_config_file m' = mh_config_file m \<and>
    (\<forall>a b slot. str_trim a = a \<and> str_trim b = b \<and> mh_slots m a = Some slot \<and> mh_slots m' b = Some slot \<longrightarrow>
       proxy_url_for_node port_url b m' = proxy_url_for_node port_url a m) \<and>
    set_outbound_nodes quote True True nodes m' = (Inr False, m')"
proof -
  let ?wanted = "add_leased (mh_leased m) nodes"
  have ok: "slots_ok (mh_slots m)" using manager_reachable_ok [OF assms(1)] by (simp add: manager_ok_def)
  have m': "m' = m\<lparr>mh_slots := refile ?wanted (mh_slots m)\<rparr>" "r = Inl Io_Error"
    using assms(4,5) by (auto simp: set_outbound_nodes_def Let_def)
  have "refile ?wanted (refile ?wanted (mh_slots m)) = refile ?wanted (mh_slots m)"
    by (rule refile_again [OF ok]) (use assms(3) in \<open>simp add: add_leased_set\<close>)
  then have "set_outbound_nodes quote True True nodes m' = (Inr False, m')" by (simp add: set_outbound_nodes_def m' Let_def)
  then show ?thesis using assms(2) by (simp add: m' proxy_url_for_node_def)
qed

text \<open>A reload that began before the slots changed confirms the new ones on the strength of the old.\<close>

lemma stale_confirmation:
  assumes "\<forall>node \<in> dom (mh_slots m). selects (outbound_group (the (mh_slots m node))) node"
    and "set_outbound_nodes quote True cw nodes m = (r, m')"
  shows "mh_slots_ready (confirm_selections selects (mh_slots m) m')"
  using assms(1) by (simp add: confirm_selections_def)

section \<open>What the nodes carried\<close>

type_synonym reading = "string \<times> string \<times> u64"

definition reading_of :: "json \<Rightarrow> reading option" where
  "reading_of connection =
     (case (Option.bind (json_get ''id'' connection) as_str, exit_of connection) of
        (Some cid, Some node) \<Rightarrow> Some (cid, node, carried_by connection)
      | _ \<Rightarrow> None)"

definition count_reading :: "reading \<Rightarrow> traffic \<Rightarrow> traffic" where
  "count_reading r t = count_connection (fst r) (fst (snd r)) (snd (snd r)) t"

lemma sample_loop_readings:
  "sample_loop live seen t = (seen \<union> fst ` set (List.map_filter reading_of live), fold count_reading (List.map_filter reading_of live) t)"
  by (induction live seen t rule: sample_loop.induct)
    (auto simp: reading_of_def count_reading_def List.map_filter_simps split: option.splits)

definition sample_all :: "json list list \<Rightarrow> mihomo_manager \<Rightarrow> mihomo_manager" where
  "sample_all lives m = fold (\<lambda>live m. snd (sample_traffic (Some (JObject [(''connections'', JArray live)])) m)) lives m"

text \<open>The last reading of every connection, and connections that behave: an id is used once, a connection stays on its node while it lasts, and
  what it reports never falls.\<close>

type_synonym last_readings = "string \<rightharpoonup> string \<times> u64"

definition note_readings :: "reading list \<Rightarrow> last_readings \<Rightarrow> last_readings" where
  "note_readings rs = fold (\<lambda>(cid, node, carried) seen. seen(cid \<mapsto> (node, carried))) rs"

fun behaved :: "last_readings \<Rightarrow> string set \<Rightarrow> reading list list \<Rightarrow> bool" where
  "behaved seen opened [] \<longleftrightarrow> True"
| "behaved seen opened (rs # rounds) \<longleftrightarrow>
     distinct (map fst rs) \<and>
     (\<forall>(cid, node, carried) \<in> set rs. seen cid = None \<or> (cid \<in> opened \<and> (\<exists>before. seen cid = Some (node, before) \<and> before \<le> carried))) \<and>
     behaved (note_readings rs seen) (fst ` set rs) rounds"

definition last_sum :: "last_readings \<Rightarrow> string \<Rightarrow> u64" where
  "last_sum seen node = (\<Sum>cid \<in> dom seen. if fst (the (seen cid)) = node then snd (the (seen cid)) else 0)"

definition bytes_of :: "traffic \<Rightarrow> string \<Rightarrow> u64" where
  "bytes_of t node = (case tr_total t node of Some b \<Rightarrow> b | None \<Rightarrow> 0)"

definition counted_ok :: "last_readings \<Rightarrow> string set \<Rightarrow> traffic \<Rightarrow> bool" where
  "counted_ok seen opened t \<longleftrightarrow> finite (dom seen) \<and> opened \<subseteq> dom seen \<and>
     (\<forall>cid. tr_counted t cid = (if cid \<in> opened then map_option snd (seen cid) else None)) \<and> (\<forall>node. bytes_of t node = last_sum seen node)"

lemma last_sum_upd:
  assumes "finite (dom seen)"
  shows "last_sum (seen(cid \<mapsto> (node, carried))) n =
    last_sum seen n - (case seen cid of Some (k, b) \<Rightarrow> if k = n then b else 0 | None \<Rightarrow> 0) + (if node = n then carried else 0)"
proof -
  let ?f = "\<lambda>seen c. if fst (the (seen c)) = n then snd (the (seen c)) else (0::u64)" and ?s = "seen(cid \<mapsto> (node, carried))"
  have "last_sum ?s n = ?f ?s cid + sum (?f ?s) (dom seen - {cid})"
    unfolding last_sum_def using assms by (subst sum.remove [of _ cid]) (auto simp: insert_Diff_if intro!: sum.cong)
  also have "sum (?f ?s) (dom seen - {cid}) = sum (?f seen) (dom seen - {cid})" by (rule sum.cong) auto
  also have "\<dots> = last_sum seen n - (case seen cid of Some (k, b) \<Rightarrow> if k = n then b else 0 | None \<Rightarrow> 0)"
  proof (cases "seen cid")
    case None
    then have "dom seen - {cid} = dom seen" by auto
    with None show ?thesis by (simp add: last_sum_def)
  next
    case (Some kb)
    then have "last_sum seen n = ?f seen cid + sum (?f seen) (dom seen - {cid})"
      unfolding last_sum_def using assms by (subst sum.remove [of _ cid]) auto
    with Some show ?thesis by (cases kb) simp
  qed
  finally show ?thesis by (simp del: fun_upd_apply add: fun_upd_same)
qed

lemma counted_ok_reading:
  assumes ok: "counted_ok seen opened t" and law: "seen cid = None \<or> (cid \<in> opened \<and> seen cid = Some (node, before) \<and> before \<le> carried)"
  shows "counted_ok (seen(cid \<mapsto> (node, carried))) (insert cid opened) (count_reading (cid, node, carried) t)"
proof -
  let ?was = "case tr_counted t cid of Some c \<Rightarrow> c | None \<Rightarrow> 0" and ?t = "count_reading (cid, node, carried) t"
  have known: "cid \<in> opened \<longleftrightarrow> seen cid \<noteq> None" using ok law by (auto simp: counted_ok_def)
  have was: "?was = (case seen cid of Some (k, b) \<Rightarrow> b | None \<Rightarrow> 0)" using ok known by (auto simp: counted_ok_def split: option.splits)
  have less: "?was \<le> carried" using was law by auto
  have bytes: "bytes_of ?t n = bytes_of t n + (if node = n then carried - ?was else 0)" for n
    using less by (auto simp: count_reading_def count_connection_def bytes_of_def saturating_sub_def Let_def word_gt_0 split: option.splits)
  have total: "bytes_of ?t n = last_sum (seen(cid \<mapsto> (node, carried))) n" for n
    using ok law bytes [of n] was unfolding last_sum_upd [OF ok [unfolded counted_ok_def, THEN conjunct1]]
    by (auto simp: counted_ok_def split: option.splits)
  have "tr_counted ?t c = (if c \<in> insert cid opened then map_option snd ((seen(cid \<mapsto> (node, carried))) c) else None)" for c
    using ok by (simp add: count_reading_def count_connection_def counted_ok_def Let_def)
  with total ok show ?thesis by (auto simp: counted_ok_def)
qed

lemma counted_ok_round:
  assumes "counted_ok seen opened t" and "distinct (map fst rs)"
    and "\<forall>(cid, node, carried) \<in> set rs. seen cid = None \<or> (cid \<in> opened \<and> (\<exists>before. seen cid = Some (node, before) \<and> before \<le> carried))"
  shows "counted_ok (note_readings rs seen) (opened \<union> fst ` set rs) (fold count_reading rs t)"
  using assms
proof (induction rs arbitrary: seen opened t)
  case (Cons r rs)
  obtain cid node carried where r: "r = (cid, node, carried)" using prod_cases3 by blast
  then obtain before where law: "seen cid = None \<or> (cid \<in> opened \<and> seen cid = Some (node, before) \<and> before \<le> carried)"
    using Cons.prems(3) by auto
  note one = counted_ok_reading [OF Cons.prems(1) law]
  have "\<forall>(c, n, k) \<in> set rs. (seen(cid \<mapsto> (node, carried))) c = None \<or>
      (c \<in> insert cid opened \<and> (\<exists>before. (seen(cid \<mapsto> (node, carried))) c = Some (n, before) \<and> before \<le> k))"
    using Cons.prems(2,3) r by (fastforce simp: image_iff)
  from Cons.IH [OF one _ this] Cons.prems(2) show ?case by (simp add: r note_readings_def del: fun_upd_apply)
qed (simp add: note_readings_def)

lemma counted_ok_close: "counted_ok seen opened t \<Longrightarrow> kept \<subseteq> opened \<Longrightarrow> counted_ok seen kept (t\<lparr>tr_counted := tr_counted t |` kept\<rparr>)"
  by (auto simp: counted_ok_def bytes_of_def restrict_map_def)

lemma sample_all_counted:
  "behaved seen opened (map (List.map_filter reading_of) lives) \<Longrightarrow> counted_ok seen opened (mh_traffic m) \<Longrightarrow>
   \<exists>kept. counted_ok (fold note_readings (map (List.map_filter reading_of) lives) seen) kept (mh_traffic (sample_all lives m))"
proof (induction lives arbitrary: seen opened m)
  case (Cons live lives)
  let ?rs = "List.map_filter reading_of live"
  have "counted_ok (note_readings ?rs seen) (opened \<union> fst ` set ?rs) (fold count_reading ?rs (mh_traffic m))"
    by (rule counted_ok_round [OF Cons.prems(2)]) (use Cons.prems(1) in auto)
  from counted_ok_close [OF this, of "fst ` set ?rs"]
  have "counted_ok (note_readings ?rs seen) (fst ` set ?rs)
      (mh_traffic (snd (sample_traffic (Some (JObject [(''connections'', JArray live)])) m)))"
    by (simp add: sample_traffic_def sample_loop_readings)
  from Cons.IH [OF _ this] Cons.prems(1) show ?case by (simp add: sample_all_def)
qed (auto simp: sample_all_def)

text \<open>The bytes shown for a node are exactly what its connections last reported. However the samples fall, as long as connections behave, every
  connection is counted once, by the last figure seen of it, and on the node it went out through.\<close>

theorem traffic_counts_last_reading:
  assumes "behaved Map.empty {} (map (List.map_filter reading_of) lives)"
    and "mh_traffic m = \<lparr>tr_total = Map.empty, tr_counted = Map.empty\<rparr>"
  shows "bytes_of (mh_traffic (sample_all lives m)) node = last_sum (fold note_readings (map (List.map_filter reading_of) lives) Map.empty) node"
proof -
  have "counted_ok Map.empty {} (mh_traffic m)" by (simp add: counted_ok_def assms(2) bytes_of_def last_sum_def)
  from sample_all_counted [OF assms(1) this] show ?thesis by (auto simp: counted_ok_def)
qed

section \<open>The nodes worth an account\<close>

text \<open>The nodes that are offered are exactly the ones that reached the game on the last check and do not cost more than the ceiling, the fastest
  first.\<close>

lemma usable_nodes_exact:
  "set (usable_nodes ceiling nodes) = mn_name ` {n \<in> set nodes. mn_alive n = Some True \<and> mn_multiplier n \<le> ceiling}"
  "sorted (map (\<lambda>n. (delay_or_max n, mn_name n))
     (sort_key (\<lambda>n. (delay_or_max n, mn_name n)) (filter (\<lambda>n. mn_multiplier n \<le> ceiling) (filter (\<lambda>n. mn_alive n = Some True) nodes))))"
  by (auto simp: usable_nodes_def)

lemma weigh_plausible: "(\<forall>v. found = Some v \<longrightarrow> de_plausible de v) \<Longrightarrow> weigh de candidate found = Some v \<Longrightarrow> de_plausible de v"
  by (auto simp: weigh_def max_def split: option.splits if_splits)

lemma multiplier_loop_plausible:
  "(\<forall>v. found = Some v \<longrightarrow> de_plausible de v) \<Longrightarrow> multiplier_loop de chars indices found = Some v \<Longrightarrow> de_plausible de v"
proof (induction de chars indices found rule: multiplier_loop.induct)
  case (2 de chars index rest found)
  have "\<forall>v. weigh de (number_before de chars index) (weigh de (number_after de chars (index + 1)) found) = Some v \<longrightarrow> de_plausible de v"
    using weigh_plausible "2.prems"(1) by metis
  with 2 show ?case by (auto split: if_splits)
qed simp

text \<open>Whatever a node is called, its price is par or a plausible multiplier.\<close>

lemma node_multiplier_plausible: "de_plausible de (de_one de) \<Longrightarrow> de_plausible de (node_multiplier de name)"
  using multiplier_loop_plausible [of None de] by (auto simp: node_multiplier_def Let_def split: option.splits)

section \<open>Witnesses\<close>

definition blank_manager :: mihomo_manager where
  "blank_manager = snd (new_manager id ''http://m:'' ''s'' True None None None)"

definition one_exit :: mihomo_manager where
  "one_exit = snd (set_outbound_nodes id True True [''a''] blank_manager)"

definition lanes_answer :: json where
  "lanes_answer = JObject [(''proxies'', JObject [(''MAJSOUL-WATCH'', JNull), (''MAJSOUL-REFETCH'', JNull)])]"

definition ready_exit :: mihomo_manager where
  "ready_exit = apply_runtime_config [\<lparr>tt_reloaded = True, tt_proxies = Some lanes_answer, tt_selects = \<lambda>_ _. True\<rparr>] one_exit"

lemma blank_reachable: "manager_reachable id blank_manager"
  unfolding blank_manager_def by (rule fresh [OF prod.collapse [symmetric]])

lemma one_exit_reachable: "manager_reachable id one_exit"
  unfolding one_exit_def by (rule further [OF blank_reachable outbound [OF prod.collapse [symmetric]]])

lemma ready_exit_reachable: "manager_reachable id ready_exit"
  unfolding ready_exit_def by (rule further [OF one_exit_reachable apply_config])

lemma blank_fields: "mh_slots blank_manager = Map.empty" "mh_leased blank_manager = []" "mh_proxy_url blank_manager = ''http://m:''"
  by (simp_all add: blank_manager_def new_manager_def write_runtime_config_def)

lemma first_slot: "free_slot {} (Suc 0) = Some 1"
  by (simp add: free_slot.simps max_outbounds_def outbound_port_def outbound_port_base_def reserved_ports_def)

lemma refile_first: "refile [n] (Map.empty(k \<mapsto> 1)) = Map.empty(n \<mapsto> 1)" if "n \<noteq> k"
proof -
  have "Map.empty(k \<mapsto> 1) |` set [n] = Map.empty" using that by (auto simp: restrict_map_def)
  then show ?thesis unfolding refile_def Let_def by (simp add: first_slot)
qed

lemma one_exit_fields: "mh_slots one_exit = Map.empty(''a'' \<mapsto> 1)" "mh_leased one_exit = []" "mh_proxy_url one_exit = ''http://m:''"
  by (simp_all add: one_exit_def set_outbound_nodes_def blank_fields refile_def first_slot write_runtime_config_def Let_def)

lemma ready_exit_fields: "mh_slots ready_exit = Map.empty(''a'' \<mapsto> 1)" "mh_leased ready_exit = []" "mh_slots_ready ready_exit" "mh_proxy_url ready_exit = ''http://m:''"
  by (simp_all add: ready_exit_def apply_runtime_config_def lane_attempts_def lane_groups_present_def lanes_answer_def proxies_of_def all_lanes_def lane_group_def
      apply_outbound_selections_def confirm_selections_def one_exit_fields)

theorem refile_keeps_ports_witness: "refile [''b'', ''a''] (Map.empty(''a'' \<mapsto> 1)) ''a'' = Some 1 \<and> dom (refile [''b'', ''a''] (Map.empty(''a'' \<mapsto> 1))) = {''b'', ''a''}"
proof -
  have "slots_ok (Map.empty(''a'' \<mapsto> 1))"
    by (simp add: slots_ok_def slot_ok_def max_outbounds_def outbound_port_def outbound_port_base_def reserved_ports_def)
  from refile_keeps_ports [OF this, of "[''b'', ''a'']"] show ?thesis by simp
qed


theorem leased_exit_keeps_port_witness:
  "mh_slots (save_all id [(True, False, [''b'']), (False, True, [])] (snd (lease_outbound_nodes id True True [''a''] [] blank_manager))) ''a'' = Some 1"
proof (rule leased_exit_keeps_port [OF prod.collapse [symmetric], of _ "[''a'']"])
  show "mh_slots (snd (lease_outbound_nodes id True True [''a''] [] blank_manager)) ''a'' = Some 1"
    by (simp add: lease_outbound_nodes_def set_outbound_nodes_def blank_fields refile_def first_slot write_runtime_config_def Let_def)
qed simp

theorem failed_slot_write_misroutes_witness:
  "proxy_url_for_node (\<lambda>u p. Some (u @ show_nat p)) ''b'' (snd (set_outbound_nodes id False True [''b''] ready_exit)) =
   proxy_url_for_node (\<lambda>u p. Some (u @ show_nat p)) ''a'' ready_exit \<and>
   proxy_url_for_node (\<lambda>u p. Some (u @ show_nat p)) ''a'' ready_exit = Some (''http://m:'' @ show_nat 7901)"
proof -
  have trim: "str_trim ''a'' = ''a''" "str_trim ''b'' = ''b''"
    by (simp_all add: str_trim_def str_chars_Cons_ascii byte_of_char_def is_white_space_def white_space_def as_bytes_def)
  have changed: "refile (add_leased (mh_leased ready_exit) [''b'']) (mh_slots ready_exit) \<noteq> mh_slots ready_exit"
  proof
    assume "refile (add_leased (mh_leased ready_exit) [''b'']) (mh_slots ready_exit) = mh_slots ready_exit"
    then have "(Map.empty(''b'' \<mapsto> 1)) ''a'' = (Map.empty(''a'' \<mapsto> (1::nat))) ''a''"
      unfolding ready_exit_fields add_leased.simps using refile_first [of "''b''" "''a''"] by simp
    then show False by simp
  qed
  have room: "card (set (mh_leased ready_exit) \<union> set [''b'']) \<le> 57634" by (simp add: ready_exit_fields)
  have "mh_slots (snd (set_outbound_nodes id False True [''b''] ready_exit)) ''b'' = Some 1"
    using set_outbound_fields(1) [OF prod.collapse [symmetric], of id False True "[''b'']" ready_exit] refile_first [of "''b''" "''a''"]
    by (simp add: ready_exit_fields)
  moreover have "mh_slots ready_exit ''a'' = Some 1" by (simp add: ready_exit_fields)
  ultimately have "proxy_url_for_node (\<lambda>u p. Some (u @ show_nat p)) ''b'' (snd (set_outbound_nodes id False True [''b''] ready_exit)) =
      proxy_url_for_node (\<lambda>u p. Some (u @ show_nat p)) ''a'' ready_exit"
    using failed_slot_write_misroutes [OF ready_exit_reachable ready_exit_fields(3) room changed prod.collapse [symmetric]] trim by blast
  then show ?thesis by (simp add: proxy_url_for_node_def ready_exit_fields trim outbound_port_def outbound_port_base_def)
qed

definition connection_row :: "string \<Rightarrow> int \<Rightarrow> json" where
  "connection_row cid carried = JObject [(''id'', JString cid), (''chains'', JArray [JString ''n'']), (''download'', JNum carried)]"

theorem traffic_counts_last_reading_witness:
  "bytes_of (mh_traffic (sample_all [[connection_row ''c'' 5], [connection_row ''c'' 9]] blank_manager)) ''n'' = 9"
proof -
  have readings: "map (List.map_filter reading_of) [[connection_row ''c'' 5], [connection_row ''c'' 9]] = [[(''c'', ''n'', 5)], [(''c'', ''n'', 9)]]"
    by (simp add: reading_of_def connection_row_def exit_of_def carried_by_def List.map_filter_simps first_opt_def as_u64_def)
  have "behaved Map.empty {} (map (List.map_filter reading_of) [[connection_row ''c'' 5], [connection_row ''c'' 9]])"
    unfolding readings by (simp add: note_readings_def)
  moreover have "mh_traffic blank_manager = \<lparr>tr_total = Map.empty, tr_counted = Map.empty\<rparr>"
    by (simp add: blank_manager_def new_manager_def write_runtime_config_def)
  ultimately show ?thesis
    using traffic_counts_last_reading [of "[[connection_row ''c'' 5], [connection_row ''c'' 9]]" blank_manager "''n''"]
    unfolding readings by (simp add: note_readings_def last_sum_def)
qed

end
