(* ===== verification/Register.thy ===== *)
theory Register
  imports Mihomo Accounts_Correct "HOL-Library.Multiset"
begin

text \<open>
  \<^verbatim>\<open>src/register_service.rs\<close>: registering a batch of accounts. A run checks what it was asked for, borrows exits from the proxy, works through its
  list with a bounded number of accounts in flight, stores every account in the pool before it counts it, stops after three failures in a row, and
  gives the exits back. What the module and the controller answer, which writes succeed and the random numbers are arguments.
\<close>

section \<open>The request\<close>

definition max_batch :: nat where
  "max_batch = 200"

definition give_up_after :: nat where
  "give_up_after = 3"

definition max_at_once :: nat where
  "max_at_once = 16"

record cloud_mail_config =
  cm_base_url :: string
  cm_token :: string
  cm_admin_email :: string
  cm_admin_password :: string
  cm_domain :: string

record temp_mail_config =
  tm_base_url :: string
  tm_api_key :: string

datatype register_error = Bad_Request string | Module_Error string | Exit_Error string

definition starts_with :: "string \<Rightarrow> string \<Rightarrow> bool" where
  "starts_with prefix s \<longleftrightarrow> take (length prefix) s = prefix"

definition validate_cloud :: "cloud_mail_config \<Rightarrow> register_error + unit" where
  "validate_cloud c =
     (if str_trim (cm_base_url c) = [] then Inl (Bad_Request ''address'')
      else if \<not> starts_with ''http'' (str_trim (cm_base_url c)) then Inl (Bad_Request ''scheme'')
      else if str_trim (cm_token c) = [] \<and> \<not> (str_trim (cm_admin_email c) \<noteq> [] \<and> cm_admin_password c \<noteq> [])
      then Inl (Bad_Request ''credentials'')
      else Inr ())"

definition validate_temp :: "temp_mail_config \<Rightarrow> register_error + unit" where
  "validate_temp c =
     (if str_trim (tm_api_key c) = [] then Inl (Bad_Request ''key'')
      else if str_trim (tm_base_url c) \<noteq> [] \<and> \<not> starts_with ''http'' (str_trim (tm_base_url c)) then Inl (Bad_Request ''scheme'')
      else Inr ())"

record register_request =
  rq_mailboxes :: "string list"
  rq_cloud_mail :: "cloud_mail_config option"
  rq_temp_mail :: "temp_mail_config option"
  rq_count :: nat
  rq_purpose :: account_purpose
  rq_note :: string
  rq_proxy :: "string option"
  rq_concurrency :: nat
  rq_random_node :: bool

definition is_credential :: "string \<Rightarrow> bool" where
  "is_credential line \<longleftrightarrow> line \<noteq> [] \<and> \<not> starts_with ''#'' line"

definition jobs_for :: "register_request \<Rightarrow> register_error + string option list" where
  "jobs_for request =
     (let on_demand = (case (rq_cloud_mail request, rq_temp_mail request) of
            (Some cloud, _) \<Rightarrow> Some (validate_cloud cloud)
          | (None, Some temp) \<Rightarrow> Some (validate_temp temp)
          | (None, None) \<Rightarrow> None)
      in case on_demand of
           Some validated \<Rightarrow>
             attempt validated (\<lambda>_.
               if rq_count request = 0 then Inl (Bad_Request ''count'')
               else if max_batch < rq_count request then Inl (Bad_Request ''too many'')
               else Inr (replicate (rq_count request) None))
         | None \<Rightarrow>
             let mailboxes = map Some (filter is_credential (map str_trim (rq_mailboxes request)))
             in if mailboxes = [] then Inl (Bad_Request ''no mailbox'')
                else if max_batch < length mailboxes then Inl (Bad_Request ''too many'')
                else Inr mailboxes)"

text \<open>The address inside a credential: the first part between white space, commas and hyphens that looks like one.\<close>

definition is_separator :: "string \<Rightarrow> bool" where
  "is_separator c \<longleftrightarrow> is_white_space c \<or> c = '','' \<or> c = ''-''"

fun split_parts :: "string list \<Rightarrow> string \<Rightarrow> string list" where
  "split_parts [] part = [part]"
| "split_parts (c # cs) part = (if is_separator c then part # split_parts cs [] else split_parts cs (part @ c))"

definition is_address :: "string \<Rightarrow> bool" where
  "is_address part =
     (case split_once CHR ''@'' part of
        None \<Rightarrow> False
      | Some (local, domain) \<Rightarrow> local \<noteq> [] \<and> CHR ''.'' \<in> set domain \<and> \<not> starts_with ''.'' domain)"

definition address_of :: "string \<Rightarrow> string option" where
  "address_of credential = find is_address (split_parts (str_chars (str_trim credential)) [])"

definition concurrency_for :: "nat \<Rightarrow> nat \<Rightarrow> nat" where
  "concurrency_for asked jobs = min (max 1 (min asked max_at_once)) (max jobs 1)"

section \<open>Exits\<close>

definition usable_exits :: "outbound_status list \<Rightarrow> string list" where
  "usable_exits outbounds = map os_node (filter confirmed_by outbounds)"

fun borrow_loop :: "string list \<Rightarrow> nat \<Rightarrow> string list \<Rightarrow> string list \<Rightarrow> string list" where
  "borrow_loop held want [] borrowed = borrowed"
| "borrow_loop held want (node # alive) borrowed =
     (if want \<le> length borrowed then borrowed
      else if node \<in> set held \<or> node \<in> set borrowed then borrow_loop held want alive borrowed
      else borrow_loop held want alive (borrowed @ [node]))"

definition nodes_to_borrow :: "string list \<Rightarrow> string list \<Rightarrow> nat \<Rightarrow> string list" where
  "nodes_to_borrow held alive want = borrow_loop held want alive []"

definition swap :: "nat \<Rightarrow> nat \<Rightarrow> 'a list \<Rightarrow> 'a list" where
  "swap i j xs = xs[i := xs ! j, j := xs ! i]"

fun shuffle_down :: "nat \<Rightarrow> (nat \<Rightarrow> nat) \<Rightarrow> 'a list \<Rightarrow> 'a list" where
  "shuffle_down 0 random xs = xs"
| "shuffle_down (Suc i) random xs = shuffle_down i random (swap (Suc i) (random (Suc i) mod (Suc i + 1)) xs)"

definition shuffle :: "(nat \<Rightarrow> nat) \<Rightarrow> 'a list \<Rightarrow> 'a list" where
  "shuffle random xs = shuffle_down (length xs - 1) random xs"

text \<open>What borrowing meets: two readings of the proxy, the random numbers, and the fates of the writes and of the reload.\<close>

record lease_env =
  le_proxies :: "json option"
  le_provider :: "string \<Rightarrow> json option"
  le_random :: "nat \<Rightarrow> nat"
  le_slots_written :: bool
  le_config_written :: bool
  le_attempts :: "config_attempt list"
  le_proxies_after :: "json option"
  le_release_slots :: bool
  le_release_config :: bool
  le_release_attempts :: "config_attempt list"

definition release_exits ::
  "(string \<Rightarrow> string) \<Rightarrow> bool \<Rightarrow> bool \<Rightarrow> config_attempt list \<Rightarrow> string list \<Rightarrow> mihomo_manager \<Rightarrow> mihomo_manager" where
  "release_exits quote slots_written config_written attempts held m =
     (case release_outbound_nodes quote slots_written config_written held m of
        (Inr True, m') \<Rightarrow> apply_runtime_config attempts m'
      | (_, m') \<Rightarrow> m')"

definition lease_exits ::
  "(string \<Rightarrow> string) \<Rightarrow> 'f::linorder decimals \<Rightarrow> (string \<Rightarrow> nat \<Rightarrow> string option) \<Rightarrow> lease_env \<Rightarrow> string list \<Rightarrow> nat \<Rightarrow> mihomo_manager \<Rightarrow>
   (register_error + string list) \<times> mihomo_manager" where
  "lease_exits quote de port_url env held want m =
     (case read_nodes de port_url (le_proxies env) (le_provider env) m of (shown, m1) \<Rightarrow>
      let nodes = (case shown of Inr (_, _, _, nodes) \<Rightarrow> nodes | Inl _ \<Rightarrow> []);
          alive = map mn_name (filter (\<lambda>n. mn_alive n = Some True) nodes)
      in if alive = [] then (Inl (Exit_Error ''no live node''), m1)
         else case lease_outbound_nodes quote (le_slots_written env) (le_config_written env)
                     (nodes_to_borrow held (shuffle (le_random env) alive) want) held m1 of
           (Inl e, m2) \<Rightarrow> (Inl (Exit_Error ''lease''), m2)
         | (Inr _, m2) \<Rightarrow>
             (case read_nodes de port_url (le_proxies_after env) (le_provider env) (apply_runtime_config (le_attempts env) m2) of (shown2, m3) \<Rightarrow>
              let ready = usable_exits (case shown2 of Inr (_, _, outs, _) \<Rightarrow> outs | Inl _ \<Rightarrow> [])
              in if ready = []
                 then (Inl (Exit_Error ''no listener''),
                       release_exits quote (le_release_slots env) (le_release_config env) (le_release_attempts env) held m3)
                 else (Inr ready, m3)))"

section \<open>One account\<close>

datatype register_detail =
    Unsaid
  | Module_Failed register_error
  | Said string
  | No_Password
  | Made "string option" "nat option"
  | Already_Held
  | Not_Stored pool_error

record register_outcome =
  ro_email :: string
  ro_ok :: bool
  ro_account_id :: "nat option"
  ro_nickname :: "string option"
  ro_stage :: string
  ro_detail :: register_detail

record register_progress =
  rp_running :: bool
  rp_total :: nat
  rp_finished :: nat
  rp_succeeded :: nat
  rp_failed :: nat
  rp_current :: "string option"
  rp_outcomes :: "register_outcome list"

definition reported_email :: "json \<Rightarrow> string \<Rightarrow> string" where
  "reported_email reply fallback =
     (case Option.bind (json_get ''email'' reply) as_str of
        Some email \<Rightarrow> if email \<noteq> [] then email else fallback
      | None \<Rightarrow> fallback)"

definition text_or :: "string \<Rightarrow> string \<Rightarrow> json \<Rightarrow> string" where
  "text_or key fallback reply = (case Option.bind (json_get key reply) as_str of Some s \<Rightarrow> s | None \<Rightarrow> fallback)"

record settle_env =
  st_lower :: "string \<Rightarrow> string"
  st_new_id :: "nat \<Rightarrow> string"
  st_now :: int
  st_written :: bool

definition finish_outcome :: "register_outcome \<Rightarrow> register_progress \<Rightarrow> register_progress" where
  "finish_outcome outcome p =
     (let p = p\<lparr>rp_finished := rp_finished p + 1\<rparr>
      in if ro_ok outcome then p\<lparr>rp_succeeded := rp_succeeded p + 1\<rparr> else p\<lparr>rp_failed := rp_failed p + 1\<rparr>)"

definition new_account :: "register_request \<Rightarrow> string option \<Rightarrow> string \<Rightarrow> string \<Rightarrow> stored_account" where
  "new_account request node email password =
     \<lparr>sa_id = [], sa_username = email, sa_password = password, sa_purpose = rq_purpose request, sa_note = rq_note request, sa_enabled = False,
      sa_node = (case node of Some n \<Rightarrow> n | None \<Rightarrow> []), sa_banned_at = None\<rparr>"

definition settle_value :: "settle_env \<Rightarrow> string \<Rightarrow> json \<Rightarrow> register_request \<Rightarrow> string option \<Rightarrow> account_pool \<Rightarrow> register_outcome \<times> account_pool" where
  "settle_value env address reply request node pool =
     (let email = reported_email reply address;
          outcome = \<lparr>ro_email = email, ro_ok = False, ro_account_id = None, ro_nickname = None, ro_stage = [], ro_detail = Unsaid\<rparr>
      in if Option.bind (json_get ''ok'' reply) as_bool \<noteq> Some True
         then (outcome\<lparr>ro_stage := text_or ''stage'' ''unknown'' reply, ro_detail := Said (text_or ''error'' ''unexplained'' reply)\<rparr>, pool)
         else
           let password = text_or ''password'' [] reply;
               nickname = Option.bind (json_get ''nickname'' reply) as_str;
               account_id = Option.bind (json_get ''account_id'' reply) as_u64;
               outcome = outcome\<lparr>ro_account_id := account_id, ro_nickname := nickname\<rparr>
           in if password = [] then (outcome\<lparr>ro_stage := ''password'', ro_detail := No_Password\<rparr>, pool)
              else case append_accounts (st_lower env) (st_new_id env) (st_now env) (st_written env) [new_account request node email password] pool of
                (Inr n, pool') \<Rightarrow>
                  (if n = 1 then outcome\<lparr>ro_ok := True, ro_detail := Made nickname account_id\<rparr>
                   else outcome\<lparr>ro_stage := ''pool'', ro_detail := Already_Held\<rparr>, pool')
              | (Inl e, pool') \<Rightarrow> (outcome\<lparr>ro_stage := ''pool'', ro_detail := Not_Stored e\<rparr>, pool'))"

definition settle_answer ::
  "settle_env \<Rightarrow> string \<Rightarrow> register_error + json \<Rightarrow> register_request \<Rightarrow> string option \<Rightarrow> register_progress \<Rightarrow> account_pool \<Rightarrow>
   register_outcome \<times> register_progress \<times> account_pool" where
  "settle_answer env address reply request node p pool =
     (case (case reply of
              Inl e \<Rightarrow> (\<lparr>ro_email = address, ro_ok = False, ro_account_id = None, ro_nickname = None, ro_stage = ''module'', ro_detail = Module_Failed e\<rparr>, pool)
            | Inr v \<Rightarrow> settle_value env address v request node pool) of
        (outcome, pool') \<Rightarrow> (outcome, finish_outcome outcome p, pool'))"

definition note_result :: "bool \<Rightarrow> nat \<Rightarrow> nat" where
  "note_result ok streak = (if ok then 0 else streak + 1)"

section \<open>The batch\<close>

text \<open>An account in flight is its number in the list, its mailbox and the exit it was given.\<close>

type_synonym in_flight = "nat \<times> string option \<times> string option"

record batch =
  ba_jobs :: "string option list"
  ba_launched :: nat
  ba_streak :: nat
  ba_flight :: "in_flight list"
  ba_stopped :: bool
  ba_closed :: bool
  ba_progress :: register_progress
  ba_pool :: account_pool

definition begin_progress :: "nat \<Rightarrow> register_progress" where
  "begin_progress goal =
     \<lparr>rp_running = True, rp_total = goal, rp_finished = 0, rp_succeeded = 0, rp_failed = 0, rp_current = None, rp_outcomes = []\<rparr>"

definition begin_batch :: "string option list \<Rightarrow> account_pool \<Rightarrow> batch" where
  "begin_batch jobs pool =
     \<lparr>ba_jobs = jobs, ba_launched = 0, ba_streak = 0, ba_flight = [], ba_stopped = False, ba_closed = False,
      ba_progress = begin_progress (length jobs), ba_pool = pool\<rparr>"

definition exit_for :: "string list \<Rightarrow> nat \<Rightarrow> string option" where
  "exit_for exits index = (if exits = [] then None else Some (exits ! (index mod length exits)))"

text \<open>One turn of the loop, once a permit is free.\<close>

definition launch_turn :: "string list \<Rightarrow> bool \<Rightarrow> batch \<Rightarrow> batch" where
  "launch_turn exits current b =
     (case ba_jobs b of
        [] \<Rightarrow> b\<lparr>ba_closed := True\<rparr>
      | mailbox # jobs \<Rightarrow>
          if \<not> current then b\<lparr>ba_stopped := True, ba_closed := True\<rparr>
          else if give_up_after \<le> ba_streak b then b\<lparr>ba_closed := True\<rparr>
          else b\<lparr>ba_jobs := jobs, ba_launched := ba_launched b + 1,
                 ba_flight := ba_flight b @ [(ba_launched b, mailbox, exit_for exits (ba_launched b))]\<rparr>)"

definition address_shown :: "in_flight \<Rightarrow> nat \<Rightarrow> string" where
  "address_shown job goal =
     (case job of
        (index, Some credential, _) \<Rightarrow> (case address_of credential of Some a \<Rightarrow> a | None \<Rightarrow> ''(unreadable)'')
      | (index, None, _) \<Rightarrow> show_nat (index + 1) @ ''/'' @ show_nat goal)"

text \<open>One account to its end: refused when its exit is gone, else whatever the module answers.\<close>

definition one_account ::
  "settle_env \<Rightarrow> (string \<Rightarrow> string option) \<Rightarrow> register_error + json \<Rightarrow> register_request \<Rightarrow> nat \<Rightarrow> batch \<Rightarrow> batch" where
  "one_account env proxy_of reply request k b =
     (let (index, mailbox, node) = ba_flight b ! k;
          address = address_shown (ba_flight b ! k) (rp_total (ba_progress b));
          lost = (case node of Some name \<Rightarrow> proxy_of name = None | None \<Rightarrow> False);
          (outcome, p, pool) = (if lost then settle_answer env address (Inl (Exit_Error ''listener gone'')) request None (ba_progress b) (ba_pool b)
            else settle_answer env address reply request node ((ba_progress b)\<lparr>rp_current := Some address\<rparr>) (ba_pool b))
      in b\<lparr>ba_flight := take k (ba_flight b) @ drop (Suc k) (ba_flight b), ba_streak := note_result (ro_ok outcome) (ba_streak b),
           ba_progress := p\<lparr>rp_outcomes := rp_outcomes p @ [outcome]\<rparr>, ba_pool := pool\<rparr>)"

inductive batch_step :: "register_request \<Rightarrow> string list \<Rightarrow> nat \<Rightarrow> batch \<Rightarrow> batch \<Rightarrow> bool" for request exits concurrency where
  launching: "\<not> ba_closed b \<Longrightarrow> length (ba_flight b) < concurrency \<Longrightarrow> batch_step request exits concurrency b (launch_turn exits current b)"
| landing: "k < length (ba_flight b) \<Longrightarrow> batch_step request exits concurrency b (one_account env proxy_of reply request k b)"

inductive batch_reachable :: "register_request \<Rightarrow> string list \<Rightarrow> string option list \<Rightarrow> account_pool \<Rightarrow> batch \<Rightarrow> bool" for request exits jobs pool where
  batch_begins: "batch_reachable request exits jobs pool (begin_batch jobs pool)"
| batch_goes_on: "batch_reachable request exits jobs pool b \<Longrightarrow>
    batch_step request exits (concurrency_for (rq_concurrency request) (length jobs)) b b' \<Longrightarrow> batch_reachable request exits jobs pool b'"

datatype batch_message = Was_Stopped | Gave_Up nat | Batch_Done nat nat

definition batch_message_of :: "nat \<Rightarrow> batch \<Rightarrow> batch_message" where
  "batch_message_of goal b =
     (if ba_stopped b then Was_Stopped
      else if give_up_after \<le> ba_streak b then Gave_Up (goal - ba_launched b)
      else Batch_Done (rp_succeeded (ba_progress b)) (rp_failed (ba_progress b)))"

section \<open>Starting and stopping\<close>

text \<open>\<open>start\<close> marks the run as running under the lock of the progress and reads the generation after it has let the lock go; \<open>stop\<close> moves the
  generation of whatever is running.\<close>

record register_service =
  rs_progress :: register_progress
  rs_generation :: nat

definition mark_running :: "register_request \<Rightarrow> register_service \<Rightarrow> (register_error + string option list) \<times> register_service" where
  "mark_running request s =
     (case jobs_for request of
        Inl e \<Rightarrow> (Inl e, s)
      | Inr jobs \<Rightarrow>
          if rp_running (rs_progress s) then (Inl (Bad_Request ''already running''), s)
          else (Inr jobs, s\<lparr>rs_progress := begin_progress (length jobs)\<rparr>))"

definition stop_register :: "register_service \<Rightarrow> bool \<times> register_service" where
  "stop_register s =
     (if rp_running (rs_progress s) then (True, s\<lparr>rs_generation := rs_generation s + 1\<rparr>) else (False, s))"

definition still_current :: "nat \<Rightarrow> register_service \<Rightarrow> bool" where
  "still_current generation s \<longleftrightarrow> rs_generation s = generation"

section \<open>What a batch keeps\<close>

lemma append_one:
  assumes "append_accounts lower new_id now written [a] pool = (r, pool')"
  shows "(\<exists>x. r = Inr 1 \<and> ap_document pool' = x \<and> ap_file pool' = Some x \<and>
      ad_accounts x = ad_accounts (ap_document pool) @ [a\<lparr>sa_username := str_trim (sa_username a), sa_id := (if sa_id a = [] then new_id 0 else sa_id a)\<rparr>]) \<or>
    (r \<noteq> Inr 1 \<and> pool' = pool)"
  using assms
  by (auto simp: append_accounts_def commit_document_def Let_def split: if_splits sum.splits)

text \<open>The pool an outcome leaves: one more account, disabled and with the password the module gave, or the pool as it was.\<close>

definition stored_by :: "register_request \<Rightarrow> register_outcome \<Rightarrow> account_pool \<Rightarrow> account_pool \<Rightarrow> bool" where
  "stored_by request outcome pool pool' \<longleftrightarrow>
     (if ro_ok outcome
      then ap_file pool' = Some (ap_document pool') \<and>
        (\<exists>a. ad_accounts (ap_document pool') = ad_accounts (ap_document pool) @ [a] \<and> sa_username a = str_trim (ro_email outcome) \<and>
           sa_password a \<noteq> [] \<and> \<not> sa_enabled a \<and> sa_purpose a = rq_purpose request)
      else pool' = pool)"

lemma settle_value_stored: "settle_value env address reply request node pool = (outcome, pool') \<Longrightarrow> stored_by request outcome pool pool'"
proof -
  assume settled: "settle_value env address reply request node pool = (outcome, pool')"
  let ?email = "reported_email reply address" and ?password = "text_or ''password'' [] reply"
  show ?thesis
  proof (cases "Option.bind (json_get ''ok'' reply) as_bool = Some True \<and> ?password \<noteq> []")
    case True
    obtain r pool2 where added: "append_accounts (st_lower env) (st_new_id env) (st_now env) (st_written env) [new_account request node ?email ?password] pool = (r, pool2)"
      by fastforce
    from append_one [OF added] settled True added show ?thesis
      by (auto simp: settle_value_def stored_by_def new_account_def Let_def split: sum.splits if_splits)
  next
    case False
    then show ?thesis using settled by (cases "?password = []") (auto simp: settle_value_def stored_by_def Let_def split: if_splits)
  qed
qed

lemma settle_stored:
  assumes "settle_answer env address reply request node p pool = (outcome, p', pool')"
  shows "stored_by request outcome pool pool' \<and> p' = finish_outcome outcome p"
proof (cases reply)
  case (Inr v)
  obtain out2 pool2 where v: "settle_value env address v request node pool = (out2, pool2)" by fastforce
  from settle_value_stored [OF v] assms v Inr show ?thesis by (auto simp: settle_answer_def)
qed (use assms in \<open>auto simp: settle_answer_def stored_by_def\<close>)

lemma one_account_settles:
  assumes "k < length (ba_flight b)"
  obtains outcome node pool where "one_account env proxy_of reply request k b =
      b\<lparr>ba_flight := take k (ba_flight b) @ drop (Suc k) (ba_flight b), ba_streak := note_result (ro_ok outcome) (ba_streak b),
        ba_progress := (finish_outcome outcome (ba_progress b\<lparr>rp_current := node\<rparr>))\<lparr>rp_outcomes := rp_outcomes (ba_progress b) @ [outcome]\<rparr>,
        ba_pool := pool\<rparr>" and "stored_by request outcome (ba_pool b) pool"
proof -
  obtain index mailbox node where job: "ba_flight b ! k = (index, mailbox, node)" using prod_cases3 by blast
  let ?address = "address_shown (ba_flight b ! k) (rp_total (ba_progress b))"
  let ?lost = "case node of Some name \<Rightarrow> proxy_of name = None | None \<Rightarrow> False"
  obtain outcome p pool where run:
    "(if ?lost then settle_answer env ?address (Inl (Exit_Error ''listener gone'')) request None (ba_progress b) (ba_pool b)
      else settle_answer env ?address reply request node ((ba_progress b)\<lparr>rp_current := Some ?address\<rparr>) (ba_pool b)) = (outcome, p, pool)"
    using prod_cases3 by blast
  have shape: "one_account env proxy_of reply request k b =
      b\<lparr>ba_flight := take k (ba_flight b) @ drop (Suc k) (ba_flight b), ba_streak := note_result (ro_ok outcome) (ba_streak b),
        ba_progress := p\<lparr>rp_outcomes := rp_outcomes p @ [outcome]\<rparr>, ba_pool := pool\<rparr>"
    unfolding one_account_def job Let_def prod.case using run [unfolded job] by (simp only: prod.case)
  have "stored_by request outcome (ba_pool b) pool"
    "p = finish_outcome outcome (if ?lost then ba_progress b else (ba_progress b)\<lparr>rp_current := Some ?address\<rparr>)"
    using run settle_stored by (cases ?lost; fastforce)+
  moreover have "p\<lparr>rp_outcomes := rp_outcomes p @ [outcome]\<rparr> =
      (finish_outcome outcome (ba_progress b\<lparr>rp_current := (if ?lost then rp_current (ba_progress b) else Some ?address)\<rparr>))
        \<lparr>rp_outcomes := rp_outcomes (ba_progress b) @ [outcome]\<rparr>"
    unfolding calculation(2) by (simp add: finish_outcome_def Let_def)
  ultimately show ?thesis using that shape by metis
qed

definition batch_ok :: "register_request \<Rightarrow> nat \<Rightarrow> nat \<Rightarrow> account_pool \<Rightarrow> batch \<Rightarrow> bool" where
  "batch_ok request goal concurrency pool b \<longleftrightarrow>
     (let p = ba_progress b
      in rp_finished p = rp_succeeded p + rp_failed p \<and> rp_finished p = length (rp_outcomes p) \<and> rp_succeeded p = length (filter ro_ok (rp_outcomes p)) \<and>
         ba_launched b = rp_finished p + length (ba_flight b) \<and> ba_launched b + length (ba_jobs b) = goal \<and> length (ba_flight b) \<le> concurrency \<and>
         (rp_succeeded p = 0 \<longrightarrow> ba_streak b = rp_failed p \<and> ba_launched b \<le> 2 + concurrency) \<and>
         (\<exists>made. ad_accounts (ap_document (ba_pool b)) = ad_accounts (ap_document pool) @ made \<and>
            map sa_username made = map (str_trim \<circ> ro_email) (filter ro_ok (rp_outcomes p)) \<and>
            (\<forall>a \<in> set made. sa_password a \<noteq> [] \<and> \<not> sa_enabled a \<and> sa_purpose a = rq_purpose request)) \<and>
         (0 < rp_succeeded p \<longrightarrow> ap_file (ba_pool b) = Some (ap_document (ba_pool b))))"

lemma batch_ok_launch:
  assumes "batch_ok request goal concurrency pool b" and "length (ba_flight b) < concurrency"
  shows "batch_ok request goal concurrency pool (launch_turn exits current b)"
  using assms by (auto simp: batch_ok_def launch_turn_def give_up_after_def Let_def split: list.splits)

lemma batch_ok_land:
  assumes ok: "batch_ok request goal concurrency pool b" and k: "k < length (ba_flight b)"
  shows "batch_ok request goal concurrency pool (one_account env proxy_of reply request k b)"
proof -
  obtain outcome node pool' where run: "one_account env proxy_of reply request k b =
      b\<lparr>ba_flight := take k (ba_flight b) @ drop (Suc k) (ba_flight b), ba_streak := note_result (ro_ok outcome) (ba_streak b),
        ba_progress := (finish_outcome outcome (ba_progress b\<lparr>rp_current := node\<rparr>))\<lparr>rp_outcomes := rp_outcomes (ba_progress b) @ [outcome]\<rparr>,
        ba_pool := pool'\<rparr>" and stored: "stored_by request outcome (ba_pool b) pool'"
    using one_account_settles [OF k, of env proxy_of reply request] by blast
  have flight: "length (take k (ba_flight b) @ drop (Suc k) (ba_flight b)) = length (ba_flight b) - 1" "0 < length (ba_flight b)"
    using k by auto
  show ?thesis
  proof (cases "ro_ok outcome")
    case False
    with ok stored flight show ?thesis
      unfolding run batch_ok_def by (auto simp: stored_by_def finish_outcome_def note_result_def Let_def)
  next
    case True
    from ok obtain made where made: "ad_accounts (ap_document (ba_pool b)) = ad_accounts (ap_document pool) @ made"
        "map sa_username made = map (str_trim \<circ> ro_email) (filter ro_ok (rp_outcomes (ba_progress b)))"
        "\<forall>a \<in> set made. sa_password a \<noteq> [] \<and> \<not> sa_enabled a \<and> sa_purpose a = rq_purpose request"
      by (auto simp: batch_ok_def Let_def)
    from stored True obtain a where a: "ad_accounts (ap_document pool') = ad_accounts (ap_document pool) @ made @ [a]" "sa_username a = str_trim (ro_email outcome)"
        "sa_password a \<noteq> [] \<and> \<not> sa_enabled a \<and> sa_purpose a = rq_purpose request" "ap_file pool' = Some (ap_document pool')"
      by (auto simp: stored_by_def made(1))
    have "\<exists>made'. ad_accounts (ap_document pool') = ad_accounts (ap_document pool) @ made' \<and>
        map sa_username made' = map (str_trim \<circ> ro_email) (filter ro_ok (rp_outcomes (ba_progress b) @ [outcome])) \<and>
        (\<forall>a \<in> set made'. sa_password a \<noteq> [] \<and> \<not> sa_enabled a \<and> sa_purpose a = rq_purpose request)"
      by (rule exI [of _ "made @ [a]"]) (use True a made in simp)
    with ok True a(4) flight show ?thesis
      unfolding run batch_ok_def by (auto simp: finish_outcome_def note_result_def Let_def)
  qed
qed

lemma batch_reachable_ok:
  "batch_reachable request exits jobs pool b \<Longrightarrow>
   batch_ok request (length jobs) (concurrency_for (rq_concurrency request) (length jobs)) pool b"
proof (induction rule: batch_reachable.induct)
  case (batch_goes_on b b')
  from batch_goes_on(2,3) show ?case by (induction rule: batch_step.induct) (simp_all add: batch_ok_launch batch_ok_land)
qed (simp add: batch_ok_def begin_batch_def begin_progress_def Let_def)


text \<open>A batch that cannot work costs little. While nothing has succeeded, no more accounts have been started than two and the number allowed at
  once, at most eighteen, however long the list is.\<close>

theorem hopeless_batch_bounded:
  assumes "batch_reachable request exits jobs pool b" and "rp_succeeded (ba_progress b) = 0"
  shows "ba_launched b \<le> 2 + concurrency_for (rq_concurrency request) (length jobs) \<and> ba_launched b \<le> 18"
proof -
  have "concurrency_for (rq_concurrency request) (length jobs) \<le> 16" by (simp add: concurrency_for_def max_at_once_def)
  then show ?thesis using batch_reachable_ok [OF assms(1)] assms(2) by (auto simp: batch_ok_def Let_def)
qed

text \<open>Round robin does not keep accounts apart. With two exits and two accounts at once, the third account is given the first exit while the
  first account is still out there: when the second one finishes first, both accounts in flight share one exit and the other exit is idle.\<close>

theorem round_robin_shares_exit:
  assumes "rq_concurrency request = 2"
  shows "\<exists>b. batch_reachable request [x, y] [j1, j2, j3] pool b \<and> map (snd \<circ> snd) (ba_flight b) = [Some x, Some x]"
proof -
  let ?R = "batch_reachable request [x, y] [j1, j2, j3] pool"
  have two: "concurrency_for (rq_concurrency request) (length [j1, j2, j3]) = 2"
    using assms by (simp add: concurrency_for_def max_at_once_def)
  note go = batch_goes_on [of request "[x, y]" "[j1, j2, j3]" pool, unfolded two]
  let ?b0 = "begin_batch [j1, j2, j3] pool"
  let ?b1 = "launch_turn [x, y] True ?b0"
  let ?b2 = "launch_turn [x, y] True ?b1"
  let ?b3 = "one_account undefined (\<lambda>_. None) (Inl (Module_Error [])) request (Suc 0) ?b2"
  let ?b4 = "launch_turn [x, y] True ?b3"
  have b2: "ba_flight ?b2 = [(0, j1, Some x), (1, j2, Some y)]" "ba_jobs ?b2 = [j3]" "ba_closed ?b2 = False" "ba_launched ?b2 = 2" "ba_streak ?b2 = 0"
    by (simp_all add: launch_turn_def begin_batch_def give_up_after_def exit_for_def)
  have r1: "?R ?b1" by (rule go [OF batch_begins launching]) (simp_all add: begin_batch_def)
  have r2: "?R ?b2" by (rule go [OF r1 launching]) (simp_all add: launch_turn_def begin_batch_def give_up_after_def)
  have r3: "?R ?b3" by (rule go [OF r2 landing]) (simp add: b2)
  have b3: "ba_flight ?b3 = [(0, j1, Some x)]" "ba_jobs ?b3 = [j3]" "ba_closed ?b3 = False" "ba_launched ?b3 = 2" "ba_streak ?b3 = 1"
    using b2 by (simp_all add: one_account_def Let_def settle_answer_def note_result_def)
  have r4: "?R ?b4" by (rule go [OF r3 launching]) (simp_all add: b3)
  have first: "exit_for [x, y] 2 = Some x" by (simp add: exit_for_def numeral_2_eq_2)
  have "map (snd \<circ> snd) (ba_flight ?b4) = [Some x, Some x]" using b3 first by (simp add: launch_turn_def [of _ _ ?b3] give_up_after_def)
  with r4 have "?R ?b4 \<and> map (snd \<circ> snd) (ba_flight ?b4) = [Some x, Some x]" by (rule conjI)
  then show ?thesis by (rule exI)
qed

section \<open>The list of jobs\<close>

text \<open>A list that is accepted has between one and two hundred jobs; with mailboxes, they are the lines that are neither blank nor comments, in order.\<close>

lemma jobs_for_accepted:
  assumes "jobs_for request = Inr jobs"
  shows "0 < length jobs \<and> length jobs \<le> 200 \<and>
    (jobs = map Some (filter is_credential (map str_trim (rq_mailboxes request))) \<or> jobs = replicate (rq_count request) None)"
  using assms
  by (auto simp: jobs_for_def max_batch_def Let_def attempt_def split: option.splits prod.splits if_splits sum.splits)

lemma concurrency_for_bounds: "1 \<le> concurrency_for asked jobs \<and> concurrency_for asked jobs \<le> 16 \<and> (0 < jobs \<longrightarrow> concurrency_for asked jobs \<le> jobs)"
  by (simp add: concurrency_for_def max_at_once_def)

section \<open>Borrowed exits\<close>

lemma mset_swap: "i < length xs \<Longrightarrow> j < length xs \<Longrightarrow> mset (swap i j xs) = mset xs"
  by (simp add: swap_def mset_swap)

lemma shuffle_down_mset: "i < length xs \<or> i = 0 \<Longrightarrow> mset (shuffle_down i random xs) = mset xs"
proof (induction i random xs rule: shuffle_down.induct)
  case (2 i random xs)
  have "random (Suc i) mod (Suc i + 1) < Suc i + 1" by (rule mod_less_divisor) simp
  then have "random (Suc i) mod (Suc i + 1) < length xs" using "2.prems" by linarith
  then have "mset (swap (Suc i) (random (Suc i) mod (Suc i + 1)) xs) = mset xs" using "2.prems" by (intro mset_swap) auto
  moreover have "length (swap (Suc i) (random (Suc i) mod (Suc i + 1)) xs) = length xs" by (simp add: swap_def)
  ultimately show ?case using 2 by simp
qed simp

text \<open>The shuffle loses and invents no node, whatever is drawn.\<close>

lemma shuffle_permutes: "mset (shuffle random xs) = mset xs"
  by (cases xs) (simp_all add: shuffle_def shuffle_down_mset)

lemma borrow_loop_ok:
  "distinct borrowed \<Longrightarrow> set borrowed \<inter> set held = {} \<Longrightarrow> length borrowed \<le> want \<Longrightarrow>
   (let out = borrow_loop held want alive borrowed in
     distinct out \<and> set out \<inter> set held = {} \<and> length out \<le> want \<and> set out \<subseteq> set borrowed \<union> set alive \<and> set borrowed \<subseteq> set out \<and>
     (length out < want \<longrightarrow> set alive - set held \<subseteq> set out))"
proof (induction held want alive borrowed rule: borrow_loop.induct)
  case (2 held want node alive borrowed)
  then show ?case
    by (cases "want \<le> length borrowed"; cases "node \<in> set held \<or> node \<in> set borrowed") (auto simp: Let_def)
qed (simp add: Let_def)

text \<open>What is borrowed is live, nobody's, named once, no more than asked for, and everything there is when that is less.\<close>

lemma nodes_to_borrow_ok:
  "let out = nodes_to_borrow held alive want in
     distinct out \<and> set out \<subseteq> set alive - set held \<and> length out \<le> want \<and> (length out < want \<longrightarrow> set out = set alive - set held)"
  using borrow_loop_ok [of "[]" held want alive] by (auto simp: nodes_to_borrow_def Let_def)

lemma release_exits_fields:
  "mh_leased (release_exits quote sw cw attempts held m) = [] \<and>
   mh_slots (release_exits quote sw cw attempts held m) = refile held (mh_slots m)"
proof -
  obtain r m' where step: "set_outbound_nodes quote sw cw held (m\<lparr>mh_leased := []\<rparr>) = (r, m')" by fastforce
  have leased: "mh_leased (apply_attempts as x) = mh_leased x" for as x
    by (induction as x rule: apply_attempts.induct) (simp_all add: apply_outbound_selections_def confirm_selections_def)
  have "release_exits quote sw cw attempts held m \<in> {m', apply_runtime_config attempts m'}"
    using step by (auto simp: release_exits_def release_outbound_nodes_def split: sum.splits bool.splits)
  then show ?thesis using set_outbound_fields(1,2) [OF step] apply_attempts_fields leased by (auto simp: apply_runtime_config_def)
qed

lemma lease_exits_cases:
  assumes "lease_exits quote de port_url env held want m = (r, m')"
  obtains (nobody) m1 shown where "read_nodes de port_url (le_proxies env) (le_provider env) m = (shown, m1)" "r = Inl (Exit_Error ''no live node'')" "m' = m1"
  | (refused) m1 e nodes where "lease_outbound_nodes quote (le_slots_written env) (le_config_written env) nodes held m1 = (Inl e, m')"
      "r = Inl (Exit_Error ''lease'')"
  | (dark) m3 where "r = Inl (Exit_Error ''no listener'')" "m' = release_exits quote (le_release_slots env) (le_release_config env) (le_release_attempts env) held m3"
  | (ready) m2 shown2 ready where "read_nodes de port_url (le_proxies_after env) (le_provider env) m2 = (shown2, m')"
      "r = Inr ready" "ready = usable_exits (case shown2 of Inr (_, _, outs, _) \<Rightarrow> outs | Inl _ \<Rightarrow> [])" "ready \<noteq> []"
proof -
  obtain shown m1 where read: "read_nodes de port_url (le_proxies env) (le_provider env) m = (shown, m1)" by fastforce
  let ?nodes = "case shown of Inr (_, _, _, nodes) \<Rightarrow> nodes | Inl _ \<Rightarrow> []"
  let ?alive = "map mn_name (filter (\<lambda>n. mn_alive n = Some True) ?nodes)"
  show ?thesis
  proof (cases "?alive = []")
    case True
    with assms read nobody show ?thesis by (simp add: lease_exits_def)
  next
    case False
    let ?borrowed = "nodes_to_borrow held (shuffle (le_random env) ?alive) want"
    obtain r2 m2 where lease: "lease_outbound_nodes quote (le_slots_written env) (le_config_written env) ?borrowed held m1 = (r2, m2)" by fastforce
    show ?thesis
    proof (cases r2)
      case (Inl e)
      with assms read lease False have "r = Inl (Exit_Error ''lease'')" "m' = m2" by (simp_all add: lease_exits_def Let_def)
      with lease Inl refused show ?thesis by simp
    next
      case (Inr changed)
      obtain shown2 m3 where again: "read_nodes de port_url (le_proxies_after env) (le_provider env) (apply_runtime_config (le_attempts env) m2) = (shown2, m3)" by fastforce
      let ?ready = "usable_exits (case shown2 of Inr (_, _, outs, _) \<Rightarrow> outs | Inl _ \<Rightarrow> [])"
      have all: "(r, m') = (if ?ready = [] then (Inl (Exit_Error ''no listener''),
          release_exits quote (le_release_slots env) (le_release_config env) (le_release_attempts env) held m3) else (Inr ?ready, m3))"
        using assms read lease False Inr again by (simp add: lease_exits_def Let_def)
      show ?thesis
      proof (cases "?ready = []")
        case True
        with all dark show ?thesis by simp
      next
        case False
        with all again ready show ?thesis by simp
      qed
    qed
  qed
qed

text \<open>A run goes out only of exits the proxy has confirmed. When a run is given exits, each of them has a slot, and the proxy, asked after it took the
  configuration, showed the group of that slot on that very node.\<close>

theorem leased_exits_confirmed:
  assumes "lease_exits quote de port_url env held want m = (Inr ready, m')" and "node \<in> set ready"
    and "finite (dom (mh_slots m'))"
  shows "ready \<noteq> [] \<and> (\<exists>v proxies slot. le_proxies_after env = Some v \<and> proxies_of v = Some proxies \<and> mh_slots m' node = Some slot \<and>
    group_now (map_of proxies (outbound_group slot)) = Some node)"
  using assms(1)
proof (cases rule: lease_exits_cases)
  case (ready m2 shown2 ready2)
  then obtain selected lanes outs nodes where shown: "shown2 = Inr (selected, lanes, outs, nodes)" "ready2 = usable_exits outs"
    by (cases shown2) (auto simp: usable_exits_def)
  with ready assms(2,3) show ?thesis
    by (auto simp: read_nodes_def Let_def usable_exits_def confirmed_by_def outbound_status_of_def split: option.splits)
qed auto

text \<open>A lease that fails is never given back. When the slots could not be written, the run ends with an error and without giving back what it had
  noted as borrowed; from then on every save of the account pool files slots for nodes nobody uses, until another run borrows or the process
  starts anew.\<close>

theorem failed_lease_is_kept:
  assumes "lease_outbound_nodes quote slots_written config_written nodes held m = (Inl e, m')"
    and "slots_ok (mh_slots m)" and "\<forall>(sw, cw, wanted) \<in> set saves. card (set nodes \<union> set wanted) \<le> 57634"
  shows "mh_leased (save_all quote saves m') = nodes \<and> (saves \<noteq> [] \<longrightarrow> set nodes \<subseteq> dom (mh_slots (save_all quote saves m')))"
proof -
  note step = assms(1) [unfolded lease_outbound_nodes_def]
  have "mh_leased m' = nodes" "slots_ok (mh_slots m')"
    using set_outbound_fields(1,2) [OF step] refile_ok [OF assms(2)] by simp_all
  then show ?thesis using assms(3)
  proof (induction saves arbitrary: m')
    case (Cons s saves)
    obtain sw cw wanted where s: "s = (sw, cw, wanted)" using prod_cases3 by blast
    obtain r m2 where save: "set_outbound_nodes quote sw cw wanted m' = (r, m2)" by fastforce
    note fields = set_outbound_fields(1,2) [OF save]
    have room: "card (set (add_leased (mh_leased m') wanted)) \<le> 57634" using Cons.prems(1,3) s by (simp add: add_leased_set)
    have dom: "set nodes \<subseteq> dom (mh_slots m2)"
      using refile_complete [OF Cons.prems(2) room] Cons.prems(1) unfolding fields by (simp add: add_leased_set)
    have ok: "mh_leased m2 = nodes" "slots_ok (mh_slots m2)" using fields Cons.prems(1,2) refile_ok by simp_all
    from Cons.IH [OF ok] Cons.prems(3) s save dom show ?case by (cases saves) auto
  qed simp
qed

section \<open>Stopping a run\<close>

text \<open>A stop that falls between the two halves of \<open>start\<close> is acknowledged and has no effect: the run reads the generation the stop has just moved.\<close>

lemma stop_between_is_lost:
  assumes "mark_running request s = (Inr jobs, s1)" and "stop_register s1 = (stopped, s2)"
  shows "stopped \<and> still_current (rs_generation s2) s2"
  using assms by (auto simp: mark_running_def stop_register_def begin_progress_def still_current_def split: sum.splits if_splits)

text \<open>A stop that comes later does end it.\<close>

lemma stop_after_start: "rp_running (rs_progress s) \<Longrightarrow> stop_register s = (stopped, s') \<Longrightarrow> stopped \<and> \<not> still_current (rs_generation s) s'"
  by (auto simp: stop_register_def still_current_def)

section \<open>Addresses\<close>

text \<open>A hyphen in an address cuts it: what is shown and logged is another address.\<close>

lemma hyphenated_address_cut: "address_of ''jo-an@mail.org----secret'' = Some ''an@mail.org''"
proof -
  have ascii: "is_ascii ''jo-an@mail.org----secret''" by (simp add: is_ascii_def byte_of_char_def)
  have trim: "str_trim ''jo-an@mail.org----secret'' = ''jo-an@mail.org----secret''"
    by (simp add: str_trim_def str_chars_ascii [OF ascii] is_white_space_def white_space_def as_bytes_def byte_of_char_def)
  show ?thesis unfolding address_of_def trim str_chars_ascii [OF ascii]
    by (simp add: is_separator_def is_white_space_def white_space_def as_bytes_def byte_of_char_def is_address_def starts_with_def)
qed

section \<open>Witnesses\<close>

definition small_request :: register_request where
  "small_request = \<lparr>rq_mailboxes = [], rq_cloud_mail = None, rq_temp_mail = Some \<lparr>tm_base_url = [], tm_api_key = ''k''\<rparr>, rq_count = 3, rq_purpose = Refetch,
     rq_note = [], rq_proxy = None, rq_concurrency = 2, rq_random_node = False\<rparr>"

definition empty_pool :: account_pool where
  "empty_pool = \<lparr>ap_file = None, ap_document = default_document, ap_health = Map.empty\<rparr>"

definition plain_settle :: settle_env where
  "plain_settle = \<lparr>st_lower = ascii_lower, st_new_id = \<lambda>n. ''id'', st_now = 0, st_written = True\<rparr>"

definition good_reply :: json where
  "good_reply = JObject [(''ok'', JBool True), (''email'', JString ''a''), (''password'', JString ''p'')]"

definition one_landed :: batch where
  "one_landed = one_account plain_settle (\<lambda>_. None) (Inr good_reply) small_request 0 (launch_turn [] True (begin_batch [None, None, None] empty_pool))"

lemma small_concurrency: "concurrency_for (rq_concurrency small_request) (length [None, None, None :: string option]) = 2"
  by (simp add: concurrency_for_def small_request_def max_at_once_def)

lemma one_landed_reachable: "batch_reachable small_request [] [None, None, None] empty_pool one_landed"
proof -
  note go = batch_goes_on [of small_request "[]" "[None, None, None]" empty_pool, unfolded small_concurrency]
  have up: "batch_reachable small_request [] [None, None, None] empty_pool (launch_turn [] True (begin_batch [None, None, None] empty_pool))"
    by (rule go [OF batch_begins launching]) (simp_all add: begin_batch_def)
  show ?thesis unfolding one_landed_def
    by (rule go [OF up landing]) (simp add: launch_turn_def begin_batch_def give_up_after_def)
qed

lemma one_landed_fields: "rp_outcomes (ba_progress one_landed) \<noteq> []" "ba_launched one_landed = 1"
  by (simp_all add: one_landed_def one_account_def launch_turn_def begin_batch_def give_up_after_def exit_for_def Let_def split: prod.splits)


definition none_landed :: batch where
  "none_landed = launch_turn [] True (begin_batch [None, None, None] empty_pool)"

theorem hopeless_batch_bounded_witness:
  "rp_succeeded (ba_progress none_landed) = 0 \<and> ba_launched none_landed = 1 \<and> ba_launched none_landed \<le> 2 + concurrency_for (rq_concurrency small_request) 3"
proof -
  have up: "batch_reachable small_request [] [None, None, None] empty_pool none_landed" unfolding none_landed_def
    by (rule batch_goes_on [OF batch_begins launching]) (simp_all add: begin_batch_def concurrency_for_def small_request_def max_at_once_def)
  have fields: "rp_succeeded (ba_progress none_landed) = 0" "ba_launched none_landed = 1"
    by (simp_all add: none_landed_def launch_turn_def begin_batch_def begin_progress_def give_up_after_def)
  from hopeless_batch_bounded [OF up fields(1)] fields show ?thesis by simp
qed

theorem round_robin_shares_exit_witness:
  "rq_concurrency small_request = 2 \<and>
   (\<exists>b. batch_reachable small_request [''x'', ''y''] [None, None, None] empty_pool b \<and> map (snd \<circ> snd) (ba_flight b) = [Some ''x'', Some ''x''])"
  using round_robin_shares_exit [of small_request "''x''" "''y''" None None None empty_pool] by (simp add: small_request_def)

theorem failed_lease_is_kept_witness:
  "fst (lease_outbound_nodes id False True [''a''] [] blank_manager) = Inl Io_Error \<and>
   ''a'' \<in> dom (mh_slots (save_all id [(True, True, [])] (snd (lease_outbound_nodes id False True [''a''] [] blank_manager))))"
proof -
  have failed: "fst (lease_outbound_nodes id False True [''a''] [] blank_manager) = Inl Io_Error"
    by (simp add: lease_outbound_nodes_def set_outbound_nodes_def blank_fields refile_def first_slot Let_def)
  then have run: "lease_outbound_nodes id False True [''a''] [] blank_manager = (Inl Io_Error, snd (lease_outbound_nodes id False True [''a''] [] blank_manager))"
    by (metis prod.collapse)
  have "slots_ok (mh_slots blank_manager)" by (simp add: blank_fields)
  from failed_lease_is_kept [OF run this, of "[(True, True, [])]"] failed show ?thesis by simp
qed

end
