(* ===== verification/Client_Version.thy ===== *)
theory Client_Version
  imports Watch_Log
begin

text \<open>
  \<^verbatim>\<open>src/managed_watch.rs\<close>, the client version a login carries: reading and writing \<^verbatim>\<open>0.<minor>.<patch>\<close>
  as one number, the file that shares the last version floor found, and the search for the lowest
  version the server accepts after it refused one. A login is an argument with a state of its own, so
  its answers may change from one attempt to the next; the numbers are 32-bit words and wrap.
  The lemmas show that print and parse are inverse, that the search returns the floor of any server whose
  accepted versions are upward-closed, in at most nineteen logins, and that whatever the server answers a
  version is published only after a login with it succeeded and one with its predecessor failed.
\<close>

section \<open>Versions as numbers\<close>

definition cn_code_version :: string where
  "cn_code_version = ''0.16.257''"

definition version_search_span :: u32 where
  "version_search_span = 4096"

definition parse_version :: "string \<Rightarrow> u32 option" where
  "parse_version version =
     (case split_on CHR ''.'' version of
        zero # parts \<Rightarrow>
          if zero \<noteq> ''0'' then None
          else (case parts of
                  minor_text # patch_text # others \<Rightarrow>
                    (case (parse_u32 minor_text, parse_u32 patch_text) of
                       (Some minor, Some patch) \<Rightarrow>
                         if others \<noteq> [] \<or> 1000 \<le> patch then None
                         else Some (of_nat minor * 1000 + of_nat patch)
                     | _ \<Rightarrow> None)
                | _ \<Rightarrow> None)
      | [] \<Rightarrow> None)"

definition format_version :: "u32 \<Rightarrow> string" where
  "format_version v = ''0.'' @ show_nat (unat (v div 1000)) @ ''.'' @ show_nat (unat (v mod 1000))"

text \<open>\<^verbatim>\<open>Option<u32>\<close> is compared with \<^verbatim>\<open>None\<close> below every value.\<close>

definition version_above :: "u32 option \<Rightarrow> u32 option \<Rightarrow> bool" where
  "version_above a b \<longleftrightarrow>
     (case (a, b) of (None, _) \<Rightarrow> False | (Some _, None) \<Rightarrow> True | (Some x, Some y) \<Rightarrow> y < x)"

section \<open>The shared file\<close>

text \<open>The cache holds the content of the file, \<^const>\<open>None\<close> when it cannot be read.\<close>

definition load_client_version :: "string option \<Rightarrow> string option" where
  "load_client_version cache =
     (case cache of
        None \<Rightarrow> None
      | Some content \<Rightarrow> let stored = str_trim content in if parse_version stored = None then None else Some stored)"

definition adopted_client_version :: "string option \<Rightarrow> string option" where
  "adopted_client_version cache =
     (case load_client_version cache of
        Some stored \<Rightarrow> if version_above (parse_version stored) (parse_version cn_code_version) then Some stored else None
      | None \<Rightarrow> None)"

definition current_code_version :: "string option \<Rightarrow> string" where
  "current_code_version cache =
     (case adopted_client_version cache of Some v \<Rightarrow> v | None \<Rightarrow> cn_code_version)"

definition effective_code_version :: "string option \<Rightarrow> string option \<Rightarrow> string" where
  "effective_code_version cache pinned =
     (case pinned of Some v \<Rightarrow> v | None \<Rightarrow> current_code_version cache)"

text \<open>The new content is written beside the file and renamed over it: a failure leaves the old content.\<close>

definition store_client_version :: "bool \<Rightarrow> string \<Rightarrow> string option \<Rightarrow> string option" where
  "store_client_version written version cache = (if written then Some version else cache)"

section \<open>The search\<close>

datatype 'e search_error = Probe_Failed 'e | No_Accepted_Version | Unparsable_Version

type_synonym ('s, 'e) probe = "u32 \<Rightarrow> 's \<Rightarrow> ('e + bool) \<times> 's"

text \<open>
  The escalation returns the highest version refused and the first one accepted, if any. Fuel bounds both
  loops; \<^const>\<open>None\<close> is a loop still running.
\<close>

fun escalate ::
  "nat \<Rightarrow> ('s, 'e) probe \<Rightarrow> u32 \<Rightarrow> u32 \<Rightarrow> u32 \<Rightarrow> 's \<Rightarrow> (('e search_error + u32 \<times> u32 option) \<times> 's) option" where
  "escalate 0 probe rejected step too_low s = None"
| "escalate (Suc fuel) probe rejected step too_low s =
     (if step \<le> version_search_span
      then let candidate = rejected + step
           in (case probe candidate s of
                 (Inl e, s') \<Rightarrow> Some (Inl (Probe_Failed e), s')
               | (Inr True, s') \<Rightarrow> Some (Inr (too_low, Some candidate), s')
               | (Inr False, s') \<Rightarrow> escalate fuel probe rejected (step * 4) candidate s')
      else Some (Inr (too_low, None), s))"

fun bisect ::
  "nat \<Rightarrow> ('s, 'e) probe \<Rightarrow> u32 \<Rightarrow> u32 \<Rightarrow> 's \<Rightarrow> (('e search_error + u32) \<times> 's) option" where
  "bisect 0 probe too_low accepted s = None"
| "bisect (Suc fuel) probe too_low accepted s =
     (if too_low + 1 < accepted
      then let middle = too_low + (accepted - too_low) div 2
           in (case probe middle s of
                 (Inl e, s') \<Rightarrow> Some (Inl (Probe_Failed e), s')
               | (Inr True, s') \<Rightarrow> bisect fuel probe too_low middle s'
               | (Inr False, s') \<Rightarrow> bisect fuel probe middle accepted s')
      else Some (Inr accepted, s))"

definition search_version_floor ::
  "nat \<Rightarrow> ('s, 'e) probe \<Rightarrow> u32 \<Rightarrow> 's \<Rightarrow> (('e search_error + u32) \<times> 's) option" where
  "search_version_floor fuel probe rejected s =
     (case probe rejected s of
        (Inl e, s') \<Rightarrow> Some (Inl (Probe_Failed e), s')
      | (Inr True, s') \<Rightarrow> Some (Inr rejected, s')
      | (Inr False, s') \<Rightarrow>
          (case escalate fuel probe rejected 4 rejected s' of
             None \<Rightarrow> None
           | Some (Inl e, s2) \<Rightarrow> Some (Inl e, s2)
           | Some (Inr (too_low, None), s2) \<Rightarrow> Some (Inl No_Accepted_Version, s2)
           | Some (Inr (too_low, Some accepted), s2) \<Rightarrow> bisect fuel probe too_low accepted s2))"

text \<open>A failure: the text of the error chain, its first line alone, and the server's code when the server answered.\<close>

record login_failure =
  lf_text :: string
  lf_top :: string
  lf_code :: "u64 option"

type_synonym 's login_fn = "string \<Rightarrow> 's \<Rightarrow> (login_failure + unit) \<times> 's"

definition version_refused :: "string \<Rightarrow> bool" where
  "version_refused failure = contains ''151'' failure"

definition probe_version :: "'s login_fn \<Rightarrow> string \<Rightarrow> 's \<Rightarrow> (login_failure + bool) \<times> 's" where
  "probe_version connect version s =
     (case connect version s of
        (Inr _, s') \<Rightarrow> (Inr True, s')
      | (Inl e, s') \<Rightarrow> if version_refused (lf_text e) then (Inr False, s') else (Inl e, s'))"

definition discover_version_floor ::
  "nat \<Rightarrow> 's login_fn \<Rightarrow> string \<Rightarrow> 's \<Rightarrow> ((login_failure search_error + string) \<times> 's) option" where
  "discover_version_floor fuel connect rejected s =
     (case parse_version rejected of
        None \<Rightarrow> Some (Inl Unparsable_Version, s)
      | Some rejected_value \<Rightarrow>
          (case search_version_floor fuel (\<lambda>value. probe_version connect (format_version value)) rejected_value s of
             None \<Rightarrow> None
           | Some (Inl e, s') \<Rightarrow> Some (Inl e, s')
           | Some (Inr floor, s') \<Rightarrow> Some (Inr (format_version floor), s')))"

text \<open>
  The answer is the version of the next login. \<open>at_search\<close> reads the cache when the failure arrives; the
  file is written after the search, when another session may have written it (\<open>at_store\<close>).
\<close>

definition refreshed_client_version ::
  "nat \<Rightarrow> 's login_fn \<Rightarrow> string option \<Rightarrow> string \<Rightarrow> bool \<Rightarrow> string option \<Rightarrow> string option \<Rightarrow> 's \<Rightarrow>
   (string option \<times> string option \<times> 's) option" where
  "refreshed_client_version fuel connect current failure written at_search at_store s =
     (if \<not> version_refused failure then Some (None, at_search, s)
      else let rejected = effective_code_version at_search current
           in (case (case load_client_version at_search of
                       Some shared \<Rightarrow> if version_above (parse_version shared) (parse_version rejected) then Some shared else None
                     | None \<Rightarrow> None) of
                 Some shared \<Rightarrow> Some (Some shared, at_search, s)
               | None \<Rightarrow>
                   (case discover_version_floor fuel connect rejected s of
                      None \<Rightarrow> None
                    | Some (Inr version, s') \<Rightarrow> Some (Some version, store_client_version written version at_store, s')
                    | Some (Inl e, s') \<Rightarrow> Some (None, at_store, s'))))"

section \<open>Print and parse\<close>

lemma parse_digits_append:
  "parse_digits acc (s @ t) = (case parse_digits acc s of None \<Rightarrow> None | Some a \<Rightarrow> parse_digits a t)"
  by (induction acc s rule: parse_digits.induct) (auto split: option.splits)

lemma digit_of_char: "d < 10 \<Longrightarrow> digit_of (char_of (d + 48)) = Some d"
  by (simp add: digit_of_def Let_def of_char_of)

lemma parse_digits_show: "parse_digits 0 (show_nat n) = Some n"
proof (induction n rule: show_nat.induct)
  case (1 n)
  then show ?case
    by (subst show_nat.simps) (auto simp: parse_digits_append digit_of_char)
qed

lemma show_nat_digits: "c \<in> set (show_nat n) \<Longrightarrow> \<exists>d :: nat. d < 10 \<and> c = char_of (d + 48)"
proof (induction n rule: show_nat.induct)
  case (1 n)
  show ?case
  proof (cases "n < 10")
    case True
    with 1(2) have "c = char_of (n + 48)" by (simp add: show_nat.simps [of n])
    with True show ?thesis by blast
  next
    case False
    with 1(2) have "c \<in> set (show_nat (n div 10)) \<or> c = char_of (n mod 10 + 48)"
      by (subst (asm) show_nat.simps) auto
    with 1(1) [OF False] show ?thesis by (metis mod_less_divisor zero_less_numeral)
  qed
qed

lemma show_nat_nonempty [simp]: "show_nat n \<noteq> []"
  by (subst show_nat.simps) simp

lemma digit_not_punctuation:
  assumes "d < 10"
  shows "char_of (d + 48 :: nat) \<noteq> CHR ''.'' \<and> char_of (d + 48 :: nat) \<noteq> CHR ''+''"
proof -
  have digit: "of_char (char_of (d + 48 :: nat) :: char) = d + 48" using assms by (simp add: of_char_of)
  have "char_of (d + 48) \<noteq> c" if "of_char c < (48 :: nat)" for c :: char
  proof
    assume "char_of (d + 48) = c"
    then have "of_char c = d + 48" using digit by simp
    with that show False by simp
  qed
  from this [of "CHR ''.''"] this [of "CHR ''+''"] show ?thesis by simp
qed

lemma show_nat_plain: "CHR ''.'' \<notin> set (show_nat n)" "hd (show_nat n) \<noteq> CHR ''+''"
proof -
  show "CHR ''.'' \<notin> set (show_nat n)" using show_nat_digits [of "CHR ''.''" n] digit_not_punctuation by metis
  have "hd (show_nat n) \<in> set (show_nat n)" by simp
  then show "hd (show_nat n) \<noteq> CHR ''+''" using show_nat_digits [of "hd (show_nat n)" n] digit_not_punctuation by metis
qed

lemma parse_u32_show: "n < 2 ^ 32 \<Longrightarrow> parse_u32 (show_nat n) = Some n"
  by (simp add: parse_u32_def parse_nat_def show_nat_plain parse_digits_show)

lemma unat_u32: "unat (w :: u32) < 4294967296"
  using unsigned_less [of w, where 'a = nat] by simp

lemma unat_mod_1000: "unat (v mod 1000 :: u32) < 1000"
  by (simp add: unat_mod)

text \<open>Every 32-bit number, written as a version, is read back as that number.\<close>

lemma version_round_trip: "parse_version (format_version v) = Some v"
proof -
  have "split_on CHR ''.'' (format_version v) = [''0'', show_nat (unat (v div 1000)), show_nat (unat (v mod 1000))]"
    using split_on_append [OF show_nat_plain(1), of "unat (v div 1000)" "show_nat (unat (v mod 1000))"]
      split_on_no_sep [OF show_nat_plain(1), of "unat (v mod 1000)"]
    by (simp add: format_version_def)
  then show ?thesis
    using unat_mod_1000 [of v] unat_u32 [of "v div 1000"] unat_u32 [of "v mod 1000"]
    by (simp add: parse_version_def parse_u32_show div_mult_mod_eq)
qed

section \<open>The search, whatever the server answers\<close>

text \<open>The probes made on the way from one state to another, with their answers.\<close>

fun asked :: "('s, 'e) probe \<Rightarrow> 's \<Rightarrow> (u32 \<times> ('e + bool)) list \<Rightarrow> 's \<Rightarrow> bool" where
  "asked probe s [] s' \<longleftrightarrow> s = s'"
| "asked probe s ((v, r) # h) s' \<longleftrightarrow> (\<exists>s1. probe v s = (r, s1) \<and> asked probe s1 h s')"

lemma asked_append: "asked probe s (h1 @ h2) s' \<longleftrightarrow> (\<exists>s1. asked probe s h1 s1 \<and> asked probe s1 h2 s')"
  by (induction probe s h1 s' rule: asked.induct) auto

lemma middle_unat:
  assumes "low < (high :: u32)"
  shows "unat (low + (high - low) div 2) = unat low + (unat high - unat low) div 2"
proof -
  have le: "unat low \<le> unat high" using assms by (simp add: word_less_nat_alt)
  have "unat ((high - low) div 2) = (unat high - unat low) div 2"
    using assms by (simp add: unat_div unat_sub less_imp_le)
  moreover have "unat low + (unat high - unat low) div 2 \<le> unat high" using le by linarith
  then have "unat low + (unat high - unat low) div 2 < 2 ^ 32" using unat_u32 [of high] by simp
  ultimately show ?thesis by (simp add: unat_word_ariths(1))
qed

lemma next_below:
  "low < (high :: u32) \<Longrightarrow> low + 1 < high \<longleftrightarrow> unat low + 1 < unat high"
  using unat_u32 [of high] by (simp add: word_less_nat_alt unat_word_ariths)

lemma just_above:
  assumes "low < (high :: u32)" and "unat high \<le> unat low + 1"
  shows "high - 1 = low"
proof -
  have "unat high = unat low + 1" using assms by (simp add: word_less_nat_alt)
  moreover note unat_u32 [of high]
  ultimately have "high = low + 1" by (simp add: word_unat_eq_iff unat_word_ariths)
  then show ?thesis by simp
qed

definition at_boundary :: "u32 \<Rightarrow> u32 \<Rightarrow> (u32 \<times> ('e + bool)) list \<Rightarrow> u32 \<Rightarrow> bool" where
  "at_boundary low high h v \<longleftrightarrow>
     (v = high \<or> (v, Inr True) \<in> set h) \<and> (v - 1 = low \<or> (v - 1, Inr False) \<in> set h)"

definition settled :: "u32 \<Rightarrow> u32 \<Rightarrow> (u32 \<times> ('e + bool)) list \<Rightarrow> 'e search_error + u32 \<Rightarrow> bool" where
  "settled low high h r \<longleftrightarrow>
     (case r of Inr v \<Rightarrow> at_boundary low high h v | Inl e \<Rightarrow> (\<exists>v e'. (v, Inl e') \<in> set h))"

lemma settled_raise: "settled mid high h r \<Longrightarrow> settled low high ((mid, Inr False) # h) r"
  by (auto simp: settled_def at_boundary_def split: sum.splits)

lemma settled_lower: "settled low mid h r \<Longrightarrow> settled low high ((mid, Inr True) # h) r"
  by (auto simp: settled_def at_boundary_def split: sum.splits)

lemma bisect_asked:
  assumes "low < high" and "unat high - unat low \<le> 2 ^ n" and "n < fuel"
  shows "\<exists>r s' h. bisect fuel probe low high s = Some (r, s') \<and> asked probe s h s' \<and> length h \<le> n \<and> settled low high h r"
  using assms
proof (induction n arbitrary: fuel low high s)
  case 0
  then obtain f where "fuel = Suc f" by (cases fuel) auto
  moreover have "unat high \<le> unat low + 1" using 0 by simp
  then have "\<not> low + 1 < high" "high - 1 = low"
    using next_below [OF 0(1)] just_above [OF 0(1)] by auto
  ultimately show ?case
    by (intro exI [of _ "Inr high"] exI [of _ s] exI [of _ "[]"]) (simp add: settled_def at_boundary_def)
next
  case (Suc n)
  then obtain f where f: "fuel = Suc f" "n < f" by (cases fuel) auto
  show ?case
  proof (cases "low + 1 < high")
    case False
    then have "high - 1 = low" using next_below [OF Suc.prems(1)] just_above [OF Suc.prems(1)] by simp
    with False f show ?thesis
      by (intro exI [of _ "Inr high"] exI [of _ s] exI [of _ "[]"]) (simp add: settled_def at_boundary_def)
  next
    case True
    define mid where "mid = low + (high - low) div 2"
    have unat_mid: "unat mid = unat low + (unat high - unat low) div 2"
      unfolding mid_def by (rule middle_unat [OF Suc.prems(1)])
    have wide: "unat low + 1 < unat high" using True next_below [OF Suc.prems(1)] by simp
    have between: "low < mid" "mid < high" using unat_mid wide by (auto simp: word_less_nat_alt)
    have gaps: "unat high - unat mid \<le> 2 ^ n" "unat mid - unat low \<le> 2 ^ n"
      using Suc.prems(2) unat_mid by auto
    obtain a s1 where p: "probe mid s = (a, s1)" by (cases "probe mid s")
    show ?thesis
    proof (cases a)
      case (Inl e)
      then show ?thesis using p True f
        by (intro exI [of _ "Inl (Probe_Failed e)"] exI [of _ s1] exI [of _ "[(mid, a)]"])
          (simp add: settled_def flip: mid_def)
    next
      case (Inr b)
      show ?thesis
      proof (cases b)
        case True2: True
        obtain r s' h where ih: "bisect f probe low mid s1 = Some (r, s')" "asked probe s1 h s'" "length h \<le> n" "settled low mid h r"
          using Suc.IH [OF between(1) gaps(2) f(2), of s1] by blast
        then show ?thesis using p Inr True2 True f settled_lower [OF ih(4)]
          by (intro exI [of _ r] exI [of _ s'] exI [of _ "(mid, a) # h"]) (simp flip: mid_def)
      next
        case False
        obtain r s' h where ih: "bisect f probe mid high s1 = Some (r, s')" "asked probe s1 h s'" "length h \<le> n" "settled mid high h r"
          using Suc.IH [OF between(2) gaps(1) f(2), of s1] by blast
        then show ?thesis using p Inr False True f settled_raise [OF ih(4)]
          by (intro exI [of _ r] exI [of _ s'] exI [of _ "(mid, a) # h"]) (simp flip: mid_def)
      qed
    qed
  qed
qed

text \<open>One escalation: the candidates are four apart at first and four times farther each time.\<close>

definition escalated :: "u32 \<Rightarrow> (u32 \<times> ('e + bool)) list \<Rightarrow> 'e search_error + u32 \<times> u32 option \<Rightarrow> bool" where
  "escalated rejected h r \<longleftrightarrow>
     (case r of
        Inl e \<Rightarrow> (\<exists>v e'. (v, Inl e') \<in> set h)
      | Inr (low, None) \<Rightarrow> (rejected + 4096, Inr False) \<in> set h
      | Inr (low, Some high) \<Rightarrow>
          low < high \<and> unat high - unat low \<le> 2 ^ 12 \<and> (high, Inr True) \<in> set h \<and>
          (low = rejected \<or> (low, Inr False) \<in> set h))"

lemma escalated_Cons: "escalated rejected h r \<Longrightarrow> escalated rejected (x # h) r"
  by (auto simp: escalated_def split: sum.splits prod.splits option.splits)

lemma step_unat:
  assumes "k \<le> 7" shows "unat (4 ^ k :: u32) = 4 ^ k"
proof -
  have "(4 :: nat) ^ k \<le> 4 ^ 7" using assms by (intro power_increasing) auto
  moreover have "(4 ^ k :: u32) = of_nat (4 ^ k)" by simp
  ultimately show ?thesis by (simp only: unat_of_nat) simp
qed

lemma within_span: "k \<le> 7 \<Longrightarrow> 4 ^ k \<le> version_search_span \<longleftrightarrow> k \<le> 6"
proof -
  assume k: "k \<le> 7"
  have "(4 :: nat) ^ k \<le> 4 ^ 6 \<longleftrightarrow> k \<le> 6" by (rule power_increasing_iff) simp
  with step_unat [OF k] show ?thesis by (simp add: version_search_span_def word_le_nat_alt)
qed

lemma escalate_asked:
  assumes room: "unat rejected + 4096 < 2 ^ 32" and k: "1 \<le> k" "k \<le> 7"
    and low: "rejected \<le> low" "unat low < unat rejected + 4 ^ k"
    and last: "low = rejected \<or> (low, Inr False) \<in> set h0" "k = 7 \<Longrightarrow> (rejected + 4096, Inr False) \<in> set h0"
    and fuel: "7 - k < fuel"
  shows "\<exists>r s' h. escalate fuel probe rejected (4 ^ k) low s = Some (r, s') \<and> asked probe s h s' \<and>
    length h \<le> 7 - k \<and> escalated rejected (h0 @ h) r"
  using k low last fuel
proof (induction fuel arbitrary: k low h0 s)
  case (Suc fuel)
  show ?case
  proof (cases "k = 7")
    case True
    then have "\<not> 4 ^ k \<le> version_search_span" using within_span [of k] by simp
    then show ?thesis using Suc.prems(6) True
      by (intro exI [of _ "Inr (low, None)"] exI [of _ s] exI [of _ "[]"]) (simp add: escalated_def)
  next
    case False
    then have k6: "k \<le> 6" and span: "4 ^ k \<le> version_search_span" using Suc.prems(2) within_span [of k] by auto
    have small: "(4 :: nat) ^ k \<le> 4096" using power_increasing [OF k6, of "4 :: nat"] by simp
    define cand where "cand = rejected + 4 ^ k"
    have unat_cand: "unat cand = unat rejected + 4 ^ k"
      using room small step_unat [of k] k6 by (simp add: cand_def unat_word_ariths)
    have above: "low < cand" using Suc.prems(4) unat_cand by (simp add: word_less_nat_alt)
    have gap: "unat cand - unat low \<le> 4096"
      using unat_cand Suc.prems(3) small by (simp add: word_le_nat_alt)
    obtain a s1 where p: "probe cand s = (a, s1)" by (cases "probe cand s")
    consider (failed) e where "a = Inl e" | (accepted) "a = Inr True" | (refused) "a = Inr False"
      by (cases a) auto
    then show ?thesis
    proof cases
      case failed
      then show ?thesis using p span False k6
        by (intro exI [of _ "Inl (Probe_Failed e)"] exI [of _ s1] exI [of _ "[(cand, a)]"])
          (auto simp: escalated_def Let_def simp flip: cand_def)
    next
      case accepted
      then show ?thesis using p span False k6 Suc.prems(5) above gap
        by (intro exI [of _ "Inr (low, Some cand)"] exI [of _ s1] exI [of _ "[(cand, a)]"])
          (auto simp: escalated_def Let_def simp flip: cand_def)
    next
      case refused
      have "rejected \<le> cand" "unat cand < unat rejected + 4 ^ (k + 1)"
        using unat_cand by (auto simp: word_le_nat_alt)
      moreover have "7 - (k + 1) < fuel" using k6 Suc.prems(7) by arith
      moreover have "k + 1 = 7 \<Longrightarrow> (rejected + 4096, Inr False) \<in> set (h0 @ [(cand, Inr False)])"
      proof -
        assume "k + 1 = 7"
        then have "k = 6" by simp
        then show ?thesis by (simp add: cand_def)
      qed
      ultimately obtain r s' h where ih: "escalate fuel probe rejected (4 ^ (k + 1)) cand s1 = Some (r, s')"
          "asked probe s1 h s'" "length h \<le> 7 - (k + 1)" "escalated rejected ((h0 @ [(cand, Inr False)]) @ h) r"
        using Suc.IH [of "k + 1" cand "h0 @ [(cand, Inr False)]" s1] k6 by auto
      then show ?thesis using refused p span k6
        by (intro exI [of _ r] exI [of _ s'] exI [of _ "(cand, a) # h"])
          (auto simp: Let_def mult.commute simp flip: cand_def)
    qed
  qed
qed simp

text \<open>The whole search: what it asked, in how many logins, and what the answers say of its result.\<close>

definition searched :: "u32 \<Rightarrow> (u32 \<times> ('e + bool)) list \<Rightarrow> 'e search_error + u32 \<Rightarrow> bool" where
  "searched rejected h r \<longleftrightarrow>
     (case r of
        Inr v \<Rightarrow> (v, Inr True) \<in> set h \<and> (v = rejected \<or> (v - 1, Inr False) \<in> set h)
      | Inl e \<Rightarrow> (\<exists>v e'. (v, Inl e') \<in> set h) \<or> (rejected + 4096, Inr False) \<in> set h)"

lemma search_asked:
  assumes room: "unat rejected + 4096 < 2 ^ 32" and fuel: "13 \<le> fuel"
  shows "\<exists>r s' h. search_version_floor fuel probe rejected s = Some (r, s') \<and> asked probe s h s' \<and>
    length h \<le> 19 \<and> searched rejected h r"
proof -
  obtain a s1 where p: "probe rejected s = (a, s1)" by (cases "probe rejected s")
  consider (failed) e where "a = Inl e" | (accepted) "a = Inr True" | (refused) "a = Inr False"
    by (cases a) auto
  then show ?thesis
  proof cases
    case failed
    with p show ?thesis
      by (intro exI [of _ "Inl (Probe_Failed e)"] exI [of _ s1] exI [of _ "[(rejected, a)]"])
        (auto simp: search_version_floor_def searched_def)
  next
    case accepted
    with p show ?thesis
      by (intro exI [of _ "Inr rejected"] exI [of _ s1] exI [of _ "[(rejected, a)]"])
        (auto simp: search_version_floor_def searched_def)
  next
    case refused
    let ?h0 = "[(rejected, Inr False)]"
    obtain r1 s2 h1 where e: "escalate fuel probe rejected 4 rejected s1 = Some (r1, s2)" "asked probe s1 h1 s2"
        "length h1 \<le> 6" "escalated rejected (?h0 @ h1) r1"
      using escalate_asked [OF room, of 1 rejected ?h0 fuel probe s1] fuel by auto
    consider (failed) e' where "r1 = Inl e'" | (none) low where "r1 = Inr (low, None)" | (found) low high where "r1 = Inr (low, Some high)"
      by (cases r1) (auto, metis option.exhaust)
    then show ?thesis
    proof cases
      case (failed e')
      with e p refused show ?thesis
        by (intro exI [of _ "Inl e'"] exI [of _ s2] exI [of _ "(rejected, a) # h1"])
          (auto simp: search_version_floor_def searched_def escalated_def)
    next
      case none
      with e p refused show ?thesis
        by (intro exI [of _ "Inl No_Accepted_Version"] exI [of _ s2] exI [of _ "(rejected, a) # h1"])
          (auto simp: search_version_floor_def searched_def escalated_def)
    next
      case found
      have lh: "low < high" "unat high - unat low \<le> 2 ^ 12" "(high, Inr True) \<in> set (?h0 @ h1)"
          "(low, Inr False) \<in> set (?h0 @ h1)"
        using e(4) found by (auto simp: escalated_def)
      obtain r s' h where b: "bisect fuel probe low high s2 = Some (r, s')" "asked probe s2 h s'" "length h \<le> 12" "settled low high h r"
        using bisect_asked [OF lh(1,2), of fuel probe s2] fuel by auto
      have "searched rejected ((rejected, a) # h1 @ h) r"
        using b(4) lh(3,4) refused by (auto simp: searched_def settled_def at_boundary_def split: sum.splits)
      moreover have "asked probe s ((rejected, a) # h1 @ h) s'"
        using p e(2) b(2) by (auto simp: asked_append)
      moreover have "length ((rejected, a) # h1 @ h) \<le> 19" using e(3) b(3) by simp
      moreover have "search_version_floor fuel probe rejected s = Some (r, s')"
        using p refused e(1) found b(1) by (simp add: search_version_floor_def)
      ultimately show ?thesis by blast
    qed
  qed
qed

section \<open>The properties of the search\<close>

text \<open>Answers a server gives while the accepted versions are those from a floor upwards.\<close>

definition serves_from :: "'s login_fn \<Rightarrow> u32 \<Rightarrow> bool" where
  "serves_from connect floor \<longleftrightarrow>
     (\<forall>v s. case fst (connect (format_version v) s) of
              Inr _ \<Rightarrow> floor \<le> v
            | Inl e \<Rightarrow> v < floor \<and> version_refused (lf_text e))"

lemma serves_probe:
  assumes "serves_from connect floor"
  shows "\<exists>s'. probe_version connect (format_version v) s = (Inr (floor \<le> v), s')"
proof -
  obtain r s' where c: "connect (format_version v) s = (r, s')" by (cases "connect (format_version v) s")
  have "case r of Inr _ \<Rightarrow> floor \<le> v | Inl e \<Rightarrow> v < floor \<and> version_refused (lf_text e)"
    using assms c unfolding serves_from_def by (metis fst_conv)
  then show ?thesis using c by (cases r) (auto simp: probe_version_def)
qed

lemma asked_honest:
  assumes "serves_from connect floor" and "asked (\<lambda>v. probe_version connect (format_version v)) s h s'"
    and "(v, a) \<in> set h"
  shows "a = Inr (floor \<le> v)"
  using assms(2,3)
proof (induction h arbitrary: s)
  case (Cons x h)
  obtain w r where x: "x = (w, r)" by (cases x)
  obtain s1 where s1: "probe_version connect (format_version w) s = (Inr (floor \<le> w), s1)"
    using serves_probe [OF assms(1)] by blast
  show ?case using Cons x s1 by auto
qed simp

text \<open>When the server accepts exactly the versions from a floor upwards and the floor lies above the
  refused version by at most the span of the search, the search returns that floor.\<close>

lemma version_floor_found:
  fixes floor :: u32
  assumes "serves_from connect floor" and "parse_version rejected = Some r"
    and "r < floor" and "unat floor \<le> unat r + 4096" and "unat r + 4096 < 2 ^ 32" and "13 \<le> fuel"
  shows "\<exists>s'. discover_version_floor fuel connect rejected s = Some (Inr (format_version floor), s')"
proof -
  let ?probe = "\<lambda>v. probe_version connect (format_version v)"
  obtain o1 s' h where o1: "search_version_floor fuel ?probe r s = Some (o1, s')" "asked ?probe s h s'" "searched r h o1"
    using search_asked [OF assms(5,6), of ?probe s] by blast
  note honest = asked_honest [OF assms(1) o1(2)]
  have "o1 = Inr floor"
  proof (cases o1)
    case (Inl e)
    have "floor \<le> r + 4096" using assms(4,5) by (simp add: word_le_nat_alt unat_word_ariths)
    moreover have "(r + 4096, Inr False) \<in> set h" using o1(3) Inl honest by (fastforce simp: searched_def)
    ultimately show ?thesis using honest by fastforce
  next
    case (Inr v)
    then have "floor \<le> v" and low: "v = r \<or> v - 1 < floor"
      using o1(3) honest [of v] honest [of "v - 1" "Inr False"] by (auto simp: searched_def not_le)
    moreover have "v \<noteq> r" using \<open>floor \<le> v\<close> assms(3) by auto
    moreover have "v \<le> floor" if "v - 1 < floor"
    proof -
      have "0 < unat v" using \<open>floor \<le> v\<close> assms(3) by (auto simp: word_less_nat_alt word_le_nat_alt)
      then have "unat (v - 1) = unat v - 1" by (subst unat_sub) (auto simp: word_le_nat_alt)
      with that show ?thesis by (simp add: word_less_nat_alt word_le_nat_alt)
    qed
    ultimately show ?thesis using Inr by auto
  qed
  with o1(1) assms(2) show ?thesis by (simp add: discover_version_floor_def)
qed

definition sample_server :: "u32 \<Rightarrow> nat login_fn" where
  "sample_server floor version n =
     ((case parse_version version of
         Some v \<Rightarrow> if floor \<le> v then Inr () else Inl \<lparr>lf_text = ''error 151'', lf_top = ''error 151'', lf_code = Some 151\<rparr>
       | None \<Rightarrow> Inl \<lparr>lf_text = ''error 151'', lf_top = ''error 151'', lf_code = Some 151\<rparr>), n + 1)"

lemma sample_server_serves: "serves_from (sample_server floor) floor"
  by (auto simp: serves_from_def sample_server_def version_round_trip version_refused_def not_le)

lemma version_floor_found_at_default:
  "\<exists>s'. discover_version_floor 13 (sample_server 16265) cn_code_version (0 :: nat) =
     Some (Inr (format_version 16265), s')"
proof (rule version_floor_found [OF sample_server_serves])
  show "parse_version cn_code_version = Some 16257"
    by (simp add: parse_version_def cn_code_version_def parse_u32_def parse_nat_def digit_of_def of_char_def Let_def)
qed simp_all

lemma discover_asked:
  assumes "\<forall>r. parse_version rejected = Some r \<longrightarrow> unat r + 4096 < 2 ^ 32" and "13 \<le> fuel"
  shows "\<exists>found s' h. discover_version_floor fuel connect rejected s = Some (found, s') \<and>
    asked (\<lambda>v. probe_version connect (format_version v)) s h s' \<and> length h \<le> 19 \<and>
    (\<forall>version. found = Inr version \<longrightarrow>
       (\<exists>v. version = format_version v \<and> (v, Inr True) \<in> set h \<and> (parse_version rejected = Some v \<or> (v - 1, Inr False) \<in> set h)))"
proof (cases "parse_version rejected")
  case None
  then show ?thesis
    by (intro exI [of _ "Inl Unparsable_Version"] exI [of _ s] exI [of _ "[]"]) (auto simp: discover_version_floor_def)
next
  case (Some r)
  let ?probe = "\<lambda>v. probe_version connect (format_version v)"
  have "unat r + 4096 < 2 ^ 32" using Some assms(1) by simp
  then obtain o1 s' h where o1: "search_version_floor fuel ?probe r s = Some (o1, s')" "asked ?probe s h s'" "length h \<le> 19" "searched r h o1"
    using search_asked [OF _ assms(2), of r ?probe s] by blast
  show ?thesis
  proof (cases o1)
    case (Inl e)
    with o1 Some show ?thesis
      by (intro exI [of _ "Inl e"] exI [of _ s'] exI [of _ h]) (auto simp: discover_version_floor_def)
  next
    case (Inr v)
    then have "(v, Inr True) \<in> set h" "v = r \<or> (v - 1, Inr False) \<in> set h" using o1(4) by (auto simp: searched_def)
    with o1 Some Inr show ?thesis
      by (intro exI [of _ "Inr (format_version v)"] exI [of _ s'] exI [of _ h]) (auto simp: discover_version_floor_def)
  qed
qed

text \<open>Claim C26: whatever the server answers, reporting a failed login ends after at most nineteen further logins,
  and the shared file changes only to a version with which one of them succeeded and whose predecessor was
  refused, or to the version that had been reported as refused when a login with it succeeds after all.\<close>

theorem published_version_was_accepted:
  assumes "\<forall>r. parse_version (effective_code_version at_search current) = Some r \<longrightarrow> unat r + 4096 < 2 ^ 32"
    and "13 \<le> fuel"
  shows "\<exists>version cache s' h.
    refreshed_client_version fuel connect current failure written at_search at_store s = Some (version, cache, s') \<and>
    asked (\<lambda>v. probe_version connect (format_version v)) s h s' \<and> length h \<le> 19 \<and>
    (cache = at_search \<or> cache = at_store \<or>
     (\<exists>v. cache = Some (format_version v) \<and> version = Some (format_version v) \<and> (v, Inr True) \<in> set h \<and>
          (parse_version (effective_code_version at_search current) = Some v \<or> (v - 1, Inr False) \<in> set h)))"
proof -
  let ?run = "refreshed_client_version fuel connect current failure written at_search at_store s"
  let ?rejected = "effective_code_version at_search current"
  let ?probe = "\<lambda>v. probe_version connect (format_version v)"
  let ?shared = "case load_client_version at_search of
      Some shared \<Rightarrow> if version_above (parse_version shared) (parse_version ?rejected) then Some shared else None
    | None \<Rightarrow> None"
  have none: ?thesis if "?run = Some (version, cache, s)" "cache = at_search \<or> cache = at_store" for version cache
    using that by (intro exI [of _ version] exI [of _ cache] exI [of _ s] exI [of _ "[]"]) auto
  show ?thesis
  proof (cases "version_refused failure \<and> ?shared = None")
    case False
    then have "?run = Some ((if version_refused failure then ?shared else None), at_search, s)"
      by (auto simp: refreshed_client_version_def Let_def split: option.splits)
    then show ?thesis by (rule none) simp
  next
    case True
    then have run: "?run = (case discover_version_floor fuel connect ?rejected s of
          None \<Rightarrow> None
        | Some (Inr version, s') \<Rightarrow> Some (Some version, store_client_version written version at_store, s')
        | Some (Inl e, s') \<Rightarrow> Some (None, at_store, s'))"
      by (simp add: refreshed_client_version_def Let_def)
    obtain found s' h where f: "discover_version_floor fuel connect ?rejected s = Some (found, s')" "asked ?probe s h s'" "length h \<le> 19"
        "\<forall>version. found = Inr version \<longrightarrow> (\<exists>v. version = format_version v \<and> (v, Inr True) \<in> set h \<and>
           (parse_version ?rejected = Some v \<or> (v - 1, Inr False) \<in> set h))"
      using discover_asked [OF assms, of connect s] by blast
    then show ?thesis using run
      by (cases found) (auto simp: store_client_version_def)
  qed
qed

theorem published_version_was_accepted_witness:
  "\<exists>version cache s' h.
    refreshed_client_version 13 (sample_server 16265) None ''error 151'' True None None (0 :: nat) = Some (version, cache, s') \<and>
    asked (\<lambda>v. probe_version (sample_server 16265) (format_version v)) 0 h s' \<and> length h \<le> 19 \<and>
    (cache = None \<or> cache = None \<or>
     (\<exists>v. cache = Some (format_version v) \<and> version = Some (format_version v) \<and> (v, Inr True) \<in> set h \<and>
          (parse_version (effective_code_version None None) = Some v \<or> (v - 1, Inr False) \<in> set h)))"
proof (rule published_version_was_accepted)
  have "parse_version (effective_code_version None None) = Some 16257"
    by (simp add: parse_version_def effective_code_version_def current_code_version_def adopted_client_version_def
        load_client_version_def cn_code_version_def parse_u32_def parse_nat_def digit_of_def of_char_def Let_def)
  then show "\<forall>r. parse_version (effective_code_version None None) = Some r \<longrightarrow> unat r + 4096 < 2 ^ 32" by simp
qed simp

text \<open>A version published earlier is adopted only above the compiled-in one, so a login without a pin never
  carries less.\<close>

lemma unpinned_version_at_least_default:
  "effective_code_version cache None = cn_code_version \<or>
   version_above (parse_version (effective_code_version cache None)) (parse_version cn_code_version)"
  by (auto simp: effective_code_version_def current_code_version_def adopted_client_version_def split: option.splits)

end
