(* ===== verification/Watch_Registry.thy ===== *)
theory Watch_Registry
  imports Pack "HOL-Library.AList" "HOL-Library.Multiset"
begin

text \<open>
  \<^verbatim>\<open>src/watch.rs\<close>: the registry of the games the collectors see, for the console. A hash map is an
  association list with distinct keys; wherever the source iterates over one, the order is an argument
  (\<open>order\<close>), any rearrangement of the list. The lemmas show that the registry keeps one record per game
  under its identifier, that beyond ten thousand games it holds only games that are still under way, and
  that the console's list is the newest first.
\<close>

definition max_recent_records :: nat where
  "max_recent_records = 10000"

datatype watch_event_kind =
    Live_Seen | Now_Pending | Now_Fetching | Now_Converting | Now_Completed | Record_Fetch_Failed | Record_Conversion_Failed

record watch_event =
  we_uuid :: string
  we_event :: watch_event_kind
  we_mode_id :: "u32 option"
  we_started_at :: "int option"
  we_message :: "string option"
  we_record_id :: "uuid option"

datatype uuid_state = State_Live | State_Pending | State_Fetching | State_Fetched | State_Failed

datatype conversion_state = Conversion_Waiting | Conversion_Running | Conversion_Done | Conversion_Broken

record watch_record =
  wr_uuid :: string
  wr_uuid_state :: uuid_state
  wr_conversion_state :: conversion_state
  wr_mode_id :: "u32 option"
  wr_started_at :: "int option"
  wr_updated_at :: int
  wr_attempts :: u32
  wr_message :: "string option"
  wr_record_id :: "uuid option"

datatype watch_error = Invalid_Uuid

type_synonym 'a table = "(string \<times> 'a) list"

text \<open>\<^verbatim>\<open>byte.is_ascii_graphic()\<close>: from the exclamation mark to the tilde.\<close>

definition is_graphic :: "char \<Rightarrow> bool" where
  "is_graphic c \<longleftrightarrow> 33 \<le> (of_char c :: nat) \<and> (of_char c :: nat) \<le> 126"

definition uuid_ok :: "string \<Rightarrow> bool" where
  "uuid_ok uuid \<longleftrightarrow> uuid \<noteq> [] \<and> length uuid \<le> 96 \<and> list_all (\<lambda>c. is_graphic c \<and> c \<noteq> CHR ''/'') uuid"

definition new_watch_record :: "int \<Rightarrow> watch_event \<Rightarrow> watch_record" where
  "new_watch_record now ev =
     \<lparr>wr_uuid = we_uuid ev, wr_uuid_state = State_Live, wr_conversion_state = Conversion_Waiting,
      wr_mode_id = we_mode_id ev, wr_started_at = we_started_at ev, wr_updated_at = now, wr_attempts = 0,
      wr_message = None, wr_record_id = None\<rparr>"

definition saturating_add_u32 :: "u32 \<Rightarrow> u32 \<Rightarrow> u32" where
  "saturating_add_u32 a b = (if a + b < a then - 1 else a + b)"

definition transition :: "watch_event_kind \<Rightarrow> watch_record \<Rightarrow> watch_record" where
  "transition kind r =
     (case kind of
        Live_Seen \<Rightarrow> r\<lparr>wr_uuid_state := State_Live, wr_conversion_state := Conversion_Waiting\<rparr>
      | Now_Pending \<Rightarrow> r\<lparr>wr_uuid_state := State_Pending, wr_conversion_state := Conversion_Waiting\<rparr>
      | Now_Fetching \<Rightarrow> r\<lparr>wr_uuid_state := State_Fetching, wr_attempts := saturating_add_u32 (wr_attempts r) 1\<rparr>
      | Now_Converting \<Rightarrow> r\<lparr>wr_uuid_state := State_Fetched, wr_conversion_state := Conversion_Running\<rparr>
      | Now_Completed \<Rightarrow> r\<lparr>wr_uuid_state := State_Fetched, wr_conversion_state := Conversion_Done\<rparr>
      | Record_Fetch_Failed \<Rightarrow> r\<lparr>wr_uuid_state := State_Failed, wr_conversion_state := Conversion_Waiting\<rparr>
      | Record_Conversion_Failed \<Rightarrow> r\<lparr>wr_uuid_state := State_Fetched, wr_conversion_state := Conversion_Broken\<rparr>)"

definition touched :: "int \<Rightarrow> watch_event \<Rightarrow> watch_record \<Rightarrow> watch_record" where
  "touched now ev r =
     transition (we_event ev)
       (r\<lparr>wr_mode_id := (if we_mode_id ev \<noteq> None then we_mode_id ev else wr_mode_id r),
          wr_started_at := (if we_started_at ev \<noteq> None then we_started_at ev else wr_started_at r),
          wr_updated_at := now, wr_message := we_message ev,
          wr_record_id := (if we_record_id ev \<noteq> None then we_record_id ev else wr_record_id r)\<rparr>)"

definition is_settled :: "watch_record \<Rightarrow> bool" where
  "is_settled r \<longleftrightarrow>
     wr_uuid_state r = State_Failed \<or> wr_conversion_state r = Conversion_Done \<or> wr_conversion_state r = Conversion_Broken"

text \<open>\<^verbatim>\<open>min_by_key\<close>: the first of the least elements in the order of the iteration.\<close>

definition oldest_terminal :: "(watch_record table \<Rightarrow> watch_record table) \<Rightarrow> watch_record table \<Rightarrow> string option" where
  "oldest_terminal order records =
     (case filter is_settled (map snd (order records)) of
        [] \<Rightarrow> None
      | r # rs \<Rightarrow> Some (wr_uuid (foldl (\<lambda>a b. if wr_updated_at b < wr_updated_at a then b else a) r rs)))"

definition apply_event ::
  "(watch_record table \<Rightarrow> watch_record table) \<Rightarrow> int \<Rightarrow> watch_event \<Rightarrow> watch_record table \<Rightarrow>
   (watch_error + watch_record) \<times> watch_record table" where
  "apply_event order now ev records =
     (if \<not> uuid_ok (we_uuid ev) then (Inl Invalid_Uuid, records)
      else let found = (case map_of records (we_uuid ev) of Some r \<Rightarrow> r | None \<Rightarrow> new_watch_record now ev);
               result = touched now ev found;
               records = AList.update (we_uuid ev) result records
           in (Inr result,
               if max_recent_records < length records
               then (case oldest_terminal order records of
                       Some uuid \<Rightarrow> AList.delete uuid records
                     | None \<Rightarrow> records)
               else records))"

record watch_summary =
  wy_total :: nat
  wy_live :: nat
  wy_pending :: nat
  wy_converting :: nat
  wy_completed :: nat
  wy_failed :: nat
  wy_items :: "watch_record list"

definition count_if :: "('a \<Rightarrow> bool) \<Rightarrow> 'a list \<Rightarrow> nat" where
  "count_if p xs = length (filter p xs)"

definition is_failed :: "watch_record \<Rightarrow> bool" where
  "is_failed r \<longleftrightarrow> wr_uuid_state r = State_Failed \<or> wr_conversion_state r = Conversion_Broken"

definition state_matches :: "watch_record \<Rightarrow> string \<Rightarrow> bool" where
  "state_matches r state =
     (if state = ''live'' then wr_uuid_state r = State_Live
      else if state = ''pending'' then wr_uuid_state r = State_Pending \<or> wr_uuid_state r = State_Fetching
      else if state = ''fetching'' then wr_uuid_state r = State_Fetching
      else if state = ''converting'' then wr_conversion_state r = Conversion_Running
      else if state = ''completed'' then wr_conversion_state r = Conversion_Done
      else if state = ''failed'' then is_failed r
      else True)"

definition summary ::
  "(watch_record table \<Rightarrow> watch_record table) \<Rightarrow> string option \<Rightarrow> nat \<Rightarrow> watch_record table \<Rightarrow> watch_summary" where
  "summary order state limit records =
     (let every = sort_key (\<lambda>r. - wr_updated_at r) (map snd (order records))
      in \<lparr>wy_total = length every,
          wy_live = count_if (\<lambda>r. wr_uuid_state r = State_Live) every,
          wy_pending = count_if (\<lambda>r. wr_uuid_state r = State_Pending \<or> wr_uuid_state r = State_Fetching) every,
          wy_converting = count_if (\<lambda>r. wr_conversion_state r = Conversion_Running) every,
          wy_completed = count_if (\<lambda>r. wr_conversion_state r = Conversion_Done) every,
          wy_failed = count_if is_failed every,
          wy_items = take limit (filter (\<lambda>r. case state of None \<Rightarrow> True | Some v \<Rightarrow> state_matches r v) every)\<rparr>)"

section \<open>The registry's invariant\<close>

text \<open>A rearrangement of a list.\<close>

definition rearranges :: "('a list \<Rightarrow> 'a list) \<Rightarrow> bool" where
  "rearranges order \<longleftrightarrow> (\<forall>xs. mset (order xs) = mset xs)"

lemma rearranges_set: "rearranges order \<Longrightarrow> set (order xs) = set xs"
  by (metis rearranges_def set_mset_mset)

definition registry_ok :: "watch_record table \<Rightarrow> bool" where
  "registry_ok records \<longleftrightarrow>
     distinct (map fst records) \<and> (\<forall>(uuid, r) \<in> set records. wr_uuid r = uuid \<and> uuid_ok uuid) \<and>
     (length records \<le> max_recent_records \<or> (\<forall>(uuid, r) \<in> set records. \<not> is_settled r))"

lemma transition_uuid [simp]: "wr_uuid (transition kind r) = wr_uuid r"
  by (simp add: transition_def split: watch_event_kind.splits)

lemma touched_uuid [simp]: "wr_uuid (touched now ev r) = wr_uuid r"
  by (simp add: touched_def)

lemma foldl_choose: "foldl (\<lambda>a b. if f b < f a then b else a) r rs \<in> set (r # rs)"
  by (induction rs arbitrary: r) (auto split: if_splits)

lemma oldest_terminal_None:
  assumes "rearranges order" and "oldest_terminal order records = None" and "(uuid, r) \<in> set records"
  shows "\<not> is_settled r"
proof -
  have "r \<in> set (map snd (order records))" using assms(1,3) by (force simp: rearranges_set)
  moreover have "filter is_settled (map snd (order records)) = []"
    using assms(2) by (simp add: oldest_terminal_def split: list.splits)
  ultimately show ?thesis by (metis filter_empty_conv)
qed

lemma oldest_terminal_Some:
  assumes "rearranges order" and "oldest_terminal order records = Some uuid"
  shows "\<exists>k r. (k, r) \<in> set records \<and> is_settled r \<and> wr_uuid r = uuid"
proof -
  obtain r rs where rs: "filter is_settled (map snd (order records)) = r # rs"
    and uuid: "uuid = wr_uuid (foldl (\<lambda>a b. if wr_updated_at b < wr_updated_at a then b else a) r rs)"
    using assms(2) by (auto simp: oldest_terminal_def split: list.splits)
  let ?old = "foldl (\<lambda>a b. if wr_updated_at b < wr_updated_at a then b else a) r rs"
  have "?old \<in> set (r # rs)" by (rule foldl_choose)
  then have "?old \<in> set (filter is_settled (map snd (order records)))" using rs by simp
  then have "?old \<in> snd ` set records" and old: "is_settled ?old" using assms(1) by (auto simp: rearranges_set)
  then obtain k where "(k, ?old) \<in> set records" by force
  with old uuid show ?thesis by blast
qed

lemma length_AList_update: "length (AList.update k v xs) = (if k \<in> fst ` set xs then length xs else Suc (length xs))"
  by (induction xs) auto

lemma length_AList_delete:
  assumes "distinct (map fst xs)" and "k \<in> fst ` set xs"
  shows "Suc (length (AList.delete k xs)) = length xs"
  using assms
proof (induction xs)
  case (Cons x xs)
  show ?case
  proof (cases "fst x = k")
    case True
    then have "k \<notin> fst ` set xs" using Cons.prems(1) by auto
    then have "AList.delete k xs = xs" by (rule delete_id)
    with True show ?thesis by (cases x) simp
  next
    case False
    with Cons show ?thesis by (cases x) auto
  qed
qed simp

lemma set_AList_update:
  "distinct (map fst xs) \<Longrightarrow> (k', v') \<in> set (AList.update k v xs) \<Longrightarrow> (k', v') = (k, v) \<or> ((k', v') \<in> set xs \<and> k' \<noteq> k)"
  by (induction xs) (force split: if_splits)+

lemma set_AList_delete: "(k', v') \<in> set (AList.delete k xs) \<longleftrightarrow> (k', v') \<in> set xs \<and> k' \<noteq> k"
  by (auto simp: AList.delete_eq)

lemma evicted_few:
  assumes dist: "distinct (map fst records)" and R: "R = AList.update u res records" and k: "(k, r) \<in> set R" "is_settled r"
    and few: "length records \<le> max_recent_records \<or> (\<forall>(uuid, q) \<in> set records. \<not> is_settled q)"
  shows "length (AList.delete k R) \<le> max_recent_records \<or> (\<forall>(uuid, q) \<in> set (AList.delete k R). \<not> is_settled q)"
proof (cases "length records \<le> max_recent_records")
  case True
  have "distinct (map fst R)" unfolding R by (rule distinct_update [OF dist])
  then have "Suc (length (AList.delete k R)) = length R" using k(1) by (intro length_AList_delete) force+
  then have "length (AList.delete k R) \<le> length records" by (simp add: R length_AList_update split: if_splits)
  with True show ?thesis by simp
next
  case False
  with few have calm: "\<forall>(uuid, q) \<in> set records. \<not> is_settled q" by simp
  have mem: "(k, q) \<in> set R \<Longrightarrow> (k = u \<and> q = res) \<or> ((k, q) \<in> set records \<and> k \<noteq> u)" for k q
    using set_AList_update [OF dist] unfolding R by blast
  then have "k = u" using k calm by fastforce
  then have "\<not> is_settled q" if "(uuid, q) \<in> set (AList.delete k R)" for uuid q
    using that calm mem [of uuid q] by (auto simp: set_AList_delete)
  then show ?thesis by blast
qed

text \<open>Whatever events arrive, the registry keeps one record per game under the game's identifier, and
  while it holds more than ten thousand every one of them is a game still under way.\<close>

theorem registry_keeps_games_under_way:
  assumes "rearranges order" and "registry_ok records"
  shows "registry_ok (snd (apply_event order now ev records))"
proof (cases "uuid_ok (we_uuid ev)")
  case False
  with assms(2) show ?thesis by (simp add: apply_event_def)
next
  case True
  define res where "res = touched now ev (case map_of records (we_uuid ev) of Some r \<Rightarrow> r | None \<Rightarrow> new_watch_record now ev)"
  define R where "R = AList.update (we_uuid ev) res records"
  have dist: "distinct (map fst records)" and own: "\<forall>(uuid, r) \<in> set records. wr_uuid r = uuid \<and> uuid_ok uuid"
    and few: "length records \<le> max_recent_records \<or> (\<forall>(uuid, r) \<in> set records. \<not> is_settled r)"
    using assms(2) by (auto simp: registry_ok_def)
  have res_uuid: "wr_uuid res = we_uuid ev"
    using own by (auto simp: res_def new_watch_record_def split: option.splits dest: map_of_SomeD)
  have distR: "distinct (map fst R)" unfolding R_def by (rule distinct_update [OF dist])
  have memR: "(k, r) \<in> set R \<Longrightarrow> (k = we_uuid ev \<and> r = res) \<or> ((k, r) \<in> set records \<and> k \<noteq> we_uuid ev)" for k r
    using set_AList_update [OF dist] unfolding R_def by blast
  have ownR: "\<forall>(uuid, r) \<in> set R. wr_uuid r = uuid \<and> uuid_ok uuid" using memR own res_uuid True by fastforce
  have result: "snd (apply_event order now ev records) =
      (if max_recent_records < length R then (case oldest_terminal order R of Some uuid \<Rightarrow> AList.delete uuid R | None \<Rightarrow> R) else R)"
    using True unfolding apply_event_def Let_def res_def [symmetric] R_def [symmetric] by simp
  show ?thesis
  proof (cases "max_recent_records < length R")
    case False
    with distR ownR result show ?thesis by (simp add: registry_ok_def)
  next
    case big: True
    show ?thesis
    proof (cases "oldest_terminal order R")
      case None
      then have "\<forall>(uuid, r) \<in> set R. \<not> is_settled r" using oldest_terminal_None [OF assms(1)] by blast
      with None big distR ownR result show ?thesis by (simp add: registry_ok_def)
    next
      case (Some k)
      then obtain k' r where r: "(k', r) \<in> set R" "is_settled r" "wr_uuid r = k" using oldest_terminal_Some [OF assms(1)] by blast
      then have k: "(k, r) \<in> set R" using ownR by auto
      have "length (AList.delete k R) \<le> max_recent_records \<or> (\<forall>(uuid, q) \<in> set (AList.delete k R). \<not> is_settled q)"
        using evicted_few [OF dist R_def k r(2) few] .
      moreover have "distinct (map fst (AList.delete k R))" by (rule distinct_delete [OF distR])
      ultimately show ?thesis using Some big ownR result by (auto simp: registry_ok_def set_AList_delete)
    qed
  qed
qed

definition sample_watch_event :: watch_event where
  "sample_watch_event = \<lparr>we_uuid = ''260723-a'', we_event = Live_Seen, we_mode_id = Some 16, we_started_at = None,
     we_message = None, we_record_id = None\<rparr>"

theorem registry_keeps_games_under_way_witness: "registry_ok (snd (apply_event rev 7 sample_watch_event []))"
  by (rule registry_keeps_games_under_way) (simp_all add: rearranges_def registry_ok_def)

text \<open>The console's list is the newest first and counts every record.\<close>

lemma summary_sorted:
  assumes "rearranges order"
  shows "sorted_wrt (\<lambda>a b. wr_updated_at b \<le> wr_updated_at a) (wy_items (summary order state limit records))"
    and "wy_total (summary order state limit records) = length records"
proof -
  let ?every = "sort_key (\<lambda>r. - wr_updated_at r) (map snd (order records))"
  have "sorted (map (\<lambda>r. - wr_updated_at r) ?every)" by (rule sorted_sort_key)
  then have "sorted_wrt (\<lambda>a b. wr_updated_at b \<le> wr_updated_at a) ?every" by (simp add: sorted_wrt_map)
  then show "sorted_wrt (\<lambda>a b. wr_updated_at b \<le> wr_updated_at a) (wy_items (summary order state limit records))"
    by (simp add: summary_def Let_def sorted_wrt_take sorted_wrt_filter)
  have "length (order records) = length records" using assms by (metis rearranges_def size_mset)
  then show "wy_total (summary order state limit records) = length records" by (simp add: summary_def Let_def)
qed

lemma apply_event_accepts: "uuid_ok (we_uuid ev) \<longleftrightarrow> (\<exists>r. fst (apply_event order now ev records) = Inr r)"
  by (simp add: apply_event_def Let_def)

end
