(* ===== verification/Collector.thy ===== *)
theory Collector
  imports Client_Version Watch_Registry Reconvert Accounts
begin

text \<open>
  \<^verbatim>\<open>src/managed_watch.rs\<close>: a live collector. It polls the lists of games under way, notices when a game
  leaves them, waits until its record is written, fetches and converts the record and hands it to
  the ingest half of \<^verbatim>\<open>indexer.rs\<close>; what is left of the interval serves the requests of \<^verbatim>\<open>refetch.rs\<close>.
  One round of \<^verbatim>\<open>watch_session\<close> is one function; what the round meets (the replies of the game server,
  the clock, the outcome of each write, the iteration order of the hash maps) is an argument. The
  external modules, base64 and gzip are parameters. Two history variables record the events announced to
  the registry and the games dropped; no operation reads them.
\<close>

section \<open>Games under way\<close>

definition filter_id_offset :: u32 where
  "filter_id_offset = 200"

definition settle_secs :: u64 where
  "settle_secs = 120"

definition give_up_secs :: u64 where
  "give_up_secs = 3 * 3600"

record live_game =
  lg_uuid :: string
  lg_mode_id :: i32
  lg_start_time :: u32
  lg_queued_at :: "u64 option"

text \<open>The mode in the configuration of a list entry; the last one in the message counts.\<close>

definition head_mode_id :: "u8 list \<Rightarrow> i32 \<Rightarrow> i32 result" where
  "head_mode_id data mode_id =
     fold_fields (\<lambda>mode_id config.
         if fld_is 3 2 config then
           fold_fields (\<lambda>mode_id meta. if fld_is 2 0 meta then get_u32 meta (\<lambda>v. Inr v) else Inr mode_id)
             mode_id (f_data config)
         else Inr mode_id) mode_id data"

definition is_inr :: "'e + 'a \<Rightarrow> bool" where
  "is_inr r \<longleftrightarrow> (case r of Inr _ \<Rightarrow> True | Inl _ \<Rightarrow> False)"

definition supported_game :: "live_game \<Rightarrow> bool" where
  "supported_game g \<longleftrightarrow> lg_uuid g \<noteq> [] \<and> is_inr (mode_metadata (lg_mode_id g)) \<and> is_inr (uuid_year (lg_uuid g))"

definition parse_live_head :: "u8 list \<Rightarrow> i32 \<Rightarrow> live_game option result" where
  "parse_live_head data fallback_mode_id =
     attempt (fold_fields (\<lambda>(uuid, start_time, mode_id) fld.
         if fld_is 1 2 fld then Inr (extract_string (f_data fld), start_time, mode_id)
         else if fld_is 2 0 fld then get_u32 fld (\<lambda>v. Inr (uuid, v, mode_id))
         else if fld_is 3 2 fld then
           attempt (head_mode_id (f_data fld) mode_id) (\<lambda>mode_id. Inr (uuid, start_time, mode_id))
         else Inr (uuid, start_time, mode_id)) ([], 0, 0) data)
     (\<lambda>(uuid, start_time, mode_id).
       let mode_id = (if mode_id = 0 then fallback_mode_id else mode_id);
           game = \<lparr>lg_uuid = uuid, lg_mode_id = mode_id, lg_start_time = start_time, lg_queued_at = None\<rparr>
       in Inr (if supported_game game then Some game else None))"

definition parse_live_list :: "u8 list \<Rightarrow> i32 \<Rightarrow> live_game list result" where
  "parse_live_list data fallback_mode_id =
     fold_fields (\<lambda>games fld.
         if fld_is 1 2 fld then
           attempt (fold_fields (\<lambda>_ err.
               if fld_is 1 0 err then
                 attempt (extract_varint (f_data err)) (\<lambda>v.
                   if v \<noteq> 0 then Inl (Bail ''fetchGameLiveList returned an error'') else Inr ())
               else Inr ()) () (f_data fld)) (\<lambda>_. Inr games)
         else if fld_is 2 2 fld then
           attempt (parse_live_head (f_data fld) fallback_mode_id) (\<lambda>game.
             Inr (case game of Some g \<Rightarrow> games @ [g] | None \<Rightarrow> games))
         else Inr games) [] data"

definition metadata_for :: "live_game \<Rightarrow> game_metadata result" where
  "metadata_for g =
     attempt (mode_metadata (lg_mode_id g)) (\<lambda>(room, game_length, players).
     attempt (uuid_year (lg_uuid g)) (\<lambda>year.
       Inr \<lparr>gm_mode_id = lg_mode_id g, gm_room = room, gm_game_length = game_length, gm_players = players,
            gm_year = year\<rparr>))"

definition event_for :: "live_game \<Rightarrow> watch_event_kind \<Rightarrow> string option \<Rightarrow> uuid option \<Rightarrow> watch_event" where
  "event_for g k message record_id =
     \<lparr>we_uuid = lg_uuid g, we_event = k, we_mode_id = Some (lg_mode_id g),
      we_started_at = Some (int (unat (lg_start_time g))), we_message = message, we_record_id = record_id\<rparr>"

section \<open>Failures and replies\<close>

datatype session_end = Session_Failed login_failure | Session_Panicked string

definition plain_failure :: "string \<Rightarrow> login_failure" where
  "plain_failure m = \<lparr>lf_text = m, lf_top = m, lf_code = None\<rparr>"

primrec end_of_fault :: "fault \<Rightarrow> session_end" where
  "end_of_fault (Bail m) = Session_Failed (plain_failure m)"
| "end_of_fault (Panicked m) = Session_Panicked m"

definition map_error :: "('e \<Rightarrow> 'f) \<Rightarrow> 'e + 'a \<Rightarrow> 'f + 'a" where
  "map_error f r = (case r of Inl e \<Rightarrow> Inl (f e) | Inr x \<Rightarrow> Inr x)"

definition ends_the_session :: "login_failure \<Rightarrow> bool" where
  "ends_the_session e \<longleftrightarrow> (case lf_code e of None \<Rightarrow> True | Some code \<Rightarrow> is_session_stale code)"

definition banned_code :: u64 where
  "banned_code = 503"

definition login_verdict :: "login_failure \<Rightarrow> account_state" where
  "login_verdict e =
     (case lf_code e of
        Some code \<Rightarrow> if code = banned_code then Banned else Refused_State
      | None \<Rightarrow> Unreachable)"

definition masked_account :: "string \<Rightarrow> string" where
  "masked_account username =
     (let (local, domain) = (case split_once CHR ''@'' username of
                               Some (local, domain) \<Rightarrow> (local, CHR ''@'' # domain)
                             | None \<Rightarrow> (username, []))
      in take_chars 2 local @ ''***'' @ domain)"

text \<open>A reply is that of the game server, or that of an external module to the server's bytes.\<close>

datatype reply = From_Server "login_failure + u8 list" | From_Module "login_failure + json"

record modules =
  md_games :: "json \<Rightarrow> live_game list option"
  md_base64 :: "string \<Rightarrow> u8 list option"

definition required_string :: "json \<Rightarrow> string \<Rightarrow> login_failure + string" where
  "required_string v fld =
     (case Option.bind (json_get fld v) as_str of
        Some text_value \<Rightarrow> if text_value \<noteq> [] then Inr text_value else Inl (plain_failure (''module response is missing '' @ fld))
      | None \<Rightarrow> Inl (plain_failure (''module response is missing '' @ fld)))"

definition decode_base64_field :: "modules \<Rightarrow> json \<Rightarrow> string \<Rightarrow> login_failure + u8 list" where
  "decode_base64_field mo v fld =
     attempt (required_string v fld) (\<lambda>encoded.
       case md_base64 mo encoded of Some bytes \<Rightarrow> Inr bytes | None \<Rightarrow> Inl (plain_failure ''invalid base64''))"

definition checked_response :: "string \<Rightarrow> u8 list \<Rightarrow> login_failure + u8 list" where
  "checked_response operation response =
     (case extract_error_code response of
        Some code \<Rightarrow>
          if code \<noteq> 0 then
            let top = operation @ '' returned error '' @ show_nat (unat code)
            in Inl \<lparr>lf_text = top @ '': server error code '' @ show_nat (unat code), lf_top = top, lf_code = Some code\<rparr>
          else Inr response
      | None \<Rightarrow> Inr response)"

definition fetch_live_list :: "modules \<Rightarrow> reply \<Rightarrow> i32 \<Rightarrow> session_end + live_game list" where
  "fetch_live_list mo rep fallback_mode_id =
     (case rep of
        From_Module r \<Rightarrow>
          attempt (map_error Session_Failed r) (\<lambda>v.
            case json_get ''games'' v of
              None \<Rightarrow> Inl (Session_Failed (plain_failure ''PB module response is missing games''))
            | Some games \<Rightarrow>
                (case md_games mo games of
                   None \<Rightarrow> Inl (Session_Failed (plain_failure ''invalid games''))
                 | Some games \<Rightarrow> Inr (filter supported_game games)))
      | From_Server r \<Rightarrow>
          attempt (map_error Session_Failed r) (\<lambda>response.
          attempt (map_error Session_Failed (checked_response ''fetchGameLiveList'' response)) (\<lambda>response.
            map_error end_of_fault (parse_live_list response fallback_mode_id))))"

definition fetch_game_record :: "modules \<Rightarrow> reply \<Rightarrow> login_failure + u8 list" where
  "fetch_game_record mo rep =
     (case rep of
        From_Module r \<Rightarrow> attempt r (\<lambda>v. decode_base64_field mo v ''pb_base64'')
      | From_Server r \<Rightarrow> attempt r (\<lambda>response. checked_response ''fetchGameRecord'' response))"

text \<open>
  One login of \<^verbatim>\<open>run\<close>: the state recorded for the account, the version pinned for the next login, and the shared
  version file, read when the login fails (\<open>at_search\<close>) and written after a search (\<open>at_store\<close>).
\<close>

definition login_turn ::
  "nat \<Rightarrow> 's login_fn \<Rightarrow> string option \<Rightarrow> bool \<Rightarrow> string option \<Rightarrow> string option \<Rightarrow> 's \<Rightarrow>
   (account_state \<times> string option \<times> string option \<times> 's) option" where
  "login_turn fuel connect pinned written at_search at_store s =
     (let attempted = effective_code_version at_search pinned
      in case connect attempted s of
           (Inr _, s') \<Rightarrow> Some (Ok_State, pinned, at_search, s')
         | (Inl e, s') \<Rightarrow>
             map_option (\<lambda>(refreshed, cache, s'').
                 (login_verdict e, case refreshed of Some version \<Rightarrow> Some version | None \<Rightarrow> pinned, cache, s''))
               (refreshed_client_version fuel connect (Some attempted) (lf_text e) written at_search at_store s'))"

section \<open>The collector's state\<close>

datatype give_up_line = Gave_Up_Fetching string u64 | Gave_Up_Storing string

record collector =
  co_tracked :: "live_game table"
  co_pending :: "live_game table"
  co_file :: "live_game list \<times> live_game list"
  co_discovered :: "live_game list"
  co_registry :: "watch_record table"
  co_log :: "give_up_line list"
  co_announced :: "watch_event list"
  co_dropped :: "(live_game \<times> u64) list"

text \<open>
  What one round meets. Each game is asked for at most once in a round and each mode has one list, so replies,
  clocks and writes are functions of the game and of the mode; \<open>re_saved None\<close> is the write that follows the lists.
\<close>

record round_env =
  re_order :: "live_game table \<Rightarrow> live_game table"
  re_records_order :: "watch_record table \<Rightarrow> watch_record table"
  re_clock :: "string \<Rightarrow> watch_event_kind \<Rightarrow> int"
  re_now :: u64
  re_list :: "i32 \<Rightarrow> reply"
  re_appended :: "string \<Rightarrow> bool"
  re_saved :: "string option \<Rightarrow> bool"
  re_record :: "string \<Rightarrow> reply"
  re_ingest :: "string \<Rightarrow> ingest_env"

record collector_libs =
  cb_libs :: libs
  cb_codec :: codec
  cb_kafka :: kafka
  cb_modules :: modules
  cb_error_text :: "ingest_error \<Rightarrow> string"

text \<open>Results with a state: the rest runs only after a success, on the state left.\<close>

definition on_ok :: "('e + 'a) \<times> 's \<Rightarrow> ('a \<Rightarrow> 's \<Rightarrow> ('e + 'b) \<times> 's) \<Rightarrow> ('e + 'b) \<times> 's" where
  "on_ok r rest = (case r of (Inl e, s) \<Rightarrow> (Inl e, s) | (Inr x, s) \<Rightarrow> rest x s)"

definition announce ::
  "round_env \<Rightarrow> live_game \<Rightarrow> watch_event_kind \<Rightarrow> string option \<Rightarrow> uuid option \<Rightarrow> collector \<Rightarrow> (session_end + unit) \<times> collector" where
  "announce env g k message record_id co =
     (let ev = event_for g k message record_id
      in case apply_event (re_records_order env) (re_clock env (lg_uuid g) k) ev (co_registry co) of
           (Inl _, _) \<Rightarrow> (Inl (Session_Failed (plain_failure ''watch UUID must be 1-96 printable ASCII characters'')), co)
         | (Inr _, records) \<Rightarrow> (Inr (), co\<lparr>co_registry := records, co_announced := co_announced co @ [ev]\<rparr>))"

definition append_discovered :: "bool \<Rightarrow> live_game \<Rightarrow> collector \<Rightarrow> collector" where
  "append_discovered appended g co = (if appended then co\<lparr>co_discovered := co_discovered co @ [g]\<rparr> else co)"

definition load_state :: "live_game list \<times> live_game list \<Rightarrow> live_game table \<times> live_game table" where
  "load_state stored =
     (let collect = (\<lambda>games. foldl (\<lambda>table g. AList.update (lg_uuid g) g table) [] games)
      in (collect (fst stored), collect (snd stored)))"

definition persist_state :: "round_env \<Rightarrow> string option \<Rightarrow> collector \<Rightarrow> (session_end + unit) \<times> collector" where
  "persist_state env moment co =
     (if re_saved env moment
      then (Inr (), co\<lparr>co_file := (map snd (re_order env (co_tracked co)), map snd (re_order env (co_pending co)))\<rparr>)
      else (Inl (Session_Failed (plain_failure ''cannot write the state file'')), co))"

section \<open>One round\<close>

definition see_game :: "round_env \<Rightarrow> live_game \<Rightarrow> live_game table \<Rightarrow> collector \<Rightarrow> (session_end + live_game table) \<times> collector" where
  "see_game env g live_now co =
     on_ok (announce env g Live_Seen None None co) (\<lambda>_ co.
       (Inr (AList.update (lg_uuid g) g live_now),
        if map_of (co_tracked co) (lg_uuid g) = None then append_discovered (re_appended env (lg_uuid g)) g co else co))"

fun see_games :: "round_env \<Rightarrow> live_game list \<Rightarrow> live_game table \<Rightarrow> collector \<Rightarrow> (session_end + live_game table) \<times> collector" where
  "see_games env [] live_now co = (Inr live_now, co)"
| "see_games env (g # gs) live_now co = on_ok (see_game env g live_now co) (see_games env gs)"

fun see_modes :: "modules \<Rightarrow> round_env \<Rightarrow> i32 list \<Rightarrow> live_game table \<Rightarrow> collector \<Rightarrow> (session_end + live_game table) \<times> collector" where
  "see_modes mo env [] live_now co = (Inr live_now, co)"
| "see_modes mo env (mode_id # modes) live_now co =
     on_ok (fetch_live_list mo (re_list env mode_id) mode_id, co) (\<lambda>games co.
     on_ok (see_games env games live_now co) (see_modes mo env modes))"

definition ended_text :: string where
  "ended_text = of_bytes [0xE7, 0x89, 0x8C, 0xE5, 0xB1, 0x80, 0xE5, 0xB7, 0xB2, 0xE7, 0xBB, 0x93, 0xE6, 0x9D, 0x9F, 0xEF,
     0xBC, 0x8C, 0xE7, 0xAD, 0x89, 0xE5, 0xBE, 0x85, 0xE7, 0x89, 0x8C, 0xE8, 0xB0, 0xB1, 0xE7, 0x94, 0x9F, 0xE6,
     0x88, 0x90]"

definition queue_game :: "round_env \<Rightarrow> string \<Rightarrow> live_game \<Rightarrow> collector \<Rightarrow> collector" where
  "queue_game env u g co =
     co\<lparr>co_pending := (if map_of (co_pending co) u = None then AList.update u (g\<lparr>lg_queued_at := Some (re_now env)\<rparr>) (co_pending co)
                       else co_pending co)\<rparr>"

fun queue_ended :: "round_env \<Rightarrow> live_game table \<Rightarrow> live_game table \<Rightarrow> collector \<Rightarrow> (session_end + unit) \<times> collector" where
  "queue_ended env live_now [] co = (Inr (), co)"
| "queue_ended env live_now ((uuid, g) # games) co =
     (if map_of live_now uuid = None then
        on_ok (announce env (g\<lparr>lg_queued_at := Some (re_now env)\<rparr>) Now_Pending (Some ended_text) None co) (\<lambda>_ co.
          queue_ended env live_now games (queue_game env uuid g co))
      else queue_ended env live_now games co)"

definition too_fresh :: "u64 \<Rightarrow> live_game \<Rightarrow> bool" where
  "too_fresh now g \<longleftrightarrow> (case lg_queued_at g of Some queued \<Rightarrow> saturating_sub now queued < settle_secs | None \<Rightarrow> False)"

definition past_hope :: "u64 \<Rightarrow> live_game \<Rightarrow> bool" where
  "past_hope now g \<longleftrightarrow> (case lg_queued_at g of Some queued \<Rightarrow> give_up_secs < saturating_sub now queued | None \<Rightarrow> False)"

definition drop_game :: "u64 \<Rightarrow> live_game \<Rightarrow> collector \<Rightarrow> collector" where
  "drop_game now g co =
     co\<lparr>co_pending := AList.delete (lg_uuid g) (co_pending co), co_dropped := co_dropped co @ [(g, now)]\<rparr>"

definition note_give_up :: "give_up_line \<Rightarrow> collector \<Rightarrow> collector" where
  "note_give_up line co = co\<lparr>co_log := co_log co @ [line]\<rparr>"

definition fetch_failed :: "round_env \<Rightarrow> live_game \<Rightarrow> login_failure \<Rightarrow> collector \<Rightarrow> (session_end + unit) \<times> collector" where
  "fetch_failed env g e co =
     on_ok (announce env g Record_Fetch_Failed (Some (lf_top e)) None co) (\<lambda>_ co.
       if ends_the_session e then (Inl (Session_Failed e), co)
       else let code = (case lf_code e of Some code \<Rightarrow> code | None \<Rightarrow> 0)
            in if past_hope (re_now env) g
               then on_ok (persist_state env (Some (lg_uuid g)) (drop_game (re_now env) g co)) (\<lambda>_ co.
                      (Inr (), note_give_up (Gave_Up_Fetching (lg_uuid g) code) co))
               else (Inr (), co))"

text \<open>The record is converted and, decompressed again, handed to the ingest half; a panic ends the task.\<close>

definition ingest_game :: "collector_libs \<Rightarrow> round_env \<Rightarrow> live_game \<Rightarrow> u8 list \<Rightarrow> u8 list \<Rightarrow> world \<Rightarrow> (string + uuid) \<times> world" where
  "ingest_game cb env g compressed raw wd =
     (case cd_gunzip (cb_codec cb) compressed of
        None \<Rightarrow> (Inl ''corrupt deflate stream'', wd)
      | Some bytes \<Rightarrow>
          (case ingest_one (cb_libs cb) (cb_kafka cb) (re_ingest env (lg_uuid g)) ''majsoul-watch'' (lg_uuid g) None
                  bytes (Some raw) wd of
             (Inl e, wd) \<Rightarrow> (Inl (cb_error_text cb e), wd)
           | (Inr acc, wd) \<Rightarrow> (Inr (ac_id acc), wd)))"

definition convert_and_ingest ::
  "collector_libs \<Rightarrow> round_env \<Rightarrow> live_game \<Rightarrow> game_metadata \<Rightarrow> u8 list \<Rightarrow> world \<Rightarrow> (string + string + uuid) \<times> world" where
  "convert_and_ingest cb env g metadata raw wd =
     (case convert_record_bytes (lb_to_string (cb_libs cb)) (cd_gzip (cb_codec cb)) raw (Some metadata) of
        Inl (Panicked m) \<Rightarrow> (Inl m, wd)
      | Inl (Bail m) \<Rightarrow> (Inr (Inl m), wd)
      | Inr (_, compressed) \<Rightarrow> (case ingest_game cb env g compressed raw wd of (r, wd) \<Rightarrow> (Inr r, wd)))"

definition completed_text :: string where
  "completed_text = of_bytes [0xE5, 0xB7, 0xB2, 0xE8, 0xBD, 0xAC, 0xE6, 0x8D, 0xA2, 0xE5, 0xB9, 0xB6, 0xE6, 0x8F, 0x90, 0xE4,
     0xBA, 0xA4, 0xE5, 0x88, 0xB0, 0xE6, 0x89, 0x93, 0xE5, 0x8C, 0x85, 0xE9, 0x98, 0x9F, 0xE5, 0x88, 0x97]"

definition store_fetched ::
  "collector_libs \<Rightarrow> round_env \<Rightarrow> live_game \<Rightarrow> u8 list \<Rightarrow> collector \<Rightarrow> world \<Rightarrow> (session_end + unit) \<times> collector \<times> world" where
  "store_fetched cb env g raw co wd =
     (case announce env g Now_Converting None None co of
           (Inl e, co) \<Rightarrow> (Inl e, co, wd)
         | (Inr _, co) \<Rightarrow>
             (case metadata_for g of
                Inl e \<Rightarrow> (Inl (end_of_fault e), co, wd)
              | Inr metadata \<Rightarrow>
                  (case convert_and_ingest cb env g metadata raw wd of
                     (Inl m, wd) \<Rightarrow> (Inl (Session_Panicked m), co, wd)
                   | (Inr (Inr record_id), wd) \<Rightarrow>
                       (case on_ok (announce env g Now_Completed (Some completed_text) (Some record_id) co) (\<lambda>_ co.
                               persist_state env (Some (lg_uuid g)) (co\<lparr>co_pending := AList.delete (lg_uuid g) (co_pending co)\<rparr>)) of
                          (r, co) \<Rightarrow> (r, co, wd))
                   | (Inr (Inl message), wd) \<Rightarrow>
                       (case on_ok (announce env g Record_Conversion_Failed (Some message) None co) (\<lambda>_ co.
                               persist_state env (Some (lg_uuid g))
                                 (if past_hope (re_now env) g
                                  then note_give_up (Gave_Up_Storing (lg_uuid g)) (drop_game (re_now env) g co) else co)) of
                          (r, co) \<Rightarrow> (r, co, wd)))))"

definition settle_game ::
  "collector_libs \<Rightarrow> round_env \<Rightarrow> live_game \<Rightarrow> collector \<Rightarrow> world \<Rightarrow> (session_end + unit) \<times> collector \<times> world" where
  "settle_game cb env g co wd =
     (if too_fresh (re_now env) g then (Inr (), co, wd)
      else case announce env g Now_Fetching None None co of
                (Inl e, co) \<Rightarrow> (Inl e, co, wd)
              | (Inr _, co) \<Rightarrow>
                  (case fetch_game_record (cb_modules cb) (re_record env (lg_uuid g)) of
                     Inl e \<Rightarrow> (case fetch_failed env g e co of (r, co) \<Rightarrow> (r, co, wd))
                   | Inr raw \<Rightarrow> store_fetched cb env g raw co wd))"

fun settle_games ::
  "collector_libs \<Rightarrow> round_env \<Rightarrow> live_game list \<Rightarrow> collector \<times> world \<Rightarrow> (session_end + unit) \<times> collector \<times> world" where
  "settle_games cb env [] (co, wd) = (Inr (), co, wd)"
| "settle_games cb env (g # gs) (co, wd) = on_ok (settle_game cb env g co wd) (\<lambda>_. settle_games cb env gs)"

definition list_round :: "modules \<Rightarrow> round_env \<Rightarrow> i32 list \<Rightarrow> collector \<Rightarrow> (session_end + unit) \<times> collector" where
  "list_round mo env modes co =
     on_ok (see_modes mo env modes [] co) (\<lambda>live_now co.
     on_ok (queue_ended env live_now (re_order env (co_tracked co)) co) (\<lambda>_ co.
       persist_state env None (co\<lparr>co_tracked := live_now\<rparr>)))"

definition watch_round ::
  "collector_libs \<Rightarrow> round_env \<Rightarrow> i32 list \<Rightarrow> collector \<Rightarrow> world \<Rightarrow> (session_end + unit) \<times> collector \<times> world" where
  "watch_round cb env modes co wd =
     (case list_round (cb_modules cb) env modes co of
           (Inl e, co) \<Rightarrow> (Inl e, co, wd)
         | (Inr _, co) \<Rightarrow> settle_games cb env (map snd (re_order env (co_pending co))) (co, wd))"

section \<open>Serving the re-fetch requests\<close>

text \<open>
  One element per turn of the loop: whether the deadline has passed, what other tasks did to the queue since, and
  the reply to the request the turn takes. \<^const>\<open>None\<close> is a loop that is still waiting.
\<close>

record serve_turn =
  sv_late :: bool
  sv_meanwhile :: "refetch_broker \<Rightarrow> refetch_broker"
  sv_reply :: reply

fun serve_refetches ::
  "modules \<Rightarrow> serve_turn list \<Rightarrow> nat \<Rightarrow> refetch_broker \<Rightarrow> (login_failure + nat) option \<times> refetch_broker" where
  "serve_refetches mo [] n rb = (None, rb)"
| "serve_refetches mo (t # ts) n rb =
     (if sv_late t then (Some (Inr n), rb)
      else case Refetch.claim (sv_meanwhile t rb) of
             (None, rb) \<Rightarrow> serve_refetches mo ts n (snd (wait_for_work rb))
           | (Some rq, rb) \<Rightarrow>
               (case fetch_game_record mo (sv_reply t) of
                  Inr raw \<Rightarrow> serve_refetches mo ts (n + 1) (answer rq (Inr raw) rb)
                | Inl e \<Rightarrow>
                    let rb = answer rq (Inl (Refused (lf_text e))) rb
                    in if ends_the_session e then (Some (Inl e), rb) else serve_refetches mo ts n rb))"

section \<open>A raised version floor\<close>

lemma serves_login:
  assumes "serves_from connect floor"
  obtains (accepted) s' where "floor \<le> v" and "connect (format_version v) s = (Inr (), s')"
  | (refused) e s' where "v < floor" and "version_refused (lf_text e)" and "connect (format_version v) s = (Inl e, s')"
proof -
  obtain r s' where c: "connect (format_version v) s = (r, s')" by (cases "connect (format_version v) s")
  have "case r of Inr _ \<Rightarrow> floor \<le> v | Inl e \<Rightarrow> v < floor \<and> version_refused (lf_text e)"
    using assms c unfolding serves_from_def by (metis fst_conv)
  then show thesis using c that by (cases r) auto
qed

text \<open>When the server raises the lowest version it accepts by no more than the span of the search, a collector
  loses one login to it: reporting the failure pins the new floor, and the next login, whatever was published in the
  meantime, carries it and is accepted.\<close>

theorem raised_floor_is_followed:
  assumes server: "serves_from connect floor" and attempted: "effective_code_version at_search pinned = format_version r"
    and "r < floor" and "unat floor \<le> unat r + 4096" and "unat r + 4096 < 2 ^ 32" and "13 \<le> fuel"
    and shared: "\<forall>v. load_client_version at_search = Some v \<longrightarrow> \<not> version_above (parse_version v) (Some r)"
  shows "\<exists>state cache s' s''.
    login_turn fuel connect pinned written at_search at_store s = Some (state, Some (format_version floor), cache, s') \<and>
    login_turn fuel connect (Some (format_version floor)) written' at_search' at_store' s' =
      Some (Ok_State, Some (format_version floor), at_search', s'')"
proof -
  obtain e s1 where refused: "version_refused (lf_text e)" "connect (format_version r) s = (Inl e, s1)"
    using serves_login [OF server, of r s] assms(3) by (metis leD)
  have parsed: "parse_version (format_version r) = Some r" by (rule version_round_trip)
  obtain s2 where found: "discover_version_floor fuel connect (format_version r) s1 = Some (Inr (format_version floor), s2)"
    using version_floor_found [OF server parsed assms(3-6)] by blast
  have eff: "effective_code_version at_search (Some (format_version r)) = format_version r"
    by (simp add: effective_code_version_def)
  have "refreshed_client_version fuel connect (Some (format_version r)) (lf_text e) written at_search at_store s1 =
      Some (Some (format_version floor), store_client_version written (format_version floor) at_store, s2)"
    using refused(1) shared found by (auto simp: refreshed_client_version_def eff parsed Let_def split: option.splits)
  then have first: "login_turn fuel connect pinned written at_search at_store s =
      Some (login_verdict e, Some (format_version floor), store_client_version written (format_version floor) at_store, s2)"
    by (simp add: login_turn_def attempted refused(2))
  obtain s3 where "connect (format_version floor) s2 = (Inr (), s3)"
    using serves_login [OF server, of floor s2] by auto
  then have "login_turn fuel connect (Some (format_version floor)) written' at_search' at_store' s2 =
      Some (Ok_State, Some (format_version floor), at_search', s3)"
    by (simp add: login_turn_def effective_code_version_def)
  with first show ?thesis by blast
qed

theorem raised_floor_is_followed_witness:
  "\<exists>state cache s' s''.
    login_turn 13 (sample_server 16265) None True None None 0 = Some (state, Some (format_version 16265), cache, s') \<and>
    login_turn 13 (sample_server 16265) (Some (format_version 16265)) True (Some ''0.16.1'') None s' =
      Some (Ok_State, Some (format_version 16265), Some ''0.16.1'', s'')"
proof (rule raised_floor_is_followed [OF sample_server_serves])
  have "format_version 16257 = ''0.16.257''"
    by (simp add: format_version_def show_nat.simps [of 16] show_nat.simps [of 257] show_nat.simps [of 25] show_nat.simps [of 2]
        show_nat.simps [of "Suc 0"] char_of_def bit_0)
  then show "effective_code_version None None = format_version 16257"
    by (simp add: effective_code_version_def current_code_version_def adopted_client_version_def load_client_version_def cn_code_version_def)
qed (simp_all add: load_client_version_def)

section \<open>Nothing saved is lost\<close>

definition keys_of :: "'a table \<Rightarrow> string set" where
  "keys_of t = fst ` set t"

definition in_memory :: "collector \<Rightarrow> string set" where
  "in_memory co = keys_of (co_tracked co) \<union> keys_of (co_pending co)"

definition on_file :: "collector \<Rightarrow> string set" where
  "on_file co = lg_uuid ` (set (fst (co_file co)) \<union> set (snd (co_file co)))"

definition completed :: "collector \<Rightarrow> string \<Rightarrow> bool" where
  "completed co u \<longleftrightarrow> (\<exists>ev \<in> set (co_announced co). we_uuid ev = u \<and> we_event ev = Now_Completed)"

definition dropped_late :: "collector \<Rightarrow> string \<Rightarrow> bool" where
  "dropped_late co u \<longleftrightarrow> (\<exists>(g, now) \<in> set (co_dropped co). lg_uuid g = u \<and> past_hope now g)"

definition accounted :: "collector \<Rightarrow> string \<Rightarrow> bool" where
  "accounted co u \<longleftrightarrow> completed co u \<or> dropped_late co u"

definition table_ok :: "live_game table \<Rightarrow> bool" where
  "table_ok t \<longleftrightarrow> distinct (map fst t) \<and> (\<forall>(u, g) \<in> set t. lg_uuid g = u \<and> supported_game g)"

definition tidy :: "collector \<Rightarrow> bool" where
  "tidy co \<longleftrightarrow> table_ok (co_tracked co) \<and> table_ok (co_pending co) \<and>
     (\<forall>g \<in> set (fst (co_file co)) \<union> set (snd (co_file co)). supported_game g) \<and>
     (\<forall>u \<in> on_file co. u \<in> in_memory co \<or> accounted co u)"

text \<open>What every operation keeps: a game in memory or in the file stays there unless it is accounted for.\<close>

definition advances :: "collector \<Rightarrow> collector \<Rightarrow> bool" where
  "advances co co' \<longleftrightarrow> tidy co' \<and>
     (\<forall>u. accounted co u \<longrightarrow> accounted co' u) \<and>
     (\<forall>u \<in> in_memory co. u \<in> in_memory co' \<or> accounted co' u) \<and>
     (\<forall>u \<in> on_file co. u \<in> on_file co' \<or> accounted co' u)"

lemma advances_refl: "tidy co \<Longrightarrow> advances co co"
  by (simp add: advances_def)

lemma advances_trans: "advances a b \<Longrightarrow> advances b c \<Longrightarrow> advances a c"
  unfolding advances_def by blast

lemma advances_tidy: "advances co co' \<Longrightarrow> tidy co'"
  by (simp add: advances_def)

text \<open>A way in which a state may go on, for runs that stop at the first failure: the state left by a sequence is reached
  in that way when each part goes on so.\<close>

locale progress =
  fixes sound :: "'s \<Rightarrow> bool" and goes :: "'s \<Rightarrow> 's \<Rightarrow> bool"
  assumes stays: "sound s \<Longrightarrow> goes s s"
    and chains: "goes s t \<Longrightarrow> goes t u \<Longrightarrow> goes s u"
    and keeps_sound: "goes s t \<Longrightarrow> sound t"
begin

lemma on_ok_goes:
  assumes "goes s (snd r)" and "\<And>x t. r = (Inr x, t) \<Longrightarrow> goes t (snd (rest x t))"
  shows "goes s (snd (on_ok r rest))"
  using assms chains by (fastforce simp: on_ok_def split: prod.splits sum.splits)

lemma run_goes:
  assumes "sound s" and "step\<^sup>*\<^sup>* s t" and "\<And>a b. sound a \<Longrightarrow> step a b \<Longrightarrow> goes a b"
  shows "goes s t"
  using assms(2)
proof (induction rule: rtranclp_induct)
  case base
  show ?case by (rule stays [OF assms(1)])
next
  case (step a b)
  then show ?case using assms(3) chains keeps_sound by blast
qed

end

interpretation held: progress tidy advances
  by unfold_locales (use advances_refl advances_trans advances_tidy in blast)+

lemma on_ok_Inr: "on_ok r rest = (Inr y, s') \<longleftrightarrow> (\<exists>x s. r = (Inr x, s) \<and> rest x s = (Inr y, s'))"
  by (auto simp: on_ok_def split: prod.splits sum.splits)

text \<open>Operations that touch only the registry, the logs and the history.\<close>

definition same_games :: "collector \<Rightarrow> collector \<Rightarrow> bool" where
  "same_games co co' \<longleftrightarrow> co_tracked co' = co_tracked co \<and> co_pending co' = co_pending co \<and> co_file co' = co_file co \<and>
     co_dropped co' = co_dropped co \<and> set (co_announced co) \<subseteq> set (co_announced co')"

lemma same_games_refl: "same_games co co"
  by (simp add: same_games_def)

lemma same_games_trans: "same_games a b \<Longrightarrow> same_games b c \<Longrightarrow> same_games a c"
  by (auto simp: same_games_def)

interpretation idle: progress "\<lambda>_. True" same_games
  by unfold_locales (use same_games_refl same_games_trans in blast)+

lemma same_games_accounted: "same_games co co' \<Longrightarrow> accounted co u \<Longrightarrow> accounted co' u"
  by (auto simp: same_games_def accounted_def completed_def dropped_late_def)

lemma same_games_sets: "same_games co co' \<Longrightarrow> in_memory co' = in_memory co" "same_games co co' \<Longrightarrow> on_file co' = on_file co"
  by (simp_all add: same_games_def in_memory_def on_file_def)

lemma same_games_tidy: "same_games co co' \<Longrightarrow> tidy co \<Longrightarrow> tidy co'"
  using same_games_accounted same_games_sets by (simp add: tidy_def) (auto simp: same_games_def)

lemma same_games_advances: "same_games co co' \<Longrightarrow> tidy co \<Longrightarrow> advances co co'"
  unfolding advances_def using same_games_accounted same_games_sets same_games_tidy by simp

lemma announce_same_games: "same_games co (snd (announce env g k message record_id co))"
  by (auto simp: announce_def same_games_def Let_def split: prod.splits sum.splits)

lemma announce_announces:
  "announce env g k message record_id co = (Inr x, co') \<Longrightarrow> co_announced co' = co_announced co @ [event_for g k message record_id]"
  by (auto simp: announce_def Let_def split: prod.splits sum.splits)

lemma see_game_same_games: "same_games co (snd (see_game env g live_now co))"
  using announce_same_games [of co env g Live_Seen None None]
  by (auto simp: see_game_def on_ok_def append_discovered_def same_games_def split: prod.splits sum.splits)

lemma see_games_same_games: "same_games co (snd (see_games env gs live_now co))"
proof (induction gs arbitrary: live_now co)
  case (Cons g gs)
  then show ?case by (simp add: idle.on_ok_goes [OF see_game_same_games])
qed (simp add: same_games_refl)

lemma see_modes_same_games: "same_games co (snd (see_modes mo env modes live_now co))"
proof (induction modes arbitrary: live_now co)
  case (Cons m modes)
  show ?case by (auto intro!: idle.on_ok_goes see_games_same_games Cons.IH simp: same_games_refl)
qed (simp add: same_games_refl)

text \<open>The table of the games under way.\<close>

lemma table_ok_update: "table_ok t \<Longrightarrow> supported_game g \<Longrightarrow> table_ok (AList.update (lg_uuid g) g t)"
  unfolding table_ok_def using distinct_update [of t] set_AList_update [of t] by fastforce

lemma keys_update [simp]: "keys_of (AList.update u g t) = Set.insert u (keys_of t)"
  by (auto simp: keys_of_def dom_update)

lemma keys_delete: "keys_of (AList.delete u t) = keys_of t - {u}"
  by (auto simp: keys_of_def AList.delete_eq)

lemma map_of_keys: "map_of t u = None \<longleftrightarrow> u \<notin> keys_of t"
  by (simp add: keys_of_def map_of_eq_None_iff)

lemma table_ok_delete: "table_ok t \<Longrightarrow> table_ok (AList.delete u t)"
  unfolding table_ok_def by (auto simp: set_AList_delete distinct_delete)

lemma parse_live_head_supported: "parse_live_head data fallback = Inr (Some g) \<Longrightarrow> supported_game g"
  by (auto simp: parse_live_head_def result_simps Let_def split: prod.splits if_splits)

lemma parse_live_list_supported:
  assumes "parse_live_list data fallback = Inr games"
  shows "\<forall>g \<in> set games. supported_game g"
  using assms unfolding parse_live_list_def
proof (rule fold_fields_from_invariant)
  show "\<forall>g \<in> set []. supported_game g" by simp
next
  fix games fld games'
  assume old: "\<forall>g \<in> set games. supported_game g"
    and step: "(if fld_is 1 2 fld then
           attempt (fold_fields (\<lambda>_ err.
               if fld_is 1 0 err then
                 attempt (extract_varint (f_data err)) (\<lambda>v.
                   if v \<noteq> 0 then Inl (Bail ''fetchGameLiveList returned an error'') else Inr ())
               else Inr ()) () (f_data fld)) (\<lambda>_. Inr games)
         else if fld_is 2 2 fld then
           attempt (parse_live_head (f_data fld) fallback) (\<lambda>game.
             Inr (case game of Some g \<Rightarrow> games @ [g] | None \<Rightarrow> games))
         else Inr games) = Inr games'"
  show "\<forall>g \<in> set games'. supported_game g"
  proof (cases "fld_is 2 2 fld")
    case True
    then obtain found where "parse_live_head (f_data fld) fallback = Inr found"
        "games' = (case found of Some g \<Rightarrow> games @ [g] | None \<Rightarrow> games)"
      using step by (auto simp: result_simps)
    then show ?thesis using old parse_live_head_supported by (cases found) auto
  next
    case False
    then have "games' = games" using step by (auto simp: result_simps split: if_splits)
    with old show ?thesis by simp
  qed
qed

lemma fetch_live_list_supported:
  assumes "fetch_live_list mo rep mode_id = Inr games" and "g \<in> set games"
  shows "supported_game g"
  using assms parse_live_list_supported
  by (auto simp: fetch_live_list_def map_error_def result_simps split: reply.splits sum.splits option.splits)

lemma see_games_live:
  assumes "see_games env gs live_now co = (Inr live, co')" and "table_ok live_now" and "\<forall>g \<in> set gs. supported_game g"
  shows "table_ok live \<and> keys_of live_now \<union> lg_uuid ` set gs = keys_of live"
  using assms
proof (induction env gs live_now co rule: see_games.induct)
  case (2 env g gs live_now co)
  obtain live1 co1 where one: "see_game env g live_now co = (Inr live1, co1)" and rest: "see_games env gs live1 co1 = (Inr live, co')"
    using 2(2) by (auto simp: on_ok_Inr)
  have live1: "live1 = AList.update (lg_uuid g) g live_now" using one by (auto simp: see_game_def on_ok_Inr)
  then have "table_ok live1" using 2(3,4) table_ok_update by simp
  with 2(1) [OF rest] 2(4) live1 show ?case by auto
qed simp

lemma see_modes_live:
  assumes "see_modes mo env modes live_now co = (Inr live, co')" and "table_ok live_now"
  shows "table_ok live"
  using assms
proof (induction modes arbitrary: live_now co)
  case (Cons m modes)
  obtain games live1 co1 where games: "fetch_live_list mo (re_list env m) m = Inr games"
      and seen: "see_games env games live_now co = (Inr live1, co1)" and rest: "see_modes mo env modes live1 co1 = (Inr live, co')"
    using Cons.prems(1) by (auto simp: on_ok_Inr)
  have "table_ok live1" using see_games_live [OF seen Cons.prems(2)] fetch_live_list_supported [OF games] by blast
  with Cons.IH [OF rest] show ?case .
qed simp

text \<open>Queueing a game keeps everything in memory and adds games to the queue.\<close>

lemma add_pending_advances:
  assumes "tidy co" and "supported_game g"
  shows "advances co (co\<lparr>co_pending := AList.update (lg_uuid g) g (co_pending co)\<rparr>)"
proof -
  let ?co = "co\<lparr>co_pending := AList.update (lg_uuid g) g (co_pending co)\<rparr>"
  have same: "accounted ?co = accounted co" "on_file ?co = on_file co"
    by (auto simp: fun_eq_iff accounted_def completed_def dropped_late_def on_file_def)
  have "in_memory ?co = Set.insert (lg_uuid g) (in_memory co)" by (auto simp: in_memory_def)
  then show ?thesis using assms table_ok_update same by (auto simp: advances_def tidy_def)
qed

lemma queue_ended_live: "map_of live_now u \<noteq> None \<Longrightarrow> queue_ended env live_now ((u, g) # games) co = queue_ended env live_now games co"
  by (subst queue_ended.simps) (simp only: if_False)

lemma queue_ended_gone:
  "map_of live_now u = None \<Longrightarrow> queue_ended env live_now ((u, g) # games) co =
     on_ok (announce env (g\<lparr>lg_queued_at := Some (re_now env)\<rparr>) Now_Pending (Some ended_text) None co)
       (\<lambda>_ co. queue_ended env live_now games (queue_game env u g co))"
  by (subst queue_ended.simps) (simp only: simp_thms if_True)

lemma queue_game_advances:
  assumes "tidy co" and "lg_uuid g = u" and "supported_game g"
  shows "advances co (queue_game env u g co)"
proof -
  have "supported_game (g\<lparr>lg_queued_at := Some (re_now env)\<rparr>)" using assms(3) by (simp add: supported_game_def)
  from add_pending_advances [OF assms(1) this] advances_refl [OF assms(1)] assms(2) show ?thesis
    by (simp add: queue_game_def)
qed

lemma queue_ended_advances:
  assumes "tidy co" and "\<forall>(u, g) \<in> set games. lg_uuid g = u \<and> supported_game g"
  shows "advances co (snd (queue_ended env live_now games co))"
  using assms
proof (induction games arbitrary: co)
  case (Cons x games)
  obtain u g where x: "x = (u, g)" by (cases x)
  have rest: "\<forall>(u, g) \<in> set games. lg_uuid g = u \<and> supported_game g" and g: "lg_uuid g = u" "supported_game g"
    using Cons.prems(2) x by auto
  show ?case
  proof (cases "map_of live_now u = None")
    case False
    then show ?thesis unfolding x queue_ended_live [OF False] using Cons.IH [OF Cons.prems(1) rest] by simp
  next
    case True
    show ?thesis unfolding x queue_ended_gone [OF True]
    proof (rule held.on_ok_goes)
      show "advances co (snd (announce env (g\<lparr>lg_queued_at := Some (re_now env)\<rparr>) Now_Pending (Some ended_text) None co))"
        by (rule same_games_advances [OF announce_same_games Cons.prems(1)])
    next
      fix y s assume "announce env (g\<lparr>lg_queued_at := Some (re_now env)\<rparr>) Now_Pending (Some ended_text) None co = (Inr y, s)"
      then have "same_games co s" using announce_same_games by (metis snd_conv)
      then have "advances s (queue_game env u g s)" using queue_game_advances g same_games_tidy Cons.prems(1) by blast
      then show "advances s (snd (queue_ended env live_now games (queue_game env u g s)))"
        using Cons.IH [OF _ rest] advances_tidy advances_trans by blast
    qed
  qed
qed (simp add: advances_refl)

lemma queue_ended_queued:
  assumes "queue_ended env live_now games co = (Inr y, co')"
  shows "co_tracked co' = co_tracked co \<and> keys_of (co_pending co) \<subseteq> keys_of (co_pending co') \<and>
    fst ` set games \<subseteq> keys_of live_now \<union> keys_of (co_pending co')"
  using assms
proof (induction games arbitrary: co)
  case (Cons x games)
  obtain u g where x: "x = (u, g)" by (cases x)
  show ?case
  proof (cases "map_of live_now u = None")
    case False
    have "queue_ended env live_now games co = (Inr y, co')" using Cons.prems unfolding x queue_ended_live [OF False] .
    from Cons.IH [OF this] False x show ?thesis by (auto simp: map_of_keys)
  next
    case True
    obtain z s where ann: "announce env (g\<lparr>lg_queued_at := Some (re_now env)\<rparr>) Now_Pending (Some ended_text) None co = (Inr z, s)"
        and rest: "queue_ended env live_now games (queue_game env u g s) = (Inr y, co')"
      using Cons.prems unfolding x queue_ended_gone [OF True] on_ok_Inr by blast
    have same: "same_games co s" using ann announce_same_games by (metis snd_conv)
    have "u \<in> keys_of (co_pending (queue_game env u g s))" "keys_of (co_pending co) \<subseteq> keys_of (co_pending (queue_game env u g s))"
        "co_tracked (queue_game env u g s) = co_tracked co"
      using same by (auto simp: queue_game_def same_games_def map_of_keys)
    with Cons.IH [OF rest] x show ?thesis by auto
  qed
qed simp

text \<open>A save writes what is in memory.\<close>

lemma persist_state_advances:
  assumes "tidy co" and "rearranges (re_order env)"
  shows "advances co (snd (persist_state env moment co))"
proof (cases "re_saved env moment")
  case False
  with assms show ?thesis by (simp add: persist_state_def advances_refl)
next
  case True
  let ?co = "co\<lparr>co_file := (map snd (re_order env (co_tracked co)), map snd (re_order env (co_pending co)))\<rparr>"
  have games: "snd ` set (re_order env t) = snd ` set t" for t using assms(2) by (simp add: rearranges_set)
  have keys: "lg_uuid ` (snd ` set t) = keys_of t" if "table_ok t" for t
    using that by (force simp: table_ok_def keys_of_def image_iff)
  have stored: "on_file ?co = in_memory co"
    using assms(1) keys by (simp add: on_file_def in_memory_def games image_Un tidy_def)
  have same: "accounted ?co = accounted co" "in_memory ?co = in_memory co"
    by (auto simp: fun_eq_iff accounted_def completed_def dropped_late_def in_memory_def)
  have "\<forall>g \<in> snd ` set (co_tracked co) \<union> snd ` set (co_pending co). supported_game g"
    using assms(1) by (auto simp: tidy_def table_ok_def)
  then have "tidy ?co" using assms(1) stored same by (auto simp: tidy_def games)
  with stored same assms(1) True show ?thesis by (auto simp: persist_state_def advances_def tidy_def)
qed

lemma replace_tracked_advances:
  assumes "tidy co" and "table_ok live_now" and "keys_of (co_tracked co) \<subseteq> keys_of live_now \<union> keys_of (co_pending co)"
  shows "advances co (co\<lparr>co_tracked := live_now\<rparr>)"
proof -
  let ?co = "co\<lparr>co_tracked := live_now\<rparr>"
  have same: "accounted ?co = accounted co" "on_file ?co = on_file co"
    by (auto simp: fun_eq_iff accounted_def completed_def dropped_late_def on_file_def)
  have "in_memory co \<subseteq> in_memory ?co" using assms(3) by (auto simp: in_memory_def)
  with assms(1,2) same show ?thesis by (auto simp: advances_def tidy_def)
qed

lemma list_round_advances:
  assumes "tidy co" and "rearranges (re_order env)"
  shows "advances co (snd (list_round mo env modes co))"
  unfolding list_round_def
proof (rule held.on_ok_goes)
  show "advances co (snd (see_modes mo env modes [] co))"
    by (rule same_games_advances [OF see_modes_same_games assms(1)])
next
  fix live_now co1 assume seen: "see_modes mo env modes [] co = (Inr live_now, co1)"
  have live: "table_ok live_now" by (rule see_modes_live [OF seen]) (simp add: table_ok_def)
  have tidy1: "tidy co1" using see_modes_same_games [of co mo env modes "[]"] seen same_games_tidy assms(1) by simp
  have tracked: "\<forall>(u, g) \<in> set (re_order env (co_tracked co1)). lg_uuid g = u \<and> supported_game g"
    using tidy1 assms(2) by (simp add: tidy_def table_ok_def rearranges_set)
  show "advances co1 (snd (on_ok (queue_ended env live_now (re_order env (co_tracked co1)) co1)
          (\<lambda>_ co. persist_state env None (co\<lparr>co_tracked := live_now\<rparr>))))"
  proof (rule held.on_ok_goes)
    show first: "advances co1 (snd (queue_ended env live_now (re_order env (co_tracked co1)) co1))"
      by (rule queue_ended_advances [OF tidy1 tracked])
    fix y co2 assume queued: "queue_ended env live_now (re_order env (co_tracked co1)) co1 = (Inr y, co2)"
    have "keys_of (co_tracked co2) \<subseteq> keys_of live_now \<union> keys_of (co_pending co2)"
      using queue_ended_queued [OF queued] assms(2) by (simp add: keys_of_def rearranges_set)
    moreover have "tidy co2" using first queued advances_tidy by fastforce
    ultimately have "advances co2 (co2\<lparr>co_tracked := live_now\<rparr>)" using replace_tracked_advances live by blast
    then show "advances co2 (snd (persist_state env None (co2\<lparr>co_tracked := live_now\<rparr>)))"
      using persist_state_advances [OF _ assms(2)] advances_tidy advances_trans by blast
  qed
qed

text \<open>A game leaves the queue only when it is accounted for.\<close>

lemma remove_pending_advances:
  assumes "tidy co" and same: "co_tracked co' = co_tracked co" "co_file co' = co_file co"
    and pending: "co_pending co' = AList.delete u (co_pending co)"
    and mono: "\<And>v. accounted co v \<Longrightarrow> accounted co' v" and fate: "accounted co' u"
  shows "advances co co'"
proof -
  have files: "on_file co' = on_file co" using same by (simp add: on_file_def)
  have memory: "in_memory co \<subseteq> Set.insert u (in_memory co')" using same pending by (auto simp: in_memory_def keys_delete)
  have "tidy co'"
    unfolding tidy_def
  proof (intro conjI)
    show "table_ok (co_tracked co')" "table_ok (co_pending co')" using assms(1) same pending table_ok_delete by (auto simp: tidy_def)
    show "\<forall>g \<in> set (fst (co_file co')) \<union> set (snd (co_file co')). supported_game g" using assms(1) same by (simp add: tidy_def)
    show "\<forall>v \<in> on_file co'. v \<in> in_memory co' \<or> accounted co' v"
      using assms(1) files memory mono fate unfolding tidy_def by blast
  qed
  then show ?thesis using files memory mono fate unfolding advances_def by blast
qed

lemma drop_game_advances:
  assumes "tidy co" and "past_hope now g"
  shows "advances co (drop_game now g co)"
proof (rule remove_pending_advances [OF assms(1), where u = "lg_uuid g"])
  show "accounted co v \<Longrightarrow> accounted (drop_game now g co) v" for v
    by (auto simp: drop_game_def accounted_def completed_def dropped_late_def)
  show "accounted (drop_game now g co) (lg_uuid g)"
    using assms(2) by (auto simp: drop_game_def accounted_def dropped_late_def)
qed (simp_all add: drop_game_def)

lemma note_give_up_same_games: "same_games co (note_give_up line co)"
  by (simp add: note_give_up_def same_games_def)

lemma fetch_failed_advances:
  assumes "tidy co" and "rearranges (re_order env)"
  shows "advances co (snd (fetch_failed env g e co))"
  unfolding fetch_failed_def
proof (rule held.on_ok_goes)
  show "advances co (snd (announce env g Record_Fetch_Failed (Some (lf_top e)) None co))"
    by (rule same_games_advances [OF announce_same_games assms(1)])
next
  fix x s assume "announce env g Record_Fetch_Failed (Some (lf_top e)) None co = (Inr x, s)"
  then have tidy: "tidy s" using announce_same_games assms(1) same_games_tidy by (metis snd_conv)
  have dropping: "advances s (snd (on_ok (persist_state env (Some (lg_uuid g)) (drop_game (re_now env) g s))
      (\<lambda>_ co. (Inr (), note_give_up line co))))" if "past_hope (re_now env) g" for line
  proof (rule held.on_ok_goes)
    have "advances s (drop_game (re_now env) g s)" by (rule drop_game_advances [OF tidy that])
    then show "advances s (snd (persist_state env (Some (lg_uuid g)) (drop_game (re_now env) g s)))"
      using persist_state_advances [OF _ assms(2)] advances_tidy advances_trans by blast
    then show "advances s' (snd (Inr (), note_give_up line s'))"
      if "persist_state env (Some (lg_uuid g)) (drop_game (re_now env) g s) = (Inr y, s')" for y s'
      using that same_games_advances [OF note_give_up_same_games] advances_tidy by fastforce
  qed
  then show "advances s (snd (if ends_the_session e then (Inl (Session_Failed e), s)
       else let code = (case lf_code e of Some code \<Rightarrow> code | None \<Rightarrow> 0)
            in if past_hope (re_now env) g
               then on_ok (persist_state env (Some (lg_uuid g)) (drop_game (re_now env) g s)) (\<lambda>_ co.
                      (Inr (), note_give_up (Gave_Up_Fetching (lg_uuid g) code) co))
               else (Inr (), s)))"
    using advances_refl [OF tidy] by (simp add: Let_def)
qed

lemma complete_advances:
  assumes "tidy co" and "rearranges (re_order env)"
  shows "advances co (snd (on_ok (announce env g Now_Completed message record_id co) (\<lambda>_ co.
    persist_state env moment (co\<lparr>co_pending := AList.delete (lg_uuid g) (co_pending co)\<rparr>))))"
proof (rule held.on_ok_goes)
  show "advances co (snd (announce env g Now_Completed message record_id co))"
    by (rule same_games_advances [OF announce_same_games assms(1)])
next
  fix x s assume ann: "announce env g Now_Completed message record_id co = (Inr x, s)"
  then have tidy: "tidy s" using announce_same_games assms(1) same_games_tidy by (metis snd_conv)
  let ?s = "s\<lparr>co_pending := AList.delete (lg_uuid g) (co_pending s)\<rparr>"
  have "advances s ?s"
  proof (rule remove_pending_advances [OF tidy, where u = "lg_uuid g"])
    show "accounted ?s (lg_uuid g)"
      using announce_announces [OF ann] by (auto simp: accounted_def completed_def event_for_def)
  qed (auto simp: accounted_def completed_def dropped_late_def)
  then show "advances s (snd (persist_state env moment ?s))"
    using persist_state_advances [OF _ assms(2)] advances_tidy advances_trans by blast
qed

lemma conversion_failed_advances:
  assumes "tidy co" and "rearranges (re_order env)"
  shows "advances co (snd (on_ok (announce env g Record_Conversion_Failed message record_id co) (\<lambda>_ co.
    persist_state env moment
      (if past_hope (re_now env) g then note_give_up line (drop_game (re_now env) g co) else co))))"
proof (rule held.on_ok_goes)
  show "advances co (snd (announce env g Record_Conversion_Failed message record_id co))"
    by (rule same_games_advances [OF announce_same_games assms(1)])
next
  fix x s assume "announce env g Record_Conversion_Failed message record_id co = (Inr x, s)"
  then have tidy: "tidy s" using announce_same_games assms(1) same_games_tidy by (metis snd_conv)
  let ?s = "if past_hope (re_now env) g then note_give_up line (drop_game (re_now env) g s) else s"
  have "advances s ?s"
  proof (cases "past_hope (re_now env) g")
    case True
    then have drop: "advances s (drop_game (re_now env) g s)" by (rule drop_game_advances [OF tidy])
    with same_games_advances [OF note_give_up_same_games advances_tidy [OF drop]] True show ?thesis
      using advances_trans by auto
  qed (simp add: advances_refl [OF tidy])
  then show "advances s (snd (persist_state env moment ?s))"
    using persist_state_advances [OF _ assms(2)] advances_tidy advances_trans by blast
qed

lemma store_fetched_advances:
  assumes "tidy co" and "rearranges (re_order env)"
  shows "advances co (fst (snd (store_fetched cb env g raw co wd)))"
proof -
  obtain r s where ann: "announce env g Now_Converting None None co = (r, s)" by fastforce
  have same: "same_games co s" using ann announce_same_games by (metis snd_conv)
  have tidy: "tidy s" and first: "advances co s" using same_games_tidy [OF same assms(1)] same_games_advances [OF same assms(1)] .
  have later: "advances co t" if "advances s t" for t using that first advances_trans by blast
  show ?thesis
    using first later [OF complete_advances [OF tidy assms(2)]] later [OF conversion_failed_advances [OF tidy assms(2)]]
    by (auto simp: store_fetched_def ann case_prod_unfold split: sum.splits)
qed

lemma settle_game_advances:
  assumes "tidy co" and "rearranges (re_order env)"
  shows "advances co (fst (snd (settle_game cb env g co wd)))"
proof -
  obtain r s where ann: "announce env g Now_Fetching None None co = (r, s)" by fastforce
  have same: "same_games co s" using ann announce_same_games by (metis snd_conv)
  have tidy: "tidy s" and first: "advances co s" using same_games_tidy [OF same assms(1)] same_games_advances [OF same assms(1)] .
  have later: "advances co t" if "advances s t" for t using that first advances_trans by blast
  show ?thesis
    using first advances_refl [OF assms(1)] later [OF fetch_failed_advances [OF tidy assms(2)]]
      later [OF store_fetched_advances [OF tidy assms(2)]]
    by (auto simp: settle_game_def ann case_prod_unfold split: sum.splits)
qed

section \<open>Rounds, crashes and restarts\<close>

text \<open>A start reads the state file; a new process has an empty registry.\<close>

definition restarted :: "bool \<Rightarrow> collector \<Rightarrow> collector" where
  "restarted new_process co =
     (let (tracked, pending) = load_state (co_file co)
      in co\<lparr>co_tracked := tracked, co_pending := pending,
            co_registry := (if new_process then [] else co_registry co)\<rparr>)"

definition new_collector :: collector where
  "new_collector = \<lparr>co_tracked = [], co_pending = [], co_file = ([], []), co_discovered = [], co_registry = [],
     co_log = [], co_announced = [], co_dropped = []\<rparr>"

text \<open>
  The steps of one collector: reading the lists, the turn of one game, and a restart at any moment. Whether a session
  ended or went on, the next one works on the same memory. Everybody else may change the world meanwhile.
\<close>

inductive collector_step :: "collector_libs \<Rightarrow> i32 list \<Rightarrow> collector \<times> world \<Rightarrow> collector \<times> world \<Rightarrow> bool" for cb modes where
  listing: "rearranges (re_order env) \<Longrightarrow>
     collector_step cb modes (co, wd) (snd (list_round (cb_modules cb) env modes co), wd)"
| settling: "rearranges (re_order env) \<Longrightarrow> g \<in> snd ` set (co_pending co) \<Longrightarrow>
     collector_step cb modes (co, wd) (snd (settle_game cb env g co wd))"
| restarting: "collector_step cb modes (co, wd) (restarted new_process co, wd)"
| elsewhere: "collector_step cb modes (co, wd) (co, wd')"

lemma load_table:
  assumes "table_ok t" and "\<forall>g \<in> set games. supported_game g"
  shows "table_ok (foldl (\<lambda>table g. AList.update (lg_uuid g) g table) t games) \<and>
    keys_of (foldl (\<lambda>table g. AList.update (lg_uuid g) g table) t games) = keys_of t \<union> lg_uuid ` set games"
  using assms
proof (induction games arbitrary: t)
  case (Cons g games)
  then show ?case using Cons.IH [of "AList.update (lg_uuid g) g t"] table_ok_update by auto
qed simp

lemma restarted_tidy:
  assumes "tidy co"
  shows "tidy (restarted new_process co)" "on_file (restarted new_process co) = on_file co"
    "accounted (restarted new_process co) = accounted co" "in_memory (restarted new_process co) = on_file co"
proof -
  have empty: "table_ok []" "keys_of [] = {}" by (simp_all add: table_ok_def keys_of_def)
  have games: "\<forall>g \<in> set (fst (co_file co)). supported_game g" "\<forall>g \<in> set (snd (co_file co)). supported_game g"
    using assms by (auto simp: tidy_def)
  note loaded = load_table [OF empty(1) games(1)] load_table [OF empty(1) games(2)]
  show same: "on_file (restarted new_process co) = on_file co" "accounted (restarted new_process co) = accounted co"
    by (auto simp: fun_eq_iff restarted_def Let_def on_file_def accounted_def completed_def dropped_late_def split: prod.splits)
  show memory: "in_memory (restarted new_process co) = on_file co"
    using loaded empty(2) by (auto simp: restarted_def load_state_def Let_def in_memory_def on_file_def)
  show "tidy (restarted new_process co)"
    using loaded memory same games by (simp add: tidy_def) (auto simp: restarted_def load_state_def Let_def)
qed

text \<open>What a step keeps, restarts included: unsaved memory may go, the file and the accounts of it stay.\<close>

definition saved_goes_on :: "collector \<times> world \<Rightarrow> collector \<times> world \<Rightarrow> bool" where
  "saved_goes_on s t \<longleftrightarrow> tidy (fst t) \<and> (\<forall>u. accounted (fst s) u \<longrightarrow> accounted (fst t) u) \<and>
     (\<forall>u \<in> on_file (fst s). u \<in> on_file (fst t) \<or> accounted (fst t) u)"

interpretation saved: progress "\<lambda>s. tidy (fst s)" saved_goes_on
  by unfold_locales (auto simp: saved_goes_on_def)

lemma advances_saved: "advances (fst s) (fst t) \<Longrightarrow> saved_goes_on s t"
  by (simp add: advances_def saved_goes_on_def)

lemma collector_step_keeps:
  assumes "tidy (fst s)" and "collector_step cb modes s t"
  shows "saved_goes_on s t"
  using assms(2)
proof cases
  case (listing env co wd)
  then show ?thesis using list_round_advances [of co env] assms(1) by (simp add: advances_saved)
next
  case (settling env g co wd)
  then show ?thesis using settle_game_advances [of co env cb g wd] assms(1) by (simp add: advances_saved)
next
  case (restarting co wd new_process)
  then show ?thesis using restarted_tidy assms(1) by (simp add: saved_goes_on_def)
next
  case (elsewhere co wd wd')
  then show ?thesis using assms(1) by (simp add: saved_goes_on_def)
qed

lemma collector_steps_keep:
  assumes "(collector_step cb modes)\<^sup>*\<^sup>* s t" and "tidy (fst s)"
  shows "saved_goes_on s t"
  by (rule saved.run_goes [OF assms(2,1)]) (rule collector_step_keeps)

lemma rtranclp_pair: "r s t \<Longrightarrow> r\<^sup>*\<^sup>* s t"
  by (rule r_into_rtranclp)

text \<open>A turn removes no game but its own from the queue.\<close>

lemma settle_game_pending:
  "co_pending (fst (snd (settle_game cb env g co wd))) = co_pending co \<or>
   co_pending (fst (snd (settle_game cb env g co wd))) = AList.delete (lg_uuid g) (co_pending co)"
proof -
  have ann: "co_pending (snd (announce env g k message record_id s)) = co_pending s" for k message record_id s
    using announce_same_games by (simp add: same_games_def)
  have save: "co_pending (snd (persist_state env moment s)) = co_pending s" for moment s
    by (simp add: persist_state_def)
  have ok: "co_pending (snd (on_ok r rest)) = (if is_inr (fst r) then co_pending (snd (rest (projr (fst r)) (snd r))) else co_pending (snd r))"
    for r :: "(session_end + unit) \<times> collector" and rest
    by (auto simp: on_ok_def is_inr_def split: prod.splits sum.splits)
  have failed: "co_pending (snd (fetch_failed env g e s)) \<in> {co_pending s, AList.delete (lg_uuid g) (co_pending s)}" for e s
    by (simp add: fetch_failed_def ok ann save drop_game_def note_give_up_def Let_def)
  have stored: "co_pending (fst (snd (store_fetched cb env g raw s wd))) \<in> {co_pending s, AList.delete (lg_uuid g) (co_pending s)}" for raw s
    using ann [of Now_Converting None None s]
    by (auto simp: store_fetched_def case_prod_unfold ok ann save drop_game_def note_give_up_def split: sum.splits)
  show ?thesis
    using ann [of Now_Fetching None None co] failed [of _ "snd (announce env g Now_Fetching None None co)"]
      stored [of _ "snd (announce env g Now_Fetching None None co)"]
    by (auto simp: settle_game_def case_prod_unfold split: sum.splits)
qed

lemma settle_games_steps:
  assumes "rearranges (re_order env)" and "set gs \<subseteq> snd ` set (co_pending co)" and "distinct (map lg_uuid gs)"
    and "\<forall>(u, g) \<in> set (co_pending co). lg_uuid g = u"
  shows "(collector_step cb modes)\<^sup>*\<^sup>* (co, wd) (snd (settle_games cb env gs (co, wd)))"
  using assms(2-4)
proof (induction gs arbitrary: co wd)
  case (Cons g gs)
  obtain r co1 wd1 where turn: "settle_game cb env g co wd = (r, co1, wd1)" by (metis prod_cases3)
  have "collector_step cb modes (co, wd) (snd (settle_game cb env g co wd))"
    using Cons.prems(1) by (intro settling [OF assms(1)]) auto
  then have step: "(collector_step cb modes)\<^sup>*\<^sup>* (co, wd) (co1, wd1)" using turn rtranclp_pair by fastforce
  show ?case
  proof (cases r)
    case (Inl e)
    with step turn show ?thesis by (simp add: on_ok_def)
  next
    case (Inr x)
    have pending: "co_pending co1 = co_pending co \<or> co_pending co1 = AList.delete (lg_uuid g) (co_pending co)"
      using settle_game_pending [of cb env g co wd] turn by simp
    then have own: "\<forall>(u, g) \<in> set (co_pending co1). lg_uuid g = u" using Cons.prems(3) by (auto simp: set_AList_delete)
    have "h \<in> snd ` set (co_pending co1)" if "h \<in> set gs" for h
    proof -
      have "h \<in> snd ` set (co_pending co)" using that Cons.prems(1) by auto
      then obtain u where "(u, h) \<in> set (co_pending co)" by auto
      moreover from this have "u \<noteq> lg_uuid g" using Cons.prems(2,3) that by (force simp: image_iff)
      ultimately have "(u, h) \<in> set (co_pending co1)" using pending by (auto simp: set_AList_delete)
      then show ?thesis by force
    qed
    then have "(collector_step cb modes)\<^sup>*\<^sup>* (co1, wd1) (snd (settle_games cb env gs (co1, wd1)))"
      using Cons.IH [of co1 wd1] Cons.prems(2) own by auto
    with step turn Inr show ?thesis by (simp add: on_ok_def)
  qed
qed simp

lemma order_batch:
  assumes "rearranges order" and "table_ok t"
  shows "set (map snd (order t)) = snd ` set t" "distinct (map lg_uuid (map snd (order t)))"
proof -
  show "set (map snd (order t)) = snd ` set t" using assms(1) by (simp add: rearranges_set)
  have "mset (map fst (order t)) = mset (map fst t)" using assms(1) by (simp add: rearranges_def)
  then have "distinct (map fst (order t))" using assms(2) by (metis mset_eq_imp_distinct_iff table_ok_def)
  moreover have "map lg_uuid (map snd (order t)) = map fst (order t)"
    using assms by (auto simp: table_ok_def rearranges_set)
  ultimately show "distinct (map lg_uuid (map snd (order t)))" by (simp only:)
qed

text \<open>A whole round is a sequence of these steps.\<close>

lemma watch_round_steps:
  assumes "rearranges (re_order env)" and "tidy co"
  shows "(collector_step cb modes)\<^sup>*\<^sup>* (co, wd) (snd (watch_round cb env modes co wd))"
proof -
  obtain r co1 where list: "list_round (cb_modules cb) env modes co = (r, co1)" by fastforce
  have step: "(collector_step cb modes)\<^sup>*\<^sup>* (co, wd) (co1, wd)"
    using rtranclp_pair listing [OF assms(1), of cb modes co wd] list by fastforce
  have "tidy co1" using list_round_advances [OF assms(2,1), of "cb_modules cb" modes] list advances_tidy by simp
  then have "table_ok (co_pending co1)" by (simp add: tidy_def)
  note batch = order_batch [OF assms(1) this] and own = this
  show ?thesis
  proof (cases r)
    case (Inl e)
    with step list show ?thesis by (simp add: watch_round_def)
  next
    case (Inr x)
    have "\<forall>(u, g) \<in> set (co_pending co1). lg_uuid g = u" using own by (auto simp: table_ok_def)
    then have "(collector_step cb modes)\<^sup>*\<^sup>* (co1, wd) (snd (settle_games cb env (map snd (re_order env (co_pending co1))) (co1, wd)))"
      using batch by (intro settle_games_steps [OF assms(1)]) auto
    with step list Inr show ?thesis by (simp add: watch_round_def)
  qed
qed

lemma persist_state_files:
  assumes "persist_state env moment co = (Inr y, co')" and "tidy co" and "rearranges (re_order env)"
  shows "on_file co' = in_memory co"
proof -
  have keys: "lg_uuid ` (snd ` set t) = keys_of t" if "table_ok t" for t
    using that by (force simp: table_ok_def keys_of_def image_iff)
  have "co' = co\<lparr>co_file := (map snd (re_order env (co_tracked co)), map snd (re_order env (co_pending co)))\<rparr>"
    using assms(1) by (simp add: persist_state_def split: if_splits)
  then show ?thesis using assms(2,3) keys by (simp add: on_file_def in_memory_def rearranges_set image_Un tidy_def)
qed

lemma see_modes_covers:
  assumes "see_modes mo env modes live_now co = (Inr live, co')" and "table_ok live_now"
  shows "keys_of live_now \<subseteq> keys_of live \<and>
    (\<forall>m \<in> set modes. \<forall>games. fetch_live_list mo (re_list env m) m = Inr games \<longrightarrow> lg_uuid ` set games \<subseteq> keys_of live)"
  using assms
proof (induction modes arbitrary: live_now co)
  case (Cons m modes)
  obtain games live1 co1 where games: "fetch_live_list mo (re_list env m) m = Inr games"
      and seen: "see_games env games live_now co = (Inr live1, co1)" and rest: "see_modes mo env modes live1 co1 = (Inr live, co')"
    using Cons.prems(1) by (auto simp: on_ok_Inr)
  have live1: "table_ok live1" "keys_of live_now \<union> lg_uuid ` set games = keys_of live1"
    using see_games_live [OF seen Cons.prems(2)] fetch_live_list_supported [OF games] by auto
  with Cons.IH [OF rest live1(1)] games show ?case by auto
qed simp

lemma list_round_files:
  assumes "list_round mo env modes co = (Inr y, co1)" and "tidy co" and "rearranges (re_order env)"
    and "m \<in> set modes" and "fetch_live_list mo (re_list env m) m = Inr games" and "g \<in> set games"
  shows "lg_uuid g \<in> on_file co1"
proof -
  obtain live s1 x s2 where seen: "see_modes mo env modes [] co = (Inr live, s1)"
      and queued: "queue_ended env live (re_order env (co_tracked s1)) s1 = (Inr x, s2)"
      and saved: "persist_state env None (s2\<lparr>co_tracked := live\<rparr>) = (Inr y, co1)"
    using assms(1) unfolding list_round_def on_ok_Inr by blast
  have live: "table_ok live" by (rule see_modes_live [OF seen]) (simp add: table_ok_def)
  have tidy1: "tidy s1" using see_modes_same_games [of co mo env modes "[]"] seen same_games_tidy assms(2) by simp
  have tracked: "\<forall>(u, g) \<in> set (re_order env (co_tracked s1)). lg_uuid g = u \<and> supported_game g"
    using tidy1 assms(3) by (simp add: tidy_def table_ok_def rearranges_set)
  have "tidy s2" using queue_ended_advances [OF tidy1 tracked, of env live] queued advances_tidy by simp
  moreover have "keys_of (co_tracked s2) \<subseteq> keys_of live \<union> keys_of (co_pending s2)"
    using queue_ended_queued [OF queued] assms(3) by (simp add: keys_of_def rearranges_set)
  ultimately have "tidy (s2\<lparr>co_tracked := live\<rparr>)" using replace_tracked_advances live advances_tidy by blast
  then have "on_file co1 = in_memory (s2\<lparr>co_tracked := live\<rparr>)" using persist_state_files [OF saved _ assms(3)] by blast
  moreover have "lg_uuid g \<in> keys_of live"
  proof -
    have "lg_uuid ` set games \<subseteq> keys_of live"
      using see_modes_covers [OF seen] assms(4,5) by (auto simp: table_ok_def)
    with assms(6) show ?thesis by blast
  qed
  ultimately show ?thesis by (simp add: in_memory_def)
qed


section \<open>A turn that goes through\<close>

lemma announce_ok:
  "uuid_ok (lg_uuid g) \<Longrightarrow> \<exists>records. announce env g k message record_id co =
     (Inr (), co\<lparr>co_registry := records, co_announced := co_announced co @ [event_for g k message record_id]\<rparr>)"
  by (auto simp: announce_def apply_event_def event_for_def Let_def)

lemma announce_refused: "\<not> uuid_ok (lg_uuid g) \<Longrightarrow> \<exists>e. announce env g k message record_id co = (Inl e, co)"
  by (auto simp: announce_def apply_event_def event_for_def Let_def)

lemma metadata_for_supported: "supported_game g \<Longrightarrow> \<exists>metadata. metadata_for g = Inr metadata"
  by (auto simp: supported_game_def is_inr_def metadata_for_def split: sum.splits)

text \<open>A queued game that left the lists two minutes ago or more, whose record the server delivers, the
  converter reads and the ingest half accepts, is announced as completed and leaves the queue in that turn, and
  the claim of the game the record names is held from then on.\<close>

theorem ripe_game_is_collected:
  assumes "uuid_ok (lg_uuid g)" and "\<not> too_fresh (re_now env) g" and "re_saved env (Some (lg_uuid g))"
    and "fetch_game_record (cb_modules cb) (re_record env (lg_uuid g)) = Inr raw" and "metadata_for g = Inr metadata"
    and "conversion raw (Some metadata) = Inr (fetched, es)" and "rereads (cb_libs cb) (cb_codec cb) es"
    and "str_trim fetched = fetched" and "fetched \<noteq> []" and "length fetched \<le> 128"
    and "ingest_one (cb_libs cb) (cb_kafka cb) (re_ingest env (lg_uuid g)) ''majsoul-watch'' (lg_uuid g) None
           (stream_bytes (cb_libs cb) es) (Some raw) wd = (Inr acc, wd')"
  shows "\<exists>co'. settle_game cb env g co wd = (Inr (), co', wd') \<and> completed co' (lg_uuid g) \<and>
    lg_uuid g \<notin> keys_of (co_pending co') \<and> game_claim_hash (cb_libs cb) fetched \<in> dom (wd_claims wd')"
proof -
  have stored: "convert_and_ingest cb env g metadata raw wd = (Inr (Inr (ac_id acc)), wd')"
    using assms(6,7,11) by (simp add: convert_and_ingest_def ingest_game_def convert_record_bytes_conversion rereads_def Let_def)
  obtain co1 where fetching: "announce env g Now_Fetching None None co = (Inr (), co1)" using announce_ok [OF assms(1)] by blast
  obtain co2 where converting: "announce env g Now_Converting None None co1 = (Inr (), co2)" using announce_ok [OF assms(1)] by blast
  obtain co3 where last: "announce env g Now_Completed (Some completed_text) (Some (ac_id acc)) co2 = (Inr (), co3)"
    using announce_ok [OF assms(1)] by blast
  let ?co = "co3\<lparr>co_pending := AList.delete (lg_uuid g) (co_pending co3)\<rparr>"
  obtain co4 where saved: "persist_state env (Some (lg_uuid g)) ?co = (Inr (), co4)"
      "co_announced co4 = co_announced co3" "co_pending co4 = AList.delete (lg_uuid g) (co_pending co3)"
    using assms(3) by (simp add: persist_state_def)
  have run: "settle_game cb env g co wd = (Inr (), co4, wd')"
    using assms(2) fetching assms(4) converting assms(5) stored last saved(1)
    by (simp add: settle_game_def store_fetched_def on_ok_def)
  have "event_for g Now_Completed (Some completed_text) (Some (ac_id acc)) \<in> set (co_announced co4)"
    using announce_announces [OF last] saved(2) by simp
  then have "completed co4 (lg_uuid g)" unfolding completed_def by (rule bexI [rotated]) (simp add: event_for_def)
  moreover have "lg_uuid g \<notin> keys_of (co_pending co4)" using saved(3) by (simp add: keys_delete)
  moreover obtain md where "metadata_of_raw (cb_libs cb) (stream_bytes (cb_libs cb) es) = Inr md" "md_majsoul_uuid md = Some fetched"
    using conversion_metadata [OF assms(6-10)] by blast
  then have "wd_claims wd' (game_claim_hash (cb_libs cb) fetched) \<noteq> None" using ingest_one_held [OF assms(11)] by blast
  ultimately show ?thesis using run by auto
qed

section \<open>What can go wrong\<close>

lemma see_games_refused:
  assumes "g \<in> set gs" and "\<not> uuid_ok (lg_uuid g)"
  shows "\<exists>e co'. see_games env gs live_now co = (Inl e, co')"
  using assms
proof (induction gs arbitrary: live_now co)
  case (Cons h gs)
  obtain r co1 where one: "see_game env h live_now co = (r, co1)" by fastforce
  show ?case
  proof (cases "h = g")
    case True
    then have "\<exists>e. see_game env h live_now co = (Inl e, co)"
      using announce_refused [OF Cons.prems(2), of env Live_Seen None None co] by (auto simp: see_game_def on_ok_def)
    then show ?thesis by (auto simp: on_ok_def)
  next
    case False
    then have "g \<in> set gs" using Cons.prems(1) by simp
    with one Cons.IH Cons.prems(2) show ?thesis by (cases r) (auto simp: on_ok_def)
  qed
qed simp

lemma see_modes_refused:
  assumes "m \<in> set modes" and "fetch_live_list mo (re_list env m) m = Inr games" and "g \<in> set games" and "\<not> uuid_ok (lg_uuid g)"
  shows "\<exists>e co'. see_modes mo env modes live_now co = (Inl e, co')"
  using assms(1)
proof (induction modes arbitrary: live_now co)
  case (Cons h modes)
  show ?case
  proof (cases "h = m")
    case True
    obtain e co' where "see_games env games live_now co = (Inl e, co')" using see_games_refused [OF assms(3,4)] by blast
    with True assms(2) show ?thesis by (simp add: on_ok_def)
  next
    case False
    with Cons have ih: "\<exists>e co'. see_modes mo env modes live_now co = (Inl e, co')" for live_now co by simp
    show ?thesis
    proof (cases "fetch_live_list mo (re_list env h) h")
      case (Inr hs)
      obtain r co1 where "see_games env hs live_now co = (r, co1)" by fastforce
      with Inr ih show ?thesis by (cases r) (auto simp: on_ok_def)
    qed (simp add: on_ok_def)
  qed
qed simp

text \<open>One game on the lists whose identifier the registry refuses (the lists are read with a weaker test)
  ends every round before anything is saved or fetched: no game that ended is queued, and no queued game is asked
  for, as long as that game is listed.\<close>

theorem refused_identifier_blocks_round:
  assumes "m \<in> set modes" and "fetch_live_list (cb_modules cb) (re_list env m) m = Inr games" and "g \<in> set games"
    and "\<not> uuid_ok (lg_uuid g)"
  shows "\<exists>e co'. watch_round cb env modes co wd = (Inl e, co', wd) \<and> co_tracked co' = co_tracked co \<and>
    co_pending co' = co_pending co \<and> co_file co' = co_file co"
proof -
  obtain e co' where seen: "see_modes (cb_modules cb) env modes [] co = (Inl e, co')" using see_modes_refused [OF assms] by blast
  then have "same_games co co'" using see_modes_same_games by (metis snd_conv)
  moreover have "watch_round cb env modes co wd = (Inl e, co', wd)" using seen by (simp add: watch_round_def list_round_def on_ok_def)
  ultimately show ?thesis by (simp add: same_games_def)
qed

text \<open>The three hours count from the moment the game was queued, not from its first failed attempt: a game that was
  never asked for while the collector was away is dropped at its first failure.\<close>

lemma first_failure_drops_after_outage:
  assumes "uuid_ok (lg_uuid g)" and "past_hope (re_now env) g" and "\<not> ends_the_session e" and "re_saved env (Some (lg_uuid g))"
  shows "lg_uuid g \<notin> keys_of (co_pending (snd (fetch_failed env g e co)))"
  using announce_ok [OF assms(1), of env Record_Fetch_Failed "Some (lf_top e)" None co] assms(2-4)
  by (auto simp: fetch_failed_def on_ok_def persist_state_def drop_game_def note_give_up_def keys_delete Let_def)

text \<open>When the write that follows a drop fails, the game is gone from memory and no line of the log says so.\<close>

lemma unsaved_drop_is_silent:
  assumes "uuid_ok (lg_uuid g)" and "past_hope (re_now env) g" and "\<not> ends_the_session e" and "\<not> re_saved env (Some (lg_uuid g))"
  shows "lg_uuid g \<notin> keys_of (co_pending (snd (fetch_failed env g e co))) \<and> co_log (snd (fetch_failed env g e co)) = co_log co"
  using announce_ok [OF assms(1), of env Record_Fetch_Failed "Some (lf_top e)" None co] assms(2-4)
  by (auto simp: fetch_failed_def on_ok_def persist_state_def drop_game_def note_give_up_def keys_delete Let_def)

section \<open>Serving requests\<close>

text \<open>Serving is a run of steps of the request counter that ends holding what it held before: every request taken has been
  answered, also when its failure ends the session.\<close>

lemma counter_claim_answer:
  assumes "counter_reachable (rb, held)" and "Refetch.claim rb = (Some rq, rb')"
  shows "counter_reachable (answer rq result rb', held)"
proof -
  have "counter_reachable (rb', rq # held)" using assms counter_reachable.further counter_step.found by blast
  then have "counter_reachable (answer rq result rb', remove1 rq (rq # held))"
    using counter_reachable.further counter_step.answered [of rq "rq # held" rb' result] by (metis list.set_intros(1))
  then show ?thesis by simp
qed

lemma serving_holds_nothing:
  assumes "counter_reachable (rb, held)"
    and "\<forall>t \<in> set ts. \<forall>rb. counter_reachable (rb, held) \<longrightarrow> counter_reachable (sv_meanwhile t rb, held)"
  shows "counter_reachable (snd (serve_refetches mo ts n rb), held)"
  using assms
proof (induction ts arbitrary: n rb)
  case (Cons t ts)
  have later: "\<forall>t \<in> set ts. \<forall>rb. counter_reachable (rb, held) \<longrightarrow> counter_reachable (sv_meanwhile t rb, held)"
    and now: "counter_reachable (sv_meanwhile t rb, held)" using Cons.prems by auto
  obtain taken rb1 where claimed: "Refetch.claim (sv_meanwhile t rb) = (taken, rb1)" by fastforce
  show ?case
  proof (cases "sv_late t")
    case True
    with Cons.prems(1) show ?thesis by simp
  next
    case False
    show ?thesis
    proof (cases taken)
      case None
      have "counter_reachable (rb1, held)" using now claimed None counter_reachable.further counter_step.none by blast
      then have "counter_reachable (snd (wait_for_work rb1), held)" using counter_reachable.further counter_step.woken by blast
      from Cons.IH [OF this later] False claimed None show ?thesis by simp
    next
      case (Some rq)
      note answered = counter_claim_answer [OF now claimed [unfolded Some]]
      show ?thesis using Cons.IH [OF answered later] answered False claimed Some
        by (auto simp: Let_def split: sum.splits)
    qed
  qed
qed simp

section \<open>Concrete rounds\<close>

definition watched_game :: "string \<Rightarrow> live_game" where
  "watched_game uuid = \<lparr>lg_uuid = uuid, lg_mode_id = 9, lg_start_time = 7, lg_queued_at = None\<rparr>"

definition sample_round :: round_env where
  "sample_round = \<lparr>re_order = (\<lambda>t. t), re_records_order = (\<lambda>t. t), re_clock = (\<lambda>_ _. 0), re_now = 1000,
     re_list = (\<lambda>_. From_Module (Inr (JObject [(''games'', JNull)]))), re_appended = (\<lambda>_. True), re_saved = (\<lambda>_. True),
     re_record = (\<lambda>_. From_Module (Inr (JObject [(''pb_base64'', JString ''x'')]))), re_ingest = (\<lambda>_. calm_env)\<rparr>"

definition sample_collector_libs :: "string \<Rightarrow> collector_libs" where
  "sample_collector_libs uuid = \<lparr>cb_libs = repair_libs (Some sample_mode), cb_codec = plain_codec, cb_kafka = ready_kafka,
     cb_modules = \<lparr>md_games = (\<lambda>_. Some [watched_game uuid]), md_base64 = (\<lambda>_. Some (enc_record sample_record))\<rparr>,
     cb_error_text = (\<lambda>_. [])\<rparr>"

lemma sample_fields: "re_order sample_round = (\<lambda>t. t)" "re_saved sample_round moment" "re_appended sample_round uuid"
    "co_tracked new_collector = []" "co_pending new_collector = []"
  by (simp_all add: sample_round_def new_collector_def)

lemma sample_order: "rearranges (re_order sample_round)"
  by (simp add: sample_round_def rearranges_def)

lemma sample_year: "uuid_year ''240101-a'' = Inr 2024" "uuid_year ''240101/a'' = Inr 2024"
  by (simp_all add: uuid_year_def str_get_prefix_def is_char_boundary_def is_continuation_def byte_of_char_def parse_i32_def
      parse_nat_def digit_of_def of_char_def Let_def)

lemma sample_list:
  assumes "uuid_year uuid = Inr 2024" and "uuid \<noteq> []"
  shows "fetch_live_list (cb_modules (sample_collector_libs uuid)) (re_list sample_round 9) 9 = Inr [watched_game uuid]"
  using assms by (simp add: fetch_live_list_def sample_round_def map_error_def json_get_def sample_collector_libs_def
      supported_game_def watched_game_def is_inr_def mode_metadata_def)

lemma sample_uuid_ok: "uuid_ok ''240101-a''" "\<not> uuid_ok ''240101/a''"
  by (simp_all add: uuid_ok_def is_graphic_def)

lemma sample_metadata: "metadata_for (watched_game ''240101-a'') = Inr sample_mode"
  by (simp add: metadata_for_def watched_game_def mode_metadata_def sample_year sample_mode_def)


theorem ripe_game_is_collected_witness:
  "\<exists>co' wd'. settle_game (sample_collector_libs ''240101-a'') sample_round (watched_game ''240101-a'')
       (new_collector\<lparr>co_pending := [(''240101-a'', watched_game ''240101-a'')]\<rparr>) empty_world = (Inr (), co', wd') \<and>
     completed co' ''240101-a'' \<and> ''240101-a'' \<notin> keys_of (co_pending co') \<and>
     game_claim_hash (repair_libs (Some sample_mode)) ''u'' \<in> dom (wd_claims wd')"
proof -
  let ?cb = "sample_collector_libs ''240101-a''" and ?g = "watched_game ''240101-a''"
  let ?bytes = "stream_bytes (repair_libs (Some sample_mode)) (sample_stream (Some sample_mode))"
  have trim: "str_trim ''u'' = ''u''" "''u'' \<noteq> []" "length ''u'' \<le> 128"
    by (simp_all add: str_trim_def str_chars_Cons_ascii byte_of_char_def is_white_space_def white_space_def as_bytes_def)
  obtain md where md: "metadata_of_raw (repair_libs (Some sample_mode)) ?bytes = Inr md" "md_majsoul_uuid md = Some ''u''"
    using conversion_metadata [OF sample_conversion sample_rereads trim] by blast
  obtain acc wd' where ingested: "ingest_one (repair_libs (Some sample_mode)) ready_kafka calm_env ''majsoul-watch'' ''240101-a'' None ?bytes
      (Some (enc_record sample_record)) empty_world = (Inr acc, wd')"
    using calm_ingest [OF md] by blast
  have game: "uuid_ok (lg_uuid ?g)" "\<not> too_fresh (re_now sample_round) ?g"
    using sample_uuid_ok(1) by (simp_all add: watched_game_def too_fresh_def)
  have raw: "fetch_game_record (cb_modules ?cb) (re_record sample_round (lg_uuid ?g)) = Inr (enc_record sample_record)"
    by (simp add: fetch_game_record_def sample_round_def sample_collector_libs_def decode_base64_field_def required_string_def
        json_get_def as_str_def)
  have "\<exists>co'. settle_game ?cb sample_round ?g (new_collector\<lparr>co_pending := [(''240101-a'', ?g)]\<rparr>) empty_world = (Inr (), co', wd') \<and>
      completed co' (lg_uuid ?g) \<and> lg_uuid ?g \<notin> keys_of (co_pending co') \<and> game_claim_hash (cb_libs ?cb) ''u'' \<in> dom (wd_claims wd')"
  proof (rule ripe_game_is_collected [OF game _ raw sample_metadata sample_conversion _ trim])
    show "re_saved sample_round (Some (lg_uuid ?g))" by (simp add: sample_round_def)
    show "rereads (cb_libs ?cb) (cb_codec ?cb) (sample_stream (Some sample_mode))"
      using sample_rereads by (simp add: sample_collector_libs_def)
    show "ingest_one (cb_libs ?cb) (cb_kafka ?cb) (re_ingest sample_round (lg_uuid ?g)) ''majsoul-watch'' (lg_uuid ?g) None
        (stream_bytes (cb_libs ?cb) (sample_stream (Some sample_mode))) (Some (enc_record sample_record)) empty_world = (Inr acc, wd')"
      using ingested by (simp add: sample_collector_libs_def sample_round_def watched_game_def)
  qed
  then show ?thesis by (auto simp: watched_game_def sample_collector_libs_def)
qed

theorem refused_identifier_blocks_round_witness:
  "\<exists>e co'. watch_round (sample_collector_libs ''240101/a'') sample_round [9] new_collector empty_world = (Inl e, co', empty_world) \<and>
     co_tracked co' = co_tracked new_collector \<and> co_pending co' = co_pending new_collector \<and> co_file co' = co_file new_collector"
proof (rule refused_identifier_blocks_round)
  show "fetch_live_list (cb_modules (sample_collector_libs ''240101/a'')) (re_list sample_round 9) 9 = Inr [watched_game ''240101/a'']"
    by (rule sample_list [OF sample_year(2)]) simp
  show "\<not> uuid_ok (lg_uuid (watched_game ''240101/a''))" using sample_uuid_ok(2) by (simp add: watched_game_def)
qed simp_all

end
