(* ===== verification/Watch_Service.thy ===== *)
theory Watch_Service
  imports Paipuya Json
begin

text \<open>
  \<^verbatim>\<open>src/watch_service.rs\<close>: the configuration of the live collectors (validation, the migration of old documents,
  the keys that name their state files, the proxy credentials, saves under a revision), the supervisor that starts
  and stops one task per collector, and the exchange with a module process over its pipes. The URL
  library, the JSON reader, the random keys, the module probes and the outcome of each write are arguments.
  The lemmas show that a save keeps the credentials it was not shown and refuses a stale revision, that whatever is
  started or stopped one after the other no two running collectors share a key or an account reference, what two starts
  at once leave behind, and which faults of a module process are repaired.
\<close>

section \<open>Configuration\<close>

datatype module_kind = Login_Module | Pb_Fetch_Module | Register_Module

definition directory :: "module_kind \<Rightarrow> string" where
  "directory k = (case k of Login_Module \<Rightarrow> ''login'' | Pb_Fetch_Module \<Rightarrow> ''pb_fetch'' | Register_Module \<Rightarrow> ''register'')"

record module_ref =
  mr_name :: string
  mr_version :: string

definition builtin_module :: module_ref where
  "builtin_module = \<lparr>mr_name = ''builtin'', mr_version = ''majsoul2mjai-da985809''\<rparr>"

datatype proxy_mode = Direct | Through_Mihomo | Custom

record watch_instance =
  wi_id :: string
  wi_key :: string
  wi_enabled :: bool
  wi_room :: string
  wi_players :: u8
  wi_modes :: "string list"
  wi_account_secret_ref :: string
  wi_client_version :: "string option"

record watch_config =
  wc_revision :: u64
  wc_enabled :: bool
  wc_server :: string
  wc_proxy_mode :: proxy_mode
  wc_custom_proxy_url :: "string option"
  wc_poll_interval_secs :: u64
  wc_request_delay_ms :: u64
  wc_login_module :: module_ref
  wc_pb_fetch_module :: module_ref
  wc_instances :: "watch_instance list"

datatype service_error =
    Invalid_Watch_Config string | Revision_Conflict u64 u64 | Module_Not_Installed string string | Invalid_Module string
  | Module_Failed string | Watch_Io | Watch_Json

text \<open>The parts of an address the code reads, and the address with its user information replaced.\<close>

record proxy_url =
  pu_scheme :: string
  pu_username :: string
  pu_password :: "string option"
  pu_masked :: string

definition identifier_char :: "char \<Rightarrow> bool" where
  "identifier_char c \<longleftrightarrow>
     (let n = of_char c :: nat in 48 \<le> n \<and> n \<le> 57 \<or> 65 \<le> n \<and> n \<le> 90 \<or> 97 \<le> n \<and> n \<le> 122) \<or>
     c = CHR ''.'' \<or> c = CHR ''_'' \<or> c = CHR ''-''"

definition validate_identifier :: "string \<Rightarrow> string \<Rightarrow> service_error + unit" where
  "validate_identifier label v =
     (if v = [] \<or> 96 < length v \<or> v = ''.'' \<or> v = ''..'' \<or> \<not> list_all identifier_char v
      then Inl (Invalid_Watch_Config (label @ '' contains unsupported characters'')) else Inr ())"

definition validate_module_ref :: "module_ref \<Rightarrow> service_error + unit" where
  "validate_module_ref r =
     attempt (validate_identifier ''module name'' (mr_name r)) (\<lambda>_. validate_identifier ''module version'' (mr_version r))"

definition validate_secret_ref :: "string \<Rightarrow> service_error + unit" where
  "validate_secret_ref v =
     (let shape = Inl (Invalid_Watch_Config ''account_secret_ref must use file:, env: or pool:'')
      in case split_once CHR '':'' v of
           None \<Rightarrow> shape
         | Some (scheme, target) \<Rightarrow>
             if target = [] then shape
             else if scheme = ''file'' \<or> scheme = ''env'' then Inr ()
             else if scheme = ''pool'' then
               (if parse_ref target \<noteq> None then Inr () else Inl (Invalid_Watch_Config ''pool reference''))
             else shape)"

definition validate_instance :: "watch_instance \<Rightarrow> service_error + unit" where
  "validate_instance i =
     attempt (validate_identifier ''instance key'' (wi_key i)) (\<lambda>_.
     attempt (validate_identifier ''instance id'' (wi_id i)) (\<lambda>_.
       if wi_room i \<notin> {''gold'', ''jade'', ''throne'', ''all''}
       then Inl (Invalid_Watch_Config ''room must be gold, jade, throne or all'')
       else if wi_players i \<noteq> 3 \<and> wi_players i \<noteq> 4 then Inl (Invalid_Watch_Config ''players must be 3 or 4'')
       else if wi_modes i = [] \<or> (\<exists>mode \<in> set (wi_modes i). mode \<noteq> ''east'' \<and> mode \<noteq> ''south'')
       then Inl (Invalid_Watch_Config ''modes must contain east and/or south'')
       else validate_secret_ref (wi_account_secret_ref i)))"

text \<open>The first instance whose value was met before.\<close>

fun first_repeat :: "('a \<Rightarrow> 'b) \<Rightarrow> 'b set \<Rightarrow> 'a list \<Rightarrow> 'a option" where
  "first_repeat f seen [] = None"
| "first_repeat f seen (x # xs) = (if f x \<in> seen then Some x else first_repeat f (Set.insert (f x) seen) xs)"

definition validate_proxy :: "(string \<Rightarrow> proxy_url option) \<Rightarrow> watch_config \<Rightarrow> service_error + unit" where
  "validate_proxy parse_url c =
     (case wc_proxy_mode c of
        Custom \<Rightarrow>
          (case wc_custom_proxy_url c of
             None \<Rightarrow> Inl (Invalid_Watch_Config ''custom_proxy_url is required in custom proxy mode'')
           | Some v \<Rightarrow>
               (case parse_url v of
                  None \<Rightarrow> Inl (Invalid_Watch_Config ''invalid custom proxy URL'')
                | Some u \<Rightarrow> if pu_scheme u \<in> {''http'', ''https'', ''socks5''} then Inr ()
                             else Inl (Invalid_Watch_Config ''custom proxy URL must use http, https or socks5'')))
      | _ \<Rightarrow> Inr ())"

definition validate_config :: "(string \<Rightarrow> proxy_url option) \<Rightarrow> watch_config \<Rightarrow> service_error + unit" where
  "validate_config parse_url c =
     (if wc_instances c = [] then Inl (Invalid_Watch_Config ''at least one watch instance is required'')
      else attempt (try_fold (\<lambda>_ i. validate_instance i) () (wc_instances c)) (\<lambda>_.
        case first_repeat wi_id {} (wc_instances c) of
          Some i \<Rightarrow> Inl (Invalid_Watch_Config (''duplicate watch instance id '' @ wi_id i))
        | None \<Rightarrow> (case first_repeat wi_key {} (wc_instances c) of
            Some i \<Rightarrow> Inl (Invalid_Watch_Config (''watch instance '' @ wi_id i @ '' reuses another instance's state key''))
          | None \<Rightarrow> (case first_repeat wi_account_secret_ref {} (wc_instances c) of
              Some i \<Rightarrow> Inl (Invalid_Watch_Config (''watch instance '' @ wi_id i @ '' reuses another instance's account_secret_ref''))
            | None \<Rightarrow>
                if wc_server c \<notin> {''cn'', ''en'', ''jp''} then Inl (Invalid_Watch_Config ''server must be cn, en or jp'')
                else if wc_poll_interval_secs c < 3 \<or> 300 < wc_poll_interval_secs c
                then Inl (Invalid_Watch_Config ''poll_interval_secs must be between 3 and 300'')
                else if 60000 < wc_request_delay_ms c then Inl (Invalid_Watch_Config ''request_delay_ms must not exceed 60000'')
                else attempt (validate_proxy parse_url c) (\<lambda>_.
                     attempt (validate_module_ref (wc_login_module c)) (\<lambda>_.
                       validate_module_ref (wc_pb_fetch_module c)))))))"

section \<open>Old documents and keys\<close>

definition legacy_instance_id :: string where
  "legacy_instance_id = ''default''"

definition legacy_keys :: "string list" where
  "legacy_keys = [''room'', ''players'', ''modes'', ''account_secret_ref'']"

definition without_member :: "string \<Rightarrow> (string \<times> json) list \<Rightarrow> (string \<times> json) list" where
  "without_member k kvs = filter (\<lambda>(k', _). k' \<noteq> k) kvs"

definition move_legacy :: "(string \<times> json) list \<times> (string \<times> json) list \<Rightarrow> string \<Rightarrow> (string \<times> json) list \<times> (string \<times> json) list" where
  "move_legacy s k =
     (let (object, inst) = s
      in case map_of object k of
           Some v \<Rightarrow> (without_member k object, put_member k v inst)
         | None \<Rightarrow> (object, inst))"

definition migrate_legacy_config :: "json \<Rightarrow> json" where
  "migrate_legacy_config document =
     (case document of
        JObject object \<Rightarrow>
          if (case map_of object ''instances'' of Some (JArray xs) \<Rightarrow> xs \<noteq> [] | _ \<Rightarrow> False) then document
          else if \<not> list_ex (\<lambda>k. map_of object k \<noteq> None) legacy_keys then document
          else let (object, inst) = foldl move_legacy
                     (object, [(''id'', JString legacy_instance_id), (''enabled'', JBool True)]) legacy_keys;
                   version = (case map_of object ''client_version'' of Some v \<Rightarrow> v | None \<Rightarrow> JNull);
                   inst = put_member ''client_version'' version inst
               in JObject (put_member ''instances'' (JArray [JObject inst]) (without_member ''client_version'' object))
      | _ \<Rightarrow> document)"

definition active_instances :: "watch_config \<Rightarrow> watch_instance list" where
  "active_instances c = filter (\<lambda>i. wc_enabled c \<and> wi_enabled i) (wc_instances c)"

text \<open>New keys are drawn by the position of the instance.\<close>

definition adopt_ids_as_keys :: "(nat \<Rightarrow> string) \<Rightarrow> watch_config \<Rightarrow> bool \<times> watch_config" where
  "adopt_ids_as_keys new_key c =
     (let taken = wi_key ` set (filter (\<lambda>i. wi_key i \<noteq> []) (wc_instances c));
          adopt = (\<lambda>n i. if wi_key i = []
                          then i\<lparr>wi_key := (if wi_id i \<in> taken then new_key n else wi_id i)\<rparr> else i)
      in (list_ex (\<lambda>i. wi_key i = []) (wc_instances c), c\<lparr>wc_instances := map_index adopt (wc_instances c)\<rparr>))"

definition mint_missing_keys :: "(nat \<Rightarrow> string) \<Rightarrow> watch_config \<Rightarrow> watch_config" where
  "mint_missing_keys new_key c =
     c\<lparr>wc_instances := map_index (\<lambda>n i. if wi_key i = [] then i\<lparr>wi_key := new_key n\<rparr> else i) (wc_instances c)\<rparr>"

definition pending_setup :: "u8 list" where
  "pending_setup = [0xE5, 0xBE, 0x85, 0xE9, 0x85, 0x8D, 0xE7, 0xBD, 0xAE]"

definition default_instance :: watch_instance where
  "default_instance = \<lparr>wi_id = ''default'', wi_key = ''default'', wi_enabled = True, wi_room = ''all'', wi_players = 4,
     wi_modes = [''east'', ''south''], wi_account_secret_ref = ''pool:watch/'' @ of_bytes pending_setup, wi_client_version = None\<rparr>"

definition default_config :: watch_config where
  "default_config = \<lparr>wc_revision = 1, wc_enabled = False, wc_server = ''cn'', wc_proxy_mode = Direct, wc_custom_proxy_url = None,
     wc_poll_interval_secs = 10, wc_request_delay_ms = 500, wc_login_module = builtin_module, wc_pb_fetch_module = builtin_module,
     wc_instances = [default_instance]\<rparr>"

text \<open>
  Opening the service, where \<open>stored\<close> is the document on disk, its reading error, or nothing: the configuration with whether
  the file was written, or the error; and whether the state file of the single old collector was moved, which
  happens before the write. \<open>state_exists\<close> says that a file of the new name is there already.
\<close>

definition open_service ::
  "(string \<Rightarrow> proxy_url option) \<Rightarrow> (json \<Rightarrow> watch_config option) \<Rightarrow> (nat \<Rightarrow> string) \<Rightarrow> bool \<Rightarrow> bool \<Rightarrow>
   (service_error + json) option \<Rightarrow> (service_error + watch_config \<times> bool) \<times> bool" where
  "open_service parse_url read_config new_key written state_exists stored =
     (case stored of
        Some (Inr document) \<Rightarrow>
          let legacy = (json_get ''instances'' document = None)
          in (case read_config (migrate_legacy_config document) of
                None \<Rightarrow> (Inl Watch_Json, False)
              | Some c \<Rightarrow>
                  let (adopted, c) = adopt_ids_as_keys new_key c
                  in (case validate_config parse_url c of
                        Inl e \<Rightarrow> (Inl e, False)
                      | Inr _ \<Rightarrow>
                          (if (legacy \<or> adopted) \<and> \<not> written then Inl Watch_Io else Inr (c, legacy \<or> adopted),
                           legacy \<and> \<not> state_exists)))
      | Some (Inl e) \<Rightarrow> (Inl e, False)
      | None \<Rightarrow>
          (if written then attempt (validate_config parse_url default_config) (\<lambda>_. Inr (default_config, True)) else Inl Watch_Io, False))"

section \<open>Credentials\<close>

definition redacted_proxy :: "(string \<Rightarrow> proxy_url option) \<Rightarrow> string option \<Rightarrow> string option" where
  "redacted_proxy parse_url v =
     (case v of
        None \<Rightarrow> None
      | Some url \<Rightarrow>
          (case parse_url url of
             None \<Rightarrow> Some url
           | Some u \<Rightarrow> if pu_username u = [] \<and> pu_password u = None then Some url else Some (pu_masked u)))"

definition restored_proxy :: "(string \<Rightarrow> proxy_url option) \<Rightarrow> string option \<Rightarrow> string option \<Rightarrow> string option" where
  "restored_proxy parse_url submitted stored =
     (case submitted of
        None \<Rightarrow> None
      | Some v \<Rightarrow> if redacted_proxy parse_url stored = Some v then stored else Some v)"

definition published_config :: "(string \<Rightarrow> proxy_url option) \<Rightarrow> watch_config \<Rightarrow> watch_config" where
  "published_config parse_url c = c\<lparr>wc_custom_proxy_url := redacted_proxy parse_url (wc_custom_proxy_url c)\<rparr>"

section \<open>The supervisor\<close>

text \<open>A task is the generation that started it and its instance. The handles kept and the tasks running are two lists.\<close>

type_synonym collector_task = "nat \<times> watch_instance"

record supervisor =
  sp_config :: watch_config
  sp_file :: "watch_config option"
  sp_phase :: service_phase
  sp_active_revision :: "u64 option"
  sp_modules :: "(module_ref \<times> module_ref) option"
  sp_last_error :: "string option"
  sp_generation :: nat
  sp_tasks :: "collector_task list"
  sp_running :: "collector_task list"

definition new_supervisor :: "watch_config \<Rightarrow> supervisor" where
  "new_supervisor c = \<lparr>sp_config = c, sp_file = Some c, sp_phase = Stopped, sp_active_revision = None, sp_modules = None,
     sp_last_error = None, sp_generation = 0, sp_tasks = [], sp_running = []\<rparr>"

definition take_tasks :: "supervisor \<Rightarrow> collector_task list \<times> supervisor" where
  "take_tasks s = (sp_tasks s, s\<lparr>sp_tasks := []\<rparr>)"

definition abort_tasks :: "collector_task list \<Rightarrow> supervisor \<Rightarrow> supervisor" where
  "abort_tasks handles s = s\<lparr>sp_running := filter (\<lambda>t. t \<notin> set handles) (sp_running s)\<rparr>"

definition stop_tasks :: "supervisor \<Rightarrow> supervisor" where
  "stop_tasks s = (let (handles, s) = take_tasks s in abort_tasks handles s)"

definition launch_tasks :: "watch_config \<Rightarrow> supervisor \<Rightarrow> collector_task list \<times> supervisor" where
  "launch_tasks config s =
     (let generation = sp_generation s + 1;
          tasks = map (Pair generation) (active_instances config);
          s = s\<lparr>sp_generation := generation, sp_phase := Starting, sp_last_error := None, sp_running := sp_running s @ tasks\<rparr>
      in (tasks,
          if tasks \<noteq> []
          then s\<lparr>sp_phase := Running, sp_active_revision := Some (wc_revision config),
                 sp_modules := Some (wc_login_module config, wc_pb_fetch_module config)\<rparr>
          else s\<lparr>sp_phase := Stopped\<rparr>))"

definition keep_tasks :: "collector_task list \<Rightarrow> supervisor \<Rightarrow> supervisor" where
  "keep_tasks tasks s = s\<lparr>sp_tasks := tasks\<rparr>"

text \<open>A start with nothing in between; \<open>probed\<close> is the answer of the module probes.\<close>

definition start_service :: "service_error + unit \<Rightarrow> supervisor \<Rightarrow> (service_error + unit) \<times> supervisor" where
  "start_service probed s =
     (let config = sp_config s
      in case probed of
           Inl e \<Rightarrow> (Inl e, s)
         | Inr _ \<Rightarrow> let (tasks, s) = launch_tasks config (stop_tasks s) in (Inr (), keep_tasks tasks s))"

definition reload_service :: "service_error + unit \<Rightarrow> supervisor \<Rightarrow> (service_error + unit) \<times> supervisor" where
  "reload_service probed s = start_service probed (s\<lparr>sp_phase := Reloading\<rparr>)"

definition stop_service :: "supervisor \<Rightarrow> supervisor" where
  "stop_service s =
     (stop_tasks (s\<lparr>sp_phase := Stopping\<rparr>))\<lparr>sp_phase := Stopped, sp_active_revision := None, sp_modules := None\<rparr>"

definition start_if_enabled :: "service_error + unit \<Rightarrow> supervisor \<Rightarrow> (service_error + unit) \<times> supervisor" where
  "start_if_enabled probed s = (if wc_enabled (sp_config s) then start_service probed s else (Inr (), s))"

text \<open>A collector that returns, with the failure it returns.\<close>

definition run_instance_ends :: "collector_task \<Rightarrow> string option \<Rightarrow> supervisor \<Rightarrow> supervisor" where
  "run_instance_ends t failure s =
     (let s = s\<lparr>sp_running := filter (\<lambda>r. r \<noteq> t) (sp_running s)\<rparr>
      in if sp_generation s = fst t
         then (case failure of
                 None \<Rightarrow> s
               | Some e \<Rightarrow>
                   s\<lparr>sp_phase := Failed,
                     sp_last_error := (case sp_last_error s of Some first \<Rightarrow> Some first
                                       | None \<Rightarrow> Some (''['' @ wi_id (snd t) @ ''] '' @ e))\<rparr>)
         else s)"

record save_env =
  sn_new_key :: "nat \<Rightarrow> string"
  sn_lower :: "string \<Rightarrow> string"
  sn_secrets :: secret_env
  sn_pool :: account_pool
  sn_probed :: "service_error + unit"
  sn_written :: bool
  sn_reprobed :: "service_error + unit"

text \<open>The instances that can be read now resolve to different accounts.\<close>

fun shared_account :: "save_env \<Rightarrow> string set \<Rightarrow> watch_instance list \<Rightarrow> string option" where
  "shared_account env seen [] = None"
| "shared_account env seen (i # is) =
     (case load_accounts (sn_secrets env) (wi_account_secret_ref i) (sn_pool env) of
        Inl _ \<Rightarrow> shared_account env seen is
      | Inr accounts \<Rightarrow>
          let username = sn_lower env (fst (hd accounts))
          in if username \<in> seen then Some username else shared_account env (Set.insert username seen) is)"

definition update_config ::
  "(string \<Rightarrow> proxy_url option) \<Rightarrow> save_env \<Rightarrow> watch_config \<Rightarrow> supervisor \<Rightarrow> (service_error + watch_config) \<times> supervisor" where
  "update_config parse_url env submitted s =
     (let next_config = mint_missing_keys (sn_new_key env) submitted
      in case validate_config parse_url next_config of
           Inl e \<Rightarrow> (Inl e, s)
         | Inr _ \<Rightarrow>
             if shared_account env {} (wc_instances next_config) \<noteq> None then (Inl (Invalid_Watch_Config ''shared account''), s)
             else (case sn_probed env of
                     Inl e \<Rightarrow> (Inl e, s)
                   | Inr _ \<Rightarrow>
                       if wc_revision next_config \<noteq> wc_revision (sp_config s)
                       then (Inl (Revision_Conflict (wc_revision next_config) (wc_revision (sp_config s))), s)
                       else let saved = next_config\<lparr>wc_custom_proxy_url := restored_proxy parse_url (wc_custom_proxy_url next_config)
                                                        (wc_custom_proxy_url (sp_config s)),
                                                    wc_revision := saturating_next (wc_revision (sp_config s))\<rparr>
                            in if \<not> sn_written env then (Inl Watch_Io, s)
                               else let s = s\<lparr>sp_config := saved, sp_file := Some saved\<rparr>
                                    in if wc_enabled saved
                                       then (case reload_service (sn_reprobed env) s of
                                               (Inl e, s) \<Rightarrow> (Inl e, s)
                                             | (Inr _, s) \<Rightarrow> (Inr (published_config parse_url saved), s))
                                       else (Inr (published_config parse_url saved), stop_service s)))"

section \<open>A module process\<close>

text \<open>
  What becomes of one exchange over the pipes: a pipe failed, no whole line came within the deadline,
  the output ended, or a line came, which may not be JSON. The process is a parameter with a state of its own.
\<close>

datatype exchange_end = Pipe_Failed | No_Answer | Output_Ended | Answer_Line "json option"

type_synonym 'p process = "json \<Rightarrow> 'p \<Rightarrow> exchange_end \<times> 'p"

record 'p plugin_worker =
  gw_pipes :: 'p
  gw_sequence :: u64
  gw_desynced :: bool

definition deadline_secs :: "string \<Rightarrow> nat" where
  "deadline_secs verb =
     (if verb = ''open_session'' then 120 else if verb = ''rpc'' then 60 else if verb = ''register'' then 900 else 5)"

definition module_request :: "u64 \<Rightarrow> string \<Rightarrow> json \<Rightarrow> json" where
  "module_request i verb params =
     JObject [(''id'', j_u64 i), (''protocol_version'', JNum 1), (''method'', JString verb), (''params'', params)]"

definition read_answer :: "u64 \<Rightarrow> json \<Rightarrow> bool \<times> (service_error + json)" where
  "read_answer i response =
     (if Option.bind (json_get ''id'' response) as_u64 \<noteq> Some (unat i)
      then (True, Inl (Module_Failed ''module returned a response with the wrong request id''))
      else if Option.bind (json_get ''ok'' response) as_bool \<noteq> Some True
      then (False, Inl (Module_Failed (case Option.bind (json_get ''error'' response) as_str of
                                         Some e \<Rightarrow> e | None \<Rightarrow> ''module request failed'')))
      else (False, Inr (case json_get ''result'' response of Some v \<Rightarrow> v | None \<Rightarrow> JObject [])))"

text \<open>\<open>restart\<close> is the process a new start gives, if the start succeeds.\<close>

definition worker_request ::
  "'p process \<Rightarrow> 'p option \<Rightarrow> string \<Rightarrow> json \<Rightarrow> 'p plugin_worker \<Rightarrow> (service_error + json) \<times> 'p plugin_worker" where
  "worker_request process restart verb params w =
     (let i = gw_sequence w; w = w\<lparr>gw_sequence := gw_sequence w + 1\<rparr>;
          repaired = (if gw_desynced w
                      then (case restart of
                              None \<Rightarrow> (Inl Watch_Io, w\<lparr>gw_desynced := False\<rparr>)
                            | Some pipes \<Rightarrow> (Inr (), w\<lparr>gw_desynced := False, gw_pipes := pipes\<rparr>))
                      else (Inr (), w))
      in case repaired of
           (Inl e, w) \<Rightarrow> (Inl e, w)
         | (Inr _, w) \<Rightarrow>
             (case process (module_request i verb params) (gw_pipes w) of
                (Pipe_Failed, pipes) \<Rightarrow> (Inl Watch_Io, w\<lparr>gw_pipes := pipes\<rparr>)
              | (No_Answer, pipes) \<Rightarrow> (Inl (Module_Failed ''deadline''), w\<lparr>gw_pipes := pipes, gw_desynced := True\<rparr>)
              | (Output_Ended, pipes) \<Rightarrow> (Inl (Module_Failed ''module exited''), w\<lparr>gw_pipes := pipes\<rparr>)
              | (Answer_Line None, pipes) \<Rightarrow> (Inl Watch_Json, w\<lparr>gw_pipes := pipes, gw_desynced := True\<rparr>)
              | (Answer_Line (Some response), pipes) \<Rightarrow>
                  (case read_answer i response of
                     (lost, result) \<Rightarrow> (result, w\<lparr>gw_pipes := pipes, gw_desynced := lost\<rparr>))))"

section \<open>Saving\<close>

lemma restored_proxy_redacted: "restored_proxy parse_url (redacted_proxy parse_url stored) stored = stored"
  by (auto simp: restored_proxy_def redacted_proxy_def split: option.splits)

lemma reload_config: "sp_config (snd (reload_service probed s)) = sp_config s" "sp_file (snd (reload_service probed s)) = sp_file s"
  by (auto simp: reload_service_def start_service_def launch_tasks_def stop_tasks_def take_tasks_def abort_tasks_def keep_tasks_def
      Let_def split: sum.splits)

lemma reload_failed: "reload_service probed s = (r, t) \<Longrightarrow> r = Inl e \<Longrightarrow> t = s\<lparr>sp_phase := Reloading\<rparr>"
  by (cases probed) (simp_all add: reload_service_def start_service_def split: prod.splits)

lemma stop_config: "sp_config (stop_service s) = sp_config s" "sp_file (stop_service s) = sp_file s"
  by (auto simp: stop_service_def stop_tasks_def take_tasks_def abort_tasks_def Let_def)

lemma mint_fields [simp]: "wc_revision (mint_missing_keys new_key c) = wc_revision c"
  "wc_custom_proxy_url (mint_missing_keys new_key c) = wc_custom_proxy_url c"
  by (simp_all add: mint_missing_keys_def)

text \<open>What a save that gets as far as the file does.\<close>

definition saved_config :: "(string \<Rightarrow> proxy_url option) \<Rightarrow> save_env \<Rightarrow> watch_config \<Rightarrow> supervisor \<Rightarrow> watch_config" where
  "saved_config parse_url env submitted s =
     (mint_missing_keys (sn_new_key env) submitted)\<lparr>
       wc_custom_proxy_url := restored_proxy parse_url (wc_custom_proxy_url submitted) (wc_custom_proxy_url (sp_config s)),
       wc_revision := saturating_next (wc_revision (sp_config s))\<rparr>"

lemma update_config_cases:
  obtains (refused) e where "update_config parse_url env submitted s = (Inl e, s)"
  | (saved) "wc_revision submitted = wc_revision (sp_config s)"
      "validate_config parse_url (mint_missing_keys (sn_new_key env) submitted) = Inr ()"
      "shared_account env {} (wc_instances (mint_missing_keys (sn_new_key env) submitted)) = None"
      "update_config parse_url env submitted s =
         (let c = saved_config parse_url env submitted s; s = s\<lparr>sp_config := c, sp_file := Some c\<rparr>
          in if wc_enabled c
             then (case reload_service (sn_reprobed env) s of
                     (Inl e, s) \<Rightarrow> (Inl e, s) | (Inr _, s) \<Rightarrow> (Inr (published_config parse_url c), s))
             else (Inr (published_config parse_url c), stop_service s))"
proof (cases "\<exists>e. update_config parse_url env submitted s = (Inl e, s)")
  case True
  then show thesis using refused by blast
next
  case False
  then show thesis
    by (intro saved) (auto simp: update_config_def saved_config_def Let_def split: sum.splits if_splits)
qed

text \<open>Saving the document as it was served, with whatever else edited, keeps the stored proxy address with its
  credentials; the file is what is in memory, the revision moves on, and the answer shows the address redacted.\<close>

theorem saves_keep_proxy_credentials:
  assumes "update_config parse_url env submitted s = (Inr answered, s')"
    and "wc_custom_proxy_url submitted = wc_custom_proxy_url (published_config parse_url (sp_config s))"
  shows "wc_custom_proxy_url (sp_config s') = wc_custom_proxy_url (sp_config s) \<and> sp_file s' = Some (sp_config s') \<and>
    wc_revision (sp_config s') = saturating_next (wc_revision (sp_config s)) \<and> answered = published_config parse_url (sp_config s')"
proof (cases rule: update_config_cases [of parse_url env submitted s])
  case (refused e)
  with assms(1) show ?thesis by simp
next
  case saved
  let ?c = "saved_config parse_url env submitted s"
  let ?s = "s\<lparr>sp_config := ?c, sp_file := Some ?c\<rparr>"
  have "sp_config s' = ?c \<and> sp_file s' = Some ?c \<and> answered = published_config parse_url ?c"
  proof (cases "wc_enabled ?c")
    case True
    obtain r t where t: "reload_service (sn_reprobed env) ?s = (r, t)" by fastforce
    have "r = Inr () \<and> answered = published_config parse_url ?c \<and> s' = t"
      using assms(1) True unfolding saved(4) Let_def t by (cases r) simp_all
    moreover have "sp_config t = ?c" "sp_file t = Some ?c" using reload_config [of "sn_reprobed env" ?s] t by simp_all
    ultimately show ?thesis by simp
  next
    case False
    then show ?thesis using assms(1) stop_config [of ?s] unfolding saved(4) Let_def by simp
  qed
  then show ?thesis using assms(2) restored_proxy_redacted by (simp add: saved_config_def published_config_def)
qed

text \<open>Folding an old document twice is folding it once: what has instances is left alone.\<close>

lemma migrate_legacy_shape:
  "migrate_legacy_config d = d \<or> (\<exists>inst kvs. migrate_legacy_config d = JObject (put_member ''instances'' (JArray [JObject inst]) kvs))"
proof (cases d)
  case (JObject object)
  show ?thesis unfolding JObject migrate_legacy_config_def json.case Let_def case_prod_unfold
    by (simp only: split: if_split) blast
qed (simp_all add: migrate_legacy_config_def)

lemma migrate_legacy_config_idem: "migrate_legacy_config (migrate_legacy_config d) = migrate_legacy_config d"
proof -
  have "migrate_legacy_config (JObject (put_member ''instances'' (JArray [JObject inst]) kvs)) =
      JObject (put_member ''instances'' (JArray [JObject inst]) kvs)" for inst kvs
    by (simp add: migrate_legacy_config_def map_of_put_member)
  with migrate_legacy_shape [of d] show ?thesis by metis
qed

text \<open>A service that opened has a valid configuration, whatever was on disk, so the guarantees below hold from its start.\<close>

lemma opened_config_valid:
  "open_service parse_url read_config new_key written state_exists stored = (Inr (c, wrote), moved) \<Longrightarrow> validate_config parse_url c = Inr ()"
  by (auto simp: open_service_def Let_def result_simps split: option.splits sum.splits prod.splits if_splits)

text \<open>Keys read off disk are never replaced, and an instance without one gets its id unless that names another's state.\<close>

lemma adopt_ids_keeps_keys:
  assumes "n < length (wc_instances c)" and "wi_key (wc_instances c ! n) \<noteq> []"
  shows "wc_instances (snd (adopt_ids_as_keys new_key c)) ! n = wc_instances c ! n"
  using assms by (simp add: adopt_ids_as_keys_def Let_def)

text \<open>An edit of a revision that has moved on changes nothing.\<close>

lemma stale_edit_refused:
  assumes "wc_revision submitted \<noteq> wc_revision (sp_config s)"
  shows "\<exists>e. update_config parse_url env submitted s = (Inl e, s)"
  by (cases rule: update_config_cases [of parse_url env submitted s]) (use assms in auto)

text \<open>A save whose modules no longer answer when the collectors are restarted is reported as failed although it took
  effect: the new document is in memory and on disk under a new revision, while the collectors of the old one run on and the
  service is shown as reloading.\<close>

theorem failed_reload_is_half_done:
  assumes "update_config parse_url env submitted s = (Inl e, s')" and "s' \<noteq> s"
  shows "sp_config s' = saved_config parse_url env submitted s \<and> sp_file s' = Some (sp_config s') \<and> sp_phase s' = Reloading \<and>
    sp_running s' = sp_running s \<and> sp_active_revision s' = sp_active_revision s"
proof (cases rule: update_config_cases [of parse_url env submitted s])
  case (refused e)
  with assms show ?thesis by simp
next
  case saved
  let ?c = "saved_config parse_url env submitted s"
  let ?s = "s\<lparr>sp_config := ?c, sp_file := Some ?c\<rparr>"
  have "wc_enabled ?c" using assms(1) unfolding saved(4) Let_def by (cases "wc_enabled ?c") simp_all
  moreover obtain r t where t: "reload_service (sn_reprobed env) ?s = (r, t)" by fastforce
  ultimately have "r = Inl e \<and> s' = t" using assms(1) unfolding saved(4) Let_def t by (cases r) simp_all
  with reload_failed [OF t] show ?thesis by simp
qed

section \<open>One task per collector\<close>

lemma first_repeat_None:
  "first_repeat f seen xs = None \<longleftrightarrow> distinct (map f xs) \<and> f ` set xs \<inter> seen = {}"
  by (induction xs arbitrary: seen) auto

definition own_names :: "watch_config \<Rightarrow> bool" where
  "own_names c \<longleftrightarrow> distinct (map wi_key (wc_instances c)) \<and> distinct (map wi_account_secret_ref (wc_instances c))"

lemma validate_config_names: "validate_config parse_url c = Inr () \<Longrightarrow> own_names c"
  by (auto simp: validate_config_def own_names_def first_repeat_None result_simps split: if_splits option.splits)

definition tasks_of :: "watch_config \<Rightarrow> nat \<Rightarrow> collector_task list" where
  "tasks_of c generation = map (Pair generation) (active_instances c)"

definition in_hand :: "supervisor \<Rightarrow> bool" where
  "in_hand s \<longleftrightarrow> own_names (sp_config s) \<and> distinct (sp_running s) \<and> set (sp_running s) \<subseteq> set (sp_tasks s) \<and>
     (\<exists>c g. own_names c \<and> sp_tasks s = tasks_of c g)"

datatype service_op =
    Start_Op "service_error + unit" | Reload_Op "service_error + unit" | Stop_Op | Save_Op save_env watch_config
  | Ended_Op collector_task "string option"

primrec apply_service :: "(string \<Rightarrow> proxy_url option) \<Rightarrow> service_op \<Rightarrow> supervisor \<Rightarrow> supervisor" where
  "apply_service parse_url (Start_Op probed) s = snd (start_service probed s)"
| "apply_service parse_url (Reload_Op probed) s = snd (reload_service probed s)"
| "apply_service parse_url Stop_Op s = stop_service s"
| "apply_service parse_url (Save_Op env submitted) s = snd (update_config parse_url env submitted s)"
| "apply_service parse_url (Ended_Op t failure) s = run_instance_ends t failure s"

lemma stop_tasks_idle: "set (sp_running s) \<subseteq> set (sp_tasks s) \<Longrightarrow> sp_running (stop_tasks s) = [] \<and> sp_tasks (stop_tasks s) = []"
  by (auto simp: stop_tasks_def take_tasks_def abort_tasks_def filter_empty_conv)

lemma stop_tasks_fields [simp]: "sp_config (stop_tasks s) = sp_config s" "sp_generation (stop_tasks s) = sp_generation s"
  by (simp_all add: stop_tasks_def take_tasks_def abort_tasks_def)

lemma tasks_of_distinct: "own_names c \<Longrightarrow> distinct (tasks_of c g)"
  by (auto simp: tasks_of_def active_instances_def own_names_def distinct_map inj_on_def intro: distinct_filter)

lemma start_in_hand:
  assumes "in_hand s"
  shows "in_hand (snd (start_service probed s))"
proof (cases probed)
  case (Inr u)
  have idle: "sp_running (stop_tasks s) = []" using stop_tasks_idle assms by (simp add: in_hand_def)
  obtain tasks s1 where launched: "launch_tasks (sp_config s) (stop_tasks s) = (tasks, s1)" by fastforce
  have "tasks = tasks_of (sp_config s) (sp_generation s + 1)" "sp_running s1 = tasks" "sp_config s1 = sp_config s"
    using launched idle by (auto simp: launch_tasks_def tasks_of_def Let_def split: if_splits)
  moreover have "own_names (sp_config s)" using assms by (simp add: in_hand_def)
  ultimately show ?thesis using Inr launched tasks_of_distinct
    by (auto simp: start_service_def Let_def keep_tasks_def in_hand_def)
qed (use assms in \<open>simp add: start_service_def\<close>)

lemma stop_in_hand:
  assumes "in_hand s" shows "in_hand (stop_service s)" "sp_running (stop_service s) = []"
proof -
  have idle: "sp_running (stop_tasks (s\<lparr>sp_phase := Stopping\<rparr>)) = []" "sp_tasks (stop_tasks (s\<lparr>sp_phase := Stopping\<rparr>)) = []"
    using stop_tasks_idle [of "s\<lparr>sp_phase := Stopping\<rparr>"] assms by (simp_all add: in_hand_def)
  then show "sp_running (stop_service s) = []" by (simp add: stop_service_def)
  have "tasks_of (sp_config s\<lparr>wc_enabled := False\<rparr>) 0 = []" by (simp add: tasks_of_def active_instances_def)
  moreover have "own_names (sp_config s\<lparr>wc_enabled := False\<rparr>)" using assms by (simp add: in_hand_def own_names_def)
  ultimately have "\<exists>c g. own_names c \<and> [] = tasks_of c g" by metis
  with idle assms show "in_hand (stop_service s)" by (simp add: stop_service_def in_hand_def)
qed

lemma in_hand_cong: "in_hand s \<Longrightarrow> own_names c \<Longrightarrow> in_hand (s\<lparr>sp_config := c, sp_file := f\<rparr>)" "in_hand (s\<lparr>sp_phase := p\<rparr>) = in_hand s"
  by (simp_all add: in_hand_def)

lemma apply_service_in_hand:
  assumes "in_hand s" shows "in_hand (apply_service parse_url operation s)"
proof (cases operation)
  case (Save_Op env submitted)
  show ?thesis
  proof (cases rule: update_config_cases [of parse_url env submitted s])
    case (refused e)
    with Save_Op assms show ?thesis by simp
  next
    case saved
    let ?c = "saved_config parse_url env submitted s"
    have "own_names ?c" using validate_config_names [OF saved(2)] by (simp add: own_names_def saved_config_def)
    then have next_state: "in_hand (s\<lparr>sp_config := ?c, sp_file := Some ?c\<rparr>)" using assms in_hand_cong by blast
    have "in_hand (snd (reload_service (sn_reprobed env) (s\<lparr>sp_config := ?c, sp_file := Some ?c\<rparr>)))"
      unfolding reload_service_def using start_in_hand next_state in_hand_cong by simp
    with stop_in_hand(1) [OF next_state] show ?thesis
      unfolding Save_Op apply_service.simps saved(4) by (auto simp: Let_def split: prod.splits sum.splits)
  qed
next
  case (Ended_Op t failure)
  with assms show ?thesis by (auto simp: run_instance_ends_def Let_def in_hand_def split: option.splits)
qed (use assms start_in_hand stop_in_hand in_hand_cong in \<open>auto simp: reload_service_def\<close>)

text \<open>Claim C29: whatever is started, stopped, reloaded and saved one after the other, and however collectors end, every running
  collector is one the service can still stop, no two of them keep the same state file or use the same account reference,
  and a stop leaves none running.\<close>

theorem collectors_stay_in_hand:
  assumes "validate_config parse_url c = Inr ()"
  shows "let s = fold (apply_service parse_url) operations (new_supervisor c)
    in set (sp_running s) \<subseteq> set (sp_tasks s) \<and> distinct (map (wi_key \<circ> snd) (sp_running s)) \<and>
       distinct (map (wi_account_secret_ref \<circ> snd) (sp_running s)) \<and> sp_running (stop_service s) = []"
proof -
  let ?s = "fold (apply_service parse_url) operations (new_supervisor c)"
  have "tasks_of (c\<lparr>wc_enabled := False\<rparr>) 0 = []" "own_names (c\<lparr>wc_enabled := False\<rparr>)" "own_names c"
    using validate_config_names [OF assms] by (simp_all add: tasks_of_def active_instances_def own_names_def)
  then have "\<exists>c g. own_names c \<and> [] = tasks_of c g" by metis
  with \<open>own_names c\<close> have "in_hand (new_supervisor c)" by (simp add: in_hand_def new_supervisor_def)
  then have hand: "in_hand ?s" by (induction operations arbitrary: c rule: rev_induct) (auto intro: apply_service_in_hand)
  then obtain c' g where c': "own_names c'" "sp_tasks ?s = tasks_of c' g" and run: "distinct (sp_running ?s)" "set (sp_running ?s) \<subseteq> set (sp_tasks ?s)"
    by (auto simp: in_hand_def)
  have "inj_on (wi_key \<circ> snd) (set (tasks_of c' g))" "inj_on (wi_account_secret_ref \<circ> snd) (set (tasks_of c' g))"
    using c'(1) by (auto simp: inj_on_def tasks_of_def active_instances_def own_names_def distinct_map)
  then have "distinct (map (wi_key \<circ> snd) (sp_running ?s))" "distinct (map (wi_account_secret_ref \<circ> snd) (sp_running ?s))"
    using run c'(2) by (auto simp: distinct_map intro: inj_on_subset)
  with run stop_in_hand(2) [OF hand] show ?thesis by (simp add: Let_def)
qed

text \<open>Claim C30: two starts at once leave collectors nobody can stop. When the second start has taken the old handles before the
  first has put down the new ones, the handles of the first are overwritten: every instance runs twice, on the same state file
  and account, and a stop ends one of the two and reports that the service has stopped.\<close>

theorem concurrent_starts_leak_collectors:
  assumes "active_instances (sp_config s) \<noteq> []" and "sp_running s = []"
  shows "let (first, a) = launch_tasks (sp_config s) (stop_tasks (stop_tasks s));
             (second, b) = launch_tasks (sp_config s) a;
             stopped = stop_service (keep_tasks second (keep_tasks first b))
         in map snd (sp_running b) = active_instances (sp_config s) @ active_instances (sp_config s) \<and>
            sp_phase stopped = Stopped \<and> map snd (sp_running stopped) = active_instances (sp_config s)"
proof -
  have idle: "sp_running (stop_tasks (stop_tasks s)) = []"
    using assms(2) by (simp add: stop_tasks_def take_tasks_def abort_tasks_def)
  show ?thesis using assms(1) idle
    by (auto simp: launch_tasks_def keep_tasks_def stop_service_def stop_tasks_def take_tasks_def abort_tasks_def Let_def filter_map o_def
        intro!: filter_True)
qed

text \<open>The configuration a service starts with, switched on.\<close>

definition sample_config :: watch_config where
  "sample_config = default_config\<lparr>wc_enabled := True, wc_instances := [default_instance\<lparr>wi_account_secret_ref := ''env:WATCH''\<rparr>]\<rparr>"

lemma sample_config_valid: "validate_config (\<lambda>_. None) sample_config = Inr ()"
  by (simp add: validate_config_def sample_config_def default_config_def default_instance_def validate_instance_def
      validate_identifier_def identifier_char_def validate_secret_ref_def validate_proxy_def validate_module_ref_def
      builtin_module_def result_simps Let_def)

theorem collectors_stay_in_hand_witness:
  "let s = fold (apply_service (\<lambda>_. None)) [Start_Op (Inr ()), Reload_Op (Inr ()), Reload_Op (Inl Watch_Io)] (new_supervisor sample_config)
   in sp_phase s = Reloading \<and> length (sp_running s) = 1 \<and> set (sp_running s) \<subseteq> set (sp_tasks s) \<and> sp_running (stop_service s) = []"
  using collectors_stay_in_hand [OF sample_config_valid, of "[Start_Op (Inr ()), Reload_Op (Inr ()), Reload_Op (Inl Watch_Io)]"]
  by (simp add: Let_def new_supervisor_def start_service_def reload_service_def stop_tasks_def take_tasks_def abort_tasks_def
      launch_tasks_def keep_tasks_def active_instances_def sample_config_def default_config_def default_instance_def)

theorem concurrent_starts_leak_collectors_witness:
  "let s = new_supervisor sample_config; (first, a) = launch_tasks (sp_config s) (stop_tasks (stop_tasks s));
       (second, b) = launch_tasks (sp_config s) a; stopped = stop_service (keep_tasks second (keep_tasks first b))
   in sp_phase stopped = Stopped \<and> map (wi_id \<circ> snd) (sp_running stopped) = [''default'']"
proof -
  have "active_instances (sp_config (new_supervisor sample_config)) = wc_instances sample_config"
    by (simp add: active_instances_def new_supervisor_def sample_config_def default_config_def default_instance_def)
  moreover have "map wi_id (wc_instances sample_config) = [''default'']" by (simp add: sample_config_def default_instance_def)
  moreover have "sp_running (new_supervisor sample_config) = []" by (simp add: new_supervisor_def)
  ultimately show ?thesis using concurrent_starts_leak_collectors [of "new_supervisor sample_config"]
    by (auto simp: Let_def case_prod_unfold simp flip: map_map)
qed

section \<open>Faults of a module process\<close>

definition good_answer :: "u64 \<Rightarrow> json \<Rightarrow> json" where
  "good_answer i v = JObject [(''id'', j_u64 i), (''ok'', JBool True), (''result'', v)]"

lemma read_good_answer: "read_answer i (good_answer i v) = (False, Inr v)"
  using uint_bounded [of i] by (simp add: read_answer_def good_answer_def as_u64_def)

text \<open>The faults after which the answers can no longer be matched to the requests.\<close>

fun loses_place :: "u64 \<Rightarrow> exchange_end \<Rightarrow> bool" where
  "loses_place i No_Answer \<longleftrightarrow> True"
| "loses_place i (Answer_Line None) \<longleftrightarrow> True"
| "loses_place i (Answer_Line (Some response)) \<longleftrightarrow> Option.bind (json_get ''id'' response) as_u64 \<noteq> Some (unat i)"
| "loses_place i _ \<longleftrightarrow> False"

text \<open>After such a fault the next request goes to a process started afresh, and gets that process's answer and not a late one.\<close>

theorem lost_place_is_repaired:
  assumes "\<not> gw_desynced w" and "process (module_request (gw_sequence w) verb params) (gw_pipes w) = (fault, pipes)"
    and "loses_place (gw_sequence w) fault"
    and "process (module_request (gw_sequence w + 1) verb' params') fresh = (Answer_Line (Some (good_answer (gw_sequence w + 1) v)), kept)"
  shows "let (r, w1) = worker_request process restart verb params w; (r', w2) = worker_request process (Some fresh) verb' params' w1
    in (\<exists>e. r = Inl e) \<and> r' = Inr v \<and> gw_pipes w2 = kept \<and> \<not> gw_desynced w2"
proof -
  obtain e where "worker_request process restart verb params w =
      (Inl e, w\<lparr>gw_sequence := gw_sequence w + 1, gw_pipes := pipes, gw_desynced := True\<rparr>)"
    using assms(1-3) by (cases "(gw_sequence w, fault)" rule: loses_place.cases) (auto simp: worker_request_def read_answer_def Let_def)
  then show ?thesis using assms(4) by (simp add: worker_request_def read_good_answer Let_def)
qed

fun worker_requests :: "'p process \<Rightarrow> ('p option \<times> string \<times> json) list \<Rightarrow> 'p plugin_worker \<Rightarrow> (service_error + json) list" where
  "worker_requests process [] w = []"
| "worker_requests process ((restart, verb, params) # calls) w =
     (let (r, w) = worker_request process restart verb params w in r # worker_requests process calls w)"

lemma exited_stays:
  assumes "\<And>request. \<exists>fault. process request gone = (fault, gone) \<and> fault \<in> {Output_Ended, Pipe_Failed}"
    and "gw_pipes w = gone" "\<not> gw_desynced w"
  obtains e w' where "worker_request process restart verb params w = (Inl e, w')" "gw_pipes w' = gone" "\<not> gw_desynced w'"
  using assms(1) [of "module_request (gw_sequence w) verb params"] assms(2,3) by (auto simp: worker_request_def Let_def)

text \<open>A process that has exited is not started again: its pipes give an end of output or fail, neither of which marks
  the worker for a restart, so every later request fails although a new process could be started.\<close>

theorem exited_module_is_never_restarted:
  assumes "\<And>request. \<exists>fault. process request gone = (fault, gone) \<and> fault \<in> {Output_Ended, Pipe_Failed}"
    and "gw_pipes w = gone" and "\<not> gw_desynced w"
  shows "list_all (\<lambda>r. \<exists>e. r = Inl e) (worker_requests process calls w)"
  using assms(2,3)
proof (induction calls arbitrary: w)
  case (Cons call calls)
  obtain restart verb params where call: "call = (restart, verb, params)" by (cases call)
  obtain e w' where "worker_request process restart verb params w = (Inl e, w')" "gw_pipes w' = gone" "\<not> gw_desynced w'"
    using exited_stays [of process gone w restart verb params] assms(1) Cons.prems by metis
  with Cons.IH [of w'] show ?case by (simp add: call)
qed simp

theorem exited_module_is_never_restarted_witness:
  "list_all (\<lambda>r. \<exists>e. r = Inl e) (worker_requests (\<lambda>_ alive. (if alive then No_Answer else Output_Ended, alive))
     [(Some True, ''rpc'', JNull), (Some True, ''rpc'', JNull)] \<lparr>gw_pipes = False, gw_sequence = 7, gw_desynced = False\<rparr>)"
  by (rule exited_module_is_never_restarted [where gone = False]) simp_all

theorem lost_place_is_repaired_witness:
  "let process = (\<lambda>request alive. (if alive then Answer_Line (Some (good_answer 8 JNull)) else No_Answer, alive));
       (r, w1) = worker_request process None ''rpc'' JNull \<lparr>gw_pipes = False, gw_sequence = 7, gw_desynced = False\<rparr>;
       (r', w2) = worker_request process (Some True) ''rpc'' JNull w1
   in (\<exists>e. r = Inl e) \<and> r' = Inr JNull \<and> gw_pipes w2 \<and> \<not> gw_desynced w2"
  using lost_place_is_repaired [where w = "\<lparr>gw_pipes = False, gw_sequence = 7, gw_desynced = False\<rparr>" and pipes = False
      and process = "\<lambda>request alive. (if alive then Answer_Line (Some (good_answer 8 JNull)) else No_Answer, alive)"
      and fresh = True and kept = True and fault = No_Answer and v = JNull]
  by (auto simp: Let_def case_prod_unfold)

end
