(* ===== verification/Backfill.thy ===== *)
theory Backfill
  imports Reconvert Drain "HOL-Library.Product_Lexorder"
begin

text \<open>
  \<^verbatim>\<open>src/backfill.rs\<close>: the four one-shot passes over the whole index, which rewrite metadata, claim games, score records and
  convert records again, with the page of the index they walk by (\<^verbatim>\<open>Catalog::page\<close>) and the marker
  that keeps a pass from running twice. Each page comes with what the outside does at that moment: the rows the workers
  have indexed meanwhile, which reads work, in which order they complete, which writes are acknowledged. The lemmas
  show that a page walk beside live ingest misses no row, that a pass that marked itself has settled every row it did
  not see written meanwhile, that rewriting keeps every row and clears nothing, and which pass marks itself after
  reading nothing.
\<close>

section \<open>Pages of the index\<close>

text \<open>The sorting key of the table; the date in it is a function of the time. Of rows with one key the last inserted
  counts, which is what \<^verbatim>\<open>FINAL\<close> shows.\<close>

type_synonym row_key = "string \<times> int \<times> uuid"

definition row_key :: "index_row \<Rightarrow> row_key" where
  "row_key row = (rw_source row, rw_received_at row, rw_id row)"

fun final_rows :: "index_row list \<Rightarrow> index_row list" where
  "final_rows [] = []"
| "final_rows (row # rows) = (if row_key row \<in> row_key ` set rows then final_rows rows else row # final_rows rows)"

text \<open>A cursor is the time and the id of the last row of a page. \<open>rank\<close> orders the ids the way the index does.\<close>

type_synonym row_cursor = "int \<times> uuid"

definition place :: "(uuid \<Rightarrow> int) \<Rightarrow> row_cursor \<Rightarrow> int \<times> int" where
  "place rank c = (- fst c, - rank (snd c))"

definition cursor_of :: "index_row \<Rightarrow> row_cursor" where
  "cursor_of row = (rw_received_at row, rw_id row)"

definition below_cursor :: "(uuid \<Rightarrow> int) \<Rightarrow> row_cursor option \<Rightarrow> index_row \<Rightarrow> bool" where
  "below_cursor rank cursor row \<longleftrightarrow> (case cursor of None \<Rightarrow> True | Some c \<Rightarrow> place rank c < place rank (cursor_of row))"

definition catalog_page ::
  "(uuid \<Rightarrow> int) \<Rightarrow> (index_row \<Rightarrow> bool) \<Rightarrow> row_cursor option \<Rightarrow> nat \<Rightarrow> index_row list \<Rightarrow> index_row list \<times> row_cursor option" where
  "catalog_page rank keep cursor limit index =
     (let rows = take (limit + 1) (linorder_class.sort_key (place rank \<circ> cursor_of)
                   (filter (\<lambda>row. keep row \<and> below_cursor rank cursor row) (final_rows index)))
      in if limit < length rows then let rows = take limit rows in (rows, Some (cursor_of (rows ! (limit - 1))))
         else (rows, None))"

definition backfill_page_size :: nat where
  "backfill_page_size = 1000"

section \<open>The passes\<close>

record pass_progress =
  bf_scanned :: nat
  bf_rewritten :: nat
  bf_unreadable :: nat
  bf_unparsable :: nat

definition no_progress :: pass_progress where
  "no_progress = \<lparr>bf_scanned = 0, bf_rewritten = 0, bf_unreadable = 0, bf_unparsable = 0\<rparr>"

definition is_complete :: "pass_progress \<Rightarrow> bool" where
  "is_complete p \<longleftrightarrow> bf_unreadable p = 0"

definition unreadable_row :: "pass_progress \<Rightarrow> pass_progress" where
  "unreadable_row p = p\<lparr>bf_unreadable := bf_unreadable p + 1\<rparr>"

definition unparsable_row :: "pass_progress \<Rightarrow> pass_progress" where
  "unparsable_row p = p\<lparr>bf_unparsable := bf_unparsable p + 1\<rparr>"

definition page_scanned :: "nat \<Rightarrow> nat \<Rightarrow> pass_progress \<Rightarrow> pass_progress" where
  "page_scanned rows changed p = p\<lparr>bf_scanned := bf_scanned p + rows, bf_rewritten := bf_rewritten p + changed\<rparr>"

text \<open>The played time of the metadata is in seconds, that of a row in nanoseconds.\<close>

definition rewritten :: "index_row \<Rightarrow> metadata \<Rightarrow> index_row option" where
  "rewritten row md =
     (let rule = (case md_rule md of Some r \<Rightarrow> Some r | None \<Rightarrow> rw_rule row);
          played_at = (case md_played_at md of Some t \<Rightarrow> Some (t * 1000000000) | None \<Rightarrow> rw_played_at row)
      in if rule = rw_rule row \<and> played_at = rw_played_at row then None
         else Some (row\<lparr>rw_rule := rule, rw_played_at := played_at\<rparr>))"

text \<open>
  The outside during one page: \<open>bv_added\<close> are the rows indexed since the last one, \<open>bv_page\<close> says that the query is answered,
  \<open>bv_works\<close> that the read of a location works, \<open>bv_order\<close> is the order in which that many reads complete, and the
  lag samples are those taken for a row of the page.
\<close>

record backfill_env =
  bv_added :: "index_row list"
  bv_page :: bool
  bv_works :: "pack_location \<Rightarrow> bool"
  bv_order :: "nat \<Rightarrow> nat list"
  bv_insert :: outcome
  bv_adopted :: bool
  bv_now :: int
  bv_sent :: "player_game list \<Rightarrow> outcome"
  bv_lags :: "nat \<Rightarrow> i64 list"
  bv_broker :: "nat \<Rightarrow> nat \<Rightarrow> kafka_record list \<Rightarrow> outcome"

definition read_location :: "libs \<Rightarrow> backfill_env \<Rightarrow> pack_store \<Rightarrow> pack_location \<Rightarrow> pack_error + u8 list" where
  "read_location lb env store location =
     (if bv_works env location then read (lb_bulk lb) store location else Inl Object_Error)"

type_synonym page_step =
  "backfill_env \<Rightarrow> index_row list \<Rightarrow> pass_progress \<Rightarrow> world \<Rightarrow> (fault + pass_progress) option \<times> world"

text \<open>Rewriting metadata: one page.\<close>

definition metadata_row :: "libs \<Rightarrow> backfill_env \<Rightarrow> pack_store \<Rightarrow> index_row \<Rightarrow> pass_progress \<times> index_row list \<Rightarrow> pass_progress \<times> index_row list" where
  "metadata_row lb env store row acc =
     (let (p, batch) = acc
      in case read_location lb env store (rw_storage row) of
           Inl _ \<Rightarrow> (unreadable_row p, batch)
         | Inr raw \<Rightarrow>
             (case metadata_of_raw lb raw of
                Inl _ \<Rightarrow> (unparsable_row p, batch)
              | Inr md \<Rightarrow> (p, case rewritten row md of Some fresh \<Rightarrow> batch @ [fresh] | None \<Rightarrow> batch)))"

definition metadata_page :: "libs \<Rightarrow> page_step" where
  "metadata_page lb env rows p wd =
     (let (p, batch) = fold (metadata_row lb env (wd_store wd)) rows (p, []);
          p = page_scanned (length rows) (length batch) p;
          (r, index) = insert_batch (bv_insert env) batch (wd_index wd)
      in (Some (case r of Inl _ \<Rightarrow> Inl (Bail ''insert_batch'') | Inr _ \<Rightarrow> Inr p), wd\<lparr>wd_index := index\<rparr>))"

text \<open>Claiming games: one page, in the order the reads complete.\<close>

definition claim_game_row ::
  "libs \<Rightarrow> backfill_env \<Rightarrow> pack_store \<Rightarrow> index_row list \<Rightarrow> nat \<Rightarrow> pass_progress \<times> (string \<times> uuid \<times> string) list \<Rightarrow>
   pass_progress \<times> (string \<times> uuid \<times> string) list" where
  "claim_game_row lb env store rows i acc =
     (let (p, claims) = acc; row = rows ! i
      in case read_location lb env store (rw_storage row) of
           Inl _ \<Rightarrow> (unreadable_row p, claims)
         | Inr raw \<Rightarrow>
             (case metadata_of_raw lb raw of
                Inl _ \<Rightarrow> (unparsable_row p, claims)
              | Inr md \<Rightarrow>
                  (case md_majsoul_uuid md of
                     None \<Rightarrow> (unparsable_row p, claims)
                   | Some uuid \<Rightarrow>
                       let key = game_scope_key uuid
                       in (p, if key \<in> fst ` set claims then claims else claims @ [(key, rw_id row, rw_sha256 row)]))))"

definition claims_page :: "libs \<Rightarrow> page_step" where
  "claims_page lb env rows p wd =
     (let (p, claims) = fold (claim_game_row lb env (wd_store wd) rows) (bv_order env (length rows)) (p, []);
          p = page_scanned (length rows) (length claims) p
      in if claims \<noteq> [] \<and> \<not> bv_adopted env then (Some (Inl (Bail ''adopt_game_claims'')), wd)
         else (Some (Inr p), wd\<lparr>wd_claims := snd (adopt_game_claims (lb_digest lb) (bv_now env) claims (wd_claims wd))\<rparr>))"

text \<open>Scoring: one page. A panic of the statistics ends the task.\<close>

definition score_one ::
  "libs \<Rightarrow> backfill_env \<Rightarrow> pack_store \<Rightarrow> index_row list \<Rightarrow> pass_progress \<times> player_game list \<Rightarrow> nat \<Rightarrow> (pass_progress \<times> player_game list) result" where
  "score_one lb env store rows acc i =
     (let (p, games) = acc; row = rows ! i
      in case read_location lb env store (rw_storage row) of
           Inl _ \<Rightarrow> Inr (unreadable_row p, games)
         | Inr raw \<Rightarrow>
             (case events_of_raw lb raw of
                Inl _ \<Rightarrow> Inr (unparsable_row p, games)
              | Inr evs \<Rightarrow>
                  (case replay evs of
                     Inl (Panicked m) \<Rightarrow> Inl (Panicked m)
                   | Inl (Bail m) \<Rightarrow> Inr (unparsable_row p, games)
                   | Inr None \<Rightarrow> Inr (unparsable_row p, games)
                   | Inr (Some scored) \<Rightarrow> Inr (p, games @ player_games_of row scored))))"

definition score_page :: "libs \<Rightarrow> page_step" where
  "score_page lb env rows p wd =
     (case try_fold (score_one lb env (wd_store wd) rows) (p, []) (bv_order env (length rows)) of
        Inl f \<Rightarrow> (Some (Inl f), wd)
      | Inr (p, games) \<Rightarrow>
          let p = page_scanned (length rows) (length games) p;
              (r, table) = insert_player_games (lb_month_of lb) (bv_sent env) games (wd_games wd)
          in (Some (case r of Inl _ \<Rightarrow> Inl (Bail ''insert_player_games'') | Inr _ \<Rightarrow> Inr p), wd\<lparr>wd_games := table\<rparr>))"

text \<open>
  Converting again: one row, waiting for the queue before it is produced (\<open>None\<close> while it waits). The conversion runs in a task
  of its own, whose panic comes back as an error.
\<close>

definition reconvert_row ::
  "libs \<Rightarrow> codec \<Rightarrow> kafka \<Rightarrow> backfill_env \<Rightarrow> pack_store \<Rightarrow> index_row list \<Rightarrow> nat \<Rightarrow> pass_progress \<Rightarrow> topic \<Rightarrow>
   (fault + pass_progress) option \<times> topic" where
  "reconvert_row lb cd kafka env store rows i p topic =
     (let row = rows ! i
      in case rw_majsoul_pb row of
           None \<Rightarrow> (Some (Inr p), topic)
         | Some location \<Rightarrow>
             (case (read_location lb env store (rw_storage row),
                    read_location lb env store (in_pack location (pl_pack_key (rw_storage row)))) of
                (Inr stored, Inr pb) \<Rightarrow>
                  (case stored_header (lb_from_str lb) (lb_from_str_vec lb) stored of
                     None \<Rightarrow> (Some (Inr (unparsable_row p)), topic)
                   | Some (uuid, metadata) \<Rightarrow>
                       (case reconverted lb cd pb metadata stored uuid of
                          Inl f \<Rightarrow> (Some (Inl (Bail ''join'')), topic)
                        | Inr (Inl _) \<Rightarrow> (Some (Inr (unparsable_row p)), topic)
                        | Inr (Inr fresh) \<Rightarrow>
                            (case yield_to_packing (max_lag kafka) (bv_lags env i) False of
                               None \<Rightarrow> (None, topic)
                             | Some _ \<Rightarrow>
                                 (case reindex_one lb kafka (bv_broker env i) row fresh (Some pb) topic of
                                    (Inl _, topic) \<Rightarrow> (Some (Inl (Bail ''reindex_one'')), topic)
                                  | (Inr _, topic) \<Rightarrow> (Some (Inr (p\<lparr>bf_rewritten := bf_rewritten p + 1\<rparr>)), topic)))))
              | _ \<Rightarrow> (Some (Inr (unreadable_row p)), topic)))"

fun reconvert_rows ::
  "libs \<Rightarrow> codec \<Rightarrow> kafka \<Rightarrow> backfill_env \<Rightarrow> pack_store \<Rightarrow> index_row list \<Rightarrow> nat list \<Rightarrow> pass_progress \<Rightarrow> topic \<Rightarrow>
   (fault + pass_progress) option \<times> topic" where
  "reconvert_rows lb cd kafka env store rows [] p topic = (Some (Inr p), topic)"
| "reconvert_rows lb cd kafka env store rows (i # is) p topic =
     (case reconvert_row lb cd kafka env store rows i p topic of
        (Some (Inr p), topic) \<Rightarrow> reconvert_rows lb cd kafka env store rows is p topic
      | (r, topic) \<Rightarrow> (r, topic))"

definition reconvert_page :: "libs \<Rightarrow> codec \<Rightarrow> kafka \<Rightarrow> page_step" where
  "reconvert_page lb cd kafka env rows p wd =
     (let (r, topic) = reconvert_rows lb cd kafka env (wd_store wd) rows (bv_order env (length rows)) p (wd_topic wd)
      in (map_option (map_sum (\<lambda>f. f) (page_scanned (length rows) 0)) r, wd\<lparr>wd_topic := topic\<rparr>))"

text \<open>The loop the four passes share; \<open>None\<close> when it is still under way after the pages given.\<close>

fun walk_pages ::
  "page_step \<Rightarrow> (uuid \<Rightarrow> int) \<Rightarrow> (index_row \<Rightarrow> bool) \<Rightarrow> backfill_env list \<Rightarrow> row_cursor option \<Rightarrow> pass_progress \<Rightarrow> world \<Rightarrow>
   (fault + pass_progress) option \<times> world" where
  "walk_pages step rank keep [] cursor p wd = (None, wd)"
| "walk_pages step rank keep (env # envs) cursor p wd =
     (let wd = wd\<lparr>wd_index := wd_index wd @ bv_added env\<rparr>
      in if \<not> bv_page env then (Some (Inl (Bail ''scan'')), wd)
         else let (rows, next) = catalog_page rank keep cursor backfill_page_size (wd_index wd)
              in case step env rows p wd of
                   (Some (Inr p), wd) \<Rightarrow>
                     (case next of
                        None \<Rightarrow> (Some (Inr p), wd)
                      | Some c \<Rightarrow> walk_pages step rank keep envs (Some c) p wd)
                 | (r, wd) \<Rightarrow> (r, wd))"

definition scan_metadata :: "libs \<Rightarrow> (uuid \<Rightarrow> int) \<Rightarrow> backfill_env list \<Rightarrow> world \<Rightarrow> (fault + pass_progress) option \<times> world" where
  "scan_metadata lb rank envs = walk_pages (metadata_page lb) rank (\<lambda>_. True) envs None no_progress"

definition scan_game_claims :: "libs \<Rightarrow> (uuid \<Rightarrow> int) \<Rightarrow> backfill_env list \<Rightarrow> world \<Rightarrow> (fault + pass_progress) option \<times> world" where
  "scan_game_claims lb rank envs = walk_pages (claims_page lb) rank (\<lambda>_. True) envs None no_progress"

definition score :: "libs \<Rightarrow> (uuid \<Rightarrow> int) \<Rightarrow> backfill_env list \<Rightarrow> world \<Rightarrow> (fault + pass_progress) option \<times> world" where
  "score lb rank envs = walk_pages (score_page lb) rank (\<lambda>_. True) envs None no_progress"

definition reconvert ::
  "libs \<Rightarrow> codec \<Rightarrow> kafka \<Rightarrow> (uuid \<Rightarrow> int) \<Rightarrow> backfill_env list \<Rightarrow> world \<Rightarrow> (fault + pass_progress) option \<times> world" where
  "reconvert lb cd kafka rank envs =
     walk_pages (reconvert_page lb cd kafka) rank (\<lambda>row. rw_majsoul_pb row \<noteq> None) envs None no_progress"

section \<open>Running a pass once\<close>

text \<open>How a pass ends, each with the line it reports; a task that died reports nothing. The table of finished passes is a set.\<close>

datatype pass_end =
    Marker_Unread | Was_Marked | Pass_Running | Pass_Died | Pass_Failed | Pass_Incomplete pass_progress
  | Marker_Unwritten pass_progress | Pass_Finished pass_progress

record marker_env =
  mk_read :: bool
  mk_written :: outcome

definition one_shot ::
  "(pass_progress \<Rightarrow> bool) \<Rightarrow> string \<Rightarrow> (world \<Rightarrow> (fault + pass_progress) option \<times> world) \<Rightarrow> marker_env \<Rightarrow> world \<Rightarrow> string set \<Rightarrow>
   pass_end \<times> world \<times> string set" where
  "one_shot complete name run env wd marked =
     (if \<not> mk_read env then (Marker_Unread, wd, marked)
      else if name \<in> marked then (Was_Marked, wd, marked)
      else case run wd of
             (None, wd) \<Rightarrow> (Pass_Running, wd, marked)
           | (Some (Inl (Panicked _)), wd) \<Rightarrow> (Pass_Died, wd, marked)
           | (Some (Inl (Bail _)), wd) \<Rightarrow> (Pass_Failed, wd, marked)
           | (Some (Inr p), wd) \<Rightarrow>
               if \<not> complete p then (Pass_Incomplete p, wd, marked)
               else (if mk_written env = Done then Pass_Finished p else Marker_Unwritten p, wd,
                     if took_effect (mk_written env) then Set.insert name marked else marked))"

definition rewrite_record_metadata ::
  "libs \<Rightarrow> (uuid \<Rightarrow> int) \<Rightarrow> backfill_env list \<Rightarrow> marker_env \<Rightarrow> world \<Rightarrow> string set \<Rightarrow> pass_end \<times> world \<times> string set" where
  "rewrite_record_metadata lb rank envs = one_shot is_complete ''records_rule_played_at'' (scan_metadata lb rank envs)"

definition write_game_scoped_claims ::
  "libs \<Rightarrow> (uuid \<Rightarrow> int) \<Rightarrow> backfill_env list \<Rightarrow> marker_env \<Rightarrow> world \<Rightarrow> string set \<Rightarrow> pass_end \<times> world \<times> string set" where
  "write_game_scoped_claims lb rank envs = one_shot is_complete ''game_scoped_claims'' (scan_game_claims lb rank envs)"

definition score_indexed_records ::
  "libs \<Rightarrow> (uuid \<Rightarrow> int) \<Rightarrow> backfill_env list \<Rightarrow> marker_env \<Rightarrow> world \<Rightarrow> string set \<Rightarrow> pass_end \<times> world \<times> string set" where
  "score_indexed_records lb rank envs = one_shot is_complete ''player_game_stats_v2'' (score lb rank envs)"

definition reconvert_stored_records ::
  "libs \<Rightarrow> codec \<Rightarrow> kafka \<Rightarrow> (uuid \<Rightarrow> int) \<Rightarrow> backfill_env list \<Rightarrow> marker_env \<Rightarrow> world \<Rightarrow> string set \<Rightarrow> pass_end \<times> world \<times> string set" where
  "reconvert_stored_records lb cd kafka rank envs =
     one_shot (\<lambda>_. True) ''reconvert_stored_pb_v1'' (reconvert lb cd kafka rank envs)"

section \<open>What FINAL shows\<close>

lemma final_rows_subset: "set (final_rows rows) \<subseteq> set rows"
  by (induction rows) auto

lemma final_rows_length: "length (final_rows rows) \<le> length rows"
  by (induction rows) auto

lemma final_rows_keys [simp]: "row_key ` set (final_rows rows) = row_key ` set rows"
  by (induction rows) (auto simp: image_iff)

lemma final_rows_distinct: "distinct (map row_key (final_rows rows))"
proof (induction rows)
  case (Cons row rows)
  then show ?case using final_rows_keys [of rows] by auto
qed simp

lemma final_rows_append:
  "set (final_rows (rows @ later)) = {row \<in> set (final_rows rows). row_key row \<notin> row_key ` set later} \<union> set (final_rows later)"
  by (induction rows) (auto simp: image_Un)

lemma final_rows_eq: "row \<in> set (final_rows rows) \<Longrightarrow> row' \<in> set (final_rows rows) \<Longrightarrow> row_key row = row_key row' \<Longrightarrow> row = row'"
  using final_rows_distinct [of rows] by (auto simp: distinct_map inj_on_def)

section \<open>A page misses nothing\<close>

text \<open>Ids name rows, as random ids do: no two rows with the same id differ in their key. The index tells ids apart.\<close>

definition one_key_per_id :: "index_row set \<Rightarrow> bool" where
  "one_key_per_id rows \<longleftrightarrow> (\<forall>r \<in> rows. \<forall>r' \<in> rows. rw_id r = rw_id r' \<longrightarrow> row_key r = row_key r')"

lemma same_place:
  assumes "one_key_per_id (set index)" "inj rank" "r \<in> set index" "r' \<in> set index"
    and "place rank (cursor_of r) = place rank (cursor_of r')"
  shows "row_key r = row_key r'"
proof -
  have "rank (rw_id r) = rank (rw_id r')" using assms(5) by (simp add: place_def cursor_of_def)
  then have "rw_id r = rw_id r'" by (rule injD [OF assms(2)])
  then show ?thesis using assms(1,3,4) unfolding one_key_per_id_def by blast
qed

lemma page_complete:
  assumes page: "catalog_page rank keep cursor limit index = (rows, next)" and "0 < limit" "inj rank" "one_key_per_id (set index)"
    and row: "row \<in> set (final_rows index)" "keep row" "below_cursor rank cursor row"
    and passed: "next = None \<or> \<not> below_cursor rank next row"
  shows "row \<in> set rows"
proof -
  define pool where "pool = linorder_class.sort_key (place rank \<circ> cursor_of) (filter (\<lambda>row. keep row \<and> below_cursor rank cursor row) (final_rows index))"
  have mem: "row \<in> set pool" using row by (simp add: pool_def)
  have ordered: "sorted (map (place rank \<circ> cursor_of) pool)" by (simp add: pool_def)
  have pool_index: "set pool \<subseteq> set (final_rows index)" by (auto simp: pool_def)
  show ?thesis
  proof (cases "limit < length pool")
    case False
    then show ?thesis using page mem by (auto simp: catalog_page_def pool_def [symmetric] Let_def)
  next
    case True
    then have "limit < length (take (limit + 1) pool)" "take limit (take (limit + 1) pool) = take limit pool" by simp_all
    then have "rows = take limit pool \<and> next = Some (cursor_of (take limit pool ! (limit - 1)))"
      using page unfolding catalog_page_def pool_def [symmetric] Let_def by auto
    then have rows: "rows = take limit pool" and next_at: "next = Some (cursor_of (pool ! (limit - 1)))"
      using \<open>0 < limit\<close> by simp_all
    obtain i where i: "i < length pool" "pool ! i = row" using mem by (metis in_set_conv_nth)
    show ?thesis
    proof (cases "i < limit")
      case True
      with i rows show ?thesis by (metis in_set_conv_nth length_take min_less_iff_conj nth_take)
    next
      case False
      let ?last = "pool ! (limit - 1)"
      have "place rank (cursor_of ?last) \<le> place rank (cursor_of row)"
        using sorted_nth_mono [OF ordered, of "limit - 1" i] False i \<open>0 < limit\<close> \<open>limit < length pool\<close> by simp
      moreover have "place rank (cursor_of row) \<le> place rank (cursor_of ?last)"
        using passed next_at by (auto simp: below_cursor_def not_less)
      ultimately have "place rank (cursor_of row) = place rank (cursor_of ?last)" by (rule order_antisym [rotated])
      moreover have last: "?last \<in> set pool" using \<open>limit < length pool\<close> by simp
      ultimately have "row_key row = row_key ?last"
        using same_place [OF assms(4,3)] pool_index mem final_rows_subset by blast
      then have "row = ?last" using final_rows_eq pool_index mem last by blast
      then show ?thesis using rows \<open>0 < limit\<close> \<open>limit < length pool\<close>
        by (metis One_nat_def Suc_pred in_set_conv_nth length_take lessI min.absorb4 nth_take)
    qed
  qed
qed

lemma page_rows:
  "catalog_page rank keep cursor limit index = (rows, next) \<Longrightarrow> row \<in> set rows \<Longrightarrow> row \<in> set (final_rows index) \<and> keep row \<and> below_cursor rank cursor row"
  by (auto simp: catalog_page_def Let_def split: if_splits dest!: in_set_takeD)

section \<open>A pass beside live ingest\<close>

lemma one_key_per_id_keys:
  assumes "row_key ` X \<subseteq> row_key ` Y" and "one_key_per_id Y"
  shows "one_key_per_id X"
  unfolding one_key_per_id_def
proof (intro ballI impI)
  fix r r' assume r: "r \<in> X" "r' \<in> X" "rw_id r = rw_id r'"
  then obtain q q' where q: "q \<in> Y" "row_key q = row_key r" "q' \<in> Y" "row_key q' = row_key r'" using assms(1) by (metis image_iff subsetD)
  then have "rw_id q = rw_id q'" using r(3) by (simp add: row_key_def)
  then show "row_key r = row_key r'" using assms(2) q unfolding one_key_per_id_def by metis
qed

definition as_stored :: "index_row \<Rightarrow> bool" where
  "as_stored row \<longleftrightarrow> stored_row row = row"

definition in_some_order :: "backfill_env \<Rightarrow> bool" where
  "in_some_order env \<longleftrightarrow> (\<forall>n. set (bv_order env n) = {..<n})"

definition added_rows :: "backfill_env list \<Rightarrow> index_row set" where
  "added_rows envs = (\<Union>env \<in> set envs. set (bv_added env))"

text \<open>
  What a pass does to one page: it adds only rows under keys of the page, and a page it gets through without an unreadable row
  is settled, by what it wrote or as it was.
\<close>

locale page_pass =
  fixes step :: page_step and settled :: "world \<Rightarrow> index_row \<Rightarrow> bool"
  assumes index_apart: "settled (wd\<lparr>wd_index := index\<rparr>) row = settled wd row"
    and stays_settled: "step env rows p wd = (r, wd') \<Longrightarrow> settled wd row \<Longrightarrow> settled wd' row"
    and adds: "step env rows p wd = (r, wd') \<Longrightarrow> list_all as_stored rows \<Longrightarrow>
      \<exists>batch. wd_index wd' = wd_index wd @ batch \<and> (\<forall>b \<in> set batch. as_stored b \<and> settled wd' b \<and> row_key b \<in> row_key ` set rows)"
    and settles: "step env rows p wd = (Some (Inr p'), wd') \<Longrightarrow> list_all as_stored rows \<Longrightarrow> in_some_order env \<Longrightarrow> is_complete p' \<Longrightarrow> row \<in> set rows \<Longrightarrow>
      settled wd' row \<or> row_key row \<in> row_key ` set (drop (length (wd_index wd)) (wd_index wd'))"
    and complete_before: "step env rows p wd = (Some (Inr p'), wd') \<Longrightarrow> is_complete p' \<Longrightarrow> is_complete p"
begin

lemma walk_complete_before:
  "walk_pages step rank keep envs cursor p wd = (Some (Inr p'), wd') \<Longrightarrow> is_complete p' \<Longrightarrow> is_complete p"
proof (induction envs arbitrary: cursor p wd)
  case (Cons env envs)
  let ?wd = "wd\<lparr>wd_index := wd_index wd @ bv_added env\<rparr>"
  obtain rows c where page: "catalog_page rank keep cursor backfill_page_size (wd_index ?wd) = (rows, c)" by fastforce
  obtain r wd1 where r: "step env rows p ?wd = (r, wd1)" by fastforce
  from Cons.prems(1) page r obtain p1 where p1: "r = Some (Inr p1)"
    by (cases r) (auto simp: Let_def split: if_splits sum.splits)
  then have "is_complete p1" using Cons page r by (auto simp: Let_def split: if_splits option.splits)
  with r p1 complete_before show ?case by blast
qed simp

lemma page_settles:
  assumes page: "catalog_page rank (\<lambda>_. True) cursor backfill_page_size (wd_index wd) = (rows, c)"
    and run: "step env rows p wd = (Some (Inr p'), wd')" "is_complete p'" "in_some_order env"
    and index: "list_all as_stored (wd_index wd)" "one_key_per_id (set (wd_index wd))" "inj rank"
    and before: "\<forall>row \<in> set (final_rows (wd_index wd)). below_cursor rank cursor row \<or> row \<in> B \<or> settled wd row"
  shows "\<forall>row \<in> set (final_rows (wd_index wd')). (c \<noteq> None \<and> below_cursor rank c row) \<or> row \<in> B \<or> settled wd' row"
    and "list_all as_stored (wd_index wd')" "row_key ` set (wd_index wd') = row_key ` set (wd_index wd)"
proof -
  have rows: "set rows \<subseteq> set (wd_index wd)" using page_rows [OF page] final_rows_subset by blast
  then have stored: "list_all as_stored rows" using index(1) by (auto simp: list_all_iff)
  then obtain batch where batch: "wd_index wd' = wd_index wd @ batch"
      "\<forall>b \<in> set batch. as_stored b \<and> settled wd' b \<and> row_key b \<in> row_key ` set rows"
    using adds [OF run(1)] stored by blast
  show "list_all as_stored (wd_index wd')" using index(1) batch by (auto simp: list_all_iff)
  show "row_key ` set (wd_index wd') = row_key ` set (wd_index wd)" 
  proof -
    have "row_key ` set batch \<subseteq> row_key ` set (wd_index wd)" using rows batch(2) by blast
    then show ?thesis by (simp add: batch(1) image_Un Un_absorb2)
  qed
  show "\<forall>row \<in> set (final_rows (wd_index wd')). (c \<noteq> None \<and> below_cursor rank c row) \<or> row \<in> B \<or> settled wd' row"
  proof
    fix row assume "row \<in> set (final_rows (wd_index wd'))"
    then consider (fresh) "row \<in> set batch" | (old) "row \<in> set (final_rows (wd_index wd))" "row_key row \<notin> row_key ` set batch"
      unfolding batch(1) final_rows_append using final_rows_subset by blast
    then show "(c \<noteq> None \<and> below_cursor rank c row) \<or> row \<in> B \<or> settled wd' row"
    proof cases
      case fresh
      with batch(2) show ?thesis by blast
    next
      case old
      have "settled wd' row" if "row \<in> set rows"
        using settles [OF run(1) stored run(3,2) that] old(2) by (simp add: batch(1))
      moreover have "row \<in> set rows" if "below_cursor rank cursor row" "\<not> (c \<noteq> None \<and> below_cursor rank c row)"
      proof (rule page_complete [OF page _ index(3,2) old(1) TrueI that(1)])
        show "0 < backfill_page_size" by (simp add: backfill_page_size_def)
        show "c = None \<or> \<not> below_cursor rank c row" using that(2) by blast
      qed
      moreover have "row \<in> B \<or> settled wd' row" if "\<not> below_cursor rank cursor row"
        using before old(1) that stays_settled [OF run(1)] by blast
      ultimately show ?thesis by blast
    qed
  qed
qed

lemma walk_settles:
  assumes "walk_pages step rank (\<lambda>_. True) envs cursor p wd = (Some (Inr p'), wd')" and "is_complete p'" and "inj rank"
    and "\<forall>env \<in> set envs. in_some_order env \<and> list_all as_stored (bv_added env)" and "list_all as_stored (wd_index wd)"
    and "one_key_per_id (set (wd_index wd) \<union> added_rows envs)"
    and "\<forall>row \<in> set (final_rows (wd_index wd)). below_cursor rank cursor row \<or> row \<in> B \<or> settled wd row"
  shows "\<forall>row \<in> set (final_rows (wd_index wd')). row \<in> B \<or> row \<in> added_rows envs \<or> settled wd' row"
  using assms
proof (induction envs arbitrary: cursor p wd B)
  case (Cons env envs)
  let ?wd = "wd\<lparr>wd_index := wd_index wd @ bv_added env\<rparr>" and ?B = "B \<union> set (bv_added env)"
  obtain rows c where page: "catalog_page rank (\<lambda>_. True) cursor backfill_page_size (wd_index ?wd) = (rows, c)" by fastforce
  obtain r wd1 where r: "step env rows p ?wd = (r, wd1)" by fastforce
  from Cons.prems(1) page r obtain p1 where p1: "r = Some (Inr p1)"
    by (cases r) (auto simp: Let_def split: if_splits sum.splits)
  have rest: "case c of None \<Rightarrow> p1 = p' \<and> wd1 = wd' | Some at \<Rightarrow> walk_pages step rank (\<lambda>_. True) envs (Some at) p1 wd1 = (Some (Inr p'), wd')"
    using Cons.prems(1) page r p1 by (auto simp: Let_def split: if_splits option.splits)
  then have "is_complete p1" using walk_complete_before Cons.prems(2) by (auto split: option.splits)
  moreover have "list_all as_stored (wd_index ?wd)" using Cons.prems(4,5) by simp
  moreover have "one_key_per_id (set (wd_index ?wd))"
    by (rule one_key_per_id_keys [OF _ Cons.prems(6)]) (auto simp: added_rows_def)
  moreover have "\<forall>row \<in> set (final_rows (wd_index ?wd)). below_cursor rank cursor row \<or> row \<in> ?B \<or> settled ?wd row"
    using Cons.prems(7) final_rows_subset [of "bv_added env"] by (auto simp: final_rows_append index_apart)
  ultimately have settled1: "\<forall>row \<in> set (final_rows (wd_index wd1)). (c \<noteq> None \<and> below_cursor rank c row) \<or> row \<in> ?B \<or> settled wd1 row"
    and stored1: "list_all as_stored (wd_index wd1)" and keys1: "row_key ` set (wd_index wd1) = row_key ` set (wd_index ?wd)"
    using page_settles [OF page r [unfolded p1], of ?B] Cons.prems(3,4) by (simp_all add: list_all_iff)
  show ?case
  proof (cases c)
    case None
    with rest settled1 show ?thesis by (auto simp: added_rows_def)
  next
    case (Some at)
    have "one_key_per_id (set (wd_index wd1) \<union> added_rows envs)"
      by (rule one_key_per_id_keys [OF _ Cons.prems(6)]) (auto simp: image_Un keys1 added_rows_def)
    then have "\<forall>row \<in> set (final_rows (wd_index wd')). row \<in> ?B \<or> row \<in> added_rows envs \<or> settled wd' row"
      using Cons.IH [of "Some at" p1 wd1 ?B] rest Some Cons.prems(2-4) stored1 settled1 by simp
    then show ?thesis by (auto simp: added_rows_def)
  qed
qed simp

end

section \<open>The three passes that check themselves\<close>

abbreviation stored_bytes :: "libs \<Rightarrow> world \<Rightarrow> index_row \<Rightarrow> u8 list \<Rightarrow> bool" where
  "stored_bytes lb wd row raw \<equiv> read (lb_bulk lb) (wd_store wd) (rw_storage row) = Inr raw"

lemma read_location_Inr: "read_location lb env store location = Inr raw \<Longrightarrow> read (lb_bulk lb) store location = Inr raw"
  by (simp add: read_location_def split: if_splits)

lemma progress_simps [simp]:
  "bf_unreadable (unreadable_row p) = bf_unreadable p + 1" "bf_unreadable (unparsable_row p) = bf_unreadable p"
  "bf_unreadable (page_scanned n m p) = bf_unreadable p"
  by (simp_all add: unreadable_row_def unparsable_row_def page_scanned_def)

text \<open>The row agrees with its bytes: another rewrite would leave the row it reads back as.\<close>

definition rewrite_settled :: "index_row \<Rightarrow> metadata \<Rightarrow> bool" where
  "rewrite_settled row md \<longleftrightarrow> (case rewritten row md of None \<Rightarrow> True | Some fresh \<Rightarrow> stored_row fresh = row)"

definition metadata_settled :: "libs \<Rightarrow> world \<Rightarrow> index_row \<Rightarrow> bool" where
  "metadata_settled lb wd row \<longleftrightarrow> (\<exists>raw. stored_bytes lb wd row raw \<and> (\<forall>md. metadata_of_raw lb raw = Inr md \<longrightarrow> rewrite_settled row md))"

lemma pb_from_columns_again [simp]:
  "pb_from_columns offset c r = Some pb \<Longrightarrow> pb_from_columns (pb_offset pb) (pb_compressed_size pb) (pb_raw_size pb) = Some pb"
  "pb_from_columns 0 c r = None"
  by (auto simp: pb_from_columns_def split: if_splits)

definition stored_rule :: "string option \<Rightarrow> string option" where
  "stored_rule rule = (case rule of None \<Rightarrow> None | Some r \<Rightarrow> if r = [] then None else Some r)"

lemma stored_rule_again [simp]: "stored_rule (stored_rule rule) = stored_rule rule"
  by (simp add: stored_rule_def split: option.splits)

lemma stored_row_rule [simp]: "rw_rule (stored_row row) = stored_rule (rw_rule row)"
  by (simp add: stored_row_def stored_rule_def)

lemma stored_row_again [simp]: "stored_row (stored_row row) = stored_row row"
  by (cases row) (auto simp: stored_row_def option.map_comp comp_def split: option.splits)

lemma stored_rewrite:
  assumes "as_stored row"
  shows "stored_row (row\<lparr>rw_rule := rule, rw_played_at := played\<rparr>) =
     row\<lparr>rw_rule := stored_rule rule, rw_played_at := map_option trunc_millis played\<rparr>"
  using assms by (cases row) (simp add: as_stored_def stored_row_def stored_rule_def)

lemma rewritten_Some:
  assumes "as_stored row" and "rewritten row md = Some fresh"
  shows "stored_row fresh = row\<lparr>rw_rule := stored_rule (case md_rule md of Some r \<Rightarrow> Some r | None \<Rightarrow> rw_rule row),
      rw_played_at := (case md_played_at md of Some t \<Rightarrow> Some (t * 1000000000) | None \<Rightarrow> rw_played_at row)\<rparr>"
proof -
  have whole: "trunc_millis (t * 1000000000) = t * 1000000000" for t by (simp add: trunc_millis_def mod_mult_left_eq)
  have played: "map_option trunc_millis (rw_played_at row) = rw_played_at row"
    using assms(1) by (cases row) (simp add: as_stored_def stored_row_def)
  have fresh: "fresh = row\<lparr>rw_rule := (case md_rule md of Some r \<Rightarrow> Some r | None \<Rightarrow> rw_rule row),
      rw_played_at := (case md_played_at md of Some t \<Rightarrow> Some (t * 1000000000) | None \<Rightarrow> rw_played_at row)\<rparr>"
    using assms(2) unfolding rewritten_def Let_def by (simp del: option.case split: if_splits)
  have "map_option trunc_millis (case md_played_at md of Some t \<Rightarrow> Some (t * 1000000000) | None \<Rightarrow> rw_played_at row) =
      (case md_played_at md of Some t \<Rightarrow> Some (t * 1000000000) | None \<Rightarrow> rw_played_at row)"
    using whole played by (simp split: option.splits)
  then show ?thesis unfolding fresh stored_rewrite [OF assms(1)] by simp
qed

lemma rewritten_again:
  assumes "as_stored row" and "rewritten row md = Some fresh"
  shows "rewrite_settled (stored_row fresh) md" "row_key (stored_row fresh) = row_key row" "rw_storage (stored_row fresh) = rw_storage row"
    "as_stored (stored_row fresh)"
proof -
  note fresh = rewritten_Some [OF assms]
  show stored: "as_stored (stored_row fresh)" by (simp add: as_stored_def)
  show "row_key (stored_row fresh) = row_key row" "rw_storage (stored_row fresh) = rw_storage row"
    unfolding fresh by (simp_all add: row_key_def)
  have "stored_row again = stored_row fresh" if "rewritten (stored_row fresh) md = Some again" for again
    unfolding rewritten_Some [OF stored that] unfolding fresh by (cases row) (simp split: option.splits)
  then show "rewrite_settled (stored_row fresh) md" by (auto simp: rewrite_settled_def split: option.splits)
qed

text \<open>Only a row whose bytes cannot be read is counted as unreadable.\<close>

definition unread :: "libs \<Rightarrow> backfill_env \<Rightarrow> pack_store \<Rightarrow> index_row \<Rightarrow> bool" where
  "unread lb env store row \<longleftrightarrow> (\<exists>e. read_location lb env store (rw_storage row) = Inl e)"

lemma unread_iff: "\<not> unread lb env store row \<longleftrightarrow> (\<exists>raw. read_location lb env store (rw_storage row) = Inr raw)"
  by (cases "read_location lb env store (rw_storage row)") (auto simp: unread_def)

definition fresh_row :: "libs \<Rightarrow> backfill_env \<Rightarrow> pack_store \<Rightarrow> index_row \<Rightarrow> index_row option" where
  "fresh_row lb env store row =
     (case read_location lb env store (rw_storage row) of
        Inl _ \<Rightarrow> None | Inr raw \<Rightarrow> (case metadata_of_raw lb raw of Inl _ \<Rightarrow> None | Inr md \<Rightarrow> rewritten row md))"

lemma metadata_fold:
  "fold (metadata_row lb env store) rows (p, batch) = (p', batch') \<Longrightarrow>
     batch' = batch @ List.map_filter (fresh_row lb env store) rows \<and>
     bf_unreadable p' = bf_unreadable p + length (filter (unread lb env store) rows)"
proof (induction rows arbitrary: p batch)
  case (Cons row rows)
  obtain p1 batch1 where one: "metadata_row lb env store row (p, batch) = (p1, batch1)" by fastforce
  then have "fold (metadata_row lb env store) rows (p1, batch1) = (p', batch')" using Cons.prems by simp
  from Cons.IH [OF this] one show ?case
    by (auto simp: metadata_row_def fresh_row_def unread_def List.map_filter_simps split: sum.splits option.splits)
qed (simp add: List.map_filter_simps)

lemma metadata_page_unfold:
  assumes "metadata_page lb env rows p wd = (r, wd')"
  defines "fresh \<equiv> map stored_row (List.map_filter (fresh_row lb env (wd_store wd)) rows)"
  shows "wd_store wd' = wd_store wd" "wd_index wd' = wd_index wd \<or> wd_index wd' = wd_index wd @ fresh"
    "r = Some (Inr p') \<Longrightarrow> bf_unreadable p' = bf_unreadable p + length (filter (unread lb env (wd_store wd)) rows) \<and> wd_index wd' = wd_index wd @ fresh"
proof -
  obtain p1 batch where f: "fold (metadata_row lb env (wd_store wd)) rows (p, []) = (p1, batch)" by fastforce
  obtain q index where q: "insert_batch (bv_insert env) batch (wd_index wd) = (q, index)" by fastforce
  have run: "r = Some (case q of Inl _ \<Rightarrow> Inl (Bail ''insert_batch'') | Inr _ \<Rightarrow> Inr (page_scanned (length rows) (length batch) p1))"
      "wd' = wd\<lparr>wd_index := index\<rparr>"
    using assms(1) by (simp_all add: metadata_page_def f q Let_def)
  show "wd_store wd' = wd_store wd" by (simp add: run(2))
  show "wd_index wd' = wd_index wd \<or> wd_index wd' = wd_index wd @ fresh"
    using metadata_fold [OF f] q by (auto simp: run(2) fresh_def insert_batch_def split: if_splits)
  show "bf_unreadable p' = bf_unreadable p + length (filter (unread lb env (wd_store wd)) rows) \<and> wd_index wd' = wd_index wd @ fresh"
    if "r = Some (Inr p')"
    using that metadata_fold [OF f] q by (auto simp: run fresh_def insert_batch_def split: if_splits sum.splits)
qed

interpretation metadata_pass: page_pass "metadata_page lb" "metadata_settled lb" for lb
proof
  fix wd wd' index row env rows p r p'
  show "metadata_settled lb (wd\<lparr>wd_index := index\<rparr>) row = metadata_settled lb wd row" by (simp add: metadata_settled_def)
  show "metadata_settled lb wd' row" if "metadata_page lb env rows p wd = (r, wd')" "metadata_settled lb wd row"
    using that metadata_page_unfold(1) [OF that(1)] by (simp add: metadata_settled_def)
  show "is_complete p" if "metadata_page lb env rows p wd = (Some (Inr p'), wd')" "is_complete p'"
    using metadata_page_unfold(3) [OF that(1)] that(2) by (simp add: is_complete_def)
  show "\<exists>batch. wd_index wd' = wd_index wd @ batch \<and>
      (\<forall>b \<in> set batch. as_stored b \<and> metadata_settled lb wd' b \<and> row_key b \<in> row_key ` set rows)"
    if page: "metadata_page lb env rows p wd = (r, wd')" and stored: "list_all as_stored rows"
  proof -
    let ?fresh = "map stored_row (List.map_filter (fresh_row lb env (wd_store wd)) rows)"
    have "as_stored b \<and> metadata_settled lb wd' b \<and> row_key b \<in> row_key ` set rows" if "b \<in> set ?fresh" for b
    proof -
      obtain row fresh where row: "row \<in> set rows" "fresh_row lb env (wd_store wd) row = Some fresh" "b = stored_row fresh"
        using \<open>b \<in> set ?fresh\<close> by (auto simp: set_map_filter)
      obtain raw md where md: "read (lb_bulk lb) (wd_store wd) (rw_storage row) = Inr raw" "metadata_of_raw lb raw = Inr md" "rewritten row md = Some fresh"
        using row(2) by (auto simp: fresh_row_def split: sum.splits dest: read_location_Inr)
      note again = rewritten_again [OF _ md(3)]
      have "as_stored row" using stored row(1) by (simp add: list_all_iff)
      then show ?thesis using again row md metadata_page_unfold(1) [OF page] by (auto simp: metadata_settled_def)
    qed
    then show ?thesis using metadata_page_unfold(2) [OF page] by (metis append_Nil2 empty_iff list.set(1))
  qed
  show "metadata_settled lb wd' row \<or> row_key row \<in> row_key ` set (drop (length (wd_index wd)) (wd_index wd'))"
    if page: "metadata_page lb env rows p wd = (Some (Inr p'), wd')" and "list_all as_stored rows" "in_some_order env" "is_complete p'" and row: "row \<in> set rows"
  proof -
    note facts = metadata_page_unfold(1) [OF page] metadata_page_unfold(3) [OF page refl]
    have "\<not> unread lb env (wd_store wd) row" using facts(2) that(4) row by (auto simp: is_complete_def filter_empty_conv)
    then obtain raw where raw: "read_location lb env (wd_store wd) (rw_storage row) = Inr raw" by (auto simp: unread_iff)
    show ?thesis
    proof (cases "fresh_row lb env (wd_store wd) row")
      case None
      then show ?thesis using raw facts(1) read_location_Inr [OF raw]
        by (auto simp: metadata_settled_def rewrite_settled_def fresh_row_def)
    next
      case (Some fresh)
      then have "fresh \<in> set (List.map_filter (fresh_row lb env (wd_store wd)) rows)" using row by (auto simp: set_map_filter)
      then have "stored_row fresh \<in> set (drop (length (wd_index wd)) (wd_index wd'))" using facts(2) by simp
      moreover have "row_key (stored_row fresh) = row_key row"
        using Some rewritten_again(2) [of row] that(2) row by (auto simp: fresh_row_def list_all_iff split: sum.splits)
      ultimately show ?thesis by (metis image_eqI)
    qed
  qed
qed

text \<open>The game of the record has a claim that does not expire.\<close>

definition game_settled :: "libs \<Rightarrow> world \<Rightarrow> index_row \<Rightarrow> bool" where
  "game_settled lb wd row \<longleftrightarrow> (\<exists>raw. stored_bytes lb wd row raw \<and>
     (\<forall>md uuid. metadata_of_raw lb raw = Inr md \<longrightarrow> md_majsoul_uuid md = Some uuid \<longrightarrow>
        (\<exists>v. permanent (lb_digest lb) (game_scope_key uuid) v (wd_claims wd))))"

lemma adopted_permanent:
  "key \<in> fst ` set adopted \<Longrightarrow> \<exists>v. permanent digest key v (snd (adopt_game_claims digest now adopted claims))"
proof (induction adopted arbitrary: claims)
  case (Cons a adopted)
  have split: "snd (adopt_game_claims digest now (a # adopted) claims) = snd (adopt_game_claims digest now adopted (adopt_one digest now a claims))"
    by (simp add: adopt_game_claims_def)
  show ?case
  proof (cases "key = fst a")
    case True
    then have "\<exists>v. permanent digest key v (adopt_one digest now a claims)"
      by (cases a) (auto simp: adopt_one_def permanent_def Let_def split: option.splits)
    then show ?thesis unfolding split using permanent_adopt by blast
  qed (use Cons in \<open>simp add: split\<close>)
qed simp

text \<open>The key a row asks for.\<close>

definition game_key :: "libs \<Rightarrow> backfill_env \<Rightarrow> pack_store \<Rightarrow> index_row \<Rightarrow> string option" where
  "game_key lb env store row =
     (case read_location lb env store (rw_storage row) of
        Inl _ \<Rightarrow> None
      | Inr raw \<Rightarrow> (case metadata_of_raw lb raw of Inl _ \<Rightarrow> None | Inr md \<Rightarrow> map_option game_scope_key (md_majsoul_uuid md)))"

lemma claims_fold:
  "fold (claim_game_row lb env store rows) is (p, claims) = (p', claims') \<Longrightarrow>
     fst ` set claims' = fst ` set claims \<union> {key. \<exists>i \<in> set is. game_key lb env store (rows ! i) = Some key} \<and>
     bf_unreadable p' = bf_unreadable p + length (filter (\<lambda>i. unread lb env store (rows ! i)) is)"
proof (induction "is" arbitrary: p claims)
  case (Cons i "is")
  obtain p1 claims1 where one: "claim_game_row lb env store rows i (p, claims) = (p1, claims1)" by fastforce
  then have "fold (claim_game_row lb env store rows) is (p1, claims1) = (p', claims')" using Cons.prems by simp
  from Cons.IH [OF this] have ih: "fst ` set claims' = fst ` set claims1 \<union> {key. \<exists>i \<in> set is. game_key lb env store (rows ! i) = Some key}"
    "bf_unreadable p' = bf_unreadable p1 + length (filter (\<lambda>i. unread lb env store (rows ! i)) is)" by simp_all
  have "fst ` set claims1 = fst ` set claims \<union> {key. game_key lb env store (rows ! i) = Some key}"
    "bf_unreadable p1 = bf_unreadable p + (if unread lb env store (rows ! i) then 1 else 0)"
    using one by (auto simp: claim_game_row_def game_key_def unread_def Let_def split: sum.splits option.splits if_splits)
  with ih show ?case by auto
qed simp

lemma claims_page_unfold:
  assumes "claims_page lb env rows p wd = (r, wd')"
  shows "wd_store wd' = wd_store wd" "wd_index wd' = wd_index wd"
    "permanent (lb_digest lb) key v (wd_claims wd) \<Longrightarrow> permanent (lb_digest lb) key v (wd_claims wd')"
    "r = Some (Inr p') \<Longrightarrow>
      bf_unreadable p' = bf_unreadable p + length (filter (\<lambda>i. unread lb env (wd_store wd) (rows ! i)) (bv_order env (length rows))) \<and>
      (\<forall>i \<in> set (bv_order env (length rows)). \<forall>key. game_key lb env (wd_store wd) (rows ! i) = Some key \<longrightarrow>
         (\<exists>v. permanent (lb_digest lb) key v (wd_claims wd')))"
proof -
  obtain p1 claims where f: "fold (claim_game_row lb env (wd_store wd) rows) (bv_order env (length rows)) (p, []) = (p1, claims)" by fastforce
  note run = assms [unfolded claims_page_def f Let_def prod.case]
  show "wd_store wd' = wd_store wd" "wd_index wd' = wd_index wd" using run by (auto split: if_splits)
  show "permanent (lb_digest lb) key v (wd_claims wd')" if "permanent (lb_digest lb) key v (wd_claims wd)"
    using run that permanent_adopt by (auto split: if_splits)
  show "bf_unreadable p' = bf_unreadable p + length (filter (\<lambda>i. unread lb env (wd_store wd) (rows ! i)) (bv_order env (length rows))) \<and>
      (\<forall>i \<in> set (bv_order env (length rows)). \<forall>key. game_key lb env (wd_store wd) (rows ! i) = Some key \<longrightarrow>
         (\<exists>v. permanent (lb_digest lb) key v (wd_claims wd')))" if "r = Some (Inr p')"
  proof -
    have "p' = page_scanned (length rows) (length claims) p1"
      and claims': "wd_claims wd' = snd (adopt_game_claims (lb_digest lb) (bv_now env) claims (wd_claims wd))"
      using run that by (auto split: if_splits)
    then have "bf_unreadable p' = bf_unreadable p1" by simp
    moreover have "\<exists>v. permanent (lb_digest lb) key v (wd_claims wd')"
      if "i \<in> set (bv_order env (length rows))" "game_key lb env (wd_store wd) (rows ! i) = Some key" for i key
      unfolding claims' by (rule adopted_permanent) (use claims_fold [OF f] that in auto)
    ultimately show ?thesis using claims_fold [OF f] by auto
  qed
qed

text \<open>In whatever order the reads complete, every row of the page has its turn.\<close>

lemma in_some_orderD: "in_some_order env \<Longrightarrow> row \<in> set rows \<Longrightarrow> \<exists>i \<in> set (bv_order env (length rows)). rows ! i = row"
  by (auto simp: in_some_order_def in_set_conv_nth)

interpretation claims_pass: page_pass "claims_page lb" "game_settled lb" for lb
proof
  fix wd wd' index row env rows p r p'
  show "game_settled lb (wd\<lparr>wd_index := index\<rparr>) row = game_settled lb wd row" by (simp add: game_settled_def)
  show "game_settled lb wd' row" if "claims_page lb env rows p wd = (r, wd')" "game_settled lb wd row"
    using that(2) unfolding game_settled_def claims_page_unfold(1) [OF that(1)] using claims_page_unfold(3) [OF that(1)] by blast
  show "is_complete p" if "claims_page lb env rows p wd = (Some (Inr p'), wd')" "is_complete p'"
    using claims_page_unfold(4) [OF that(1) refl] that(2) by (simp add: is_complete_def)
  show "\<exists>batch. wd_index wd' = wd_index wd @ batch \<and>
      (\<forall>b \<in> set batch. as_stored b \<and> game_settled lb wd' b \<and> row_key b \<in> row_key ` set rows)"
    if "claims_page lb env rows p wd = (r, wd')"
    using claims_page_unfold(2) [OF that] by simp
  show "game_settled lb wd' row \<or> row_key row \<in> row_key ` set (drop (length (wd_index wd)) (wd_index wd'))"
    if page: "claims_page lb env rows p wd = (Some (Inr p'), wd')" and order: "in_some_order env" and whole: "is_complete p'" and row: "row \<in> set rows"
  proof -
    note facts = claims_page_unfold(4) [OF page refl]
    obtain i where i: "i \<in> set (bv_order env (length rows))" "rows ! i = row" using in_some_orderD [OF order row] by blast
    then have "\<not> unread lb env (wd_store wd) row" using facts whole by (auto simp: is_complete_def filter_empty_conv)
    then obtain raw where raw: "read_location lb env (wd_store wd) (rw_storage row) = Inr raw" by (auto simp: unread_iff)
    have "\<exists>v. permanent (lb_digest lb) (game_scope_key uuid) v (wd_claims wd')"
      if "metadata_of_raw lb raw = Inr md" "md_majsoul_uuid md = Some uuid" for md uuid
      using facts i that by (simp add: game_key_def raw)
    then show ?thesis using read_location_Inr [OF raw] by (auto simp: game_settled_def claims_page_unfold(1) [OF page])
  qed
qed

text \<open>The seats of the game are in the table.\<close>

definition score_settled :: "libs \<Rightarrow> world \<Rightarrow> index_row \<Rightarrow> bool" where
  "score_settled lb wd row \<longleftrightarrow> (\<exists>raw. stored_bytes lb wd row raw \<and>
     (\<forall>evs game. events_of_raw lb raw = Inr evs \<longrightarrow> replay evs = Inr (Some game) \<longrightarrow> set (player_games_of row game) \<subseteq> set (wd_games wd)))"

definition seats_of :: "libs \<Rightarrow> backfill_env \<Rightarrow> pack_store \<Rightarrow> index_row \<Rightarrow> player_game list" where
  "seats_of lb env store row =
     (case read_location lb env store (rw_storage row) of
        Inl _ \<Rightarrow> []
      | Inr raw \<Rightarrow> (case events_of_raw lb raw of Inl _ \<Rightarrow> [] | Inr evs \<Rightarrow>
          (case replay evs of Inr (Some game) \<Rightarrow> player_games_of row game | _ \<Rightarrow> [])))"

lemma score_fold:
  "try_fold (score_one lb env store rows) (p, games) is = Inr (p', games') \<Longrightarrow>
     games' = games @ concat (map (\<lambda>i. seats_of lb env store (rows ! i)) is) \<and>
     bf_unreadable p' = bf_unreadable p + length (filter (\<lambda>i. unread lb env store (rows ! i)) is)"
proof (induction "is" arbitrary: p games)
  case (Cons i "is")
  then obtain p1 games1 where one: "score_one lb env store rows (p, games) i = Inr (p1, games1)"
      and rest: "try_fold (score_one lb env store rows) (p1, games1) is = Inr (p', games')"
    by (auto simp: attempt_Inr_iff)
  have "games1 = games @ seats_of lb env store (rows ! i)"
    "bf_unreadable p1 = bf_unreadable p + (if unread lb env store (rows ! i) then 1 else 0)"
    using one by (auto simp: score_one_def seats_of_def unread_def Let_def split: sum.splits option.splits fault.splits)
  with Cons.IH [OF rest] show ?case by simp
qed simp

lemma insert_blocks_set:
  "insert_blocks sent blocks table = (r, table') \<Longrightarrow> set table \<subseteq> set table' \<and> (r = Inr () \<longrightarrow> set (concat blocks) \<subseteq> set table')"
proof (induction blocks arbitrary: table)
  case (Cons block blocks)
  show ?case
  proof (cases "sent block = Done")
    case True
    then have "insert_blocks sent blocks (table @ block) = (r, table')" using Cons.prems by (simp add: Let_def)
    from Cons.IH [OF this] show ?thesis by simp
  qed (use Cons.prems in \<open>auto simp: Let_def split: if_splits\<close>)
qed simp

lemma insert_player_games_set:
  assumes "insert_player_games month_of sent games table = (r, table')"
  shows "set table \<subseteq> set table'" "r = Inr () \<Longrightarrow> set games \<subseteq> set table'"
proof -
  note both = insert_blocks_set [OF assms [unfolded insert_player_games_def]]
  show "set table \<subseteq> set table'" using both by blast
  have "set (concat (month_blocks month_of games)) = set games"
    using month_blocks_ok [of month_of games] by (auto simp: by_month_def)
  then show "r = Inr () \<Longrightarrow> set games \<subseteq> set table'" using both by simp
qed

lemma score_page_unfold:
  assumes "score_page lb env rows p wd = (r, wd')"
  shows "wd_store wd' = wd_store wd" "wd_index wd' = wd_index wd" "set (wd_games wd) \<subseteq> set (wd_games wd')"
    "r = Some (Inr p') \<Longrightarrow>
      bf_unreadable p' = bf_unreadable p + length (filter (\<lambda>i. unread lb env (wd_store wd) (rows ! i)) (bv_order env (length rows))) \<and>
      (\<forall>i \<in> set (bv_order env (length rows)). set (seats_of lb env (wd_store wd) (rows ! i)) \<subseteq> set (wd_games wd'))"
proof -
  define q where "q games = fst (insert_player_games (lb_month_of lb) (bv_sent env) games (wd_games wd))" for games
  define table where "table games = snd (insert_player_games (lb_month_of lb) (bv_sent env) games (wd_games wd))" for games
  have q: "insert_player_games (lb_month_of lb) (bv_sent env) games (wd_games wd) = (q games, table games)" for games
    by (simp add: q_def table_def)
  show "wd_store wd' = wd_store wd" "wd_index wd' = wd_index wd"
    using assms by (auto simp: score_page_def q Let_def split: sum.splits prod.splits)
  have "wd_games wd' = wd_games wd \<or> (\<exists>games. wd_games wd' = table games)"
    using assms by (auto simp: score_page_def q Let_def split: sum.splits prod.splits)
  then show "set (wd_games wd) \<subseteq> set (wd_games wd')" using insert_player_games_set(1) [OF q] by (metis order_refl)
  show "bf_unreadable p' = bf_unreadable p + length (filter (\<lambda>i. unread lb env (wd_store wd) (rows ! i)) (bv_order env (length rows))) \<and>
      (\<forall>i \<in> set (bv_order env (length rows)). set (seats_of lb env (wd_store wd) (rows ! i)) \<subseteq> set (wd_games wd'))"
    if res: "r = Some (Inr p')"
  proof -
    obtain p1 games where f: "try_fold (score_one lb env (wd_store wd) rows) (p, []) (bv_order env (length rows)) = Inr (p1, games)"
      using assms res by (auto simp: score_page_def split: sum.splits)
    then have "q games = Inr () \<and> bf_unreadable p' = bf_unreadable p1 \<and> wd_games wd' = table games"
      using assms res by (auto simp: score_page_def q Let_def split: sum.splits)
    moreover from this have "set games \<subseteq> set (table games)" using insert_player_games_set(2) [OF q] by blast
    ultimately show ?thesis using score_fold [OF f] by auto
  qed
qed

interpretation score_pass: page_pass "score_page lb" "score_settled lb" for lb
proof
  fix wd wd' index row env rows p r p'
  show "score_settled lb (wd\<lparr>wd_index := index\<rparr>) row = score_settled lb wd row" by (simp add: score_settled_def)
  show "score_settled lb wd' row" if "score_page lb env rows p wd = (r, wd')" "score_settled lb wd row"
    using that(2) unfolding score_settled_def score_page_unfold(1) [OF that(1)] using score_page_unfold(3) [OF that(1)] by blast
  show "is_complete p" if "score_page lb env rows p wd = (Some (Inr p'), wd')" "is_complete p'"
    using score_page_unfold(4) [OF that(1) refl] that(2) by (simp add: is_complete_def)
  show "\<exists>batch. wd_index wd' = wd_index wd @ batch \<and>
      (\<forall>b \<in> set batch. as_stored b \<and> score_settled lb wd' b \<and> row_key b \<in> row_key ` set rows)"
    if "score_page lb env rows p wd = (r, wd')"
    using score_page_unfold(2) [OF that] by simp
  show "score_settled lb wd' row \<or> row_key row \<in> row_key ` set (drop (length (wd_index wd)) (wd_index wd'))"
    if page: "score_page lb env rows p wd = (Some (Inr p'), wd')" and order: "in_some_order env" and whole: "is_complete p'" and row: "row \<in> set rows"
  proof -
    note facts = score_page_unfold(4) [OF page refl]
    obtain i where i: "i \<in> set (bv_order env (length rows))" "rows ! i = row" using in_some_orderD [OF order row] by blast
    then have "\<not> unread lb env (wd_store wd) row" using facts whole by (auto simp: is_complete_def filter_empty_conv)
    then obtain raw where raw: "read_location lb env (wd_store wd) (rw_storage row) = Inr raw" by (auto simp: unread_iff)
    have "set (player_games_of row game) \<subseteq> set (wd_games wd')"
      if "events_of_raw lb raw = Inr evs" "replay evs = Inr (Some game)" for evs game
    proof -
      have "seats_of lb env (wd_store wd) (rows ! i) = player_games_of row game" using that by (simp add: i(2) seats_of_def raw)
      with facts i(1) show ?thesis by metis
    qed
    then show ?thesis using read_location_Inr [OF raw] by (auto simp: score_settled_def score_page_unfold(1) [OF page])
  qed
qed

section \<open>What a marker means\<close>

lemma one_shot_marks:
  assumes "one_shot complete name run env wd marked = (e, wd', marked')" and "name \<notin> marked" and "name \<in> marked'"
  shows "\<exists>p. run wd = (Some (Inr p), wd') \<and> complete p"
proof -
  obtain r wd1 where run: "run wd = (r, wd1)" by fastforce
  show ?thesis
  proof (cases r)
    case None
    with assms run show ?thesis by (auto simp: one_shot_def split: if_splits)
  next
    case (Some q)
    show ?thesis
    proof (cases q)
      case (Inl f)
      with assms run Some show ?thesis by (cases f) (auto simp: one_shot_def split: if_splits)
    next
      case (Inr p)
      with assms run Some show ?thesis by (auto simp: one_shot_def split: if_splits)
    qed
  qed
qed

text \<open>What the passes rely on while they walk: rows are as the index stores them, their ids name them, reads complete in some order.\<close>

definition walkable :: "(uuid \<Rightarrow> int) \<Rightarrow> backfill_env list \<Rightarrow> world \<Rightarrow> bool" where
  "walkable rank envs wd \<longleftrightarrow> inj rank \<and> list_all as_stored (wd_index wd) \<and> one_key_per_id (set (wd_index wd) \<union> added_rows envs) \<and>
     list_all (\<lambda>env. in_some_order env \<and> list_all as_stored (bv_added env)) envs"

context page_pass begin

lemma marked_settles:
  assumes "one_shot is_complete name (walk_pages step rank (\<lambda>_. True) envs None no_progress) env wd marked = (e, wd', marked')"
    and "name \<notin> marked" "name \<in> marked'" and "walkable rank envs wd"
  shows "\<forall>row \<in> set (final_rows (wd_index wd')). row \<in> added_rows envs \<or> settled wd' row"
proof -
  obtain p where p: "walk_pages step rank (\<lambda>_. True) envs None no_progress wd = (Some (Inr p), wd')" "is_complete p"
    using one_shot_marks [OF assms(1-3)] by blast
  have "inj rank" "\<forall>env \<in> set envs. in_some_order env \<and> list_all as_stored (bv_added env)" "list_all as_stored (wd_index wd)"
    "one_key_per_id (set (wd_index wd) \<union> added_rows envs)"
    using assms(4) by (auto simp: walkable_def list_all_iff [of _ envs])
  then show ?thesis using walk_settles [OF p, where B = "{}"] by (simp add: below_cursor_def)
qed

end


text \<open>Once the claims pass has marked itself, the game of every row the index shows has a claim that never expires.\<close>

theorem marked_claims_cover_index:
  assumes "write_game_scoped_claims lb rank envs env wd marked = (e, wd', marked')"
    and "''game_scoped_claims'' \<notin> marked" and "''game_scoped_claims'' \<in> marked'" and "walkable rank envs wd"
  shows "set (final_rows (wd_index wd')) \<subseteq> added_rows envs \<union> {row. game_settled lb wd' row}"
  using claims_pass.marked_settles [OF assms(1) [unfolded write_game_scoped_claims_def scan_game_claims_def] assms(2-4)] by blast

text \<open>Once the scoring pass has marked itself, the seats of every scoreable row the index shows are in the table.\<close>

theorem marked_scores_cover_index:
  assumes "score_indexed_records lb rank envs env wd marked = (e, wd', marked')"
    and "''player_game_stats_v2'' \<notin> marked" and "''player_game_stats_v2'' \<in> marked'" and "walkable rank envs wd"
  shows "set (final_rows (wd_index wd')) \<subseteq> added_rows envs \<union> {row. score_settled lb wd' row}"
  using score_pass.marked_settles [OF assms(1) [unfolded score_indexed_records_def score_def] assms(2-4)] by blast

section \<open>Nothing is lost\<close>

text \<open>The row with another rule or another played time, the latter not cleared.\<close>

definition refilled :: "index_row \<Rightarrow> index_row \<Rightarrow> bool" where
  "refilled row row' \<longleftrightarrow> row' = row\<lparr>rw_rule := rw_rule row', rw_played_at := rw_played_at row'\<rparr> \<and>
     (rw_played_at row' = None \<longrightarrow> rw_played_at row = None)"

lemma refilled_refl: "refilled row row"
  by (simp add: refilled_def)

lemma refilled_trans: "refilled a b \<Longrightarrow> refilled b c \<Longrightarrow> refilled a c"
  by (cases a, cases b, cases c) (simp add: refilled_def)

lemma rewritten_refilled:
  assumes "as_stored row" and "rewritten row md = Some fresh"
  shows "refilled row (stored_row fresh)"
  unfolding rewritten_Some [OF assms] by (cases row) (simp add: refilled_def split: option.splits)

lemma metadata_page_refills:
  assumes "metadata_page lb env rows p wd = (r, wd')" and "list_all as_stored (wd_index wd)" and "set rows \<subseteq> set (wd_index wd)"
  shows "list_all as_stored (wd_index wd') \<and> set (wd_index wd) \<subseteq> set (wd_index wd') \<and>
    (\<forall>row' \<in> set (wd_index wd'). \<exists>row \<in> set (wd_index wd). refilled row row')"
proof -
  let ?fresh = "map stored_row (List.map_filter (fresh_row lb env (wd_store wd)) rows)"
  have "as_stored b \<and> (\<exists>row \<in> set (wd_index wd). refilled row b)" if "b \<in> set ?fresh" for b
  proof -
    have "b \<in> stored_row ` set (List.map_filter (fresh_row lb env (wd_store wd)) rows)" using that by simp
    then obtain row fresh where row: "row \<in> set rows" "fresh_row lb env (wd_store wd) row = Some fresh" "b = stored_row fresh"
      by (auto simp: set_map_filter)
    then obtain md where "rewritten row md = Some fresh" by (auto simp: fresh_row_def split: sum.splits)
    moreover have "row \<in> set (wd_index wd)" "as_stored row" using row(1) assms(2,3) by (auto simp: list_all_iff)
    ultimately show ?thesis using row(3) rewritten_refilled rewritten_again(4) by blast
  qed
  moreover have "wd_index wd' = wd_index wd \<or> wd_index wd' = wd_index wd @ ?fresh" by (rule metadata_page_unfold(2) [OF assms(1)])
  ultimately have "as_stored b \<and> (\<exists>row \<in> set (wd_index wd). refilled row b)" if "b \<in> set (wd_index wd')" for b
    using that assms(2) refilled_refl [of b] by (cases "b \<in> set (wd_index wd)") (auto simp: list_all_iff)
  moreover have "set (wd_index wd) \<subseteq> set (wd_index wd')" using metadata_page_unfold(2) [OF assms(1)] by auto
  ultimately show ?thesis by (simp add: list_all_iff)
qed

lemma walk_refills:
  assumes "walk_pages (metadata_page lb) rank keep envs cursor p wd = (r, wd')" and "list_all as_stored (wd_index wd)"
    and "\<forall>env \<in> set envs. list_all as_stored (bv_added env)"
  shows "set (wd_index wd) \<subseteq> set (wd_index wd') \<and>
    (\<forall>row' \<in> set (wd_index wd'). \<exists>row \<in> set (wd_index wd) \<union> added_rows envs. refilled row row')"
  using assms
proof (induction envs arbitrary: cursor p wd)
  case Nil
  then show ?case using refilled_refl by auto
next
  case (Cons env envs)
  let ?wd = "wd\<lparr>wd_index := wd_index wd @ bv_added env\<rparr>"
  have start: "set (wd_index ?wd) \<subseteq> set (wd_index wd) \<union> added_rows (env # envs)" by (auto simp: added_rows_def)
  show ?case
  proof (cases "bv_page env")
    case False
    then show ?thesis using Cons.prems(1) start refilled_refl by auto
  next
    case True
    obtain rows c where page: "catalog_page rank keep cursor backfill_page_size (wd_index ?wd) = (rows, c)" by fastforce
    obtain q wd1 where q: "metadata_page lb env rows p ?wd = (q, wd1)" by fastforce
    have "set rows \<subseteq> set (wd_index ?wd)" using page_rows [OF page] final_rows_subset by blast
    then have one: "list_all as_stored (wd_index wd1)" "set (wd_index ?wd) \<subseteq> set (wd_index wd1)"
        "\<forall>row' \<in> set (wd_index wd1). \<exists>row \<in> set (wd_index ?wd). refilled row row'"
      using metadata_page_refills [OF q] Cons.prems(2,3) by simp_all
    from Cons.prems(1) True page q consider "wd' = wd1"
      | p1 at where "walk_pages (metadata_page lb) rank keep envs (Some at) p1 wd1 = (r, wd')"
      by (auto simp: Let_def split: option.splits sum.splits)
    then show ?thesis
    proof cases
      case 1
      with one start show ?thesis by fastforce
    next
      case 2
      have "set (wd_index wd1) \<subseteq> set (wd_index wd') \<and>
          (\<forall>row' \<in> set (wd_index wd'). \<exists>row \<in> set (wd_index wd1) \<union> added_rows envs. refilled row row')"
        using Cons.IH [OF 2 one(1)] Cons.prems(3) by simp
      moreover have "added_rows envs \<subseteq> added_rows (env # envs)" by (auto simp: added_rows_def)
      moreover have "\<exists>row \<in> set (wd_index wd) \<union> added_rows (env # envs). refilled row row'"
        if "row' \<in> set (wd_index wd1)" for row'
        using one(3) start that by blast
      ultimately have "\<exists>row \<in> set (wd_index wd) \<union> added_rows (env # envs). refilled row row'"
        if "row' \<in> set (wd_index wd')" for row'
        using that refilled_trans by (metis Un_iff subsetD)
      moreover have "set (wd_index wd) \<subseteq> set (wd_index wd')"
        using one(2) \<open>set (wd_index wd1) \<subseteq> set (wd_index wd') \<and> _\<close> by auto
      ultimately show ?thesis by blast
    qed
  qed
qed

text \<open>However the metadata pass ends, every row that was in the index is still in it under its key, and every row the
  index shows is one that was there or was indexed meanwhile, with at most its rule and its played time replaced and
  neither of them cleared.\<close>

theorem rewrite_keeps_rows:
  assumes "rewrite_record_metadata lb rank envs env wd marked = (e, wd', marked')" and "walkable rank envs wd"
  shows "row_key ` set (wd_index wd) \<subseteq> row_key ` set (final_rows (wd_index wd')) \<and>
    (\<forall>row' \<in> set (final_rows (wd_index wd')). \<exists>row \<in> set (wd_index wd) \<union> added_rows envs. refilled row row')"
proof -
  obtain r wd1 where run: "scan_metadata lb rank envs wd = (r, wd1)" by fastforce
  have "wd' = wd \<or> wd' = wd1"
    using assms(1) by (auto simp: rewrite_record_metadata_def one_shot_def run split: if_splits option.splits sum.splits fault.splits)
  moreover have "set (wd_index wd) \<subseteq> set (wd_index wd1) \<and>
      (\<forall>row' \<in> set (wd_index wd1). \<exists>row \<in> set (wd_index wd) \<union> added_rows envs. refilled row row')"
    using walk_refills [OF run [unfolded scan_metadata_def]] assms(2) by (auto simp: walkable_def list_all_iff [of _ envs])
  ultimately show ?thesis unfolding final_rows_keys
    using final_rows_subset [of "wd_index wd'"] refilled_refl by (auto 0 3)
qed

section \<open>A pass that marks itself after an outage\<close>

lemma next_page_shrinks:
  assumes page: "catalog_page rank keep cursor limit index = (rows, Some c)" and "0 < limit"
  shows "length (filter (\<lambda>row. keep row \<and> below_cursor rank (Some c) row) (final_rows index)) + limit \<le>
    length (filter (\<lambda>row. keep row \<and> below_cursor rank cursor row) (final_rows index))"
proof -
  define pool where "pool = linorder_class.sort_key (place rank \<circ> cursor_of) (filter (\<lambda>row. keep row \<and> below_cursor rank cursor row) (final_rows index))"
  let ?later = "below_cursor rank (Some c)"
  have ordered: "sorted (map (place rank \<circ> cursor_of) pool)" by (simp add: pool_def)
  have long: "limit < length pool" and c: "c = cursor_of (pool ! (limit - 1))"
    using page \<open>0 < limit\<close> unfolding catalog_page_def pool_def [symmetric] Let_def by (auto split: if_splits)
  have at_c: "below_cursor rank cursor (pool ! (limit - 1))"
    using nth_mem [of "limit - 1" pool] long by (auto simp: pool_def)
  have "\<not> ?later (pool ! i)" if "i < limit" for i
    using sorted_nth_mono [OF ordered, of i "limit - 1"] that long by (auto simp: below_cursor_def c not_less)
  then have "filter ?later (take limit pool) = []" by (auto simp: filter_empty_conv in_set_conv_nth)
  then have "length (filter ?later pool) = length (filter ?later (drop limit pool))"
    by (metis append_Nil append_take_drop_id filter_append)
  also have "\<dots> \<le> length pool - limit" by (metis length_drop length_filter_le)
  finally have "length (filter ?later pool) + limit \<le> length pool" using long by linarith
  moreover have "below_cursor rank cursor row" if "?later row" for row
    using at_c that by (auto simp: below_cursor_def c split: option.splits)
  then have "filter (\<lambda>row. keep row \<and> ?later row) (final_rows index) =
      filter ?later (filter (\<lambda>row. keep row \<and> below_cursor rank cursor row) (final_rows index))"
    unfolding filter_filter by (intro filter_cong) auto
  moreover have "length (filter ?later (filter (\<lambda>row. keep row \<and> below_cursor rank cursor row) (final_rows index))) = length (filter ?later pool)"
    by (simp add: pool_def filter_sort)
  moreover have "length pool = length (filter (\<lambda>row. keep row \<and> below_cursor rank cursor row) (final_rows index))" by (simp add: pool_def)
  ultimately show ?thesis by simp
qed

text \<open>A walk whose steps leave the index alone ends: one page for every thousand rows, and one more.\<close>

lemma walk_ends:
  assumes "\<And>env rows p. env \<in> set envs \<Longrightarrow> \<exists>p'. step env rows p wd = (Some (Inr p'), wd) \<and> Q p p'"
    and "\<And>env. env \<in> set envs \<Longrightarrow> bv_page env \<and> bv_added env = []"
    and "length (filter (\<lambda>row. keep row \<and> below_cursor rank cursor row) (final_rows (wd_index wd))) < length envs * backfill_page_size"
    and "\<And>p. Q p p" "\<And>p q r. Q p q \<Longrightarrow> Q q r \<Longrightarrow> Q p r"
  shows "\<exists>p'. walk_pages step rank keep envs cursor p wd = (Some (Inr p'), wd) \<and> Q p p'"
  using assms(1-3)
proof (induction envs arbitrary: cursor p)
  case (Cons env envs)
  obtain rows c where page: "catalog_page rank keep cursor backfill_page_size (wd_index wd) = (rows, c)" by fastforce
  have env: "bv_page env" "bv_added env = []" using Cons.prems(2) [of env] by simp_all
  obtain p1 where p1: "step env rows p wd = (Some (Inr p1), wd)" "Q p p1" using Cons.prems(1) [of env] by auto
  show ?case
  proof (cases c)
    case None
    with p1 page env show ?thesis by simp
  next
    case (Some at)
    have "0 < backfill_page_size" by (simp add: backfill_page_size_def)
    then have "length (filter (\<lambda>row. keep row \<and> below_cursor rank (Some at) row) (final_rows (wd_index wd))) < length envs * backfill_page_size"
      using next_page_shrinks [OF page [unfolded Some]] Cons.prems(3) by simp
    then obtain p' where "walk_pages step rank keep envs (Some at) p1 wd = (Some (Inr p'), wd)" "Q p1 p'"
      using Cons.IH [of "Some at" p1] Cons.prems(1,2) by (meson list.set_intros(2))
    moreover from this have "Q p p'" using assms(5) [OF p1(2)] by blast
    ultimately show ?thesis using p1(1) page env Some by simp
  qed
qed simp

lemma reconvert_rows_outage:
  assumes "bv_works env = (\<lambda>_. False)"
  shows "\<exists>p'. reconvert_rows lb cd kafka env store rows is p topic = (Some (Inr p'), topic) \<and> bf_rewritten p' = bf_rewritten p"
proof (induction "is" arbitrary: p)
  case (Cons i "is")
  have "\<exists>p1. reconvert_row lb cd kafka env store rows i p topic = (Some (Inr p1), topic) \<and> bf_rewritten p1 = bf_rewritten p"
    using assms by (simp add: reconvert_row_def read_location_def unreadable_row_def Let_def split: option.splits)
  then obtain p1 where one: "reconvert_row lb cd kafka env store rows i p topic = (Some (Inr p1), topic)" "bf_rewritten p1 = bf_rewritten p" by blast
  from Cons.IH [of p1] one show ?case by auto
qed simp

text \<open>The pass that converts again marks itself done after an outage of the object store in which it read not one
  record: it ends as finished, the marker is written, the topic and the index are as before, and no later boot runs it again.\<close>

theorem outage_spends_reconvert_marker:
  assumes "\<forall>env \<in> set envs. bv_page env \<and> bv_added env = [] \<and> bv_works env = (\<lambda>_. False)"
    and "length (wd_index wd) < length envs * backfill_page_size" and "''reconvert_stored_pb_v1'' \<notin> marked"
  shows "\<exists>p. reconvert_stored_records lb cd kafka rank envs \<lparr>mk_read = True, mk_written = Done\<rparr> wd marked =
      (Pass_Finished p, wd, Set.insert ''reconvert_stored_pb_v1'' marked) \<and> bf_rewritten p = 0 \<and>
    (\<forall>later env. mk_read env \<longrightarrow> reconvert_stored_records lb cd kafka rank later env wd (Set.insert ''reconvert_stored_pb_v1'' marked) =
      (Was_Marked, wd, Set.insert ''reconvert_stored_pb_v1'' marked))"
proof -
  have step: "\<exists>p'. reconvert_page lb cd kafka env rows p wd = (Some (Inr p'), wd) \<and> bf_rewritten p' = bf_rewritten p" if "env \<in> set envs" for env rows p
  proof -
    have works: "bv_works env = (\<lambda>_. False)" using assms(1) that by blast
    obtain p' where "reconvert_rows lb cd kafka env (wd_store wd) rows (bv_order env (length rows)) p (wd_topic wd) = (Some (Inr p'), wd_topic wd)"
        "bf_rewritten p' = bf_rewritten p"
      using reconvert_rows_outage [OF works] by blast
    then show ?thesis by (simp add: reconvert_page_def page_scanned_def)
  qed
  have few: "length (filter (\<lambda>row. rw_majsoul_pb row \<noteq> None \<and> below_cursor rank None row) (final_rows (wd_index wd))) < length envs * backfill_page_size"
    using assms(2) length_filter_le [of _ "final_rows (wd_index wd)"] final_rows_length [of "wd_index wd"] by (meson le_less_trans order_trans)
  have "\<exists>p'. walk_pages (reconvert_page lb cd kafka) rank (\<lambda>row. rw_majsoul_pb row \<noteq> None) envs None no_progress wd = (Some (Inr p'), wd) \<and>
      bf_rewritten p' = bf_rewritten no_progress"
  proof (rule walk_ends [where Q = "\<lambda>p p'. bf_rewritten p' = bf_rewritten p"])
    show "bv_page env \<and> bv_added env = []" if "env \<in> set envs" for env using assms(1) that by blast
  qed (use step few in simp_all)
  then obtain p where "reconvert lb cd kafka rank envs wd = (Some (Inr p), wd)" "bf_rewritten p = bf_rewritten no_progress"
    unfolding reconvert_def by blast
  then show ?thesis using assms(3) by (simp add: reconvert_stored_records_def one_shot_def no_progress_def)
qed

text \<open>A record whose statistics panic ends the scoring pass on every boot: the marker is never written.\<close>

lemma score_one_faults: "score_one lb env store rows acc i = Inl f \<Longrightarrow> \<exists>m. f = Panicked m"
  by (auto simp: score_one_def Let_def split: prod.splits sum.splits option.splits fault.splits)

lemma score_fold_faults: "try_fold (score_one lb env store rows) acc is = Inl f \<Longrightarrow> \<exists>m. f = Panicked m"
  by (induction "is" arbitrary: acc) (auto simp: attempt_Inl_iff dest: score_one_faults)

lemma panicking_row_ends_scoring:
  assumes "catalog_page rank (\<lambda>_. True) None backfill_page_size (wd_index wd @ bv_added env) = (rows, c)" and "bv_page env"
    and "in_some_order env" and "row \<in> set rows" and "read_location lb env (wd_store wd) (rw_storage row) = Inr raw"
    and "events_of_raw lb raw = Inr evs" and "replay evs = Inl (Panicked m)" and "''player_game_stats_v2'' \<notin> marked"
  shows "\<exists>wd'. score_indexed_records lb rank (env # envs) \<lparr>mk_read = True, mk_written = Done\<rparr> wd marked = (Pass_Died, wd', marked)"
proof -
  obtain i where i: "i \<in> set (bv_order env (length rows))" "rows ! i = row" using in_some_orderD [OF assms(3,4)] by blast
  have one: "score_one lb env (wd_store wd) rows acc i = Inl (Panicked m)" for acc
    using assms(5-7) by (simp add: score_one_def i(2) Let_def split: prod.splits)
  have "\<exists>f. try_fold (score_one lb env (wd_store wd) rows) acc is = Inl f" if "i \<in> set is" for acc "is"
    using that
  proof (induction "is" arbitrary: acc)
    case (Cons j "is")
    show ?case
    proof (cases "j = i")
      case False
      with Cons show ?thesis by (cases "score_one lb env (wd_store wd) rows acc j") auto
    qed (simp add: one)
  qed simp
  then obtain f where "try_fold (score_one lb env (wd_store wd) rows) (no_progress, []) (bv_order env (length rows)) = Inl f" using i(1) by blast
  moreover from this obtain m' where "f = Panicked m'" using score_fold_faults by blast
  ultimately show ?thesis using assms(1,2,8)
    by (simp add: score_indexed_records_def one_shot_def score_def score_page_def)
qed

section \<open>Examples\<close>

definition outage_env :: backfill_env where
  "outage_env = \<lparr>bv_added = [], bv_page = True, bv_works = (\<lambda>_. False), bv_order = (\<lambda>n. [0..<n]), bv_insert = Done, bv_adopted = True,
     bv_now = 0, bv_sent = (\<lambda>_. Done), bv_lags = (\<lambda>_. [0]), bv_broker = (\<lambda>_ _ _. Done)\<rparr>"

definition three_rows :: "index_row list" where
  "three_rows = map (\<lambda>row. row\<lparr>rw_majsoul_pb := Some \<lparr>pb_offset = 64, pb_compressed_size = 1, pb_raw_size = 1\<rparr>\<rparr>)
     [sample_row [1] ''a'', sample_row [2] ''b'', sample_row [3] ''c'']"

text \<open>A rank: ids as numbers in base 257 without the digit zero.\<close>

definition toy_rank :: "uuid \<Rightarrow> int" where
  "toy_rank u = fold (\<lambda>b n. n * 257 + uint b + 1) u 0"

lemma toy_rank_snoc: "toy_rank (u @ [b]) = toy_rank u * 257 + (uint b + 1)"
  by (simp add: toy_rank_def)

lemma toy_rank_split: "toy_rank (u @ [b]) mod 257 = uint b + 1" "toy_rank (u @ [b]) div 257 = toy_rank u"
proof -
  have "uint b < 256" using uint_lt2p [of b] by simp
  then have "0 \<le> uint b + 1" "uint b + 1 < 257" by simp_all
  then show "toy_rank (u @ [b]) mod 257 = uint b + 1" "toy_rank (u @ [b]) div 257 = toy_rank u"
    by (simp_all add: toy_rank_snoc)
qed

lemma toy_rank_eq: "toy_rank u = toy_rank v \<Longrightarrow> u = v"
proof (induction u arbitrary: v rule: rev_induct)
  case Nil
  then show ?case
  proof (cases v rule: rev_cases)
    case (snoc v' c)
    then have "toy_rank v mod 257 = uint c + 1" by (simp add: toy_rank_split)
    moreover have "toy_rank v = 0" using Nil by (simp add: toy_rank_def)
    ultimately have "uint c + 1 = 0" by simp
    then show ?thesis using uint_ge_0 [of c] by linarith
  qed simp
next
  case (snoc b u)
  then show ?case
  proof (cases v rule: rev_cases)
    case Nil
    then have "toy_rank (u @ [b]) = 0" using snoc.prems by (simp add: toy_rank_def)
    then have "uint b + 1 = 0" using toy_rank_split(1) [of u b] by simp
    then show ?thesis using uint_ge_0 [of b] by linarith
  next
    fix v' c assume v: "v = v' @ [c]"
    then have "uint b = uint c" "toy_rank u = toy_rank v'"
      using snoc.prems toy_rank_split [of u b] toy_rank_split [of v' c] by simp_all
    then have "b = c" by (intro word_uint_eqI)
    with \<open>toy_rank u = toy_rank v'\<close> show ?thesis using snoc.IH [of v'] v by simp
  qed
qed

lemma toy_rank_inj: "inj toy_rank"
  using toy_rank_eq by (rule injI)

definition ruled_event :: json where
  "ruled_event = JObject [(''rule'', JString ''x'')]"

definition unruled_row :: index_row where
  "unruled_row = (sample_row [1] ''a'')\<lparr>rw_storage := \<lparr>pl_pack_key = ''a'', pl_offset = 0, pl_compressed_size = 2,
     pl_raw_size = 1, pl_codec = ''zstd''\<rparr>\<rparr>"

definition unruled_world :: world where
  "unruled_world = empty_world\<lparr>wd_index := [unruled_row],
     wd_store := \<lparr>ps_legacy = [], ps_staging = [], ps_objects = [''a'' \<mapsto> [1, 91]]\<rparr>\<rparr>"

definition calm_page :: backfill_env where
  "calm_page = outage_env\<lparr>bv_works := (\<lambda>_. True)\<rparr>"

lemma unruled_read: "read stored_bulk (wd_store unruled_world) (rw_storage unruled_row) = Inr [91]"
  by (simp add: read_def unruled_row_def unruled_world_def file_name_def last_opt_def get_range_def decompress_def stored_bulk_def Let_def)

lemma ruled_metadata:
  "\<exists>md. metadata_of_raw (toy_libs [ruled_event]) [91] = Inr md \<and> md_rule md = Some ''x'' \<and> md_played_at md = None"
proof -
  have "[91] = im_raw toy_body" by (simp add: toy_body_def as_bytes_def byte_of_char_def)
  moreover have "events_of_raw (toy_libs [ruled_event]) (im_raw toy_body) = Inr [ruled_event]"
    by (rule toy_events) (simp_all add: ruled_event_def)
  ultimately show ?thesis
    by (simp add: parse_metadata_events start_of_def kind_def ruled_event_def rule_of_def played_at_of_def take_chars_def
        str_chars_Cons_ascii byte_of_char_def)
qed


theorem outage_spends_reconvert_marker_witness:
  "\<exists>p. reconvert_stored_records lb cd kafka rank [outage_env] \<lparr>mk_read = True, mk_written = Done\<rparr> (empty_world\<lparr>wd_index := three_rows\<rparr>) {} =
      (Pass_Finished p, empty_world\<lparr>wd_index := three_rows\<rparr>, {''reconvert_stored_pb_v1''}) \<and> bf_rewritten p = 0"
  using outage_spends_reconvert_marker [of "[outage_env]" "empty_world\<lparr>wd_index := three_rows\<rparr>" "{}" lb cd kafka rank]
  by (auto simp: outage_env_def three_rows_def backfill_page_size_def)

end
