(* ===== verification/Spec2Isabelle.thy ===== *)
theory Spec2Isabelle
  imports Converted Replay_Correct Pack_Correct Drain Recovery Watch_Log Auth_Correct Walk Balance Paipuya Mihomo Register
    Collector Watch_Service Backfill
begin

text \<open>
  A verification development for the Mahjong Soul record manager, the Rust service under \<^verbatim>\<open>src/src\<close>.
  Its shallow embedding translates the sources function by function; every theory opens with the files it models.

  \<^bold>\<open>The program.\<close> Collectors and an upload endpoint hand game records to the ingest half of
  \<^verbatim>\<open>indexer.rs\<close>. A record downloaded from the game is protobuf (\<^verbatim>\<open>majsoul/proto.rs\<close>, \<^verbatim>\<open>majsoul/events.rs\<close>) and
  is converted to mjai events (\<^verbatim>\<open>majsoul/convert.rs\<close>); any record is read twice, for its index row
  (\<^verbatim>\<open>mjai.rs\<close>) and for its statistics (\<^verbatim>\<open>replay.rs\<close>). The ingest half claims the record's key in the index
  (\<^verbatim>\<open>catalog.rs\<close>), produces it to a topic (\<^verbatim>\<open>kafka.rs\<close>) and answers. One worker per partition fetches the topic,
  packs the records into a staging file (\<^verbatim>\<open>pack.rs\<close>), uploads the sealed pack to a bucket (\<^verbatim>\<open>objects.rs\<close>), inserts
  the index rows, and only then commits its offset. At start-up \<^verbatim>\<open>recovery.rs\<close> re-indexes the packs of an older
  deployment; \<^verbatim>\<open>gc.rs\<close> deletes packs no row points at. The console has its own users (\<^verbatim>\<open>auth.rs\<close>), keeps the game
  accounts (\<^verbatim>\<open>accounts.rs\<close>), shows the collectors' log (\<^verbatim>\<open>watch_log.rs\<close>) and passes requests for old games to a
  collector (\<^verbatim>\<open>refetch.rs\<close>).

  The records come from live collectors (\<^verbatim>\<open>managed_watch.rs\<close>, with the registry of \<^verbatim>\<open>watch.rs\<close>), which poll the lists of
  games under way, fetch each game once it has ended and serve requests for old games in between;
  \<^verbatim>\<open>watch_service.rs\<close> keeps their configuration, runs one task per collector and talks to module processes.
  \<^verbatim>\<open>paipuya.rs\<close> synchronises a catalogue of known games; the walks of \<^verbatim>\<open>refetch_service.rs\<close> go through it,
  fetch what is missing, convert stored games again and repair them, with a pool of logged-in accounts that a
  balancer spreads over the exits of \<^verbatim>\<open>mihomo.rs\<close>. \<^verbatim>\<open>register_service.rs\<close> registers new accounts in batches over
  leased exits. One-shot passes over the whole index (\<^verbatim>\<open>backfill.rs\<close>) bring old rows up to date after an upgrade.

  \<^bold>\<open>The theories.\<close>
  \<^item> \<open>Prelude\<close>, \<open>Rust_Text\<close>, \<open>Ascii_Case\<close>, \<open>Json\<close>: machine words, errors and panics as a sum type with \<open>attempt\<close> and
    \<open>try_fold\<close> for \<^verbatim>\<open>?\<close> and loops, strings as UTF-8 bytes, JSON values.
  \<^item> \<open>Wire\<close>, \<open>Game_Record\<close>, \<open>Events\<close>, \<open>Tiles\<close>, \<open>Modes\<close>: the wire format and the decoders of \<^verbatim>\<open>majsoul/\<close>, with encoders
    written for the round trips.
  \<^item> \<open>Convert\<close>, \<open>Convert_Correct\<close>: the converter as a fold of one step over the events, and what the stream says
    of riichi, payments, indicators, time and shape.
  \<^item> \<open>Mjai\<close>, \<open>Replay\<close>, \<open>Replay_Correct\<close>: both readings of a record and the statistics as functions of the stream.
  \<^item> \<open>Pack\<close>, \<open>Pack_Correct\<close>: writer, reader, scan and directories; round trips, and the scan after a crash.
  \<^item> \<open>Catalog\<close>, \<open>Gc\<close>, \<open>Kafka\<close>: claims and rows, the orphan collector, messages, routing, fetches and offsets. Claims
    meet the locale \<open>claim_register\<close>, which says what any register of permanent keys promises.
  \<^item> \<open>Indexer\<close>, \<open>Indexer_Correct\<close>, \<open>Pipeline\<close>, \<open>Drain\<close>: the ingest half and the worker; the invariant of a worker; every
    interleaving of requests, workers, crashes, restarts and the collector as the step relation \<open>pipeline_step\<close>;
    and the drain at shutdown.
  \<^item> \<open>Recovery\<close>: the start-up scan.
  \<^item> \<open>Refetch\<close>: the counter between backfill and collectors, as the step relation \<open>counter_step\<close> and as an instance of
    the locale \<open>request_counter\<close>.
  \<^item> \<open>Watch_Log\<close>: the log ring as a refinement of a log that forgets nothing, and the redaction.
  \<^item> \<open>Auth\<close>, \<open>Auth_Correct\<close>: the users of the console; invariants of the document over operations and restarts through
    the locale \<open>document_invariant\<close>, interpreted for well-formedness and for the presence of an administrator.
  \<^item> \<open>Accounts\<close>, \<open>Accounts_Correct\<close>: the account pool and the choice of accounts.
  \<^item> \<open>Converted\<close>: the converter and the reader together, for this theory and the repairs.
  \<^item> \<open>Reconvert\<close>, \<open>Walk\<close>, \<open>Balance\<close>: \<^verbatim>\<open>refetch_service.rs\<close>, the repair of one record down to the ingest half, the sweep and
    the repair walk with their cursors and tallies, and the balancer with its moves and rounds.
  \<^item> \<open>Paipuya\<close>: the synchronisation of one mode as a walk over pages, the cursors of \<^verbatim>\<open>catalog.rs\<close>, the workers of a run and
    their supervision as a step relation.
  \<^item> \<open>Mihomo\<close>: slots, ports, leases, the generated configuration, subscriptions and traffic; \<open>manager_step\<close> interleaves
    the operations of the manager.
  \<^item> \<open>Register\<close>: a batch of registrations as the step relation \<open>batch_step\<close> over launches and landings.
  \<^item> \<open>Client_Version\<close>, \<open>Watch_Registry\<close>, \<open>Collector\<close>: the version a login carries and its search, the registry, and the
    collector, whose rounds meet the locale \<open>progress\<close>: what every step of a round keeps and lets grow holds of the
    round, interpreted for the games held, for the rounds that change nothing and for what is on file.
  \<^item> \<open>Watch_Service\<close>: the collectors' configuration, the supervisor of their tasks, and the exchange with a module.
  \<^item> \<open>Backfill\<close>: the page of the index (\<^verbatim>\<open>Catalog::page\<close>) and the four one-shot passes of \<^verbatim>\<open>backfill.rs\<close> with their
    markers. A page step meets the locale \<open>page_pass\<close>, which says what a walk needs of it to settle every row,
    interpreted for the rewriting of metadata, the claims of games and the scores.
  \<^item> This theory: what spans the converter, the reader and the statistics.

  \<^bold>\<open>Correspondence.\<close> A struct is a record and an enum a datatype with the source's constructors; a field carries the
  initials of its struct. A method that changes its receiver returns the changed value. Everything outside the
  process is an argument: a clock reading, a random id, whether a write succeeded, what a broker or a server
  answered. \<open>outcome\<close> distinguishes a request that was done, refused, or done without an acknowledgement.
  Integers that may wrap are words of their width; \<^verbatim>\<open>Inl\<close> of a \<open>fault\<close> is an error or a panic.

  \<^bold>\<open>What is proved.\<close> A converted record parses back to its events with the right header, and its game is scored
  without a panic. A pack reads back what was appended, and cut off anywhere behind the magic it scans to its complete
  entries. In every reachable
  state of the pipeline each readable message below a stored offset is indexed, each row points at bytes that
  read back as a produced message, and a drain with services that answer indexes all that is left. A game is
  claimed once and for ever. The collector of orphans deletes nothing a row points at. The statistics are counts
  and sums over the stream. The start-up scan is complete and idempotent. A waiting fetch is never stranded. The
  ring and the redaction do what they promise. Users and accounts stay well formed, an administrator remains,
  sessions end when they should, passwords survive a save unseen, and the re-fetch pool leaves the collectors'
  accounts alone, as far as the code compares them. A game a collector has listed is held in memory and on file until it is stored, given up with a
  line in the log, or settled; a ripe game is collected; a raised version floor is found and followed. A cursor of a
  walk or of the catalogue passes only what is settled, and a finished pass has settled everything. A repaired
  record is the same game. A one-shot pass that marks itself has settled every row it did not see written meanwhile.
  Balancing keeps every account on a usable exit and every exit in use; listeners
  have ports of their own and a leased exit keeps its port. Registered accounts are stored. Collectors that are started
  and stopped one after the other never share a state file and can all be stopped.

  Some theorems state what goes wrong: a stored record cut short ends a repair walk, a record whose statistics
  panic stops its partition, a failed write of the slots misroutes a node, two starts at once leave collectors
  nobody can stop, a module that exits is never started again, an outage spends the marker of the pass that
  converts again.

  \<^bold>\<open>Assumptions, each a named hypothesis with a witness.\<close> \<open>codec_ok\<close>: decompression undoes compression.
  \<open>message_texts_ok\<close> and \<open>ids_ok\<close>: printed ids and times parse back. \<open>broker_law\<close>, \<open>served\<close>, \<open>steady\<close>: a broker serves
  its log in order. \<open>stores_prefix\<close>: an upload that reports success stored what it was given or a prefix of it, which
  the size check tells apart. Pack keys and user ids are drawn fresh. \<open>hex_ok\<close>: hexadecimal decodes. \<open>lower_ok\<close>:
  lower-casing does not tell ASCII case apart. \<open>rereads\<close>: printed events parse back and the codec undoes itself.
  \<open>honest\<close> and \<open>site_ok\<close>: the catalogue site answers with the first games of the range asked for, in order, and fewer games
  than a page start in the same second. \<open>serves_from\<close>: the server refuses exactly the versions below one floor.
  \<open>walkable\<close>: the index orders ids, one id never names two keys, and rows read back as stored. \<open>distinct_keys\<close>:
  no two legacy packs have names that \<^verbatim>\<open>to_string_lossy\<close> makes equal. \<open>behaved\<close>: a connection's counters do not shrink. \<open>rearranges\<close>: the iteration order of a hash map is a permutation.

  \<^bold>\<open>Bounds and fuel.\<close> All loops are recursions that end by construction except these. The drain ends when the broker
  runs dry: its fuel counts fetches, and one more than the messages left is proved to be enough. The two loops
  of the version search have fuel, of which thirteen turns are enough, as \<open>Client_Version\<close> shows. Loops that
  wait for the outside, the pages of a synchronisation or of a one-shot pass, the turns of a sweep, the requests served until a deadline, take
  the list of what happens to them; at its end they are still waiting, which the theorems that claim an end rule out.

  \<^bold>\<open>Granularity.\<close> Sealing a pack and a run of the collector are single steps of the pipeline; crashes happen between
  steps and inside a seal through its outcomes. An operation of the user store or the account pool is one step, as the
  write lock makes it; an operation of the user store that checks before it takes the write lock is given the store
  it checked, which may be any other, so that operations interleave between check and change
  (\<open>racing_demotions_leave_no_admin\<close> shows what that allows). A batch that fails to append leaves any bytes in the file of
  the open pack, which is then thrown away. A round of a collector is one step, with the outcome of every request, save and store in it; a
  crash loses what is in memory and keeps the file. Workers of a synchronisation, accounts of a batch and operations
  of the proxy manager interleave. A start of the supervisor is one step in \<open>apply_service\<close> and three
  in \<open>concurrent_starts_leak_collectors\<close>.

  \<^bold>\<open>Not modelled.\<close> HTTP, TLS, SQL text and process control: \<^verbatim>\<open>clickhouse.rs\<close>, most of \<^verbatim>\<open>api.rs\<close>, the request signing of
  \<^verbatim>\<open>objects.rs\<close>, the sessions and fingerprints of \<^verbatim>\<open>majsoul/rpc.rs\<close>, \<^verbatim>\<open>majsoul/gateway.rs\<close>, \<^verbatim>\<open>majsoul/telemetry.rs\<close>,
  \<^verbatim>\<open>majsoul/auth.rs\<close>, the installation and start of modules, the query and statistics endpoints of \<^verbatim>\<open>catalog.rs\<close>, whose logic
  is SQL. JSON text, URLs, compression and cryptography are arguments. \<^verbatim>\<open>config.rs\<close> reads the environment; \<^verbatim>\<open>lib.rs\<close> and \<^verbatim>\<open>main.rs\<close> wire
  the services together.
\<close>

section \<open>From the game to the statistics\<close>

text \<open>Claim C1: what the converter writes, the ingest path reads: decompressed, the payload parses
  to exactly the converter's events, and the index row gets the record's players, the game's
  identity, and the rule token made of the players, the room and the length of the mode.\<close>

theorem converted_record_reads_back:
  assumes "20 \<le> length raw" and "decode_game_record raw = Inr record" and "gr_records record \<noteq> []"
    and "parse_actions (gr_records record) = Inr evs"
    and "events_to_mjai record evs (header_of record metadata) = Inr es"
    and "\<And>bytes. gunzip (gzip bytes) = bytes" and "\<And>e. e \<in> set es \<Longrightarrow> prints_back to_string from_str e"
  shows "\<exists>payload. convert_record_bytes to_string gzip raw metadata = Inr (gr_uuid record, payload) \<and>
     events from_str from_str_vec (gunzip payload) = Inr es \<and>
     (\<exists>m. parse_metadata from_str from_str_vec to_string timestamp_ok (gunzip payload) = Inr m \<and>
        md_players m = map (take_chars 128) (gr_player_names record) \<and>
        md_majsoul_uuid m = (let u = str_trim (gr_uuid record) in if u \<noteq> [] \<and> length u \<le> 128 then Some u else None) \<and>
        md_rule m = map_option (\<lambda>h. show_nat (unat (gm_players h)) @ ''p-'' @ gm_room h @ ''-'' @ gm_game_length h)
          (header_of record metadata))"
proof -
  let ?payload = "gzip (ndjson_bytes to_string es)"
  have "convert_record_bytes to_string gzip raw metadata = Inr (gr_uuid record, ?payload)"
    using assms(1-5) by (rule converted_payload)
  moreover have read: "events from_str from_str_vec (gunzip ?payload) = Inr es"
    unfolding assms(6) using assms(5,7) by (rule converted_events_read)
  ultimately show ?thesis
    by (simp add: parse_metadata_events start_of_converted(1) [OF assms(5)] converted_players converted_uuid converted_rule)
qed

text \<open>The markers a win may carry without stopping the statistics.\<close>

definition markers_readable :: "game_event \<Rightarrow> bool" where
  "markers_readable event =
     (case event of
        Hule h \<Rightarrow> \<forall>hi \<in> set (hu_hules h). set (hi_ura_doras hi) \<subseteq> mjai_of_wire ` set wire_tiles
      | _ \<Rightarrow> True)"

lemma wire_tile_marker:
  assumes "t \<in> mjai_of_wire ` set wire_tiles"
  shows "normalise t \<noteq> [] \<and> is_char_boundary (normalise t) 1"
proof -
  have conv: "map mjai_of_wire wire_tiles = map (\<lambda>r. case r of Inr t \<Rightarrow> t | Inl _ \<Rightarrow> []) (map tile_str_to_mjai wire_tiles)"
    by (simp add: mjai_of_wire_def)
  have "list_all (\<lambda>t. normalise t \<noteq> [] \<and> is_char_boundary (normalise t) 1) (map mjai_of_wire wire_tiles)"
    unfolding conv wire_tiles_convert
    by (simp add: normalise_def is_char_boundary_def is_continuation_def byte_of_char_def)
  with assms show ?thesis by (auto simp: list_all_iff)
qed

lemma scoreable_put: "is_object e \<Longrightarrow> scoreable (json_put ''dt_ms'' x e) = scoreable e"
  by (simp add: scoreable_def kind_put markers_ok_def results_ok_def json_get_put)

lemma hora_event_scoreable:
  assumes "set (hi_ura_doras hi) \<subseteq> mjai_of_wire ` set wire_tiles"
  shows "scoreable (hora_event h k d hi)"
  using assms wire_tile_marker
  by (auto simp: scoreable_def markers_ok_def hora_event_def json_array_def List.map_filter_def list_all_iff comp_def)

lemma emitted_scoreable:
  assumes "markers_readable event" and "e \<in> set (emitted n st event)"
  shows "scoreable e"
proof (cases event)
  case (Hule h)
  with assms hora_event_scoreable show ?thesis
    by (auto simp: emitted_def markers_readable_def end_kyoku_event_def scoreable_def [of "JObject _"])
qed (use assms(2) call_name_cases in \<open>auto simp: emitted_def accepted_now_def new_doras_def kan_event_def event_defs
    scoreable_def call_name_def split: option.splits an_gang_add_gang_type.splits chi_peng_gang_type.splits if_splits\<close>)

lemma as_u64_u32: "as_u64 (j_u32 w) = Some (unat w)" and unat_u32_less: "unat (w::u32) < 2 ^ 60 - 1"
proof -
  have w: "uint w < 2 ^ 32" using uint_lt2p [of w] by simp
  then show "as_u64 (j_u32 w) = Some (unat w)" by (simp add: as_u64_def)
  have "unat w < 2 ^ 32" using unsigned_less [of w] by simp
  then show "unat w < 2 ^ 60 - 1" by simp
qed

lemma end_game_scoreable: "scoreable (end_game_event record)"
  using unat_u32_less
  by (auto simp: scoreable_def results_ok_def end_game_event_def json_array_def u64_or_zero_def as_u64_u32 list_all_iff)

lemma start_game_scoreable: "scoreable (start_game_event record header)"
  by (simp add: scoreable_def start_game_event_def)

lemma count_kind_filter: "count_kind k es = length (filter (\<lambda>e. kind e = Some k) es)"
  by (induction es) auto

lemma converted_hands:
  assumes "events_to_mjai record evs header = Inr es"
  shows "length (filter (\<lambda>e. kind e = Some ''start_kyoku'') es) = length (filter (\<lambda>pe. starts_hand (snd pe)) evs)"
proof -
  from assms obtain st where run: "try_fold (conv_step (length (gr_player_names record)))
      (conv_init record header) evs = Inr st" and es: "es = cs_events st @ [end_game_event record]"
    by (rule events_to_mjai_obtain)
  from conv_run_counts(2) [OF run] have "count_kind ''start_kyoku'' es = length (filter (\<lambda>pe. starts_hand (snd pe)) evs)"
    by (simp add: es bracket_defs)
  then show ?thesis by (simp add: count_kind_filter)
qed

text \<open>Claim C2: every converted game of at least two seats and one dealt hand is scored, never
  skipped and never a panic, as long as the ura indicators are tiles; the result is marked
  as detailed, and every seat played every dealt hand.\<close>

theorem converted_game_scores:
  assumes "events_to_mjai record evs header = Inr es" and "2 \<le> length (gr_player_names record)"
    and "\<exists>pe \<in> set evs. starts_hand (snd pe)" and "\<forall>pe \<in> set evs. markers_readable (snd pe)"
  shows "\<exists>g. replay es = Inr (Some g) \<and> gs_detailed g \<and> length (gs_players g) = length (gr_player_names record) \<and>
     (\<forall>i < length (gs_players g). ss_hands (gs_players g ! i) = of_nat (length (filter (\<lambda>pe. starts_hand (snd pe)) evs)))"
proof -
  have scoreable: "\<forall>e \<in> set es. scoreable e"
    using assms(1)
    by (rule events_to_mjai_all)
       (use assms(4) emitted_scoreable start_game_scoreable end_game_scoreable scoreable_put in auto)
  have hands: "\<exists>e \<in> set es. kind e = Some ''start_kyoku''"
  proof -
    have "filter (\<lambda>pe. starts_hand (snd pe)) evs \<noteq> []" using assms(3) by (auto simp: filter_empty_conv)
    with converted_hands [OF assms(1)] have "filter (\<lambda>e. kind e = Some ''start_kyoku'') es \<noteq> []"
      by (metis length_0_conv)
    then show ?thesis by (auto simp: filter_empty_conv)
  qed
  have names: "Option.bind (json_get ''names'' (start_game_event record header)) as_array =
      Some (map JString (gr_player_names record))"
    by (simp add: start_game_event_def)
  have "2 \<le> length (map JString (gr_player_names record))" using assms(2) by simp
  from replay_scores [OF start_of_converted(3) [OF assms(1)] names this hands scoreable]
  obtain g where g: "replay es = Inr (Some g)" "gs_detailed g = list_ex is_detailed es"
      "length (gs_players g) = length (gr_player_names record)"
    unfolding length_map by blast
  have "list_ex is_detailed es"
    using events_to_mjai_brackets [OF assms(1)] by (auto simp: is_detailed_def end_game_event_def)
  then show ?thesis
    using g replay_counters [OF g(1)] converted_hands [OF assms(1)] by auto
qed

section \<open>Witnesses\<close>

theorem converted_record_reads_back_witness:
  "\<exists>payload. convert_record_bytes toy_print (\<lambda>bytes. bytes) (enc_record sample_record) None = Inr (''u'', payload) \<and>
     (\<exists>m. parse_metadata (toy_parse None) (\<lambda>_. None) toy_print (\<lambda>_. True) payload = Inr m \<and>
        length (md_players m) = 2)"
proof -
  have decode: "decode_game_record (enc_record sample_record) = Inr sample_record"
    by (rule decode_game_record_enc [OF sample_record_wf]) (simp add: sample_record_def enc_defs)
  have size: "20 \<le> length (enc_record sample_record)"
    by (simp add: sample_record_def enc_defs)
  have actions: "gr_records sample_record \<noteq> []" "parse_actions (gr_records sample_record) = Inr []"
    by (simp_all add: sample_record_def parse_actions_def parse_record_action_def)
  have es: "events_to_mjai sample_record [] (header_of sample_record None) = Inr (sample_stream None)"
    by (simp add: events_to_mjai_def conv_init_def sample_stream_def)
  from converted_record_reads_back [OF size decode actions es, where gzip = "\<lambda>bytes. bytes" and gunzip = "\<lambda>bytes. bytes"
      and from_str_vec = "\<lambda>_. None" and timestamp_ok = "\<lambda>_. True", OF refl sample_prints_back [of _ None]]
  show ?thesis by (auto simp: sample_record_def)
qed

theorem converted_game_scores_witness:
  "\<exists>es g. events_to_mjai sample_record sample_events None = Inr es \<and> replay es = Inr (Some g) \<and> gs_detailed g"
proof -
  obtain es where es: "events_to_mjai sample_record sample_events None = Inr es"
    using sample_events_convert by blast
  have "2 \<le> length (gr_player_names sample_record)" "\<exists>pe \<in> set sample_events. starts_hand (snd pe)"
    "\<forall>pe \<in> set sample_events. markers_readable (snd pe)"
    by (simp_all add: sample_record_def sample_events_def starts_hand_def markers_readable_def sample_hule_def
        hule_info_default_def)
  from converted_game_scores [OF es this] es show ?thesis by blast
qed

end
